(* ===== verification/Rust_Prelude.thy ===== *)
theory Rust_Prelude
  imports Main "HOL-Library.Word" "HOL-Library.Sublist"
begin

text \<open>
  What the components share: the parts of the Rust language and of its standard library that
  the sources use.

  \<^item> A Rust \<open>str\<close> is a sequence of UTF-8 bytes, so a string is a \<^typ>\<open>char list\<close> whose
    elements are bytes; \<open>len()\<close> is \<^const>\<open>length\<close>. \<open>chars_of\<close> splits a string into its
    Unicode scalar values, each kept as the group of bytes that encodes it; \<open>valid_utf8\<close> is
    the invariant Rust maintains for every \<open>str\<close>.
  \<^item> Saturating arithmetic on fixed-width unsigned integers is defined on words.
  \<^item> JSON values as \<open>serde_json::Value\<close> holds them; the parser and printer of that crate are
    arguments of the definitions that use them.
\<close>

section \<open>Collections of facts\<close>

named_theorems str_simps \<open>rewriting of string primitives\<close>
named_theorems sat_simps \<open>saturating arithmetic read as natural numbers\<close>

section \<open>Strings as UTF-8 bytes\<close>

definition byte_of :: "char \<Rightarrow> nat" where
  "byte_of c = of_char c"

text \<open>UTF-8 continuation bytes are \<open>0b10xxxxxx\<close>.\<close>

definition is_cont :: "char \<Rightarrow> bool" where
  "is_cont c \<longleftrightarrow> 128 \<le> byte_of c \<and> byte_of c < 192"

function chars_of :: "string \<Rightarrow> string list" where
  "chars_of [] = []"
| "chars_of (b # bs) = (b # takeWhile is_cont bs) # chars_of (dropWhile is_cont bs)"
  by pat_completeness auto
termination
  by (relation "measure length") (auto simp: le_imp_less_Suc length_dropWhile_le)

text \<open>\<open>char::len_utf8\<close> of the scalar value that starts with byte \<open>b\<close>.\<close>

definition utf8_width :: "char \<Rightarrow> nat" where
  "utf8_width b = (if byte_of b < 128 then 1 else if byte_of b < 224 then 2
     else if byte_of b < 240 then 3 else 4)"

definition valid_char :: "string \<Rightarrow> bool" where
  "valid_char g \<longleftrightarrow> g \<noteq> [] \<and> \<not> is_cont (hd g) \<and> length g = utf8_width (hd g)"

definition valid_utf8 :: "string \<Rightarrow> bool" where
  "valid_utf8 s \<longleftrightarrow> list_all valid_char (chars_of s)"

definition char_count :: "string \<Rightarrow> nat" where
  "char_count s = length (chars_of s)"

definition is_char_boundary :: "string \<Rightarrow> nat \<Rightarrow> bool" where
  "is_char_boundary s i \<longleftrightarrow> i = 0 \<or> i = length s \<or> (i < length s \<and> \<not> is_cont (s ! i))"

text \<open>
  The white space of \<open>char::is_whitespace\<close> (Unicode \<open>White_Space\<close>), one byte group per scalar
  value: U+0009 to U+000D, U+0020, U+0085, U+00A0, U+1680, U+2000 to U+200A, U+2028, U+2029,
  U+202F, U+205F and U+3000.
\<close>

definition bytes_str :: "nat list \<Rightarrow> string" where
  "bytes_str ns = map char_of ns"

definition whitespace_chars :: "string list" where
  "whitespace_chars = map bytes_str
     ([[9], [10], [11], [12], [13], [32], [194, 133], [194, 160], [225, 154, 128]]
      @ map (\<lambda>n. [226, 128, n]) [128, 129, 130, 131, 132, 133, 134, 135, 136, 137, 138]
      @ [[226, 128, 168], [226, 128, 169], [226, 128, 175], [226, 129, 159], [227, 128, 128]])"

lemma whitespace_chars_literal [code]:
  "whitespace_chars =
     [[CHR 0x09], [CHR 0x0A], [CHR 0x0B], [CHR 0x0C],
      [CHR 0x0D], [CHR 0x20], [CHR 0xC2, CHR 0x85], [CHR 0xC2, CHR 0xA0],
      [CHR 0xE1, CHR 0x9A, CHR 0x80], [CHR 0xE2, CHR 0x80, CHR 0x80], [CHR 0xE2, CHR 0x80, CHR 0x81], [CHR 0xE2, CHR 0x80, CHR 0x82],
      [CHR 0xE2, CHR 0x80, CHR 0x83], [CHR 0xE2, CHR 0x80, CHR 0x84], [CHR 0xE2, CHR 0x80, CHR 0x85], [CHR 0xE2, CHR 0x80, CHR 0x86],
      [CHR 0xE2, CHR 0x80, CHR 0x87], [CHR 0xE2, CHR 0x80, CHR 0x88], [CHR 0xE2, CHR 0x80, CHR 0x89], [CHR 0xE2, CHR 0x80, CHR 0x8A],
      [CHR 0xE2, CHR 0x80, CHR 0xA8], [CHR 0xE2, CHR 0x80, CHR 0xA9], [CHR 0xE2, CHR 0x80, CHR 0xAF], [CHR 0xE2, CHR 0x81, CHR 0x9F],
      [CHR 0xE3, CHR 0x80, CHR 0x80]]"
  by (simp add: whitespace_chars_def bytes_str_def char_of_def bit_0)

definition is_whitespace :: "string \<Rightarrow> bool" where
  "is_whitespace g \<longleftrightarrow> g \<in> set whitespace_chars"

definition trim :: "string \<Rightarrow> string" where
  "trim s = concat (rev (dropWhile is_whitespace (rev (dropWhile is_whitespace (chars_of s)))))"

text \<open>\<open>str::contains\<close> and \<open>str::find\<close> with a string pattern.\<close>

fun contains_str :: "string \<Rightarrow> string \<Rightarrow> bool" where
  "contains_str p [] \<longleftrightarrow> p = []"
| "contains_str p (c # cs) \<longleftrightarrow> prefix p (c # cs) \<or> contains_str p cs"

fun find_str :: "string \<Rightarrow> string \<Rightarrow> nat option" where
  "find_str p [] = (if p = [] then Some 0 else None)"
| "find_str p (c # cs) = (if prefix p (c # cs) then Some 0 else map_option Suc (find_str p cs))"

definition strip_prefix :: "string \<Rightarrow> string \<Rightarrow> string option" where
  "strip_prefix p s = (if prefix p s then Some (drop (length p) s) else None)"

definition strip_suffix :: "string \<Rightarrow> string \<Rightarrow> string option" where
  "strip_suffix p s = (if suffix p s then Some (take (length s - length p) s) else None)"

text \<open>The decimal rendering that \<open>format!\<close> gives an unsigned integer.\<close>

definition digit_char :: "nat \<Rightarrow> char" where
  "digit_char d = char_of (48 + d)"

fun show_nat :: "nat \<Rightarrow> string" where
  "show_nat n = (if n < 10 then [digit_char n] else show_nat (n div 10) @ [digit_char (n mod 10)])"

declare show_nat.simps [simp del]

subsection \<open>Facts about strings\<close>

lemma concat_chars_of [simp]: "concat (chars_of s) = s"
  by (induction s rule: chars_of.induct) simp_all

lemma chars_of_nonempty: "g \<in> set (chars_of s) \<Longrightarrow> g \<noteq> []"
  by (induction s rule: chars_of.induct) auto

lemma chars_of_eq_Nil [simp]: "chars_of s = [] \<longleftrightarrow> s = []"
  by (cases s) simp_all

lemma chars_of_tail_cont: "g \<in> set (chars_of s) \<Longrightarrow> \<forall>c \<in> set (tl g). is_cont c"
  by (induction s rule: chars_of.induct) (auto dest: set_takeWhileD)

lemma chars_of_eq_takeWhile_append:
  assumes "\<forall>c \<in> set g. is_cont c" and "s = [] \<or> \<not> is_cont (hd s)"
  shows "chars_of (b # g @ s) = (b # g) # chars_of s"
proof -
  have "takeWhile is_cont (g @ s) = g" and "dropWhile is_cont (g @ s) = s"
    using assms by (cases s; auto simp: takeWhile_append dropWhile_append)+
  then show ?thesis by simp
qed

lemma is_cont_hd_dropWhile: "dropWhile is_cont s = [] \<or> \<not> is_cont (hd (dropWhile is_cont s))"
  by (metis hd_dropWhile)

text \<open>Every group of \<^const>\<open>chars_of\<close> after the first starts with a byte that starts a character.\<close>

lemma chars_of_append_boundary:
  "t = [] \<or> \<not> is_cont (hd t) \<Longrightarrow> chars_of (s @ t) = chars_of s @ chars_of t"
proof (induction s rule: chars_of.induct)
  case 1
  then show ?case by simp
next
  case (2 b bs)
  have tk: "takeWhile is_cont (bs @ t) = takeWhile is_cont bs"
    and dr: "dropWhile is_cont (bs @ t) = dropWhile is_cont bs @ t"
    using "2.prems" by (induction bs) (cases t; auto)+
  show ?case using "2.IH" [OF "2.prems"] by (simp add: tk dr)
qed

lemma chars_of_single:
  "chars_of [b] = [[b]]"
  by simp

lemma prefix_contains: "prefix p s \<Longrightarrow> contains_str p s"
  by (cases s) auto

lemma contains_str_append_left: "contains_str p s \<Longrightarrow> contains_str p (s @ t)"
proof (induction s)
  case Nil
  then show ?case by (simp add: prefix_contains)
next
  case (Cons c cs)
  then show ?case by (auto intro: prefix_prefix [of p "c # cs" t, simplified])
qed

lemma contains_str_append_right: "contains_str p t \<Longrightarrow> contains_str p (s @ t)"
  by (induction s) auto

lemma contains_str_iff: "contains_str p s \<longleftrightarrow> (\<exists>a b. s = a @ p @ b)"
proof
  show "contains_str p s \<Longrightarrow> \<exists>a b. s = a @ p @ b"
  proof (induction s)
    case Nil
    then show ?case by simp
  next
    case (Cons c cs)
    then consider "prefix p (c # cs)" | "contains_str p cs" by auto
    then show ?case
    proof cases
      case 1
      then obtain b where "c # cs = [] @ p @ b" by (auto elim: prefixE)
      then show ?thesis by blast
    next
      case 2
      with Cons.IH obtain a b where "cs = a @ p @ b" by blast
      then have "c # cs = (c # a) @ p @ b" by simp
      then show ?thesis by blast
    qed
  qed
next
  assume "\<exists>a b. s = a @ p @ b"
  then obtain a b where "s = a @ p @ b" by blast
  then show "contains_str p s"
    by (simp add: contains_str_append_right prefix_contains)
qed

lemma find_str_None_iff: "find_str p s = None \<longleftrightarrow> \<not> contains_str p s"
  by (induction s) auto

lemma find_str_SomeD: "find_str p s = Some i \<Longrightarrow> prefix p (drop i s) \<and> i + length p \<le> length s"
proof (induction s arbitrary: i)
  case Nil
  then show ?case by (auto split: if_splits)
next
  case (Cons c cs)
  show ?case
  proof (cases "prefix p (c # cs)")
    case True
    with Cons.prems show ?thesis by (auto dest: prefix_length_le)
  next
    case False
    with Cons.prems obtain j where "find_str p cs = Some j" and "i = Suc j" by auto
    with Cons.IH show ?thesis by auto
  qed
qed

lemma find_str_split: "find_str p s = Some i \<Longrightarrow> s = take i s @ p @ drop (i + length p) s"
  by (metis append_eq_conv_conj append_take_drop_id drop_drop find_str_SomeD add.commute prefix_def)

section \<open>Saturating arithmetic on machine words\<close>

type_synonym u8 = "8 word"
type_synonym u16 = "16 word"
type_synonym u32 = "32 word"
type_synonym u64 = "64 word"

definition saturating_add :: "'a::len word \<Rightarrow> 'a word \<Rightarrow> 'a word" where
  "saturating_add a b = (if unat a + unat b < 2 ^ LENGTH('a) then a + b else - 1)"

definition saturating_sub :: "'a::len word \<Rightarrow> 'a word \<Rightarrow> 'a word" where
  "saturating_sub a b = (if b \<le> a then a - b else 0)"

lemma unat_saturating_add [sat_simps]:
  "unat (saturating_add a b) = min (unat a + unat b) (2 ^ LENGTH('a) - 1)"
  for a b :: "'a::len word"
  by (auto simp: saturating_add_def unat_word_ariths unsigned_minus_1_eq_mask mask_eq_exp_minus_1)

lemma unat_saturating_sub [sat_simps]: "unat (saturating_sub a b) = unat a - unat b"
  for a b :: "'a::len word"
  by (auto simp: saturating_sub_def unat_sub word_le_nat_alt)

lemma saturating_add_commute: "saturating_add a b = saturating_add b a"
  by (simp add: saturating_add_def add.commute)

lemma saturating_add_assoc:
  "saturating_add (saturating_add a b) c = saturating_add a (saturating_add b c)"
  by (simp add: word_unat_eq_iff sat_simps)

lemma saturating_add_0 [simp]: "saturating_add 0 a = a" "saturating_add a 0 = a"
  by (simp_all add: saturating_add_def)

section \<open>JSON values\<close>

text \<open>
  \<open>serde_json::Value\<close>. A number is kept as the text it was read from; an object is an
  association list in which a key occurs once.
\<close>

datatype json =
    JNull
  | JBool bool
  | JNumber string
  | JString string
  | JArray "json list"
  | JObject "(string \<times> json) list"

text \<open>\<open>Value::get\<close> with a key, \<open>Value::as_str\<close> and \<open>Value::as_array\<close>.\<close>

fun json_get :: "json \<Rightarrow> string \<Rightarrow> json option" where
  "json_get (JObject kvs) k = map_of kvs k"
| "json_get _ k = None"

fun as_str :: "json \<Rightarrow> string option" where
  "as_str (JString s) = Some s"
| "as_str _ = None"

fun as_array :: "json \<Rightarrow> json list option" where
  "as_array (JArray xs) = Some xs"
| "as_array _ = None"

end
