(* ===== verification/Algebra_Traits.thy ===== *)
theory Algebra_Traits
  imports Rust_Prelude "HOL-Library.Multiset"
begin

text \<open>
  The contracts of the traits in \<open>crates/rc-algebra/src/traits.rs\<close> as locales. Rust states the
  laws of \<open>Monoid\<close>, \<open>Group\<close> and \<open>Semilattice\<close> in documentation only; here they are the
  assumptions of a locale, the consequences the callers rely on (sharded reduction, reduction
  in any order, eviction, convergence of gossip) are proved once from them, and every
  implementation of a trait interprets the locale. \<open>carrier\<close> is the type's representation
  invariant (a fixed array length, a reduced residue). A method that mutates \<open>self\<close> is a
  function that returns the new \<open>self\<close>.
\<close>

section \<open>Reduction of a sequence\<close>

text \<open>Folding an accumulator over a batch of elements, starting from the identity.\<close>

definition reduce :: "('a \<Rightarrow> 'a \<Rightarrow> 'a) \<Rightarrow> 'a \<Rightarrow> 'a list \<Rightarrow> 'a" where
  "reduce opr e xs = fold (\<lambda>x acc. opr acc x) xs e"

lemma reduce_Nil [simp]: "reduce opr e [] = e"
  by (simp add: reduce_def)

lemma reduce_snoc [simp]: "reduce opr e (xs @ [x]) = opr (reduce opr e xs) x"
  by (simp add: reduce_def)

section \<open>Monoid\<close>

locale monoid_trait =
  fixes carrier :: "'a \<Rightarrow> bool" and ident :: 'a and opr :: "'a \<Rightarrow> 'a \<Rightarrow> 'a"
  assumes ident_carrier: "carrier ident"
    and opr_carrier: "carrier a \<Longrightarrow> carrier b \<Longrightarrow> carrier (opr a b)"
    and opr_assoc: "carrier a \<Longrightarrow> carrier b \<Longrightarrow> carrier c \<Longrightarrow> opr (opr a b) c = opr a (opr b c)"
    and opr_left_id: "carrier a \<Longrightarrow> opr ident a = a"
    and opr_right_id: "carrier a \<Longrightarrow> opr a ident = a"
begin

lemma reduce_carrier: "\<forall>x \<in> set xs. carrier x \<Longrightarrow> carrier (reduce opr ident xs)"
  by (induction xs rule: rev_induct) (auto simp: ident_carrier opr_carrier)

lemma reduce_append:
  "\<forall>x \<in> set (xs @ ys). carrier x \<Longrightarrow>
     reduce opr ident (xs @ ys) = opr (reduce opr ident xs) (reduce opr ident ys)"
proof (induction ys rule: rev_induct)
  case Nil
  then show ?case by (simp add: opr_right_id reduce_carrier)
next
  case (snoc y ys)
  have "reduce opr ident (xs @ ys @ [y]) = opr (reduce opr ident (xs @ ys)) y"
    using reduce_snoc [of opr ident "xs @ ys" y] by simp
  with snoc show ?case by (simp add: opr_assoc reduce_carrier)
qed

text \<open>Sharding: reducing every shard and then the partial results reduces the whole.\<close>

lemma reduce_shards:
  "\<forall>x \<in> set (concat xss). carrier x \<Longrightarrow>
     reduce opr ident (concat xss) = reduce opr ident (map (reduce opr ident) xss)"
proof (induction xss rule: rev_induct)
  case Nil
  then show ?case by simp
next
  case (snoc xs xss)
  then have "reduce opr ident (concat xss @ xs) =
      opr (reduce opr ident (concat xss)) (reduce opr ident xs)"
    by (intro reduce_append) auto
  with snoc show ?case by simp
qed

end

locale comm_monoid_trait = monoid_trait +
  assumes opr_comm: "carrier a \<Longrightarrow> carrier b \<Longrightarrow> opr a b = opr b a"
begin

lemma reduce_remove1:
  assumes "x \<in> set xs" and "\<forall>y \<in> set xs. carrier y"
  shows "reduce opr ident xs = opr (reduce opr ident (remove1 x xs)) x"
proof -
  obtain as bs where xs: "xs = as @ x # bs" and nx: "x \<notin> set as"
    using split_list_first [OF assms(1)] by blast
  have c: "\<forall>y \<in> set (as @ [x] @ bs). carrier y" using assms(2) xs by auto
  have cas: "carrier (reduce opr ident as)" and cbs: "carrier (reduce opr ident bs)" and cx: "carrier x"
    using c by (auto intro: reduce_carrier)
  have one: "reduce opr ident [x] = x"
    using reduce_snoc [of opr ident "[]" x] cx by (simp add: opr_left_id)
  have "reduce opr ident xs = opr (reduce opr ident as) (opr x (reduce opr ident bs))"
    using reduce_append [of as "[x] @ bs"] reduce_append [of "[x]" bs] c xs by (simp add: one)
  also have "\<dots> = opr (opr (reduce opr ident as) (reduce opr ident bs)) x"
    using cas cbs cx by (simp add: opr_comm [OF cx cbs] opr_assoc)
  also have "\<dots> = opr (reduce opr ident (as @ bs)) x"
    using reduce_append [of as bs] c by simp
  finally show ?thesis using xs nx by (simp add: remove1_append)
qed

text \<open>Order independence: equal multisets of elements reduce to the same value.\<close>

lemma reduce_mset_cong:
  "mset xs = mset ys \<Longrightarrow> \<forall>x \<in> set xs. carrier x \<Longrightarrow> reduce opr ident xs = reduce opr ident ys"
proof (induction ys arbitrary: xs rule: rev_induct)
  case Nil
  then show ?case by simp
next
  case (snoc y ys)
  have y: "y \<in> set xs" using snoc.prems(1) mset_eq_setD by fastforce
  have "mset (remove1 y xs) = mset ys" using snoc.prems(1) by simp
  moreover have "\<forall>x \<in> set (remove1 y xs). carrier x"
    using snoc.prems(2) by (auto dest: notin_set_remove1)
  ultimately have "reduce opr ident (remove1 y xs) = reduce opr ident ys" by (rule snoc.IH)
  then show ?case using reduce_remove1 [OF y snoc.prems(2)] by simp
qed

end

section \<open>Group\<close>

locale group_trait = comm_monoid_trait +
  fixes inv_op :: "'a \<Rightarrow> 'a \<Rightarrow> 'a"
  assumes inv_op_carrier: "carrier a \<Longrightarrow> carrier b \<Longrightarrow> carrier (inv_op a b)"
    and inv_op_opr: "carrier a \<Longrightarrow> carrier b \<Longrightarrow> inv_op (opr a b) b = a"
begin

text \<open>Eviction: applying the inverse of an element removes one occurrence of it.\<close>

lemma inv_op_reduce:
  "x \<in> set xs \<Longrightarrow> \<forall>y \<in> set xs. carrier y \<Longrightarrow>
     inv_op (reduce opr ident xs) x = reduce opr ident (remove1 x xs)"
proof -
  assume x: "x \<in> set xs" and c: "\<forall>y \<in> set xs. carrier y"
  have "carrier (reduce opr ident (remove1 x xs))"
    using c by (intro reduce_carrier) (auto dest: notin_set_remove1)
  moreover have "carrier x" using x c by blast
  ultimately show ?thesis using inv_op_opr reduce_remove1 [OF x c] by simp
qed

end

section \<open>Join semilattice\<close>

text \<open>
  \<open>compat\<close> relates the states whose entries agree where they carry the same version; the
  laws of the join hold between compatible states.
\<close>

locale semilattice_trait =
  fixes carrier :: "'a \<Rightarrow> bool" and compat :: "'a \<Rightarrow> 'a \<Rightarrow> bool" and join :: "'a \<Rightarrow> 'a \<Rightarrow> 'a"
  assumes join_carrier: "carrier a \<Longrightarrow> carrier b \<Longrightarrow> carrier (join a b)"
    and compat_join: "carrier a \<Longrightarrow> carrier b \<Longrightarrow> carrier c \<Longrightarrow> compat a b \<Longrightarrow> compat a c \<Longrightarrow>
          compat a (join b c)"
    and compat_sym: "compat a b \<Longrightarrow> compat b a"
    and join_idem: "carrier a \<Longrightarrow> join a a = a"
    and join_comm: "carrier a \<Longrightarrow> carrier b \<Longrightarrow> compat a b \<Longrightarrow> join a b = join b a"
    and join_assoc: "carrier a \<Longrightarrow> carrier b \<Longrightarrow> carrier c \<Longrightarrow> join (join a b) c = join a (join b c)"
begin

text \<open>
  Convergence of gossip: a replica that receives the states \<open>xs\<close> in any order, with any
  state delivered again, ends in the same state.
\<close>

lemma fold_join_carrier:
  "carrier a \<Longrightarrow> \<forall>x \<in> set xs. carrier x \<Longrightarrow> carrier (fold (\<lambda>x s. join s x) xs a)"
  by (induction xs arbitrary: a) (auto simp: join_carrier)

lemma fold_join_out:
  "carrier a \<Longrightarrow> carrier b \<Longrightarrow> \<forall>x \<in> set xs. carrier x \<Longrightarrow>
     fold (\<lambda>x s. join s x) xs (join a b) = join a (fold (\<lambda>x s. join s x) xs b)"
proof (induction xs arbitrary: b)
  case Nil
  then show ?case by simp
next
  case (Cons x xs)
  then have "join (join a b) x = join a (join b x)" by (simp add: join_assoc)
  with Cons.IH [of "join b x"] Cons.prems show ?case by (simp add: join_carrier)
qed

lemma compat_fold:
  "carrier a \<Longrightarrow> carrier b \<Longrightarrow> \<forall>x \<in> set xs. carrier x \<Longrightarrow> compat a b \<Longrightarrow>
     \<forall>x \<in> set xs. compat a x \<Longrightarrow> compat a (fold (\<lambda>x s. join s x) xs b)"
  by (induction xs arbitrary: b) (auto simp: join_carrier compat_join)

lemma join_absorb_member:
  assumes "x \<in> set xs" and "carrier a" and "\<forall>y \<in> set xs. carrier y"
    and "\<forall>y \<in> set (a # xs). \<forall>z \<in> set (a # xs). compat y z"
  shows "join (fold (\<lambda>x s. join s x) xs a) x = fold (\<lambda>x s. join s x) xs a"
  using assms
proof (induction xs arbitrary: a)
  case Nil
  then show ?case by simp
next
  case (Cons y ys)
  let ?F = "fold (\<lambda>x s. join s x) ys"
  have ca: "carrier (join a y)" and cy: "carrier y" and cx: "carrier x" and cys: "\<forall>z \<in> set ys. carrier z"
    using Cons.prems by (auto simp: join_carrier)
  have compat_ay: "\<forall>z \<in> set ys. compat z (join a y)" and compat_ys: "\<forall>z \<in> set ys. \<forall>w \<in> set ys. compat z w"
    and refl: "compat (join a y) (join a y)"
    using Cons.prems by (auto intro!: compat_join simp: join_carrier compat_sym intro: compat_sym)
  show ?case
  proof (cases "x \<in> set ys")
    case True
    have "join (?F (join a y)) x = ?F (join a y)"
    proof (rule Cons.IH [OF True ca cys])
      show "\<forall>u \<in> set (join a y # ys). \<forall>z \<in> set (join a y # ys). compat u z"
        using compat_ay compat_ys refl by (auto intro: compat_sym)
    qed
    then show ?thesis by simp
  next
    case False
    with Cons.prems have xy: "x = y" by simp
    have cF: "carrier (?F y)" using cy cys by (rule fold_join_carrier)
    have "join (?F y) y = ?F y"
    proof -
      have yF: "compat y (?F y)"
        using Cons.prems cy cys by (intro compat_fold) auto
      have "join (?F y) y = join y (?F y)"
        using join_comm [OF cy cF yF] by simp
      also have "\<dots> = ?F (join y y)" using fold_join_out [OF cy cy cys] by simp
      finally show ?thesis by (simp add: join_idem cy)
    qed
    moreover have "?F (join a y) = join a (?F y)"
      using Cons.prems cys by (intro fold_join_out) auto
    ultimately show ?thesis
      using xy Cons.prems cF cy by (simp add: join_assoc)
  qed
qed

lemma join_absorb_start:
  assumes "carrier a" and "\<forall>y \<in> set xs. carrier y" and "compat a a" and "\<forall>y \<in> set xs. compat a y"
  shows "join (fold (\<lambda>x s. join s x) xs a) a = fold (\<lambda>x s. join s x) xs a"
proof -
  let ?X = "fold (\<lambda>x s. join s x) xs a"
  have cX: "carrier ?X" and aX: "compat a ?X"
    using assms by (auto intro: fold_join_carrier compat_fold)
  have "join ?X a = join a ?X" using join_comm [OF assms(1) cX aX] by simp
  also have "\<dots> = fold (\<lambda>x s. join s x) xs (join a a)"
    using assms by (simp add: fold_join_out)
  finally show ?thesis using assms(1) by (simp add: join_idem)
qed

lemma fold_join_set_cong:
  assumes "set xs = set ys" and "carrier a" and "\<forall>y \<in> set xs. carrier y"
    and cc: "\<forall>y \<in> set (a # xs). \<forall>z \<in> set (a # xs). compat y z"
  shows "fold (\<lambda>x s. join s x) xs a = fold (\<lambda>x s. join s x) ys a"
proof -
  have below: "join (fold (\<lambda>x s. join s x) us a) (fold (\<lambda>x s. join s x) vs a) = fold (\<lambda>x s. join s x) us a"
    if uv: "set vs \<subseteq> set us" and us: "set us = set xs" for us vs
  proof -
    let ?U = "fold (\<lambda>x s. join s x) us a"
    have cu: "\<forall>y \<in> set us. carrier y" and cU: "carrier ?U"
      using assms us by (auto intro: fold_join_carrier)
    have "fold (\<lambda>x s. join s x) vs ?U = ?U"
      using uv
    proof (induction vs)
      case (Cons v vs)
      have "join ?U v = ?U"
        using Cons.prems assms us by (intro join_absorb_member) auto
      with Cons show ?case by simp
    qed simp
    moreover have "join ?U a = ?U"
      using assms us by (intro join_absorb_start) auto
    moreover have "fold (\<lambda>x s. join s x) vs (join ?U a) = join ?U (fold (\<lambda>x s. join s x) vs a)"
      using cU assms us uv by (intro fold_join_out) auto
    ultimately show ?thesis by simp
  qed
  let ?X = "fold (\<lambda>x s. join s x) xs a" and ?Y = "fold (\<lambda>x s. join s x) ys a"
  have cX: "carrier ?X" and cY: "carrier ?Y" using assms by (auto intro: fold_join_carrier)
  have "compat z ?X" if "z \<in> set (a # xs)" for z
    using that assms by (intro compat_fold) auto
  then have "\<forall>z \<in> set (a # ys). compat ?X z" using assms(1) by (auto intro: compat_sym)
  then have Xa: "compat ?X a" and Xys: "\<forall>z \<in> set ys. compat ?X z" by simp_all
  have cys: "\<forall>y \<in> set ys. carrier y" using assms(1,3) by simp
  have "compat ?X ?Y" by (rule compat_fold [OF cX assms(2) cys Xa Xys])
  then have XY: "join ?X ?Y = join ?Y ?X" by (rule join_comm [OF cX cY])
  have "join ?X ?Y = ?X" using below [of ys xs] assms(1) by blast
  moreover have "join ?Y ?X = ?Y" using below [of xs ys] assms(1) by blast
  ultimately show ?thesis using XY by metis
qed

end

end
