(* ===== verification/Multiset_Hash.thy ===== *)
theory Multiset_Hash
  imports Algebra_Traits
begin

text \<open>
  The multiset hash of \<open>crates/rc-algebra/src/multiset.rs\<close>: \<open>LtHash\<close>, its add and subtract
  kernels (scalar, AVX2 and the NEON assembly loop), and \<open>ContextSet\<close>, the accumulator kept
  beside the live blocks. SHA-256 and the BLAKE3 extendable output are third-party code and are
  arguments (\<open>sha256\<close>, \<open>xof\<close>). An array \<open>[u16; 1024]\<close> is a list whose length is the carrier
  of the group.
\<close>

section \<open>Kernels\<close>

datatype target = X86_64 (avx2_detected: bool) | AArch64 | OtherArch

definition limb_count :: nat where
  "limb_count = 1024"

text \<open>\<open>for (a, b) in lhs.iter_mut().zip(rhs)\<close>: elements of \<open>lhs\<close> past the end of \<open>rhs\<close> stay.\<close>

definition zip_assign :: "(u16 \<Rightarrow> u16 \<Rightarrow> u16) \<Rightarrow> u16 list \<Rightarrow> u16 list \<Rightarrow> u16 list" where
  "zip_assign f lhs rhs = map2 f lhs rhs @ drop (length rhs) lhs"

definition add_assign_scalar :: "u16 list \<Rightarrow> u16 list \<Rightarrow> u16 list" where
  "add_assign_scalar lhs rhs = zip_assign (+) lhs rhs"

definition sub_assign_scalar :: "u16 list \<Rightarrow> u16 list \<Rightarrow> u16 list" where
  "sub_assign_scalar lhs rhs = zip_assign (-) lhs rhs"

text \<open>A vector load of \<open>w\<close> lanes at index \<open>i\<close>, and the store of a vector at index \<open>i\<close>.\<close>

definition load_lanes :: "nat \<Rightarrow> u16 list \<Rightarrow> nat \<Rightarrow> u16 list" where
  "load_lanes w a i = take w (drop i a)"

definition store_lanes :: "u16 list \<Rightarrow> nat \<Rightarrow> u16 list \<Rightarrow> u16 list" where
  "store_lanes a i v = take i a @ v @ drop (i + length v) a"

definition avx2_step :: "(u16 \<Rightarrow> u16 \<Rightarrow> u16) \<Rightarrow> u16 list \<Rightarrow> nat \<Rightarrow> u16 list \<Rightarrow> u16 list" where
  "avx2_step f rhs i lhs = store_lanes lhs i (map2 f (load_lanes 16 lhs i) (load_lanes 16 rhs i))"

text \<open>\<open>for i in (0..1024).step_by(16)\<close>.\<close>

definition add_assign_avx2 :: "u16 list \<Rightarrow> u16 list \<Rightarrow> u16 list" where
  "add_assign_avx2 lhs rhs = fold (avx2_step (+) rhs) (map (\<lambda>k. 16 * k) [0..<limb_count div 16]) lhs"

definition sub_assign_avx2 :: "u16 list \<Rightarrow> u16 list \<Rightarrow> u16 list" where
  "sub_assign_avx2 lhs rhs = fold (avx2_step (-) rhs) (map (\<lambda>k. 16 * k) [0..<limb_count div 16]) lhs"

text \<open>
  One iteration of the assembly loop: four vectors of eight lanes are loaded from each operand
  (\<open>ldp q0..q7\<close>), combined, and stored back with \<open>stp\<close>. Pointers are lane indices: \<open>#32\<close> bytes
  are 16 lanes and the increment of 64 bytes is 32 lanes.
\<close>

definition neon_step :: "(u16 \<Rightarrow> u16 \<Rightarrow> u16) \<Rightarrow> u16 list \<Rightarrow> nat \<Rightarrow> nat \<Rightarrow> u16 list \<Rightarrow> u16 list" where
  "neon_step f rhs lp rp lhs =
     (let q0 = load_lanes 8 lhs lp; q1 = load_lanes 8 lhs (lp + 8);
          q2 = load_lanes 8 lhs (lp + 16); q3 = load_lanes 8 lhs (lp + 24);
          q4 = load_lanes 8 rhs rp; q5 = load_lanes 8 rhs (rp + 8);
          q6 = load_lanes 8 rhs (rp + 16); q7 = load_lanes 8 rhs (rp + 24);
          v0 = map2 f q0 q4; v1 = map2 f q1 q5; v2 = map2 f q2 q6; v3 = map2 f q3 q7
      in store_lanes (store_lanes lhs lp (v0 @ v1)) (lp + 16) (v2 @ v3))"

function neon_loop :: "(u16 \<Rightarrow> u16 \<Rightarrow> u16) \<Rightarrow> u16 list \<Rightarrow> nat \<Rightarrow> nat \<Rightarrow> nat \<Rightarrow> u16 list \<Rightarrow> u16 list" where
  "neon_loop f rhs lp rp end_ptr lhs =
     (let lhs' = neon_step f rhs lp rp lhs
      in if lp + 32 < end_ptr then neon_loop f rhs (lp + 32) (rp + 32) end_ptr lhs' else lhs')"
  by pat_completeness auto
termination
  by (relation "measure (\<lambda>(f, rhs, lp, rp, end_ptr, lhs). end_ptr - lp)") auto

declare neon_loop.simps [simp del]

definition add_assign_neon_asm :: "u16 list \<Rightarrow> u16 list \<Rightarrow> u16 list" where
  "add_assign_neon_asm lhs rhs = neon_loop (+) rhs 0 0 limb_count lhs"

definition sub_assign_neon_asm :: "u16 list \<Rightarrow> u16 list \<Rightarrow> u16 list" where
  "sub_assign_neon_asm lhs rhs = neon_loop (-) rhs 0 0 limb_count lhs"

fun add_assign :: "target \<Rightarrow> u16 list \<Rightarrow> u16 list \<Rightarrow> u16 list" where
  "add_assign (X86_64 avx2) lhs rhs = (if avx2 then add_assign_avx2 lhs rhs else add_assign_scalar lhs rhs)"
| "add_assign AArch64 lhs rhs = add_assign_neon_asm lhs rhs"
| "add_assign OtherArch lhs rhs = add_assign_scalar lhs rhs"

fun sub_assign :: "target \<Rightarrow> u16 list \<Rightarrow> u16 list \<Rightarrow> u16 list" where
  "sub_assign (X86_64 avx2) lhs rhs = (if avx2 then sub_assign_avx2 lhs rhs else sub_assign_scalar lhs rhs)"
| "sub_assign AArch64 lhs rhs = sub_assign_neon_asm lhs rhs"
| "sub_assign OtherArch lhs rhs = sub_assign_scalar lhs rhs"

section \<open>LtHash\<close>

type_synonym lthash = "u16 list"

definition lt_zero :: lthash where
  "lt_zero = replicate limb_count 0"

definition lt_carrier :: "lthash \<Rightarrow> bool" where
  "lt_carrier h \<longleftrightarrow> length h = limb_count"

definition lt_op :: "target \<Rightarrow> lthash \<Rightarrow> lthash \<Rightarrow> lthash" where
  "lt_op t h other = add_assign t h other"

definition lt_inv_op :: "target \<Rightarrow> lthash \<Rightarrow> lthash \<Rightarrow> lthash" where
  "lt_inv_op t h other = sub_assign t h other"

text \<open>\<open>u16::to_le_bytes\<close> and \<open>u16::from_le_bytes\<close>.\<close>

definition u16_to_le :: "u16 \<Rightarrow> u8 list" where
  "u16_to_le w = [ucast w, ucast (drop_bit 8 w)]"

definition u16_from_le :: "u8 \<Rightarrow> u8 \<Rightarrow> u16" where
  "u16_from_le lo hi = ucast lo + push_bit 8 (ucast hi)"

definition lt_as_bytes :: "lthash \<Rightarrow> u8 list" where
  "lt_as_bytes h = concat (map u16_to_le h)"

section \<open>Block ids and their group elements\<close>

datatype block_id = BlockId (id_bytes: "u8 list")

definition block_from_bytes :: "(u8 list \<Rightarrow> u8 list) \<Rightarrow> u8 list \<Rightarrow> block_id" where
  "block_from_bytes sha256 canonical = BlockId (sha256 canonical)"

fun read_le_limbs :: "u8 list \<Rightarrow> u16 list" where
  "read_le_limbs (lo # hi # bs) = u16_from_le lo hi # read_le_limbs bs"
| "read_le_limbs _ = []"

text \<open>\<open>xof\<close> is the 2048-byte output of the keyed BLAKE3 stream for the given input.\<close>

definition expand_to_element :: "(u8 list \<Rightarrow> u8 list) \<Rightarrow> block_id \<Rightarrow> lthash" where
  "expand_to_element xof b = read_le_limbs (xof (id_bytes b))"

definition lt_add_block :: "target \<Rightarrow> (u8 list \<Rightarrow> u8 list) \<Rightarrow> block_id \<Rightarrow> lthash \<Rightarrow> lthash" where
  "lt_add_block t xof b h = add_assign t h (expand_to_element xof b)"

definition lt_remove :: "target \<Rightarrow> (u8 list \<Rightarrow> u8 list) \<Rightarrow> block_id \<Rightarrow> lthash \<Rightarrow> lthash" where
  "lt_remove t xof b h = sub_assign t h (expand_to_element xof b)"

section \<open>ContextSet\<close>

record context_set =
  cs_hash :: lthash
  cs_blocks :: "block_id list"

definition context_new :: context_set where
  "context_new = \<lparr>cs_hash = lt_zero, cs_blocks = []\<rparr>"

definition context_add_block :: "target \<Rightarrow> (u8 list \<Rightarrow> u8 list) \<Rightarrow> block_id \<Rightarrow> context_set \<Rightarrow> context_set" where
  "context_add_block t xof b cs =
     cs\<lparr>cs_hash := lt_add_block t xof b (cs_hash cs), cs_blocks := cs_blocks cs @ [b]\<rparr>"

definition context_add :: "target \<Rightarrow> (u8 list \<Rightarrow> u8 list) \<Rightarrow> (u8 list \<Rightarrow> u8 list) \<Rightarrow> u8 list \<Rightarrow>
    context_set \<Rightarrow> block_id \<times> context_set" where
  "context_add t sha256 xof canonical cs =
     (let b = block_from_bytes sha256 canonical in (b, context_add_block t xof b cs))"

text \<open>\<open>Iterator::rposition\<close>: the last index whose element satisfies the predicate.\<close>

fun rposition :: "('a \<Rightarrow> bool) \<Rightarrow> 'a list \<Rightarrow> nat option" where
  "rposition P [] = None"
| "rposition P (x # xs) =
     (case rposition P xs of Some i \<Rightarrow> Some (Suc i) | None \<Rightarrow> if P x then Some 0 else None)"

text \<open>\<open>Vec::swap_remove\<close>: the last element takes the place of the removed one.\<close>

definition swap_remove :: "'a list \<Rightarrow> nat \<Rightarrow> 'a list" where
  "swap_remove xs i = butlast (xs[i := last xs])"

definition context_evict :: "target \<Rightarrow> (u8 list \<Rightarrow> u8 list) \<Rightarrow> block_id \<Rightarrow> context_set \<Rightarrow> context_set" where
  "context_evict t xof b cs =
     (case rposition (\<lambda>x. x = b) (cs_blocks cs) of
        Some pos \<Rightarrow> cs\<lparr>cs_blocks := swap_remove (cs_blocks cs) pos, cs_hash := lt_remove t xof b (cs_hash cs)\<rparr>
      | None \<Rightarrow> cs)"

definition context_key :: "context_set \<Rightarrow> u8 list" where
  "context_key cs = lt_as_bytes (cs_hash cs)"

text \<open>A history of operations on a context.\<close>

datatype context_op = AddBlock block_id | Evict block_id

fun context_step :: "target \<Rightarrow> (u8 list \<Rightarrow> u8 list) \<Rightarrow> context_op \<Rightarrow> context_set \<Rightarrow> context_set" where
  "context_step t xof (AddBlock b) cs = context_add_block t xof b cs"
| "context_step t xof (Evict b) cs = context_evict t xof b cs"

section \<open>The kernels agree\<close>

lemma length_zip_assign [simp]: "length (zip_assign f lhs rhs) = length lhs"
  by (simp add: zip_assign_def)

lemma nth_zip_assign:
  "length lhs = length rhs \<Longrightarrow> i < length lhs \<Longrightarrow> zip_assign f lhs rhs ! i = f (lhs ! i) (rhs ! i)"
  by (simp add: zip_assign_def)

text \<open>The state of a vectorised loop that has processed the first \<open>i\<close> lanes.\<close>

definition lanes_done :: "(u16 \<Rightarrow> u16 \<Rightarrow> u16) \<Rightarrow> u16 list \<Rightarrow> u16 list \<Rightarrow> nat \<Rightarrow> u16 list" where
  "lanes_done f l r i = map2 f (take i l) (take i r) @ drop i l"

lemma lanes_done_0 [simp]: "lanes_done f l r 0 = l"
  by (simp add: lanes_done_def)

lemma lanes_done_all: "length l = length r \<Longrightarrow> length l \<le> i \<Longrightarrow> lanes_done f l r i = zip_assign f l r"
  by (simp add: lanes_done_def zip_assign_def)

lemma lanes_step:
  assumes len: "length l = length r" and w: "i + w \<le> length l"
  shows "store_lanes (lanes_done f l r i) i
           (map2 f (load_lanes w (lanes_done f l r i) i) (load_lanes w r i)) = lanes_done f l r (i + w)"
proof (rule nth_equalityI)
  show "length (store_lanes (lanes_done f l r i) i
           (map2 f (load_lanes w (lanes_done f l r i) i) (load_lanes w r i)))
        = length (lanes_done f l r (i + w))"
    using assms by (simp add: lanes_done_def load_lanes_def store_lanes_def)
qed (use assms in \<open>auto simp: lanes_done_def load_lanes_def store_lanes_def nth_append\<close>)

lemma avx2_step_done:
  "length l = length r \<Longrightarrow> i + 16 \<le> length l \<Longrightarrow>
     avx2_step f r i (lanes_done f l r i) = lanes_done f l r (i + 16)"
  unfolding avx2_step_def by (rule lanes_step)

lemma avx2_loop_done:
  "length l = length r \<Longrightarrow> 16 * n \<le> length l \<Longrightarrow>
     fold (avx2_step f r) (map (\<lambda>k. 16 * k) [0..<n]) l = lanes_done f l r (16 * n)"
proof (induction n)
  case (Suc n)
  then have "fold (avx2_step f r) (map (\<lambda>k. 16 * k) [0..<n]) l = lanes_done f l r (16 * n)" by simp
  then show ?case
    using Suc.prems avx2_step_done [of l r "16 * n" f] by (simp add: add.commute)
qed simp

lemma neon_step_done:
  assumes len: "length l = length r" and i: "i + 32 \<le> length l"
  shows "neon_step f r i i (lanes_done f l r i) = lanes_done f l r (i + 32)"
proof (rule nth_equalityI)
  show "length (neon_step f r i i (lanes_done f l r i)) = length (lanes_done f l r (i + 32))"
    using assms by (simp add: neon_step_def Let_def lanes_done_def load_lanes_def store_lanes_def)
qed (use assms in \<open>auto simp: neon_step_def Let_def lanes_done_def load_lanes_def store_lanes_def nth_append\<close>)

lemma neon_loop_done:
  assumes "length l = length r" and "32 dvd length l" and "32 dvd i" and "i < length l"
  shows "neon_loop f r i i (length l) (lanes_done f l r i) = zip_assign f l r"
  using assms
proof (induction "length l - i" arbitrary: i rule: less_induct)
  case less
  have le: "i + 32 \<le> length l"
  proof -
    obtain a b where ab: "length l = 32 * a" "i = 32 * b" using less.prems by (metis dvdE)
    with less.prems(4) show ?thesis by arith
  qed
  have step: "neon_step f r i i (lanes_done f l r i) = lanes_done f l r (i + 32)"
    using less.prems(1) le by (rule neon_step_done)
  show ?case
  proof (cases "i + 32 < length l")
    case True
    with less have "neon_loop f r (i + 32) (i + 32) (length l) (lanes_done f l r (i + 32)) = zip_assign f l r"
      by (intro less.hyps) auto
    with True step show ?thesis by (simp add: neon_loop.simps [of f r i i "length l"])
  next
    case False
    with le step less.prems(1) show ?thesis
      by (subst neon_loop.simps) (simp add: lanes_done_all)
  qed
qed

lemma add_assign_eq_scalar:
  "length l = limb_count \<Longrightarrow> length r = limb_count \<Longrightarrow> add_assign t l r = add_assign_scalar l r"
  using avx2_loop_done [of l r "limb_count div 16" "(+)"] neon_loop_done [of l r 0 "(+)"]
  by (cases t) (simp_all add: add_assign_avx2_def add_assign_neon_asm_def add_assign_scalar_def
      limb_count_def lanes_done_all)

lemma sub_assign_eq_scalar:
  "length l = limb_count \<Longrightarrow> length r = limb_count \<Longrightarrow> sub_assign t l r = sub_assign_scalar l r"
  using avx2_loop_done [of l r "limb_count div 16" "(-)"] neon_loop_done [of l r 0 "(-)"]
  by (cases t) (simp_all add: sub_assign_avx2_def sub_assign_neon_asm_def sub_assign_scalar_def
      limb_count_def lanes_done_all)

section \<open>LtHash is an abelian group\<close>

lemma lt_op_scalar: "lt_carrier a \<Longrightarrow> lt_carrier b \<Longrightarrow> lt_op t a b = zip_assign (+) a b"
  by (simp add: lt_op_def lt_carrier_def add_assign_eq_scalar add_assign_scalar_def)

lemma lt_inv_op_scalar: "lt_carrier a \<Longrightarrow> lt_carrier b \<Longrightarrow> lt_inv_op t a b = zip_assign (-) a b"
  by (simp add: lt_inv_op_def lt_carrier_def sub_assign_eq_scalar sub_assign_scalar_def)

lemma lt_carrier_zip_assign: "lt_carrier a \<Longrightarrow> lt_carrier (zip_assign f a b)"
  by (simp add: lt_carrier_def)

lemma lt_carrier_zero: "lt_carrier lt_zero"
  by (simp add: lt_carrier_def lt_zero_def)

lemmas lt_group_simps = lt_op_scalar lt_inv_op_scalar lt_carrier_zip_assign lt_carrier_zero

interpretation lt: group_trait lt_carrier lt_zero "lt_op t" "lt_inv_op t" for t
proof unfold_locales
  show "lt_carrier lt_zero" by (rule lt_carrier_zero)
next
  fix a b c :: lthash
  assume c: "lt_carrier a" "lt_carrier b" "lt_carrier c"
  then show "lt_op t (lt_op t a b) c = lt_op t a (lt_op t b c)"
    by (auto simp: lt_group_simps lt_carrier_def nth_zip_assign add.assoc intro!: nth_equalityI)
next
  fix a b :: lthash
  assume ab: "lt_carrier a" "lt_carrier b"
  then show "lt_carrier (lt_op t a b)" and "lt_carrier (lt_inv_op t a b)"
    by (simp_all add: lt_group_simps)
  from ab show "lt_op t a b = lt_op t b a"
    by (auto simp: lt_group_simps lt_carrier_def nth_zip_assign add.commute intro!: nth_equalityI)
  from ab show "lt_inv_op t (lt_op t a b) b = a"
    by (auto simp: lt_group_simps lt_carrier_def nth_zip_assign intro!: nth_equalityI)
next
  fix a :: lthash
  assume a: "lt_carrier a"
  then show "lt_op t lt_zero a = a" and "lt_op t a lt_zero = a"
    by (auto simp: lt_group_simps lt_carrier_def nth_zip_assign lt_zero_def intro!: nth_equalityI)
qed

section \<open>Bytes of a hash\<close>

lemma u16_from_to_le: "u16_from_le (ucast w) (ucast (drop_bit 8 w)) = w"
proof -
  have "unat w < 2 ^ 16" using unsigned_less [of w] by simp
  then have "unat (u16_from_le (ucast w) (ucast (drop_bit 8 w))) = unat w"
    by (simp add: u16_from_le_def unat_word_ariths unsigned_ucast_eq unsigned_push_bit_eq unsigned_drop_bit_eq
        take_bit_eq_mod drop_bit_eq_div push_bit_eq_mult)
  then show ?thesis by (simp add: word_unat_eq_iff)
qed

lemma read_le_limbs_as_bytes [simp]: "read_le_limbs (lt_as_bytes h) = h"
  by (induction h) (simp_all add: lt_as_bytes_def u16_to_le_def u16_from_to_le)

lemma lt_as_bytes_inj: "lt_as_bytes a = lt_as_bytes b \<longleftrightarrow> a = b"
  by (metis read_le_limbs_as_bytes)

lemma length_read_le_limbs: "length (read_le_limbs bs) = length bs div 2"
  by (induction bs rule: read_le_limbs.induct) simp_all

section \<open>ContextSet\<close>

text \<open>\<open>blake3\<close> fills the whole 2048-byte buffer.\<close>

definition xof_fills :: "(u8 list \<Rightarrow> u8 list) \<Rightarrow> bool" where
  "xof_fills xof \<longleftrightarrow> (\<forall>bs. length (xof bs) = 2048)"

lemma expand_carrier: "xof_fills xof \<Longrightarrow> lt_carrier (expand_to_element xof b)"
  by (simp add: xof_fills_def lt_carrier_def expand_to_element_def length_read_le_limbs limb_count_def)

lemma rposition_None_iff: "rposition P xs = None \<longleftrightarrow> (\<forall>x \<in> set xs. \<not> P x)"
  by (induction xs) (auto split: option.splits)

lemma rposition_SomeD: "rposition P xs = Some i \<Longrightarrow> i < length xs \<and> P (xs ! i)"
  by (induction xs arbitrary: i) (auto split: option.splits if_splits)

lemma mset_swap_remove: "i < length xs \<Longrightarrow> mset (swap_remove xs i) = mset xs - {#xs ! i#}"
proof -
  assume i: "i < length xs"
  then have ne: "xs[i := last xs] \<noteq> []" and xs: "xs \<noteq> []" by auto
  have last: "last (xs[i := last xs]) = last xs"
    using i xs by (simp add: last_conv_nth nth_list_update)
  have "mset (xs[i := last xs]) = mset (swap_remove xs i) + {#last xs#}"
    using append_butlast_last_id [OF ne] last by (metis swap_remove_def mset_append mset_single_iff_right mset.simps)
  moreover have "mset (xs[i := last xs]) = add_mset (last xs) (mset xs - {#xs ! i#})"
    using i by (rule mset_update)
  ultimately show ?thesis by simp
qed

definition context_inv :: "(u8 list \<Rightarrow> u8 list) \<Rightarrow> target \<Rightarrow> context_set \<Rightarrow> bool" where
  "context_inv xof t cs \<longleftrightarrow>
     cs_hash cs = reduce (lt_op t) lt_zero (map (expand_to_element xof) (cs_blocks cs))"

lemma context_inv_new: "context_inv xof t context_new"
  by (simp add: context_inv_def context_new_def)

lemma context_inv_add: "context_inv xof t cs \<Longrightarrow> context_inv xof t (context_add_block t xof b cs)"
  by (simp add: context_inv_def context_add_block_def lt_add_block_def lt_op_def)

lemma context_evict_mset:
  "mset (cs_blocks (context_evict t xof b cs)) = mset (cs_blocks cs) - {#b#}"
proof (cases "rposition (\<lambda>x. x = b) (cs_blocks cs)")
  case None
  then have "b \<notin># mset (cs_blocks cs)" by (auto simp: rposition_None_iff)
  with None show ?thesis by (simp add: context_evict_def diff_single_trivial)
next
  case (Some i)
  then show ?thesis
    using rposition_SomeD [OF Some] mset_swap_remove [of i "cs_blocks cs"] by (simp add: context_evict_def)
qed

lemma context_inv_evict:
  assumes "xof_fills xof" and "context_inv xof t cs"
  shows "context_inv xof t (context_evict t xof b cs)"
proof (cases "rposition (\<lambda>x. x = b) (cs_blocks cs)")
  case None
  with assms show ?thesis by (simp add: context_evict_def)
next
  case (Some i)
  let ?e = "expand_to_element xof" and ?bs = "cs_blocks cs"
  have i: "i < length ?bs" "?bs ! i = b" using rposition_SomeD [OF Some] by auto
  then have mem: "?e b \<in> set (map ?e ?bs)" using nth_mem [of i ?bs] by auto
  have carr: "\<forall>y \<in> set (map ?e ?bs). lt_carrier y" using assms(1) by (auto simp: expand_carrier)
  have "{#b#} \<subseteq># mset ?bs" using i nth_mem [of i ?bs] by simp
  then have "mset (map ?e (swap_remove ?bs i)) = mset (remove1 (?e b) (map ?e ?bs))"
    using i by (simp add: mset_swap_remove image_mset_Diff)
  moreover have "\<forall>y \<in> set (map ?e (swap_remove ?bs i)). lt_carrier y"
    using assms(1) by (auto simp: expand_carrier)
  ultimately have eq: "reduce (lt_op t) lt_zero (map ?e (swap_remove ?bs i)) =
      reduce (lt_op t) lt_zero (remove1 (?e b) (map ?e ?bs))"
    by (rule lt.reduce_mset_cong)
  then show ?thesis
    using Some assms(2) lt.inv_op_reduce [OF mem carr, of t]
    by (simp add: context_evict_def context_inv_def lt_remove_def lt_inv_op_def)
qed

lemma context_inv_step:
  "xof_fills xof \<Longrightarrow> context_inv xof t cs \<Longrightarrow> context_inv xof t (context_step t xof o' cs)"
  by (cases o') (simp_all add: context_inv_add context_inv_evict)

lemma context_inv_run:
  "xof_fills xof \<Longrightarrow> context_inv xof t cs \<Longrightarrow> context_inv xof t (fold (context_step t xof) ops cs)"
  by (induction ops arbitrary: cs) (simp_all add: context_inv_step)

text \<open>The blocks that a history leaves, as a multiset: an eviction removes one occurrence.\<close>

fun live_blocks :: "context_op list \<Rightarrow> block_id multiset \<Rightarrow> block_id multiset" where
  "live_blocks [] M = M"
| "live_blocks (AddBlock b # ops) M = live_blocks ops (add_mset b M)"
| "live_blocks (Evict b # ops) M = live_blocks ops (M - {#b#})"

lemma mset_run_blocks:
  "mset (cs_blocks (fold (context_step t xof) ops cs)) = live_blocks ops (mset (cs_blocks cs))"
proof (induction ops arbitrary: cs)
  case (Cons o' ops)
  then show ?case by (cases o') (simp_all add: context_evict_mset context_add_block_def)
qed simp

lemma context_hash_cong:
  assumes "xof_fills xof" and "context_inv xof t a" and "context_inv xof t b"
    and "mset (cs_blocks a) = mset (cs_blocks b)"
  shows "cs_hash a = cs_hash b"
proof -
  have "mset (map (expand_to_element xof) (cs_blocks a)) = mset (map (expand_to_element xof) (cs_blocks b))"
    using assms(4) by simp
  then show ?thesis
    using assms lt.reduce_mset_cong [of "map (expand_to_element xof) (cs_blocks a)"
        "map (expand_to_element xof) (cs_blocks b)" t]
    by (auto simp: context_inv_def expand_carrier)
qed

lemma reduce_lt_target:
  "\<forall>x \<in> set xs. lt_carrier x \<Longrightarrow> reduce (lt_op t) lt_zero xs = reduce (lt_op u) lt_zero xs"
proof (induction xs rule: rev_induct)
  case (snoc x xs)
  then have "lt_carrier (reduce (lt_op u) lt_zero xs)" by (intro lt.reduce_carrier) simp
  with snoc show ?case by (simp add: lt_op_scalar)
qed simp

lemma context_inv_target: "xof_fills xof \<Longrightarrow> context_inv xof t cs \<Longrightarrow> context_inv xof u cs"
  unfolding context_inv_def
  by (metis (no_types, lifting) expand_carrier ex_map_conv reduce_lt_target)

section \<open>Properties\<close>

text \<open>
  Whichever kernel the target selects (scalar, AVX2, or the NEON assembly loop), adding and
  subtracting two 1024-limb arrays gives the elementwise sum and difference modulo \<open>2^16\<close>.
\<close>

theorem kernels_agree:
  assumes "length l = limb_count" and "length r = limb_count"
  shows "add_assign t l r = map2 (+) l r \<and> sub_assign t l r = map2 (-) l r"
  using assms
  by (simp add: add_assign_eq_scalar sub_assign_eq_scalar add_assign_scalar_def sub_assign_scalar_def zip_assign_def)

theorem kernels_agree_witness:
  "add_assign AArch64 (replicate limb_count 65535) (replicate limb_count 2) = replicate limb_count 1
   \<and> sub_assign (X86_64 True) (replicate limb_count 1) (replicate limb_count 2) = replicate limb_count 65535"
proof -
  have m: "map2 f (replicate n a) (replicate n b) = replicate n (f a b)" for f :: "u16 \<Rightarrow> u16 \<Rightarrow> u16" and n a b
    by (simp add: zip_replicate map_replicate)
  have "add_assign AArch64 (replicate limb_count 65535) (replicate limb_count 2)
      = map2 (+) (replicate limb_count 65535) (replicate limb_count 2)"
    using kernels_agree [of "replicate limb_count 65535" "replicate limb_count 2" AArch64] by simp
  moreover have "sub_assign (X86_64 True) (replicate limb_count 1) (replicate limb_count 2)
      = map2 (-) (replicate limb_count 1) (replicate limb_count 2)"
    using kernels_agree [of "replicate limb_count 1" "replicate limb_count 2" "X86_64 True"] by simp
  ultimately show ?thesis by (simp add: m)
qed

text \<open>
  C22: the context key identifies the multiset of live blocks: two histories of additions and
  evictions that leave the same multiset of blocks, run on any two targets, end with the same
  2048-byte key. The only hypothesis on BLAKE3 is that it fills its output buffer.
\<close>

theorem context_key_history_independent:
  assumes "xof_fills xof" and "live_blocks ops1 {#} = live_blocks ops2 {#}"
  shows "context_key (fold (context_step t xof) ops1 context_new)
       = context_key (fold (context_step u xof) ops2 context_new)"
proof -
  let ?a = "fold (context_step t xof) ops1 context_new" and ?b = "fold (context_step u xof) ops2 context_new"
  have a: "context_inv xof t ?a" using assms(1) by (intro context_inv_run context_inv_new)
  have "context_inv xof u ?b" using assms(1) by (intro context_inv_run context_inv_new)
  then have b: "context_inv xof t ?b" by (rule context_inv_target [OF assms(1)])
  have "mset (cs_blocks ?a) = mset (cs_blocks ?b)"
    using assms(2) by (simp add: mset_run_blocks context_new_def)
  then have "cs_hash ?a = cs_hash ?b" by (rule context_hash_cong [OF assms(1) a b])
  then show ?thesis by (simp only: context_key_def)
qed

theorem context_key_history_independent_witness:
  "context_key (fold (context_step AArch64 (\<lambda>bs. replicate 2048 (sum_list bs))) [AddBlock (BlockId [1]), AddBlock (BlockId [2])] context_new)
   = context_key (fold (context_step OtherArch (\<lambda>bs. replicate 2048 (sum_list bs)))
       [AddBlock (BlockId [2]), AddBlock (BlockId [3]), AddBlock (BlockId [1]), Evict (BlockId [3])] context_new)"
proof (rule context_key_history_independent)
  show "xof_fills (\<lambda>bs. replicate 2048 (sum_list bs))" by (simp add: xof_fills_def)
  show "live_blocks [AddBlock (BlockId [1]), AddBlock (BlockId [2])] {#} =
      live_blocks [AddBlock (BlockId [2]), AddBlock (BlockId [3]), AddBlock (BlockId [1]), Evict (BlockId [3])] {#}"
    by (simp add: add_mset_commute)
qed

text \<open>
  Adding one element twice can cancel. The module's rationale says that \<open>2x mod 2^16\<close> is
  nonzero for every nonzero \<open>x\<close>, so that duplicates never cancel; in \<open>(Z/2^16)^1024\<close> the
  element with every limb \<open>0x8000\<close> is its own inverse.
\<close>

theorem duplicate_can_cancel:
  "\<exists>h. lt_carrier h \<and> h \<noteq> lt_zero \<and> lt_op t h h = lt_zero"
proof (intro exI conjI)
  let ?h = "replicate limb_count (32768 :: u16)"
  show c: "lt_carrier ?h" by (simp add: lt_carrier_def)
  show "?h \<noteq> lt_zero" by (simp add: lt_zero_def limb_count_def)
  show "lt_op t ?h ?h = lt_zero"
    using c by (simp add: lt_op_scalar zip_assign_def zip_replicate lt_zero_def)
qed

text \<open>
  \<open>blocks()\<close> is documented as the live ids in insertion order; an eviction moves the last
  block into the freed place.
\<close>

theorem evict_breaks_insertion_order:
  "cs_blocks (fold (context_step t xof) [AddBlock (BlockId [1]), AddBlock (BlockId [2]), AddBlock (BlockId [3]),
      Evict (BlockId [1])] context_new) = [BlockId [3], BlockId [2]]"
  by (simp add: context_new_def context_add_block_def context_evict_def swap_remove_def)

end
