(* ===== verification/Seq_Hash.thy ===== *)
theory Seq_Hash
  imports Multiset_Hash
begin

text \<open>
  The sequence hash of \<open>crates/rc-algebra/src/seqhash.rs\<close>: a polynomial hash modulo the
  Mersenne prime \<open>2^61 - 1\<close> with positional weights, and \<open>PrefixFingerprint\<close>. Products are taken
  in \<open>u128\<close>, where they do not overflow, so they are products of natural numbers; \<open>add_mod\<close>
  keeps its wrapping addition.
\<close>

section \<open>Modular arithmetic\<close>

definition seq_P :: u64 where
  "seq_P = push_bit 61 1 - 1"

definition seq_BASE :: u64 where
  "seq_BASE = 0x9E3779B97F4A7C15"

definition mul_mod :: "u64 \<Rightarrow> u64 \<Rightarrow> u64" where
  "mul_mod a b = of_nat (unat a * unat b mod unat seq_P)"

definition add_mod :: "u64 \<Rightarrow> u64 \<Rightarrow> u64" where
  "add_mod a b = (let s = a + b in if s \<ge> seq_P then s - seq_P else s)"

text \<open>Square and multiply; the exponent is a \<open>usize\<close>.\<close>

function coeff_loop :: "u64 \<Rightarrow> u64 \<Rightarrow> nat \<Rightarrow> u64" where
  "coeff_loop result base e =
     (if 0 < e
      then coeff_loop (if e mod 2 = 1 then mul_mod result base else result) (mul_mod base base) (e div 2)
      else result)"
  by pat_completeness auto
termination
  by (relation "measure (\<lambda>(result, base, e). e)") auto

declare coeff_loop.simps [simp del]

definition coeff :: "nat \<Rightarrow> u64" where
  "coeff i = coeff_loop 1 seq_BASE i"

definition u64_from_le :: "u8 list \<Rightarrow> u64" where
  "u64_from_le bs = of_nat (foldr (\<lambda>b acc. unat b + 256 * acc) bs 0)"

definition block_word :: "block_id \<Rightarrow> u64" where
  "block_word b = u64_from_le (take 8 (id_bytes b)) mod seq_P"

section \<open>SeqHash\<close>

record seq_hash =
  seq_acc :: u64
  seq_len :: nat

definition seq_empty :: seq_hash where
  "seq_empty = \<lparr>seq_acc = 0, seq_len = 0\<rparr>"

definition seq_append :: "block_id \<Rightarrow> seq_hash \<Rightarrow> seq_hash" where
  "seq_append b s =
     (let term = mul_mod (coeff (seq_len s)) (block_word b)
      in s\<lparr>seq_acc := add_mod (seq_acc s) term, seq_len := seq_len s + 1\<rparr>)"

definition seq_extend :: "block_id list \<Rightarrow> seq_hash \<Rightarrow> seq_hash" where
  "seq_extend bs s = fold seq_append bs s"

definition seq_op :: "seq_hash \<Rightarrow> seq_hash \<Rightarrow> seq_hash" where
  "seq_op s other =
     (let shift = coeff (seq_len s); carried = mul_mod (seq_acc other) shift
      in s\<lparr>seq_acc := add_mod (seq_acc s) carried, seq_len := seq_len s + seq_len other\<rparr>)"

text \<open>\<open>PrefixFingerprint::from_blocks\<close>, \<open>extend\<close> and \<open>fingerprint\<close>.\<close>

record prefix_fingerprint =
  fp_seq :: seq_hash

definition fp_from_blocks :: "block_id list \<Rightarrow> prefix_fingerprint" where
  "fp_from_blocks bs = \<lparr>fp_seq = seq_extend bs seq_empty\<rparr>"

definition fp_extend :: "block_id \<Rightarrow> prefix_fingerprint \<Rightarrow> prefix_fingerprint" where
  "fp_extend b f = f\<lparr>fp_seq := seq_append b (fp_seq f)\<rparr>"

definition fingerprint :: "prefix_fingerprint \<Rightarrow> u64" where
  "fingerprint f = seq_acc (fp_seq f)"

section \<open>The arithmetic computes residues\<close>

abbreviation modP :: nat where
  "modP \<equiv> 2305843009213693951"

abbreviation baseN :: nat where
  "baseN \<equiv> 11400714819323198485"

lemma unat_seq_P: "unat seq_P = modP"
  by (simp add: seq_P_def)

lemma unat_seq_BASE: "unat seq_BASE = baseN"
  by (simp add: seq_BASE_def)

lemma unat_mul_mod: "unat (mul_mod a b) = unat a * unat b mod modP"
proof -
  have "unat a * unat b mod modP < 2 ^ 64" by (rule less_trans [OF mod_less_divisor]) simp_all
  then show ?thesis
    by (simp add: mul_mod_def unat_seq_P unat_of_nat)
qed

lemma unat_add_mod:
  assumes "unat a < modP" and "unat b < modP"
  shows "unat (add_mod a b) = (unat a + unat b) mod modP"
proof -
  have s: "unat (a + b) = unat a + unat b" using assms by (simp add: unat_word_ariths)
  show ?thesis
  proof (cases "modP \<le> unat a + unat b")
    case True
    then have ge: "seq_P \<le> a + b" by (simp add: word_le_nat_alt unat_seq_P s)
    have "(unat a + unat b) mod modP = unat a + unat b - modP"
      using True assms by (simp add: le_mod_geq)
    with ge show ?thesis by (simp add: add_mod_def unat_sub s unat_seq_P)
  next
    case False
    then have "\<not> seq_P \<le> a + b" by (simp add: word_le_nat_alt unat_seq_P s)
    with False show ?thesis by (simp add: add_mod_def s)
  qed
qed

lemma mod_mult_power: "(k :: nat) * (x mod m) ^ e mod m = k * x ^ e mod m"
  by (metis mod_mult_right_eq power_mod)

lemma mod_add_mult: "((a :: nat) + k * (x mod m)) mod m = (a + k * x) mod m"
  by (metis mod_add_right_eq mod_mult_right_eq)

lemma coeff_loop_eq:
  "unat r < modP \<Longrightarrow> unat (coeff_loop r b e) = unat r * unat b ^ e mod modP"
proof (induction r b e rule: coeff_loop.induct)
  case (1 r b e)
  show ?case
  proof (cases "0 < e")
    case False
    then show ?thesis using "1.prems" by (subst coeff_loop.simps) simp
  next
    case True
    let ?r = "if e mod 2 = 1 then mul_mod r b else r"
    have lt: "unat ?r < modP" using "1.prems" by (simp add: unat_mul_mod)
    have "unat (coeff_loop r b e) = unat (coeff_loop ?r (mul_mod b b) (e div 2))"
      using True by (simp add: coeff_loop.simps [of r b e])
    also have "\<dots> = unat ?r * unat (mul_mod b b) ^ (e div 2) mod modP"
      using "1.IH" [OF True lt] .
    also have "\<dots> = unat ?r * (unat b * unat b) ^ (e div 2) mod modP"
      unfolding unat_mul_mod by (rule mod_mult_power)
    also have "(unat b * unat b) ^ (e div 2) = unat b ^ (2 * (e div 2))"
      by (simp add: power_mult power2_eq_square)
    also have "unat ?r * unat b ^ (2 * (e div 2)) mod modP = unat r * unat b ^ e mod modP"
    proof (cases "e mod 2 = 1")
      case True
      then have "e = Suc (2 * (e div 2))" by presburger
      then have "unat b ^ e = unat b * unat b ^ (2 * (e div 2))" by (metis power_Suc)
      with True show ?thesis by (simp add: unat_mul_mod mod_mult_left_eq mult.assoc)
    next
      case False
      then have "e = 2 * (e div 2)" by presburger
      with False show ?thesis by simp
    qed
    finally show ?thesis .
  qed
qed

lemma unat_coeff: "unat (coeff i) = baseN ^ i mod modP"
  by (simp add: coeff_def coeff_loop_eq unat_seq_BASE)

lemma unat_block_word_less: "unat (block_word b) < modP"
  by (simp add: block_word_def unat_mod unat_seq_P)

section \<open>SeqHash is a monoid\<close>

definition seq_carrier :: "seq_hash \<Rightarrow> bool" where
  "seq_carrier s \<longleftrightarrow> unat (seq_acc s) < modP"

lemma seq_empty_carrier [simp]: "seq_carrier seq_empty"
  by (simp add: seq_carrier_def seq_empty_def)

lemma seq_append_acc:
  "seq_carrier s \<Longrightarrow> unat (seq_acc (seq_append b s))
     = (unat (seq_acc s) + baseN ^ seq_len s * unat (block_word b)) mod modP"
  by (simp add: seq_append_def seq_carrier_def unat_add_mod unat_mul_mod unat_coeff mod_simps)

lemma seq_op_acc:
  "seq_carrier s \<Longrightarrow> unat (seq_acc (seq_op s o'))
     = (unat (seq_acc s) + baseN ^ seq_len s * unat (seq_acc o')) mod modP"
  by (simp add: seq_op_def seq_carrier_def unat_add_mod unat_mul_mod unat_coeff mod_simps mult.commute)

lemma seq_append_carrier: "seq_carrier s \<Longrightarrow> seq_carrier (seq_append b s)"
  by (simp add: seq_carrier_def seq_append_acc)

lemma seq_op_carrier: "seq_carrier s \<Longrightarrow> seq_carrier (seq_op s o')"
  by (simp add: seq_carrier_def seq_op_acc)

lemma seq_len_append [simp]: "seq_len (seq_append b s) = seq_len s + 1"
  by (simp add: seq_append_def)

lemma seq_len_op [simp]: "seq_len (seq_op s o') = seq_len s + seq_len o'"
  by (simp add: seq_op_def)

lemma seq_hash_eqI: "unat (seq_acc a) = unat (seq_acc b) \<Longrightarrow> seq_len a = seq_len b \<Longrightarrow> a = b"
  for a b :: seq_hash
  by (cases a; cases b) (simp add: word_unat_eq_iff)

interpretation sq: monoid_trait seq_carrier seq_empty seq_op
proof unfold_locales
  show "seq_carrier seq_empty" by simp
next
  fix a b :: seq_hash
  assume "seq_carrier a" "seq_carrier b"
  then show "seq_carrier (seq_op a b)" by (simp add: seq_op_carrier)
next
  fix a b c :: seq_hash
  assume abc: "seq_carrier a" "seq_carrier b" "seq_carrier c"
  show "seq_op (seq_op a b) c = seq_op a (seq_op b c)"
  proof (rule seq_hash_eqI)
    show "unat (seq_acc (seq_op (seq_op a b) c)) = unat (seq_acc (seq_op a (seq_op b c)))"
      using abc by (simp add: seq_op_acc seq_op_carrier mod_add_mult mod_add_left_eq power_add algebra_simps)
  qed simp
next
  fix a :: seq_hash
  assume a: "seq_carrier a"
  show "seq_op seq_empty a = a" and "seq_op a seq_empty = a"
    using a by (auto intro!: seq_hash_eqI simp: seq_op_acc seq_carrier_def seq_empty_def)
qed

lemma seq_extend_carrier: "seq_carrier s \<Longrightarrow> seq_carrier (seq_extend bs s)"
  unfolding seq_extend_def by (induction bs arbitrary: s) (simp_all add: seq_append_carrier)

lemma seq_len_extend [simp]: "seq_len (seq_extend bs s) = seq_len s + length bs"
  unfolding seq_extend_def by (induction bs arbitrary: s) simp_all

lemma seq_extend_snoc: "seq_extend (bs @ [b]) s = seq_append b (seq_extend bs s)"
  by (simp add: seq_extend_def)

text \<open>Appending one block is the monoid operation with the hash of the singleton.\<close>

lemma seq_append_op: "seq_carrier s \<Longrightarrow> seq_append b s = seq_op s (seq_append b seq_empty)"
  by (rule seq_hash_eqI)
    (simp_all add: seq_append_acc [of s] seq_append_acc [of seq_empty] seq_op_acc mod_add_mult,
      simp_all add: seq_empty_def)

lemma seq_extend_op:
  "seq_carrier s \<Longrightarrow> seq_extend bs s = seq_op s (seq_extend bs seq_empty)"
proof (induction bs rule: rev_induct)
  case Nil
  then show ?case by (simp add: seq_extend_def sq.opr_right_id)
next
  case (snoc b bs)
  let ?e = "seq_extend bs seq_empty"
  have ce: "seq_carrier ?e" and cb: "seq_carrier (seq_append b seq_empty)"
    by (simp_all add: seq_extend_carrier seq_append_carrier)
  have "seq_extend (bs @ [b]) s = seq_op (seq_op s ?e) (seq_append b seq_empty)"
    using snoc by (simp add: seq_extend_snoc seq_append_op [of "seq_op s ?e"] seq_op_carrier)
  also have "\<dots> = seq_op s (seq_append b ?e)"
    using snoc.prems ce cb by (simp add: sq.opr_assoc seq_append_op [of ?e, symmetric])
  finally show ?case by (simp add: seq_extend_snoc)
qed

section \<open>Properties\<close>

text \<open>
  The incremental hash computes the positional polynomial of its documentation: hashing the
  blocks \<open>bs\<close> gives the sum of \<open>BASE^i * block_word (bs ! i)\<close> modulo \<open>2^61 - 1\<close>, for every
  sequence and with no overflow on the way, and the length is the number of blocks.
\<close>

theorem seq_hash_is_polynomial:
  "unat (seq_acc (seq_extend bs seq_empty)) = (\<Sum>i < length bs. baseN ^ i * unat (block_word (bs ! i))) mod modP
   \<and> seq_len (seq_extend bs seq_empty) = length bs"
proof (induction bs rule: rev_induct)
  case Nil
  then show ?case by (simp add: seq_extend_def seq_empty_def)
next
  case (snoc b bs)
  have "(\<Sum>i < length bs. baseN ^ i * unat (block_word ((bs @ [b]) ! i)))
      = (\<Sum>i < length bs. baseN ^ i * unat (block_word (bs ! i)))"
    by (rule sum.cong) (simp_all add: nth_append)
  with snoc show ?case
    by (simp add: seq_extend_snoc seq_append_acc seq_extend_carrier mod_simps)
qed

text \<open>
  Hashing is a homomorphism from concatenation: the hash of \<open>xs @ ys\<close> is \<open>op\<close> of the two
  hashes, so shards of a conversation may be hashed separately and combined, in any bracketing.
\<close>

theorem seq_hash_concat:
  "seq_extend (concat bss) seq_empty = reduce seq_op seq_empty (map (\<lambda>bs. seq_extend bs seq_empty) bss)"
proof (induction bss rule: rev_induct)
  case Nil
  then show ?case by (simp add: seq_extend_def)
next
  case (snoc bs bss)
  have "seq_extend (concat bss @ bs) seq_empty = seq_extend bs (seq_extend (concat bss) seq_empty)"
    by (simp add: seq_extend_def)
  also have "\<dots> = seq_op (seq_extend (concat bss) seq_empty) (seq_extend bs seq_empty)"
    by (rule seq_extend_op) (simp add: seq_extend_carrier)
  finally show ?case using snoc by simp
qed

lemma bezout_coprime: "u * a - v * m = 1 \<Longrightarrow> coprime a (m :: int)"
  by (rule coprimeI) (metis dvd_diff dvd_mult)

lemma coprime_baseN: "coprime (int baseN) (int modP)" "coprime (int (baseN - 1)) (int modP)"
  using bezout_coprime [of 1668782088158133545 "int baseN" 8250912402389999524 "int modP"]
    bezout_coprime [of 1600301674718219166 "int (baseN - 1)" 7912326617833901993 "int modP"]
  by simp_all

lemma dvd_mult_cancel_coprime: "coprime a (m :: int) \<Longrightarrow> m dvd a * b \<longleftrightarrow> m dvd b"
  by (metis coprime_commute coprime_dvd_mult_right_iff)

text \<open>
  Swapping two adjacent blocks changes the fingerprint exactly when their block words
  differ, at any position and whatever precedes them. The source states this only with
  overwhelming probability; \<open>BASE\<close> and \<open>BASE - 1\<close> are units modulo \<open>p\<close>, so it is certain.
\<close>

theorem swap_changes_fingerprint:
  "fingerprint (fp_from_blocks (xs @ [x, y])) = fingerprint (fp_from_blocks (xs @ [y, x]))
     \<longleftrightarrow> block_word x = block_word y"
proof -
  let ?s = "seq_extend xs seq_empty" and ?n = "length xs"
  let ?h = "int (unat (seq_acc ?s))" and ?B = "int baseN"
  let ?x = "int (unat (block_word x))" and ?y = "int (unat (block_word y))"
  have cs: "seq_carrier ?s" by (simp add: seq_extend_carrier)
  have len: "seq_len ?s = ?n" by (simp add: seq_empty_def)
  have two: "unat (fingerprint (fp_from_blocks (xs @ [a, b])))
      = (unat (seq_acc ?s) + baseN ^ ?n * unat (block_word a) + baseN ^ Suc ?n * unat (block_word b)) mod modP" for a b
  proof -
    have "seq_extend (xs @ [a, b]) seq_empty = seq_append b (seq_append a ?s)"
      by (simp add: seq_extend_def)
    then show ?thesis
      using cs len by (simp add: fingerprint_def fp_from_blocks_def seq_append_acc seq_append_carrier mod_simps)
  qed
  have "fingerprint (fp_from_blocks (xs @ [x, y])) = fingerprint (fp_from_blocks (xs @ [y, x])) \<longleftrightarrow>
      (?h + ?B ^ ?n * ?x + ?B ^ Suc ?n * ?y) mod int modP = (?h + ?B ^ ?n * ?y + ?B ^ Suc ?n * ?x) mod int modP"
    by (subst word_unat_eq_iff, subst two, subst two, subst int_int_eq [symmetric])
      (simp only: of_nat_mod of_nat_add of_nat_mult of_nat_power)
  also have "\<dots> \<longleftrightarrow> int modP dvd ?B ^ ?n * (int (baseN - 1) * (?y - ?x))"
    by (simp add: mod_eq_dvd_iff algebra_simps)
  also have "\<dots> \<longleftrightarrow> int modP dvd ?y - ?x"
    using dvd_mult_cancel_coprime [OF coprime_power_left_iff [THEN iffD2, OF disjI1, OF coprime_baseN(1)], of ?n]
      dvd_mult_cancel_coprime [OF coprime_baseN(2)] by blast
  also have "\<dots> \<longleftrightarrow> ?y mod int modP = ?x mod int modP"
    by (simp add: mod_eq_dvd_iff)
  also have "\<dots> \<longleftrightarrow> block_word x = block_word y"
  proof -
    have small: "int n mod int modP = int n" if "n < modP" for n
      using that by (simp only: of_nat_mod [symmetric] mod_less)
    have "?y mod int modP = ?y" and "?x mod int modP = ?x"
      using small unat_block_word_less by blast+
    then show ?thesis by (simp only: of_nat_eq_iff word_unat_eq_iff eq_commute)
  qed
  finally show ?thesis .
qed

end
