(* ===== verification/Canonical_Order.thy ===== *)
theory Canonical_Order
  imports Multiset_Hash "HOL-Library.List_Lexorder" "HOL-Library.Char_ord"
begin

text \<open>
  Canonical orders: \<open>canonicalize\<close> of \<open>crates/rc-proto/src/canonical.rs\<close>, the orbit
  representative and its divergence report of \<open>crates/rc-algebra/src/orbit.rs\<close>, and
  \<open>ToolRegistry\<close> of \<open>crates/rc-core/src/registry.rs\<close>, which sorts the tool definitions it puts
  on the wire. \<open>serde_json::to_vec\<close> (\<open>to_vec\<close>) and SHA-256 are arguments.
\<close>

section \<open>The order of block ids\<close>

text \<open>\<open>#[derive(PartialOrd, Ord)]\<close> on \<open>BlockId([u8; 32])\<close>: lexicographic on the bytes.\<close>

instantiation block_id :: linorder
begin

definition less_eq_block_id :: "block_id \<Rightarrow> block_id \<Rightarrow> bool" where
  "less_eq_block_id a b \<longleftrightarrow> id_bytes a \<le> id_bytes b"

definition less_block_id :: "block_id \<Rightarrow> block_id \<Rightarrow> bool" where
  "less_block_id a b \<longleftrightarrow> id_bytes a < id_bytes b"

instance
  by standard (auto simp: less_eq_block_id_def less_block_id_def block_id.expand intro: block_id.expand)

end

section \<open>Canonical JSON\<close>

lemma size_json_member: "kv \<in> set kvs \<Longrightarrow> size (snd kv) < Suc (size_list (size_prod size size) kvs)"
  for kvs :: "(string \<times> json) list"
  by (induction kvs) (auto split: prod.splits)

function canonicalize :: "json \<Rightarrow> json" where
  "canonicalize (JObject kvs) = JObject (map (\<lambda>kv. (fst kv, canonicalize (snd kv))) (sort_key fst kvs))"
| "canonicalize (JArray xs) = JArray (map canonicalize xs)"
| "canonicalize JNull = JNull"
| "canonicalize (JBool b) = JBool b"
| "canonicalize (JNumber n) = JNumber n"
| "canonicalize (JString s) = JString s"
  by pat_completeness auto

termination
  by (relation "measure size")
    (auto simp: less_Suc_eq_le size_list_estimation' elim!: size_list_estimation' intro: size_json_member less_imp_le)

section \<open>Orbit representative\<close>

text \<open>\<open>blocks.sort_by_key(key)\<close>, a stable sort.\<close>

definition canonical_representative :: "('a \<Rightarrow> block_id) \<Rightarrow> 'a list \<Rightarrow> 'a list" where
  "canonical_representative key blocks = sort_key key blocks"

record orbit_divergence =
  already_canonical :: bool
  od_raw :: u64
  od_canonical :: u64

definition fnv_byte :: "u8 \<Rightarrow> u64 \<Rightarrow> u64" where
  "fnv_byte b h = (xor h (ucast b)) * 0x100000001b3"

definition fingerprint_order :: "('a \<Rightarrow> block_id) \<Rightarrow> 'a list \<Rightarrow> u64" where
  "fingerprint_order key blocks = fold (\<lambda>b h. fold fnv_byte (id_bytes (key b)) h) blocks 0xcbf29ce484222325"

definition compute_orbit_divergence :: "('a \<Rightarrow> block_id) \<Rightarrow> 'a list \<Rightarrow> orbit_divergence" where
  "compute_orbit_divergence key blocks =
     (let raw = fingerprint_order key blocks;
          canonical = fingerprint_order key (canonical_representative key blocks)
      in \<lparr>already_canonical = (raw = canonical), od_raw = raw, od_canonical = canonical\<rparr>)"

definition burnside_orbit_count :: "nat list list \<Rightarrow> nat" where
  "burnside_orbit_count cycle_structures =
     (if cycle_structures = [] then 0
      else sum_list (map (\<lambda>cycles. length (filter (\<lambda>c. c = 1) cycles)) cycle_structures)
             div length cycle_structures)"

section \<open>Tool registry\<close>

record tool_definition =
  td_name :: string
  td_description :: string
  td_parameters :: json

datatype concurrency = Parallel | SerialWrite | Exclusive

record tool =
  tool_name :: string
  tool_description :: string
  tool_schema :: json
  tool_concurrency :: concurrency

record tool_registry =
  reg_tools :: "tool list"
  reg_defs :: "tool_definition list"

definition str_bytes :: "string \<Rightarrow> u8 list" where
  "str_bytes s = map (\<lambda>c. of_nat (byte_of c)) s"

definition def_key :: "(tool_definition \<Rightarrow> u8 list option) \<Rightarrow> (u8 list \<Rightarrow> u8 list) \<Rightarrow> tool_definition \<Rightarrow> block_id" where
  "def_key to_vec sha256 d =
     (case to_vec d of
        Some bytes \<Rightarrow> block_from_bytes sha256 bytes
      | None \<Rightarrow> block_from_bytes sha256 (str_bytes (td_name d)))"

definition tool_def :: "tool \<Rightarrow> tool_definition" where
  "tool_def t = \<lparr>td_name = tool_name t, td_description = tool_description t, td_parameters = tool_schema t\<rparr>"

definition registry_new :: "(tool_definition \<Rightarrow> u8 list option) \<Rightarrow> (u8 list \<Rightarrow> u8 list) \<Rightarrow> tool list \<Rightarrow> tool_registry" where
  "registry_new to_vec sha256 tools =
     \<lparr>reg_tools = tools,
      reg_defs = canonical_representative (def_key to_vec sha256) (map tool_def tools)\<rparr>"

definition registry_get :: "tool_registry \<Rightarrow> string \<Rightarrow> tool option" where
  "registry_get r name = List.find (\<lambda>t. tool_name t = name) (reg_tools r)"

section \<open>Facts\<close>

text \<open>
  Two lists with the same elements sort to the same list when the key tells different elements
  apart.
\<close>

lemma sort_key_mset_eq:
  assumes "mset xs = mset ys" and "inj_on f (set xs)"
  shows "sort_key f xs = sort_key f ys"
  using assms by (intro sort_key_inj_key_eq) simp_all

lemma map_of_filter:
  "map_of xs k = (case filter (\<lambda>p. fst p = k) xs of [] \<Rightarrow> None | p # _ \<Rightarrow> Some (snd p))"
  by (induction xs) auto

lemma map_of_sort_key [simp]: "map_of (sort_key fst xs) k = map_of xs k"
  by (simp add: map_of_filter sort_key_stable)

lemma map_of_map_snd: "map_of (map (\<lambda>kv. (fst kv, g (snd kv))) xs) k = map_option g (map_of xs k)"
  by (induction xs) auto

lemma sort_key_sorted: "sorted (map f xs) \<Longrightarrow> sort_key f xs = xs"
  by (rule properties_for_sort_key) simp_all

lemma canonicalize_idem: "canonicalize (canonicalize v) = canonicalize v"
proof (induction v rule: canonicalize.induct)
  case (1 kvs)
  let ?g = "\<lambda>kv. (fst kv, canonicalize (snd kv))"
  have "map fst (map ?g (sort_key fst kvs)) = map fst (sort_key fst kvs)" by simp
  then have "sorted (map fst (map ?g (sort_key fst kvs)))" by (metis sorted_sort_key)
  then have "sort_key fst (map ?g (sort_key fst kvs)) = map ?g (sort_key fst kvs)" by (rule sort_key_sorted)
  with "1" show ?case by simp
qed simp_all

lemma mset_canonical [simp]: "mset (canonical_representative key xs) = mset xs"
  by (simp add: canonical_representative_def)

lemma canonical_representative_idem:
  "canonical_representative key (canonical_representative key xs) = canonical_representative key xs"
  by (simp add: canonical_representative_def sort_key_sorted)

section \<open>Properties\<close>

text \<open>
  The tool definitions put on the wire do not depend on the order in which the tools were
  registered: two registrations of the same tools give the same \<open>tools\<close> array, as long as the
  content hash tells the registered definitions apart. Nothing is lost or duplicated.
\<close>

theorem registry_order_independent:
  assumes "mset tools1 = mset tools2"
    and "inj_on (def_key to_vec sha256) (tool_def ` set tools1)"
  shows "reg_defs (registry_new to_vec sha256 tools1) = reg_defs (registry_new to_vec sha256 tools2)
    \<and> mset (reg_defs (registry_new to_vec sha256 tools1)) = image_mset tool_def (mset tools1)"
proof -
  have "mset (map tool_def tools1) = mset (map tool_def tools2)" using assms(1) by simp
  then have "sort_key (def_key to_vec sha256) (map tool_def tools1) = sort_key (def_key to_vec sha256) (map tool_def tools2)"
    using assms(2) by (intro sort_key_mset_eq) simp_all
  then show ?thesis using assms(1) by (simp add: registry_new_def canonical_representative_def)
qed

theorem registry_order_independent_witness:
  "reg_defs (registry_new (\<lambda>d. Some (str_bytes (td_name d))) (\<lambda>bs. bs)
      [\<lparr>tool_name = ''Read'', tool_description = [], tool_schema = JNull, tool_concurrency = Parallel\<rparr>,
       \<lparr>tool_name = ''Bash'', tool_description = [], tool_schema = JNull, tool_concurrency = Exclusive\<rparr>])
   = reg_defs (registry_new (\<lambda>d. Some (str_bytes (td_name d))) (\<lambda>bs. bs)
      [\<lparr>tool_name = ''Bash'', tool_description = [], tool_schema = JNull, tool_concurrency = Exclusive\<rparr>,
       \<lparr>tool_name = ''Read'', tool_description = [], tool_schema = JNull, tool_concurrency = Parallel\<rparr>])"
proof (rule registry_order_independent [THEN conjunct1])
  show "inj_on (def_key (\<lambda>d. Some (str_bytes (td_name d))) (\<lambda>bs. bs))
    (tool_def ` set [\<lparr>tool_name = ''Read'', tool_description = [], tool_schema = JNull, tool_concurrency = Parallel\<rparr>,
       \<lparr>tool_name = ''Bash'', tool_description = [], tool_schema = JNull, tool_concurrency = Exclusive\<rparr>])"
    by (simp add: def_key_def tool_def_def block_from_bytes_def str_bytes_def byte_of_def)
qed simp

text \<open>
  Canonicalizing a JSON value is idempotent, keeps every lookup (the value under a key is
  the canonical form of the original value), and forgets the order in which the keys of an
  object were inserted.
\<close>

theorem canonicalize_correct:
  "canonicalize (canonicalize v) = canonicalize v
   \<and> json_get (canonicalize v) k = map_option canonicalize (json_get v k)
   \<and> (distinct (map fst kvs) \<and> mset kvs = mset kvs' \<longrightarrow> canonicalize (JObject kvs) = canonicalize (JObject kvs'))"
proof (intro conjI impI)
  show "canonicalize (canonicalize v) = canonicalize v" by (rule canonicalize_idem)
  show "json_get (canonicalize v) k = map_option canonicalize (json_get v k)"
    by (cases v) (simp_all add: map_of_map_snd)
  assume "distinct (map fst kvs) \<and> mset kvs = mset kvs'"
  then have "sort_key fst kvs = sort_key fst kvs'"
    by (intro sort_key_mset_eq) (simp_all add: distinct_map)
  then show "canonicalize (JObject kvs) = canonicalize (JObject kvs')" by simp
qed

theorem canonicalize_correct_witness:
  "canonicalize (JObject [(''b'', JNull), (''a'', JBool True)]) = canonicalize (JObject [(''a'', JBool True), (''b'', JNull)])"
  using canonicalize_correct [of JNull "[]" "[(''b'', JNull), (''a'', JBool True)]" "[(''a'', JBool True), (''b'', JNull)]"]
  by simp

text \<open>
  The orbit report says "already canonical" for every order that is canonical, and the
  canonical order is one: it is sorted by content hash, it is a permutation of the blocks, and
  canonicalizing it again changes nothing.
\<close>

theorem orbit_canonical:
  "sorted (map key (canonical_representative key blocks))
   \<and> mset (canonical_representative key blocks) = mset blocks
   \<and> canonical_representative key (canonical_representative key blocks) = canonical_representative key blocks
   \<and> already_canonical (compute_orbit_divergence key (canonical_representative key blocks))"
  using canonical_representative_idem [of key blocks]
  by (simp add: compute_orbit_divergence_def Let_def) (simp add: canonical_representative_def)

end
