(* ===== verification/Prefix_CRDT.thy ===== *)
theory Prefix_CRDT
  imports Algebra_Traits
begin

text \<open>
  \<open>PrefixSet\<close> of \<open>crates/rc-algebra/src/crdt.rs\<close>: live entries and tombstones per fingerprint,
  resolved by epoch. A \<open>BTreeMap\<close> is a map; \<open>join\<close> walks the other set's entries and then its
  tombstones in key order, so its loops are folds over the sorted keys. Epochs and fingerprints
  are \<open>u64\<close>, compared only.
\<close>

record prefix_entry =
  pe_fingerprint :: u64
  pe_context_key :: "u8 list"
  pe_epoch :: u64

record prefix_set =
  ps_entries :: "u64 \<rightharpoonup> prefix_entry"
  ps_tombstones :: "u64 \<rightharpoonup> u64"

definition ps_new :: prefix_set where
  "ps_new = \<lparr>ps_entries = Map.empty, ps_tombstones = Map.empty\<rparr>"

definition entry_from_context_key :: "u64 \<Rightarrow> u8 list \<Rightarrow> u64 \<Rightarrow> prefix_entry" where
  "entry_from_context_key fp ctx_key epoch = \<lparr>pe_fingerprint = fp, pe_context_key = ctx_key, pe_epoch = epoch\<rparr>"

definition ps_add :: "prefix_entry \<Rightarrow> prefix_set \<Rightarrow> prefix_set" where
  "ps_add entry s =
     (let fp = pe_fingerprint entry;
          insert_lww =
            (case ps_entries s fp of
               Some existing \<Rightarrow>
                 if pe_epoch existing > pe_epoch entry then s
                 else s\<lparr>ps_entries := (ps_entries s)(fp \<mapsto> entry)\<rparr>
             | None \<Rightarrow> s\<lparr>ps_entries := (ps_entries s)(fp \<mapsto> entry)\<rparr>)
      in case ps_tombstones s fp of
           Some tomb_epoch \<Rightarrow> if pe_epoch entry \<le> tomb_epoch then s else insert_lww
         | None \<Rightarrow> insert_lww)"

definition ps_evict :: "u64 \<Rightarrow> u64 \<Rightarrow> prefix_set \<Rightarrow> prefix_set" where
  "ps_evict fp epoch s =
     (let tomb = (case ps_tombstones s fp of Some t \<Rightarrow> t | None \<Rightarrow> 0);
          s1 = (if epoch \<ge> tomb then s\<lparr>ps_tombstones := (ps_tombstones s)(fp \<mapsto> epoch)\<rparr> else s)
      in case ps_entries s1 fp of
           Some e \<Rightarrow> if pe_epoch e \<le> epoch then s1\<lparr>ps_entries := (ps_entries s1)(fp := None)\<rparr> else s1
         | None \<Rightarrow> s1)"

definition hidden :: "prefix_set \<Rightarrow> u64 \<Rightarrow> prefix_entry \<Rightarrow> bool" where
  "hidden s fp e \<longleftrightarrow> (case ps_tombstones s fp of Some tomb \<Rightarrow> tomb \<ge> pe_epoch e | None \<Rightarrow> False)"

definition ps_contains :: "u64 \<Rightarrow> prefix_set \<Rightarrow> bool" where
  "ps_contains fp s = (case ps_entries s fp of Some entry \<Rightarrow> \<not> hidden s fp entry | None \<Rightarrow> False)"

text \<open>The values of a finite map in ascending key order, as \<open>BTreeMap\<close> iterates.\<close>

definition keys_asc :: "(u64 \<rightharpoonup> 'v) \<Rightarrow> u64 list" where
  "keys_asc m = sorted_list_of_set (dom m)"

definition ps_live :: "prefix_set \<Rightarrow> prefix_entry list" where
  "ps_live s = map (\<lambda>fp. the (ps_entries s fp))
     (filter (\<lambda>fp. \<not> hidden s fp (the (ps_entries s fp))) (keys_asc (ps_entries s)))"

definition ps_join :: "prefix_set \<Rightarrow> prefix_set \<Rightarrow> prefix_set" where
  "ps_join s other =
     (let out = fold (\<lambda>fp s. ps_add (the (ps_entries other fp)) s) (keys_asc (ps_entries other)) s
      in fold (\<lambda>fp s. ps_evict fp (the (ps_tombstones other fp)) s) (keys_asc (ps_tombstones other)) out)"

text \<open>A history of operations on a replica.\<close>

datatype prefix_op = PAdd prefix_entry | PEvict u64 u64

fun ps_step :: "prefix_op \<Rightarrow> prefix_set \<Rightarrow> prefix_set" where
  "ps_step (PAdd e) s = ps_add e s"
| "ps_step (PEvict fp epoch) s = ps_evict fp epoch s"

section \<open>One fingerprint at a time\<close>

text \<open>
  What an operation does to one fingerprint is a function of that fingerprint's cell: the live
  entry and the tombstone.
\<close>

type_synonym cell = "prefix_entry option \<times> u64 option"

definition cell_of :: "prefix_set \<Rightarrow> u64 \<Rightarrow> cell" where
  "cell_of s fp = (ps_entries s fp, ps_tombstones s fp)"

fun cell_add :: "prefix_entry \<Rightarrow> cell \<Rightarrow> cell" where
  "cell_add e (en, tb) =
     (if (case tb of Some t \<Rightarrow> pe_epoch e \<le> t | None \<Rightarrow> False) then (en, tb)
      else case en of Some x \<Rightarrow> if pe_epoch x > pe_epoch e then (en, tb) else (Some e, tb)
                    | None \<Rightarrow> (Some e, tb))"

fun cell_evict :: "u64 \<Rightarrow> cell \<Rightarrow> cell" where
  "cell_evict t (en, tb) =
     ((case en of Some x \<Rightarrow> if pe_epoch x \<le> t then None else en | None \<Rightarrow> None),
      (case tb of Some u \<Rightarrow> if t \<ge> u then Some t else tb | None \<Rightarrow> Some t))"

lemma cell_ps_add:
  "cell_of (ps_add e s) fp = (if fp = pe_fingerprint e then cell_add e (cell_of s fp) else cell_of s fp)"
  by (auto simp: ps_add_def cell_of_def Let_def split: option.splits)

lemma cell_ps_evict:
  "cell_of (ps_evict k t s) fp = (if fp = k then cell_evict t (cell_of s fp) else cell_of s fp)"
  by (auto simp: ps_evict_def cell_of_def Let_def split: option.splits)

lemma prefix_set_eqI: "(\<And>fp. cell_of a fp = cell_of b fp) \<Longrightarrow> a = b" for a b :: prefix_set
  by (cases a; cases b) (auto simp: cell_of_def fun_eq_iff)

text \<open>
  The representation invariant: finitely many cells, an entry is filed under its own
  fingerprint, and it is newer than the tombstone beside it.
\<close>

definition ps_wf :: "prefix_set \<Rightarrow> bool" where
  "ps_wf s \<longleftrightarrow> finite (dom (ps_entries s)) \<and> finite (dom (ps_tombstones s))
     \<and> (\<forall>fp e. ps_entries s fp = Some e \<longrightarrow> pe_fingerprint e = fp \<and> \<not> hidden s fp e)"

definition cell_wf :: "u64 \<Rightarrow> cell \<Rightarrow> bool" where
  "cell_wf fp c \<longleftrightarrow> (case c of (Some e, tb) \<Rightarrow> pe_fingerprint e = fp
       \<and> (case tb of Some t \<Rightarrow> t < pe_epoch e | None \<Rightarrow> True) | _ \<Rightarrow> True)"

lemma ps_wf_cells:
  "ps_wf s \<longleftrightarrow> finite (dom (ps_entries s)) \<and> finite (dom (ps_tombstones s)) \<and> (\<forall>fp. cell_wf fp (cell_of s fp))"
  by (auto simp: ps_wf_def cell_wf_def cell_of_def hidden_def not_le split: option.splits)

lemma cell_wf_add: "cell_wf (pe_fingerprint e) c \<Longrightarrow> cell_wf (pe_fingerprint e) (cell_add e c)"
  by (cases c) (auto simp: cell_wf_def not_le split: option.splits)

lemma cell_wf_evict: "cell_wf fp c \<Longrightarrow> cell_wf fp (cell_evict t c)"
  by (cases c) (auto simp: cell_wf_def not_le split: option.splits if_splits)

lemma dom_ps_add:
  "dom (ps_entries (ps_add e s)) \<subseteq> insert (pe_fingerprint e) (dom (ps_entries s))"
  "ps_tombstones (ps_add e s) = ps_tombstones s"
  by (auto simp: ps_add_def Let_def split: option.splits if_splits)

lemma dom_ps_evict:
  "dom (ps_entries (ps_evict fp t s)) \<subseteq> dom (ps_entries s)"
  "dom (ps_tombstones (ps_evict fp t s)) \<subseteq> insert fp (dom (ps_tombstones s))"
  by (auto simp: ps_evict_def Let_def split: option.splits if_splits)

lemma ps_wf_add: "ps_wf s \<Longrightarrow> ps_wf (ps_add e s)"
  unfolding ps_wf_cells
  by (auto simp: cell_ps_add cell_wf_add dom_ps_add(2) intro: finite_subset [OF dom_ps_add(1)])

lemma ps_wf_evict: "ps_wf s \<Longrightarrow> ps_wf (ps_evict fp t s)"
  unfolding ps_wf_cells
  by (auto simp: cell_ps_evict cell_wf_evict intro: finite_subset [OF dom_ps_evict(1)] finite_subset [OF dom_ps_evict(2)])

lemma ps_wf_new: "ps_wf ps_new"
  by (simp add: ps_wf_def ps_new_def)

lemma ps_wf_run: "ps_wf s \<Longrightarrow> ps_wf (fold ps_step ops s)"
proof (induction ops arbitrary: s)
  case (Cons o' ops)
  then show ?case by (cases o') (simp_all add: ps_wf_add ps_wf_evict)
qed simp

section \<open>Join, cell by cell\<close>

definition cell_join :: "cell \<Rightarrow> cell \<Rightarrow> cell" where
  "cell_join c d =
     (let c1 = (case fst d of Some e \<Rightarrow> cell_add e c | None \<Rightarrow> c)
      in case snd d of Some t \<Rightarrow> cell_evict t c1 | None \<Rightarrow> c1)"

text \<open>A loop whose iterations each change the cell of their own key only.\<close>

lemma fold_cells:
  assumes "\<And>k s fp. k \<in> set ks \<Longrightarrow> cell_of (f k s) fp = (if fp = k then g k (cell_of s fp) else cell_of s fp)"
    and "distinct ks"
  shows "cell_of (fold f ks s) fp = (if fp \<in> set ks then g fp (cell_of s fp) else cell_of s fp)"
  using assms by (induction ks arbitrary: s) auto

lemma set_keys_asc: "finite (dom m) \<Longrightarrow> set (keys_asc m) = dom m"
  by (simp add: keys_asc_def)

lemma distinct_keys_asc [simp]: "distinct (keys_asc m)"
  by (simp add: keys_asc_def)

lemma cell_ps_join:
  assumes "ps_wf b"
  shows "cell_of (ps_join a b) fp = cell_join (cell_of a fp) (cell_of b fp)"
proof -
  have fin: "finite (dom (ps_entries b))" "finite (dom (ps_tombstones b))"
    and fpr: "\<And>k e. ps_entries b k = Some e \<Longrightarrow> pe_fingerprint e = k"
    using assms by (auto simp: ps_wf_def)
  let ?out = "fold (\<lambda>k s. ps_add (the (ps_entries b k)) s) (keys_asc (ps_entries b)) a"
  have out: "cell_of ?out fp = (if fp \<in> dom (ps_entries b) then cell_add (the (ps_entries b fp)) (cell_of a fp) else cell_of a fp)"
    using fin fpr by (subst fold_cells [where g = "\<lambda>k. cell_add (the (ps_entries b k))"])
      (auto simp: set_keys_asc cell_ps_add)
  have "cell_of (ps_join a b) fp =
      (if fp \<in> dom (ps_tombstones b) then cell_evict (the (ps_tombstones b fp)) (cell_of ?out fp) else cell_of ?out fp)"
    unfolding ps_join_def Let_def using fin
    by (subst fold_cells [where g = "\<lambda>k. cell_evict (the (ps_tombstones b k))"])
      (auto simp: set_keys_asc cell_ps_evict)
  then show ?thesis unfolding out
    by (auto simp: cell_join_def cell_of_def Let_def dom_def split: option.splits)
qed

definition ps_compat :: "prefix_set \<Rightarrow> prefix_set \<Rightarrow> bool" where
  "ps_compat a b \<longleftrightarrow> (\<forall>fp e e'. ps_entries a fp = Some e \<and> ps_entries b fp = Some e' \<and> pe_epoch e = pe_epoch e' \<longrightarrow> e = e')"

definition cell_compat :: "cell \<Rightarrow> cell \<Rightarrow> bool" where
  "cell_compat c d \<longleftrightarrow> (\<forall>e e'. fst c = Some e \<and> fst d = Some e' \<and> pe_epoch e = pe_epoch e' \<longrightarrow> e = e')"

lemma ps_compat_cells: "ps_compat a b \<longleftrightarrow> (\<forall>fp. cell_compat (cell_of a fp) (cell_of b fp))"
  by (auto simp: ps_compat_def cell_compat_def cell_of_def)

text \<open>
  For well-formed cells the join has a closed form: the larger tombstone, and the newer entry
  unless that tombstone hides it. The laws of the join follow from the laws of the two parts.
\<close>

fun tomb_max :: "u64 option \<Rightarrow> u64 option \<Rightarrow> u64 option" where
  "tomb_max None u = u"
| "tomb_max t None = t"
| "tomb_max (Some t) (Some u) = Some (max t u)"

fun newer :: "prefix_entry option \<Rightarrow> prefix_entry option \<Rightarrow> prefix_entry option" where
  "newer None y = y"
| "newer x None = x"
| "newer (Some x) (Some y) = (if pe_epoch x > pe_epoch y then Some x else Some y)"

fun survive :: "u64 option \<Rightarrow> prefix_entry option \<Rightarrow> prefix_entry option" where
  "survive (Some t) (Some e) = (if pe_epoch e \<le> t then None else Some e)"
| "survive None e = e"
| "survive t None = None"

fun tomb_le :: "u64 option \<Rightarrow> u64 option \<Rightarrow> bool" where
  "tomb_le None u = True"
| "tomb_le (Some t) None = False"
| "tomb_le (Some t) (Some u) = (t \<le> u)"

lemma cell_wf_survive: "cell_wf fp (en, tb) \<longleftrightarrow> survive tb en = en \<and> (\<forall>e. en = Some e \<longrightarrow> pe_fingerprint e = fp)"
  by (cases en; cases tb) (auto simp: cell_wf_def)

lemma cell_join_closed:
  "survive tb en = en \<Longrightarrow> cell_join (en, tb) (en', tb') = (survive (tomb_max tb tb') (newer en en'), tomb_max tb tb')"
  by (cases en; cases tb; cases en'; cases tb') (auto simp: cell_join_def max_def split: if_splits)

lemma tomb_max_idem: "tomb_max t t = t"
  by (cases t) simp_all

lemma tomb_max_comm: "tomb_max t u = tomb_max u t"
  by (cases t; cases u) (simp_all add: max.commute)

lemma tomb_max_assoc: "tomb_max (tomb_max t u) v = tomb_max t (tomb_max u v)"
  by (cases t; cases u; cases v) (simp_all add: max.assoc)

lemma tomb_le_max: "tomb_le t (tomb_max t u)" "tomb_le u (tomb_max t u)"
  by (cases t; cases u; simp)+

lemma newer_idem: "newer x x = x"
  by (cases x) simp_all

lemma newer_comm: "cell_compat (x, t) (y, u) \<Longrightarrow> newer x y = newer y x"
  by (cases x; cases y) (auto simp: cell_compat_def)

lemma newer_assoc: "newer (newer x y) z = newer x (newer y z)"
  by (cases x; cases y; cases z) auto

lemma survive_newer:
  "tomb_le t u \<Longrightarrow> survive u (newer (survive t x) y) = survive u (newer x y)"
  "tomb_le t u \<Longrightarrow> survive u (newer y (survive t x)) = survive u (newer y x)"
  by (cases t; cases u; cases x; cases y; auto)+

lemma survive_idem: "survive t (survive t x) = survive t x"
  by (cases t; cases x) auto

lemma newer_fp: "newer x y = Some e \<Longrightarrow> x = Some e \<or> y = Some e"
  by (cases x; cases y) (auto split: if_splits)

lemma survive_SomeD: "survive t x = Some e \<Longrightarrow> x = Some e"
  by (cases t; cases x) (auto split: if_splits)

lemma cell_join_wf: "cell_wf fp c \<Longrightarrow> cell_wf fp d \<Longrightarrow> cell_wf fp (cell_join c d)"
  by (cases c; cases d) (auto simp: cell_wf_survive cell_join_closed survive_idem dest!: survive_SomeD newer_fp)

lemma cell_join_idem: "cell_wf fp c \<Longrightarrow> cell_join c c = c"
  by (cases c) (auto simp: cell_wf_survive cell_join_closed tomb_max_idem newer_idem)

lemma cell_join_comm:
  assumes "cell_wf fp c" and "cell_wf fp d" and "cell_compat c d"
  shows "cell_join c d = cell_join d c"
proof -
  obtain x t y u where cd: "c = (x, t)" "d = (y, u)" by (metis surj_pair)
  have "newer x y = newer y x" using assms(3) newer_comm [of x t y u] cd by simp
  then show ?thesis using assms cd tomb_max_comm [of t u] by (simp add: cell_wf_survive cell_join_closed)
qed

lemma cell_join_assoc:
  assumes "cell_wf fp c" and "cell_wf fp d" and "cell_wf fp e"
  shows "cell_join (cell_join c d) e = cell_join c (cell_join d e)"
proof -
  obtain x t y u z v where cde: "c = (x, t)" "d = (y, u)" "e = (z, v)" by (metis surj_pair)
  have w: "survive t x = x" "survive u y = y" using assms cde by (auto simp: cell_wf_survive)
  let ?T = "tomb_max t (tomb_max u v)"
  have le1: "tomb_le (tomb_max t u) ?T" using tomb_le_max(1) [of "tomb_max t u" v] by (simp add: tomb_max_assoc)
  have le2: "tomb_le (tomb_max u v) ?T" by (rule tomb_le_max)
  show ?thesis
    using w by (simp add: cde cell_join_closed survive_idem tomb_max_assoc survive_newer [OF le1]
        survive_newer [OF le2] newer_assoc)
qed

lemma cell_join_entry: "fst (cell_join c d) = Some e \<Longrightarrow> fst c = Some e \<or> fst d = Some e"
  by (cases c; cases d) (auto simp: cell_join_def Let_def split: option.splits if_splits)

lemma ps_wf_fold:
  "ps_wf s \<Longrightarrow> ps_wf (fold (\<lambda>fp s. ps_add (f fp) s) ks s)"
  "ps_wf s \<Longrightarrow> ps_wf (fold (\<lambda>fp s. ps_evict fp (g fp) s) ks s)"
  by (induction ks arbitrary: s) (simp_all add: ps_wf_add ps_wf_evict)

lemma ps_wf_join: "ps_wf a \<Longrightarrow> ps_wf (ps_join a b)"
  unfolding ps_join_def Let_def by (intro ps_wf_fold)

interpretation pfx: semilattice_trait ps_wf ps_compat ps_join
proof unfold_locales
  fix a b c :: prefix_set
  assume abc: "ps_wf a" "ps_wf b" "ps_wf c"
  show "ps_join (ps_join a b) c = ps_join a (ps_join b c)"
  proof (rule prefix_set_eqI)
    fix fp
    have "cell_wf fp (cell_of a fp)" "cell_wf fp (cell_of b fp)" "cell_wf fp (cell_of c fp)"
      using abc by (auto simp: ps_wf_cells)
    then show "cell_of (ps_join (ps_join a b) c) fp = cell_of (ps_join a (ps_join b c)) fp"
      using abc by (simp add: cell_ps_join ps_wf_join cell_join_assoc)
  qed
  assume "ps_compat a b" "ps_compat a c"
  then show "ps_compat a (ps_join b c)"
    using abc by (fastforce simp: ps_compat_cells cell_ps_join cell_compat_def dest: cell_join_entry)
next
  fix a b :: prefix_set
  assume ab: "ps_wf a" "ps_wf b"
  then show "ps_wf (ps_join a b)" by (simp add: ps_wf_join)
  assume "ps_compat a b"
  with ab show "ps_join a b = ps_join b a"
    by (intro prefix_set_eqI) (auto simp: cell_ps_join ps_compat_cells ps_wf_cells intro: cell_join_comm)
next
  fix a b :: prefix_set
  assume "ps_compat a b"
  then show "ps_compat b a" unfolding ps_compat_def by metis
next
  fix a :: prefix_set
  assume "ps_wf a"
  then show "ps_join a a = a"
    by (intro prefix_set_eqI) (auto simp: cell_ps_join ps_wf_cells intro: cell_join_idem)
qed

section \<open>Properties\<close>

text \<open>
  Every history of additions and evictions keeps the set well formed: entries are filed
  under their own fingerprint and no stored entry is hidden by a tombstone, so \<open>contains\<close> is
  just presence.
\<close>

theorem prefix_set_invariant:
  "ps_wf (fold ps_step ops ps_new)
   \<and> (ps_contains fp (fold ps_step ops ps_new) \<longleftrightarrow> fp \<in> dom (ps_entries (fold ps_step ops ps_new)))"
proof -
  have "ps_wf (fold ps_step ops ps_new)" by (rule ps_wf_run [OF ps_wf_new])
  then show ?thesis by (auto simp: ps_wf_def ps_contains_def split: option.splits)
qed

text \<open>
  C26: gossip converges: a replica that joins a collection of well-formed states ends in the
  same state whatever the order and the number of times it receives each of them, provided that
  no two of the states carry different entries for one fingerprint at one epoch.
\<close>

theorem gossip_converges:
  assumes "set xs = set ys" and "ps_wf a" and "\<forall>s \<in> set xs. ps_wf s"
    and "\<forall>s \<in> set (a # xs). \<forall>s' \<in> set (a # xs). ps_compat s s'"
  shows "fold (\<lambda>x s. ps_join s x) xs a = fold (\<lambda>x s. ps_join s x) ys a"
  using assms by (rule pfx.fold_join_set_cong)

theorem gossip_converges_witness:
  "let a = fold ps_step [PAdd (entry_from_context_key 1 [7] 3)] ps_new;
       b = fold ps_step [PEvict 1 4, PAdd (entry_from_context_key 1 [8] 5)] ps_new
   in fold (\<lambda>x s. ps_join s x) [a, b] ps_new = fold (\<lambda>x s. ps_join s x) [b, a, b] ps_new"
  unfolding Let_def
proof (rule gossip_converges)
  let ?a = "fold ps_step [PAdd (entry_from_context_key 1 [7] 3)] ps_new"
  let ?b = "fold ps_step [PEvict 1 4, PAdd (entry_from_context_key 1 [8] 5)] ps_new"
  show "set [?a, ?b] = set [?b, ?a, ?b]" by auto
  show "ps_wf ps_new" by (rule ps_wf_new)
  show "\<forall>s \<in> set [?a, ?b]. ps_wf s" by (simp add: ps_wf_add ps_wf_evict ps_wf_new)
  show "\<forall>s \<in> set (ps_new # [?a, ?b]). \<forall>s' \<in> set (ps_new # [?a, ?b]). ps_compat s s'"
    by (auto simp: ps_compat_def ps_new_def ps_add_def ps_evict_def entry_from_context_key_def split: if_splits)
qed

text \<open>
  Without that proviso the join is not commutative, although its contract says it is: two
  replicas that added different entries for one fingerprint at the same epoch each keep the
  entry of the state they received last, and never agree.
\<close>

theorem join_not_commutative:
  "let a = fold ps_step [PAdd (entry_from_context_key 1 [7] 3)] ps_new;
       b = fold ps_step [PAdd (entry_from_context_key 1 [8] 3)] ps_new
   in ps_join a b \<noteq> ps_join b a"
proof -
  let ?a = "fold ps_step [PAdd (entry_from_context_key 1 [7] 3)] ps_new"
  let ?b = "fold ps_step [PAdd (entry_from_context_key 1 [8] 3)] ps_new"
  have "ps_wf ?a" "ps_wf ?b" using ps_wf_run [OF ps_wf_new] by blast+
  then have "cell_of (ps_join ?a ?b) 1 \<noteq> cell_of (ps_join ?b ?a) 1"
    by (simp add: cell_ps_join)
      (simp add: cell_of_def cell_join_def ps_new_def ps_add_def entry_from_context_key_def)
  then show ?thesis by (auto simp: Let_def)
qed

end
