(* ===== verification/Rewriting.thy ===== *)
theory Rewriting
  imports Rust_Prelude
begin

text \<open>
  The string rewriting engine of \<open>crates/rc-algebra/src/rewriting.rs\<close>: bounded normalization,
  critical pairs, the confluence check, and the shipped rule set. \<open>Rule::new\<close> asserts a
  non-empty left-hand side, which is the well-formedness predicate \<open>rules_ok\<close>.
\<close>

type_synonym symbol = u32

record rule =
  lhs :: "symbol list"
  rhs :: "symbol list"

definition rule_new :: "symbol list \<Rightarrow> symbol list \<Rightarrow> rule option" where
  "rule_new l r = (if l = [] then None else Some \<lparr>lhs = l, rhs = r\<rparr>)"

type_synonym rewrite_system = "rule list"

fun find_index :: "('a \<Rightarrow> bool) \<Rightarrow> 'a list \<Rightarrow> nat option" where
  "find_index P [] = None"
| "find_index P (x # xs) = (if P x then Some 0 else map_option Suc (find_index P xs))"

text \<open>The outer loop over positions, the inner loop over rules.\<close>

fun first_redex_from :: "rewrite_system \<Rightarrow> symbol list \<Rightarrow> nat list \<Rightarrow> (nat \<times> nat) option" where
  "first_redex_from rules term [] = None"
| "first_redex_from rules term (pos # ps) =
     (case find_index (\<lambda>r. length (lhs r) \<le> length term - pos \<and> take (length (lhs r)) (drop pos term) = lhs r) rules of
        Some idx \<Rightarrow> Some (pos, idx)
      | None \<Rightarrow> first_redex_from rules term ps)"

definition first_redex :: "rewrite_system \<Rightarrow> symbol list \<Rightarrow> (nat \<times> nat) option" where
  "first_redex rules term = first_redex_from rules term [0..<length term]"

definition apply_at :: "symbol list \<Rightarrow> nat \<Rightarrow> rule \<Rightarrow> symbol list" where
  "apply_at term pos r = take pos term @ rhs r @ drop (pos + length (lhs r)) term"

fun normalize_bounded :: "rewrite_system \<Rightarrow> symbol list \<Rightarrow> nat \<Rightarrow> symbol list" where
  "normalize_bounded rules term 0 = term"
| "normalize_bounded rules term (Suc steps) =
     (case first_redex rules term of
        Some (pos, idx) \<Rightarrow> normalize_bounded rules (apply_at term pos (rules ! idx)) steps
      | None \<Rightarrow> term)"

definition max_steps :: nat where
  "max_steps = 100000"

definition normalize :: "rewrite_system \<Rightarrow> symbol list \<Rightarrow> symbol list" where
  "normalize rules input = normalize_bounded rules input max_steps"

record critical_pair =
  cp_term :: "symbol list"
  reduction_a :: "symbol list"
  reduction_b :: "symbol list"

record confluence_report =
  confluent :: bool
  failures :: "critical_pair list"

text \<open>The body of the loop over \<open>k in 1..=max_k\<close>.\<close>

definition overlap_at :: "rewrite_system \<Rightarrow> rule \<Rightarrow> rule \<Rightarrow> nat \<Rightarrow> critical_pair list" where
  "overlap_at rules a b k =
     (let la = length (lhs a); lb = length (lhs b)
      in if la \<ge> k \<and> lb \<ge> k \<and> drop (la - k) (lhs a) = take k (lhs b)
         then let term = lhs a @ drop k (lhs b);
                  nf_a = normalize rules (apply_at term 0 a);
                  nf_b = normalize rules (apply_at term (la - k) b)
              in if nf_a \<noteq> nf_b then [\<lparr>cp_term = term, reduction_a = nf_a, reduction_b = nf_b\<rparr>] else []
         else [])"

definition overlaps :: "rewrite_system \<Rightarrow> rule \<Rightarrow> rule \<Rightarrow> critical_pair list" where
  "overlaps rules a b =
     concat (map (overlap_at rules a b) [1..<Suc (min (length (lhs a)) (length (lhs b)) - 1)])"

definition critical_pairs :: "rewrite_system \<Rightarrow> critical_pair list" where
  "critical_pairs rules = concat (map (\<lambda>a. concat (map (\<lambda>b. overlaps rules a b) rules)) rules)"

definition is_confluent :: "rewrite_system \<Rightarrow> confluence_report" where
  "is_confluent rules =
     (let fs = filter (\<lambda>cp. reduction_a cp \<noteq> reduction_b cp) (critical_pairs rules)
      in \<lparr>confluent = (fs = []), failures = fs\<rparr>)"

definition demo_rules :: rewrite_system where
  "demo_rules =
     [\<lparr>lhs = [0, 0], rhs = [0]\<rparr>, \<lparr>lhs = [1, 2], rhs = []\<rparr>, \<lparr>lhs = [3, 0], rhs = [0]\<rparr>,
      \<lparr>lhs = [0, 2], rhs = [2]\<rparr>, \<lparr>lhs = [3, 2], rhs = [2]\<rparr>]"

definition all_rules_length_decreasing :: "rewrite_system \<Rightarrow> bool" where
  "all_rules_length_decreasing rules = list_all (\<lambda>r. length (rhs r) < length (lhs r)) rules"

section \<open>The rewrite relation\<close>

inductive rewr :: "rewrite_system \<Rightarrow> symbol list \<Rightarrow> symbol list \<Rightarrow> bool" for rules where
  rewrite: "r \<in> set rules \<Longrightarrow> rewr rules (u @ lhs r @ v) (u @ rhs r @ v)"

inductive_cases rewrE: "rewr rules s t"

inductive rewr_star :: "rewrite_system \<Rightarrow> symbol list \<Rightarrow> symbol list \<Rightarrow> bool" for rules where
  refl: "rewr_star rules s s"
| step: "rewr rules s t \<Longrightarrow> rewr_star rules t u \<Longrightarrow> rewr_star rules s u"

definition normal :: "rewrite_system \<Rightarrow> symbol list \<Rightarrow> bool" where
  "normal rules s \<longleftrightarrow> (\<forall>t. \<not> rewr rules s t)"

definition rules_ok :: "rewrite_system \<Rightarrow> bool" where
  "rules_ok rules \<longleftrightarrow> (\<forall>r \<in> set rules. lhs r \<noteq> [])"

lemma find_index_SomeD: "find_index P xs = Some i \<Longrightarrow> i < length xs \<and> P (xs ! i)"
  by (induction xs arbitrary: i) (auto split: if_splits)

lemma find_index_Some_ex: "find_index P xs = Some i \<Longrightarrow> \<exists>x \<in> set xs. P x"
  using find_index_SomeD nth_mem by metis

lemma find_index_None_iff: "find_index P xs = None \<longleftrightarrow> (\<forall>x \<in> set xs. \<not> P x)"
  by (induction xs) auto

lemma first_redex_from_SomeD:
  "first_redex_from rules term ps = Some (pos, idx) \<Longrightarrow>
     pos \<in> set ps \<and> idx < length rules \<and> take (length (lhs (rules ! idx))) (drop pos term) = lhs (rules ! idx)"
  by (induction ps) (auto split: option.splits dest: find_index_SomeD)

lemma first_redex_from_None_iff:
  "first_redex_from rules term ps = None \<longleftrightarrow>
     (\<forall>pos \<in> set ps. \<forall>r \<in> set rules. \<not> (length (lhs r) \<le> length term - pos \<and> take (length (lhs r)) (drop pos term) = lhs r))"
  by (induction ps) (auto split: option.splits simp: find_index_None_iff dest: find_index_Some_ex)

lemma first_redex_rewrites:
  assumes "first_redex rules term = Some (pos, idx)"
  shows "rewr rules term (apply_at term pos (rules ! idx)) \<and> rules ! idx \<in> set rules"
proof -
  let ?r = "rules ! idx"
  have idx: "idx < length rules" and tk: "take (length (lhs ?r)) (drop pos term) = lhs ?r"
    using assms by (auto simp: first_redex_def dest: first_redex_from_SomeD)
  have "drop pos term = lhs ?r @ drop (pos + length (lhs ?r)) term"
    by (metis add.commute append_take_drop_id drop_drop tk)
  then have "term = take pos term @ lhs ?r @ drop (pos + length (lhs ?r)) term"
    by (metis append_take_drop_id)
  then show ?thesis
    using rewr.rewrite [of ?r rules "take pos term" "drop (pos + length (lhs ?r)) term"] idx
    by (simp add: apply_at_def)
qed

lemma first_redex_None_normal:
  assumes "rules_ok rules"
  shows "first_redex rules term = None \<longleftrightarrow> normal rules term"
proof
  assume none: "first_redex rules term = None"
  have "False" if "rewr rules term t" for t
    using that
  proof (cases rule: rewr.cases)
    case (rewrite r u v)
    then have "length u \<in> set [0..<length term]" using assms by (cases "lhs r") (auto simp: rules_ok_def)
    then have "\<not> (length (lhs r) \<le> length term - length u \<and> take (length (lhs r)) (drop (length u) term) = lhs r)"
      using none rewrite(3) unfolding first_redex_def first_redex_from_None_iff by blast
    then show False using rewrite(1) by simp
  qed
  then show "normal rules term" by (auto simp: normal_def)
next
  assume "normal rules term"
  then show "first_redex rules term = None"
    using first_redex_rewrites [of rules "term"] by (cases "first_redex rules term") (auto simp: normal_def)
qed

lemma rewr_length_decreasing:
  "all_rules_length_decreasing rules \<Longrightarrow> rewr rules s t \<Longrightarrow> length t < length s"
  by (erule rewrE) (auto simp: all_rules_length_decreasing_def list_all_iff)

lemma normalize_bounded_star: "rewr_star rules s (normalize_bounded rules s n)"
proof (induction n arbitrary: s)
  case (Suc n)
  then show ?case
    by (auto split: option.splits intro: rewr_star.intros dest: first_redex_rewrites)
qed (simp add: rewr_star.refl)

lemma normalize_bounded_normal:
  assumes "rules_ok rules" and "all_rules_length_decreasing rules"
  shows "length s \<le> n \<Longrightarrow> normal rules (normalize_bounded rules s n)"
proof (induction n arbitrary: s)
  case 0
  then show ?case using rewr_length_decreasing [OF assms(2), of s] by (fastforce simp: normal_def)
next
  case (Suc n)
  show ?case
  proof (cases "first_redex rules s")
    case None
    then have "normal rules s" by (simp add: first_redex_None_normal [OF assms(1), symmetric])
    with None show ?thesis by simp
  next
    case (Some p)
    obtain pos idx where p: "p = (pos, idx)" by (cases p)
    have "length (apply_at s pos (rules ! idx)) < length s"
      using first_redex_rewrites Some p rewr_length_decreasing [OF assms(2)] by blast
    with Suc Some p show ?thesis by simp
  qed
qed

section \<open>The shipped rules\<close>

text \<open>A normal form computed from the right: \<open>push x u\<close> puts \<open>x\<close> in front of the normal word \<open>u\<close>.\<close>

definition push :: "symbol \<Rightarrow> symbol list \<Rightarrow> symbol list" where
  "push x u = (case u of [] \<Rightarrow> [x]
     | y # v \<Rightarrow> if (x = 0 \<or> x = 3) \<and> (y = 0 \<or> y = 2) then u else if x = 1 \<and> y = 2 then v else x # u)"

definition demo_nf :: "symbol list \<Rightarrow> symbol list" where
  "demo_nf w = foldr push w []"

lemma demo_nf_append: "demo_nf (u @ v) = foldr push u (demo_nf v)"
  by (simp add: demo_nf_def)

lemma demo_nf_rule: "r \<in> set demo_rules \<Longrightarrow> foldr push (lhs r) s = foldr push (rhs r) s"
  by (cases s) (auto simp: demo_rules_def push_def)

lemma demo_nf_rewrites: "rewr demo_rules s t \<Longrightarrow> demo_nf s = demo_nf t"
  by (erule rewrE) (simp add: demo_nf_append demo_nf_rule)

lemma demo_nf_star: "rewr_star demo_rules s t \<Longrightarrow> demo_nf s = demo_nf t"
  by (induction rule: rewr_star.induct) (auto dest: demo_nf_rewrites)

lemma normal_Cons: "normal rules (x # w) \<Longrightarrow> normal rules w"
  unfolding normal_def by (metis append_Cons rewr.cases rewr.rewrite)

lemma demo_nf_normal: "normal demo_rules w \<Longrightarrow> demo_nf w = w"
proof (induction w)
  case (Cons x w)
  have w: "demo_nf w = w" using Cons normal_Cons by blast
  have nored: "\<not> (\<exists>r \<in> set demo_rules. \<exists>v. x # w = lhs r @ v)"
    using Cons.prems by (metis append_Nil normal_def rewr.rewrite)
  have "push x w = x # w"
    using nored by (cases w) (auto simp: push_def demo_rules_def)
  then show ?case using w by (simp add: demo_nf_def)
qed (simp add: demo_nf_def)

section \<open>Properties\<close>

text \<open>
  For a system whose rules all shorten the term, \<open>normalize\<close> returns a normal form reached
  by rewriting, for every input up to its step bound of 100000 symbols: the bound is never what
  stops it.
\<close>

theorem normalize_reaches_normal_form:
  assumes "rules_ok rules" and "all_rules_length_decreasing rules" and "length input \<le> max_steps"
  shows "rewr_star rules input (normalize rules input) \<and> normal rules (normalize rules input)"
  using assms by (simp add: normalize_def normalize_bounded_star normalize_bounded_normal)

theorem normalize_reaches_normal_form_witness:
  "normal demo_rules (normalize demo_rules [3, 0, 0, 2, 1, 2])"
  using normalize_reaches_normal_form [of demo_rules "[3, 0, 0, 2, 1, 2]"]
  by (simp add: demo_rules_def rules_ok_def all_rules_length_decreasing_def max_steps_def)

text \<open>
  The shipped rules are confluent: any two normal forms reached from one word, by whatever
  rule order, are equal, and \<open>normalize\<close> computes that normal form for every word up to the
  step bound.
\<close>

theorem demo_rules_confluent:
  assumes "rewr_star demo_rules w s" and "normal demo_rules s"
    and "rewr_star demo_rules w t" and "normal demo_rules t"
  shows "s = t \<and> (length w \<le> max_steps \<longrightarrow> normalize demo_rules w = s)"
proof -
  have st: "s = demo_nf w" "t = demo_nf w" using assms demo_nf_star demo_nf_normal by metis+
  have "normalize demo_rules w = s" if "length w \<le> max_steps"
  proof -
    have "rules_ok demo_rules" "all_rules_length_decreasing demo_rules"
      by (simp_all add: demo_rules_def rules_ok_def all_rules_length_decreasing_def)
    with that have "normal demo_rules (normalize demo_rules w)" "rewr_star demo_rules w (normalize demo_rules w)"
      by (simp_all add: normalize_def normalize_bounded_star normalize_bounded_normal)
    then show ?thesis using st demo_nf_star demo_nf_normal by metis
  qed
  with st show ?thesis by simp
qed

theorem demo_rules_confluent_witness:
  "normalize demo_rules [3, 0, 2] = [2]"
proof -
  have "rewr demo_rules [3, 0, 2] [0, 2]"
    using rewr.rewrite [of "\<lparr>lhs = [3, 0], rhs = [0]\<rparr>" demo_rules "[]" "[2]"] by (simp add: demo_rules_def)
  moreover have "rewr demo_rules [0, 2] [2]"
    using rewr.rewrite [of "\<lparr>lhs = [0, 2], rhs = [2]\<rparr>" demo_rules "[]" "[]"] by (simp add: demo_rules_def)
  ultimately have s: "rewr_star demo_rules [3, 0, 2] [2]" by (blast intro: rewr_star.intros)
  have "rules_ok demo_rules" by (simp add: demo_rules_def rules_ok_def)
  then have n: "normal demo_rules [2]"
    using first_redex_None_normal [of demo_rules "[2]"] by (simp add: demo_rules_def first_redex_def)
  have "length [3 :: symbol, 0, 2] \<le> max_steps" by (simp add: max_steps_def)
  then show ?thesis using demo_rules_confluent [OF s n s n] by blast
qed

text \<open>
  The confluence check is unsound: for the rules \<open>[1, 2] \<rightarrow> [3]\<close> and \<open>[2] \<rightarrow> [4]\<close> it
  reports confluence, although \<open>[1, 2]\<close> rewrites to the two distinct normal forms \<open>[3]\<close> and
  \<open>[1, 4]\<close>. Overlaps are searched only up to one symbol less than the shorter left-hand side,
  so a left-hand side contained in another is never compared with it.
\<close>

theorem confluence_check_unsound:
  "let rules = [\<lparr>lhs = [1, 2], rhs = [3]\<rparr>, \<lparr>lhs = [2], rhs = [4]\<rparr>]
   in confluent (is_confluent rules) \<and> all_rules_length_decreasing [rules ! 0]
      \<and> rewr rules [1, 2] [3] \<and> normal rules [3] \<and> rewr rules [1, 2] [1, 4] \<and> normal rules [1, 4]"
proof -
  let ?rules = "[\<lparr>lhs = [1, 2], rhs = [3]\<rparr>, \<lparr>lhs = [2], rhs = [4]\<rparr>] :: rewrite_system"
  have ok: "rules_ok ?rules" by (simp add: rules_ok_def)
  have "confluent (is_confluent ?rules)"
    by (simp add: is_confluent_def critical_pairs_def overlaps_def overlap_at_def)
  moreover have "rewr ?rules [1, 2] [3]" "rewr ?rules [1, 2] [1, 4]"
    using rewr.rewrite [of "\<lparr>lhs = [1, 2], rhs = [3]\<rparr>" ?rules "[]" "[]"]
      rewr.rewrite [of "\<lparr>lhs = [2], rhs = [4]\<rparr>" ?rules "[1]" "[]"] by simp_all
  moreover have "normal ?rules [3]" "normal ?rules [1, 4]"
    unfolding first_redex_None_normal [OF ok, symmetric] by (simp_all add: first_redex_def upt_rec)
  ultimately show ?thesis by (simp add: all_rules_length_decreasing_def)
qed

end
