(* ===== verification/Accounting.thy ===== *)
theory Accounting
  imports Algebra_Traits
begin

text \<open>
  Token usage and cost: \<open>Usage\<close> of \<open>crates/rc-proto/src/wire.rs\<close>, \<open>Cost\<close> and \<open>Pricing\<close> of
  \<open>crates/rc-core/src/cost.rs\<close>. Token counts and micro-USD are \<open>u64\<close>; the cost of a response is
  computed in \<open>u128\<close>, a 128-bit word here, so that the sum wraps as the release build does.
\<close>

section \<open>Usage\<close>

text \<open>\<open>PromptTokensDetails\<close> has the single field \<open>cached_tokens\<close>.\<close>

record usage =
  prompt_tokens :: u64
  completion_tokens :: u64
  total_tokens :: u64
  prompt_tokens_details :: "u64 option"

definition usage_default :: usage where
  "usage_default = \<lparr>prompt_tokens = 0, completion_tokens = 0, total_tokens = 0, prompt_tokens_details = None\<rparr>"

definition cached_tokens :: "usage \<Rightarrow> u64 option" where
  "cached_tokens u = (case prompt_tokens_details u of Some c \<Rightarrow> if c > 0 then Some c else None | None \<Rightarrow> None)"

definition unwrap_or :: "'a \<Rightarrow> 'a option \<Rightarrow> 'a" where
  "unwrap_or d x = (case x of Some v \<Rightarrow> v | None \<Rightarrow> d)"

definition usage_add :: "usage \<Rightarrow> usage \<Rightarrow> usage" where
  "usage_add u other =
     (let cached = saturating_add (unwrap_or 0 (cached_tokens u)) (unwrap_or 0 (cached_tokens other))
      in \<lparr>prompt_tokens = saturating_add (prompt_tokens u) (prompt_tokens other),
          completion_tokens = saturating_add (completion_tokens u) (completion_tokens other),
          total_tokens = saturating_add (total_tokens u) (total_tokens other),
          prompt_tokens_details = (if cached > 0 then Some cached else prompt_tokens_details u)\<rparr>)"

section \<open>Cost\<close>

type_synonym cost = u64

definition cost_zero :: cost where
  "cost_zero = 0"

definition cost_add :: "cost \<Rightarrow> cost \<Rightarrow> cost" where
  "cost_add a b = saturating_add a b"

record pricing =
  price_prompt :: u64
  price_cached :: u64
  price_completion :: u64

definition pricing_zero :: pricing where
  "pricing_zero = \<lparr>price_prompt = 0, price_cached = 0, price_completion = 0\<rparr>"

definition per_million :: "128 word" where
  "per_million = 1000000"

definition cost_of :: "pricing \<Rightarrow> usage \<Rightarrow> cost" where
  "cost_of p u =
     (let cached = min (unwrap_or 0 (cached_tokens u)) (prompt_tokens u);
          prompt_billable = saturating_sub (prompt_tokens u) cached;
          total = (0 :: 128 word);
          total = total + ucast prompt_billable * ucast (price_prompt p);
          total = total + ucast cached * ucast (price_cached p);
          total = total + ucast (completion_tokens u) * ucast (price_completion p)
      in ucast (min (total div per_million) (ucast (- 1 :: u64))))"

section \<open>Cost is a commutative monoid\<close>

interpretation cost: comm_monoid_trait "\<lambda>_ :: cost. True" cost_zero cost_add
  by unfold_locales
    (simp_all add: cost_add_def cost_zero_def saturating_add_assoc, rule saturating_add_commute)

lemma unat_cost_add [sat_simps]: "unat (cost_add a b) = min (unat a + unat b) (2 ^ 64 - 1)"
  by (simp add: cost_add_def unat_saturating_add)

lemma unat_reduce_cost: "unat (reduce cost_add cost_zero cs) = min (sum_list (map unat cs)) (2 ^ 64 - 1)"
  by (induction cs rule: rev_induct) (simp_all add: sat_simps cost_zero_def)

section \<open>The exact cost of a response\<close>

text \<open>Tokens times micro-USD, before the division by a million, in unbounded arithmetic.\<close>

definition billed :: "pricing \<Rightarrow> usage \<Rightarrow> nat" where
  "billed p u =
     (let cached = min (unat (unwrap_or 0 (cached_tokens u))) (unat (prompt_tokens u))
      in (unat (prompt_tokens u) - cached) * unat (price_prompt p) + cached * unat (price_cached p)
         + unat (completion_tokens u) * unat (price_completion p))"

lemma unat_min_word: "unat (min a b) = min (unat a) (unat b)" for a b :: "'a::len word"
  by (simp add: min_def word_le_nat_alt)

lemma unat_ucast_64_128: "unat (ucast (a :: u64) :: 128 word) = unat a"
  by (simp add: unsigned_ucast_eq take_bit_nat_eq_self unsigned_less [THEN less_le_trans])

lemma cost_of_exact:
  assumes "billed p u < 2 ^ 128"
  shows "unat (cost_of p u) = min (billed p u div 1000000) (2 ^ 64 - 1)"
proof -
  define c where "c = min (unwrap_or 0 (cached_tokens u)) (prompt_tokens u)"
  define A B D :: "128 word"
    where "A = ucast (saturating_sub (prompt_tokens u) c) * ucast (price_prompt p)"
      and "B = ucast c * ucast (price_cached p)"
      and "D = ucast (completion_tokens u) * ucast (price_completion p)"
  have b: "billed p u = (unat (prompt_tokens u) - unat c) * unat (price_prompt p) + unat c * unat (price_cached p)
      + unat (completion_tokens u) * unat (price_completion p)"
    by (simp add: billed_def Let_def c_def unat_min_word)
  have tot: "unat (0 + A + B + D) = billed p u"
    using assms unfolding b A_def B_def D_def
    by (simp add: unat_word_ariths unat_ucast_64_128 unat_saturating_sub mod_simps)
  have cost: "cost_of p u = ucast (min ((0 + A + B + D) div per_million) (ucast (- 1 :: u64)))"
    by (simp add: cost_of_def Let_def c_def A_def B_def D_def)
  have m1: "unat (- 1 :: u64) = 2 ^ 64 - 1" by (simp add: unsigned_minus_1_eq_mask mask_eq_exp_minus_1)
  have "unat (min ((0 + A + B + D) div per_million) (ucast (- 1 :: u64)) :: 128 word) = min (billed p u div 1000000) (2 ^ 64 - 1)"
    by (simp only: unat_min_word unat_div tot unat_ucast_64_128 m1) (simp add: per_million_def)
  then show ?thesis
    unfolding cost by (simp add: unsigned_ucast_eq take_bit_nat_eq_self)
qed

lemma saturating_add_eq_0: "saturating_add a b = 0 \<longleftrightarrow> a = 0 \<and> b = 0" for a b :: u64
  by (auto simp: word_unat_eq_iff sat_simps min_def split: if_splits)

text \<open>What \<open>Usage::add\<close> does to the cached count.\<close>

lemma cached_usage_add:
  "unwrap_or 0 (cached_tokens (usage_add u v)) = saturating_add (unwrap_or 0 (cached_tokens u)) (unwrap_or 0 (cached_tokens v))"
proof (cases "saturating_add (unwrap_or 0 (cached_tokens u)) (unwrap_or 0 (cached_tokens v)) > 0")
  case True
  then show ?thesis by (simp add: usage_add_def Let_def cached_tokens_def unwrap_or_def)
next
  case False
  then have z: "saturating_add (unwrap_or 0 (cached_tokens u)) (unwrap_or 0 (cached_tokens v)) = 0"
    by (simp add: word_gt_0)
  then have "unwrap_or 0 (cached_tokens u) = 0" by (simp add: saturating_add_eq_0)
  with z False show ?thesis
    by (auto simp: usage_add_def Let_def cached_tokens_def unwrap_or_def split: option.splits if_splits)
qed

text \<open>No counter of the sum of two usages saturates, and cached tokens are prompt tokens.\<close>

definition usage_fits :: "usage \<Rightarrow> usage \<Rightarrow> bool" where
  "usage_fits u v \<longleftrightarrow>
     unat (unwrap_or 0 (cached_tokens u)) \<le> unat (prompt_tokens u)
     \<and> unat (unwrap_or 0 (cached_tokens v)) \<le> unat (prompt_tokens v)
     \<and> unat (prompt_tokens u) + unat (prompt_tokens v) < 2 ^ 64
     \<and> unat (completion_tokens u) + unat (completion_tokens v) < 2 ^ 64"

lemma billed_usage_add:
  assumes "usage_fits u v"
  shows "billed p (usage_add u v) = billed p u + billed p v"
proof -
  let ?cu = "unat (unwrap_or 0 (cached_tokens u))" and ?cv = "unat (unwrap_or 0 (cached_tokens v))"
  let ?pu = "unat (prompt_tokens u)" and ?pv = "unat (prompt_tokens v)"
  have f: "?cu \<le> ?pu" "?cv \<le> ?pv" "?pu + ?pv < 2 ^ 64"
    "unat (completion_tokens u) + unat (completion_tokens v) < 2 ^ 64"
    using assms by (auto simp: usage_fits_def)
  have c: "unat (unwrap_or 0 (cached_tokens (usage_add u v))) = ?cu + ?cv"
    using f by (simp add: cached_usage_add sat_simps)
  have pr: "unat (prompt_tokens (usage_add u v)) = ?pu + ?pv"
    using f by (simp add: usage_add_def Let_def sat_simps)
  have co: "unat (completion_tokens (usage_add u v)) = unat (completion_tokens u) + unat (completion_tokens v)"
    using f by (simp add: usage_add_def Let_def sat_simps)
  have e: "?pu + ?pv - (?cu + ?cv) = (?pu - ?cu) + (?pv - ?cv)" using f by simp
  have m: "min ?cu ?pu = ?cu" "min ?cv ?pv = ?cv" "min (?cu + ?cv) (?pu + ?pv) = ?cu + ?cv" using f by simp_all
  show ?thesis
    unfolding billed_def Let_def c pr co m e by (simp only: add_mult_distrib add_mult_distrib2 ac_simps)
qed

section \<open>Properties\<close>

text \<open>
  The running total is independent of how the accounting is sharded and ordered: reducing
  any shards of any permutation of the costs gives the exact sum, clamped at \<open>u64::MAX\<close>.
\<close>

theorem total_cost_shard_independent:
  assumes "mset (concat shards) = mset costs"
  shows "reduce cost_add cost_zero (map (reduce cost_add cost_zero) shards) = reduce cost_add cost_zero costs
    \<and> unat (reduce cost_add cost_zero costs) = min (sum_list (map unat costs)) (2 ^ 64 - 1)"
proof -
  have "reduce cost_add cost_zero (map (reduce cost_add cost_zero) shards) = reduce cost_add cost_zero (concat shards)"
    using cost.reduce_shards [of shards] by simp
  also have "\<dots> = reduce cost_add cost_zero costs"
    using assms by (intro cost.reduce_mset_cong) simp_all
  finally show ?thesis by (simp add: unat_reduce_cost)
qed

theorem total_cost_shard_independent_witness:
  "reduce cost_add cost_zero (map (reduce cost_add cost_zero) [[5, 7], [], [2]]) = reduce cost_add cost_zero [2, 5, 7]"
  using total_cost_shard_independent [of "[[5, 7], [], [2]]" "[2, 5, 7]"] by simp

text \<open>
  The cost of a response is the exact price, truncated to whole micro-USD and clamped at
  \<open>u64::MAX\<close>: cached prompt tokens at the cached price, the rest of the prompt at the prompt
  price, completion tokens at the completion price, whenever the sum fits \<open>u128\<close>.
\<close>

theorem cost_of_correct:
  assumes "billed p u < 2 ^ 128"
  shows "unat (cost_of p u) = min (billed p u div 1000000) (2 ^ 64 - 1)"
  using assms by (rule cost_of_exact)

theorem cost_of_correct_witness:
  "unat (cost_of \<lparr>price_prompt = 3000000, price_cached = 300000, price_completion = 15000000\<rparr>
     \<lparr>prompt_tokens = 1000, completion_tokens = 200, total_tokens = 1200, prompt_tokens_details = Some 400\<rparr>) = 4920"
  using cost_of_correct [of "\<lparr>price_prompt = 3000000, price_cached = 300000, price_completion = 15000000\<rparr>"
      "\<lparr>prompt_tokens = 1000, completion_tokens = 200, total_tokens = 1200, prompt_tokens_details = Some 400\<rparr>"]
  by (simp add: billed_def Let_def cached_tokens_def unwrap_or_def)

text \<open>
  How per-response costs relate to the cost of the combined usage. Each response is truncated
  to whole micro-USD on its own, so two responses cost at most the combined usage and at least
  one micro-USD less, when no counter saturates.
\<close>

theorem cost_of_nearly_additive:
  assumes "usage_fits u v" and "billed p (usage_add u v) < 1000000 * (2 ^ 64 - 1)"
  shows "unat (cost_add (cost_of p u) (cost_of p v)) \<le> unat (cost_of p (usage_add u v))
    \<and> unat (cost_of p (usage_add u v)) \<le> unat (cost_add (cost_of p u) (cost_of p v)) + 1"
proof -
  have b: "billed p (usage_add u v) = billed p u + billed p v" by (rule billed_usage_add [OF assms(1)])
  let ?x = "billed p u" and ?y = "billed p v"
  have lim: "?x + ?y < 1000000 * (2 ^ 64 - 1)" using assms(2) b by simp
  have cu: "unat (cost_of p u) = ?x div 1000000" and cv: "unat (cost_of p v) = ?y div 1000000"
    and cuv: "unat (cost_of p (usage_add u v)) = (?x + ?y) div 1000000"
    using lim b by (simp_all add: cost_of_exact min_def)
  have lo: "?x div 1000000 + ?y div 1000000 \<le> (?x + ?y) div 1000000"
    and hi: "(?x + ?y) div 1000000 \<le> ?x div 1000000 + ?y div 1000000 + 1"
    using div_add1_eq [of ?x ?y 1000000] mod_less_divisor [of 1000000 ?x] mod_less_divisor [of 1000000 ?y]
    by auto
  have "(?x + ?y) div 1000000 < 2 ^ 64 - 1" using lim by (simp add: less_mult_imp_div_less mult.commute)
  with lo hi show ?thesis by (simp add: sat_simps cu cv cuv)
qed

theorem cost_of_nearly_additive_witness:
  "unat (cost_of \<lparr>price_prompt = 500000, price_cached = 0, price_completion = 0\<rparr>
      (usage_add \<lparr>prompt_tokens = 1, completion_tokens = 0, total_tokens = 1, prompt_tokens_details = None\<rparr>
                 \<lparr>prompt_tokens = 3, completion_tokens = 0, total_tokens = 3, prompt_tokens_details = None\<rparr>)) \<le> 2"
proof -
  let ?p = "\<lparr>price_prompt = 500000, price_cached = 0, price_completion = 0\<rparr>"
  let ?u = "\<lparr>prompt_tokens = 1, completion_tokens = 0, total_tokens = 1, prompt_tokens_details = None\<rparr>"
  let ?v = "\<lparr>prompt_tokens = 3, completion_tokens = 0, total_tokens = 3, prompt_tokens_details = None\<rparr>"
  have fits: "usage_fits ?u ?v" by (simp add: usage_fits_def cached_tokens_def unwrap_or_def)
  have "billed ?p (usage_add ?u ?v) < 1000000 * (2 ^ 64 - 1)"
    unfolding billed_usage_add [OF fits] by (simp add: billed_def Let_def cached_tokens_def unwrap_or_def)
  from cost_of_nearly_additive [OF fits this] show ?thesis
    by (simp add: sat_simps cost_of_exact billed_def Let_def cached_tokens_def unwrap_or_def)
qed

text \<open>
  \<open>cost_of\<close> is not a homomorphism, although its documentation says that summing
  \<open>cost_of(u_i)\<close> over a session equals \<open>cost_of\<close> of the summed usage: two one-token responses
  at half a micro-USD each cost nothing, their sum costs one micro-USD.
\<close>

theorem cost_of_not_additive:
  "let p = \<lparr>price_prompt = 500000, price_cached = 0, price_completion = 0\<rparr>;
       u = \<lparr>prompt_tokens = 1, completion_tokens = 0, total_tokens = 1, prompt_tokens_details = None\<rparr>
   in cost_add (cost_of p u) (cost_of p u) \<noteq> cost_of p (usage_add u u)"
proof -
  let ?p = "\<lparr>price_prompt = 500000, price_cached = 0, price_completion = 0\<rparr>"
  let ?u = "\<lparr>prompt_tokens = 1, completion_tokens = 0, total_tokens = 1, prompt_tokens_details = None\<rparr>"
  have "unat (cost_of ?p ?u) = 0" and "unat (cost_of ?p (usage_add ?u ?u)) = 1"
    by (simp_all add: cost_of_exact billed_def Let_def cached_tokens_def unwrap_or_def usage_add_def saturating_add_def)
  then have "unat (cost_add (cost_of ?p ?u) (cost_of ?p ?u)) \<noteq> unat (cost_of ?p (usage_add ?u ?u))"
    by (simp add: sat_simps)
  then show ?thesis by (auto simp: Let_def)
qed

end
