(* ===== verification/Turns.thy ===== *)
theory Turns
  imports Accounting Canonical_Order
begin

text \<open>
  The conversation of a session: \<open>Turn\<close>, \<open>ToolResultBody\<close> and the modes of
  \<open>crates/rc-core/src/turn.rs\<close>, \<open>ToolOutcome\<close> of \<open>tool.rs\<close>, the finish reasons of the provider,
  and the wire messages of \<open>crates/rc-proto/src/wire.rs\<close>. Instants and durations are
  milliseconds.
\<close>

section \<open>Tool calls and their results\<close>

record tool_call =
  call_id :: string
  call_name :: string
  call_arguments :: string

datatype tool_result_body =
    ResOk (res_content: string) (res_truncated: bool)
  | ResError (res_message: string) (res_retryable: bool)
  | ResDenied (res_reason: string)
  | ResInterrupted

datatype artifact = FileChange (fc_path: string) (fc_before: "string option") (fc_after: "string option")

datatype tool_outcome =
    OutOk string bool "artifact list"
  | OutDenied string
  | OutError string bool
  | OutInterrupted

fun body_of_outcome :: "tool_outcome \<Rightarrow> tool_result_body" where
  "body_of_outcome (OutOk content trunc arts) = ResOk content trunc"
| "body_of_outcome (OutError message retryable) = ResError message retryable"
| "body_of_outcome (OutDenied reason) = ResDenied reason"
| "body_of_outcome OutInterrupted = ResInterrupted"

definition newline :: string where
  "newline = [char_of (10 :: nat)]"

lemma newline_literal [code]: "newline = [CHR 0x0A]"
  by (simp add: newline_def char_of_def bit_0)

fun render :: "tool_result_body \<Rightarrow> string" where
  "render (ResOk content True) = content @ newline @ ''[output truncated]''"
| "render (ResOk content False) = content"
| "render (ResError message _) = ''[tool error: '' @ message @ '']''"
| "render (ResDenied reason) = ''[denied: '' @ reason @ '']''"
| "render ResInterrupted = ''[tool call interrupted before execution]''"

text \<open>
  \<open>floor_char_boundary\<close>: the loop decrements from the cap until it meets a boundary; index 0
  is one.
\<close>

fun floor_from :: "string \<Rightarrow> nat \<Rightarrow> nat" where
  "floor_from s 0 = 0"
| "floor_from s (Suc i) = (if is_char_boundary s (Suc i) then Suc i else floor_from s i)"

definition floor_char_boundary :: "string \<Rightarrow> nat \<Rightarrow> nat" where
  "floor_char_boundary s cap = floor_from s (min cap (length s))"

text \<open>U+2026, the ellipsis, in UTF-8.\<close>

definition ellipsis :: string where
  "ellipsis = bytes_str [226, 128, 166]"

definition truncation_note :: "nat \<Rightarrow> string" where
  "truncation_note elided = newline @ ''['' @ ellipsis @ '' '' @ show_nat elided @ '' bytes truncated]''"

fun truncate_body :: "nat \<Rightarrow> tool_result_body \<Rightarrow> tool_result_body" where
  "truncate_body cap (ResOk content trunc) =
     (if length content \<le> cap then ResOk content trunc
      else let head = take (floor_char_boundary content cap) content;
               elided = length content - length head
           in ResOk (head @ truncation_note elided) True)"
| "truncate_body cap other = other"

section \<open>Turns\<close>

datatype note_kind = Compaction | Goal | Recovery | ModeChange | Notice

datatype agent_mode = ModeDefault | ModeAcceptEdits | ModePlan | ModeAsk | ModeAuto

record model_trace =
  tr_started_ms :: nat
  tr_completed_ms :: nat
  tr_total_ms :: nat
  tr_response_headers_ms :: "nat option"
  tr_ttft_ms :: "nat option"
  tr_stream_ms :: "nat option"
  tr_request_bytes :: nat
  tr_wire_bytes :: nat
  tr_context_chars :: nat
  tr_context_tokens_estimate :: nat
  tr_retries :: nat
  tr_reported_finish_reason :: string
  tr_effective_finish_reason :: string
  tr_implicit_length :: bool
  tr_transport_events :: nat
  tr_semantic_events :: nat
  tr_last_transport_activity_ms :: "nat option"
  tr_last_semantic_activity_ms :: "nat option"
  tr_partial_text_chars :: nat
  tr_partial_reasoning_chars :: nat
  tr_partial_tool_argument_chars :: nat

record partial_tool_call =
  pt_index :: nat
  pt_id :: "string option"
  pt_name :: "string option"
  pt_arguments :: string
  pt_truncated :: bool

record partial_stream_response =
  psr_text :: string
  psr_reasoning :: string
  psr_tool_calls :: "partial_tool_call list"
  psr_truncated :: bool

datatype turn =
    User (user_content: string) (turn_ts: nat)
  | Assistant (asst_text: string) (asst_reasoning: "string option") (asst_calls: "tool_call list")
      (asst_usage: "usage option") (asst_cost: "cost option") (asst_trace: "model_trace option")
  | ToolResult (result_call_id: string) (result_tool: string) (result_body: tool_result_body) (result_duration: nat)
  | SystemNote (note_of: note_kind) (note_text: string)
  | Error (error_message: string) (error_retryable: "bool option") (error_retries: "nat option")
      (error_trace: "model_trace option") (error_partial: "partial_stream_response option") (error_ts: nat)
  | Cancelled (cancelled_ts: nat)

section \<open>Wire messages\<close>

record wire_tool_call =
  wtc_id :: string
  wtc_name :: string
  wtc_arguments :: string

datatype wire_message =
    WSystem (sys_content: string)
  | WUser (usr_text: string)
  | WAssistant (wa_content: "string option") (wa_reasoning: "string option") (wa_tool_calls: "wire_tool_call list")
  | WTool (wt_call_id: string) (wt_content: string)

section \<open>Model responses\<close>

datatype finish_reason = FinStop | FinLength | FinToolCalls | FinContentFilter | FinOther string

datatype finalized_tool_call =
    FCall tool_call
  | FParseError (fe_id: "string option") (fe_name: "string option") (fe_raw: string) (fe_error: string)

record model_response =
  mr_text :: string
  mr_reasoning :: "string option"
  mr_tool_calls :: "finalized_tool_call list"
  mr_finish_reason :: finish_reason
  mr_usage :: "usage option"
  mr_retries :: nat

section \<open>Facts about truncation\<close>

lemma floor_from_le: "floor_from s i \<le> i"
  by (induction i) auto

lemma floor_from_boundary: "is_char_boundary s (floor_from s i)"
  by (induction i) (auto simp: is_char_boundary_def)

lemma floor_char_boundary_le: "floor_char_boundary s cap \<le> cap" "floor_char_boundary s cap \<le> length s"
  using floor_from_le [of s "min cap (length s)"] by (auto simp: floor_char_boundary_def)

lemma floor_char_boundary_ok: "is_char_boundary s (floor_char_boundary s cap)"
  by (simp add: floor_char_boundary_def floor_from_boundary)

lemma floor_from_greatest: "j \<le> i \<Longrightarrow> is_char_boundary s j \<Longrightarrow> j \<le> floor_from s i"
  by (induction i) (auto simp: le_Suc_eq)

lemma floor_char_boundary_greatest:
  "j \<le> cap \<Longrightarrow> j \<le> length s \<Longrightarrow> is_char_boundary s j \<Longrightarrow> j \<le> floor_char_boundary s cap"
  by (simp add: floor_char_boundary_def floor_from_greatest)

text \<open>Cutting at a boundary cuts the sequence of characters.\<close>

lemma chars_of_cut:
  assumes "is_char_boundary s i" and "i \<le> length s"
  shows "chars_of s = chars_of (take i s) @ chars_of (drop i s)"
proof -
  have "drop i s = [] \<or> \<not> is_cont (hd (drop i s)) \<or> i = 0"
    using assms by (auto simp: is_char_boundary_def hd_drop_conv_nth)
  then show ?thesis
    using chars_of_append_boundary [of "drop i s" "take i s"] by auto
qed

lemma valid_utf8_take:
  "valid_utf8 s \<Longrightarrow> is_char_boundary s i \<Longrightarrow> i \<le> length s \<Longrightarrow> valid_utf8 (take i s)"
  by (simp add: valid_utf8_def chars_of_cut)

section \<open>Properties\<close>

text \<open>
  The per-result backstop is exact: an oversized body keeps its longest prefix that fits
  the cap and ends on a character boundary (so valid UTF-8 stays valid), is followed by a note
  naming exactly the number of bytes dropped, and is marked truncated; a body within the cap,
  and every result that is not \<open>Ok\<close>, is unchanged.
\<close>

theorem truncate_body_correct:
  "truncate_body cap b =
     (case b of
        ResOk content trunc \<Rightarrow>
          if length content \<le> cap then b
          else ResOk (take (floor_char_boundary content cap) content
                      @ truncation_note (length content - floor_char_boundary content cap)) True
      | _ \<Rightarrow> b)
   \<and> floor_char_boundary s cap \<le> min cap (length s)
   \<and> (\<forall>j \<le> min cap (length s). is_char_boundary s j \<longrightarrow> j \<le> floor_char_boundary s cap)
   \<and> (valid_utf8 s \<longrightarrow> valid_utf8 (take (floor_char_boundary s cap) s))"
proof (intro conjI impI allI)
  show "truncate_body cap b =
     (case b of
        ResOk content trunc \<Rightarrow>
          if length content \<le> cap then b
          else ResOk (take (floor_char_boundary content cap) content
                      @ truncation_note (length content - floor_char_boundary content cap)) True
      | _ \<Rightarrow> b)"
    using floor_char_boundary_le(2) by (cases b) (simp_all add: Let_def min_absorb2)
  show "floor_char_boundary s cap \<le> min cap (length s)"
    using floor_char_boundary_le by simp
  show "j \<le> floor_char_boundary s cap" if "j \<le> min cap (length s)" and "is_char_boundary s j" for j
    using that by (simp add: floor_char_boundary_greatest)
  show "valid_utf8 (take (floor_char_boundary s cap) s)" if "valid_utf8 s"
    using that floor_char_boundary_ok floor_char_boundary_le(2) by (rule valid_utf8_take)
qed

text \<open>The cap falls inside the two-byte character, so the cut moves back to its start.\<close>

theorem truncate_body_correct_witness:
  "valid_utf8 (take (floor_char_boundary (CHR ''a'' # bytes_str [195, 169, 98]) 2) (CHR ''a'' # bytes_str [195, 169, 98]))
   \<and> floor_char_boundary (CHR ''a'' # bytes_str [195, 169, 98]) 2 = 1"
proof -
  let ?s = "CHR ''a'' # bytes_str [195, 169, 98]"
  have "valid_utf8 ?s"
    by (simp add: valid_utf8_def bytes_str_def is_cont_def byte_of_def valid_char_def utf8_width_def)
  then show ?thesis
    using truncate_body_correct [of 2 ResInterrupted ?s]
    by (simp add: floor_char_boundary_def is_char_boundary_def bytes_str_def is_cont_def byte_of_def numeral_2_eq_2)
qed

end
