(* ===== verification/Projection.thy ===== *)
theory Projection
  imports Turns
begin

text \<open>
  \<open>crates/rc-core/src/project.rs\<close>: the projection of a session's turns to wire messages, the
  splitting of oversized bodies, and the tool-answer invariant that the provider requires.
  \<open>parse\<close> is \<open>serde_json::from_str::<Value>\<close> (\<open>None\<close> on a syntax error) and \<open>print\<close> is
  \<open>Value::to_string\<close>.
\<close>

section \<open>Escaped length and chunking\<close>

definition max_string_escaped :: nat where
  "max_string_escaped = 1000000"

definition byte_escape_extra :: "char \<Rightarrow> nat" where
  "byte_escape_extra c =
     (if byte_of c \<in> {34, 92, 8, 9, 10, 12, 13} then 1 else if byte_of c < 32 then 5 else 0)"

definition escaped_len :: "string \<Rightarrow> nat" where
  "escaped_len s = fold (\<lambda>c len. len + byte_escape_extra c) s (length s)"

text \<open>\<open>escape_len_char\<close>, on the bytes of one character.\<close>

definition escape_len_char :: "string \<Rightarrow> nat" where
  "escape_len_char g =
     (let c = byte_of (hd g) in
      if c \<in> {34, 92} then 2 else if c \<in> {8, 9, 10, 12, 13} then 2 else if c < 32 then 6 else length g)"

fun chunk_loop :: "nat \<Rightarrow> string list \<Rightarrow> string list \<Rightarrow> string \<Rightarrow> nat \<Rightarrow> string list" where
  "chunk_loop mx [] chunks buf cur = (if buf \<noteq> [] then chunks @ [buf] else chunks)"
| "chunk_loop mx (c # cs) chunks buf cur =
     (let e = escape_len_char c in
      if cur + e > mx \<and> buf \<noteq> [] then chunk_loop mx cs (chunks @ [buf]) c e
      else chunk_loop mx cs chunks (buf @ c) (cur + e))"

definition chunk_by_escaped_len :: "string \<Rightarrow> nat \<Rightarrow> string list" where
  "chunk_by_escaped_len s mx = chunk_loop mx (chars_of s) [] [] 0"

definition split_body :: "string \<Rightarrow> string list" where
  "split_body body =
     (if escaped_len body \<le> max_string_escaped then [body] else chunk_by_escaped_len body max_string_escaped)"

section \<open>Projection\<close>

definition push_user :: "wire_message list \<Rightarrow> string \<Rightarrow> wire_message list" where
  "push_user out content = out @ map WUser (split_body content)"

definition safe_tool_arguments :: "(string \<Rightarrow> json option) \<Rightarrow> (json \<Rightarrow> string) \<Rightarrow> string \<Rightarrow> string" where
  "safe_tool_arguments parse print arguments =
     (case parse arguments of
        Some (JObject kvs) \<Rightarrow> arguments
      | _ \<Rightarrow> print (JObject [(''_sc_invalid_tool_arguments'', JBool True),
                           (''raw_preview'', JString (concat (take 2048 (chars_of arguments))))]))"

fun note_message :: "note_kind \<Rightarrow> string \<Rightarrow> string" where
  "note_message Compaction text = ''<session-summary>'' @ text @ ''</session-summary>''"
| "note_message Goal text = ''<session-goal>'' @ text @ ''</session-goal>''"
| "note_message Recovery text = text"
| "note_message ModeChange text = ''[note] '' @ text"
| "note_message Notice text = ''[note] '' @ text"

definition wire_call :: "(string \<Rightarrow> json option) \<Rightarrow> (json \<Rightarrow> string) \<Rightarrow> tool_call \<Rightarrow> wire_tool_call" where
  "wire_call parse print c =
     \<lparr>wtc_id = call_id c, wtc_name = call_name c, wtc_arguments = safe_tool_arguments parse print (call_arguments c)\<rparr>"

text \<open>One iteration of the loop over the active turns: \<open>out\<close> is the vector of messages so far.\<close>

fun project_turn :: "(string \<Rightarrow> json option) \<Rightarrow> (json \<Rightarrow> string) \<Rightarrow> turn \<Rightarrow> wire_message list \<Rightarrow> wire_message list" where
  "project_turn parse print (User content _) out = push_user out content"
| "project_turn parse print (Assistant text reasoning calls _ _ _) out =
     (let tool_calls = map (wire_call parse print) calls;
          reasoning_content = (case reasoning of Some r \<Rightarrow> if trim r \<noteq> [] then Some r else None | None \<Rightarrow> None);
          content = (if text = [] \<and> (tool_calls \<noteq> [] \<or> reasoning_content \<noteq> None) then None else Some text)
      in out @ [WAssistant content reasoning_content tool_calls])"
| "project_turn parse print (ToolResult cid _ result _) out =
     out @ map (WTool cid) (split_body (render result))"
| "project_turn parse print (SystemNote kind text) out = push_user out (note_message kind text)"
| "project_turn parse print (Error _ _ _ _ _ _) out = out"
| "project_turn parse print (Cancelled _) out = out"

fun is_compaction :: "turn \<Rightarrow> bool" where
  "is_compaction (SystemNote Compaction _) = True"
| "is_compaction _ = False"

fun goal_text :: "turn \<Rightarrow> string option" where
  "goal_text (SystemNote Goal text) = Some text"
| "goal_text _ = None"

definition active_start :: "turn list \<Rightarrow> nat" where
  "active_start messages = unwrap_or 0 (rposition is_compaction messages)"

definition project_with :: "(string \<Rightarrow> json option) \<Rightarrow> (json \<Rightarrow> string) \<Rightarrow> turn list \<Rightarrow> string \<Rightarrow> wire_message list" where
  "project_with parse print messages system_prompt =
     (let out = [WSystem system_prompt];
          start = active_start messages;
          out = (case rposition (\<lambda>t. goal_text t \<noteq> None) messages of
                   Some goal_index \<Rightarrow>
                     let goal = the (goal_text (messages ! goal_index)) in
                     if goal_index < start \<and> trim goal \<noteq> []
                     then push_user out (''<session-goal>'' @ goal @ ''</session-goal>'') else out
                 | None \<Rightarrow> out)
      in fold (project_turn parse print) (drop start messages) out)"

definition system_prompt_default :: string where
  "system_prompt_default = ''You are `marathon` (Subconscious Code), an agent that helps with software engineering tasks in the user's repository. Use the provided tools to inspect and edit files. Be concise and direct. When you have enough information, answer in plain text.''"

definition project :: "(string \<Rightarrow> json option) \<Rightarrow> (json \<Rightarrow> string) \<Rightarrow> turn list \<Rightarrow> wire_message list" where
  "project parse print messages = project_with parse print messages system_prompt_default"

section \<open>The tool-answer invariant\<close>

datatype invariant_violation =
    NoContiguousAnswers
  | IdMismatch (missing_ids: "string set") (extra_ids: "string set")

fun is_tool_message :: "wire_message \<Rightarrow> bool" where
  "is_tool_message (WTool _ _) = True"
| "is_tool_message _ = False"

function verify_invariant :: "wire_message list \<Rightarrow> invariant_violation + unit" where
  "verify_invariant [] = Inr ()"
| "verify_invariant (m # ms) =
     (case m of
        WAssistant _ _ tool_calls \<Rightarrow>
          if tool_calls \<noteq> [] then
            let expected = set (map wtc_id tool_calls);
                run = takeWhile is_tool_message ms;
                got = set (map wt_call_id run)
            in if run = [] then Inl NoContiguousAnswers
               else if got \<noteq> expected then Inl (IdMismatch (expected - got) (got - expected))
               else verify_invariant (dropWhile is_tool_message ms)
          else verify_invariant ms
      | _ \<Rightarrow> verify_invariant ms)"
  by pat_completeness auto
termination
  by (relation "measure length") (auto simp: le_imp_less_Suc length_dropWhile_le)

text \<open>
  What the turn log must look like for the projection to satisfy the invariant: every assistant
  turn is followed at once by one tool result per call, in call order, and no tool result
  stands anywhere else.
\<close>

fun is_answer :: "tool_call \<Rightarrow> turn \<Rightarrow> bool" where
  "is_answer c (ToolResult cid _ _ _) \<longleftrightarrow> cid = call_id c"
| "is_answer c _ \<longleftrightarrow> False"

fun turn_calls :: "turn \<Rightarrow> tool_call list" where
  "turn_calls (Assistant _ _ calls _ _ _) = calls"
| "turn_calls _ = []"

fun is_result :: "turn \<Rightarrow> bool" where
  "is_result (ToolResult _ _ _ _) = True"
| "is_result _ = False"

function answered :: "turn list \<Rightarrow> bool" where
  "answered [] \<longleftrightarrow> True"
| "answered (t # ts) \<longleftrightarrow>
     \<not> is_result t \<and> length (turn_calls t) \<le> length ts
     \<and> list_all2 is_answer (turn_calls t) (take (length (turn_calls t)) ts)
     \<and> answered (drop (length (turn_calls t)) ts)"
  by pat_completeness auto
termination
  by (relation "measure length") auto

section \<open>Facts about chunking\<close>

lemma escaped_len_sum: "escaped_len s = length s + (\<Sum>c \<leftarrow> s. byte_escape_extra c)"
proof -
  have "fold (\<lambda>c len. len + byte_escape_extra c) s n = n + (\<Sum>c \<leftarrow> s. byte_escape_extra c)" for n
    by (induction s arbitrary: n) simp_all
  then show ?thesis by (simp add: escaped_len_def)
qed

lemma escaped_len_Nil [simp]: "escaped_len [] = 0"
  by (simp add: escaped_len_sum)

lemma escaped_len_append: "escaped_len (s @ t) = escaped_len s + escaped_len t"
  by (simp add: escaped_len_sum)

lemma escaped_len_concat: "escaped_len (concat gs) = (\<Sum>g \<leftarrow> gs. escaped_len g)"
  by (induction gs) (simp_all add: escaped_len_append escaped_len_sum [of "[]"])

lemma escape_len_char_eq:
  assumes "g \<in> set (chars_of s)" and "valid_char g"
  shows "escape_len_char g = escaped_len g"
proof -
  obtain b bs where g: "g = b # bs" using assms(2) by (cases g) (auto simp: valid_char_def)
  have cont: "\<forall>c \<in> set bs. is_cont c" using chars_of_tail_cont [OF assms(1)] g by simp
  then have "\<forall>c \<in> set bs. byte_escape_extra c = 0" by (auto simp: byte_escape_extra_def is_cont_def)
  then have zero: "(\<Sum>c \<leftarrow> bs. byte_escape_extra c) = 0" by (induction bs) auto
  have "byte_of b < 128 \<Longrightarrow> bs = []" using assms(2) g by (auto simp: valid_char_def utf8_width_def)
  then show ?thesis
    using zero g by (auto simp: escape_len_char_def escaped_len_sum byte_escape_extra_def Let_def)
qed

lemma escape_len_char_small: "valid_char g \<Longrightarrow> escape_len_char g \<le> 6"
  by (auto simp: escape_len_char_def valid_char_def utf8_width_def Let_def)

lemma chunk_loop_concat: "concat (chunk_loop mx cs chunks buf cur) = concat chunks @ buf @ concat cs"
  by (induction mx cs chunks buf cur rule: chunk_loop.induct) (auto simp: Let_def)

lemma chunk_loop_bound:
  assumes "\<And>g. g \<in> set cs \<Longrightarrow> escape_len_char g = escaped_len g"
    and "\<And>g. g \<in> set cs \<Longrightarrow> escaped_len g \<le> mx"
    and "\<And>c. c \<in> set chunks \<Longrightarrow> escaped_len c \<le> mx" and "escaped_len buf \<le> mx"
    and "c \<in> set (chunk_loop mx cs chunks buf (escaped_len buf))"
  shows "escaped_len c \<le> mx"
  using assms
proof (induction cs arbitrary: chunks buf)
  case Nil
  then show ?case by (auto split: if_splits)
next
  case (Cons g cs)
  have g: "escape_len_char g = escaped_len g" "escaped_len g \<le> mx" using Cons.prems by simp_all
  show ?case
  proof (cases "escaped_len buf + escaped_len g > mx \<and> buf \<noteq> []")
    case True
    then have "c \<in> set (chunk_loop mx cs (chunks @ [buf]) g (escaped_len g))"
      using Cons.prems(5) g by simp
    then show ?thesis using Cons.IH [of "chunks @ [buf]" g] Cons.prems g by auto
  next
    case False
    then have "c \<in> set (chunk_loop mx cs chunks (buf @ g) (escaped_len (buf @ g)))"
      using Cons.prems(5) g(1) by (auto simp: Let_def escaped_len_append)
    moreover have "escaped_len (buf @ g) \<le> mx" using False g by (auto simp: escaped_len_append)
    ultimately show ?thesis using Cons.IH [of chunks "buf @ g"] Cons.prems by auto
  qed
qed

lemma concat_split_body [simp]: "concat (split_body s) = s"
  by (simp add: split_body_def chunk_by_escaped_len_def chunk_loop_concat)

lemma split_body_nonempty [simp]: "split_body s \<noteq> []"
proof -
  have "concat (split_body s) = s" by simp
  then show ?thesis by (cases "s = []") (auto simp: split_body_def escaped_len_def)
qed

lemma split_body_bound:
  assumes "valid_utf8 s" and "c \<in> set (split_body s)"
  shows "escaped_len c \<le> max_string_escaped"
proof (cases "escaped_len s \<le> max_string_escaped")
  case True
  with assms(2) show ?thesis by (simp add: split_body_def)
next
  case False
  have valid: "valid_char g" if "g \<in> set (chars_of s)" for g
    using assms(1) that by (simp add: valid_utf8_def list_all_iff)
  have eq: "escape_len_char g = escaped_len g" if "g \<in> set (chars_of s)" for g
    using escape_len_char_eq [OF that valid [OF that]] .
  have small: "escaped_len g \<le> max_string_escaped" if "g \<in> set (chars_of s)" for g
    using escape_len_char_small [OF valid [OF that]] eq [OF that] by (simp add: max_string_escaped_def)
  have "c \<in> set (chunk_loop max_string_escaped (chars_of s) [] [] (escaped_len []))"
    using False assms(2) by (simp add: split_body_def chunk_by_escaped_len_def)
  then show ?thesis by (rule chunk_loop_bound [OF eq small, rotated -1]) simp_all
qed

section \<open>Facts about the projection\<close>

lemma project_turn_append: "project_turn parse print t out = out @ project_turn parse print t []"
  by (cases t) (simp_all add: push_user_def Let_def)

lemma fold_project_turn:
  "fold (project_turn parse print) ts out = out @ concat (map (\<lambda>t. project_turn parse print t []) ts)"
proof (induction ts arbitrary: out)
  case Nil
  then show ?case by simp
next
  case (Cons t ts)
  show ?case
    using Cons.IH [of "project_turn parse print t out"] project_turn_append [of parse print t out] by simp
qed

lemma verify_users: "verify_invariant (map WUser xs @ ms) = verify_invariant ms"
  by (induction xs) simp_all

lemma project_result_tools:
  "is_result t \<Longrightarrow> list_all is_tool_message (project_turn parse print t [])"
  by (cases t) (auto simp: list_all_iff)

lemma project_nonresult_head:
  "\<not> is_result t \<Longrightarrow> project_turn parse print t [] = [] \<or> \<not> is_tool_message (hd (project_turn parse print t []))"
  by (cases t) (auto simp: push_user_def Let_def hd_map)

lemma project_answers_tools:
  assumes "list_all2 is_answer calls rs"
  shows "list_all is_tool_message (concat (map (\<lambda>t. project_turn parse print t []) rs))"
    and "set (map wt_call_id (concat (map (\<lambda>t. project_turn parse print t []) rs))) = call_id ` set calls"
    and "calls \<noteq> [] \<Longrightarrow> concat (map (\<lambda>t. project_turn parse print t []) rs) \<noteq> []"
  using assms
proof (induction calls rs rule: list_all2_induct)
  case Nil
  case 1 show ?case by simp
  case 2 show ?case by simp
  case 3 then show ?case by simp
next
  case (Cons c cs r rs)
  obtain tool body d where r: "r = ToolResult (call_id c) tool body d"
    using Cons.hyps by (cases r) auto
  have ids: "set (map wt_call_id (project_turn parse print r [])) = {call_id c}"
    by (simp add: r image_image image_constant_conv)
  case 1 show ?case using Cons.IH(1) project_result_tools [of r parse print] by (simp add: r)
  case 2 show ?case using Cons.IH(2) ids by simp
  case 3 show ?case by (simp add: r)
qed

lemma answered_head_not_tool:
  "answered ts \<Longrightarrow>
     (let ms = concat (map (\<lambda>t. project_turn parse print t []) ts) in ms = [] \<or> \<not> is_tool_message (hd ms))"
proof (induction ts rule: answered.induct)
  case 1
  then show ?case by simp
next
  case (2 t ts)
  show ?case
  proof (cases "project_turn parse print t [] = []")
    case True
    then have "turn_calls t = []" by (cases t) (auto simp: push_user_def Let_def)
    with 2 True show ?thesis by simp
  next
    case False
    with 2 project_nonresult_head [of t parse print] show ?thesis by (simp add: Let_def)
  qed
qed

lemma takeWhile_dropWhile_run:
  assumes "list_all P xs" and "ys = [] \<or> \<not> P (hd ys)"
  shows "takeWhile P (xs @ ys) = xs" and "dropWhile P (xs @ ys) = ys"
  using assms by (cases ys; simp add: takeWhile_append dropWhile_append list_all_iff)+

lemma verify_answered:
  "answered ts \<Longrightarrow> verify_invariant (concat (map (\<lambda>t. project_turn parse print t []) ts)) = Inr ()"
proof (induction ts rule: answered.induct)
  case 1
  then show ?case by simp
next
  case (2 t ts)
  let ?p = "\<lambda>t. project_turn parse print t []" and ?n = "length (turn_calls t)"
  define run rest where "run = concat (map ?p (take ?n ts))" and "rest = concat (map ?p (drop ?n ts))"
  have parts: "concat (map ?p ts) = run @ rest"
    unfolding run_def rest_def by (metis append_take_drop_id concat_append map_append)
  have ans: "list_all2 is_answer (turn_calls t) (take ?n ts)" and rest: "answered (drop ?n ts)"
    using "2.prems" by simp_all
  note run = project_answers_tools [OF ans, of parse print, folded run_def]
  have hd: "rest = [] \<or> \<not> is_tool_message (hd rest)"
    using answered_head_not_tool [OF rest, of parse print] by (simp add: rest_def Let_def)
  have IH: "verify_invariant rest = Inr ()" using "2.IH" [OF rest] by (simp add: rest_def)
  show ?case
  proof (cases "turn_calls t = []")
    case True
    then have "run = []" by (simp add: run_def)
    moreover have "verify_invariant (project_turn parse print t [] @ rest) = Inr ()"
      using True "2.prems" IH by (cases t) (simp_all add: push_user_def verify_users Let_def)
    ultimately show ?thesis by (simp only: list.map concat.simps parts append_Nil)
  next
    case False
    then obtain tx rs calls u c tr where t: "t = Assistant tx rs calls u c tr" "calls \<noteq> []"
      by (cases t) auto
    have "set (map (wtc_id \<circ> wire_call parse print) calls) = call_id ` set calls"
      by (auto simp: wire_call_def)
    then show ?thesis
      using run hd IH t takeWhile_dropWhile_run [OF run(1) hd] by (simp add: parts Let_def)
  qed
qed

lemma answered_suffix:
  "answered (xs @ t # ys) \<Longrightarrow> \<not> is_result t \<Longrightarrow> answered (t # ys)"
proof (induction xs rule: length_induct)
  case (1 xs)
  show ?case
  proof (cases xs)
    case Nil
    with 1 show ?thesis by simp
  next
    case (Cons a as)
    let ?n = "length (turn_calls a)"
    have l: "list_all2 is_answer (turn_calls a) (take ?n (as @ t # ys))" and d: "answered (drop ?n (as @ t # ys))"
      using "1.prems"(1) by (simp_all add: Cons)
    have "?n \<le> length as"
    proof (rule ccontr)
      assume "\<not> ?n \<le> length as"
      then have "is_answer (turn_calls a ! length as) t"
        using list_all2_nthD [OF l, of "length as"] by (simp add: nth_append take_Cons')
      then show False using "1.prems"(2) by (cases t) auto
    qed
    then have "answered (drop ?n as @ t # ys)" using d by simp
    then show ?thesis using "1.IH" [rule_format, of "drop ?n as"] "1.prems"(2) Cons by simp
  qed
qed

lemma answered_active:
  assumes "answered ts"
  shows "answered (drop (active_start ts) ts)"
proof (cases "rposition is_compaction ts")
  case None
  with assms show ?thesis by (simp add: active_start_def unwrap_or_def)
next
  case (Some i)
  then have i: "i < length ts" "is_compaction (ts ! i)" using rposition_SomeD by blast+
  then have "\<not> is_result (ts ! i)" by (cases "ts ! i") auto
  then have "answered (ts ! i # drop (Suc i) ts)"
    using assms answered_suffix [of "take i ts" "ts ! i" "drop (Suc i) ts"] i
    by (simp add: id_take_nth_drop [symmetric])
  then show ?thesis using i Some by (simp add: active_start_def unwrap_or_def Cons_nth_drop_Suc)
qed

text \<open>The messages that precede the active turns: the system prompt and the re-injected goal.\<close>

definition project_head :: "turn list \<Rightarrow> string \<Rightarrow> wire_message list" where
  "project_head messages system_prompt =
     (case rposition (\<lambda>t. goal_text t \<noteq> None) messages of
        Some i \<Rightarrow>
          if i < active_start messages \<and> trim (the (goal_text (messages ! i))) \<noteq> []
          then WSystem system_prompt # map WUser (split_body (''<session-goal>'' @ the (goal_text (messages ! i)) @ ''</session-goal>''))
          else [WSystem system_prompt]
      | None \<Rightarrow> [WSystem system_prompt])"

lemma project_with_split:
  "project_with parse print messages sp =
     project_head messages sp @ concat (map (\<lambda>t. project_turn parse print t []) (drop (active_start messages) messages))"
  by (simp add: project_with_def fold_project_turn project_head_def push_user_def Let_def split: option.split)

lemma verify_project_head: "verify_invariant (project_head messages sp @ ms) = verify_invariant ms"
  by (simp add: project_head_def verify_users split: option.split)

lemma project_with_verified:
  assumes "answered messages"
  shows "verify_invariant (project_with parse print messages sp) = Inr ()"
  unfolding project_with_split verify_project_head by (rule verify_answered [OF answered_active [OF assms]])

lemma hd_project_with: "hd (project_with parse print messages sp) = WSystem sp"
  by (simp add: project_with_split project_head_def split: option.split)

section \<open>Properties\<close>

text \<open>
  C7: whenever every assistant turn of the log is followed by one result per call, the wire
  messages of a request satisfy the provider's tool-answer invariant, whatever the bodies, however
  many of them are split, and wherever the last compaction marker stands.
\<close>

theorem projection_satisfies_tool_answer_invariant:
  assumes "answered messages"
  shows "verify_invariant (project_with parse print messages system_prompt) = Inr ()
    \<and> hd (project_with parse print messages system_prompt) = WSystem system_prompt"
  using project_with_verified [OF assms] hd_project_with by blast

lemma projection_satisfies_tool_answer_invariant_witness:
  "verify_invariant (project_with (\<lambda>_. None) (\<lambda>_. ''{}'')
     [SystemNote Goal ''g'', User ''u'' 0, SystemNote Compaction ''s'',
      Assistant [] None [\<lparr>call_id = ''1'', call_name = ''Read'', call_arguments = ''x''\<rparr>,
                         \<lparr>call_id = ''2'', call_name = ''Read'', call_arguments = ''y''\<rparr>] None None None,
      ToolResult ''1'' ''Read'' ResInterrupted 0, ToolResult ''2'' ''Read'' (ResDenied ''no'') 0] ''sys'') = Inr ()"
  by (rule conjunct1 [OF projection_satisfies_tool_answer_invariant]) simp

text \<open>
  An oversized body becomes several messages, each at most a million escaped bytes, and
  their concatenation is the original body, byte for byte; a body that fits is sent as it is.
\<close>

theorem split_body_correct:
  assumes "valid_utf8 body"
  shows "(\<forall>c \<in> set (split_body body). escaped_len c \<le> max_string_escaped)
    \<and> concat (split_body body) = body \<and> split_body body \<noteq> []
    \<and> (escaped_len body \<le> max_string_escaped \<longrightarrow> split_body body = [body])"
  by (intro conjI ballI impI split_body_bound [OF assms] concat_split_body split_body_nonempty)
    (simp_all add: split_body_def)

lemma split_body_correct_witness:
  "list_all (\<lambda>c. escaped_len c \<le> max_string_escaped) (split_body ''ab'') \<and> concat (split_body ''ab'') = ''ab''"
  using split_body_correct [of "''ab''"]
  by (simp add: valid_utf8_def valid_char_def utf8_width_def is_cont_def byte_of_def list_all_iff)

text \<open>
  The arguments of a replayed tool call always parse to a JSON object, and a call whose
  arguments already are one is replayed byte for byte. The hypothesis is that \<open>serde_json\<close> reads
  back the objects it prints.
\<close>

theorem safe_tool_arguments_object:
  assumes "\<And>kvs. \<exists>kvs'. parse (print (JObject kvs)) = Some (JObject kvs')"
  shows "(\<exists>kvs. parse (safe_tool_arguments parse print arguments) = Some (JObject kvs))
    \<and> (\<forall>kvs. parse arguments = Some (JObject kvs) \<longrightarrow> safe_tool_arguments parse print arguments = arguments)"
  using assms by (auto simp: safe_tool_arguments_def split: option.split json.split)

lemma safe_tool_arguments_object_witness:
  "\<exists>kvs. (\<lambda>s. if s = ''{}'' then Some (JObject []) else None)
      (safe_tool_arguments (\<lambda>s. if s = ''{}'' then Some (JObject []) else None) (\<lambda>_. ''{}'') ''{\"a'') = Some (JObject kvs)"
  using safe_tool_arguments_object [of "\<lambda>s. if s = ''{}'' then Some (JObject []) else None" "\<lambda>_. ''{}''" "''{\"a''"]
  by simp

end
