(* ===== verification/Bash_Commands.thy ===== *)
theory Bash_Commands
  imports Turns
begin

text \<open>
  \<open>crates/rc-perm/src/bash.rs\<close>: the quote-aware splitting of a shell command, its parsing into
  sub-commands, the catastrophic and always-ask markers, and the matching of a sub-command
  against the specifier of a rule. \<open>shlex\<close> is \<open>shlex::split\<close>, an argument of the definitions.
\<close>

section \<open>Splitting a command\<close>

definition dquote :: string where "dquote = [char_of (34 :: nat)]"
definition squote :: string where "squote = [char_of (39 :: nat)]"
definition backslash :: string where "backslash = [char_of (92 :: nat)]"

lemma quote_literals [code]: "dquote = [CHR 0x22]" "squote = [CHR 0x27]" "backslash = [CHR 0x5C]"
  by (simp_all add: dquote_def squote_def backslash_def char_of_def bit_0)

definition separators :: "string list" where
  "separators = ['';'', newline, ''&'', ''|'']"

text \<open>
  The loop of \<open>split_subcommands\<close> over the characters that are left, with its variables
  \<open>quote\<close>, \<open>cur\<close> and \<open>subs\<close>.
\<close>

function split_loop :: "string list \<Rightarrow> string option \<Rightarrow> string \<Rightarrow> string list \<Rightarrow> string list" where
  "split_loop [] quote cur subs = (if trim cur \<noteq> [] then subs @ [cur] else subs)"
| "split_loop (c # cs) (Some q) cur subs =
     (if c = backslash then
        (case cs of [] \<Rightarrow> split_loop [] (Some q) (cur @ c) subs
         | d # ds \<Rightarrow> split_loop ds (Some q) (cur @ c @ d) subs)
      else split_loop cs (if c = q then None else Some q) (cur @ c) subs)"
| "split_loop (c # cs) None cur subs =
     (if c = squote \<or> c = dquote then split_loop cs (Some c) (cur @ c) subs
      else if c \<in> set separators then
        (let rest = (if (c = ''&'' \<or> c = ''|'') \<and> cs \<noteq> [] \<and> hd cs = c then tl cs else cs) in
         if trim cur \<noteq> [] then split_loop rest None [] (subs @ [cur]) else split_loop rest None cur subs)
      else split_loop cs None (cur @ c) subs)"
  by pat_completeness auto
termination
  by (relation "measure (\<lambda>(cs, _). length cs)") auto

definition split_subcommands :: "string \<Rightarrow> string list" where
  "split_subcommands cmd = split_loop (chars_of cmd) None [] []"

section \<open>Parsing\<close>

record sub =
  raw :: string
  tokens :: "string list"

record parsed_bash =
  subcommands :: "sub list"
  unparseable :: bool

definition parse_failed :: parsed_bash where
  "parse_failed = \<lparr>subcommands = [], unparseable = True\<rparr>"

definition reenters_shell :: "string \<Rightarrow> bool" where
  "reenters_shell s \<longleftrightarrow> prefix ''eval '' s \<or> prefix ''exec '' s \<or> prefix ''source '' s \<or> prefix ''. '' s"

fun parse_subs :: "(string \<Rightarrow> string list option) \<Rightarrow> string list \<Rightarrow> sub list \<Rightarrow> parsed_bash" where
  "parse_subs shlex [] subs = \<lparr>subcommands = subs, unparseable = False\<rparr>"
| "parse_subs shlex (r # rs) subs =
     (let trimmed = trim r in
      if trimmed = [] then parse_subs shlex rs subs
      else if reenters_shell trimmed then parse_failed
      else case shlex trimmed of
             None \<Rightarrow> parse_failed
           | Some toks \<Rightarrow>
               if toks = [] then parse_subs shlex rs subs
               else parse_subs shlex rs (subs @ [\<lparr>raw = trimmed, tokens = toks\<rparr>]))"

definition parse_bash :: "(string \<Rightarrow> string list option) \<Rightarrow> string \<Rightarrow> parsed_bash" where
  "parse_bash shlex cmd =
     (if contains_str ''$'' cmd \<or> contains_str ''`'' cmd then parse_failed
      else parse_subs shlex (split_subcommands cmd) [])"

section \<open>Markers and rule specifiers\<close>

definition catastrophic :: "string list" where
  "catastrophic =
     [''rm -rf /'', ''rm -rf ~'', ''rm -rf /*'', ''rm -fr /'', ''rm -fr ~'', ''rm -fr /*'', ''rm -rf $HOME'', ''rm -rf $PWD'',
      ''mkfs'', ''dd of=/dev/'', ''chmod -R 777 /'', '':(){:|:&};:'', ''shutdown'', ''reboot'', ''halt -p'', ''init 0'']"

definition is_catastrophic :: "sub \<Rightarrow> bool" where
  "is_catastrophic s \<longleftrightarrow> list_ex (\<lambda>p. contains_str p (raw s)) catastrophic"

definition is_catastrophic_cmd :: "string \<Rightarrow> bool" where
  "is_catastrophic_cmd cmd \<longleftrightarrow> list_ex (\<lambda>p. contains_str p cmd) catastrophic"

definition always_ask_markers :: "string list" where
  "always_ask_markers = [''sudo'', ''--force'', ''| sh'', ''| bash'', ''|sh'', ''|bash'']"

definition is_always_ask :: "string \<Rightarrow> bool" where
  "is_always_ask cmd \<longleftrightarrow> list_ex (\<lambda>p. contains_str p cmd) always_ask_markers"

definition rule_matches :: "(string \<Rightarrow> string list option) \<Rightarrow> string \<Rightarrow> sub \<Rightarrow> bool" where
  "rule_matches shlex spec s \<longleftrightarrow>
     (if spec = [] then True
      else let (prefix_str, wildcard) =
             (case strip_suffix '':*'' spec of Some p \<Rightarrow> (p, True) | None \<Rightarrow> (spec, False))
           in case shlex prefix_str of
                None \<Rightarrow> False
              | Some rule_tokens \<Rightarrow>
                  if wildcard
                  then length rule_tokens \<le> length (tokens s) \<and> take (length rule_tokens) (tokens s) = rule_tokens
                  else tokens s = rule_tokens)"

section \<open>Facts about splitting\<close>

definition separator_free :: "string \<Rightarrow> bool" where
  "separator_free s \<longleftrightarrow> (\<forall>ch \<in> set s. [ch] \<notin> set separators)"

lemma separator_free_append [simp]: "separator_free (s @ t) \<longleftrightarrow> separator_free s \<and> separator_free t"
  by (auto simp: separator_free_def)

lemma split_loop_unquoted:
  assumes "\<And>c. c \<in> set cs \<Longrightarrow> c \<noteq> squote \<and> c \<noteq> dquote"
    and "\<And>c. c \<in> set cs \<Longrightarrow> c \<notin> set separators \<Longrightarrow> separator_free c"
    and "\<And>s. s \<in> set subs \<Longrightarrow> separator_free s" and "separator_free cur"
    and "r \<in> set (split_loop cs None cur subs)"
  shows "separator_free r"
  using assms
proof (induction cs arbitrary: cur subs rule: length_induct)
  case (1 cs)
  show ?case
  proof (cases cs)
    case Nil
    with "1.prems" show ?thesis by (auto split: if_splits)
  next
    case (Cons c ds)
    note IH = "1.IH" [rule_format]
    have unq: "c \<noteq> squote" "c \<noteq> dquote" using "1.prems"(1) Cons by simp_all
    show ?thesis
    proof (cases "c \<in> set separators")
      case False
      then have "r \<in> set (split_loop ds None (cur @ c) subs)" using "1.prems"(5) unq by (simp add: Cons)
      then show ?thesis using IH [of ds subs "cur @ c"] "1.prems" False Cons by simp
    next
      case True
      define rest where "rest = (if (c = ''&'' \<or> c = ''|'') \<and> ds \<noteq> [] \<and> hd ds = c then tl ds else ds)"
      have rest: "set rest \<subseteq> set ds" "length rest < length cs"
        by (auto simp: rest_def Cons dest: list.set_sel(2))
      have "split_loop cs None cur subs =
              (if trim cur \<noteq> [] then split_loop rest None [] (subs @ [cur]) else split_loop rest None cur subs)"
        unfolding rest_def Cons split_loop.simps Let_def using unq True by (simp only: if_True if_False simp_thms)
      then consider "r \<in> set (split_loop rest None [] (subs @ [cur]))" | "r \<in> set (split_loop rest None cur subs)"
        using "1.prems"(5) by (auto split: if_splits)
      moreover have r1: "x \<noteq> squote \<and> x \<noteq> dquote" if "x \<in> set rest" for x
        using "1.prems"(1) [of x] rest(1) that Cons by auto
      moreover have r2: "separator_free x" if "x \<in> set rest" "x \<notin> set separators" for x
        using "1.prems"(2) [of x] rest(1) that Cons by auto
      moreover have r3: "separator_free x" if "x \<in> set (subs @ [cur])" for x
        using "1.prems"(3,4) that by auto
      moreover have "separator_free []" by (simp add: separator_free_def)
      ultimately show ?thesis
        using IH [OF rest(2), of "subs @ [cur]" "[]"] IH [OF rest(2), of subs cur] "1.prems"(3,4) by metis
    qed
  qed
qed

text \<open>In valid UTF-8 a byte below 128 is a character of its own.\<close>

lemma ascii_byte_is_char:
  assumes "valid_utf8 s" and "g \<in> set (chars_of s)" and "ch \<in> set g" and "byte_of ch < 128"
  shows "g = [ch]"
proof -
  have v: "valid_char g" using assms(1,2) by (simp add: valid_utf8_def list_all_iff)
  then obtain b bs where g: "g = b # bs" by (cases g) (auto simp: valid_char_def)
  have "ch \<notin> set bs" using chars_of_tail_cont [OF assms(2)] assms(4) g by (auto simp: is_cont_def)
  then have "ch = b" using assms(3) g by simp
  then show ?thesis using v assms(4) by (auto simp: g valid_char_def utf8_width_def)
qed

lemma separators_ascii: "[ch] \<in> set separators \<Longrightarrow> byte_of ch < 128"
  by (auto simp: separators_def newline_def byte_of_def)

lemma split_subcommands_separator_free:
  assumes "valid_utf8 cmd" and "\<not> contains_str squote cmd" and "\<not> contains_str dquote cmd"
    and "r \<in> set (split_subcommands cmd)"
  shows "separator_free r"
proof -
  have sub: "contains_str c cmd" if "c \<in> set (chars_of cmd)" for c
    by (metis concat_append concat_chars_of concat.simps(2) contains_str_iff in_set_conv_decomp that)
  have free: "separator_free c" if "c \<in> set (chars_of cmd)" "c \<notin> set separators" for c
    using ascii_byte_is_char [OF assms(1) that(1)] separators_ascii that(2) by (auto simp: separator_free_def)
  show ?thesis
    using assms(4) sub free unfolding split_subcommands_def
    by (elim split_loop_unquoted [rotated -1]) (use assms(2,3) in \<open>auto simp: separator_free_def\<close>)
qed

lemma subcommands_parse_failed [simp]: "subcommands parse_failed = []" "unparseable parse_failed"
  by (simp_all add: parse_failed_def)

lemma parse_subs_raw:
  assumes "s \<in> set (subcommands (parse_subs shlex rs subs))"
  shows "s \<in> set subs \<or> (\<exists>r \<in> set rs. raw s = trim r \<and> shlex (raw s) = Some (tokens s))"
  using assms
proof (induction rs arbitrary: subs)
  case Nil
  then show ?case by simp
next
  case (Cons r rs)
  show ?case
  proof (cases "trim r = [] \<or> shlex (trim r) = Some []")
    case True
    with Cons show ?thesis by (fastforce simp: Let_def split: if_splits)
  next
    case False
    with Cons.prems obtain toks where toks: "shlex (trim r) = Some toks"
      and "s \<in> set (subcommands (parse_subs shlex rs (subs @ [\<lparr>raw = trim r, tokens = toks\<rparr>])))"
      by (auto simp: Let_def split: if_splits option.splits)
    then show ?thesis using Cons.IH [of "subs @ [\<lparr>raw = trim r, tokens = toks\<rparr>]"] by auto
  qed
qed

text \<open>A parsed command's tokens are what \<open>shlex\<close> makes of the trimmed text of a piece.\<close>

lemma parse_bash_raw:
  assumes "s \<in> set (subcommands (parse_bash shlex cmd))"
  shows "\<exists>r \<in> set (split_subcommands cmd). raw s = trim r \<and> shlex (raw s) = Some (tokens s)"
proof -
  have "s \<in> set (subcommands (parse_subs shlex (split_subcommands cmd) []))"
    using assms by (simp add: parse_bash_def split: if_splits)
  from parse_subs_raw [OF this] show ?thesis by simp
qed

lemma trim_infix: "\<exists>a b. s = a @ trim s @ b"
proof -
  let ?d = "dropWhile is_whitespace (chars_of s)"
  have "rev ?d = takeWhile is_whitespace (rev ?d) @ dropWhile is_whitespace (rev ?d)" by simp
  then have "rev (rev ?d) = rev (dropWhile is_whitespace (rev ?d)) @ rev (takeWhile is_whitespace (rev ?d))"
    by (simp only: rev_append [symmetric])
  then have 2: "?d = rev (dropWhile is_whitespace (rev ?d)) @ rev (takeWhile is_whitespace (rev ?d))"
    by (simp only: rev_rev_ident)
  have "s = concat (chars_of s)" by simp
  also have "\<dots> = concat (takeWhile is_whitespace (chars_of s)) @ concat ?d"
    by (simp only: concat_append [symmetric] takeWhile_dropWhile_id)
  also have "concat ?d = trim s @ concat (rev (takeWhile is_whitespace (rev ?d)))"
    unfolding trim_def by (subst 2) (simp only: concat_append)
  finally have "s = concat (takeWhile is_whitespace (chars_of s)) @ trim s @ concat (rev (takeWhile is_whitespace (rev ?d)))" .
  then show ?thesis by blast
qed

lemma separator_free_trim: "separator_free s \<Longrightarrow> separator_free (trim s)"
  using trim_infix [of s] by (metis separator_free_append)

end
