(* ===== verification/Paths.thy ===== *)
theory Paths
  imports Rust_Prelude
begin

text \<open>
  Unix paths as \<open>std::path\<close> treats them (textual, compared component by component) and the
  containment check of \<open>crates/rc-perm/src/path.rs\<close>. The file system is an argument:
  \<open>canonicalize\<close> maps a path to its physical path or to an I/O error.
\<close>

section \<open>Textual paths\<close>

datatype component = RootDir | CurDir | ParentDir | Normal string

fun split_slash :: "string \<Rightarrow> string list" where
  "split_slash [] = [[]]"
| "split_slash (c # cs) =
     (if [c] = ''/'' then [] # split_slash cs
      else case split_slash cs of [] \<Rightarrow> [[c]] | s # ss \<Rightarrow> (c # s) # ss)"

fun join_slash :: "string list \<Rightarrow> string" where
  "join_slash [] = []"
| "join_slash [s] = s"
| "join_slash (s # ss) = s @ ''/'' @ join_slash ss"

definition is_absolute :: "string \<Rightarrow> bool" where
  "is_absolute p \<longleftrightarrow> prefix ''/'' p"

text \<open>Empty segments and inner \<open>.\<close> segments are no components.\<close>

definition skipped :: "string \<Rightarrow> bool" where
  "skipped s \<longleftrightarrow> s = [] \<or> s = ''.''"

definition body_component :: "string \<Rightarrow> component" where
  "body_component s = (if s = ''..'' then ParentDir else Normal s)"

definition body_components :: "string list \<Rightarrow> component list" where
  "body_components segs = map body_component (filter (\<lambda>s. \<not> skipped s) segs)"

definition components :: "string \<Rightarrow> component list" where
  "components p =
     (let segs = split_slash p in
      if is_absolute p then RootDir # body_components (tl segs)
      else if hd segs = ''.'' then CurDir # body_components (tl segs)
      else body_components segs)"

definition path_join :: "string \<Rightarrow> string \<Rightarrow> string" where
  "path_join base p =
     (if is_absolute p then p else if base = [] \<or> suffix ''/'' base then base @ p else base @ ''/'' @ p)"

definition path_starts_with :: "string \<Rightarrow> string \<Rightarrow> bool" where
  "path_starts_with p base \<longleftrightarrow> prefix (components base) (components p)"

definition trim_right_segs :: "string list \<Rightarrow> string list" where
  "trim_right_segs segs = rev (dropWhile skipped (rev segs))"

text \<open>A path given by its first segment and the segments after it, right-trimmed.\<close>

definition rebuild :: "bool \<Rightarrow> string \<Rightarrow> string list \<Rightarrow> string" where
  "rebuild absolute first segs =
     (let body = trim_right_segs segs in
      if body = [] then (if absolute then ''/'' else first) else join_slash (first # body))"

text \<open>\<open>Components::as_path\<close> after \<open>n\<close> components of the body were consumed from the front.\<close>

fun consume :: "nat \<Rightarrow> string list \<Rightarrow> string list" where
  "consume 0 segs = segs"
| "consume (Suc n) segs = consume n (tl (dropWhile skipped segs))"

definition path_strip_prefix :: "string \<Rightarrow> string \<Rightarrow> string option" where
  "path_strip_prefix base p =
     (if prefix (components base) (components p) then
        (case length (components base) of
           0 \<Rightarrow> Some (rebuild (is_absolute p) (hd (split_slash p)) (tl (split_slash p)))
         | Suc n \<Rightarrow> Some (join_slash (trim_right_segs (dropWhile skipped (consume n (tl (split_slash p)))))))
      else None)"

definition path_file_name :: "string \<Rightarrow> string option" where
  "path_file_name p =
     (if components p = [] then None else case last (components p) of Normal s \<Rightarrow> Some s | _ \<Rightarrow> None)"

definition path_parent :: "string \<Rightarrow> string option" where
  "path_parent p =
     (if components p = [] \<or> last (components p) = RootDir then None
      else let segs = split_slash p; body = trim_right_segs (tl segs) in
           if body = [] then Some [] else Some (rebuild (is_absolute p) (hd segs) (butlast body)))"

section \<open>Containment\<close>

datatype io_error = NotFound string | OtherIo string

datatype path_error =
    IoFailure string string
  | OutsideRoots string "string list"
  | Traversal string
  | InvalidPath string

fun io_message :: "io_error \<Rightarrow> string" where
  "io_message (NotFound m) = m"
| "io_message (OtherIo m) = m"

definition root_canon :: "(string \<Rightarrow> io_error + string) \<Rightarrow> string \<Rightarrow> string" where
  "root_canon canonicalize root = (case canonicalize root of Inr c \<Rightarrow> c | Inl _ \<Rightarrow> root)"

definition under_root :: "(string \<Rightarrow> io_error + string) \<Rightarrow> string \<Rightarrow> string list \<Rightarrow> bool" where
  "under_root canonicalize canon roots \<longleftrightarrow>
     list_ex (\<lambda>r. path_starts_with canon (root_canon canonicalize r)) roots"

definition outside_err :: "(string \<Rightarrow> io_error + string) \<Rightarrow> string \<Rightarrow> string list \<Rightarrow> path_error" where
  "outside_err canonicalize canon roots = OutsideRoots canon (map (root_canon canonicalize) roots)"

definition scope_check :: "(string \<Rightarrow> io_error + string) \<Rightarrow> string list \<Rightarrow> string \<Rightarrow> path_error + string" where
  "scope_check canonicalize roots canon =
     (if under_root canonicalize canon roots then Inr canon else Inl (outside_err canonicalize canon roots))"

definition absolute_candidate :: "string \<Rightarrow> string \<Rightarrow> string" where
  "absolute_candidate cwd candidate = (if is_absolute candidate then candidate else path_join cwd candidate)"

definition resolve_within :: "(string \<Rightarrow> io_error + string) \<Rightarrow> string list \<Rightarrow> string \<Rightarrow> string \<Rightarrow> path_error + string" where
  "resolve_within canonicalize roots cwd candidate =
     (let full = absolute_candidate cwd candidate in
      case canonicalize full of
        Inl e \<Rightarrow> Inl (IoFailure full (io_message e))
      | Inr canon \<Rightarrow> scope_check canonicalize roots canon)"

subsection \<open>Facts about textual paths\<close>

lemma split_slash_nonempty [simp]: "split_slash p \<noteq> []"
  by (induction p) (auto split: list.splits)

lemma join_split_slash [simp]: "join_slash (split_slash p) = p"
proof (induction p)
  case Nil
  then show ?case by simp
next
  case (Cons c cs)
  obtain s ss where "split_slash cs = s # ss" using split_slash_nonempty by (meson list.exhaust)
  with Cons show ?case by (cases ss) auto
qed

lemma join_slash_Cons: "ss \<noteq> [] \<Longrightarrow> join_slash (s # ss) = s @ ''/'' @ join_slash ss"
  by (cases ss) simp_all

lemma join_slash_append:
  "xs \<noteq> [] \<Longrightarrow> ys \<noteq> [] \<Longrightarrow> join_slash (xs @ ys) = join_slash xs @ ''/'' @ join_slash ys"
  by (induction xs rule: join_slash.induct) (simp_all add: join_slash_Cons)

lemma join_slash_shorter:
  "xs \<noteq> [] \<Longrightarrow> ys \<noteq> [] \<Longrightarrow> length (join_slash xs) < length (join_slash (xs @ ys))"
  by (simp add: join_slash_append)

lemma trim_right_prefix: "\<exists>ys. segs = trim_right_segs segs @ ys"
proof -
  have "rev segs = takeWhile skipped (rev segs) @ dropWhile skipped (rev segs)" by simp
  then have "rev (rev segs) = rev (dropWhile skipped (rev segs)) @ rev (takeWhile skipped (rev segs))"
    by (simp only: rev_append [symmetric])
  then show ?thesis unfolding trim_right_segs_def rev_rev_ident by blast
qed

lemma body_components_trim_right [simp]: "body_components (trim_right_segs segs) = body_components segs"
proof -
  have "filter (\<lambda>s. \<not> skipped s) (rev (dropWhile skipped (rev segs))) = filter (\<lambda>s. \<not> skipped s) segs"
    by (induction segs rule: rev_induct) (auto simp: skipped_def)
  then show ?thesis by (simp add: body_components_def trim_right_segs_def)
qed

lemma last_trim_right: "trim_right_segs segs \<noteq> [] \<Longrightarrow> \<not> skipped (last (trim_right_segs segs))"
  by (metis trim_right_segs_def hd_dropWhile last_rev rev_is_Nil_conv)

lemma absolute_segs: "is_absolute p \<longleftrightarrow> hd (split_slash p) = [] \<and> tl (split_slash p) \<noteq> []"
proof (cases p)
  case (Cons c cs)
  then show ?thesis
    by (cases "split_slash cs") (auto simp: is_absolute_def)
qed (simp add: is_absolute_def)

lemma path_parent_shorter:
  assumes "path_parent p = Some q"
  shows "length q < length p"
proof -
  let ?segs = "split_slash p" and ?body = "trim_right_segs (tl (split_slash p))"
  have ne: "components p \<noteq> []" and root: "last (components p) \<noteq> RootDir"
    using assms by (auto simp: path_parent_def split: if_splits)
  have segs: "?segs = hd ?segs # tl ?segs" by simp
  show ?thesis
  proof (cases "?body = []")
    case True
    then have "q = []" using assms by (simp add: path_parent_def Let_def split: if_splits)
    moreover have "p \<noteq> []" using ne by (auto simp: components_def is_absolute_def body_components_def skipped_def)
    ultimately show ?thesis by simp
  next
    case False
    let ?bb = "trim_right_segs (butlast ?body)"
    have q: "q = rebuild (is_absolute p) (hd ?segs) (butlast ?body)"
      using assms False by (simp add: path_parent_def Let_def split: if_splits)
    obtain ys where ys: "tl ?segs = ?body @ ys" using trim_right_prefix by blast
    obtain zs where zs: "butlast ?body = ?bb @ zs" using trim_right_prefix by blast
    have "?segs = (hd ?segs # ?bb) @ (zs @ [last ?body] @ ys)"
      using segs ys zs False by (metis append_Cons append_assoc append_butlast_last_id)
    then have less: "length (join_slash (hd ?segs # ?bb)) < length p"
      by (metis join_split_slash join_slash_shorter append_is_Nil_conv list.distinct(1))
    show ?thesis
    proof (cases "?bb = [] \<and> is_absolute p")
      case True
      have "?segs = [] # ?body @ ys" using True absolute_segs [of p] segs ys by metis
      then have "p = ''/'' @ join_slash (?body @ ys)" by (metis False append_is_Nil_conv append_Nil join_slash_Cons join_split_slash)
      moreover have "join_slash (?body @ ys) \<noteq> []"
        using last_trim_right [OF False] False
        by (cases ?body; cases "tl ?body"; cases ys) (auto simp: skipped_def join_slash_Cons)
      ultimately have "length p > 1" by (metis append_Cons append_Nil length_Cons length_greater_0_conv less_Suc_eq_0_disj not_less_eq One_nat_def)
      then show ?thesis using True q by (simp add: rebuild_def Let_def)
    next
      case False
      then show ?thesis using less q by (auto simp: rebuild_def Let_def)
    qed
  qed
qed

definition slash_free :: "string \<Rightarrow> bool" where
  "slash_free s \<longleftrightarrow> CHR ''/'' \<notin> set s"

lemma split_slash_slash_free: "s \<in> set (split_slash p) \<Longrightarrow> slash_free s"
  by (induction p arbitrary: s) (auto simp: slash_free_def split: if_splits list.splits)

lemma split_slash_free_append:
  "slash_free s \<Longrightarrow> split_slash (s @ ''/'' @ t) = s # split_slash t"
  by (induction s) (auto simp: slash_free_def)

lemma split_slash_id: "slash_free s \<Longrightarrow> split_slash s = [s]"
  by (induction s) (auto simp: slash_free_def)

lemma split_join_slash: "segs \<noteq> [] \<Longrightarrow> \<forall>s \<in> set segs. slash_free s \<Longrightarrow> split_slash (join_slash segs) = segs"
  by (induction segs rule: join_slash.induct)
    (simp_all add: split_slash_id split_slash_free_append del: append_Cons)

definition front_components :: "bool \<Rightarrow> string \<Rightarrow> component list" where
  "front_components absolute first =
     (if absolute then [RootDir] else if first = ''.'' then [CurDir] else body_components [first])"

lemma components_front:
  "components p = front_components (is_absolute p) (hd (split_slash p)) @ body_components (tl (split_slash p))"
proof -
  have "split_slash p = hd (split_slash p) # tl (split_slash p)" by simp
  then have "body_components (split_slash p) = body_components [hd (split_slash p)] @ body_components (tl (split_slash p))"
    by (metis append_Cons append_Nil body_components_def filter_append map_append)
  then show ?thesis by (simp add: components_def front_components_def Let_def)
qed

lemma components_rebuild:
  assumes "slash_free first" and "\<forall>s \<in> set segs. slash_free s" and "absolute \<longleftrightarrow> first = []"
  shows "components (rebuild absolute first segs) = front_components absolute first @ body_components segs"
proof (cases "trim_right_segs segs = []")
  case True
  then have "body_components segs = []"
    using body_components_trim_right [of segs] by (simp add: body_components_def)
  moreover have "components ''/'' = [RootDir]"
    by (simp add: components_def is_absolute_def body_components_def skipped_def)
  moreover have "components first = front_components False first" if "first \<noteq> []"
    using that assms(1) absolute_segs [of first]
    by (simp add: components_front split_slash_id body_components_def)
  ultimately show ?thesis using True assms(3) by (auto simp: rebuild_def front_components_def)
next
  case False
  have sub: "set (trim_right_segs segs) \<subseteq> set segs" using trim_right_prefix [of segs] by (metis Un_upper1 set_append)
  have split: "split_slash (join_slash (first # trim_right_segs segs)) = first # trim_right_segs segs"
    using assms(1,2) sub by (intro split_join_slash) auto
  then have "is_absolute (join_slash (first # trim_right_segs segs)) \<longleftrightarrow> absolute"
    using False assms(3) by (simp add: absolute_segs)
  then show ?thesis using False split by (simp add: rebuild_def components_front Let_def)
qed

lemma components_parent:
  assumes "path_parent p = Some q"
  shows "components q = butlast (components p)" and "components p \<noteq> []"
proof -
  let ?segs = "split_slash p" and ?body = "trim_right_segs (tl (split_slash p))"
  have ne: "components p \<noteq> []" and root: "last (components p) \<noteq> RootDir"
    using assms by (auto simp: path_parent_def split: if_splits)
  show "components p \<noteq> []" by (rule ne)
  have bc: "body_components (tl ?segs) = body_components ?body" by simp
  show "components q = butlast (components p)"
  proof (cases "?body = []")
    case True
    then have q: "q = []" using assms by (simp add: path_parent_def Let_def split: if_splits)
    have "components p = front_components (is_absolute p) (hd ?segs)"
      using True bc components_front [of p] by (simp add: body_components_def)
    moreover from this have "\<not> is_absolute p" using root by (auto simp: front_components_def)
    ultimately have "butlast (components p) = []" by (simp add: front_components_def body_components_def)
    then show ?thesis using q by (simp add: components_def is_absolute_def body_components_def skipped_def)
  next
    case False
    have q: "q = rebuild (is_absolute p) (hd ?segs) (butlast ?body)"
      using assms False by (simp add: path_parent_def Let_def split: if_splits)
    have ne': "tl ?segs \<noteq> []" using False by (auto simp: trim_right_segs_def)
    have sub: "set (butlast ?body) \<subseteq> set ?segs"
      using trim_right_prefix [of "tl ?segs"] by (metis Un_iff in_set_butlastD list.set_sel(2) set_append split_slash_nonempty subsetI)
    have comps: "components q = front_components (is_absolute p) (hd ?segs) @ body_components (butlast ?body)"
      unfolding q
    proof (rule components_rebuild)
      show "slash_free (hd ?segs)" by (simp add: split_slash_slash_free [of _ p])
      show "\<forall>s \<in> set (butlast ?body). slash_free s" using sub split_slash_slash_free [of _ p] by blast
      show "is_absolute p \<longleftrightarrow> hd ?segs = []" using ne' by (simp add: absolute_segs)
    qed
    have "body_components (butlast ?body @ [last ?body]) = body_components (butlast ?body) @ [body_component (last ?body)]"
      using last_trim_right [OF False] by (simp add: body_components_def)
    then have "body_components ?body = body_components (butlast ?body) @ [body_component (last ?body)]"
      by (simp only: append_butlast_last_id [OF False])
    then have "components p = (front_components (is_absolute p) (hd ?segs) @ body_components (butlast ?body)) @ [body_component (last ?body)]"
      by (simp only: components_front [of p] bc append_assoc)
    then show ?thesis using comps by (metis butlast_snoc)
  qed
qed

section \<open>Resolution of paths that may not exist\<close>

text \<open>
  The loop of \<open>resolve_within_loose\<close>: walk up to the nearest existing ancestor, collecting the
  names of the missing components.
\<close>

function ancestor_loop ::
  "(string \<Rightarrow> io_error + string) \<Rightarrow> string \<Rightarrow> string \<Rightarrow> string list \<Rightarrow> path_error + (string \<times> string list)" where
  "ancestor_loop canonicalize full ancestor missing =
     (case canonicalize ancestor of
        Inr canon \<Rightarrow> Inr (canon, missing)
      | Inl (NotFound m) \<Rightarrow>
          (case path_file_name ancestor of
             None \<Rightarrow> Inl (InvalidPath full)
           | Some name \<Rightarrow>
               (case path_parent ancestor of
                  None \<Rightarrow> Inl (InvalidPath full)
                | Some parent \<Rightarrow> ancestor_loop canonicalize full parent (missing @ [name])))
      | Inl (OtherIo m) \<Rightarrow> Inl (IoFailure ancestor m))"
  by pat_completeness auto
termination
  by (relation "measure (\<lambda>(_, _, ancestor, _). length ancestor)") (auto dest: path_parent_shorter)

declare ancestor_loop.simps [simp del]

definition resolve_within_loose ::
  "(string \<Rightarrow> io_error + string) \<Rightarrow> string list \<Rightarrow> string \<Rightarrow> string \<Rightarrow> path_error + string" where
  "resolve_within_loose canonicalize roots cwd candidate =
     (let full = absolute_candidate cwd candidate in
      if ParentDir \<in> set (components full) then Inl (Traversal full)
      else case canonicalize full of
             Inr canon \<Rightarrow> scope_check canonicalize roots canon
           | Inl _ \<Rightarrow>
               (case ancestor_loop canonicalize full full [] of
                  Inl e \<Rightarrow> Inl e
                | Inr (ancestor_canon, missing) \<Rightarrow>
                    scope_check canonicalize roots (foldl path_join ancestor_canon (rev missing))))"

lemma scope_check_Inr: "scope_check canonicalize roots c = Inr q \<longleftrightarrow> q = c \<and> under_root canonicalize c roots"
  by (auto simp: scope_check_def)

lemma ancestor_loop_Inr:
  assumes "ancestor_loop canonicalize full ancestor missing = Inr (canon, names)"
  shows "\<exists>anc new. canonicalize anc = Inr canon \<and> names = missing @ rev new
     \<and> components ancestor = components anc @ map Normal new"
  using assms
proof (induction canonicalize full ancestor missing rule: ancestor_loop.induct)
  case (1 canonicalize full ancestor missing)
  show ?case
  proof (cases "canonicalize ancestor")
    case (Inr c)
    with "1.prems" show ?thesis by (auto simp: ancestor_loop.simps [of _ _ ancestor] intro: exI [of _ "[]"])
  next
    case (Inl e)
    with "1.prems" obtain m name parent where e: "e = NotFound m" and name: "path_file_name ancestor = Some name"
      and parent: "path_parent ancestor = Some parent"
      and rec: "ancestor_loop canonicalize full parent (missing @ [name]) = Inr (canon, names)"
      by (auto simp: ancestor_loop.simps [of _ _ ancestor] split: io_error.splits option.splits)
    from "1.IH" [OF Inl e name parent rec] obtain anc new where
      IH: "canonicalize anc = Inr canon" "names = missing @ [name] @ rev new"
        "components parent = components anc @ map Normal new" by auto
    have "components ancestor = components parent @ [last (components ancestor)]"
      using components_parent [OF parent] by simp
    moreover have "last (components ancestor) = Normal name"
      using name by (auto simp: path_file_name_def split: if_splits component.splits)
    ultimately have "components ancestor = components anc @ map Normal (new @ [name])" using IH(3) by simp
    then show ?thesis using IH by (intro exI [of _ anc] exI [of _ "new @ [name]"]) simp
  qed
qed

text \<open>Pushing an ordinary name on an absolute path adds one component.\<close>

lemma normal_component:
  assumes "Normal n \<in> set (components p)"
  shows "slash_free n" and "\<not> skipped n" and "n \<noteq> ''..''"
proof -
  have "n \<in> set (split_slash p) \<and> \<not> skipped n \<and> n \<noteq> ''..''"
    using assms list.set_sel(2) [of "split_slash p" n]
    by (auto simp: components_def body_components_def body_component_def Let_def split: if_splits)
  then show "slash_free n" and "\<not> skipped n" and "n \<noteq> ''..''" using split_slash_slash_free by blast+
qed

lemma split_slash_append_slash: "split_slash (p @ ''/'' @ q) = split_slash p @ split_slash q"
  by (induction p) (auto split: list.splits)

lemma components_push:
  assumes "is_absolute base" and "slash_free n" and "\<not> skipped n" and "n \<noteq> ''..''"
  shows "components (path_join base n) = components base @ [Normal n]" and "is_absolute (path_join base n)"
proof -
  have na: "\<not> is_absolute n" using assms(2) by (auto simp: is_absolute_def slash_free_def prefix_def)
  have bne: "base \<noteq> []" using assms(1) by (auto simp: is_absolute_def)
  show full: "is_absolute (path_join base n)"
    using assms(1) na by (auto simp: path_join_def is_absolute_def prefix_def)
  obtain stem where stem: "path_join base n = stem @ ''/'' @ n" "base = stem @ ''/'' \<or> base = stem"
  proof (cases "suffix ''/'' base")
    case True
    then obtain stem where "base = stem @ ''/''" by (auto elim: suffixE)
    with True na that show ?thesis by (simp add: path_join_def)
  next
    case False
    with na bne that show ?thesis by (simp add: path_join_def)
  qed
  have sp: "split_slash (path_join base n) = split_slash stem @ [n]"
    by (simp only: stem(1) split_slash_append_slash split_slash_id [OF assms(2)])
  have tlbase: "body_components (tl (split_slash base)) = body_components (tl (split_slash stem))"
    using stem(2) split_slash_append_slash [of stem "[]"] by (auto simp: body_components_def skipped_def tl_append split: list.splits)
  have "body_components (tl (split_slash (path_join base n))) = body_components (tl (split_slash stem)) @ [Normal n]"
    using assms(3,4) by (simp add: sp body_components_def body_component_def tl_append split: list.splits)
  then show "components (path_join base n) = components base @ [Normal n]"
    using assms(1) full tlbase by (simp add: components_def Let_def)
qed

lemma components_push_all:
  assumes "is_absolute base" and "\<forall>n \<in> set names. slash_free n \<and> \<not> skipped n \<and> n \<noteq> ''..''"
  shows "components (foldl path_join base names) = components base @ map Normal names"
  using assms by (induction names arbitrary: base) (simp_all add: components_push)

section \<open>Properties\<close>

text \<open>
  A path that \<open>resolve_within\<close> accepts is the physical path of the candidate and lies,
  component by component, under the physical path of an allowed root; every other outcome is
  an error that names what failed.
\<close>

theorem resolve_within_contained:
  assumes "resolve_within canonicalize roots cwd candidate = Inr q"
  shows "canonicalize (absolute_candidate cwd candidate) = Inr q
    \<and> (\<exists>r \<in> set roots. prefix (components (root_canon canonicalize r)) (components q))"
  using assms
  by (auto simp: resolve_within_def scope_check_Inr under_root_def list_ex_iff path_starts_with_def Let_def
      split: sum.splits)

lemma resolve_within_contained_witness:
  "\<exists>r \<in> set [''/repo'']. prefix (components (root_canon Inr r)) (components ''/repo/a'')"
  by (rule conjunct2 [OF resolve_within_contained [of Inr "[''/repo'']" "''/repo''" "''a''"]]) code_simp

text \<open>
  C25: a path that \<open>resolve_within_loose\<close> accepts lies under the physical path of an allowed root.
  Either the candidate exists and the result is its physical path, or the result is the physical
  path of an existing ancestor followed by the missing components of the candidate, none of which
  is \<open>..\<close>. The hypothesis is that \<open>canonicalize\<close> returns absolute paths.
\<close>

theorem resolve_within_loose_contained:
  assumes "\<And>p c. canonicalize p = Inr c \<Longrightarrow> is_absolute c"
    and "resolve_within_loose canonicalize roots cwd candidate = Inr q"
  shows "(\<exists>r \<in> set roots. prefix (components (root_canon canonicalize r)) (components q))
    \<and> (\<exists>anc c names. canonicalize anc = Inr c
          \<and> components (absolute_candidate cwd candidate) = components anc @ map Normal names
          \<and> components q = components c @ map Normal names \<and> ''..'' \<notin> set names)"
proof -
  let ?full = "absolute_candidate cwd candidate"
  have nodots: "ParentDir \<notin> set (components ?full)"
    using assms(2) by (auto simp: resolve_within_loose_def Let_def split: if_splits)
  have "under_root canonicalize q roots"
    using assms(2) by (auto simp: resolve_within_loose_def scope_check_Inr Let_def split: if_splits sum.splits)
  then have "\<exists>r \<in> set roots. prefix (components (root_canon canonicalize r)) (components q)"
    by (auto simp: under_root_def list_ex_iff path_starts_with_def)
  moreover have "\<exists>anc c names. canonicalize anc = Inr c \<and> components ?full = components anc @ map Normal names
      \<and> components q = components c @ map Normal names \<and> ''..'' \<notin> set names"
  proof (cases "canonicalize ?full")
    case (Inr c)
    then have "q = c" using assms(2) nodots by (simp add: resolve_within_loose_def scope_check_Inr Let_def)
    then show ?thesis using Inr by (intro exI [of _ ?full] exI [of _ c] exI [of _ "[]"]) simp
  next
    case (Inl e)
    then obtain c names where loop: "ancestor_loop canonicalize ?full ?full [] = Inr (c, names)"
      and q: "q = foldl path_join c (rev names)"
      using assms(2) nodots by (auto simp: resolve_within_loose_def scope_check_Inr Let_def split: sum.splits)
    from ancestor_loop_Inr [OF loop] obtain anc new where anc: "canonicalize anc = Inr c" "rev names = new"
      "components ?full = components anc @ map Normal new" by auto
    have new: "\<forall>n \<in> set new. slash_free n \<and> \<not> skipped n \<and> n \<noteq> ''..''"
      using normal_component [of _ ?full] anc(3) by simp
    then have "components q = components c @ map Normal new"
      using components_push_all [OF assms(1) [OF anc(1)], of new] q anc(2) by simp
    then show ?thesis using anc new by blast
  qed
  ultimately show ?thesis by blast
qed

text \<open>A file system in which only \<open>/\<close> and \<open>/repo\<close> exist.\<close>

definition demo_fs :: "string \<Rightarrow> io_error + string" where
  "demo_fs p = (if p = ''/'' \<or> p = ''/repo'' then Inr p else Inl (NotFound ''no such file''))"

lemma resolve_within_loose_contained_witness:
  "resolve_within_loose demo_fs [''/repo''] ''/repo'' ''new/b.txt'' = Inr ''/repo/new/b.txt''
   \<and> (\<exists>r \<in> set [''/repo'']. prefix (components (root_canon demo_fs r)) (components ''/repo/new/b.txt''))"
proof
  show r: "resolve_within_loose demo_fs [''/repo''] ''/repo'' ''new/b.txt'' = Inr ''/repo/new/b.txt''"
    by code_simp
  show "\<exists>r \<in> set [''/repo'']. prefix (components (root_canon demo_fs r)) (components ''/repo/new/b.txt'')"
    by (rule conjunct1 [OF resolve_within_loose_contained [OF _ r]])
      (auto simp: demo_fs_def is_absolute_def split: if_splits)
qed

end
