(* ===== verification/Permission.thy ===== *)
theory Permission
  imports Bash_Commands Paths
begin

text \<open>
  \<open>crates/rc-perm/src/rules.rs\<close>: the modes and their codecs, rules and their parser, the three
  implementations of \<open>PermissionChecker\<close>. The interface \<open>permission_checker\<close> states what the
  agent loop may rely on whichever checker runs in production. \<open>shlex\<close> and \<open>glob\<close> stand for
  \<open>shlex::split\<close> and for building and matching a \<open>globset\<close> glob (\<open>None\<close> when the glob does not
  build).
\<close>

section \<open>Modes\<close>

datatype decision = Allow | Deny string | AskUser string

datatype mode = Default | AcceptEdits | Plan | AskMode | Auto

definition mode_parse :: "string \<Rightarrow> mode" where
  "mode_parse s =
     (if s = ''acceptEdits'' then AcceptEdits else if s = ''plan'' then Plan else if s = ''ask'' then AskMode
      else if s = ''auto'' \<or> s = ''bypassPermissions'' then Auto else Default)"

fun mode_as_str :: "mode \<Rightarrow> string" where
  "mode_as_str Default = ''default''"
| "mode_as_str AcceptEdits = ''acceptEdits''"
| "mode_as_str Plan = ''plan''"
| "mode_as_str AskMode = ''ask''"
| "mode_as_str Auto = ''auto''"

fun mode_to_u8 :: "mode \<Rightarrow> u8" where
  "mode_to_u8 Default = 0"
| "mode_to_u8 AcceptEdits = 1"
| "mode_to_u8 Plan = 2"
| "mode_to_u8 Auto = 3"
| "mode_to_u8 AskMode = 4"

definition mode_from_u8 :: "u8 \<Rightarrow> mode" where
  "mode_from_u8 v =
     (if v = 1 then AcceptEdits else if v = 2 then Plan else if v = 3 then Auto else if v = 4 then AskMode
      else Default)"

section \<open>Rules\<close>

definition is_mcp :: "string \<Rightarrow> bool" where
  "is_mcp tool \<longleftrightarrow> prefix ''mcp__'' tool"

definition is_mutating :: "string \<Rightarrow> bool" where
  "is_mutating tool \<longleftrightarrow> tool \<in> {''Edit'', ''Write'', ''Append'', ''Bash'', ''NotebookEdit'', ''Task''} \<or> is_mcp tool"

definition rule_covers :: "string \<Rightarrow> string \<Rightarrow> bool" where
  "rule_covers rule_tool tool \<longleftrightarrow>
     rule_tool = tool
     \<or> (is_mcp rule_tool \<and> find_str ''__'' (drop 5 rule_tool) = None
        \<and> (case strip_prefix rule_tool tool of Some rest \<Rightarrow> prefix ''__'' rest | None \<Rightarrow> False))"

definition requires_confirmation :: "string \<Rightarrow> decision" where
  "requires_confirmation tool = AskUser (tool @ '' requires confirmation'')"

fun mode_default :: "string \<Rightarrow> mode \<Rightarrow> decision" where
  "mode_default tool Default = (if is_mutating tool then requires_confirmation tool else Allow)"
| "mode_default tool AcceptEdits = (if tool = ''Bash'' \<or> is_mcp tool then requires_confirmation tool else Allow)"
| "mode_default tool Plan = (if is_mutating tool then Deny ''mutating tools are disabled in plan mode'' else Allow)"
| "mode_default tool AskMode = AskUser (tool @ '' requires confirmation (ask mode)'')"
| "mode_default tool Auto = Allow"

record rule =
  rule_tool :: string
  rule_spec :: "string option"

text \<open>\<open>str::rfind\<close> with a one-byte pattern.\<close>

definition rfind_char :: "char \<Rightarrow> string \<Rightarrow> nat option" where
  "rfind_char c s = rposition (\<lambda>x. x = c) s"

definition rule_parse :: "string \<Rightarrow> rule option" where
  "rule_parse text =
     (let s = trim text in
      if s = [] then None
      else case (find_str ''('' s, rfind_char (CHR '')'') s) of
             (Some opn, Some cls) \<Rightarrow>
               if opn < cls
               then Some \<lparr>rule_tool = trim (take opn s), rule_spec = Some (drop (opn + 1) (take cls s))\<rparr>
               else Some \<lparr>rule_tool = s, rule_spec = None\<rparr>
           | _ \<Rightarrow> Some \<lparr>rule_tool = s, rule_spec = None\<rparr>)"

definition parse_rules :: "string list \<Rightarrow> rule list" where
  "parse_rules = List.map_filter rule_parse"

section \<open>Checkers\<close>

definition allow_all_check :: "string \<Rightarrow> json \<Rightarrow> string \<Rightarrow> string list \<Rightarrow> string list \<Rightarrow> decision" where
  "allow_all_check tool input cwd roots grants = Allow"

definition command_of :: "json \<Rightarrow> string option" where
  "command_of input = Option.bind (json_get input ''command'') as_str"

definition bypass_check :: "string \<Rightarrow> json \<Rightarrow> string \<Rightarrow> string list \<Rightarrow> string list \<Rightarrow> decision" where
  "bypass_check tool input cwd roots grants =
     (if tool = ''Bash'' then
        (case command_of input of
           Some cmd \<Rightarrow> if is_catastrophic_cmd cmd then Deny ''destructive command refused (even in bypass)'' else Allow
         | None \<Rightarrow> Allow)
      else Allow)"

text \<open>U+2014 in UTF-8.\<close>

definition em_dash :: string where
  "em_dash = bytes_str [226, 128, 148]"

record permission_engine =
  pe_mode :: u8
  pe_deny :: "rule list"
  pe_allow :: "rule list"
  pe_ask :: "rule list"

definition engine_new :: "mode \<Rightarrow> string list \<Rightarrow> string list \<Rightarrow> string list \<Rightarrow> permission_engine" where
  "engine_new m dny alw ask =
     \<lparr>pe_mode = mode_to_u8 m, pe_deny = parse_rules dny, pe_allow = parse_rules alw, pe_ask = parse_rules ask\<rparr>"

definition engine_mode :: "permission_engine \<Rightarrow> mode" where
  "engine_mode e = mode_from_u8 (pe_mode e)"

definition set_mode :: "mode \<Rightarrow> permission_engine \<Rightarrow> permission_engine" where
  "set_mode m e = e\<lparr>pe_mode := mode_to_u8 m\<rparr>"

definition path_matches :: "(string \<Rightarrow> string \<Rightarrow> bool option) \<Rightarrow> rule \<Rightarrow> json \<Rightarrow> string \<Rightarrow> bool" where
  "path_matches glob r input cwd =
     (case rule_spec r of
        None \<Rightarrow> True
      | Some spec \<Rightarrow>
          (case Option.bind (case json_get input ''file_path'' of Some v \<Rightarrow> Some v | None \<Rightarrow> json_get input ''path'') as_str of
             None \<Rightarrow> False
           | Some p \<Rightarrow>
               (let full = absolute_candidate cwd p;
                    rel = (case path_strip_prefix cwd full of Some q \<Rightarrow> q | None \<Rightarrow> full);
                    spec' = (case strip_prefix ''./'' spec of Some x \<Rightarrow> x | None \<Rightarrow> spec)
                in case glob spec' rel of Some b \<Rightarrow> b | None \<Rightarrow> False)))"

definition bash_specs :: "rule list \<Rightarrow> string list" where
  "bash_specs rules = List.map_filter rule_spec (filter (\<lambda>r. rule_tool r = ''Bash'') rules)"

definition bare_bash :: "rule list \<Rightarrow> bool" where
  "bare_bash rules \<longleftrightarrow> list_ex (\<lambda>r. rule_tool r = ''Bash'' \<and> rule_spec r = None) rules"

text \<open>The test that grants and allow rules share: every sub-command is covered, and there is one.\<close>

definition covers_all :: "(string \<Rightarrow> string list option) \<Rightarrow> rule list \<Rightarrow> sub list \<Rightarrow> bool" where
  "covers_all shlex rules subs \<longleftrightarrow>
     subs \<noteq> [] \<and> list_all (\<lambda>s. bare_bash rules \<or> list_ex (\<lambda>g. rule_matches shlex g s) (bash_specs rules)) subs"

definition matches_some :: "(string \<Rightarrow> string list option) \<Rightarrow> rule list \<Rightarrow> sub list \<Rightarrow> bool" where
  "matches_some shlex rules subs \<longleftrightarrow>
     list_ex (\<lambda>s. list_ex (\<lambda>r. rule_matches shlex r s) (bash_specs rules)) subs"

definition bash_check ::
  "(string \<Rightarrow> string list option) \<Rightarrow> permission_engine \<Rightarrow> string \<Rightarrow> rule list \<Rightarrow> mode \<Rightarrow> decision" where
  "bash_check shlex e cmd grants m =
     (if is_catastrophic_cmd cmd then Deny ''destructive command refused''
      else if m = Auto then Allow
      else let parsed = parse_bash shlex cmd in
        if unparseable parsed then AskUser (''complex or unparseable command '' @ em_dash @ '' needs approval'')
        else if covers_all shlex grants (subcommands parsed) then Allow
        else if is_always_ask cmd then AskUser ''always-ask command (e.g. sudo, force push)''
        else if matches_some shlex (pe_deny e) (subcommands parsed) then Deny ''denied by a rule''
        else if covers_all shlex (pe_allow e) (subcommands parsed) then Allow
        else if matches_some shlex (pe_ask e) (subcommands parsed) then AskUser ''asked by a rule''
        else mode_default ''Bash'' m)"

definition applies ::
  "(string \<Rightarrow> string \<Rightarrow> bool option) \<Rightarrow> string \<Rightarrow> json \<Rightarrow> string \<Rightarrow> rule \<Rightarrow> bool" where
  "applies glob tool input cwd r \<longleftrightarrow>
     rule_covers (rule_tool r) tool \<and> (rule_spec r = None \<or> path_matches glob r input cwd)"

text \<open>
  \<open>PermissionEngine::check\<close> up to the treatment of \<open>ReadMany\<close>: \<open>None\<close> when no grant, mode or
  rule has decided yet.
\<close>

definition check_rules ::
  "(string \<Rightarrow> string list option) \<Rightarrow> (string \<Rightarrow> string \<Rightarrow> bool option) \<Rightarrow> permission_engine \<Rightarrow>
   string \<Rightarrow> json \<Rightarrow> string \<Rightarrow> string list \<Rightarrow> decision option" where
  "check_rules shlex glob e tool input cwd grants =
     (let m = engine_mode e; grant_rules = parse_rules grants in
      if tool \<noteq> ''Bash'' \<and> list_ex (applies glob tool input cwd) grant_rules then Some Allow
      else if tool = ''Bash'' then
        (case command_of input of
           Some cmd \<Rightarrow> Some (bash_check shlex e cmd grant_rules m)
         | None \<Rightarrow> Some (AskUser ''Bash call without a command''))
      else if m = Auto then Some Allow
      else if list_ex (applies glob tool input cwd) (pe_deny e) then Some (Deny ''denied by a rule'')
      else if list_ex (applies glob tool input cwd) (pe_allow e) then Some Allow
      else if list_ex (applies glob tool input cwd) (pe_ask e) then Some (AskUser ''asked by a rule'')
      else None)"

text \<open>The loop over the paths of a \<open>ReadMany\<close> call.\<close>

fun check_reads :: "(json \<Rightarrow> decision) \<Rightarrow> string list \<Rightarrow> decision" where
  "check_reads check_read [] = Allow"
| "check_reads check_read (p # ps) =
     (case check_read (JObject [(''file_path'', JString p)]) of
        Allow \<Rightarrow> check_reads check_read ps
      | d \<Rightarrow> d)"

definition check_single ::
  "(string \<Rightarrow> string list option) \<Rightarrow> (string \<Rightarrow> string \<Rightarrow> bool option) \<Rightarrow> permission_engine \<Rightarrow>
   string \<Rightarrow> json \<Rightarrow> string \<Rightarrow> string list \<Rightarrow> decision" where
  "check_single shlex glob e tool input cwd grants =
     (case check_rules shlex glob e tool input cwd grants of
        Some d \<Rightarrow> d
      | None \<Rightarrow> mode_default tool (engine_mode e))"

definition engine_check ::
  "(string \<Rightarrow> string list option) \<Rightarrow> (string \<Rightarrow> string \<Rightarrow> bool option) \<Rightarrow> permission_engine \<Rightarrow>
   string \<Rightarrow> json \<Rightarrow> string \<Rightarrow> string list \<Rightarrow> string list \<Rightarrow> decision" where
  "engine_check shlex glob e tool input cwd roots grants =
     (case check_rules shlex glob e tool input cwd grants of
        Some d \<Rightarrow> d
      | None \<Rightarrow>
          (if tool = ''ReadMany'' then
             (case Option.bind (json_get input ''file_paths'') as_array of
                Some paths \<Rightarrow>
                  check_reads (\<lambda>read_input. check_single shlex glob e ''Read'' read_input cwd grants)
                    (List.map_filter as_str paths)
              | None \<Rightarrow> mode_default tool (engine_mode e))
           else mode_default tool (engine_mode e)))"

text \<open>The recursive call of the code is on the tool \<open>Read\<close>, where the engine does not recurse again.\<close>

lemma engine_check_Read:
  "engine_check shlex glob e ''Read'' input cwd roots grants = check_single shlex glob e ''Read'' input cwd grants"
  by (simp add: engine_check_def check_single_def split: option.split)

section \<open>The interface\<close>

locale permission_checker =
  fixes check :: "string \<Rightarrow> json \<Rightarrow> string \<Rightarrow> string list \<Rightarrow> string list \<Rightarrow> decision"
  assumes catastrophic_denied:
    "command_of input = Some cmd \<Longrightarrow> is_catastrophic_cmd cmd \<Longrightarrow> \<exists>r. check ''Bash'' input cwd roots grants = Deny r"
begin

lemma catastrophic_never_runs:
  assumes "command_of input = Some cmd" and "is_catastrophic_cmd cmd"
  shows "check ''Bash'' input cwd roots grants \<noteq> Allow" and "check ''Bash'' input cwd roots grants \<noteq> AskUser reason"
  using catastrophic_denied [OF assms, of cwd roots grants] by auto

end

interpretation engine: permission_checker "engine_check shlex glob e" for shlex glob e
  by unfold_locales (simp add: engine_check_def check_rules_def bash_check_def Let_def)

interpretation bypass: permission_checker bypass_check
  by unfold_locales (simp add: bypass_check_def)

section \<open>Facts about the engine\<close>

lemma mode_u8_codec [simp]: "mode_from_u8 (mode_to_u8 m) = m"
  by (cases m) (simp_all add: mode_from_u8_def)

lemma engine_new_simps [simp]:
  "engine_mode (engine_new m dny alw ask) = m" "pe_deny (engine_new m dny alw ask) = parse_rules dny"
  "pe_allow (engine_new m dny alw ask) = parse_rules alw" "pe_ask (engine_new m dny alw ask) = parse_rules ask"
  by (simp_all add: engine_mode_def engine_new_def)

lemma engine_mode_set_mode [simp]: "engine_mode (set_mode m e) = m"
  by (simp add: engine_mode_def set_mode_def)

lemma engine_check_Bash:
  assumes "command_of input = Some cmd"
  shows "engine_check shlex glob e ''Bash'' input cwd roots grants = bash_check shlex e cmd (parse_rules grants) (engine_mode e)"
  using assms by (simp add: engine_check_def check_rules_def Let_def)

lemma mode_default_Bash: "mode_default ''Bash'' m = Allow \<longleftrightarrow> m = Auto"
  by (cases m) (simp_all add: is_mutating_def requires_confirmation_def)

text \<open>When a mode that can prompt allows a command, some rules cover every part of it.\<close>

lemma bash_check_Allow_iff:
  assumes "m \<noteq> Auto"
  shows "bash_check shlex e cmd grants m = Allow \<longleftrightarrow>
    \<not> is_catastrophic_cmd cmd \<and> \<not> unparseable (parse_bash shlex cmd)
    \<and> (covers_all shlex grants (subcommands (parse_bash shlex cmd))
       \<or> (\<not> is_always_ask cmd \<and> \<not> matches_some shlex (pe_deny e) (subcommands (parse_bash shlex cmd))
          \<and> covers_all shlex (pe_allow e) (subcommands (parse_bash shlex cmd))))"
  using assms mode_default_Bash by (auto simp: bash_check_def Let_def)

lemma covers_all_matches:
  assumes "covers_all shlex rules subs" and "s \<in> set subs"
  shows "\<exists>r \<in> set rules. rule_tool r = ''Bash'' \<and> (case rule_spec r of None \<Rightarrow> True | Some g \<Rightarrow> rule_matches shlex g s)"
  using assms
  by (fastforce simp: covers_all_def bare_bash_def bash_specs_def list_all_iff list_ex_iff map_filter_def)

lemma check_reads_Allow:
  "check_reads f ps = Allow \<longleftrightarrow> (\<forall>p \<in> set ps. f (JObject [(''file_path'', JString p)]) = Allow)"
  by (induction ps) (auto split: decision.splits)

section \<open>Properties\<close>

text \<open>
  C3: a catastrophic shell command is denied by the permission engine in every mode, whatever its
  rules, the session's grants and later mode changes, and by the bypass checker.
\<close>

theorem catastrophic_always_denied:
  assumes "command_of input = Some cmd" and "is_catastrophic_cmd cmd"
  shows "(\<exists>r. engine_check shlex glob e ''Bash'' input cwd roots grants = Deny r)
    \<and> (\<exists>r. engine_check shlex glob (set_mode m e) ''Bash'' input cwd roots grants = Deny r)
    \<and> (\<exists>r. bypass_check ''Bash'' input cwd roots grants = Deny r)"
  using engine.catastrophic_denied [OF assms] bypass.catastrophic_denied [OF assms] by simp

lemma catastrophic_always_denied_witness:
  "\<exists>r. engine_check (\<lambda>_. None) (\<lambda>_ _. None) (set_mode Auto (engine_new Plan [] [''Bash''] []))
     ''Bash'' (JObject [(''command'', JString ''cd / && rm -rf /usr'')]) ''/'' [] [''Bash''] = Deny r"
  using catastrophic_always_denied
    [of "JObject [(''command'', JString ''cd / && rm -rf /usr'')]" "''cd / && rm -rf /usr''"
      "\<lambda>_. None" "\<lambda>_ _. None" "engine_new Plan [] [''Bash''] []" "''/''" "[]" "[''Bash'']" Auto]
  by (simp add: command_of_def is_catastrophic_cmd_def catastrophic_def)

text \<open>
  In a mode that can prompt, an allowed shell command without quotes is a non-empty sequence
  of sub-commands, each free of shell separators and each matched, on the tokens that \<open>shlex\<close>
  gives for its text, by a session grant or an allow rule for \<open>Bash\<close>.
\<close>

theorem allowed_bash_covered:
  assumes "engine_mode e \<noteq> Auto" and "command_of input = Some cmd"
    and "engine_check shlex glob e ''Bash'' input cwd roots grants = Allow"
    and "valid_utf8 cmd" and "\<not> contains_str squote cmd" and "\<not> contains_str dquote cmd"
  shows "subcommands (parse_bash shlex cmd) \<noteq> []
    \<and> (\<forall>s \<in> set (subcommands (parse_bash shlex cmd)).
        separator_free (raw s) \<and> shlex (raw s) = Some (tokens s)
        \<and> (\<exists>r \<in> set (parse_rules grants) \<union> set (pe_allow e).
             rule_tool r = ''Bash'' \<and> (case rule_spec r of None \<Rightarrow> True | Some g \<Rightarrow> rule_matches shlex g s)))"
proof -
  let ?subs = "subcommands (parse_bash shlex cmd)"
  have cov: "covers_all shlex (parse_rules grants) ?subs \<or> covers_all shlex (pe_allow e) ?subs"
    using assms(3) engine_check_Bash [OF assms(2)] bash_check_Allow_iff [OF assms(1)] by auto
  have raws: "separator_free (raw s) \<and> shlex (raw s) = Some (tokens s)" if "s \<in> set ?subs" for s
    using parse_bash_raw [OF that] split_subcommands_separator_free [OF assms(4-6)] separator_free_trim by auto
  have "\<exists>r \<in> set (parse_rules grants) \<union> set (pe_allow e).
      rule_tool r = ''Bash'' \<and> (case rule_spec r of None \<Rightarrow> True | Some g \<Rightarrow> rule_matches shlex g s)"
    if "s \<in> set ?subs" for s
    using cov covers_all_matches [OF _ that] by blast
  moreover have "?subs \<noteq> []" using cov by (auto simp: covers_all_def)
  ultimately show ?thesis using raws by blast
qed

text \<open>A \<open>shlex\<close> for words separated by single blanks, enough for the witnesses.\<close>

fun demo_words :: "string \<Rightarrow> string list" where
  "demo_words [] = [[]]"
| "demo_words (c # cs) =
     (if [c] = '' '' then [] # demo_words cs
      else case demo_words cs of [] \<Rightarrow> [[c]] | w # ws \<Rightarrow> (c # w) # ws)"

definition demo_shlex :: "string \<Rightarrow> string list option" where
  "demo_shlex s = Some (demo_words s)"

lemma allowed_bash_covered_witness:
  "subcommands (parse_bash demo_shlex ''cargo test; ls'') \<noteq> []"
proof -
  let ?e = "engine_new Default [] [''Bash(cargo test:*)'', ''Bash(ls)''] []" and ?cmd = "''cargo test; ls''"
  have f: "\<not> is_catastrophic_cmd ?cmd" "\<not> unparseable (parse_bash demo_shlex ?cmd)" "\<not> is_always_ask ?cmd"
    "\<not> matches_some demo_shlex (parse_rules []) (subcommands (parse_bash demo_shlex ?cmd))"
    "covers_all demo_shlex (parse_rules [''Bash(cargo test:*)'', ''Bash(ls)'']) (subcommands (parse_bash demo_shlex ?cmd))"
    "valid_utf8 ?cmd" "\<not> contains_str squote ?cmd" "\<not> contains_str dquote ?cmd"
    by code_simp+
  have c: "command_of (JObject [(''command'', JString ?cmd)]) = Some ?cmd" by (simp add: command_of_def)
  have "engine_check demo_shlex (\<lambda>_ _. None) ?e ''Bash'' (JObject [(''command'', JString ?cmd)]) ''/'' [] [] = Allow"
    unfolding engine_check_Bash [OF c] using f(1-5) by (simp add: bash_check_Allow_iff)
  from allowed_bash_covered [OF _ c this f(6-8)] show ?thesis by simp
qed

text \<open>
  C24: in plan mode a tool that changes state is never allowed unless a session grant or an allow
  rule covers it, and a tool other than \<open>Bash\<close> that no rule covers is denied.
\<close>

theorem plan_mode_blocks_mutation:
  assumes "engine_mode e = Plan" and "is_mutating tool"
    and "\<forall>r \<in> set (parse_rules grants) \<union> set (pe_allow e). \<not> rule_covers (rule_tool r) tool"
  shows "engine_check shlex glob e tool input cwd roots grants \<noteq> Allow
    \<and> (tool \<noteq> ''Bash'' \<and> (\<forall>r \<in> set (pe_ask e). \<not> rule_covers (rule_tool r) tool)
       \<longrightarrow> (\<exists>r. engine_check shlex glob e tool input cwd roots grants = Deny r))"
proof (cases "tool = ''Bash''")
  case False
  have rm: "tool \<noteq> ''ReadMany''" using assms(2) by (auto simp: is_mutating_def is_mcp_def)
  have none: "\<not> list_ex (applies glob tool input cwd) rules"
    if "\<forall>r \<in> set rules. \<not> rule_covers (rule_tool r) tool" for rules
    using that by (auto simp: list_ex_iff applies_def)
  show ?thesis
    using assms False rm none [of "parse_rules grants"] none [of "pe_allow e"] none [of "pe_ask e"]
    by (simp add: engine_check_def check_rules_def Let_def)
next
  case True
  have nocov: "\<not> covers_all shlex rules subs" if "\<forall>r \<in> set rules. rule_tool r \<noteq> ''Bash''" for rules subs
    using covers_all_matches [of shlex rules subs "hd subs"] that by (auto simp: covers_all_def)
  have "\<forall>r \<in> set (parse_rules grants) \<union> set (pe_allow e). rule_tool r \<noteq> ''Bash''"
    using assms(3) True by (auto simp: rule_covers_def)
  then have "bash_check shlex e cmd (parse_rules grants) Plan \<noteq> Allow" for cmd
    using nocov by (simp add: bash_check_Allow_iff)
  then show ?thesis
    using True assms(1) by (simp add: engine_check_def check_rules_def Let_def split: option.split)
qed

lemma plan_mode_blocks_mutation_witness:
  "\<exists>r. engine_check demo_shlex (\<lambda>_ _. None) (engine_new Plan [] [''Bash(ls)''] []) ''Write''
     (JObject []) ''/'' [] [''Bash(git status)''] = Deny r"
proof -
  have rules: "\<forall>r \<in> set (parse_rules [''Bash(git status)'']) \<union> set (parse_rules [''Bash(ls)'']). \<not> rule_covers (rule_tool r) ''Write''"
    and "\<forall>r \<in> set (parse_rules []). \<not> rule_covers (rule_tool r) ''Write''"
    by code_simp+
  then show ?thesis
    using plan_mode_blocks_mutation [of "engine_new Plan [] [''Bash(ls)''] []" "''Write''" "[''Bash(git status)'']"]
    by (simp add: is_mutating_def)
qed

text \<open>
  When no rule or grant names \<open>ReadMany\<close> itself, a batched read is allowed exactly when a
  \<open>Read\<close> of each of its paths is: batching cannot get around the rules for \<open>Read\<close>.
\<close>

theorem read_many_is_reads:
  assumes "check_rules shlex glob e ''ReadMany'' input cwd grants = None"
    and "json_get input ''file_paths'' = Some (JArray paths)"
  shows "engine_check shlex glob e ''ReadMany'' input cwd roots grants = Allow \<longleftrightarrow>
    (\<forall>p. JString p \<in> set paths \<longrightarrow>
       engine_check shlex glob e ''Read'' (JObject [(''file_path'', JString p)]) cwd roots grants = Allow)"
proof -
  have strings: "set (List.map_filter as_str paths) = {p. JString p \<in> set paths}"
  proof (induction paths)
    case (Cons j js)
    then show ?case by (cases j) (auto simp: map_filter_def)
  qed (simp add: map_filter_def)
  show ?thesis
    using assms strings
    by (simp add: engine_check_def [of _ _ _ "''ReadMany''"] check_reads_Allow engine_check_Read)
qed

lemma read_many_is_reads_witness:
  "engine_check demo_shlex (\<lambda>s p. Some (s = p)) (engine_new Default [''Read(secret)''] [] []) ''ReadMany''
      (JObject [(''file_paths'', JArray [JString ''a'', JString ''secret''])]) ''/repo'' [] [] = Allow \<longleftrightarrow>
    (\<forall>p. JString p \<in> set [JString ''a'', JString ''secret''] \<longrightarrow>
       engine_check demo_shlex (\<lambda>s p. Some (s = p)) (engine_new Default [''Read(secret)''] [] []) ''Read''
         (JObject [(''file_path'', JString p)]) ''/repo'' [] [] = Allow)"
  by (rule read_many_is_reads) code_simp+

text \<open>
  The spelling of a mode in the settings and its code in the engine's atomic both read back as
  the mode, the engine is in the mode it was last set to, and \<open>Auto\<close> keeps the code 3.
\<close>

theorem mode_round_trips:
  "mode_parse (mode_as_str m) = m \<and> mode_from_u8 (mode_to_u8 m) = m
   \<and> engine_mode (set_mode m e) = m \<and> engine_mode (engine_new m dny alw ask) = m \<and> mode_to_u8 Auto = 3"
  by (cases m) (simp_all add: mode_parse_def mode_from_u8_def)

text \<open>
  Deny rules for \<open>Bash\<close> without a specifier have no effect: removing them changes no decision.
\<close>

theorem bare_bash_deny_has_no_effect:
  "engine_check shlex glob (e\<lparr>pe_deny := filter (\<lambda>r. \<not> (rule_tool r = ''Bash'' \<and> rule_spec r = None)) (pe_deny e)\<rparr>)
     ''Bash'' input cwd roots grants
   = engine_check shlex glob e ''Bash'' input cwd roots grants"
proof -
  have "bash_specs (filter (\<lambda>r. \<not> (rule_tool r = ''Bash'' \<and> rule_spec r = None)) rules) = bash_specs rules" for rules
    by (induction rules) (auto simp: bash_specs_def map_filter_def)
  then have "matches_some shlex (filter (\<lambda>r. \<not> (rule_tool r = ''Bash'' \<and> rule_spec r = None)) rules) subs
      = matches_some shlex rules subs" for rules subs
    by (simp add: matches_some_def)
  then show ?thesis
    by (simp add: engine_check_def check_rules_def bash_check_def engine_mode_def Let_def split: option.split)
qed

text \<open>The command line \<open>echo \" ; rm x\<close> with the backslash and the quotation mark as they are.\<close>

definition hidden_cmd :: string where
  "hidden_cmd = ''echo '' @ backslash @ dquote @ '' ; rm x''"

definition hidden_tokens :: "string list" where
  "hidden_tokens = [''echo'', dquote, '';'', ''rm'', ''x'']"

lemma hidden_cmd_facts:
  "split_subcommands hidden_cmd = [hidden_cmd]" "trim hidden_cmd = hidden_cmd" "hidden_cmd \<noteq> []"
  "\<not> reenters_shell hidden_cmd" "\<not> contains_str ''$'' hidden_cmd" "\<not> contains_str ''`'' hidden_cmd"
  "\<not> is_catastrophic_cmd hidden_cmd" "\<not> is_always_ask hidden_cmd" "hidden_tokens \<noteq> []"
  "take 1 hidden_tokens = [''echo'']" "1 \<le> length hidden_tokens"
  by code_simp+

text \<open>
  C40: outside quotes the splitter does not see a backslash, so an escaped quotation mark opens a
  quoted region for it: the separator after it is not a split point, and an allow rule for \<open>echo\<close>
  allows a command line that runs a second program. The hypotheses are what \<open>shlex::split\<close> gives
  for the two texts.
\<close>

theorem escaped_quote_hides_separator:
  assumes "shlex hidden_cmd = Some hidden_tokens" and "shlex ''echo'' = Some [''echo'']"
  shows "engine_check shlex glob (engine_new Default [] [''Bash(echo:*)''] []) ''Bash''
      (JObject [(''command'', JString hidden_cmd)]) cwd roots [] = Allow"
proof -
  let ?e = "engine_new Default [] [''Bash(echo:*)''] []" and ?sub = "\<lparr>raw = hidden_cmd, tokens = hidden_tokens\<rparr>"
  have parsed: "parse_bash shlex hidden_cmd = \<lparr>subcommands = [?sub], unparseable = False\<rparr>"
    using assms(1) by (simp add: parse_bash_def hidden_cmd_facts)
  have "parse_rules [''Bash(echo:*)''] = [\<lparr>rule_tool = ''Bash'', rule_spec = Some ''echo:*''\<rparr>]" and gr: "parse_rules [] = []"
    by code_simp+
  then have alw: "pe_allow ?e = [\<lparr>rule_tool = ''Bash'', rule_spec = Some ''echo:*''\<rparr>]" and dny: "pe_deny ?e = []"
    by simp_all
  have "strip_suffix '':*'' ''echo:*'' = Some ''echo''" by code_simp
  then have match: "rule_matches shlex ''echo:*'' ?sub"
    using assms(2) hidden_cmd_facts(10,11) by (simp add: rule_matches_def)
  have cov: "covers_all shlex (pe_allow ?e) [?sub]"
    using match unfolding alw by (simp add: covers_all_def bash_specs_def map_filter_def)
  have "\<not> matches_some shlex (pe_deny ?e) [?sub]"
    unfolding dny by (simp add: matches_some_def bash_specs_def map_filter_def)
  then have "bash_check shlex ?e hidden_cmd [] Default = Allow"
    using cov bash_check_Allow_iff [of Default shlex ?e hidden_cmd "[]"] hidden_cmd_facts(7,8) parsed
    by (simp del: engine_new_simps)
  then show ?thesis
    using engine_check_Bash [of "JObject [(''command'', JString hidden_cmd)]" hidden_cmd shlex glob ?e cwd roots "[]"]
    by (simp add: command_of_def gr)
qed

lemma escaped_quote_hides_separator_witness:
  "engine_check (\<lambda>s. Some (if s = hidden_cmd then hidden_tokens else demo_words s)) (\<lambda>_ _. None)
      (engine_new Default [] [''Bash(echo:*)''] []) ''Bash''
      (JObject [(''command'', JString hidden_cmd)]) ''/'' [] [] = Allow"
  by (rule escaped_quote_hides_separator) code_simp+

end
