(* ===== verification/Change_Journal.thy ===== *)
theory Change_Journal
  imports Paths Turns "HOL-Library.Countable"
begin

text \<open>
  The per-session state of \<open>crates/rc-core/src/state.rs\<close> (the read registry, the segmented log of
  a background shell, the rewind journal) and the restoration of \<open>crates/rc-session/src/rewind.rs\<close>.
  Files are a map from paths to bytes. Every disk operation takes an argument that says how far
  it got: the file could not be opened, only the first \<open>k\<close> bytes reached it, or all did. \<open>hash\<close> is \<open>blake3\<close> in hexadecimal; \<open>to_json\<close> and \<open>from_json\<close> are \<open>serde_json\<close> on journal
  entries. Turn numbers are natural numbers: the counter of the code is a \<open>u64\<close> that grows by
  one per user turn.
\<close>

type_synonym file_system = "string \<rightharpoonup> string"

datatype io = OpenFails | Partial nat | Complete

fun io_bytes :: "io \<Rightarrow> string \<Rightarrow> string option" where
  "io_bytes OpenFails bytes = None"
| "io_bytes (Partial k) bytes = Some (take k bytes)"
| "io_bytes Complete bytes = Some bytes"

section \<open>The read registry\<close>

record read_registry =
  entries :: "string \<rightharpoonup> (nat \<times> string)"

definition read_registry_new :: read_registry where
  "read_registry_new = \<lparr>entries = Map.empty\<rparr>"

definition registry_record :: "string \<Rightarrow> nat \<Rightarrow> string \<Rightarrow> read_registry \<Rightarrow> read_registry" where
  "registry_record path mtime hash r = r\<lparr>entries := (entries r)(path \<mapsto> (mtime, hash))\<rparr>"

definition has_read :: "string \<Rightarrow> read_registry \<Rightarrow> bool" where
  "has_read path r \<longleftrightarrow> entries r path \<noteq> None"

definition registry_lookup :: "string \<Rightarrow> read_registry \<Rightarrow> (nat \<times> string) option" where
  "registry_lookup path r = entries r path"

section \<open>The segmented log\<close>

definition segment_bytes :: u64 where
  "segment_bytes = 4 * 1024 * 1024"

text \<open>\<open>sl_open\<close>: the writer is there; \<open>sl_current\<close> and \<open>sl_previous\<close> are the two files.\<close>

record segmented_log =
  sl_path :: string
  sl_open :: bool
  sl_written :: u64
  sl_current :: string
  sl_previous :: "string option"

text \<open>
  What the steps of \<open>rotate\<close> do: all succeed, or the first that fails; \<open>RenameFails\<close> says whether
  the earlier segment had been removed.
\<close>

datatype rotation = RotateOk | FlushFails | RenameFails bool | CreateFails | MarkerFails

datatype log_error = LogIo | LogPanic

definition log_new :: "string \<Rightarrow> string \<Rightarrow> segmented_log" where
  "log_new path existing =
     \<lparr>sl_path = path, sl_open = True, sl_written = of_nat (length existing), sl_current = existing, sl_previous = None\<rparr>"

definition rotation_marker :: "string \<Rightarrow> string" where
  "rotation_marker path = ''[log rotated; previous segment: '' @ path @ ''.1'' @ '']'' @ newline"

definition rotated :: "segmented_log \<Rightarrow> segmented_log" where
  "rotated l =
     l\<lparr>sl_open := True, sl_previous := Some (sl_current l), sl_current := rotation_marker (sl_path l),
       sl_written := of_nat (length (rotation_marker (sl_path l)))\<rparr>"

fun rotate :: "rotation \<Rightarrow> segmented_log \<Rightarrow> (log_error + unit) \<times> segmented_log" where
  "rotate RotateOk l = (Inr (), rotated l)"
| "rotate FlushFails l = (if sl_open l then (Inl LogIo, l\<lparr>sl_open := False\<rparr>) else (Inr (), rotated l))"
| "rotate (RenameFails removed) l =
     (Inl LogIo, l\<lparr>sl_open := False, sl_previous := (if removed then None else sl_previous l)\<rparr>)"
| "rotate CreateFails l = (Inl LogIo, l\<lparr>sl_open := False, sl_previous := Some (sl_current l), sl_current := []\<rparr>)"
| "rotate MarkerFails l = (Inl LogIo, l\<lparr>sl_open := False, sl_previous := Some (sl_current l), sl_current := []\<rparr>)"

text \<open>\<open>Write::write\<close>; \<open>accepted\<close> is the number of bytes the buffered writer takes.\<close>

definition log_append :: "nat \<Rightarrow> string \<Rightarrow> segmented_log \<Rightarrow> (log_error + nat) \<times> segmented_log" where
  "log_append accepted bytes l =
     (if \<not> sl_open l then (Inl LogPanic, l)
      else let k = min accepted (length bytes) in
           (Inr k, l\<lparr>sl_current := sl_current l @ take k bytes, sl_written := saturating_add (sl_written l) (of_nat k)\<rparr>))"

definition log_write :: "rotation \<Rightarrow> nat \<Rightarrow> string \<Rightarrow> segmented_log \<Rightarrow> (log_error + nat) \<times> segmented_log" where
  "log_write rot accepted bytes l =
     (if 0 < sl_written l \<and> saturating_add (sl_written l) (of_nat (length bytes)) > segment_bytes
      then case rotate rot l of
             (Inl e, l') \<Rightarrow> (Inl e, l')
           | (Inr _, l') \<Rightarrow> log_append accepted bytes l'
      else log_append accepted bytes l)"

definition log_flush :: "segmented_log \<Rightarrow> log_error + unit" where
  "log_flush l = (if sl_open l then Inr () else Inl LogPanic)"

section \<open>The rewind journal\<close>

datatype file_snapshot = Cas (cas_path: string) (cas_len: nat) | Inline (inline_bytes: string)

record change_record =
  cr_path :: string
  cr_prior :: "file_snapshot option"
  cr_turn :: nat

datatype change_storage = Temporary (temp_dir: "string option") | Durable (dur_root: string) (dur_journal: string)

record change_journal =
  records :: "change_record list"
  jturn :: nat
  storage :: change_storage

datatype durable_entry =
    TurnEntry nat
  | ChangeEntry (ce_path: string) (ce_prior_exists: bool) (ce_digest: "string option") (ce_len: "nat option") (ce_turn: nat)

definition snapshot_read :: "file_system \<Rightarrow> file_snapshot \<Rightarrow> string option" where
  "snapshot_read fs s =
     (case s of
        Cas path len \<Rightarrow> (case fs path of Some bytes \<Rightarrow> if length bytes \<noteq> len then None else Some bytes | None \<Rightarrow> None)
      | Inline bytes \<Rightarrow> Some bytes)"

definition write_file :: "io \<Rightarrow> string \<Rightarrow> string \<Rightarrow> file_system \<Rightarrow> bool \<times> file_system" where
  "write_file i path bytes fs =
     (case io_bytes i bytes of None \<Rightarrow> (False, fs) | Some out \<Rightarrow> (out = bytes, fs(path \<mapsto> out)))"

definition blobs_dir :: "string \<Rightarrow> string" where
  "blobs_dir root = path_join root ''blobs''"

definition storage_dir :: "change_storage \<Rightarrow> string option" where
  "storage_dir s = (case s of Temporary d \<Rightarrow> d | Durable root _ \<Rightarrow> Some (blobs_dir root))"

definition store_snapshot ::
  "(string \<Rightarrow> string) \<Rightarrow> io \<Rightarrow> change_storage \<Rightarrow> string \<Rightarrow> file_system \<Rightarrow> file_snapshot \<times> file_system" where
  "store_snapshot hash i s bytes fs =
     (case storage_dir s of
        None \<Rightarrow> (Inline bytes, fs)
      | Some dir \<Rightarrow>
          (let path = path_join dir (hash bytes);
               (ok, fs) = (if fs path \<noteq> None then (True, fs) else write_file i path bytes fs)
           in if ok \<and> (case fs path of Some c \<Rightarrow> length c = length bytes | None \<Rightarrow> False)
              then (Cas path (length bytes), fs) else (Inline bytes, fs)))"

definition append_durable ::
  "(durable_entry \<Rightarrow> string) \<Rightarrow> io \<Rightarrow> change_storage \<Rightarrow> durable_entry \<Rightarrow> file_system \<Rightarrow> file_system" where
  "append_durable to_json i s e fs =
     (case s of
        Temporary _ \<Rightarrow> fs
      | Durable _ journal \<Rightarrow>
          (case io_bytes i (to_json e @ newline) of
             None \<Rightarrow> fs
           | Some out \<Rightarrow> fs(journal \<mapsto> unwrap_or [] (fs journal) @ out)))"

definition snapshot_reference :: "file_snapshot option \<Rightarrow> string option \<times> nat option" where
  "snapshot_reference s =
     (case s of Some (Cas path len) \<Rightarrow> (path_file_name path, Some len) | _ \<Rightarrow> (None, None))"

definition advance_turn :: "(durable_entry \<Rightarrow> string) \<Rightarrow> io \<Rightarrow> change_journal \<times> file_system \<Rightarrow> change_journal \<times> file_system" where
  "advance_turn to_json i = (\<lambda>(j, fs).
     (let j = j\<lparr>jturn := jturn j + 1\<rparr> in (j, append_durable to_json i (storage j) (TurnEntry (jturn j)) fs)))"

definition change_entry :: "change_record \<Rightarrow> bool \<Rightarrow> durable_entry" where
  "change_entry r prior_exists =
     ChangeEntry (cr_path r) prior_exists (fst (snapshot_reference (cr_prior r))) (snd (snapshot_reference (cr_prior r))) (cr_turn r)"

definition journal_record ::
  "(string \<Rightarrow> string) \<Rightarrow> (durable_entry \<Rightarrow> string) \<Rightarrow> io \<Rightarrow> io \<Rightarrow> string \<Rightarrow> string option \<Rightarrow>
   change_journal \<times> file_system \<Rightarrow> change_journal \<times> file_system" where
  "journal_record hash to_json i1 i2 path prior = (\<lambda>(j, fs).
     (let (snap, fs) = (case prior of
                          Some bytes \<Rightarrow> (let (s, fs) = store_snapshot hash i1 (storage j) bytes fs in (Some s, fs))
                        | None \<Rightarrow> (None, fs));
          r = \<lparr>cr_path = path, cr_prior = snap, cr_turn = jturn j\<rparr>;
          fs = append_durable to_json i2 (storage j) (change_entry r (prior \<noteq> None)) fs
      in (j\<lparr>records := records j @ [r]\<rparr>, fs)))"

text \<open>
  \<open>rewrite_durable\<close>: the whole journal is written to a temporary file that replaces the journal
  when every step succeeded (\<open>ok\<close>) and is removed otherwise.
\<close>

definition journal_text :: "(durable_entry \<Rightarrow> string) \<Rightarrow> change_journal \<Rightarrow> string" where
  "journal_text to_json j =
     concat (map (\<lambda>e. to_json e @ newline)
       (TurnEntry (jturn j) # map (\<lambda>r. change_entry r (cr_prior r \<noteq> None)) (records j)))"

definition rewrite_durable :: "(durable_entry \<Rightarrow> string) \<Rightarrow> bool \<Rightarrow> change_journal \<Rightarrow> file_system \<Rightarrow> file_system" where
  "rewrite_durable to_json ok j fs =
     (case storage j of
        Temporary _ \<Rightarrow> fs
      | Durable _ journal \<Rightarrow> if ok then fs(journal \<mapsto> journal_text to_json j) else fs)"

definition rewind ::
  "(durable_entry \<Rightarrow> string) \<Rightarrow> bool \<Rightarrow> nat \<Rightarrow> change_journal \<times> file_system \<Rightarrow>
   change_record list \<times> change_journal \<times> file_system" where
  "rewind to_json ok n = (\<lambda>(j, fs).
     (if n = 0 \<or> records j = [] then ([], j, fs)
      else let earliest = (jturn j - n) + 1;
               taken = filter (\<lambda>r. earliest \<le> cr_turn r) (records j);
               keep = filter (\<lambda>r. \<not> earliest \<le> cr_turn r) (records j);
               j = j\<lparr>records := keep, jturn := jturn j - n\<rparr>
           in (rev taken, j, rewrite_durable to_json ok j fs)))"

text \<open>\<open>BufRead::lines\<close>: the pieces between newlines, without an empty last piece.\<close>

fun file_lines :: "string \<Rightarrow> string list" where
  "file_lines [] = []"
| "file_lines (c # cs) =
     (if [c] = newline then [] # file_lines cs
      else case file_lines cs of [] \<Rightarrow> [[c]]
           | l # ls \<Rightarrow> (c # l) # ls)"

definition replay_prior :: "string \<Rightarrow> string option \<Rightarrow> nat option \<Rightarrow> file_snapshot option" where
  "replay_prior blobs digest len =
     (case (digest, len) of (Some d, Some n) \<Rightarrow> Some (Cas (path_join blobs d) n) | _ \<Rightarrow> None)"

fun replay :: "(string \<Rightarrow> durable_entry option) \<Rightarrow> string \<Rightarrow> string list \<Rightarrow> change_record list \<times> nat \<Rightarrow> change_record list \<times> nat" where
  "replay from_json blobs [] acc = acc"
| "replay from_json blobs (l # ls) (recs, turn) =
     (case from_json l of
        None \<Rightarrow> (recs, turn)
      | Some (TurnEntry saved) \<Rightarrow> replay from_json blobs ls (recs, saved)
      | Some (ChangeEntry path prior_exists digest len record_turn) \<Rightarrow>
          (let turn = max turn record_turn; prior = replay_prior blobs digest len in
           if prior_exists \<and> prior = None then replay from_json blobs ls (recs, turn)
           else replay from_json blobs ls (recs @ [\<lparr>cr_path = path, cr_prior = prior, cr_turn = record_turn\<rparr>], turn)))"

definition journal_path :: "string \<Rightarrow> string" where
  "journal_path root = path_join root ''rewind.jsonl''"

definition durable :: "(string \<Rightarrow> durable_entry option) \<Rightarrow> string \<Rightarrow> file_system \<Rightarrow> change_journal" where
  "durable from_json root fs =
     (let (recs, turn) = (case fs (journal_path root) of
                            Some text \<Rightarrow> replay from_json (blobs_dir root) (file_lines text) ([], 0)
                          | None \<Rightarrow> ([], 0))
      in \<lparr>records = recs, jturn = turn, storage = Durable root (journal_path root)\<rparr>)"

section \<open>Restoring files\<close>

text \<open>
  \<open>restore_files\<close> on the user's files. \<open>fate i p\<close> says how far the write or the removal of \<open>p\<close> for the \<open>i\<close>th record gets: a
  write that fails after it opened the file leaves the file truncated, and a record whose snapshot or file cannot be opened
  changes nothing.
\<close>

fun restore_files ::
  "file_system \<Rightarrow> (nat \<Rightarrow> string \<Rightarrow> io) \<Rightarrow> change_record list \<Rightarrow> string list \<Rightarrow> file_system \<Rightarrow> string list \<times> file_system" where
  "restore_files fs fate [] restored files = (restored, files)"
| "restore_files fs fate (r # rs) restored files =
     (let path = cr_path r;
          (ok, files) =
            (case cr_prior r of
               Some snapshot \<Rightarrow>
                 (case snapshot_read fs snapshot of
                    Some bytes \<Rightarrow> write_file (fate 0 path) path bytes files
                  | None \<Rightarrow> (False, files))
             | None \<Rightarrow>
                 if files path \<noteq> None \<and> fate 0 path \<noteq> Complete then (False, files) else (True, files(path := None)))
      in restore_files fs (\<lambda>i. fate (Suc i)) rs (if ok then restored @ [path] else restored) files)"

text \<open>\<open>ChangeJournal::default\<close>: the directory for the blobs may be missing.\<close>

definition journal_new :: "string option \<Rightarrow> change_journal" where
  "journal_new dir = \<lparr>records = [], jturn = 0, storage = Temporary dir\<rparr>"

text \<open>
  The bytes that \<open>Write\<close> of \<open>crates/rc-tools/src/write.rs\<close> passes to the journal: the contents that
  \<open>read_to_string\<close> gives; \<open>utf8\<close> is the validity test of \<open>std::str::from_utf8\<close>.
\<close>

definition write_prior :: "(string \<Rightarrow> bool) \<Rightarrow> string option \<Rightarrow> string option" where
  "write_prior utf8 old = (case old of Some b \<Rightarrow> if utf8 b then Some b else None | None \<Rightarrow> None)"

definition rewind_session ::
  "(durable_entry \<Rightarrow> string) \<Rightarrow> bool \<Rightarrow> (nat \<Rightarrow> string \<Rightarrow> io) \<Rightarrow> nat \<Rightarrow> change_journal \<times> file_system \<Rightarrow> file_system \<Rightarrow>
   (string list \<times> nat) \<times> (change_journal \<times> file_system) \<times> file_system" where
  "rewind_session to_json rewrite_ok fate n jf files =
     (let (recs, j, fs) = rewind to_json rewrite_ok n jf;
          (restored, files) = restore_files fs fate recs [] files
      in ((restored, n), (j, fs), files))"

section \<open>Facts about the log\<close>

definition log_inv :: "segmented_log \<Rightarrow> bool" where
  "log_inv l \<longleftrightarrow> length (sl_current l) \<le> unat (sl_written l) \<and> sl_written l \<le> segment_bytes"

lemma segment_bytes_nat: "unat segment_bytes = 4194304"
  by (simp add: segment_bytes_def)

lemma unat_length: "n \<le> 4194304 \<Longrightarrow> unat (of_nat n :: u64) = n"
  by (simp add: unsigned_of_nat take_bit_nat_eq_self)

lemma log_append_inv:
  assumes "log_inv l" and "unat (sl_written l) + length bytes \<le> 4194304"
  shows "log_inv (snd (log_append acc bytes l))"
proof -
  have "unat (saturating_add (sl_written l) (of_nat (min acc (length bytes)))) = unat (sl_written l) + min acc (length bytes)"
    using assms(2) by (simp add: sat_simps unat_length)
  then show ?thesis
    using assms by (auto simp: log_append_def log_inv_def word_le_nat_alt segment_bytes_nat Let_def)
qed

lemma log_write_inv:
  assumes inv: "log_inv l" and fits: "length (rotation_marker (sl_path l)) + length bytes \<le> 4194304"
  shows "log_inv (snd (log_write rot acc bytes l))" and "sl_path (snd (log_write rot acc bytes l)) = sl_path l"
proof -
  have keep: "sl_path (snd (log_append acc bytes m)) = sl_path m" for m
    by (simp add: log_append_def Let_def)
  have w: "unat (sl_written (rotated l)) = length (rotation_marker (sl_path l))" and rot_path: "sl_path (rotated l) = sl_path l"
    using fits by (simp_all add: rotated_def unat_length)
  have "log_inv (rotated l)"
    using fits w unfolding log_inv_def word_le_nat_alt segment_bytes_nat by (simp add: rotated_def)
  then have rot_inv: "log_inv (snd (log_append acc bytes (rotated l)))"
    using fits w by (intro log_append_inv) simp_all
  let ?full = "0 < sl_written l \<and> saturating_add (sl_written l) (of_nat (length bytes)) > segment_bytes"
  have room: "unat (sl_written l) + length bytes \<le> 4194304" if "\<not> ?full"
  proof (cases "sl_written l = 0")
    case True
    with fits show ?thesis by simp
  next
    case False
    with that have "saturating_add (sl_written l) (of_nat (length bytes)) \<le> segment_bytes"
      by (simp add: word_neq_0_conv not_less)
    then show ?thesis using fits by (simp add: word_le_nat_alt sat_simps unat_length segment_bytes_nat)
  qed
  show "log_inv (snd (log_write rot acc bytes l))"
    using inv rot_inv log_append_inv [OF inv room]
    by (cases rot) (auto simp: log_write_def log_inv_def)
  show "sl_path (snd (log_write rot acc bytes l)) = sl_path l"
    by (cases rot) (auto simp: log_write_def keep rot_path)
qed

section \<open>Facts about the journal file\<close>

definition line_free :: "string \<Rightarrow> bool" where
  "line_free s \<longleftrightarrow> (\<forall>c \<in> set s. [c] \<noteq> newline)"

lemma newline_split: "file_lines (newline @ rest) = [] # file_lines rest"
  by (simp add: newline_def)

lemma file_lines_line: "line_free l \<Longrightarrow> file_lines (l @ newline @ rest) = l # file_lines rest"
  by (induction l) (simp_all add: line_free_def newline_split)

lemma file_lines_text:
  assumes "\<And>e. line_free (to_json e)"
  shows "file_lines (concat (map (\<lambda>e. to_json e @ newline) es) @ rest) = map to_json es @ file_lines rest"
  by (induction es) (simp_all add: file_lines_line [OF assms])

text \<open>The effect of one parsed entry.\<close>

fun apply_entry :: "string \<Rightarrow> durable_entry \<Rightarrow> change_record list \<times> nat \<Rightarrow> change_record list \<times> nat" where
  "apply_entry blobs (TurnEntry saved) (recs, turn) = (recs, saved)"
| "apply_entry blobs (ChangeEntry path prior_exists digest len record_turn) (recs, turn) =
     (if prior_exists \<and> replay_prior blobs digest len = None then (recs, max turn record_turn)
      else (recs @ [\<lparr>cr_path = path, cr_prior = replay_prior blobs digest len, cr_turn = record_turn\<rparr>], max turn record_turn))"

lemma replay_entries:
  assumes "\<And>e. from_json (to_json e) = Some e"
  shows "replay from_json blobs (map to_json es @ ls) acc = replay from_json blobs ls (fold (apply_entry blobs) es acc)"
proof (induction es arbitrary: acc)
  case Nil
  then show ?case by simp
next
  case (Cons e es)
  obtain recs turn where acc: "acc = (recs, turn)" by fastforce
  show ?case by (cases e) (simp_all add: acc assms Cons.IH Let_def)
qed

definition digests_ok :: "(string \<Rightarrow> string) \<Rightarrow> bool" where
  "digests_ok hash \<longleftrightarrow> (\<forall>b. slash_free (hash b) \<and> \<not> skipped (hash b) \<and> hash b \<noteq> ''..'')"

lemma blobs_absolute: "is_absolute root \<Longrightarrow> is_absolute (blobs_dir root)"
  by (simp add: blobs_dir_def components_push slash_free_def skipped_def)

lemma blob_components:
  assumes "is_absolute root" and "digests_ok hash"
  shows "components (path_join (blobs_dir root) (hash b)) = components root @ [Normal ''blobs'', Normal (hash b)]"
  using assms components_push [OF blobs_absolute [OF assms(1)], of "hash b"]
  by (simp add: digests_ok_def blobs_dir_def components_push slash_free_def skipped_def)

lemma blob_file_name:
  assumes "is_absolute root" and "digests_ok hash"
  shows "path_file_name (path_join (blobs_dir root) (hash b)) = Some (hash b)"
  by (simp add: path_file_name_def blob_components [OF assms])

lemma blob_not_journal:
  assumes "is_absolute root" and "digests_ok hash"
  shows "path_join (blobs_dir root) (hash b) \<noteq> journal_path root"
proof -
  have "components (journal_path root) = components root @ [Normal ''rewind.jsonl'']"
    using assms(1) by (simp add: journal_path_def components_push slash_free_def skipped_def)
  then have "components (path_join (blobs_dir root) (hash b)) \<noteq> components (journal_path root)"
    by (simp add: blob_components [OF assms])
  then show ?thesis by metis
qed

text \<open>A record that survives a restart: created files and files whose bytes are in the store.\<close>

definition replayable :: "change_record \<Rightarrow> bool" where
  "replayable r \<longleftrightarrow> (case cr_prior r of Some (Inline _) \<Rightarrow> False | _ \<Rightarrow> True)"

definition stored_in :: "string \<Rightarrow> change_record \<Rightarrow> bool" where
  "stored_in blobs r \<longleftrightarrow>
     (case cr_prior r of
        Some (Cas p n) \<Rightarrow> (case path_file_name p of Some d \<Rightarrow> p = path_join blobs d | None \<Rightarrow> False)
      | _ \<Rightarrow> True)"

lemma apply_change_entry:
  assumes "stored_in blobs r" and "cr_turn r \<le> turn"
  shows "apply_entry blobs (change_entry r (cr_prior r \<noteq> None)) (recs, turn) =
     (if replayable r then recs @ [r] else recs, turn)"
  using assms
  by (cases r) (auto simp: change_entry_def snapshot_reference_def replay_prior_def replayable_def stored_in_def
      split: option.splits file_snapshot.splits)

lemma fold_change_entries:
  assumes "\<forall>r \<in> set rs. stored_in blobs r \<and> cr_turn r \<le> turn"
  shows "fold (apply_entry blobs) (map (\<lambda>r. change_entry r (cr_prior r \<noteq> None)) rs) (recs, turn) =
     (recs @ filter replayable rs, turn)"
  using assms by (induction rs arbitrary: recs) (simp_all add: apply_change_entry del: apply_entry.simps not_None_eq)

text \<open>The invariant that ties the journal in memory to the file.\<close>

definition journal_inv :: "(durable_entry \<Rightarrow> string) \<Rightarrow> string \<Rightarrow> change_journal \<times> file_system \<Rightarrow> bool" where
  "journal_inv to_json root jf \<longleftrightarrow>
     storage (fst jf) = Durable root (journal_path root)
     \<and> (\<forall>r \<in> set (records (fst jf)). stored_in (blobs_dir root) r \<and> cr_turn r \<le> jturn (fst jf))
     \<and> (\<exists>es. unwrap_or [] (snd jf (journal_path root)) = concat (map (\<lambda>e. to_json e @ newline) es)
             \<and> fold (apply_entry (blobs_dir root)) es ([], 0) = (filter replayable (records (fst jf)), jturn (fst jf)))"

lemma journal_invI:
  assumes "storage j = Durable root (journal_path root)"
    and "\<forall>r \<in> set (records j). stored_in (blobs_dir root) r \<and> cr_turn r \<le> jturn j"
    and "unwrap_or [] (fs (journal_path root)) = concat (map (\<lambda>e. to_json e @ newline) es)"
    and "fold (apply_entry (blobs_dir root)) es ([], 0) = (filter replayable (records j), jturn j)"
  shows "journal_inv to_json root (j, fs)"
  using assms by (auto simp: journal_inv_def)

lemma journal_inv_reopen:
  assumes "journal_inv to_json root (j, fs)"
    and "\<And>e. line_free (to_json e)" and "\<And>e. from_json (to_json e) = Some e"
  shows "durable from_json root fs = j\<lparr>records := filter replayable (records j)\<rparr>"
proof -
  obtain es where es: "unwrap_or [] (fs (journal_path root)) = concat (map (\<lambda>e. to_json e @ newline) es)"
    "fold (apply_entry (blobs_dir root)) es ([], 0) = (filter replayable (records j), jturn j)"
    and st: "storage j = Durable root (journal_path root)"
    using assms(1) by (auto simp: journal_inv_def)
  have "replay from_json (blobs_dir root) (file_lines (unwrap_or [] (fs (journal_path root)))) ([], 0)
      = (filter replayable (records j), jturn j)"
    using file_lines_text [OF assms(2), where es = es and rest = "[]"] replay_entries [OF assms(3), where es = es and ls = "[]"] es
    by simp
  then show ?thesis
    using st by (cases "fs (journal_path root)") (auto simp: durable_def unwrap_or_def Let_def)
qed

lemma append_durable_entry:
  "append_durable to_json Complete (Durable root jp) e fs = fs(jp \<mapsto> unwrap_or [] (fs jp) @ to_json e @ newline)"
  by (simp add: append_durable_def)

lemma journal_inv_append:
  assumes "journal_inv to_json root (j, fs)"
    and "storage j' = storage j" and "\<forall>r \<in> set (records j'). stored_in (blobs_dir root) r \<and> cr_turn r \<le> jturn j'"
    and "apply_entry (blobs_dir root) e (filter replayable (records j), jturn j) = (filter replayable (records j'), jturn j')"
    and "fs' (journal_path root) = fs (journal_path root)"
  shows "journal_inv to_json root (j', append_durable to_json Complete (storage j') e fs')"
proof -
  obtain es where es: "unwrap_or [] (fs (journal_path root)) = concat (map (\<lambda>e. to_json e @ newline) es)"
    "fold (apply_entry (blobs_dir root)) es ([], 0) = (filter replayable (records j), jturn j)"
    and st: "storage j = Durable root (journal_path root)"
    using assms(1) by (auto simp: journal_inv_def)
  then show ?thesis
    using assms(2-5) st unfolding journal_inv_def
    by (auto simp: append_durable_entry unwrap_or_def intro!: exI [of _ "es @ [e]"])
qed

subsection \<open>Histories of a session's journal\<close>

text \<open>
  What a session does to its journal. A record carries the fate of its blob; appends to the
  journal file and rewrites of it are complete.
\<close>

datatype journal_op = OpAdvance | OpRecord string "string option" io | OpRewind nat

fun run_op :: "(string \<Rightarrow> string) \<Rightarrow> (durable_entry \<Rightarrow> string) \<Rightarrow> journal_op \<Rightarrow> change_journal \<times> file_system \<Rightarrow> change_journal \<times> file_system" where
  "run_op hash to_json OpAdvance jf = advance_turn to_json Complete jf"
| "run_op hash to_json (OpRecord path prior i) jf = journal_record hash to_json i Complete path prior jf"
| "run_op hash to_json (OpRewind n) jf = snd (rewind to_json True n jf)"

lemma store_snapshot_frame:
  assumes "store_snapshot hash i s bytes fs = (snap, fs')" and "storage_dir s = Some dir" and "q \<noteq> path_join dir (hash bytes)"
  shows "fs' q = fs q"
  using assms by (auto simp: store_snapshot_def write_file_def Let_def split: if_splits option.splits prod.splits)

lemma store_snapshot_result:
  assumes "store_snapshot hash i s bytes fs = (snap, fs')"
  shows "snap = Inline bytes \<or> (\<exists>dir. storage_dir s = Some dir \<and> snap = Cas (path_join dir (hash bytes)) (length bytes))"
  using assms by (auto simp: store_snapshot_def Let_def split: if_splits option.splits prod.splits)

lemma journal_inv_op:
  assumes inv: "journal_inv to_json root jf" and root: "is_absolute root" and hash: "digests_ok hash"
  shows "journal_inv to_json root (run_op hash to_json op jf)"
proof -
  obtain j fs where jf: "jf = (j, fs)" by fastforce
  have st: "storage j = Durable root (journal_path root)"
    and recs: "\<forall>r \<in> set (records j). stored_in (blobs_dir root) r \<and> cr_turn r \<le> jturn j"
    using inv by (simp_all add: jf journal_inv_def)
  show ?thesis
  proof (cases op)
    case OpAdvance
    have "journal_inv to_json root (j\<lparr>jturn := jturn j + 1\<rparr>,
        append_durable to_json Complete (storage (j\<lparr>jturn := jturn j + 1\<rparr>)) (TurnEntry (jturn j + 1)) fs)"
      by (rule journal_inv_append [OF inv [unfolded jf]]) (use recs in auto)
    then show ?thesis by (simp add: OpAdvance jf advance_turn_def)
  next
    case (OpRecord path prior i)
    define step where "step = (case prior of
        Some bytes \<Rightarrow> (let (s, fs) = store_snapshot hash i (storage j) bytes fs in (Some s, fs)) | None \<Rightarrow> (None, fs))"
    obtain snap fs' where step': "step = (snap, fs')" by fastforce
    let ?r = "\<lparr>cr_path = path, cr_prior = snap, cr_turn = jturn j\<rparr>"
    have snap: "(prior = None \<and> snap = None \<and> fs' = fs)
        \<or> (\<exists>bytes s. prior = Some bytes \<and> snap = Some s \<and> store_snapshot hash i (storage j) bytes fs = (s, fs'))"
      using step' by (auto simp: step_def split: option.splits prod.splits)
    have dir: "storage_dir (storage j) = Some (blobs_dir root)" by (simp add: st storage_dir_def)
    have frame: "fs' (journal_path root) = fs (journal_path root)"
      using snap store_snapshot_frame [OF _ dir] blob_not_journal [OF root hash] by metis
    have ok: "stored_in (blobs_dir root) ?r"
      using snap store_snapshot_result [of hash i "storage j"] blob_file_name [OF root hash] dir
      by (fastforce simp: stored_in_def)
    have pe: "prior \<noteq> None \<longleftrightarrow> cr_prior ?r \<noteq> None" using snap by auto
    have "journal_inv to_json root (j\<lparr>records := records j @ [?r]\<rparr>,
        append_durable to_json Complete (storage (j\<lparr>records := records j @ [?r]\<rparr>)) (change_entry ?r (cr_prior ?r \<noteq> None)) fs')"
    proof (rule journal_inv_append [OF inv [unfolded jf]])
      show "apply_entry (blobs_dir root) (change_entry ?r (cr_prior ?r \<noteq> None)) (filter replayable (records j), jturn j)
          = (filter replayable (records (j\<lparr>records := records j @ [?r]\<rparr>)), jturn (j\<lparr>records := records j @ [?r]\<rparr>))"
        using apply_change_entry [OF ok, of "jturn j"] by simp
    qed (use recs ok frame in auto)
    then show ?thesis
      using step' pe by (simp add: OpRecord jf journal_record_def step_def Let_def)
  next
    case (OpRewind n)
    show ?thesis
    proof (cases "n = 0 \<or> records j = []")
      case True
      then show ?thesis using inv by (auto simp: OpRewind jf rewind_def)
    next
      case False
      define j' where "j' = j\<lparr>records := filter (\<lambda>r. \<not> (jturn j - n) + 1 \<le> cr_turn r) (records j), jturn := jturn j - n\<rparr>"
      have le: "\<forall>r \<in> set (records j'). stored_in (blobs_dir root) r \<and> cr_turn r \<le> jturn j'"
        using recs by (auto simp: j'_def)
      have "snd (rewind to_json True n jf) = (j', fs(journal_path root \<mapsto> journal_text to_json j'))"
        using False by (simp add: jf rewind_def rewrite_durable_def st j'_def Let_def)
      moreover have fold: "fold (apply_entry (blobs_dir root)) (TurnEntry (jturn j') # map (\<lambda>r. change_entry r (cr_prior r \<noteq> None)) (records j')) ([], 0)
          = (filter replayable (records j'), jturn j')"
        using fold_change_entries [OF le, of "[]"] by simp
      moreover have st': "storage j' = Durable root (journal_path root)" by (simp add: j'_def st)
      moreover have "journal_inv to_json root (j', fs(journal_path root \<mapsto> journal_text to_json j'))"
        by (rule journal_invI [OF st' le _ fold]) (simp add: journal_text_def unwrap_or_def)
      ultimately show ?thesis unfolding OpRewind run_op.simps by (simp only:)
    qed
  qed
qed

lemma journal_inv_run:
  assumes "journal_inv to_json root jf" and "is_absolute root" and "digests_ok hash"
  shows "journal_inv to_json root (fold (run_op hash to_json) ops jf)"
  using assms(1)
proof (induction ops arbitrary: jf)
  case (Cons op ops)
  from Cons.IH [OF journal_inv_op [OF Cons.prems assms(2,3)]] show ?case by simp
qed simp

lemma journal_inv_fresh:
  assumes "fs (journal_path root) = None"
  shows "journal_inv to_json root (durable from_json root fs, fs)"
  by (rule journal_invI [where es = "[]"]) (use assms in \<open>auto simp: durable_def unwrap_or_def\<close>)

subsection \<open>The store of snapshots\<close>

text \<open>
  The bytes of a snapshot can be read back from any later state of the store: the store only
  ever adds blobs.
\<close>

definition blob_at :: "(string \<Rightarrow> string) \<Rightarrow> change_storage \<Rightarrow> string \<Rightarrow> string option" where
  "blob_at hash s b = map_option (\<lambda>dir. path_join dir (hash b)) (storage_dir s)"

definition blobs_ok :: "(string \<Rightarrow> string) \<Rightarrow> string set \<Rightarrow> change_storage \<Rightarrow> file_system \<Rightarrow> bool" where
  "blobs_ok hash S s fs \<longleftrightarrow> (\<forall>b \<in> S. \<forall>p c. blob_at hash s b = Some p \<longrightarrow> fs p = Some c \<longrightarrow> length c = length b \<longrightarrow> c = b)"

definition keeps :: "(string \<Rightarrow> string) \<Rightarrow> change_storage \<Rightarrow> file_system \<Rightarrow> file_system \<Rightarrow> bool" where
  "keeps hash s fs fs' \<longleftrightarrow> (\<forall>b p c. blob_at hash s b = Some p \<longrightarrow> fs p = Some c \<longrightarrow> fs' p = Some c)"

definition snapshot_of :: "(string \<Rightarrow> string) \<Rightarrow> change_storage \<Rightarrow> file_system \<Rightarrow> string \<Rightarrow> file_snapshot \<Rightarrow> bool" where
  "snapshot_of hash s fs b snap \<longleftrightarrow>
     snap = Inline b \<or> (\<exists>p. blob_at hash s b = Some p \<and> snap = Cas p (length b) \<and> fs p = Some b)"

definition store_apart :: "(string \<Rightarrow> string) \<Rightarrow> change_storage \<Rightarrow> bool" where
  "store_apart hash s \<longleftrightarrow> (\<forall>root jp b. s = Durable root jp \<longrightarrow> blob_at hash s b \<noteq> Some jp)"

text \<open>
  A digest has a fixed length, so it cannot tell all byte strings apart: what is asked for is that it tells the contents of
  a given set apart, those that the files have in the run at hand. \<open>blobs_ok\<close> is about the same contents: a blob that is under the digest of one of
  them and has its length is that content.
\<close>

definition collision_free :: "(string \<Rightarrow> string) \<Rightarrow> string set \<Rightarrow> bool" where
  "collision_free hash S \<longleftrightarrow> inj_on hash S \<and> digests_ok hash"

lemma keeps_refl [simp]: "keeps hash s fs fs"
  by (simp add: keeps_def)

lemma keeps_trans: "keeps hash s fs fs' \<Longrightarrow> keeps hash s fs' fs'' \<Longrightarrow> keeps hash s fs fs''"
  by (fastforce simp: keeps_def)

lemma path_join_inj:
  assumes "path_join d a = path_join d b" and "slash_free a" and "slash_free b"
  shows "a = b"
  using assms by (auto simp: path_join_def is_absolute_def slash_free_def prefix_def split: if_splits)

lemma blob_at_inj:
  assumes "collision_free hash S" and "a \<in> S" and "b \<in> S" and "blob_at hash s a = Some p" and "blob_at hash s b = Some p"
  shows "a = b"
proof -
  obtain dir where "path_join dir (hash b) = path_join dir (hash a)" using assms(4,5) by (auto simp: blob_at_def)
  then have "hash b = hash a" by (rule path_join_inj) (use assms(1) in \<open>auto simp: collision_free_def digests_ok_def\<close>)
  then show ?thesis using assms(1-3) inj_onD [of hash S b a] by (simp add: collision_free_def)
qed

lemma snapshot_of_read:
  assumes "snapshot_of hash s fs b snap" and "keeps hash s fs fs'"
  shows "snapshot_read fs' snap = Some b"
  using assms by (auto simp: snapshot_of_def snapshot_read_def keeps_def)

lemma store_snapshot_ok:
  assumes "store_snapshot hash i s b fs = (snap, fs')" and "blobs_ok hash S s fs" and "collision_free hash S" and "b \<in> S"
  shows "snapshot_of hash s fs' b snap" and "blobs_ok hash S s fs'" and "keeps hash s fs fs'"
proof -
  have "snapshot_of hash s fs' b snap \<and> blobs_ok hash S s fs' \<and> keeps hash s fs fs'"
  proof (cases "storage_dir s")
    case None
    then show ?thesis using assms(1,2) by (auto simp: store_snapshot_def snapshot_of_def)
  next
    case (Some dir)
    define p where "p = path_join dir (hash b)"
    have at: "blob_at hash s b = Some p" by (simp add: blob_at_def Some p_def)
    have other: "a = b" if "blob_at hash s a = Some p" and "a \<in> S" for a using blob_at_inj [OF assms(3) that(2) assms(4) that(1) at] .
    consider "fs' = fs" | c where "fs p = None" "fs' = fs(p \<mapsto> c)" "length c = length b \<longrightarrow> c = b"
    proof -
      have "\<exists>k. io_bytes i b = None \<or> io_bytes i b = Some (take k b)" by (cases i) (auto intro: exI [of _ "length b"])
      then show thesis
        using that assms(1) Some
        by (fastforce simp: store_snapshot_def write_file_def p_def [symmetric] Let_def split: if_splits option.splits prod.splits)
    qed
    then have store: "blobs_ok hash S s fs'" "keeps hash s fs fs'"
      using assms(2) other by (cases; simp add: blobs_ok_def keeps_def; metis option.inject option.distinct(1))+
    have "snap = Inline b \<or> (snap = Cas p (length b) \<and> (\<exists>c. fs' p = Some c \<and> length c = length b))"
      using assms(1) Some
      by (auto simp: store_snapshot_def p_def [symmetric] Let_def split: if_splits option.splits prod.splits)
    moreover have "fs' p = Some c \<Longrightarrow> length c = length b \<Longrightarrow> c = b" for c
      by (rule store(1) [unfolded blobs_ok_def, rule_format, OF assms(4) at])
    ultimately show ?thesis using store at by (auto simp: snapshot_of_def)
  qed
  then show "snapshot_of hash s fs' b snap" and "blobs_ok hash S s fs'" and "keeps hash s fs fs'" by blast+
qed

lemma journal_update_keeps:
  assumes "store_apart hash (Durable root jp)"
  shows "keeps hash (Durable root jp) fs (fs(jp \<mapsto> t))"
    and "blobs_ok hash S (Durable root jp) fs \<Longrightarrow> blobs_ok hash S (Durable root jp) (fs(jp \<mapsto> t))"
  using assms by (auto simp: keeps_def blobs_ok_def store_apart_def)

lemma append_durable_keeps:
  assumes "store_apart hash s"
  shows "keeps hash s fs (append_durable to_json i s e fs)"
    and "blobs_ok hash S s fs \<Longrightarrow> blobs_ok hash S s (append_durable to_json i s e fs)"
  using assms
  by (cases s; auto simp: append_durable_def journal_update_keeps split: option.split)+

lemma rewrite_durable_keeps:
  assumes "store_apart hash (storage j)"
  shows "keeps hash (storage j) fs (rewrite_durable to_json ok j fs)"
  using assms by (cases "storage j") (auto simp: rewrite_durable_def journal_update_keeps)

subsection \<open>Edits and their restoration\<close>

text \<open>
  What an agent turn does to the user's files through the mutating file tools: each edit records
  the contents the file had and replaces them. The fate of every disk operation of the journal is
  arbitrary.
\<close>

datatype file_event = EvAdvance io | EvEdit string string io io

fun run_event ::
  "(string \<Rightarrow> string) \<Rightarrow> (durable_entry \<Rightarrow> string) \<Rightarrow> file_event \<Rightarrow>
   (change_journal \<times> file_system) \<times> file_system \<Rightarrow> (change_journal \<times> file_system) \<times> file_system" where
  "run_event hash to_json (EvAdvance i) (jf, files) = (advance_turn to_json i jf, files)"
| "run_event hash to_json (EvEdit path content i1 i2) (jf, files) =
     (journal_record hash to_json i1 i2 path (files path) jf, files(path \<mapsto> content))"

fun advances :: "file_event list \<Rightarrow> nat" where
  "advances [] = 0"
| "advances (EvAdvance _ # es) = Suc (advances es)"
| "advances (EvEdit _ _ _ _ # es) = advances es"

lemma advances_append: "advances (es @ es') = advances es + advances es'"
  by (induction es rule: advances.induct) simp_all

lemma journal_record_step:
  assumes "blobs_ok hash S (storage j) fs" and "store_apart hash (storage j)" and "collision_free hash S" and "set_option prior \<subseteq> S"
    and "journal_record hash to_json i1 i2 path prior (j, fs) = (j', fs')"
  shows "\<exists>snap. j' = j\<lparr>records := records j @ [\<lparr>cr_path = path, cr_prior = snap, cr_turn = jturn j\<rparr>]\<rparr>
     \<and> rel_option (snapshot_of hash (storage j) fs') prior snap"
    and "blobs_ok hash S (storage j) fs'" and "keeps hash (storage j) fs fs'"
proof -
  obtain snap fs1 where step: "(case prior of
      Some bytes \<Rightarrow> (let (s, fs) = store_snapshot hash i1 (storage j) bytes fs in (Some s, fs)) | None \<Rightarrow> (None, fs)) = (snap, fs1)"
    by fastforce
  let ?r = "\<lparr>cr_path = path, cr_prior = snap, cr_turn = jturn j\<rparr>"
  have res: "j' = j\<lparr>records := records j @ [?r]\<rparr>"
    "fs' = append_durable to_json i2 (storage j) (change_entry ?r (prior \<noteq> None)) fs1"
    using assms(5) step by (auto simp: journal_record_def Let_def)
  have app: "keeps hash (storage j) fs1 fs'" "blobs_ok hash S (storage j) fs1 \<Longrightarrow> blobs_ok hash S (storage j) fs'"
    unfolding res(2) using append_durable_keeps [OF assms(2)] by blast+
  have snap: "rel_option (snapshot_of hash (storage j) fs1) prior snap \<and> blobs_ok hash S (storage j) fs1 \<and> keeps hash (storage j) fs fs1"
  proof (cases prior)
    case None
    then show ?thesis using step assms(1) by simp
  next
    case (Some b)
    then obtain s where "store_snapshot hash i1 (storage j) b fs = (s, fs1)" "snap = Some s"
      using step by (auto split: prod.splits)
    then show ?thesis using store_snapshot_ok [OF _ assms(1,3)] assms(4) Some by simp
  qed
  moreover have "snapshot_of hash (storage j) fs1 b s \<Longrightarrow> snapshot_of hash (storage j) fs' b s" for b s
    using app(1) by (auto simp: snapshot_of_def keeps_def)
  ultimately have "rel_option (snapshot_of hash (storage j) fs') prior snap"
    by (auto elim: option.rel_mono_strong)
  then show "\<exists>snap. j' = j\<lparr>records := records j @ [\<lparr>cr_path = path, cr_prior = snap, cr_turn = jturn j\<rparr>]\<rparr>
     \<and> rel_option (snapshot_of hash (storage j) fs') prior snap" using res(1) by blast
  show "blobs_ok hash S (storage j) fs'" using app(2) snap by blast
  show "keeps hash (storage j) fs fs'" using keeps_trans snap app(1) by blast
qed

text \<open>
  What a run of events leaves behind, and that undoing its records gives the files back: a file all of whose restorations
  succeed has its contents again, whatever happens to the others.
\<close>

definition undoes :: "(string \<Rightarrow> string) \<Rightarrow> change_storage \<Rightarrow> file_system \<Rightarrow> change_record list \<Rightarrow> file_system \<Rightarrow> file_system \<Rightarrow> bool" where
  "undoes hash s fs recs files files0 \<longleftrightarrow>
     (\<forall>fs' fate restored files1 p. keeps hash s fs fs' \<longrightarrow> (\<forall>i. fate i p = Complete) \<longrightarrow> files1 p = files p \<longrightarrow>
        snd (restore_files fs' fate (rev recs) restored files1) p = files0 p)"

lemma undoesD:
  assumes "undoes hash s fs recs files files0" and "keeps hash s fs fs'" and "\<forall>i. fate i p = Complete" and "files1 p = files p"
  shows "snd (restore_files fs' fate (rev recs) restored files1) p = files0 p"
  using assms by (simp add: undoes_def)

lemma undoes_step:
  assumes "undoes hash s fs recs files files0" and "keeps hash s fs fs'"
    and "rel_option (snapshot_of hash s fs') (files path) snap"
  shows "undoes hash s fs' (recs @ [\<lparr>cr_path = path, cr_prior = snap, cr_turn = t\<rparr>]) (files(path \<mapsto> content)) files0"
  unfolding undoes_def
proof (intro allI impI)
  fix fs'' fate restored files1 p
  assume k: "keeps hash s fs' fs''" and fate: "\<forall>i. (fate :: nat \<Rightarrow> string \<Rightarrow> io) i p = Complete"
    and at: "files1 p = (files(path \<mapsto> content)) p"
  let ?r = "\<lparr>cr_path = path, cr_prior = snap, cr_turn = t\<rparr>"
  have IH: "files2 p = files p \<Longrightarrow> snd (restore_files fs'' (\<lambda>i. fate (Suc i)) (rev recs) restored' files2) p = files0 p"
    for restored' files2 by (rule undoesD [OF assms(1) keeps_trans [OF assms(2) k]]) (use fate in simp_all)
  show "snd (restore_files fs'' fate (rev (recs @ [?r])) restored files1) p = files0 p"
  proof (cases "path = p")
    case False
    then show ?thesis using IH at by (simp add: write_file_def Let_def split: option.split)
  next
    case True
    show ?thesis
    proof (cases "files path")
      case None
      with assms(3) have "snap = None" by simp
      then show ?thesis using IH None True fate by (simp add: Let_def)
    next
      case (Some b)
      with assms(3) obtain sn where sn: "snap = Some sn" "snapshot_of hash s fs' b sn" by (auto simp: option_rel_Some1)
      show ?thesis using IH Some True sn(1) snapshot_of_read [OF sn(2) k] fate by (simp add: write_file_def Let_def)
    qed
  qed
qed

text \<open>The contents that the files have in a run.\<close>

fun edit_contents :: "file_event list \<Rightarrow> string set" where
  "edit_contents [] = {}"
| "edit_contents (EvAdvance _ # es) = edit_contents es"
| "edit_contents (EvEdit _ content _ _ # es) = insert content (edit_contents es)"

lemma edit_contents_append: "edit_contents (es @ es') = edit_contents es \<union> edit_contents es'"
  by (induction es rule: edit_contents.induct) simp_all

lemma run_contents:
  "fold (run_event hash to_json) es (jf, files0) = (jf', files) \<Longrightarrow> ran files \<subseteq> ran files0 \<union> edit_contents es"
proof (induction es arbitrary: jf files0)
  case (Cons e es)
  then show ?case by (cases e; cases jf) (fastforce simp: ran_def split: if_splits)+
qed simp

lemma run_events:
  assumes "blobs_ok hash S (storage j0) fs0" and "store_apart hash (storage j0)" and "collision_free hash S"
    and "ran files0 \<union> edit_contents es \<subseteq> S"
    and "fold (run_event hash to_json) es ((j0, fs0), files0) = ((j, fs), files)"
  shows "storage j = storage j0 \<and> blobs_ok hash S (storage j0) fs \<and> jturn j = jturn j0 + advances es
    \<and> (\<exists>news. records j = records j0 @ news \<and> (\<forall>r \<in> set news. jturn j0 \<le> cr_turn r)
              \<and> undoes hash (storage j0) fs news files files0)"
  using assms(4,5)
proof (induction es arbitrary: j fs files rule: rev_induct)
  case Nil
  then show ?case using assms(1) by (auto simp: undoes_def)
next
  case (snoc e es)
  obtain j1 fs1 files1 where st: "fold (run_event hash to_json) es ((j0, fs0), files0) = ((j1, fs1), files1)"
    by (metis prod.collapse)
  have sub: "ran files0 \<union> edit_contents es \<subseteq> S" using snoc.prems(1) by (auto simp: edit_contents_append)
  note IH = snoc.IH [OF sub st]
  have seen: "ran files1 \<subseteq> S" using run_contents [OF st] sub by blast
  from IH obtain news where news: "records j1 = records j0 @ news" "\<forall>r \<in> set news. jturn j0 \<le> cr_turn r"
    "undoes hash (storage j0) fs1 news files1 files0" by blast
  have step: "run_event hash to_json e ((j1, fs1), files1) = ((j, fs), files)" using snoc.prems st by simp
  show ?case
  proof (cases e)
    case (EvAdvance i)
    have js: "j = j1\<lparr>jturn := jturn j1 + 1\<rparr>" "files = files1"
      "fs = append_durable to_json i (storage j1) (TurnEntry (jturn j1 + 1)) fs1"
      using step by (auto simp: EvAdvance advance_turn_def Let_def)
    have kp: "keeps hash (storage j0) fs1 fs" "blobs_ok hash S (storage j0) fs"
      using js(3) IH append_durable_keeps [OF assms(2), where fs = fs1] by auto
    have "undoes hash (storage j0) fs news files files0"
      unfolding undoes_def js(2) using undoesD [OF news(3) keeps_trans [OF kp(1)]] by blast
    then show ?thesis using IH js kp news EvAdvance by (auto simp: advances_append)
  next
    case (EvEdit path content i1 i2)
    have rec: "journal_record hash to_json i1 i2 path (files1 path) (j1, fs1) = (j, fs)" and fl: "files = files1(path \<mapsto> content)"
      using step by (auto simp: EvEdit)
    have prior: "set_option (files1 path) \<subseteq> S" using seen by (auto simp: ran_def)
    note jr = journal_record_step [OF _ _ assms(3) prior rec]
    have s1: "storage j1 = storage j0" "blobs_ok hash S (storage j1) fs1" "store_apart hash (storage j1)"
      using IH assms(2) by auto
    obtain snap where snap: "j = j1\<lparr>records := records j1 @ [\<lparr>cr_path = path, cr_prior = snap, cr_turn = jturn j1\<rparr>]\<rparr>"
      "rel_option (snapshot_of hash (storage j0) fs) (files1 path) snap"
      using jr(1) [OF s1(2,3)] s1(1) by auto
    have "undoes hash (storage j0) fs (news @ [\<lparr>cr_path = path, cr_prior = snap, cr_turn = jturn j1\<rparr>]) files files0"
      unfolding fl using undoes_step [OF news(3) _ snap(2)] jr(3) [OF s1(2,3)] s1(1) by simp
    then show ?thesis
      using IH snap(1) news jr(2) [OF s1(2,3)] s1(1) by (auto simp: EvEdit advances_append)
  qed
qed

subsection \<open>A torn journal\<close>

lemma replay_stops: "from_json l = None \<Longrightarrow> replay from_json blobs (l # ls) acc = acc"
  by (cases acc) simp

text \<open>The entries that a session appends after it opened the journal.\<close>

definition append_entries :: "(durable_entry \<Rightarrow> string) \<Rightarrow> string \<Rightarrow> durable_entry list \<Rightarrow> file_system \<Rightarrow> file_system" where
  "append_entries to_json root es fs =
     fold (append_durable to_json Complete (Durable root (journal_path root))) es fs"

lemma append_entries_text:
  "unwrap_or [] (append_entries to_json root es fs (journal_path root)) =
     unwrap_or [] (fs (journal_path root)) @ concat (map (\<lambda>e. to_json e @ newline) es)"
  by (induction es arbitrary: fs) (simp_all add: append_entries_def append_durable_entry unwrap_or_def)

lemma durable_of_text:
  "durable from_json root fs =
     (let (recs, turn) = replay from_json (blobs_dir root) (file_lines (unwrap_or [] (fs (journal_path root)))) ([], 0)
      in \<lparr>records = recs, jturn = turn, storage = Durable root (journal_path root)\<rparr>)"
  by (simp add: durable_def unwrap_or_def split: option.split)

lemma file_lines_single: "line_free t \<Longrightarrow> t \<noteq> [] \<Longrightarrow> file_lines t = [t]"
  by (induction t rule: induct_list012) (auto simp: line_free_def)

section \<open>Properties\<close>

text \<open>
  C20: after any history of turns, recorded changes and rewinds whose journal writes completed,
  reopening the journal gives the same turn number and the same records, in order, except those
  whose bytes could not be put into the store; those are left out, never read as created files.
  The hypotheses are that the history begins with no journal file, under an absolute root, that \<open>serde_json\<close> reads back a journal entry and prints it on one line, and
  that a digest is a file name.
\<close>

theorem durable_journal_survives_restart:
  assumes "\<And>e. from_json (to_json e) = Some e" and "\<And>e. line_free (to_json e)"
    and "digests_ok hash" and "is_absolute root" and "fs0 (journal_path root) = None"
    and "fold (run_op hash to_json) ops (durable from_json root fs0, fs0) = (j, fs)"
  shows "durable from_json root fs = j\<lparr>records := filter replayable (records j)\<rparr>"
proof -
  have fresh: "journal_inv to_json root (durable from_json root fs0, fs0)"
    by (rule journal_inv_fresh) (rule assms(5))
  have "journal_inv to_json root (fold (run_op hash to_json) ops (durable from_json root fs0, fs0))"
    by (rule journal_inv_run [OF fresh assms(4,3)])
  with assms(6) have "journal_inv to_json root (j, fs)" by simp
  from journal_inv_reopen [OF this assms(2,1)] show ?thesis .
qed

text \<open>An entry format, its parser and digests for the witnesses: unary codes.\<close>

instance durable_entry :: countable
  by countable_datatype

definition demo_to_json :: "durable_entry \<Rightarrow> string" where
  "demo_to_json e = replicate (to_nat e) (CHR ''x'')"

definition demo_from_json :: "string \<Rightarrow> durable_entry option" where
  "demo_from_json s = (if list_all (\<lambda>c. c = CHR ''x'') s then Some (from_nat (length s)) else None)"

definition demo_hash :: "string \<Rightarrow> string" where
  "demo_hash b = CHR ''h'' # replicate (to_nat b) (CHR ''x'')"

lemma demo_format: "demo_from_json (demo_to_json e) = Some e" "line_free (demo_to_json e)"
  by (simp_all add: demo_from_json_def demo_to_json_def list_all_iff line_free_def newline_literal)

lemma demo_hash_ok: "digests_ok demo_hash" "collision_free demo_hash S"
proof -
  show d: "digests_ok demo_hash" by (auto simp: digests_ok_def demo_hash_def slash_free_def skipped_def)
  have "inj demo_hash"
  proof (rule injI)
    fix a b
    assume "demo_hash a = demo_hash b"
    then have "length (demo_hash a) = length (demo_hash b)" by simp
    then show "a = b" by (simp add: demo_hash_def)
  qed
  then have "inj_on demo_hash S" by (rule inj_on_subset) simp
  with d show "collision_free demo_hash S" by (simp add: collision_free_def)
qed

text \<open>A digest of fixed length, as the code's is, which tells apart only some contents.\<close>

definition demo_digest :: "string \<Rightarrow> string" where
  "demo_digest b = (if b = ''old'' then ''d0'' else if b = ''new'' then ''d1'' else ''d2'')"

lemma demo_digest_ok: "collision_free demo_digest {''old'', ''new'', ''newer''}"
  by (auto simp: collision_free_def inj_on_def demo_digest_def digests_ok_def slash_free_def skipped_def)

lemma durable_journal_survives_restart_witness:
  "let (j, fs) = fold (run_op demo_hash demo_to_json) [OpAdvance, OpRecord ''/a'' (Some ''old'') Complete, OpRewind 1, OpAdvance]
       (durable demo_from_json ''/r'' Map.empty, Map.empty)
   in durable demo_from_json ''/r'' fs = j\<lparr>records := filter replayable (records j)\<rparr>"
  by (simp only: Let_def split_beta)
    (rule durable_journal_survives_restart [OF demo_format demo_hash_ok(1), where ?fs0.0 = Map.empty and
        ops = "[OpAdvance, OpRecord ''/a'' (Some ''old'') Complete, OpRewind 1, OpAdvance]"];
     simp add: is_absolute_def)

lemma events_restored:
  assumes "collision_free hash S" and "ran files0 \<union> edit_contents es \<subseteq> S" and "store_apart hash (storage j0)"
    and "blobs_ok hash S (storage j0) fs0" and "\<forall>r \<in> set (records j0). cr_turn r \<le> jturn j0"
    and "fold (run_event hash to_json) es (advance_turn to_json i (j0, fs0), files0) = ((j, fs), files)"
    and "rewind_session to_json ok fate (Suc (advances es)) (j, fs) files = (report, (j', fs'), files')"
  shows "(\<forall>p. (\<forall>i. fate i p = Complete) \<longrightarrow> files' p = files0 p) \<and>
    records j' = records j0 \<and> (records j \<noteq> [] \<longrightarrow> jturn j' = jturn j0)"
proof -
  let ?j1 = "j0\<lparr>jturn := jturn j0 + 1\<rparr>" and ?n = "Suc (advances es)"
  define fs1 where "fs1 = append_durable to_json i (storage j0) (TurnEntry (jturn j0 + 1)) fs0"
  have adv: "advance_turn to_json i (j0, fs0) = (?j1, fs1)" by (simp add: advance_turn_def fs1_def)
  have b1: "blobs_ok hash S (storage ?j1) fs1" "store_apart hash (storage ?j1)"
    using append_durable_keeps(2) [OF assms(3,4)] assms(3) by (simp_all add: fs1_def)
  from run_events [OF b1 assms(1,2) assms(6) [unfolded adv]]
  obtain news where st: "storage j = storage j0" and turn: "jturn j = jturn j0 + ?n"
    and recs: "records j = records j0 @ news" and new: "\<forall>r \<in> set news. jturn j0 + 1 \<le> cr_turn r"
    and undo: "undoes hash (storage j0) fs news files files0" by auto
  show ?thesis
  proof (cases "records j = []")
    case True
    then have "rewind to_json ok ?n (j, fs) = ([], j, fs)" by (simp add: rewind_def)
    then have "j' = j" "files' = files" using assms(7) by (auto simp: rewind_session_def)
    moreover have "files p = files0 p" for p using undoesD [OF undo keeps_refl, of "\<lambda>_ _. Complete" p files] True recs by simp
    ultimately show ?thesis using True recs by simp
  next
    case False
    have taken: "filter (\<lambda>r. jturn j0 + 1 \<le> cr_turn r) (records j) = news"
      and keep: "filter (\<lambda>r. \<not> jturn j0 + 1 \<le> cr_turn r) (records j) = records j0"
      using assms(5) new by (auto simp: recs filter_empty_conv intro!: filter_True)
    define j2 where "j2 = j\<lparr>records := records j0, jturn := jturn j0\<rparr>"
    have rw: "rewind to_json ok ?n (j, fs) = (rev news, j2, rewrite_durable to_json ok j2 fs)"
      using False taken keep by (simp add: rewind_def turn j2_def Let_def del: filter_append)
    have "keeps hash (storage j0) fs (rewrite_durable to_json ok j2 fs)"
      using rewrite_durable_keeps [of hash j2 fs] assms(3) st by (simp add: j2_def)
    then have "snd (restore_files (rewrite_durable to_json ok j2 fs) fate (rev news) [] files) p = files0 p"
      if "\<forall>i. fate i p = Complete" for p by (rule undoesD [OF undo]) (use that \<open>keeps hash (storage j0) fs (rewrite_durable to_json ok j2 fs)\<close> in simp_all)
    then show ?thesis
      using assms(7) rw by (auto simp: rewind_session_def j2_def split: prod.splits)
  qed
qed

text \<open>
  Rewinding over the turns since a point of the session, the first of which starts there, gives
  every file that can be restored the contents it had at that point and the journal the records it had then,
  however the edits fall on the turns, however often a file is edited, created or edited again, and
  whatever disk operations of the journal failed. The hypotheses on the store are that the digests of the contents that the files have
  meanwhile do not collide, that blobs under these digests hold what they say, and that the journal file is no blob.
\<close>

theorem rewind_restores_files:
  assumes "collision_free hash S" and "ran files0 \<union> edit_contents es \<subseteq> S" and "store_apart hash (storage j0)"
    and "blobs_ok hash S (storage j0) fs0" and "\<forall>r \<in> set (records j0). cr_turn r \<le> jturn j0"
    and "fold (run_event hash to_json) es (advance_turn to_json i (j0, fs0), files0) = ((j, fs), files)"
    and "rewind_session to_json ok fate (Suc (advances es)) (j, fs) files = (report, (j', fs'), files')"
  shows "(\<forall>p. (\<forall>i. fate i p = Complete) \<longrightarrow> files' p = files0 p) \<and>
    records j' = records j0 \<and> (records j \<noteq> [] \<longrightarrow> jturn j' = jturn j0)"
  by (rule events_restored [OF assms])

definition demo_events :: "file_event list" where
  "demo_events = [EvEdit ''/a'' ''new'' Complete Complete, EvAdvance OpenFails,
     EvEdit ''/a'' ''newer'' OpenFails Complete, EvEdit ''/b'' ''new'' Complete Complete]"

lemma rewind_restores_files_witness:
  "let ((j, fs), files) = fold (run_event demo_digest demo_to_json) demo_events
         (advance_turn demo_to_json Complete (journal_new (Some ''/tmp''), Map.empty), [''/a'' \<mapsto> ''old'']);
       (report, (j', fs'), files') = rewind_session demo_to_json True (\<lambda>_ p. if p = ''/b'' then OpenFails else Complete) 2 (j, fs) files
   in files' ''/a'' = Some ''old'' \<and> records j' = []"
proof -
  let ?j = "journal_new (Some ''/tmp'')" and ?S = "{''old'', ''new'', ''newer''}"
  let ?fate = "\<lambda>(_ :: nat) p. if p = ''/b'' then OpenFails else Complete"
  have c: "ran [''/a'' \<mapsto> ''old''] \<union> edit_contents demo_events \<subseteq> ?S" "store_apart demo_digest (storage ?j)"
    "blobs_ok demo_digest ?S (storage ?j) Map.empty" "\<forall>r \<in> set (records ?j). cr_turn r \<le> jturn ?j"
    by (simp_all add: store_apart_def blobs_ok_def journal_new_def demo_events_def ran_def)
  obtain j fs files where e: "fold (run_event demo_digest demo_to_json) demo_events
      (advance_turn demo_to_json Complete (?j, Map.empty), [''/a'' \<mapsto> ''old'']) = ((j, fs), files)"
    by (metis prod.collapse)
  obtain report j' fs' files' where r: "rewind_session demo_to_json True ?fate 2 (j, fs) files = (report, (j', fs'), files')"
    by (metis prod.collapse)
  have two: "Suc (advances demo_events) = 2" by (simp add: demo_events_def)
  have "(\<forall>p. (\<forall>i. ?fate i p = Complete) \<longrightarrow> files' p = [''/a'' \<mapsto> ''old''] p) \<and> records j' = records ?j"
    using rewind_restores_files [OF demo_digest_ok c e, unfolded two, OF r] by blast
  then have "files' ''/a'' = Some ''old'' \<and> records j' = records ?j" by simp
  then show ?thesis by (simp only: e r Let_def prod.case) (simp add: journal_new_def)
qed

text \<open>
  A torn last line of the journal, which a crash during an append leaves behind, is not removed
  when the journal is reopened: the next entry is appended to the torn line, and every entry
  appended from then on is lost at the following restart.
\<close>

theorem torn_tail_loses_later_entries:
  assumes "\<And>e. from_json (to_json e) = Some e" and "\<And>e. line_free (to_json e)"
    and "fs (journal_path root) = Some (concat (map (\<lambda>e. to_json e @ newline) old) @ torn)"
    and "torn \<noteq> []" and "line_free torn" and "from_json torn = None" and "\<And>e. from_json (torn @ to_json e) = None"
  shows "durable from_json root (append_entries to_json root new fs) = durable from_json root fs"
proof -
  let ?text = "\<lambda>es. concat (map (\<lambda>e. to_json e @ newline) es)"
  have lines: "file_lines (?text es @ rest) = map to_json es @ file_lines rest" for es rest
    by (rule file_lines_text) (rule assms(2))
  have rep: "replay from_json blobs (map to_json es @ ls) acc = replay from_json blobs ls (fold (apply_entry blobs) es acc)"
    for blobs es ls acc by (rule replay_entries) (rule assms(1))
  have torn: "replay from_json blobs (file_lines (?text old @ torn)) acc = fold (apply_entry blobs) old acc" for blobs acc
    by (simp only: lines rep file_lines_single [OF assms(5,4)] replay_stops [where l = torn and from_json = from_json, OF assms(6)])
  have "replay from_json blobs (file_lines (?text old @ torn @ ?text new)) acc = fold (apply_entry blobs) old acc" for blobs acc
  proof (cases new)
    case Nil
    then show ?thesis using torn by simp
  next
    case (Cons e es)
    have "line_free (torn @ to_json e)" using assms(2) [of e] assms(5) by (auto simp: line_free_def)
    from file_lines_line [OF this, of "?text es"]
    have "file_lines (torn @ ?text new) = (torn @ to_json e) # file_lines (?text es)" by (simp add: Cons)
    then show ?thesis by (simp only: lines rep replay_stops [where l = "torn @ to_json e" and from_json = from_json, OF assms(7)])
  qed
  then show ?thesis
    unfolding durable_of_text append_entries_text using torn assms(3) by (simp add: unwrap_or_def)
qed

lemma torn_tail_loses_later_entries_witness:
  "durable demo_from_json ''/r'' (append_entries demo_to_json ''/r'' [TurnEntry 2, ChangeEntry ''/a'' False None None 2]
       [journal_path ''/r'' \<mapsto> concat (map (\<lambda>e. demo_to_json e @ newline) [TurnEntry 1]) @ ''{''])
   = durable demo_from_json ''/r'' [journal_path ''/r'' \<mapsto> concat (map (\<lambda>e. demo_to_json e @ newline) [TurnEntry 1]) @ ''{'']"
  by (rule torn_tail_loses_later_entries [OF demo_format, where torn = "''{''" and old = "[TurnEntry 1]"])
    (simp_all add: demo_from_json_def line_free_def newline_literal)

text \<open>
  A file whose bytes are not UTF-8 and that the \<open>Write\<close> tool overwrites is recorded as if it had
  not existed, so that rewinding the turn deletes it instead of restoring it.
\<close>

theorem rewind_deletes_non_utf8_file:
  assumes "files p = Some b" and "\<not> utf8 b" and "\<forall>r \<in> set (records j0). cr_turn r \<le> jturn j0"
    and "journal_record hash to_json i1 i2 p (write_prior utf8 (files p)) (advance_turn to_json i (j0, fs0)) = (j, fs)"
    and "rewind_session to_json ok (\<lambda>_ _. Complete) 1 (j, fs) (files(p \<mapsto> new)) = (report, jf', files')"
  shows "files' p = None"
proof -
  let ?r = "\<lparr>cr_path = p, cr_prior = None, cr_turn = jturn j0 + 1\<rparr>"
  have j: "records j = records j0 @ [?r]" "jturn j = jturn j0 + 1"
    using assms(1,2,4) by (auto simp: journal_record_def advance_turn_def write_prior_def Let_def)
  have "filter (\<lambda>r. jturn j0 + 1 \<le> cr_turn r) (records j0) = []" using assms(3) by (auto simp: filter_empty_conv)
  then have "fst (rewind to_json ok 1 (j, fs)) = [?r]" by (simp add: rewind_def j Let_def)
  then show ?thesis using assms(5) by (auto simp: rewind_session_def split: prod.splits)
qed

lemma rewind_deletes_non_utf8_file_witness:
  "let (j, fs) = journal_record demo_hash demo_to_json Complete Complete ''/a''
          (write_prior (\<lambda>s. s = ''ok'') (Some ''raw'')) (advance_turn demo_to_json Complete (journal_new None, Map.empty));
       (report, jf', files') = rewind_session demo_to_json True (\<lambda>_ _. Complete) 1 (j, fs) ([''/a'' \<mapsto> ''raw''](''/a'' \<mapsto> ''new''))
   in files' ''/a'' = None"
proof -
  obtain j fs where e: "journal_record demo_hash demo_to_json Complete Complete ''/a''
      (write_prior (\<lambda>s. s = ''ok'') (Some ''raw'')) (advance_turn demo_to_json Complete (journal_new None, Map.empty)) = (j, fs)"
    by (metis prod.collapse)
  obtain report jf' files' where r: "rewind_session demo_to_json True (\<lambda>_ _. Complete) 1 (j, fs) ([''/a'' \<mapsto> ''raw''](''/a'' \<mapsto> ''new'')) = (report, jf', files')"
    by (metis prod.collapse)
  have "files' ''/a'' = None"
    by (rule rewind_deletes_non_utf8_file [OF _ _ _ _ r, where b = "''raw''" and ?utf8.0 = "\<lambda>s. s = ''ok''" and ?j0.0 = "journal_new None"])
      (use e in \<open>auto simp: journal_new_def\<close>)
  then show ?thesis by (simp only: e r Let_def prod.case)
qed

text \<open>
  However the reads of a background shell's output are cut, whatever rotations fail and however
  much the writer accepts, neither the current segment nor the byte counter exceeds 4 MiB, when every
  chunk fits into a fresh segment behind the rotation marker.
\<close>

theorem log_segment_bounded:
  assumes "length existing \<le> 4194304"
    and "\<forall>(rot, acc, bytes) \<in> set writes. length (rotation_marker path) + length bytes \<le> 4194304"
  shows "length (sl_current (fold (\<lambda>(rot, acc, bytes) l. snd (log_write rot acc bytes l)) writes (log_new path existing))) \<le> 4194304"
proof -
  define step where "step = (\<lambda>(rot, acc, bytes) l. snd (log_write rot acc bytes l))"
  have "log_inv (fold step writes l)" if "log_inv l" "sl_path l = path" for l
    using that assms(2)
  proof (induction writes arbitrary: l)
    case (Cons w ws)
    obtain rot acc bytes where w: "w = (rot, acc, bytes)" by (cases w)
    have "length (rotation_marker (sl_path l)) + length bytes \<le> 4194304" using Cons.prems w by simp
    from log_write_inv [OF Cons.prems(1) this] show ?case
      using Cons.IH [of "step w l"] Cons.prems by (simp add: w step_def)
  qed simp
  moreover have "log_inv (log_new path existing)"
    using assms(1) unat_length [of "length existing"]
    unfolding log_inv_def word_le_nat_alt segment_bytes_nat by (simp add: log_new_def)
  ultimately have "log_inv (fold step writes (log_new path existing))" by (simp add: log_new_def)
  then show ?thesis unfolding step_def log_inv_def word_le_nat_alt segment_bytes_nat by simp
qed

lemma log_segment_bounded_witness:
  "length (sl_current (fold (\<lambda>(rot, acc, bytes) l. snd (log_write rot acc bytes l))
     [(RotateOk, 3, ''abc''), (CreateFails, 9, ''def'')] (log_new ''/l'' []))) \<le> 4194304"
  by (rule log_segment_bounded) (simp_all add: rotation_marker_def newline_def)

text \<open>
  A rotation that fails leaves the log without a writer, and the flush that the supervisor issues
  after every drain panics on it.
\<close>

theorem failed_rotation_panics_flush:
  assumes "sl_open l" and "rot \<noteq> RotateOk"
    and "0 < sl_written l" and "saturating_add (sl_written l) (of_nat (length bytes)) > segment_bytes"
  shows "fst (log_write rot acc bytes l) = Inl LogIo \<and> log_flush (snd (log_write rot acc bytes l)) = Inl LogPanic"
  using assms by (cases rot) (simp_all add: log_write_def log_flush_def)

lemma failed_rotation_panics_flush_witness:
  "log_flush (snd (log_write (RenameFails True) 5 ''hello''
     \<lparr>sl_path = ''/l'', sl_open = True, sl_written = 4194304, sl_current = [], sl_previous = None\<rparr>)) = Inl LogPanic"
  by (rule conjunct2 [OF failed_rotation_panics_flush])
    (simp_all add: saturating_add_def segment_bytes_def)

end
