(* ===== verification/Batch.thy ===== *)
theory Batch
  imports Permission Projection
begin

text \<open>
  The execution of one batch of tool calls (\<open>crates/rc-core/src/agent.rs\<close>, \<open>execute_batch\<close> and
  what it calls): authorization of every call, parallel phases of pure reads between ordered
  barriers, results in call order, and the checkpoint from which a batch that was cut short is
  completed.

  The batch is a future that the turn's deadline or a cancellation can drop at any of its
  \<open>await\<close> points, and only there. So a computation is a function on the batch state that ends in
  \<open>Finished\<close>, in \<open>Dropped\<close> (at an await; the state is what the code before it left) or in
  \<open>Crashed\<close> (a panic of a tool that runs as a barrier). The number of awaits that still complete
  is part of the state, and arbitrary.

  The rest of the system is an environment: the JSON parser, the permission checker (which may
  change with the world: the mode can be switched while a turn runs), the prompter, the tools and
  the shell's working directory act on a world of arbitrary type. In a parallel phase the spawned
  tasks run in an order the environment picks.
\<close>

section \<open>State and environment\<close>

datatype exec_item = ExCall tool_call | ExParseError (pe_call_id: string) (pe_tool_name: string) (pe_error: string)

record exec_result =
  er_id :: string
  er_tool :: string
  er_body :: tool_result_body
  er_duration :: nat
  er_artifacts :: "artifact list"

record scheduled_call =
  sc_tool :: "tool option"
  sc_call :: tool_call
  sc_concurrency :: concurrency

datatype ask_response = Once | SessionGrant string | AlwaysGrant string | DenyAnswer string

datatype task_reply = Replied "string + tool_outcome" nat | Panicked string

text \<open>
  What the batch does, in order; every event names the index of its call. \<open>ToolEnd\<close> and
  \<open>ArtifactSeen\<close> are the calls of the event sink.
\<close>

datatype batch_event =
    Checked nat decision
  | Asked nat ask_response
  | Ran nat
  | ArtifactSeen nat string string artifact
  | ToolEnd nat string string tool_result_body

record 'w batch_env =
  e_parse :: "string \<Rightarrow> json option"
  e_check :: "'w \<Rightarrow> string \<Rightarrow> json \<Rightarrow> string \<Rightarrow> string list \<Rightarrow> string list \<Rightarrow> decision"
  e_ask :: "string \<Rightarrow> json \<Rightarrow> string \<Rightarrow> 'w \<Rightarrow> ask_response \<times> 'w"
  e_call :: "string \<Rightarrow> json \<Rightarrow> string \<Rightarrow> 'w \<Rightarrow> task_reply \<times> 'w"
  e_shell_cwd :: "'w \<Rightarrow> string"
  e_schedule :: "nat list \<Rightarrow> 'w \<Rightarrow> nat list"
  e_iteration :: "nat list \<Rightarrow> nat list"
  e_tools :: tool_registry
  e_roots :: "string list"
  e_cap :: nat

record 'w batch_state =
  b_world :: 'w
  b_awaits :: nat
  b_grants :: "string list"
  b_results :: "nat \<rightharpoonup> exec_result"
  b_emitted :: "nat set"
  cp_results :: "exec_result option list"
  cp_emitted :: "nat set"
  b_log :: "batch_event list"

datatype 'a flow = Finished 'a | Dropped | Crashed string

type_synonym ('w, 'a) batch = "'w batch_state \<Rightarrow> 'a flow \<times> 'w batch_state"

definition return_b :: "'a \<Rightarrow> ('w, 'a) batch" where
  "return_b a = (\<lambda>s. (Finished a, s))"

definition bind_b :: "('w, 'a) batch \<Rightarrow> ('a \<Rightarrow> ('w, 'b) batch) \<Rightarrow> ('w, 'b) batch" where
  "bind_b m f = (\<lambda>s. case m s of
     (Finished a, s') \<Rightarrow> f a s' | (Dropped, s') \<Rightarrow> (Dropped, s') | (Crashed e, s') \<Rightarrow> (Crashed e, s'))"

definition update_b :: "('w batch_state \<Rightarrow> 'w batch_state) \<Rightarrow> ('w, unit) batch" where
  "update_b f = (\<lambda>s. (Finished (), f s))"

definition await :: "('w, unit) batch" where
  "await = (\<lambda>s. case b_awaits s of 0 \<Rightarrow> (Dropped, s) | Suc n \<Rightarrow> (Finished (), s\<lparr>b_awaits := n\<rparr>))"

definition log_event :: "batch_event \<Rightarrow> 'w batch_state \<Rightarrow> 'w batch_state" where
  "log_event e s = s\<lparr>b_log := b_log s @ [e]\<rparr>"

section \<open>Operations\<close>

definition record_batch_result :: "nat \<Rightarrow> exec_result \<Rightarrow> 'w batch_state \<Rightarrow> 'w batch_state" where
  "record_batch_result i r s =
     s\<lparr>cp_results := (cp_results s)[i := Some r], b_results := (b_results s)(i \<mapsto> r)\<rparr>"

definition mark_batch_emitted :: "nat \<Rightarrow> 'w batch_state \<Rightarrow> 'w batch_state" where
  "mark_batch_emitted i s = s\<lparr>cp_emitted := insert i (cp_emitted s)\<rparr>"

definition emit_tool_completion :: "nat \<Rightarrow> exec_result \<Rightarrow> 'w batch_state \<Rightarrow> 'w batch_state" where
  "emit_tool_completion i r s =
     s\<lparr>b_log := b_log s @ map (ArtifactSeen i (er_id r) (er_tool r)) (er_artifacts r)
                @ [ToolEnd i (er_id r) (er_tool r) (er_body r)]\<rparr>"

text \<open>The four statements that publish and store a result; there is no await between them.\<close>

definition publish :: "nat \<Rightarrow> exec_result \<Rightarrow> 'w batch_state \<Rightarrow> 'w batch_state" where
  "publish i r s =
     record_batch_result i r (mark_batch_emitted i
       ((\<lambda>s. s\<lparr>b_emitted := insert i (b_emitted s)\<rparr>) (emit_tool_completion i r s)))"

definition cap_tool_result :: "nat \<Rightarrow> exec_result \<Rightarrow> exec_result" where
  "cap_tool_result cap r = (if 0 < cap then r\<lparr>er_body := truncate_body cap (er_body r)\<rparr> else r)"

definition parse_input :: "'w batch_env \<Rightarrow> tool_call \<Rightarrow> json" where
  "parse_input env c = unwrap_or JNull (e_parse env (call_arguments c))"

definition denied_result :: "tool_call \<Rightarrow> string \<Rightarrow> exec_result" where
  "denied_result c reason =
     \<lparr>er_id = call_id c, er_tool = call_name c, er_body = ResDenied reason, er_duration = 0, er_artifacts = []\<rparr>"

text \<open>\<open>authorize_call\<close>; \<open>cwd\<close> is the working directory of the refreshed tool context.\<close>

definition authorize_call :: "'w batch_env \<Rightarrow> string \<Rightarrow> nat \<Rightarrow> tool_call \<Rightarrow> ('w, exec_result option) batch" where
  "authorize_call env cwd i c = (\<lambda>s.
     (let input = parse_input env c;
          d = e_check env (b_world s) (call_name c) input cwd (e_roots env) (b_grants s);
          s = log_event (Checked i d) s
      in case d of
           Allow \<Rightarrow> (Finished None, s)
         | Deny reason \<Rightarrow> (Finished (Some (denied_result c reason)), s)
         | AskUser reason \<Rightarrow>
             bind_b await (\<lambda>_ s.
               (let (answer, w) = e_ask env (call_name c) input reason (b_world s);
                    s = log_event (Asked i answer) (s\<lparr>b_world := w\<rparr>)
                in case answer of
                     Once \<Rightarrow> (Finished None, s)
                   | SessionGrant rule \<Rightarrow> (Finished None, s\<lparr>b_grants := b_grants s @ [rule]\<rparr>)
                   | AlwaysGrant rule \<Rightarrow> (Finished None, s\<lparr>b_grants := b_grants s @ [rule]\<rparr>)
                   | DenyAnswer reason \<Rightarrow> (Finished (Some (denied_result c reason)), s))) s))"

definition outcome_of :: "string + tool_outcome \<Rightarrow> tool_outcome" where
  "outcome_of reply = (case reply of Inr o' \<Rightarrow> o' | Inl e \<Rightarrow> OutError e False)"

fun outcome_artifacts :: "tool_outcome \<Rightarrow> artifact list" where
  "outcome_artifacts (OutOk _ _ arts) = arts"
| "outcome_artifacts _ = []"

definition result_of :: "tool_call \<Rightarrow> string + tool_outcome \<Rightarrow> nat \<Rightarrow> exec_result" where
  "result_of c reply dur =
     \<lparr>er_id = call_id c, er_tool = call_name c, er_body = body_of_outcome (outcome_of reply), er_duration = dur,
      er_artifacts = outcome_artifacts (outcome_of reply)\<rparr>"

text \<open>The tool runs; its effect on the world is there even if the batch is dropped afterwards.\<close>

definition start_tool :: "'w batch_env \<Rightarrow> string \<Rightarrow> nat \<Rightarrow> tool_call \<Rightarrow> 'w batch_state \<Rightarrow> task_reply \<times> 'w batch_state" where
  "start_tool env cwd i c s =
     (let (reply, w) = e_call env (call_name c) (parse_input env c) cwd (b_world s)
      in (reply, log_event (Ran i) (s\<lparr>b_world := w\<rparr>)))"

definition run_one :: "'w batch_env \<Rightarrow> string \<Rightarrow> nat \<Rightarrow> tool_call \<Rightarrow> ('w, exec_result) batch" where
  "run_one env cwd i c = (\<lambda>s.
     (let (reply, s) = start_tool env cwd i c s in
      bind_b await (\<lambda>_ s. case reply of
          Replied r dur \<Rightarrow> (Finished (result_of c r dur), s)
        | Panicked e \<Rightarrow> (Crashed e, s)) s))"

text \<open>
  The order in which the spawned tasks run: the environment's choice, completed to all tasks.
\<close>

definition complete_order :: "nat list \<Rightarrow> nat list \<Rightarrow> nat list" where
  "complete_order order idx = remdups (filter (\<lambda>i. i \<in> set idx) order) @ filter (\<lambda>i. i \<notin> set order) idx"

fun run_tasks ::
  "'w batch_env \<Rightarrow> string \<Rightarrow> (nat \<rightharpoonup> tool_call) \<Rightarrow> nat list \<Rightarrow> (nat \<rightharpoonup> task_reply) \<Rightarrow> 'w batch_state \<Rightarrow>
   (nat \<rightharpoonup> task_reply) \<times> 'w batch_state" where
  "run_tasks env cwd calls [] replies s = (replies, s)"
| "run_tasks env cwd calls (i # is) replies s =
     (case calls i of
        Some c \<Rightarrow> (let (reply, s) = start_tool env cwd i c s in run_tasks env cwd calls is (replies(i \<mapsto> reply)) s)
      | None \<Rightarrow> run_tasks env cwd calls is replies s)"

text \<open>The loop that acquires a permit for each task and spawns it: how many it got to.\<close>

fun spawn_all :: "(nat \<times> tool_call) list \<Rightarrow> (nat \<times> tool_call) list \<Rightarrow> 'w batch_state \<Rightarrow> (nat \<times> tool_call) list \<times> bool \<times> 'w batch_state" where
  "spawn_all [] spawned s = (spawned, True, s)"
| "spawn_all (t # ts) spawned s =
     (case await s of
        (Finished _, s) \<Rightarrow> spawn_all ts (spawned @ [t]) s
      | (_, s) \<Rightarrow> (spawned, False, s))"

definition joined_result :: "tool_call \<Rightarrow> task_reply option \<Rightarrow> exec_result" where
  "joined_result c reply =
     (case reply of
        Some (Replied r dur) \<Rightarrow> result_of c r dur
      | _ \<Rightarrow>
          (let join_err = (case reply of Some (Panicked e) \<Rightarrow> e | _ \<Rightarrow> ''task was cancelled'') in
           \<lparr>er_id = call_id c, er_tool = call_name c, er_body = ResError (''tool panicked: '' @ join_err) False,
            er_duration = 0, er_artifacts = []\<rparr>))"

fun join_all :: "'w batch_env \<Rightarrow> (nat \<rightharpoonup> task_reply) \<Rightarrow> (nat \<times> tool_call) list \<Rightarrow> ('w, unit) batch" where
  "join_all env replies [] s = (Finished (), s)"
| "join_all env replies ((i, c) # ts) s =
     bind_b await (\<lambda>_. bind_b (update_b (publish i (cap_tool_result (e_cap env) (joined_result c (replies i)))))
       (\<lambda>_. join_all env replies ts)) s"

definition run_parallel_phase :: "'w batch_env \<Rightarrow> (nat \<times> tool_call) list \<Rightarrow> ('w, unit) batch" where
  "run_parallel_phase env phase = (\<lambda>s.
     (let cwd = e_shell_cwd env (b_world s);
          (spawned, ok, s) = spawn_all phase [] s;
          order = complete_order (e_schedule env (map fst spawned) (b_world s)) (map fst spawned);
          (replies, s) = run_tasks env cwd (map_of spawned) order Map.empty s
      in if ok then join_all env replies spawned s else (Dropped, s)))"

fun authorize_phase ::
  "'w batch_env \<Rightarrow> string \<Rightarrow> (nat \<times> tool_call) list \<Rightarrow> (nat \<times> tool_call) list \<Rightarrow> ('w, (nat \<times> tool_call) list) batch" where
  "authorize_phase env cwd [] allowed s = (Finished allowed, s)"
| "authorize_phase env cwd ((i, c) # ts) allowed s =
     bind_b (authorize_call env cwd i c) (\<lambda>verdict.
       case verdict of
         Some r \<Rightarrow> bind_b (update_b (publish i r)) (\<lambda>_. authorize_phase env cwd ts allowed)
       | None \<Rightarrow> authorize_phase env cwd ts (allowed @ [(i, c)])) s"

definition unknown_tool_result :: "tool_call \<Rightarrow> exec_result" where
  "unknown_tool_result c =
     \<lparr>er_id = call_id c, er_tool = call_name c, er_body = ResError (''unknown tool: '' @ call_name c) False,
      er_duration = 0, er_artifacts = []\<rparr>"

definition run_barrier :: "'w batch_env \<Rightarrow> nat \<Rightarrow> scheduled_call \<Rightarrow> ('w, unit) batch" where
  "run_barrier env i sc = (\<lambda>s.
     (let cwd = e_shell_cwd env (b_world s); c = sc_call sc in
      bind_b (authorize_call env cwd i c) (\<lambda>verdict.
        case verdict of
          Some r \<Rightarrow> update_b (publish i r)
        | None \<Rightarrow>
            (case sc_tool sc of
               None \<Rightarrow> update_b (publish i (unknown_tool_result c))
             | Some t \<Rightarrow>
                 bind_b (run_one env cwd i c) (\<lambda>r. update_b (publish i (cap_tool_result (e_cap env) r))))) s))"

definition is_parallel :: "nat \<times> scheduled_call \<Rightarrow> bool" where
  "is_parallel t \<longleftrightarrow> sc_concurrency (snd t) = Parallel"

text \<open>
  The cursor loop over the scheduled calls; entries without a call (parse errors) are skipped
  by both loops of the code, so they are left out of the list.
\<close>

function batch_loop :: "'w batch_env \<Rightarrow> (nat \<times> scheduled_call) list \<Rightarrow> ('w, unit) batch" where
  "batch_loop env [] s = (Finished (), s)"
| "batch_loop env (t # ts) s =
     (if is_parallel t then
        (let phase = t # takeWhile is_parallel ts;
             cwd = e_shell_cwd env (b_world s)
         in bind_b (authorize_phase env cwd (map (\<lambda>(i, sc). (i, sc_call sc)) phase) [])
              (\<lambda>allowed. bind_b (run_parallel_phase env allowed)
                (\<lambda>_. batch_loop env (dropWhile is_parallel ts))) s)
      else bind_b (run_barrier env (fst t) (snd t)) (\<lambda>_. batch_loop env ts) s)"
  by pat_completeness auto
termination
  by (relation "measure (\<lambda>(_, ts, _). length ts)") (auto simp: le_imp_less_Suc length_dropWhile_le)

declare batch_loop.simps [simp del]

text \<open>The first loop: calls are looked up and scheduled, parse errors get their result.\<close>

definition schedule_call :: "'w batch_env \<Rightarrow> tool_call \<Rightarrow> scheduled_call" where
  "schedule_call env c =
     (case registry_get (e_tools env) (call_name c) of
        Some t \<Rightarrow> \<lparr>sc_tool = Some t, sc_call = c, sc_concurrency = tool_concurrency t\<rparr>
      | None \<Rightarrow> \<lparr>sc_tool = None, sc_call = c, sc_concurrency = Exclusive\<rparr>)"

definition parse_error_result :: "string \<Rightarrow> string \<Rightarrow> string \<Rightarrow> exec_result" where
  "parse_error_result cid name err =
     \<lparr>er_id = cid, er_tool = name, er_body = ResError (''invalid tool arguments: '' @ err) True, er_duration = 0, er_artifacts = []\<rparr>"

fun schedule_items ::
  "'w batch_env \<Rightarrow> nat \<Rightarrow> exec_item list \<Rightarrow> 'w batch_state \<Rightarrow> (nat \<times> scheduled_call) list \<times> 'w batch_state" where
  "schedule_items env i [] s = ([], s)"
| "schedule_items env i (ExCall c # items) s =
     (let (ts, s) = schedule_items env (Suc i) items s in ((i, schedule_call env c) # ts, s))"
| "schedule_items env i (ExParseError cid name err # items) s =
     schedule_items env (Suc i) items (record_batch_result i (parse_error_result cid name err) s)"

text \<open>The loop that publishes what was recorded without being emitted, in the order of a hash map.\<close>

definition emit_rest :: "nat \<Rightarrow> 'w batch_state \<Rightarrow> 'w batch_state" where
  "emit_rest i s =
     (case b_results s i of
        Some r \<Rightarrow> if i \<notin> b_emitted s then mark_batch_emitted i (emit_tool_completion i r s) else s
      | None \<Rightarrow> s)"

definition batch_start :: "nat \<Rightarrow> nat \<Rightarrow> 'w \<Rightarrow> string list \<Rightarrow> 'w batch_state" where
  "batch_start n awaits w grants =
     \<lparr>b_world = w, b_awaits = awaits, b_grants = grants, b_results = Map.empty, b_emitted = {},
      cp_results = replicate n None, cp_emitted = {}, b_log = []\<rparr>"

text \<open>
  The batch; an item without a result at the end is the panic of \<open>expect\<close>.
\<close>

definition execute_batch :: "'w batch_env \<Rightarrow> exec_item list \<Rightarrow> ('w, exec_result list) batch" where
  "execute_batch env items = (\<lambda>s.
     (let (ts, s) = schedule_items env 0 items s in
      bind_b (batch_loop env ts) (\<lambda>_ s.
        (let s = fold emit_rest (complete_order (e_iteration env [0..<length items]) [0..<length items]) s
         in (if list_all (\<lambda>i. b_results s i \<noteq> None) [0..<length items]
             then Finished (map (\<lambda>i. the (b_results s i)) [0..<length items])
             else Crashed ''a result for every batch item'', s))) s))"

text \<open>
  \<open>await_turn_budget\<close> on a batch: the token and the deadline are polled first, so a turn that is already cancelled
  or out of time drops the batch before it does anything.
\<close>

definition poll_batch :: "'w batch_env \<Rightarrow> exec_item list \<Rightarrow> ('w, exec_result list) batch" where
  "poll_batch env items = bind_b await (\<lambda>_. execute_batch env items)"

text \<open>
  \<open>finish_partial_batch\<close>: the results that the checkpoint of a dropped batch has, the rest
  interrupted; the turns to push and the calls of \<open>on_tool_end\<close> in between.
\<close>

definition interrupted_turn :: "tool_call \<Rightarrow> turn" where
  "interrupted_turn c = ToolResult (call_id c) (call_name c) ResInterrupted 0"

definition result_turn :: "exec_result \<Rightarrow> turn" where
  "result_turn r = ToolResult (er_id r) (er_tool r) (er_body r) (er_duration r)"

fun finish_partial_batch ::
  "'w batch_state \<Rightarrow> nat \<Rightarrow> tool_call list \<Rightarrow> turn list \<times> batch_event list" where
  "finish_partial_batch s i [] = ([], [])"
| "finish_partial_batch s i (c # cs) =
     (let (turns, events) = finish_partial_batch s (Suc i) cs in
      case (if i < length (cp_results s) then cp_results s ! i else None) of
        Some r \<Rightarrow>
          (result_turn r # turns,
           (if i \<in> cp_emitted s then [] else [ToolEnd i (er_id r) (er_tool r) (er_body r)]) @ events)
      | None \<Rightarrow>
          (interrupted_turn c # turns, ToolEnd i (call_id c) (call_name c) ResInterrupted # events))"

section \<open>The invariant\<close>

fun item_id :: "exec_item \<Rightarrow> string" where
  "item_id (ExCall c) = call_id c"
| "item_id (ExParseError cid _ _) = cid"

fun item_name :: "exec_item \<Rightarrow> string" where
  "item_name (ExCall c) = call_name c"
| "item_name (ExParseError _ name _) = name"

fun ran_indices :: "batch_event list \<Rightarrow> nat list" where
  "ran_indices [] = []"
| "ran_indices (Ran i # es) = i # ran_indices es"
| "ran_indices (_ # es) = ran_indices es"

fun end_indices :: "batch_event list \<Rightarrow> nat list" where
  "end_indices [] = []"
| "end_indices (ToolEnd i _ _ _ # es) = i # end_indices es"
| "end_indices (_ # es) = end_indices es"

lemma ran_indices_append [simp]: "ran_indices (es @ es') = ran_indices es @ ran_indices es'"
  by (induction es rule: ran_indices.induct) simp_all

lemma end_indices_append [simp]: "end_indices (es @ es') = end_indices es @ end_indices es'"
  by (induction es rule: end_indices.induct) simp_all

lemma artifact_indices [simp]:
  "ran_indices (map (ArtifactSeen i a b) arts) = []" "end_indices (map (ArtifactSeen i a b) arts) = []"
  by (induction arts) simp_all

fun is_deny_answer :: "ask_response \<Rightarrow> bool" where
  "is_deny_answer (DenyAnswer _) = True"
| "is_deny_answer _ = False"

text \<open>The events so far permit call \<open>i\<close> to run.\<close>

definition permits :: "nat \<Rightarrow> batch_event list \<Rightarrow> bool" where
  "permits i es \<longleftrightarrow> Checked i Allow \<in> set es
     \<or> (\<exists>r a. Checked i (AskUser r) \<in> set es \<and> Asked i a \<in> set es \<and> \<not> is_deny_answer a)"

definition authorised :: "batch_event list \<Rightarrow> bool" where
  "authorised es \<longleftrightarrow> (\<forall>xs i ys. es = xs @ Ran i # ys \<longrightarrow> permits i xs)"

lemma permits_append: "permits i es \<Longrightarrow> permits i (es @ es')"
  by (auto simp: permits_def)

lemma authorised_snoc: "authorised (es @ [e]) \<longleftrightarrow> authorised es \<and> (\<forall>i. e = Ran i \<longrightarrow> permits i es)"
proof
  assume a: "authorised (es @ [e])"
  then have "permits i xs" if "es = xs @ Ran i # ys" for xs i ys
    using that unfolding authorised_def by (metis append.assoc append_Cons)
  moreover from a have "permits i es" if "e = Ran i" for i
    using that unfolding authorised_def by blast
  ultimately show "authorised es \<and> (\<forall>i. e = Ran i \<longrightarrow> permits i es)" by (auto simp: authorised_def)
next
  assume a: "authorised es \<and> (\<forall>i. e = Ran i \<longrightarrow> permits i es)"
  show "authorised (es @ [e])"
    unfolding authorised_def
  proof (intro allI impI)
    fix xs i ys
    assume split: "es @ [e] = xs @ Ran i # ys"
    show "permits i xs"
    proof (cases ys rule: rev_cases)
      case Nil
      with split a show ?thesis by simp
    next
      case (snoc zs z)
      with split have "es = xs @ Ran i # zs" by simp
      with a show ?thesis unfolding authorised_def by blast
    qed
  qed
qed

lemma authorised_append_quiet:
  assumes "authorised es" and "\<forall>e \<in> set es'. \<forall>i. e \<noteq> Ran i"
  shows "authorised (es @ es')"
  using assms(2)
proof (induction es' rule: rev_induct)
  case Nil
  then show ?case using assms(1) by simp
next
  case (snoc e es')
  then show ?case using authorised_snoc [of "es @ es'" e] by auto
qed

definition parallel_at :: "'w batch_env \<Rightarrow> exec_item list \<Rightarrow> nat \<Rightarrow> bool" where
  "parallel_at env items i \<longleftrightarrow>
     (case items ! i of ExCall c \<Rightarrow> sc_concurrency (schedule_call env c) = Parallel | _ \<Rightarrow> False)"

text \<open>Call \<open>i\<close> may run before call \<open>j\<close>: it comes first, or both are pure reads.\<close>

definition may_precede :: "'w batch_env \<Rightarrow> exec_item list \<Rightarrow> nat \<Rightarrow> nat \<Rightarrow> bool" where
  "may_precede env items i j \<longleftrightarrow> i < j \<or> (parallel_at env items i \<and> parallel_at env items j)"

definition genuine :: "'w batch_env \<Rightarrow> exec_item list \<Rightarrow> batch_event list \<Rightarrow> bool" where
  "genuine env items es \<longleftrightarrow>
     (\<forall>i d. Checked i d \<in> set es \<longrightarrow>
        (\<exists>w c cwd grants. items ! i = ExCall c
           \<and> d = e_check env w (call_name c) (parse_input env c) cwd (e_roots env) grants))"

definition batch_inv :: "'w batch_env \<Rightarrow> exec_item list \<Rightarrow> 'w batch_state \<Rightarrow> bool" where
  "batch_inv env items s \<longleftrightarrow>
     length (cp_results s) = length items
     \<and> (\<forall>i < length items. cp_results s ! i = b_results s i)
     \<and> dom (b_results s) \<subseteq> {..<length items}
     \<and> cp_emitted s = b_emitted s \<and> b_emitted s \<subseteq> dom (b_results s)
     \<and> (\<forall>i r. b_results s i = Some r \<longrightarrow> er_id r = item_id (items ! i) \<and> er_tool r = item_name (items ! i))
     \<and> distinct (end_indices (b_log s)) \<and> set (end_indices (b_log s)) = b_emitted s
     \<and> authorised (b_log s) \<and> genuine env items (b_log s)
     \<and> sorted_wrt (may_precede env items) (ran_indices (b_log s))"

lemma batch_inv_cong:
  assumes "b_results s' = b_results s" "b_emitted s' = b_emitted s" "cp_results s' = cp_results s"
    "cp_emitted s' = cp_emitted s" "b_log s' = b_log s"
  shows "batch_inv env items s' \<longleftrightarrow> batch_inv env items s"
  using assms by (simp add: batch_inv_def)

lemma batch_inv_log:
  assumes "batch_inv env items s" and "\<And>i. e \<noteq> Ran i" and "\<And>i a b r. e \<noteq> ToolEnd i a b r"
    and "\<And>i d. e = Checked i d \<Longrightarrow> \<exists>w c cwd grants. items ! i = ExCall c
           \<and> d = e_check env w (call_name c) (parse_input env c) cwd (e_roots env) grants"
  shows "batch_inv env items (log_event e s)"
proof -
  have "ran_indices [e] = []" and "end_indices [e] = []" using assms(2,3) by (cases e; simp)+
  then show ?thesis
    using assms(1,2) assms(4) unfolding batch_inv_def
    by (auto simp: log_event_def authorised_snoc genuine_def)
qed

lemma batch_inv_ran:
  assumes "batch_inv env items s" and "permits i (b_log s)" and "\<forall>r \<in> set (ran_indices (b_log s)). may_precede env items r i"
  shows "batch_inv env items (log_event (Ran i) s)"
  using assms unfolding batch_inv_def
  by (auto simp: log_event_def authorised_snoc genuine_def sorted_wrt_append)

lemma publish_simps [simp]:
  "b_results (publish i r s) = (b_results s)(i \<mapsto> r)" "b_emitted (publish i r s) = insert i (b_emitted s)"
  "cp_results (publish i r s) = (cp_results s)[i := Some r]" "cp_emitted (publish i r s) = insert i (cp_emitted s)"
  "b_world (publish i r s) = b_world s" "b_grants (publish i r s) = b_grants s" "b_awaits (publish i r s) = b_awaits s"
  "b_log (publish i r s) = b_log s @ map (ArtifactSeen i (er_id r) (er_tool r)) (er_artifacts r)
     @ [ToolEnd i (er_id r) (er_tool r) (er_body r)]"
  by (simp_all add: publish_def record_batch_result_def mark_batch_emitted_def emit_tool_completion_def)

lemma batch_inv_publish:
  assumes "batch_inv env items s" and "i < length items" and "i \<notin> dom (b_results s)"
    and "er_id r = item_id (items ! i)" and "er_tool r = item_name (items ! i)"
  shows "batch_inv env items (publish i r s)"
proof -
  have "authorised (b_log (publish i r s))"
    using assms(1) by (auto simp: batch_inv_def intro!: authorised_append_quiet)
  moreover have "i \<notin> b_emitted s" using assms(1,3) by (auto simp: batch_inv_def)
  ultimately show ?thesis
    using assms unfolding batch_inv_def
    by (auto simp: genuine_def nth_list_update)
qed

section \<open>What the operations do to the invariant\<close>

text \<open>The part of a step that never touches the results or starts a tool.\<close>

definition quiet :: "'w batch_state \<Rightarrow> 'w batch_state \<Rightarrow> bool" where
  "quiet s s' \<longleftrightarrow> b_results s' = b_results s \<and> ran_indices (b_log s') = ran_indices (b_log s)
     \<and> (\<exists>es. b_log s' = b_log s @ es)"

lemma quiet_refl [simp]: "quiet s s"
  by (simp add: quiet_def)

lemma quiet_trans: "quiet s s' \<Longrightarrow> quiet s' s'' \<Longrightarrow> quiet s s''"
  by (auto simp: quiet_def)

lemma quiet_permits: "quiet s s' \<Longrightarrow> permits i (b_log s) \<Longrightarrow> permits i (b_log s')"
  by (auto simp: quiet_def permits_append)

lemma authorize_call_spec:
  assumes inv: "batch_inv env items s" and item: "items ! i = ExCall c"
    and step: "authorize_call env cwd i c s = (fl, s')"
  shows "batch_inv env items s'" and "quiet s s'"
    and "fl = Finished None \<Longrightarrow> permits i (b_log s')"
    and "fl = Finished (Some r) \<Longrightarrow> er_id r = call_id c \<and> er_tool r = call_name c"
proof -
  define d where "d = e_check env (b_world s) (call_name c) (parse_input env c) cwd (e_roots env) (b_grants s)"
  define s1 where "s1 = log_event (Checked i d) s"
  have inv1: "batch_inv env items s1"
    unfolding s1_def by (rule batch_inv_log [OF inv]) (use item in \<open>auto simp: d_def\<close>)
  have q1: "quiet s s1" and c1: "Checked i d \<in> set (b_log s1)" by (simp_all add: quiet_def s1_def log_event_def)
  have step': "(fl, s') = (case d of Allow \<Rightarrow> (Finished None, s1) | Deny reason \<Rightarrow> (Finished (Some (denied_result c reason)), s1)
      | AskUser reason \<Rightarrow>
          bind_b await (\<lambda>_ s.
               (let (answer, w) = e_ask env (call_name c) (parse_input env c) reason (b_world s);
                    s = log_event (Asked i answer) (s\<lparr>b_world := w\<rparr>)
                in case answer of
                     Once \<Rightarrow> (Finished None, s)
                   | SessionGrant rule \<Rightarrow> (Finished None, s\<lparr>b_grants := b_grants s @ [rule]\<rparr>)
                   | AlwaysGrant rule \<Rightarrow> (Finished None, s\<lparr>b_grants := b_grants s @ [rule]\<rparr>)
                   | DenyAnswer reason \<Rightarrow> (Finished (Some (denied_result c reason)), s))) s1)"
    using step [symmetric] by (simp only: authorize_call_def d_def s1_def Let_def)
  have "batch_inv env items s' \<and> quiet s s' \<and> (fl = Finished None \<longrightarrow> permits i (b_log s'))
      \<and> (\<forall>r. fl = Finished (Some r) \<longrightarrow> er_id r = call_id c \<and> er_tool r = call_name c)"
  proof (cases d)
    case Allow
    then show ?thesis using step' inv1 q1 c1 by (auto simp: permits_def)
  next
    case (Deny reason)
    then show ?thesis using step' inv1 q1 by (auto simp: denied_result_def)
  next
    case (AskUser reason)
    show ?thesis
    proof (cases "b_awaits s1")
      case 0
      then show ?thesis using AskUser step' inv1 q1 by (auto simp: bind_b_def await_def)
    next
      case (Suc n)
      obtain answer w where ans: "e_ask env (call_name c) (parse_input env c) reason (b_world s1) = (answer, w)" by fastforce
      define s2 where "s2 = log_event (Asked i answer) (s1\<lparr>b_awaits := n, b_world := w\<rparr>)"
      have inv2: "batch_inv env items s2"
        unfolding s2_def using inv1 by (intro batch_inv_log) (auto simp: batch_inv_def)
      have q2: "quiet s1 s2" and log2: "b_log s2 = b_log s1 @ [Asked i answer]"
        by (simp_all add: quiet_def s2_def log_event_def)
      have perm: "permits i (b_log s2)" if "\<not> is_deny_answer answer"
        using that c1 AskUser by (auto simp: permits_def log2)
      have grant: "batch_inv env items (s2\<lparr>b_grants := g\<rparr>)" "quiet s (s2\<lparr>b_grants := g\<rparr>)" for g
        using inv2 quiet_trans [OF q1 q2] by (auto simp: batch_inv_def quiet_def)
      have "(fl, s') = (case answer of Once \<Rightarrow> (Finished None, s2)
          | SessionGrant rule \<Rightarrow> (Finished None, s2\<lparr>b_grants := b_grants s2 @ [rule]\<rparr>)
          | AlwaysGrant rule \<Rightarrow> (Finished None, s2\<lparr>b_grants := b_grants s2 @ [rule]\<rparr>)
          | DenyAnswer reason \<Rightarrow> (Finished (Some (denied_result c reason)), s2))"
        using step' AskUser Suc ans by (cases answer) (simp_all add: bind_b_def await_def s2_def Let_def)
      then show ?thesis
        using inv2 quiet_trans [OF q1 q2] perm grant by (cases answer) (auto simp: denied_result_def)
    qed
  qed
  then show "batch_inv env items s'" and "quiet s s'" and "fl = Finished None \<Longrightarrow> permits i (b_log s')"
    and "fl = Finished (Some r) \<Longrightarrow> er_id r = call_id c \<and> er_tool r = call_name c" by blast+
qed

text \<open>Pending calls: known indices of calls without a result.\<close>

definition pending :: "exec_item list \<Rightarrow> 'w batch_state \<Rightarrow> (nat \<times> tool_call) list \<Rightarrow> bool" where
  "pending items s ts \<longleftrightarrow> distinct (map fst ts)
     \<and> (\<forall>t \<in> set ts. fst t < length items \<and> items ! fst t = ExCall (snd t))
     \<and> fst ` set ts \<inter> dom (b_results s) = {}"

lemma pending_quiet: "pending items s ts \<Longrightarrow> quiet s s' \<Longrightarrow> pending items s' ts"
  by (simp add: pending_def quiet_def)

lemma pending_publish:
  "pending items s ((i, c) # ts) \<Longrightarrow> pending items (publish i r s) ts"
  by (auto simp: pending_def)

lemma authorize_phase_spec:
  assumes "batch_inv env items s" and "pending items s (allowed @ ts)" and "\<forall>t \<in> set allowed. permits (fst t) (b_log s)"
    and "authorize_phase env cwd ts allowed s = (fl, s')"
  shows "batch_inv env items s' \<and> ran_indices (b_log s') = ran_indices (b_log s)
    \<and> (\<forall>al. fl = Finished al \<longrightarrow> pending items s' al \<and> (\<forall>t \<in> set al. permits (fst t) (b_log s'))
         \<and> set al \<subseteq> set (allowed @ ts)
         \<and> dom (b_results s') \<union> fst ` set al = dom (b_results s) \<union> fst ` set (allowed @ ts))"
  using assms
proof (induction ts arbitrary: allowed s)
  case Nil
  then show ?case by auto
next
  case (Cons t ts)
  obtain i c where t: "t = (i, c)" by fastforce
  obtain v s1 where auth: "authorize_call env cwd i c s = (v, s1)" by fastforce
  have item: "items ! i = ExCall c" "i < length items" "i \<notin> dom (b_results s)"
    using Cons.prems(2) by (auto simp: t pending_def)
  note spec = authorize_call_spec [OF Cons.prems(1) item(1) auth]
  have pend1: "pending items s1 (allowed @ (i, c) # ts)"
    using pending_quiet [OF Cons.prems(2) spec(2)] by (simp add: t)
  have perm1: "\<forall>t \<in> set allowed. permits (fst t) (b_log s1)"
    using Cons.prems(3) quiet_permits [OF spec(2)] by auto
  have res1: "b_results s1 = b_results s" "ran_indices (b_log s1) = ran_indices (b_log s)"
    using spec(2) by (simp_all add: quiet_def)
  consider "v = Dropped \<or> (\<exists>e. v = Crashed e)" | "v = Finished None" | r where "v = Finished (Some r)"
    by (metis flow.exhaust option.exhaust)
  then show ?case
  proof cases
    case 1
    then show ?thesis using Cons.prems(4) auth spec(1) res1 by (auto simp: t bind_b_def)
  next
    case 2
    have "authorize_phase env cwd ts (allowed @ [(i, c)]) s1 = (fl, s')"
      using Cons.prems(4) auth 2 by (simp add: t bind_b_def)
    from Cons.IH [OF spec(1) _ _ this] show ?thesis
      using pend1 perm1 spec(3) [OF 2] res1 by (auto simp: t)
  next
    case 3
    have er: "er_id r = item_id (items ! i)" "er_tool r = item_name (items ! i)"
      using spec(4) [OF 3] item(1) by simp_all
    have inv2: "batch_inv env items (publish i r s1)"
      using batch_inv_publish [OF spec(1) item(2) _ er] item(3) res1 by simp
    have step: "authorize_phase env cwd ts allowed (publish i r s1) = (fl, s')"
      using Cons.prems(4) auth 3 by (simp add: t bind_b_def update_b_def)
    have pend2: "pending items (publish i r s1) (allowed @ ts)"
      using pend1 by (auto simp: pending_def)
    have perm2: "\<forall>t \<in> set allowed. permits (fst t) (b_log (publish i r s1))"
      using perm1 by (auto intro: permits_append)
    have dom2: "dom (b_results (publish i r s1)) = insert i (dom (b_results s))" using res1 by auto
    have ran2: "ran_indices (b_log (publish i r s1)) = ran_indices (b_log s)" using res1 by simp
    from Cons.IH [OF inv2 pend2 perm2 step, unfolded dom2 ran2] show ?thesis
      by (simp add: t) blast
  qed
qed

lemma await_cases:
  "(b_awaits s = 0 \<and> await s = (Dropped, s)) \<or> (\<exists>n. b_awaits s = Suc n \<and> await s = (Finished (), s\<lparr>b_awaits := n\<rparr>))"
  by (cases "b_awaits s") (simp_all add: await_def)

lemma awaits_frame [simp]:
  "batch_inv env items (s\<lparr>b_awaits := n\<rparr>) \<longleftrightarrow> batch_inv env items s"
  "pending items (s\<lparr>b_awaits := n\<rparr>) ts \<longleftrightarrow> pending items s ts"
  by (simp_all add: batch_inv_def pending_def)

lemma spawn_all_spec:
  assumes "spawn_all ts spawned s = (spawned', ok, s')"
  shows "\<exists>k n. spawned' = spawned @ take k ts \<and> (ok \<longrightarrow> spawned' = spawned @ ts) \<and> s' = s\<lparr>b_awaits := n\<rparr>"
  using assms
proof (induction ts arbitrary: spawned s)
  case Nil
  then show ?case by (auto intro: exI [of _ "b_awaits s'"])
next
  case (Cons t ts)
  show ?case
  proof (cases "b_awaits s")
    case 0
    then show ?thesis using Cons.prems by (auto simp: await_def intro!: exI [of _ 0] exI [of _ "b_awaits s"])
  next
    case (Suc n)
    then have "spawn_all ts (spawned @ [t]) (s\<lparr>b_awaits := n\<rparr>) = (spawned', ok, s')"
      using Cons.prems by (simp add: await_def)
    from Cons.IH [OF this] show ?thesis
    proof (elim exE conjE)
      fix k m
      assume "spawned' = (spawned @ [t]) @ take k ts" "ok \<longrightarrow> spawned' = (spawned @ [t]) @ ts"
        "s' = s\<lparr>b_awaits := n\<rparr>\<lparr>b_awaits := m\<rparr>"
      then show ?thesis by (intro exI [of _ "Suc k"] exI [of _ m]) simp
    qed
  qed
qed

lemma start_tool_spec:
  assumes "batch_inv env items s" and "permits i (b_log s)"
    and "\<forall>r \<in> set (ran_indices (b_log s)). may_precede env items r i"
    and "start_tool env cwd i c s = (reply, s')"
  shows "batch_inv env items s'" and "b_results s' = b_results s" and "b_log s' = b_log s @ [Ran i]"
proof -
  obtain w where s': "s' = log_event (Ran i) (s\<lparr>b_world := w\<rparr>)"
    using assms(4) by (auto simp: start_tool_def Let_def split: prod.splits)
  have "batch_inv env items (s\<lparr>b_world := w\<rparr>)" using assms(1) by (simp add: batch_inv_def)
  then show "batch_inv env items s'" unfolding s' by (rule batch_inv_ran) (use assms(2,3) in auto)
  show "b_results s' = b_results s" and "b_log s' = b_log s @ [Ran i]" by (simp_all add: s' log_event_def)
qed

lemma run_tasks_spec:
  assumes "batch_inv env items s" and "set order \<subseteq> dom calls"
    and "\<forall>i \<in> set order. permits i (b_log s) \<and> parallel_at env items i"
    and "\<forall>r \<in> set (ran_indices (b_log s)). \<forall>i \<in> set order. may_precede env items r i"
    and "run_tasks env cwd calls order replies s = (replies', s')"
  shows "batch_inv env items s' \<and> b_results s' = b_results s \<and> ran_indices (b_log s') = ran_indices (b_log s) @ order"
  using assms
proof (induction order arbitrary: replies s)
  case Nil
  then show ?case by simp
next
  case (Cons i order)
  then obtain c where Some: "calls i = Some c" by auto
  obtain reply s1 where st: "start_tool env cwd i c s = (reply, s1)" by fastforce
  have pi: "permits i (b_log s)" "parallel_at env items i" using Cons.prems(3) by auto
  have mp: "\<forall>r \<in> set (ran_indices (b_log s)). may_precede env items r i" using Cons.prems(4) by simp
  note spec = start_tool_spec [OF Cons.prems(1) pi(1) mp st]
  have perm: "\<forall>j \<in> set order. permits j (b_log s1) \<and> parallel_at env items j"
    using Cons.prems(3) spec(3) permits_append by auto
  have prec: "\<forall>r \<in> set (ran_indices (b_log s1)). \<forall>j \<in> set order. may_precede env items r j"
    using Cons.prems(4) pi(2) perm spec(3) by (auto simp: may_precede_def)
  have rec: "run_tasks env cwd calls order (replies(i \<mapsto> reply)) s1 = (replies', s')"
    using Cons.prems(5) Some st by simp
  from Cons.IH [OF spec(1) _ perm prec rec] show ?case
    using Cons.prems(2) spec(2,3) by auto
qed

lemma set_complete_order [simp]: "set (complete_order order idx) = set idx"
  by (auto simp: complete_order_def)

lemma distinct_complete_order: "distinct idx \<Longrightarrow> distinct (complete_order order idx)"
  by (auto simp: complete_order_def)

lemma joined_result_names [simp]:
  "er_id (joined_result c reply) = call_id c" "er_tool (joined_result c reply) = call_name c"
  by (simp_all add: joined_result_def result_of_def Let_def split: option.split task_reply.split)

lemma cap_names [simp]:
  "er_id (cap_tool_result cap r) = er_id r" "er_tool (cap_tool_result cap r) = er_tool r"
  by (simp_all add: cap_tool_result_def)

lemma join_all_spec:
  assumes "batch_inv env items s" and "pending items s ts" and "join_all env replies ts s = (fl, s')"
  shows "batch_inv env items s' \<and> ran_indices (b_log s') = ran_indices (b_log s)
    \<and> (fl = Finished () \<longrightarrow> dom (b_results s') = dom (b_results s) \<union> fst ` set ts)"
  using assms
proof (induction ts arbitrary: s)
  case Nil
  then show ?case by auto
next
  case (Cons t ts)
  obtain i c where t: "t = (i, c)" by fastforce
  show ?case
  proof (cases "b_awaits s")
    case 0
    then show ?thesis using Cons.prems by (auto simp: t bind_b_def await_def)
  next
    case (Suc n)
    define r s1 where "r = cap_tool_result (e_cap env) (joined_result c (replies i))" and "s1 = publish i r (s\<lparr>b_awaits := n\<rparr>)"
    have item: "items ! i = ExCall c" "i < length items" "i \<notin> dom (b_results s)"
      using Cons.prems(2) by (auto simp: t pending_def)
    have inv1: "batch_inv env items s1"
      unfolding s1_def by (rule batch_inv_publish) (use Cons.prems(1) item in \<open>simp_all add: r_def\<close>)
    have pend1: "pending items s1 ts"
      unfolding s1_def by (rule pending_publish) (use Cons.prems(2) in \<open>simp add: t\<close>)
    have dom1: "dom (b_results s1) = insert i (dom (b_results s))" and ran1: "ran_indices (b_log s1) = ran_indices (b_log s)"
      by (auto simp: s1_def)
    have "join_all env replies ts s1 = (fl, s')"
      using Cons.prems(3) Suc by (simp add: t bind_b_def await_def update_b_def r_def s1_def)
    from Cons.IH [OF inv1 pend1 this, unfolded dom1 ran1] show ?thesis by (auto simp: t)
  qed
qed

lemma pending_take: "pending items s ts \<Longrightarrow> pending items s (take k ts)"
  by (auto simp: pending_def take_map [symmetric] dest: in_set_takeD intro: distinct_take)

lemma run_parallel_phase_spec:
  assumes inv: "batch_inv env items s" and pend: "pending items s ts"
    and perm: "\<forall>t \<in> set ts. permits (fst t) (b_log s) \<and> parallel_at env items (fst t)"
    and prec: "\<forall>r \<in> set (ran_indices (b_log s)). \<forall>t \<in> set ts. may_precede env items r (fst t)"
    and step: "run_parallel_phase env ts s = (fl, s')"
  shows "batch_inv env items s' \<and> set (ran_indices (b_log s')) \<subseteq> set (ran_indices (b_log s)) \<union> fst ` set ts
    \<and> (fl = Finished () \<longrightarrow> dom (b_results s') = dom (b_results s) \<union> fst ` set ts)"
proof -
  obtain spawned ok s1 where sp: "spawn_all ts [] s = (spawned, ok, s1)" by (metis prod.collapse)
  from spawn_all_spec [OF sp] obtain k n where spawned: "spawned = take k ts" "ok \<longrightarrow> spawned = ts" and s1: "s1 = s\<lparr>b_awaits := n\<rparr>"
    unfolding append_Nil by blast
  define order where "order = complete_order (e_schedule env (map fst spawned) (b_world s1)) (map fst spawned)"
  obtain replies s2 where rt: "run_tasks env (e_shell_cwd env (b_world s)) (map_of spawned) order Map.empty s1 = (replies, s2)"
    by fastforce
  have sub: "set spawned \<subseteq> set ts" using spawned(1) set_take_subset by metis
  have "batch_inv env items s2 \<and> b_results s2 = b_results s1 \<and> ran_indices (b_log s2) = ran_indices (b_log s1) @ order"
    by (rule run_tasks_spec [OF _ _ _ _ rt]) (use inv perm prec sub in \<open>auto simp: s1 order_def dom_map_of_conv_image_fst\<close>)
  then have inv2: "batch_inv env items s2" and res2: "b_results s2 = b_results s"
    and ran2: "ran_indices (b_log s2) = ran_indices (b_log s) @ order" by (simp_all add: s1)
  have "fst ` set spawned \<subseteq> fst ` set ts" using sub by blast
  then have ran_sub: "set (ran_indices (b_log s2)) \<subseteq> set (ran_indices (b_log s)) \<union> fst ` set ts"
    by (auto simp: ran2 order_def)
  show ?thesis
  proof (cases ok)
    case False
    then have "fl = Dropped" "s' = s2" using step sp rt by (simp_all add: run_parallel_phase_def order_def Let_def)
    then show ?thesis using inv2 ran_sub by simp
  next
    case True
    then have join: "join_all env replies ts s2 = (fl, s')"
      using step sp rt spawned(2) by (simp add: run_parallel_phase_def order_def Let_def)
    have "pending items s2 ts" using pend res2 by (simp add: pending_def)
    from join_all_spec [OF inv2 this join] show ?thesis using ran_sub res2 by simp
  qed
qed

lemma run_one_names:
  assumes "run_one env cwd i c s = (Finished r, s')"
  shows "er_id r = call_id c \<and> er_tool r = call_name c"
  using assms
  by (auto simp: run_one_def bind_b_def Let_def await_def result_of_def split: prod.splits task_reply.splits nat.splits)

lemma run_one_spec:
  assumes "batch_inv env items s" and "permits i (b_log s)"
    and "\<forall>r \<in> set (ran_indices (b_log s)). may_precede env items r i"
    and "run_one env cwd i c s = (fl, s')"
  shows "batch_inv env items s' \<and> b_results s' = b_results s \<and> ran_indices (b_log s') = ran_indices (b_log s) @ [i]"
proof -
  obtain reply s1 where st: "start_tool env cwd i c s = (reply, s1)" by fastforce
  note spec = start_tool_spec [OF assms(1-3) st]
  have "s' = s1 \<or> (\<exists>n. s' = s1\<lparr>b_awaits := n\<rparr>)"
    using assms(4) st by (auto simp: run_one_def bind_b_def Let_def await_def split: task_reply.splits nat.splits)
  then show ?thesis using spec by auto
qed

lemma run_barrier_spec:
  assumes inv: "batch_inv env items s" and item: "items ! i = ExCall (sc_call sc)" "i < length items" "i \<notin> dom (b_results s)"
    and prec: "\<forall>r \<in> set (ran_indices (b_log s)). may_precede env items r i"
    and step: "run_barrier env i sc s = (fl, s')"
  shows "batch_inv env items s' \<and> set (ran_indices (b_log s')) \<subseteq> insert i (set (ran_indices (b_log s)))
    \<and> (fl = Finished () \<longrightarrow> dom (b_results s') = insert i (dom (b_results s)))"
proof -
  let ?cwd = "e_shell_cwd env (b_world s)" and ?c = "sc_call sc"
  obtain v s1 where auth: "authorize_call env ?cwd i ?c s = (v, s1)" by fastforce
  note spec = authorize_call_spec [OF inv item(1) auth]
  have s1: "b_results s1 = b_results s" "ran_indices (b_log s1) = ran_indices (b_log s)"
    using spec(2) by (simp_all add: quiet_def)
  have pub: "batch_inv env items (publish i r s2) \<and> dom (b_results (publish i r s2)) = insert i (dom (b_results s))"
    if "batch_inv env items s2" "b_results s2 = b_results s" "er_id r = call_id ?c" "er_tool r = call_name ?c" for r s2
    using batch_inv_publish [OF that(1) item(2), of r] that item(1,3) by auto
  consider "v = Dropped \<or> (\<exists>e. v = Crashed e)" | r where "v = Finished (Some r)" | "v = Finished None" "sc_tool sc = None"
    | t where "v = Finished None" "sc_tool sc = Some t"
    by (metis flow.exhaust option.exhaust)
  then show ?thesis
  proof cases
    case 1
    then show ?thesis using step auth spec(1) s1 by (auto simp: run_barrier_def bind_b_def Let_def)
  next
    case (2 r)
    then have "fl = Finished ()" "s' = publish i r s1"
      using step auth by (simp_all add: run_barrier_def bind_b_def update_b_def Let_def)
    then show ?thesis using pub [OF spec(1) s1(1)] spec(4) [OF 2] s1 by auto
  next
    case 3
    then have "fl = Finished ()" "s' = publish i (unknown_tool_result ?c) s1"
      using step auth by (simp_all add: run_barrier_def bind_b_def update_b_def Let_def)
    then show ?thesis using pub [OF spec(1) s1(1), of "unknown_tool_result ?c"] s1 by (auto simp: unknown_tool_result_def)
  next
    case (4 t)
    obtain fr s2 where ro: "run_one env ?cwd i ?c s1 = (fr, s2)" by fastforce
    have prec1: "\<forall>r \<in> set (ran_indices (b_log s1)). may_precede env items r i" using prec s1 by simp
    note one = run_one_spec [OF spec(1) spec(3) [OF 4(1)] prec1 ro]
    show ?thesis
    proof (cases fr)
      case (Finished r)
      have "fl = Finished ()" "s' = publish i (cap_tool_result (e_cap env) r) s2"
        using step auth 4 ro Finished by (simp_all add: run_barrier_def bind_b_def update_b_def Let_def)
      then show ?thesis
        using pub [of s2 "cap_tool_result (e_cap env) r"] run_one_names [OF ro [unfolded Finished]] one s1 by auto
    qed (use step auth 4 ro one s1 in \<open>auto simp: run_barrier_def bind_b_def Let_def\<close>)
  qed
qed

text \<open>The scheduled calls that are still ahead of the cursor.\<close>

definition ahead :: "'w batch_env \<Rightarrow> exec_item list \<Rightarrow> 'w batch_state \<Rightarrow> (nat \<times> scheduled_call) list \<Rightarrow> bool" where
  "ahead env items s ts \<longleftrightarrow> sorted_wrt (<) (map fst ts)
     \<and> (\<forall>t \<in> set ts. fst t < length items \<and> items ! fst t = ExCall (sc_call (snd t)) \<and> snd t = schedule_call env (sc_call (snd t)))
     \<and> fst ` set ts \<inter> dom (b_results s) = {}
     \<and> (\<forall>r \<in> set (ran_indices (b_log s)). \<forall>t \<in> set ts. r < fst t)"

lemma ahead_split:
  assumes "ahead env items s (ps @ rs)" and "set (ran_indices (b_log s')) \<subseteq> set (ran_indices (b_log s)) \<union> fst ` set ps"
    and "dom (b_results s') \<subseteq> dom (b_results s) \<union> fst ` set ps"
  shows "ahead env items s' rs"
proof -
  have lt: "fst p < fst r" if "p \<in> set ps" "r \<in> set rs" for p r
    using assms(1) that by (simp add: ahead_def sorted_wrt_append)
  have "fst ` set rs \<inter> fst ` set ps = {}" using lt by force
  moreover have "fst ` set rs \<inter> dom (b_results s) = {}" using assms(1) by (auto simp: ahead_def)
  moreover have "fst ` set rs \<inter> dom (b_results s') \<subseteq> fst ` set rs \<inter> (dom (b_results s) \<union> fst ` set ps)"
    by (rule Int_mono [OF subset_refl assms(3)])
  ultimately have "fst ` set rs \<inter> dom (b_results s') = {}" by (simp add: Int_Un_distrib)
  moreover have "r < fst t" if r: "r \<in> set (ran_indices (b_log s'))" and t: "t \<in> set rs" for r t
  proof (cases "r \<in> set (ran_indices (b_log s))")
    case True
    then show ?thesis using assms(1) t by (simp add: ahead_def)
  next
    case False
    with r assms(2) have "r \<in> fst ` set ps" by blast
    then obtain p where "r = fst p" "p \<in> set ps" by (rule imageE)
    then show ?thesis using lt t by simp
  qed
  ultimately show ?thesis using assms(1) by (simp add: ahead_def sorted_wrt_append)
qed

lemma ahead_pending:
  assumes "ahead env items s ts" and "\<forall>t \<in> set ts. is_parallel t"
  shows "pending items s (map (\<lambda>(i, sc). (i, sc_call sc)) ts)"
    and "\<forall>t \<in> set (map (\<lambda>(i, sc). (i, sc_call sc)) ts). parallel_at env items (fst t)"
proof -
  have fst: "map fst (map (\<lambda>(i, sc). (i, sc_call sc)) ts) = map fst ts" by (induction ts) auto
  then have img: "fst ` set (map (\<lambda>(i, sc). (i, sc_call sc)) ts) = fst ` set ts" by (metis set_map)
  show "pending items s (map (\<lambda>(i, sc). (i, sc_call sc)) ts)"
    using assms(1) unfolding pending_def fst img by (auto simp: ahead_def strict_sorted_iff)
  have "parallel_at env items (fst t)" if "t \<in> set ts" for t
  proof -
    have "items ! fst t = ExCall (sc_call (snd t))" "schedule_call env (sc_call (snd t)) = snd t"
      using assms(1) that by (auto simp: ahead_def)
    then show ?thesis using assms(2) that by (simp add: parallel_at_def is_parallel_def)
  qed
  then show "\<forall>t \<in> set (map (\<lambda>(i, sc). (i, sc_call sc)) ts). parallel_at env items (fst t)" by auto
qed

lemma batch_loop_spec:
  assumes "batch_inv env items s" and "ahead env items s ts" and "batch_loop env ts s = (fl, s')"
  shows "batch_inv env items s' \<and> (fl = Finished () \<longrightarrow> dom (b_results s') = dom (b_results s) \<union> fst ` set ts)"
  using assms
proof (induction ts arbitrary: s rule: length_induct)
  case (1 ts)
  note IH = "1.IH" [rule_format]
  show ?case
  proof (cases ts)
    case Nil
    then show ?thesis using "1.prems" by (auto simp: batch_loop.simps)
  next
    case (Cons t us)
    show ?thesis
    proof (cases "is_parallel t")
      case False
      obtain fb s1 where bar: "run_barrier env (fst t) (snd t) s = (fb, s1)" by fastforce
      have item: "items ! fst t = ExCall (sc_call (snd t))" "fst t < length items" "fst t \<notin> dom (b_results s)"
        and prec: "\<forall>r \<in> set (ran_indices (b_log s)). may_precede env items r (fst t)"
        using "1.prems"(2) by (auto simp: Cons ahead_def may_precede_def)
      note spec = run_barrier_spec [OF "1.prems"(1) item prec bar]
      show ?thesis
      proof (cases "fb = Finished ()")
        case True
        have "ahead env items s ([t] @ us)" using "1.prems"(2) by (simp add: Cons)
        then have ah: "ahead env items s1 us" by (rule ahead_split) (use spec True in auto)
        have "batch_loop env us s1 = (fl, s')"
          using "1.prems"(3) False bar True by (simp add: Cons batch_loop.simps bind_b_def)
        from IH [OF _ _ ah this] show ?thesis using spec True by (simp add: Cons)
      next
        case fail: False
        then have "s' = s1" "fl \<noteq> Finished ()"
          using "1.prems"(3) False bar by (cases fb; auto simp: Cons batch_loop.simps bind_b_def)+
        then show ?thesis using spec by simp
      qed
    next
      case True
      define ps rs where "ps = t # takeWhile is_parallel us" and "rs = dropWhile is_parallel us"
      have ts: "ts = ps @ rs" by (simp add: Cons ps_def rs_def)
      have par: "\<forall>t \<in> set ps. is_parallel t" using True by (auto simp: ps_def dest: set_takeWhileD)
      have ahp: "ahead env items s ps" using "1.prems"(2) by (auto simp: ts ahead_def sorted_wrt_append)
      let ?calls = "map (\<lambda>(i, sc). (i, sc_call sc)) ps" and ?cwd = "e_shell_cwd env (b_world s)"
      have fsts: "fst ` set ?calls = fst ` set ps" by force
      obtain fa s1 where auth: "authorize_phase env ?cwd ?calls [] s = (fa, s1)" by fastforce
      have "batch_inv env items s1 \<and> ran_indices (b_log s1) = ran_indices (b_log s)
        \<and> (\<forall>al. fa = Finished al \<longrightarrow> pending items s1 al \<and> (\<forall>t \<in> set al. permits (fst t) (b_log s1))
         \<and> set al \<subseteq> set ([] @ ?calls) \<and> dom (b_results s1) \<union> fst ` set al = dom (b_results s) \<union> fst ` set ([] @ ?calls))"
        by (rule authorize_phase_spec [OF "1.prems"(1) _ _ auth]) (use ahead_pending(1) [OF ahp par] in auto)
      note spec = this [unfolded append_Nil fsts]
      have loop: "batch_loop env ts s = bind_b (authorize_phase env ?cwd ?calls []) (\<lambda>allowed. bind_b (run_parallel_phase env allowed)
          (\<lambda>_. batch_loop env rs)) s"
        using True by (simp add: Cons batch_loop.simps ps_def rs_def Let_def)
      show ?thesis
      proof (cases fa)
        case (Finished al)
        obtain fp s2 where ph: "run_parallel_phase env al s1 = (fp, s2)" by fastforce
        have sub: "fst ` set al \<subseteq> fst ` set ps" using spec Finished fsts by blast
        have "batch_inv env items s2 \<and> set (ran_indices (b_log s2)) \<subseteq> set (ran_indices (b_log s1)) \<union> fst ` set al
            \<and> (fp = Finished () \<longrightarrow> dom (b_results s2) = dom (b_results s1) \<union> fst ` set al)"
        proof (rule run_parallel_phase_spec [OF _ _ _ _ ph])
          show "\<forall>t \<in> set al. permits (fst t) (b_log s1) \<and> parallel_at env items (fst t)"
            using spec Finished ahead_pending(2) [OF ahp par] by blast
          show "\<forall>r \<in> set (ran_indices (b_log s1)). \<forall>t \<in> set al. may_precede env items r (fst t)"
            using spec ahp sub by (fastforce simp: ahead_def may_precede_def)
        qed (use spec Finished in auto)
        note phase = this
        show ?thesis
        proof (cases "fp = Finished ()")
          case True
          have dom2: "dom (b_results s2) = dom (b_results s) \<union> fst ` set ps" using phase True spec Finished by auto
          have ran1: "ran_indices (b_log s1) = ran_indices (b_log s)" using spec by blast
          have "set (ran_indices (b_log s2)) \<subseteq> set (ran_indices (b_log s1)) \<union> fst ` set al" using phase by blast
          then have "set (ran_indices (b_log s2)) \<subseteq> set (ran_indices (b_log s)) \<union> fst ` set ps"
            unfolding ran1 using sub by blast
          then have ah: "ahead env items s2 rs"
            by (rule ahead_split [OF "1.prems"(2) [unfolded ts]]) (use dom2 in auto)
          have step: "batch_loop env rs s2 = (fl, s')"
            using "1.prems"(3) loop auth Finished ph True by (simp add: bind_b_def)
          have "length rs < length ts" by (simp add: ts ps_def)
          from IH [OF this _ ah step] show ?thesis using phase dom2 by (auto simp: ts)
        next
          case fail: False
          then have "s' = s2" "fl \<noteq> Finished ()"
            using "1.prems"(3) loop auth Finished ph by (cases fp; auto simp: bind_b_def)+
          then show ?thesis using phase by simp
        qed
      qed (use "1.prems"(3) loop auth spec in \<open>auto simp: bind_b_def\<close>)
    qed
  qed
qed

lemma batch_inv_record:
  assumes "batch_inv env items s" and "i < length items" and "i \<notin> dom (b_results s)"
    and "er_id r = item_id (items ! i)" and "er_tool r = item_name (items ! i)"
  shows "batch_inv env items (record_batch_result i r s)"
  using assms unfolding batch_inv_def record_batch_result_def by (auto simp: nth_list_update)

lemma schedule_items_spec:
  assumes "batch_inv env (pre @ items) s" and "dom (b_results s) \<subseteq> {..<length pre}" and "b_log s = []"
    and "schedule_items env (length pre) items s = (ts, s')"
  shows "batch_inv env (pre @ items) s' \<and> b_log s' = [] \<and> b_awaits s' = b_awaits s
    \<and> sorted_wrt (<) (map fst ts) \<and> length ts \<le> length items
    \<and> (\<forall>t \<in> set ts. length pre \<le> fst t \<and> fst t < length (pre @ items)
         \<and> (pre @ items) ! fst t = ExCall (sc_call (snd t)) \<and> snd t = schedule_call env (sc_call (snd t)))
    \<and> fst ` set ts \<inter> dom (b_results s') = {}
    \<and> dom (b_results s') \<union> fst ` set ts = dom (b_results s) \<union> {length pre..<length (pre @ items)}"
  using assms
proof (induction items arbitrary: pre s ts)
  case Nil
  then show ?case by auto
next
  case (Cons item items)
  have range: "{length pre..<length (pre @ item # items)} = insert (length pre) {length (pre @ [item])..<length ((pre @ [item]) @ items)}"
    by auto
  show ?case
  proof (cases item)
    case (ExCall c)
    obtain us where us: "schedule_items env (length (pre @ [item])) items s = (us, s')" "ts = (length pre, schedule_call env c) # us"
      using Cons.prems(4) by (auto simp: ExCall split: prod.splits)
    have "dom (b_results s) \<subseteq> {..<length (pre @ [item])}" using Cons.prems(2) by force
    note IH = Cons.IH [OF _ this Cons.prems(3) us(1)]
    have fresh: "length pre \<notin> dom (b_results s')"
    proof
      assume "length pre \<in> dom (b_results s')"
      then have "length pre \<in> dom (b_results s) \<union> {length (pre @ [item])..<length ((pre @ [item]) @ items)}"
        using IH Cons.prems(1) by auto
      then show False using Cons.prems(2) by auto
    qed
    have sc: "sc_call (schedule_call env c) = c" by (simp add: schedule_call_def split: option.split)
    show ?thesis
      using IH Cons.prems(1) fresh unfolding us(2) range by (auto simp: ExCall sc nth_append)
  next
    case (ExParseError cid name err)
    define s1 where "s1 = record_batch_result (length pre) (parse_error_result cid name err) s"
    have inv1: "batch_inv env ((pre @ [item]) @ items) s1"
      using batch_inv_record [OF Cons.prems(1), of "length pre" "parse_error_result cid name err"] Cons.prems(2)
      by (auto simp: s1_def ExParseError parse_error_result_def nth_append)
    have d1: "dom (b_results s1) = insert (length pre) (dom (b_results s))" and l1: "b_log s1 = []" "b_awaits s1 = b_awaits s"
      using Cons.prems(3) by (auto simp: s1_def record_batch_result_def)
    have "dom (b_results s1) \<subseteq> {..<length (pre @ [item])}" using Cons.prems(2) by (auto simp: d1)
    moreover have "schedule_items env (length (pre @ [item])) items s1 = (ts, s')"
      using Cons.prems(4) by (simp add: ExParseError s1_def)
    ultimately show ?thesis
      using Cons.IH [OF inv1 _ l1(1), of ts] l1(2) unfolding d1 range by auto
  qed
qed

lemma batch_inv_start: "batch_inv env items (batch_start (length items) k w grants)"
  by (simp add: batch_inv_def batch_start_def authorised_def genuine_def)

lemma schedule_start:
  assumes "schedule_items env 0 items (batch_start (length items) k w grants) = (ts, s)"
  shows "batch_inv env items s" and "ahead env items s ts" and "b_awaits s = k" and "length ts \<le> length items"
    and "dom (b_results s) \<union> fst ` set ts = {..<length items}"
proof -
  have "dom (b_results (batch_start (length items) k w grants)) \<subseteq> {..<length []}" "b_log (batch_start (length items) k w grants) = []"
    by (simp_all add: batch_start_def)
  from schedule_items_spec [where pre = "[]", simplified, OF batch_inv_start this [simplified] assms]
  show "batch_inv env items s" and "ahead env items s ts" and "b_awaits s = k" and "length ts \<le> length items"
    and "dom (b_results s) \<union> fst ` set ts = {..<length items}"
    by (auto simp: ahead_def batch_start_def atLeast0LessThan)
qed

lemma scheduled_calls:
  assumes "schedule_items env 0 items (batch_start (length items) k w grants) = (ts, s)" and "t \<in> set ts"
  shows "ExCall (sc_call (snd t)) \<in> set items \<and> snd t = schedule_call env (sc_call (snd t))"
proof -
  have "dom (b_results (batch_start (length items) k w grants)) \<subseteq> {..<length []}" "b_log (batch_start (length items) k w grants) = []"
    by (simp_all add: batch_start_def)
  from schedule_items_spec [where pre = "[]", simplified, OF batch_inv_start this [simplified] assms(1)] assms(2)
  show ?thesis by (metis nth_mem)
qed

fun silent :: "batch_event \<Rightarrow> bool" where
  "silent (Ran _) = False"
| "silent (Checked _ _) = False"
| "silent _ = True"

text \<open>The last loop emits exactly the recorded results that were not emitted before.\<close>

lemma emit_rest_fold:
  assumes "distinct order" and "set order \<subseteq> dom (b_results s)" and "distinct (end_indices (b_log s))"
    and "set (end_indices (b_log s)) \<inter> set order \<subseteq> b_emitted s" and "b_emitted s \<subseteq> set (end_indices (b_log s))"
  shows "distinct (end_indices (b_log (fold emit_rest order s)))
    \<and> set (end_indices (b_log (fold emit_rest order s))) = set (end_indices (b_log s)) \<union> set order
    \<and> b_results (fold emit_rest order s) = b_results s
    \<and> ran_indices (b_log (fold emit_rest order s)) = ran_indices (b_log s)
    \<and> (\<exists>es. b_log (fold emit_rest order s) = b_log s @ es \<and> list_all silent es)"
  using assms
proof (induction order arbitrary: s)
  case Nil
  then show ?case by simp
next
  case (Cons i order)
  obtain r where r: "b_results s i = Some r" using Cons.prems(2) by auto
  define s1 where "s1 = emit_rest i s"
  have s1: "b_results s1 = b_results s" "b_emitted s1 = b_emitted s" "ran_indices (b_log s1) = ran_indices (b_log s)"
    "end_indices (b_log s1) = end_indices (b_log s) @ (if i \<in> b_emitted s then [] else [i])"
    "\<exists>es. b_log s1 = b_log s @ es \<and> list_all silent es"
    by (auto simp: s1_def emit_rest_def r mark_batch_emitted_def emit_tool_completion_def list_all_iff)
  have new: "i \<notin> b_emitted s \<Longrightarrow> i \<notin> set (end_indices (b_log s))" using Cons.prems(4) by auto
  have ends: "set (end_indices (b_log s1)) = insert i (set (end_indices (b_log s)))"
    using s1(4) Cons.prems(5) by auto
  have "distinct (end_indices (b_log (fold emit_rest order s1)))
    \<and> set (end_indices (b_log (fold emit_rest order s1))) = set (end_indices (b_log s1)) \<union> set order
    \<and> b_results (fold emit_rest order s1) = b_results s1
    \<and> ran_indices (b_log (fold emit_rest order s1)) = ran_indices (b_log s1)
    \<and> (\<exists>es. b_log (fold emit_rest order s1) = b_log s1 @ es \<and> list_all silent es)"
  proof (rule Cons.IH)
    show "set (end_indices (b_log s1)) \<inter> set order \<subseteq> b_emitted s1"
      unfolding ends s1(2) using Cons.prems(1,4) by auto
    show "distinct (end_indices (b_log s1))" using s1(4) new Cons.prems(3) by auto
    show "b_emitted s1 \<subseteq> set (end_indices (b_log s1))" unfolding ends s1(2) using Cons.prems(5) by auto
  qed (use Cons.prems(1,2) s1(1) in auto)
  moreover obtain es where es: "b_log s1 = b_log s @ es" "list_all silent es" using s1(5) by blast
  ultimately show ?case
    using s1(1,3) ends by (auto simp: s1_def [symmetric])
qed

text \<open>A batch whose loop finishes has a result for every item.\<close>

lemma loop_finished:
  assumes "schedule_items env 0 items (batch_start (length items) k w grants) = (ts, s0)" and "batch_loop env ts s0 = (Finished (), s1)"
  defines "s \<equiv> fold emit_rest (complete_order (e_iteration env [0..<length items]) [0..<length items]) s1"
  shows "execute_batch env items (batch_start (length items) k w grants) = (Finished (map (\<lambda>i. the (b_results s i)) [0..<length items]), s)"
    and "b_results s = b_results s1" and "dom (b_results s1) = {..<length items}"
proof -
  note st = schedule_start [OF assms(1)]
  have inv: "batch_inv env items s1" and dom: "dom (b_results s1) = {..<length items}"
    using batch_loop_spec [OF st(1,2) assms(2)] st(5) by auto
  have same: "b_results (emit_rest i t) = b_results t" for i and t :: "'a batch_state"
    by (simp add: emit_rest_def mark_batch_emitted_def emit_tool_completion_def split: option.split)
  have "b_results (fold emit_rest order t) = b_results t" for order and t :: "'a batch_state"
    by (induction order arbitrary: t) (simp_all add: same)
  then show res: "b_results s = b_results s1" by (simp add: s_def)
  have "b_results s i \<noteq> None" if "i < length items" for i using dom res that by (metis domIff lessThan_iff)
  then have "list_all (\<lambda>i. b_results s i \<noteq> None) [0..<length items]" by (simp add: list_all_iff)
  then show "execute_batch env items (batch_start (length items) k w grants) = (Finished (map (\<lambda>i. the (b_results s i)) [0..<length items]), s)"
    using assms(1,2) by (simp add: execute_batch_def bind_b_def Let_def s_def)
  show "dom (b_results s1) = {..<length items}" by (rule dom)
qed

text \<open>Everything the invariant gives for a batch, however it ends.\<close>

lemma execute_batch_spec:
  assumes "execute_batch env items (batch_start (length items) k w grants) = (fl, s)"
  shows "authorised (b_log s)" and "genuine env items (b_log s)"
    and "sorted_wrt (may_precede env items) (ran_indices (b_log s))"
    and "\<And>rs. fl = Finished rs \<Longrightarrow> map er_id rs = map item_id items \<and> map er_tool rs = map item_name items
           \<and> distinct (end_indices (b_log s)) \<and> set (end_indices (b_log s)) = {..<length items}"
    and "fl = Dropped \<Longrightarrow> batch_inv env items s"
proof -
  obtain ts s0 where sch: "schedule_items env 0 items (batch_start (length items) k w grants) = (ts, s0)" by fastforce
  note st = schedule_start [OF sch]
  obtain fb s1 where loop: "batch_loop env ts s0 = (fb, s1)" by fastforce
  note spec = batch_loop_spec [OF st(1,2) loop]
  let ?n = "length items"
  let ?order = "complete_order (e_iteration env [0..<?n]) [0..<?n]"
  have "authorised (b_log s) \<and> genuine env items (b_log s) \<and> sorted_wrt (may_precede env items) (ran_indices (b_log s))
      \<and> (\<forall>rs. fl = Finished rs \<longrightarrow> map er_id rs = map item_id items \<and> map er_tool rs = map item_name items
           \<and> distinct (end_indices (b_log s)) \<and> set (end_indices (b_log s)) = {..<?n})
      \<and> (fl = Dropped \<longrightarrow> batch_inv env items s)"
  proof (cases "fb = Finished ()")
    case False
    then have "s = s1" "\<And>rs. fl \<noteq> Finished rs"
      using assms sch loop by (cases fb; auto simp: execute_batch_def bind_b_def Let_def)+
    then show ?thesis using spec by (simp add: batch_inv_def)
  next
    case True
    then have res: "fl = Finished (map (\<lambda>i. the (b_results s i)) [0..<?n])" "s = fold emit_rest ?order s1"
      using assms loop_finished(1) [OF sch] loop True by auto
    have inv: "batch_inv env items s1" and dom: "dom (b_results s1) = {..<?n}" using spec True st(5) by auto
    have "distinct (end_indices (b_log s)) \<and> set (end_indices (b_log s)) = set (end_indices (b_log s1)) \<union> set ?order
      \<and> b_results s = b_results s1 \<and> ran_indices (b_log s) = ran_indices (b_log s1)
      \<and> (\<exists>es. b_log s = b_log s1 @ es \<and> list_all silent es)"
      unfolding res(2)
      by (rule emit_rest_fold) (use inv dom in \<open>auto simp: batch_inv_def distinct_complete_order\<close>)
    then obtain es where fin: "distinct (end_indices (b_log s))" "set (end_indices (b_log s)) = set (end_indices (b_log s1)) \<union> set ?order"
      "b_results s = b_results s1" "ran_indices (b_log s) = ran_indices (b_log s1)" "b_log s = b_log s1 @ es" "list_all silent es" by blast
    have "er_id (the (b_results s i)) = item_id (items ! i) \<and> er_tool (the (b_results s i)) = item_name (items ! i)" if "i < ?n" for i
    proof -
      obtain r where "b_results s1 i = Some r" using dom \<open>i < ?n\<close> by (metis domD lessThan_iff)
      then show ?thesis using inv fin(3) by (auto simp: batch_inv_def)
    qed
    then have names: "map er_id (map (\<lambda>i. the (b_results s i)) [0..<?n]) = map item_id items
        \<and> map er_tool (map (\<lambda>i. the (b_results s i)) [0..<?n]) = map item_name items"
      by (auto intro!: nth_equalityI)
    have "set (end_indices (b_log s)) = {..<?n}"
      using fin(2) inv dom by (auto simp: batch_inv_def)
    moreover have "authorised (b_log s)"
      unfolding fin(5) by (rule authorised_append_quiet) (use inv fin(6) in \<open>auto simp: batch_inv_def list_all_iff\<close>)
    moreover have "genuine env items (b_log s)"
      using inv fin(5,6) by (fastforce simp: batch_inv_def genuine_def list_all_iff)
    ultimately show ?thesis using inv names fin(1,4) res(1) by (auto simp: batch_inv_def)
  qed
  then show "authorised (b_log s)" and "genuine env items (b_log s)"
    and "sorted_wrt (may_precede env items) (ran_indices (b_log s))"
    and "\<And>rs. fl = Finished rs \<Longrightarrow> map er_id rs = map item_id items \<and> map er_tool rs = map item_name items
           \<and> distinct (end_indices (b_log s)) \<and> set (end_indices (b_log s)) = {..<length items}"
    and "fl = Dropped \<Longrightarrow> batch_inv env items s" by blast+
qed

lemma poll_batch_cases:
  assumes "poll_batch env items (batch_start (length items) k w grants) = (fl, s)"
  obtains "k = 0" "fl = Dropped" "s = batch_start (length items) 0 w grants"
  | j where "k = Suc j" "execute_batch env items (batch_start (length items) j w grants) = (fl, s)"
proof (cases k)
  case 0
  then show thesis using assms that(1) by (simp add: poll_batch_def bind_b_def await_def batch_start_def)
next
  case (Suc j)
  have "(batch_start (length items) (Suc j) w grants)\<lparr>b_awaits := j\<rparr> = batch_start (length items) j w grants" by (simp add: batch_start_def)
  then show thesis using assms that(2) [OF Suc] by (simp add: poll_batch_def bind_b_def await_def Suc) (simp add: batch_start_def)
qed

lemma finish_partial_spec:
  assumes inv: "batch_inv env items s" and ids: "map call_id calls = drop i (map item_id items)" and i: "i \<le> length items"
    and fin: "finish_partial_batch s i calls = (turns, events)"
  shows "list_all2 is_answer calls turns \<and> end_indices events = filter (\<lambda>j. j \<notin> cp_emitted s) [i..<length items]"
  using ids i fin
proof (induction calls arbitrary: i turns events)
  case Nil
  then show ?case by auto
next
  case (Cons c cs)
  have lt: "i < length items" using Cons.prems(1) by (metis drop_eq_Nil length_map list.simps(3) list.simps(9) not_le)
  have d: "drop i (map item_id items) = item_id (items ! i) # drop (Suc i) (map item_id items)"
    using lt by (metis Cons_nth_drop_Suc length_map nth_map)
  then have id: "call_id c = item_id (items ! i)" and rest: "map call_id cs = drop (Suc i) (map item_id items)"
    using Cons.prems(1) by auto
  obtain ts es where rec: "finish_partial_batch s (Suc i) cs = (ts, es)" by fastforce
  note IH = Cons.IH [OF rest _ rec]
  have len: "length (cp_results s) = length items" and cp: "cp_results s ! i = b_results s i"
    using inv lt by (auto simp: batch_inv_def)
  have upt: "[i..<length items] = i # [Suc i..<length items]" using lt by (simp add: upt_conv_Cons)
  show ?case
  proof (cases "cp_results s ! i")
    case None
    then have "b_results s i = None" using cp by simp
    then have "i \<notin> cp_emitted s" using inv by (auto simp: batch_inv_def)
    then show ?thesis using Cons.prems(3) None rec IH lt len upt by (auto simp: interrupted_turn_def)
  next
    case (Some r)
    then have "er_id r = call_id c" using inv cp id by (auto simp: batch_inv_def)
    then show ?thesis using Cons.prems(3) Some rec IH lt len upt by (auto simp: result_turn_def)
  qed
qed

section \<open>Progress\<close>

text \<open>
  A computation that uses at most \<open>k\<close> awaits is never dropped when \<open>k\<close> of them complete.
\<close>

definition uses_awaits :: "('w, 'a) batch \<Rightarrow> nat \<Rightarrow> bool" where
  "uses_awaits m k \<longleftrightarrow> (\<forall>s. k \<le> b_awaits s \<longrightarrow> fst (m s) \<noteq> Dropped \<and> b_awaits s \<le> b_awaits (snd (m s)) + k)"

lemma uses_bind:
  fixes m :: "('w, 'a) batch"
  assumes "uses_awaits m k" and "\<And>a. uses_awaits (f a) l"
  shows "uses_awaits (bind_b m f) (k + l)"
  unfolding uses_awaits_def
proof (intro allI impI)
  fix s :: "'w batch_state"
  assume le: "k + l \<le> b_awaits s"
  obtain fl s1 where m: "m s = (fl, s1)" by fastforce
  have 1: "fl \<noteq> Dropped" "b_awaits s \<le> b_awaits s1 + k"
    using assms(1) le m unfolding uses_awaits_def by (metis add_leD1 fst_conv snd_conv)+
  show "fst (bind_b m f s) \<noteq> Dropped \<and> b_awaits s \<le> b_awaits (snd (bind_b m f s)) + (k + l)"
  proof (cases fl)
    case (Finished a)
    have "l \<le> b_awaits s1" using 1(2) le by simp
    then have "fst (f a s1) \<noteq> Dropped \<and> b_awaits s1 \<le> b_awaits (snd (f a s1)) + l"
      using assms(2) unfolding uses_awaits_def by blast
    then show ?thesis using m Finished 1(2) by (simp add: bind_b_def)
  qed (use m 1 in \<open>simp_all add: bind_b_def\<close>)
qed

lemma uses_await: "uses_awaits await 1"
  by (auto simp: uses_awaits_def await_def split: nat.split)

lemma uses_weaken: "uses_awaits m k \<Longrightarrow> k \<le> l \<Longrightarrow> uses_awaits m l"
  unfolding uses_awaits_def by (meson add_le_mono le_refl order_trans)

lemma uses_update: "(\<And>s. b_awaits (f s) = b_awaits s) \<Longrightarrow> uses_awaits (update_b f) 0"
  by (simp add: uses_awaits_def update_b_def)

lemma uses_publish: "uses_awaits (update_b (publish i r)) 0"
  by (rule uses_update) simp

lemma uses_finish: "uses_awaits (\<lambda>s. (Finished a, s)) 0"
  by (simp add: uses_awaits_def)

lemma uses_authorize: "uses_awaits (authorize_call env cwd i c) 1"
  unfolding uses_awaits_def
  by (auto simp: authorize_call_def Let_def log_event_def bind_b_def await_def
      split: decision.split nat.split ask_response.split prod.split)

lemma uses_run_one: "uses_awaits (run_one env cwd i c) 1"
  unfolding uses_awaits_def
  by (auto simp: run_one_def start_tool_def Let_def log_event_def bind_b_def await_def
      split: nat.split task_reply.split prod.split)

lemma uses_authorize_phase: "uses_awaits (authorize_phase env cwd ts allowed) (length ts)"
proof (induction ts arbitrary: allowed)
  case Nil
  then show ?case by (simp add: uses_awaits_def)
next
  case (Cons t ts)
  obtain i c where t: "t = (i, c)" by fastforce
  have "uses_awaits (case v of Some r \<Rightarrow> bind_b (update_b (publish i r)) (\<lambda>_. authorize_phase env cwd ts allowed)
       | None \<Rightarrow> authorize_phase env cwd ts (allowed @ [(i, c)])) (length ts)" for v
    using Cons.IH uses_bind [OF uses_publish, of "\<lambda>_. authorize_phase env cwd ts allowed" "length ts" i]
    by (cases v) simp_all
  from uses_bind [OF uses_authorize [of env cwd i c] this] show ?case
    unfolding t by (simp add: uses_awaits_def)
qed

lemma authorize_phase_length:
  "authorize_phase env cwd ts allowed s = (Finished al, s') \<Longrightarrow> length al \<le> length allowed + length ts"
proof (induction ts arbitrary: allowed s)
  case (Cons t ts)
  obtain i c where t: "t = (i, c)" by fastforce
  obtain v s1 where auth: "authorize_call env cwd i c s = (v, s1)" by fastforce
  show ?case
  proof (cases v)
    case (Finished r)
    show ?thesis
    proof (cases r)
      case None
      then have "authorize_phase env cwd ts (allowed @ [(i, c)]) s1 = (Finished al, s')"
        using Cons.prems auth Finished by (simp add: t bind_b_def)
      from Cons.IH [OF this] show ?thesis by simp
    next
      case (Some x)
      then have "authorize_phase env cwd ts allowed (publish i x s1) = (Finished al, s')"
        using Cons.prems auth Finished by (simp add: t bind_b_def update_b_def)
      from Cons.IH [OF this] show ?thesis by simp
    qed
  qed (use Cons.prems auth in \<open>simp_all add: t bind_b_def\<close>)
qed simp

lemma uses_join_all: "uses_awaits (join_all env replies ts) (length ts)"
proof (induction ts)
  case Nil
  then show ?case by (simp add: uses_awaits_def)
next
  case (Cons t ts)
  obtain i c where t: "t = (i, c)" by fastforce
  have "uses_awaits (bind_b (update_b (publish i (cap_tool_result (e_cap env) (joined_result c (replies i)))))
       (\<lambda>_. join_all env replies ts)) (0 + length ts)"
    by (rule uses_bind [OF uses_publish]) (rule Cons.IH)
  then have "uses_awaits (bind_b await (\<lambda>_. bind_b (update_b (publish i (cap_tool_result (e_cap env) (joined_result c (replies i)))))
       (\<lambda>_. join_all env replies ts))) (1 + length ts)"
    by (intro uses_bind [OF uses_await]) simp
  then show ?case unfolding t by (simp add: uses_awaits_def)
qed

lemma spawn_all_uses:
  "length ts \<le> b_awaits s \<Longrightarrow> spawn_all ts sp s = (sp @ ts, True, s\<lparr>b_awaits := b_awaits s - length ts\<rparr>)"
proof (induction ts arbitrary: sp s)
  case (Cons t ts)
  then obtain n where n: "b_awaits s = Suc n" by (cases "b_awaits s") auto
  have "spawn_all ts (sp @ [t]) (s\<lparr>b_awaits := n\<rparr>) = ((sp @ [t]) @ ts, True, s\<lparr>b_awaits := n - length ts\<rparr>)"
    using Cons.IH [of "s\<lparr>b_awaits := n\<rparr>" "sp @ [t]"] Cons.prems n by simp
  then show ?case using n by (simp add: await_def)
qed simp

lemma run_tasks_awaits: "run_tasks env cwd calls order replies s = (replies', s') \<Longrightarrow> b_awaits s' = b_awaits s"
proof (induction order arbitrary: replies s)
  case (Cons i order)
  then show ?case
    by (cases "calls i") (auto simp: start_tool_def log_event_def Let_def split: prod.splits)
qed simp

lemma uses_parallel_phase: "uses_awaits (run_parallel_phase env ts) (2 * length ts)"
  unfolding uses_awaits_def
proof (intro allI impI)
  fix s :: "'a batch_state"
  assume le: "2 * length ts \<le> b_awaits s"
  define s1 where "s1 = s\<lparr>b_awaits := b_awaits s - length ts\<rparr>"
  have sp: "spawn_all ts [] s = (ts, True, s1)" using spawn_all_uses [of ts s "[]"] le by (simp add: s1_def)
  obtain replies s2 where rt: "run_tasks env (e_shell_cwd env (b_world s)) (map_of ts)
      (complete_order (e_schedule env (map fst ts) (b_world s1)) (map fst ts)) Map.empty s1 = (replies, s2)" by fastforce
  have aw: "b_awaits s2 = b_awaits s - length ts" using run_tasks_awaits [OF rt] by (simp add: s1_def)
  have "run_parallel_phase env ts s = join_all env replies ts s2"
    using sp rt by (simp add: run_parallel_phase_def Let_def)
  moreover have "fst (join_all env replies ts s2) \<noteq> Dropped \<and> b_awaits s2 \<le> b_awaits (snd (join_all env replies ts s2)) + length ts"
    using uses_join_all [of env replies ts, unfolded uses_awaits_def, rule_format, of s2] aw le by simp
  ultimately show "fst (run_parallel_phase env ts s) \<noteq> Dropped \<and> b_awaits s \<le> b_awaits (snd (run_parallel_phase env ts s)) + 2 * length ts"
    using aw le by auto
qed

lemma uses_barrier: "uses_awaits (run_barrier env i sc) 2"
  unfolding uses_awaits_def
proof (intro allI impI)
  fix s :: "'a batch_state"
  assume le: "2 \<le> b_awaits s"
  let ?cwd = "e_shell_cwd env (b_world s)"
  have p: "uses_awaits (update_b (publish i r) :: ('a, unit) batch) 1" for r
    by (rule uses_weaken [OF uses_publish]) simp
  have q: "uses_awaits (bind_b (run_one env ?cwd i (sc_call sc)) (\<lambda>r. update_b (publish i (cap_tool_result (e_cap env) r)))) (1 + 0)"
    by (rule uses_bind [OF uses_run_one uses_publish])
  have tail: "uses_awaits (case v of Some r \<Rightarrow> update_b (publish i r)
      | None \<Rightarrow> (case sc_tool sc of None \<Rightarrow> update_b (publish i (unknown_tool_result (sc_call sc)))
         | Some t \<Rightarrow> bind_b (run_one env ?cwd i (sc_call sc)) (\<lambda>r. update_b (publish i (cap_tool_result (e_cap env) r))))) 1" for v
    using p q by (cases v; cases "sc_tool sc") simp_all
  from uses_bind [OF uses_authorize [of env ?cwd i "sc_call sc"] tail]
  show "fst (run_barrier env i sc s) \<noteq> Dropped \<and> b_awaits s \<le> b_awaits (snd (run_barrier env i sc s)) + 2"
    using le by (simp add: uses_awaits_def run_barrier_def Let_def numeral_2_eq_2)
qed

lemma uses_batch_loop: "uses_awaits (batch_loop env ts) (3 * length ts)"
proof (induction ts rule: length_induct)
  case (1 ts)
  note IH = "1.IH" [rule_format]
  show ?case
  proof (cases ts)
    case Nil
    then show ?thesis by (simp add: uses_awaits_def batch_loop.simps)
  next
    case (Cons t us)
    show ?thesis
    proof (cases "is_parallel t")
      case False
      have "uses_awaits (bind_b (run_barrier env (fst t) (snd t)) (\<lambda>_. batch_loop env us)) (2 + 3 * length us)"
        by (rule uses_bind [OF uses_barrier]) (use IH Cons in simp)
      then have "uses_awaits (bind_b (run_barrier env (fst t) (snd t)) (\<lambda>_. batch_loop env us)) (3 * length ts)"
        by (rule uses_weaken) (simp add: Cons)
      then show ?thesis using False by (simp add: Cons batch_loop.simps uses_awaits_def)
    next
      case True
      define ps rs where "ps = t # takeWhile is_parallel us" and "rs = dropWhile is_parallel us"
      have len: "length ts = length ps + length rs"
        using length_append [of "takeWhile is_parallel us" "dropWhile is_parallel us"] by (simp add: Cons ps_def rs_def)
      let ?calls = "map (\<lambda>(i, sc). (i, sc_call sc)) ps"
      have step: "batch_loop env ts s = bind_b (authorize_phase env (e_shell_cwd env (b_world s)) ?calls []) (\<lambda>allowed.
          bind_b (run_parallel_phase env allowed) (\<lambda>_. batch_loop env rs)) s" for s
        using True by (simp add: Cons batch_loop.simps ps_def rs_def Let_def)
      show ?thesis
        unfolding uses_awaits_def step
      proof (intro allI impI)
        fix s :: "'a batch_state"
        assume le: "3 * length ts \<le> b_awaits s"
        let ?auth = "authorize_phase env (e_shell_cwd env (b_world s)) ?calls []"
        obtain fa s1 where auth: "?auth s = (fa, s1)" by fastforce
        have a: "fa \<noteq> Dropped" "b_awaits s \<le> b_awaits s1 + length ps"
          using uses_authorize_phase [of env "e_shell_cwd env (b_world s)" ?calls "[]", unfolded uses_awaits_def, rule_format, of s] auth le len
          by simp_all
        show "fst (bind_b ?auth (\<lambda>allowed. bind_b (run_parallel_phase env allowed) (\<lambda>_. batch_loop env rs)) s) \<noteq> Dropped
          \<and> b_awaits s \<le> b_awaits (snd (bind_b ?auth (\<lambda>allowed. bind_b (run_parallel_phase env allowed) (\<lambda>_. batch_loop env rs)) s)) + 3 * length ts"
        proof (cases fa)
          case (Finished al)
          have "length al \<le> length ps" using authorize_phase_length [OF auth [unfolded Finished]] by simp
          moreover have "uses_awaits (bind_b (run_parallel_phase env al) (\<lambda>_. batch_loop env rs)) (2 * length al + 3 * length rs)"
            by (rule uses_bind [OF uses_parallel_phase]) (use IH len in \<open>simp add: ps_def\<close>)
          ultimately have "uses_awaits (bind_b (run_parallel_phase env al) (\<lambda>_. batch_loop env rs)) (2 * length ps + 3 * length rs)"
            by (elim uses_weaken) simp
          from this [unfolded uses_awaits_def, rule_format, of s1]
          show ?thesis using a le len auth Finished by (simp add: bind_b_def [of ?auth])
        qed (use auth a len in \<open>simp_all add: bind_b_def\<close>)
      qed
    qed
  qed
qed

lemma answers_of_ids: "map er_id rs = map call_id calls \<Longrightarrow> list_all2 is_answer calls (map result_turn rs)"
proof (induction calls arbitrary: rs)
  case (Cons c cs)
  then show ?case by (cases rs) (auto simp: result_turn_def)
qed simp

text \<open>Only a tool that runs as a barrier can crash the batch.\<close>

definition crash_free :: "('w, 'a) batch \<Rightarrow> bool" where
  "crash_free m \<longleftrightarrow> (\<forall>s e. fst (m s) \<noteq> Crashed e)"

lemma crash_free_bind: "crash_free m \<Longrightarrow> (\<And>a. crash_free (f a)) \<Longrightarrow> crash_free (bind_b m f)"
  unfolding crash_free_def bind_b_def by (auto split: prod.split flow.split) (metis fst_conv)+

lemma crash_free_basic: "crash_free await" "crash_free (update_b f)"
  by (auto simp: crash_free_def await_def update_b_def split: nat.split)

lemma crash_free_authorize: "crash_free (authorize_call env cwd i c)"
  unfolding crash_free_def
  by (auto simp: authorize_call_def Let_def bind_b_def await_def
      split: decision.split nat.split ask_response.split prod.split)

lemma crash_free_authorize_phase: "crash_free (authorize_phase env cwd ts allowed)"
proof (induction ts arbitrary: allowed)
  case (Cons t ts)
  obtain i c where t: "t = (i, c)" by fastforce
  have "crash_free (case v of Some r \<Rightarrow> bind_b (update_b (publish i r)) (\<lambda>_. authorize_phase env cwd ts allowed)
       | None \<Rightarrow> authorize_phase env cwd ts (allowed @ [(i, c)]))" for v
    using Cons.IH crash_free_bind [OF crash_free_basic(2), of "\<lambda>_. authorize_phase env cwd ts allowed"] by (cases v) simp_all
  from crash_free_bind [OF crash_free_authorize [of env cwd i c] this] show ?case
    unfolding t by (simp add: crash_free_def)
qed (simp add: crash_free_def)

lemma crash_free_join_all: "crash_free (join_all env replies ts)"
proof (induction ts)
  case (Cons t ts)
  obtain i c where t: "t = (i, c)" by fastforce
  have "crash_free (bind_b await (\<lambda>_. bind_b (update_b (publish i (cap_tool_result (e_cap env) (joined_result c (replies i)))))
       (\<lambda>_. join_all env replies ts)))"
    by (intro crash_free_bind crash_free_basic Cons.IH)
  then show ?case unfolding t by (simp add: crash_free_def)
qed (simp add: crash_free_def)

lemma crash_free_parallel_phase: "crash_free (run_parallel_phase env ts)"
  using crash_free_join_all [of env] unfolding crash_free_def
  by (auto simp: run_parallel_phase_def Let_def split: prod.split)

text \<open>A scheduled call whose tool, if it is one that runs as a barrier, never panics.\<close>

definition sound_barrier :: "'w batch_env \<Rightarrow> nat \<times> scheduled_call \<Rightarrow> bool" where
  "sound_barrier env t \<longleftrightarrow> (sc_tool (snd t) \<noteq> None \<and> \<not> is_parallel t \<longrightarrow>
     (\<forall>input cwd w. \<exists>r dur w'. e_call env (call_name (sc_call (snd t))) input cwd w = (Replied r dur, w')))"

lemma crash_free_barrier:
  assumes "sound_barrier env t" "\<not> is_parallel t"
  shows "crash_free (run_barrier env (fst t) (snd t))"
proof -
  let ?i = "fst t" and ?sc = "snd t"
  have one: "crash_free (run_one env cwd ?i (sc_call ?sc))" if some: "sc_tool ?sc \<noteq> None" for cwd
    unfolding crash_free_def
  proof (intro allI)
    fix s :: "'a batch_state" and e
    obtain r dur w' where "e_call env (call_name (sc_call ?sc)) (parse_input env (sc_call ?sc)) cwd (b_world s) = (Replied r dur, w')"
      using assms some unfolding sound_barrier_def by metis
    then show "fst (run_one env cwd ?i (sc_call ?sc) s) \<noteq> Crashed e"
      by (simp add: run_one_def start_tool_def log_event_def bind_b_def await_def split: nat.split)
  qed
  have upd: "crash_free (update_b f :: ('a, unit) batch)" for f by (rule crash_free_basic(2))
  have run: "crash_free (bind_b (run_one env cwd ?i (sc_call ?sc)) (\<lambda>r. update_b (publish ?i (cap_tool_result (e_cap env) r))))"
    if "sc_tool ?sc \<noteq> None" for cwd
    by (rule crash_free_bind [OF one [OF that] upd])
  have "crash_free (case v of Some r \<Rightarrow> update_b (publish ?i r)
      | None \<Rightarrow> (case sc_tool ?sc of None \<Rightarrow> update_b (publish ?i (unknown_tool_result (sc_call ?sc)))
         | Some t \<Rightarrow> bind_b (run_one env cwd ?i (sc_call ?sc)) (\<lambda>r. update_b (publish ?i (cap_tool_result (e_cap env) r)))))" for v cwd
    using upd run by (cases v; cases "sc_tool ?sc") simp_all
  then have "crash_free (bind_b (authorize_call env cwd ?i (sc_call ?sc)) (\<lambda>v. case v of Some r \<Rightarrow> update_b (publish ?i r)
      | None \<Rightarrow> (case sc_tool ?sc of None \<Rightarrow> update_b (publish ?i (unknown_tool_result (sc_call ?sc)))
         | Some t \<Rightarrow> bind_b (run_one env cwd ?i (sc_call ?sc)) (\<lambda>r. update_b (publish ?i (cap_tool_result (e_cap env) r))))))" for cwd
    by (rule crash_free_bind [OF crash_free_authorize])
  then show ?thesis unfolding crash_free_def run_barrier_def Let_def by simp
qed

lemma batch_loop_no_crash:
  assumes "\<forall>t \<in> set ts. sound_barrier env t" and "batch_loop env ts s = (fb, s')"
  shows "fb \<noteq> Crashed e"
proof -
  have "crash_free (batch_loop env ts)"
    using assms(1)
  proof (induction ts rule: length_induct)
    case (1 ts)
    note IH = "1.IH" [rule_format]
    show ?case
    proof (cases ts)
      case Nil
      then show ?thesis by (simp add: crash_free_def batch_loop.simps)
    next
      case (Cons t us)
      have rest: "crash_free (batch_loop env us)" "crash_free (batch_loop env (dropWhile is_parallel us))"
        using "1.prems" by (auto intro!: IH simp: Cons le_imp_less_Suc length_dropWhile_le dest: set_dropWhileD)
      have "crash_free (bind_b (run_barrier env (fst t) (snd t)) (\<lambda>_. batch_loop env us))" if "\<not> is_parallel t"
        using "1.prems" that by (intro crash_free_bind crash_free_barrier rest) (simp_all add: Cons)
      moreover have "crash_free (bind_b (authorize_phase env cwd calls []) (\<lambda>allowed. bind_b (run_parallel_phase env allowed)
          (\<lambda>_. batch_loop env (dropWhile is_parallel us))))" for cwd calls
        by (intro crash_free_bind crash_free_authorize_phase crash_free_parallel_phase rest)
      ultimately show ?thesis
        by (auto simp: Cons crash_free_def batch_loop.simps Let_def)
    qed
  qed
  then show ?thesis using assms(2) unfolding crash_free_def by (metis fst_conv)
qed

section \<open>Properties\<close>

text \<open>
  C6: a batch answers every call exactly once, however it ends. When it completes, its results are
  those of the calls, in call order, and the sink saw exactly one completion per call. When it is
  dropped at any await, by the deadline or a cancellation, the turns that are pushed afterwards
  answer the calls one by one, in order, and the completions sent before and after the drop are
  together exactly one per call. A batch that panics is not covered.
\<close>

theorem batch_answers_every_call:
  assumes "map call_id calls = map item_id items"
    and "execute_batch env items (batch_start (length items) k w grants) = (fl, s)"
  shows "case fl of
      Finished rs \<Rightarrow> list_all2 is_answer calls (map result_turn rs) \<and> map er_tool rs = map item_name items
        \<and> mset (end_indices (b_log s)) = mset [0..<length items]
    | Dropped \<Rightarrow> list_all2 is_answer calls (fst (finish_partial_batch s 0 calls))
        \<and> mset (end_indices (b_log s @ snd (finish_partial_batch s 0 calls))) = mset [0..<length items]
    | Crashed e \<Rightarrow> True"
proof (cases fl)
  case (Finished rs)
  note spec = execute_batch_spec(4) [OF assms(2) Finished]
  have "map er_id rs = map call_id calls" using spec assms(1) by simp
  then have "list_all2 is_answer calls (map result_turn rs)"
    by (rule answers_of_ids)
  moreover have "mset (end_indices (b_log s)) = mset [0..<length items]"
    using spec by (intro set_eq_iff_mset_eq_distinct [THEN iffD1]) (auto simp: atLeast0LessThan)
  ultimately show ?thesis using Finished spec by simp
next
  case Dropped
  have inv: "batch_inv env items s" by (rule execute_batch_spec(5) [OF assms(2) Dropped])
  obtain turns events where fin: "finish_partial_batch s 0 calls = (turns, events)" by fastforce
  have spec: "list_all2 is_answer calls turns \<and> end_indices events = filter (\<lambda>j. j \<notin> cp_emitted s) [0..<length items]"
    by (rule finish_partial_spec [OF inv _ _ fin]) (use assms(1) in simp_all)
  have em: "distinct (end_indices (b_log s))" "set (end_indices (b_log s)) = cp_emitted s" "cp_emitted s \<subseteq> {..<length items}"
    using inv unfolding batch_inv_def by (simp_all, blast)
  have "mset (end_indices (b_log s) @ filter (\<lambda>j. j \<notin> cp_emitted s) [0..<length items]) = mset [0..<length items]"
    using em by (intro set_eq_iff_mset_eq_distinct [THEN iffD1]) (auto simp: atLeast0LessThan)
  then show ?thesis using Dropped spec fin by simp
qed simp

text \<open>A world that counts what happened, and an environment for the witnesses.\<close>

definition demo_env :: "nat batch_env" where
  "demo_env = \<lparr>e_parse = (\<lambda>_. Some (JObject [])), e_check = (\<lambda>w tool _ _ _ _. if tool = ''Write'' then AskUser ''?'' else Allow),
     e_ask = (\<lambda>_ _ _ w. (Once, Suc w)), e_call = (\<lambda>tool _ _ w. (Replied (Inr (OutOk tool False [])) w, Suc w)),
     e_shell_cwd = (\<lambda>_. ''/''), e_schedule = (\<lambda>is _. rev is), e_iteration = rev,
     e_tools = \<lparr>reg_tools = [\<lparr>tool_name = ''Read'', tool_description = [], tool_schema = JNull, tool_concurrency = Parallel\<rparr>,
                            \<lparr>tool_name = ''Write'', tool_description = [], tool_schema = JNull, tool_concurrency = SerialWrite\<rparr>],
                reg_defs = []\<rparr>,
     e_roots = [''/''], e_cap = 0\<rparr>"

definition demo_call :: "string \<Rightarrow> string \<Rightarrow> tool_call" where
  "demo_call cid name = \<lparr>call_id = cid, call_name = name, call_arguments = ''{}''\<rparr>"

definition demo_calls :: "tool_call list" where
  "demo_calls = [demo_call ''a'' ''Read'', demo_call ''b'' ''Read'', demo_call ''c'' ''Write'', demo_call ''d'' ''Nope'']"

lemma batch_answers_every_call_witness:
  "let (fl, s) = execute_batch demo_env (map ExCall demo_calls) (batch_start (length (map ExCall demo_calls)) 3 0 [])
   in fl = Dropped \<and> list_all2 is_answer demo_calls (fst (finish_partial_batch s 0 demo_calls))"
proof -
  obtain fl s where e: "execute_batch demo_env (map ExCall demo_calls) (batch_start (length (map ExCall demo_calls)) 3 0 []) = (fl, s)"
    by fastforce
  have "fst (execute_batch demo_env (map ExCall demo_calls) (batch_start (length (map ExCall demo_calls)) 3 0 [])) = Dropped"
    by code_simp
  then have "fl = Dropped" using e by simp
  moreover have "map call_id demo_calls = map item_id (map ExCall demo_calls)" by simp
  ultimately show ?thesis using batch_answers_every_call [OF _ e, of demo_calls] e by simp
qed

text \<open>
  C2: no tool runs without authorization. Whenever a call has run, the checker had been asked about
  exactly that tool and input, and had allowed it, or had escalated it to the user, who did not deny.
\<close>

theorem tools_run_only_when_permitted:
  assumes "execute_batch env items (batch_start (length items) k w grants) = (fl, s)"
    and "b_log s = before @ Ran i # after"
  shows "\<exists>c w' cwd grants'. items ! i = ExCall c
    \<and> (let d = e_check env w' (call_name c) (parse_input env c) cwd (e_roots env) grants' in
       Checked i d \<in> set before
       \<and> (d = Allow \<or> (\<exists>r a. d = AskUser r \<and> Asked i a \<in> set before \<and> \<not> is_deny_answer a)))"
proof -
  have "permits i before" using execute_batch_spec(1) [OF assms(1)] assms(2) unfolding authorised_def by blast
  then obtain d where d: "Checked i d \<in> set before" "d = Allow \<or> (\<exists>r a. d = AskUser r \<and> Asked i a \<in> set before \<and> \<not> is_deny_answer a)"
    by (auto simp: permits_def)
  then have "Checked i d \<in> set (b_log s)" using assms(2) by simp
  then obtain w' c cwd grants' where "items ! i = ExCall c" "d = e_check env w' (call_name c) (parse_input env c) cwd (e_roots env) grants'"
    using execute_batch_spec(2) [OF assms(1)] unfolding genuine_def by blast
  with d show ?thesis by (metis (no_types, lifting))
qed

lemma tools_run_only_when_permitted_witness:
  "\<exists>c. [ExCall (demo_call ''c'' ''Write'')] ! 0 = ExCall c"
proof -
  let ?items = "[ExCall (demo_call ''c'' ''Write'')]"
  let ?s = "snd (execute_batch demo_env ?items (batch_start (length ?items) 2 0 []))"
  have ran: "Ran 0 \<in> set (b_log ?s)" by code_simp
  then obtain before after where "b_log ?s = before @ Ran 0 # after" by (meson split_list)
  from tools_run_only_when_permitted [OF surjective_pairing this] show ?thesis by blast
qed

text \<open>
  With the permission engine as the checker, whatever its rules and however its mode changes
  while the batch runs, a catastrophic shell command never runs, whatever the user answers.
\<close>

theorem catastrophic_call_never_runs:
  assumes "\<forall>w. e_check env w = engine_check shlex glob (eng w)"
    and "execute_batch env items (batch_start (length items) k w grants) = (fl, s)"
    and "items ! i = ExCall c" and "call_name c = ''Bash''"
    and "command_of (parse_input env c) = Some cmd" and "is_catastrophic_cmd cmd"
  shows "Ran i \<notin> set (b_log s)"
proof
  assume "Ran i \<in> set (b_log s)"
  then obtain before after where "b_log s = before @ Ran i # after" by (meson split_list)
  then have "permits i before" using execute_batch_spec(1) [OF assms(2)] unfolding authorised_def by blast
  then obtain d where d: "Checked i d \<in> set (b_log s)" "d = Allow \<or> (\<exists>r. d = AskUser r)"
    using \<open>b_log s = before @ Ran i # after\<close> by (auto simp: permits_def)
  then obtain w' cwd grants' where "d = e_check env w' (call_name c) (parse_input env c) cwd (e_roots env) grants'"
    using execute_batch_spec(2) [OF assms(2)] assms(3) unfolding genuine_def by fastforce
  then show False
    using d(2) engine.catastrophic_never_runs [OF assms(5,6)] assms(1,4) by auto
qed

lemma catastrophic_call_never_runs_witness:
  "Ran 0 \<notin> set (b_log (snd (execute_batch
      (demo_env\<lparr>e_parse := (\<lambda>_. Some (JObject [(''command'', JString ''rm -rf /'')])),
                e_check := (\<lambda>w. engine_check (\<lambda>_. None) (\<lambda>_ _. None) (engine_new (if w = 0 then Default else Auto) [] [''Bash''] []))\<rparr>)
      [ExCall (demo_call ''x'' ''Bash'')] (batch_start (length [ExCall (demo_call ''x'' ''Bash'')]) 9 0 [''Bash'']))))"
  by (rule catastrophic_call_never_runs [where shlex = "\<lambda>_. None" and glob = "\<lambda>_ _. None" and c = "demo_call ''x'' ''Bash''"
        and eng = "\<lambda>w. engine_new (if w = 0 then Default else Auto) [] [''Bash''] []" and cmd = "''rm -rf /''", OF _ surjective_pairing])
    (simp_all add: demo_call_def parse_input_def command_of_def unwrap_or_def is_catastrophic_cmd_def catastrophic_def)

text \<open>
  C11: effects happen in the model's order. If a call runs before another one that the model placed
  earlier, both are pure reads: writes and exclusive calls are barriers, whatever order the tasks of
  a parallel phase run in and wherever the batch is cut.
\<close>

theorem effects_in_call_order:
  assumes "execute_batch env items (batch_start (length items) k w grants) = (fl, s)"
  shows "sorted_wrt (\<lambda>i j. i < j \<or> (parallel_at env items i \<and> parallel_at env items j)) (ran_indices (b_log s))"
  using execute_batch_spec(3) [OF assms] unfolding may_precede_def [abs_def] .

lemma effects_in_call_order_witness:
  "sorted_wrt (\<lambda>i j. i < j \<or> (parallel_at demo_env (map ExCall demo_calls) i \<and> parallel_at demo_env (map ExCall demo_calls) j))
     (ran_indices (b_log (snd (execute_batch demo_env (map ExCall demo_calls) (batch_start (length (map ExCall demo_calls)) 3 0 [])))))
   \<and> ran_indices (b_log (snd (execute_batch demo_env (map ExCall demo_calls) (batch_start (length (map ExCall demo_calls)) 3 0 [])))) = [1, 0]"
proof
  show "ran_indices (b_log (snd (execute_batch demo_env (map ExCall demo_calls) (batch_start (length (map ExCall demo_calls)) 3 0 [])))) = [1, 0]"
    by code_simp
qed (rule effects_in_call_order [OF surjective_pairing])

text \<open>
  C12: a batch finishes. When no tool that runs as a barrier panics (a read that panics in a parallel phase is
  caught and becomes an error result) and as many awaits complete as three per call, the batch is neither dropped nor crashed: in particular the
  lookup of the result of an item at the end, an \<open>expect\<close> in the code, finds one for every item, recorded under the id and the name of its call.
\<close>

theorem batch_finishes:
  assumes "\<forall>c t input cwd w. ExCall c \<in> set items \<and> registry_get (e_tools env) (call_name c) = Some t \<and> tool_concurrency t \<noteq> Parallel
      \<longrightarrow> (\<exists>r dur w'. e_call env (call_name c) input cwd w = (Replied r dur, w'))"
    and "3 * length items \<le> k"
  shows "\<exists>rs s. execute_batch env items (batch_start (length items) k w grants) = (Finished rs, s)
    \<and> map er_id rs = map item_id items \<and> map er_tool rs = map item_name items"
proof -
  obtain ts s0 where sch: "schedule_items env 0 items (batch_start (length items) k w grants) = (ts, s0)" by fastforce
  note st = schedule_start [OF sch]
  obtain fb s1 where loop: "batch_loop env ts s0 = (fb, s1)" by fastforce
  have "fb \<noteq> Dropped"
    using uses_batch_loop [of env ts, unfolded uses_awaits_def, rule_format, of s0] st(3,4) assms(2) loop by simp
  moreover have "sound_barrier env t" if t: "t \<in> set ts" for t
  proof -
    obtain c where c: "ExCall c \<in> set items" "snd t = schedule_call env c" "sc_call (snd t) = c"
      using scheduled_calls [OF sch t] by blast
    show ?thesis using assms(1) c
      by (cases "registry_get (e_tools env) (call_name c)") (auto simp: sound_barrier_def is_parallel_def schedule_call_def)
  qed
  then have "fb \<noteq> Crashed e" for e using batch_loop_no_crash [OF _ loop] by blast
  ultimately have "fb = Finished ()" by (cases fb) auto
  then obtain rs s where "execute_batch env items (batch_start (length items) k w grants) = (Finished rs, s)"
    using loop_finished(1) [OF sch] loop by blast
  with execute_batch_spec(4) [OF this refl] show ?thesis by blast
qed

text \<open>A read that panics does not keep the batch of the demonstration from finishing.\<close>

lemma batch_finishes_witness:
  "\<exists>rs s. execute_batch (demo_env\<lparr>e_call := (\<lambda>tool _ _ w. if tool = ''Read'' then (Panicked ''oh'', w) else (Replied (Inl ''no'') 0, w))\<rparr>)
       (map ExCall demo_calls) (batch_start (length (map ExCall demo_calls)) 12 0 []) = (Finished rs, s)
     \<and> map er_id rs = [''a'', ''b'', ''c'', ''d'']"
  using batch_finishes [of "map ExCall demo_calls"
      "demo_env\<lparr>e_call := (\<lambda>tool _ _ w. if tool = ''Read'' then (Panicked ''oh'', w) else (Replied (Inl ''no'') 0, w))\<rparr>" 12 0 "[]"]
  by (fastforce simp: demo_env_def demo_calls_def demo_call_def registry_get_def)

end
