(* ===== verification/Request_Trace.thy ===== *)
theory Request_Trace
  imports Turns
begin

text \<open>
  The request trace of \<open>crates/rc-core/src/agent.rs\<close>: the sink that the loop puts between the model and
  the user interface for one request (\<open>RequestTraceSink\<close>). It forwards every event and keeps counters,
  times and a bounded snapshot of what has been streamed, which a failed request leaves in the session.

  A duration is a number of nanoseconds. Every handler reads the clock; the readings are arguments,
  the first for \<open>mark_first_output\<close>, the second for the times of activity.
\<close>

section \<open>Observation\<close>

record request_observation =
  ob_response_headers :: "nat option"
  ob_ttft :: "nat option"
  ob_request_bytes :: nat
  ob_wire_bytes :: nat
  ob_retries :: nat
  ob_transport_events :: nat
  ob_semantic_events :: nat
  ob_last_transport :: "nat option"
  ob_last_semantic :: "nat option"
  ob_text_chars :: nat
  ob_reasoning_chars :: nat
  ob_argument_chars :: nat
  ob_text :: string
  ob_reasoning :: string
  ob_tools :: "partial_tool_call list"
  ob_truncated :: bool

definition observation_default :: request_observation where
  "observation_default =
     \<lparr>ob_response_headers = None, ob_ttft = None, ob_request_bytes = 0, ob_wire_bytes = 0, ob_retries = 0,
      ob_transport_events = 0, ob_semantic_events = 0, ob_last_transport = None, ob_last_semantic = None,
      ob_text_chars = 0, ob_reasoning_chars = 0, ob_argument_chars = 0, ob_text = [], ob_reasoning = [],
      ob_tools = [], ob_truncated = False\<rparr>"

text \<open>\<open>saturating_add\<close> of \<open>u64\<close> and of a 64-bit \<open>usize\<close>, and a duration in milliseconds.\<close>

definition max_u64 :: nat where
  "max_u64 = 2 ^ 64 - 1"

definition sat_add :: "nat \<Rightarrow> nat \<Rightarrow> nat" where
  "sat_add a b = min (a + b) max_u64"

definition duration_ms :: "nat \<Rightarrow> nat" where
  "duration_ms d = min (d div 1000000) max_u64"

text \<open>\<open>epoch_ms\<close>: a time before the epoch, for which \<open>duration_since\<close> fails, is \<open>None\<close>.\<close>

definition epoch_ms :: "nat option \<Rightarrow> nat" where
  "epoch_ms since = (case since of Some d \<Rightarrow> duration_ms d | None \<Rightarrow> 0)"

definition partial_stream_field_bytes :: nat where
  "partial_stream_field_bytes = 16384"

definition append_partial :: "string \<Rightarrow> string \<Rightarrow> string \<times> bool" where
  "append_partial target delta =
     (let remaining = partial_stream_field_bytes - length target in
      if remaining = 0 then (target, delta \<noteq> [])
      else let tk = floor_from delta (min (length delta) remaining)
           in (target @ take tk delta, tk < length delta))"

section \<open>Event handlers\<close>

text \<open>The events of a request, in the order of the trait; the last two have no handler here but are forwarded.\<close>

datatype sink_event =
    OnText string
  | OnReasoning string
  | OnTransportActivity
  | OnToolDelta nat "string option" "string option" string
  | OnToolStart tool_call
  | OnFinish finish_reason
  | OnRetry nat
  | OnRequestPayload nat nat
  | OnResponseHeaders nat

definition mark_first_output :: "nat \<Rightarrow> request_observation \<Rightarrow> request_observation" where
  "mark_first_output now ob = (case ob_ttft ob of None \<Rightarrow> ob\<lparr>ob_ttft := Some now\<rparr> | Some _ \<Rightarrow> ob)"

definition mark_semantic :: "nat \<Rightarrow> request_observation \<Rightarrow> request_observation" where
  "mark_semantic elapsed ob =
     ob\<lparr>ob_semantic_events := sat_add (ob_semantic_events ob) 1, ob_last_semantic := Some elapsed,
        ob_last_transport := Some elapsed\<rparr>"

definition trace_on_text :: "nat \<Rightarrow> nat \<Rightarrow> string \<Rightarrow> request_observation \<Rightarrow> request_observation" where
  "trace_on_text now elapsed delta ob =
     (if delta \<noteq> [] then
        (let ob = mark_semantic elapsed (mark_first_output now ob);
             ob = ob\<lparr>ob_text_chars := sat_add (ob_text_chars ob) (char_count delta)\<rparr>;
             (text, truncated) = append_partial (ob_text ob) delta
         in ob\<lparr>ob_text := text, ob_truncated := ob_truncated ob \<or> truncated\<rparr>)
      else ob)"

definition trace_on_reasoning :: "nat \<Rightarrow> nat \<Rightarrow> string \<Rightarrow> request_observation \<Rightarrow> request_observation" where
  "trace_on_reasoning now elapsed delta ob =
     (if delta \<noteq> [] then
        (let ob = mark_semantic elapsed (mark_first_output now ob);
             ob = ob\<lparr>ob_reasoning_chars := sat_add (ob_reasoning_chars ob) (char_count delta)\<rparr>;
             (text, truncated) = append_partial (ob_reasoning ob) delta
         in ob\<lparr>ob_reasoning := text, ob_truncated := ob_truncated ob \<or> truncated\<rparr>)
      else ob)"

definition trace_on_transport :: "nat \<Rightarrow> request_observation \<Rightarrow> request_observation" where
  "trace_on_transport elapsed ob =
     ob\<lparr>ob_transport_events := sat_add (ob_transport_events ob) 1, ob_last_transport := Some elapsed\<rparr>"

text \<open>
  The update of the first partial call with the index, or of a new one at the end of the vector;
  the flag says whether the arguments were cut.
\<close>

definition extend_tool :: "string option \<Rightarrow> string option \<Rightarrow> string \<Rightarrow> partial_tool_call \<Rightarrow> partial_tool_call \<times> bool" where
  "extend_tool tid name args t =
     (let (arguments, truncated) = append_partial (pt_arguments t) args
      in (t\<lparr>pt_id := (if pt_id t = None then tid else pt_id t), pt_name := (if pt_name t = None then name else pt_name t),
            pt_arguments := arguments, pt_truncated := pt_truncated t \<or> truncated\<rparr>, truncated))"

fun update_tool ::
  "nat \<Rightarrow> string option \<Rightarrow> string option \<Rightarrow> string \<Rightarrow> partial_tool_call list \<Rightarrow> partial_tool_call list \<times> bool" where
  "update_tool index tid name args [] =
     (let (t, truncated) = extend_tool tid name args
            \<lparr>pt_index = index, pt_id = None, pt_name = None, pt_arguments = [], pt_truncated = False\<rparr>
      in ([t], truncated))"
| "update_tool index tid name args (t # ts) =
     (if pt_index t = index then (let (t, truncated) = extend_tool tid name args t in (t # ts, truncated))
      else let (ts, truncated) = update_tool index tid name args ts in (t # ts, truncated))"

definition trace_on_tool_delta ::
  "nat \<Rightarrow> nat \<Rightarrow> nat \<Rightarrow> string option \<Rightarrow> string option \<Rightarrow> string \<Rightarrow> request_observation \<Rightarrow> request_observation" where
  "trace_on_tool_delta now elapsed index tid name args ob =
     (let ob = mark_semantic elapsed (mark_first_output now ob);
          ob = ob\<lparr>ob_argument_chars := sat_add (ob_argument_chars ob) (char_count args)\<rparr>;
          (tools, truncated) = update_tool index tid name args (ob_tools ob)
      in ob\<lparr>ob_tools := tools, ob_truncated := ob_truncated ob \<or> truncated\<rparr>)"

fun observe_event :: "nat \<times> nat \<times> sink_event \<Rightarrow> request_observation \<Rightarrow> request_observation" where
  "observe_event (now, elapsed, OnText delta) ob = trace_on_text now elapsed delta ob"
| "observe_event (now, elapsed, OnReasoning delta) ob = trace_on_reasoning now elapsed delta ob"
| "observe_event (now, elapsed, OnTransportActivity) ob = trace_on_transport elapsed ob"
| "observe_event (now, elapsed, OnToolDelta index tid name args) ob = trace_on_tool_delta now elapsed index tid name args ob"
| "observe_event (now, elapsed, OnToolStart c) ob = mark_first_output now ob"
| "observe_event (now, elapsed, OnFinish r) ob = ob"
| "observe_event (now, elapsed, OnRetry retries) ob = ob\<lparr>ob_retries := max (ob_retries ob) retries\<rparr>"
| "observe_event (now, elapsed, OnRequestPayload json_bytes wire_bytes) ob =
     ob\<lparr>ob_request_bytes := json_bytes, ob_wire_bytes := wire_bytes\<rparr>"
| "observe_event (now, elapsed, OnResponseHeaders d) ob = ob\<lparr>ob_response_headers := Some d\<rparr>"

section \<open>The end of a request\<close>

definition partial_response :: "request_observation \<Rightarrow> partial_stream_response option" where
  "partial_response ob =
     (if ob_text ob = [] \<and> ob_reasoning ob = [] \<and> ob_tools ob = [] then None
      else Some \<lparr>psr_text = ob_text ob, psr_reasoning = ob_reasoning ob, psr_tool_calls = ob_tools ob,
                 psr_truncated = ob_truncated ob\<rparr>)"

text \<open>\<open>finish\<close>; the wrapper knows the start of the request, the clocks are read at the end.\<close>

record request_times =
  rt_started_ms :: nat
  rt_completed :: "nat option"
  rt_total :: nat

definition finish_trace ::
  "request_times \<Rightarrow> nat \<Rightarrow> nat \<Rightarrow> request_observation \<Rightarrow> string \<Rightarrow> string \<Rightarrow> nat \<Rightarrow> bool \<Rightarrow> model_trace" where
  "finish_trace tms context_chars context_tokens ob reported effective retries implicit_length =
     \<lparr>tr_started_ms = rt_started_ms tms,
      tr_completed_ms = epoch_ms (rt_completed tms),
      tr_total_ms = duration_ms (rt_total tms),
      tr_response_headers_ms = map_option duration_ms (ob_response_headers ob),
      tr_ttft_ms = map_option duration_ms (ob_ttft ob),
      tr_stream_ms = map_option (\<lambda>h. duration_ms (rt_total tms - h)) (ob_response_headers ob),
      tr_request_bytes = ob_request_bytes ob,
      tr_wire_bytes = ob_wire_bytes ob,
      tr_context_chars = context_chars,
      tr_context_tokens_estimate = context_tokens,
      tr_retries = max retries (ob_retries ob),
      tr_reported_finish_reason = reported,
      tr_effective_finish_reason = effective,
      tr_implicit_length = implicit_length,
      tr_transport_events = ob_transport_events ob,
      tr_semantic_events = ob_semantic_events ob,
      tr_last_transport_activity_ms = map_option duration_ms (ob_last_transport ob),
      tr_last_semantic_activity_ms = map_option duration_ms (ob_last_semantic ob),
      tr_partial_text_chars = ob_text_chars ob,
      tr_partial_reasoning_chars = ob_reasoning_chars ob,
      tr_partial_tool_argument_chars = ob_argument_chars ob\<rparr>"

section \<open>What the snapshot is of\<close>

fun text_of :: "sink_event \<Rightarrow> string" where
  "text_of (OnText delta) = delta"
| "text_of _ = []"

fun reasoning_of :: "sink_event \<Rightarrow> string" where
  "reasoning_of (OnReasoning delta) = delta"
| "reasoning_of _ = []"

fun arguments_of :: "nat \<Rightarrow> sink_event \<Rightarrow> string" where
  "arguments_of i (OnToolDelta index _ _ args) = (if index = i then args else [])"
| "arguments_of _ _ = []"

definition streamed :: "(sink_event \<Rightarrow> string) \<Rightarrow> (nat \<times> nat \<times> sink_event) list \<Rightarrow> string" where
  "streamed f es = concat (map (\<lambda>(_, _, e). f e) es)"

lemma streamed_snoc [simp]: "streamed f (es @ [(a, b, e)]) = streamed f es @ f e"
  by (simp add: streamed_def)

lemma streamed_Nil [simp]: "streamed f [] = []"
  by (simp add: streamed_def)

text \<open>A bounded field against the whole of what was streamed into it.\<close>

definition snapshot :: "bool \<Rightarrow> string \<Rightarrow> string \<Rightarrow> bool" where
  "snapshot truncated kept whole \<longleftrightarrow>
     length kept \<le> partial_stream_field_bytes \<and> subseq kept whole \<and> (\<not> truncated \<longrightarrow> kept = whole)"

lemma snapshot_Nil [simp]: "snapshot b [] []"
  by (simp add: snapshot_def)

lemma snapshot_weaken: "snapshot b kept whole \<Longrightarrow> (b \<Longrightarrow> c) \<Longrightarrow> snapshot c kept whole"
  by (auto simp: snapshot_def)

lemma snapshot_append:
  assumes "snapshot b kept whole" and "append_partial kept delta = (kept', trunc)"
  shows "snapshot (b \<or> trunc) kept' (whole @ delta)"
proof (cases "partial_stream_field_bytes \<le> length kept")
  case True
  then show ?thesis
    using assms by (auto simp: append_partial_def snapshot_def intro: subseq_order.trans)
next
  case False
  define tk where "tk = floor_from delta (min (length delta) (partial_stream_field_bytes - length kept))"
  have tk: "tk \<le> length delta" "tk \<le> partial_stream_field_bytes - length kept"
    using floor_from_le [of delta "min (length delta) (partial_stream_field_bytes - length kept)"] by (auto simp: tk_def)
  have k: "kept' = kept @ take tk delta" "trunc = (tk < length delta)"
    using assms(2) False by (auto simp: append_partial_def tk_def Let_def split: if_splits)
  have "subseq (take tk delta) delta"
    by (rule prefix_imp_subseq [OF take_is_prefix])
  then show ?thesis
    using assms(1) tk False by (auto simp: k snapshot_def list_emb_append_mono)
qed

text \<open>The partial calls: one per index that has been streamed, each a snapshot of its arguments.\<close>

definition tool_ok :: "bool \<Rightarrow> string \<Rightarrow> partial_tool_call \<Rightarrow> bool" where
  "tool_ok truncated whole t \<longleftrightarrow>
     snapshot (pt_truncated t) (pt_arguments t) whole \<and> (pt_truncated t \<longrightarrow> truncated)"

definition tools_inv :: "bool \<Rightarrow> (nat \<Rightarrow> string) \<Rightarrow> partial_tool_call list \<Rightarrow> bool" where
  "tools_inv truncated whole ts \<longleftrightarrow>
     distinct (map pt_index ts) \<and> (\<forall>t \<in> set ts. tool_ok truncated (whole (pt_index t)) t)
     \<and> (\<forall>i. i \<notin> pt_index ` set ts \<longrightarrow> whole i = [])"

lemma tool_ok_weaken: "tool_ok b whole t \<Longrightarrow> (b \<Longrightarrow> c) \<Longrightarrow> tool_ok c whole t"
  by (auto simp: tool_ok_def)

lemma extend_tool_ok:
  assumes "extend_tool tid name args t = (t', trunc)" and "tool_ok b whole t"
  shows "pt_index t' = pt_index t \<and> tool_ok (b \<or> trunc) (whole @ args) t'"
  using assms snapshot_append [of "pt_truncated t" "pt_arguments t" whole args]
  by (auto simp: extend_tool_def tool_ok_def split: prod.splits)

lemma update_tool_index:
  "map pt_index (fst (update_tool index tid name args ts)) =
     (if index \<in> pt_index ` set ts then map pt_index ts else map pt_index ts @ [index])"
  by (induction ts) (auto simp: extend_tool_def split: prod.splits)

lemma update_tool_ok:
  assumes "update_tool index tid name args ts = (ts', trunc)"
    and "\<forall>t \<in> set ts. tool_ok b (whole (pt_index t)) t"
    and "index \<notin> pt_index ` set ts \<longrightarrow> whole index = []"
    and "distinct (map pt_index ts)"
  shows "\<forall>t \<in> set ts'. tool_ok (b \<or> trunc) (if pt_index t = index then whole index @ args else whole (pt_index t)) t"
  using assms
proof (induction ts arbitrary: ts' trunc)
  case Nil
  define t0 where "t0 = \<lparr>pt_index = index, pt_id = None, pt_name = None, pt_arguments = [], pt_truncated = False\<rparr>"
  obtain t where t: "extend_tool tid name args t0 = (t, trunc)" "ts' = [t]"
    using Nil(1) by (auto simp: t0_def split: prod.splits)
  show ?case
    using extend_tool_ok [OF t(1), of b "[]"] t(2) Nil(3) by (simp add: t0_def tool_ok_def)
next
  case (Cons t ts)
  show ?case
  proof (cases "pt_index t = index")
    case True
    obtain t' where t': "extend_tool tid name args t = (t', trunc)" "ts' = t' # ts"
      using Cons.prems(1) True by (auto split: prod.splits)
    have "\<forall>u \<in> set ts. pt_index u \<noteq> index \<and> tool_ok (b \<or> trunc) (whole (pt_index u)) u"
      using Cons.prems(2, 4) True by (auto simp: image_iff intro: tool_ok_weaken)
    then show ?thesis
      using extend_tool_ok [OF t'(1), of b "whole index"] t'(2) Cons.prems(2) True by simp
  next
    case False
    obtain us where us: "update_tool index tid name args ts = (us, trunc)" "ts' = t # us"
      using Cons.prems(1) False by (auto split: prod.splits)
    have "\<forall>u \<in> set us. tool_ok (b \<or> trunc) (if pt_index u = index then whole index @ args else whole (pt_index u)) u"
      by (rule Cons.IH [OF us(1)]) (use Cons.prems False in auto)
    moreover have "tool_ok (b \<or> trunc) (whole (pt_index t)) t"
      using Cons.prems(2) by (auto intro: tool_ok_weaken)
    ultimately show ?thesis
      using us(2) False by simp
  qed
qed

lemma update_tool_inv:
  assumes "update_tool index tid name args ts = (ts', trunc)" and "tools_inv b whole ts"
    and "\<And>i. whole' i = whole i @ (if i = index then args else [])"
  shows "tools_inv (b \<or> trunc) whole' ts'"
proof -
  have idx: "map pt_index ts' = (if index \<in> pt_index ` set ts then map pt_index ts else map pt_index ts @ [index])"
    using update_tool_index [of index tid name args ts] assms(1) by simp
  then have "pt_index ` set ts' = insert index (pt_index ` set ts)"
    by (metis (no_types, lifting) Un_insert_right empty_set insert_absorb list.simps(15) set_append set_map sup_bot_right)
  then show ?thesis
    using update_tool_ok [OF assms(1), of b whole] assms(2, 3) idx by (auto simp: tools_inv_def)
qed

definition trace_inv :: "(nat \<times> nat \<times> sink_event) list \<Rightarrow> request_observation \<Rightarrow> bool" where
  "trace_inv es ob \<longleftrightarrow>
     snapshot (ob_truncated ob) (ob_text ob) (streamed text_of es)
     \<and> snapshot (ob_truncated ob) (ob_reasoning ob) (streamed reasoning_of es)
     \<and> tools_inv (ob_truncated ob) (\<lambda>i. streamed (arguments_of i) es) (ob_tools ob)"

lemma tools_inv_weaken: "tools_inv b whole ts \<Longrightarrow> (b \<Longrightarrow> c) \<Longrightarrow> tools_inv c whole ts"
  by (auto simp: tools_inv_def intro: tool_ok_weaken)

lemma trace_inv_event: "trace_inv es ob \<Longrightarrow> trace_inv (es @ [ev]) (observe_event ev ob)"
proof (cases ev)
  case (fields now elapsed e)
  assume inv: "trace_inv es ob"
  note simps = trace_inv_def mark_first_output_def mark_semantic_def fields
  show ?thesis
  proof (cases e)
    case (OnText delta)
    show ?thesis
      using inv snapshot_append [of "ob_truncated ob" "ob_text ob" "streamed text_of es" delta]
      by (auto simp: simps OnText trace_on_text_def Let_def split: prod.splits option.splits
          intro: snapshot_weaken tools_inv_weaken)
  next
    case (OnReasoning delta)
    show ?thesis
      using inv snapshot_append [of "ob_truncated ob" "ob_reasoning ob" "streamed reasoning_of es" delta]
      by (auto simp: simps OnReasoning trace_on_reasoning_def Let_def split: prod.splits option.splits
          intro: snapshot_weaken tools_inv_weaken)
  next
    case (OnToolDelta index tid name args)
    obtain ts trunc where ts: "update_tool index tid name args (ob_tools ob) = (ts, trunc)"
      by fastforce
    have "tools_inv (ob_truncated ob \<or> trunc) (\<lambda>i. streamed (arguments_of i) (es @ [ev])) ts"
      by (rule update_tool_inv [OF ts]) (use inv in \<open>auto simp: trace_inv_def fields OnToolDelta\<close>)
    then show ?thesis
      using inv ts by (auto simp: simps OnToolDelta trace_on_tool_delta_def Let_def split: option.splits
          intro: snapshot_weaken)
  qed (use inv in \<open>auto simp: simps trace_on_transport_def split: option.splits\<close>)
qed

lemma trace_inv_run: "trace_inv es (fold observe_event es observation_default)"
proof (induction es rule: rev_induct)
  case Nil
  then show ?case
    by (simp add: trace_inv_def observation_default_def tools_inv_def)
next
  case (snoc ev es)
  then show ?case
    using trace_inv_event by simp
qed

section \<open>Property\<close>

text \<open>
  The snapshot that a failed request leaves in the session is bounded and honest. Whatever was
  streamed, in whatever pieces, the text, the reasoning and the arguments of each call are at most
  16 KiB each and contain only bytes that were streamed, in order; there is at most one entry per
  call index; and when the snapshot is not marked truncated, each field is exactly the
  concatenation of its deltas.
\<close>

theorem partial_response_honest:
  assumes "partial_response (fold observe_event es observation_default) = Some r"
  shows "length (psr_text r) \<le> 16384 \<and> subseq (psr_text r) (streamed text_of es)
    \<and> length (psr_reasoning r) \<le> 16384 \<and> subseq (psr_reasoning r) (streamed reasoning_of es)
    \<and> distinct (map pt_index (psr_tool_calls r))
    \<and> (\<forall>t \<in> set (psr_tool_calls r). length (pt_arguments t) \<le> 16384)
    \<and> (\<not> psr_truncated r \<longrightarrow> psr_text r = streamed text_of es \<and> psr_reasoning r = streamed reasoning_of es
        \<and> (\<forall>t \<in> set (psr_tool_calls r). pt_arguments t = streamed (arguments_of (pt_index t)) es))"
  using assms trace_inv_run [of es]
  by (auto simp: partial_response_def trace_inv_def tools_inv_def tool_ok_def snapshot_def partial_stream_field_bytes_def split: if_splits)

lemma floor_from_whole: "n = length s \<Longrightarrow> floor_from s n = n"
  by (cases n; cases "length s") (simp_all add: is_char_boundary_def)

lemma append_partial_short:
  "length target + length delta \<le> 16384 \<Longrightarrow> append_partial target delta = (target @ delta, False)"
  using floor_from_whole [of "length delta" delta]
  by (auto simp: append_partial_def partial_stream_field_bytes_def min_def)

lemma partial_response_honest_witness:
  "(case partial_response (fold observe_event [(1, 2, OnText ''He''), (5, 6, OnText ''llo'')] observation_default) of
      Some r \<Rightarrow> psr_text r = ''Hello'' \<and> distinct (map pt_index (psr_tool_calls r))
    | None \<Rightarrow> False)"
proof -
  let ?es = "[(1, 2, OnText ''He''), (5, 6, OnText ''llo'')]"
  have "partial_response (fold observe_event ?es observation_default) =
      Some \<lparr>psr_text = ''Hello'', psr_reasoning = [], psr_tool_calls = [], psr_truncated = False\<rparr>"
    by (simp add: observation_default_def trace_on_text_def mark_first_output_def mark_semantic_def
        append_partial_short partial_response_def)
  from this partial_response_honest [OF this] show ?thesis
    by simp
qed

end
