(* ===== verification/Streaming.thy ===== *)
theory Streaming
  imports Bash_Commands
begin

text \<open>
  The wire boundary of a streaming response, \<open>crates/rc-proto/src/stream.rs\<close>: the decoder of server-sent
  events, the accumulator that reassembles fragmented tool calls, the repair of malformed arguments
  and the fuser that turns chunks into the events the agent consumes. \<open>serde_json\<close> is a parameter:
  \<open>parse\<close> reads a JSON value, \<open>from_str\<close> reads a chunk; both give the error message on failure.
\<close>

section \<open>Errors\<close>

text \<open>\<open>ProtoError\<close>; the errors of third-party crates are carried as the text they display.\<close>

datatype proto_error =
    PHttp string
  | PStatus nat string
  | PEmptyChoices
  | PJson string
  | PNoApiKey
  | PInvalidSessionId
  | PGzip string
  | PIo string
  | PDlr string
  | PIdle nat

section \<open>Chunks\<close>

record function_delta =
  fd_name :: "string option"
  fd_arguments :: "string option"

record tool_call_delta =
  td_index :: nat
  td_id :: "string option"
  td_function :: "function_delta option"

record delta =
  d_role :: "string option"
  d_content :: "string option"
  d_reasoning_content :: "string option"
  d_reasoning :: "string option"
  d_tool_calls :: "tool_call_delta list"

record chunk_choice =
  cc_index :: nat
  cc_delta :: delta
  cc_finish_reason :: "string option"

record chunk =
  ch_id :: string
  ch_model :: string
  ch_choices :: "chunk_choice list"
  ch_usage :: "usage option"

definition finish_parse :: "string \<Rightarrow> finish_reason" where
  "finish_parse s =
     (if s = ''stop'' then FinStop else if s = ''length'' then FinLength else if s = ''tool_calls'' then FinToolCalls
      else if s = ''content_filter'' then FinContentFilter else FinOther s)"

datatype stream_event =
    TransportActivity
  | SText string
  | SReasoning string
  | ToolCallProgress nat "string option" "string option" string
  | ToolCallReady (ready_id: string) (ready_name: string) (ready_arguments: string)
  | ToolCallFailed nat "string option" "string option" string string
  | SFinish finish_reason
  | SUsage usage

section \<open>Repair of arguments\<close>

definition closer :: "string \<Rightarrow> string" where
  "closer open_char = (if open_char = ''{'' then ''}'' else if open_char = ''['' then '']'' else open_char)"

text \<open>
  The loop over the characters of the input; the stack of open brackets has its top at the head.
\<close>

fun repair_loop :: "string list \<Rightarrow> string \<Rightarrow> string list \<Rightarrow> bool \<Rightarrow> bool \<Rightarrow> string" where
  "repair_loop [] out stack in_string escape =
     out @ (if in_string then dquote else []) @ concat (map closer stack)"
| "repair_loop (c # cs) out stack in_string escape =
     (if in_string then
        (if escape then repair_loop cs (out @ c) stack True False
         else if c = backslash then repair_loop cs (out @ c) stack True True
         else if c = dquote then repair_loop cs (out @ c) stack False False
         else repair_loop cs (out @ c) stack True False)
      else if c = dquote then repair_loop cs (out @ c) stack True escape
      else if c = ''{'' \<or> c = ''['' then repair_loop cs (out @ c) (c # stack) False escape
      else if c = ''}'' \<or> c = '']'' then repair_loop cs (out @ c) (drop 1 stack) False escape
      else if c = '','' then
        (let rest = dropWhile is_whitespace cs;
             trailing = (rest = [] \<or> hd rest = ''}'' \<or> hd rest = '']'')
         in repair_loop cs (if trailing then out else out @ c) stack False escape)
      else repair_loop cs (out @ c) stack False escape)"

definition repair :: "string \<Rightarrow> string" where
  "repair input = repair_loop (chars_of input) [] [] False False"

definition repair_json :: "(string \<Rightarrow> string + json) \<Rightarrow> string \<Rightarrow> string + json" where
  "repair_json parse input =
     (if input = [] then Inr (JObject [])
      else case parse input of
        Inr v \<Rightarrow> Inr v
      | Inl _ \<Rightarrow> (case parse (repair input) of
            Inr v \<Rightarrow> Inr v
          | Inl e \<Rightarrow> Inl (''malformed tool arguments: '' @ e)))"

section \<open>Accumulation of tool calls\<close>

record partial_call =
  pc_id :: "string option"
  pc_name :: "string option"
  pc_args :: string

definition partial_default :: partial_call where
  "partial_default = \<lparr>pc_id = None, pc_name = None, pc_args = []\<rparr>"

datatype accumulated =
    AccOk string string string
  | AccError nat "string option" "string option" string string

definition get_or_insert :: "'a option \<Rightarrow> 'a option \<Rightarrow> 'a option" where
  "get_or_insert old new = (case old of Some _ \<Rightarrow> old | None \<Rightarrow> new)"

definition slot_apply :: "tool_call_delta \<Rightarrow> partial_call \<Rightarrow> partial_call" where
  "slot_apply d s =
     (let s = s\<lparr>pc_id := get_or_insert (pc_id s) (td_id d)\<rparr> in
      case td_function d of
        None \<Rightarrow> s
      | Some f \<Rightarrow> s\<lparr>pc_name := get_or_insert (pc_name s) (fd_name f),
                     pc_args := pc_args s @ unwrap_or [] (fd_arguments f)\<rparr>)"

definition acc_apply :: "tool_call_delta \<Rightarrow> partial_call list \<Rightarrow> partial_call list" where
  "acc_apply d slots =
     (let i = td_index d;
          slots = (if length slots \<le> i then slots @ replicate (i + 1 - length slots) partial_default else slots)
      in slots[i := slot_apply d (slots ! i)])"

definition finalize_one ::
  "(string \<Rightarrow> string + json) \<Rightarrow> nat \<Rightarrow> string \<Rightarrow> string \<Rightarrow> string \<Rightarrow> bool \<Rightarrow> accumulated" where
  "finalize_one parse index cid name raw_args confirmed =
     (case parse raw_args of
        Inr _ \<Rightarrow> AccOk cid name raw_args
      | Inl _ \<Rightarrow>
          (case parse (repair raw_args) of
             Inr _ \<Rightarrow>
               if confirmed then AccOk cid name (repair raw_args)
               else AccError index (Some cid) (Some name) raw_args
                 ''arguments incomplete (stream ended before tool_calls finish_reason)''
           | Inl e \<Rightarrow> AccError index (Some cid) (Some name) raw_args (''malformed tool arguments: '' @ e)))"

definition finish_slot :: "(string \<Rightarrow> string + json) \<Rightarrow> bool \<Rightarrow> nat \<times> partial_call \<Rightarrow> accumulated" where
  "finish_slot parse confirmed = (\<lambda>(i, s).
     finalize_one parse i (unwrap_or (''call_'' @ show_nat i) (pc_id s)) (unwrap_or [] (pc_name s))
       (if pc_args s = [] then ''{}'' else pc_args s) confirmed)"

definition finish_confirmed :: "(string \<Rightarrow> string + json) \<Rightarrow> bool \<Rightarrow> partial_call list \<Rightarrow> accumulated list" where
  "finish_confirmed parse confirmed slots = map (finish_slot parse confirmed) (enumerate 0 slots)"

section \<open>Server-sent events\<close>

text \<open>
  \<open>String::from_utf8_lossy\<close>: how many bytes at the front form a character (\<open>Inr\<close>), or how many form the
  longest beginning of one that is not continued (\<open>Inl\<close>), which becomes U+FFFD.
\<close>

definition in_range :: "nat \<Rightarrow> nat \<Rightarrow> char \<Rightarrow> bool" where
  "in_range lo hi c \<longleftrightarrow> lo \<le> byte_of c \<and> byte_of c \<le> hi"

fun take_conts :: "nat \<Rightarrow> nat \<Rightarrow> string \<Rightarrow> nat + nat" where
  "take_conts taken 0 bs = Inr taken"
| "take_conts taken (Suc n) [] = Inl taken"
| "take_conts taken (Suc n) (b # bs) = (if in_range 128 191 b then take_conts (Suc taken) n bs else Inl taken)"

definition utf8_front :: "char \<Rightarrow> string \<Rightarrow> nat + nat" where
  "utf8_front b bs =
     (let v = byte_of b;
          second = (\<lambda>lo hi n. case bs of
              [] \<Rightarrow> Inl 1
            | c # cs \<Rightarrow> if in_range lo hi c then take_conts 2 n cs else Inl 1)
      in if v < 128 then Inr 1
         else if 194 \<le> v \<and> v \<le> 223 then second 128 191 0
         else if v = 224 then second 160 191 1
         else if (225 \<le> v \<and> v \<le> 236) \<or> v = 238 \<or> v = 239 then second 128 191 1
         else if v = 237 then second 128 159 1
         else if v = 240 then second 144 191 2
         else if 241 \<le> v \<and> v \<le> 243 then second 128 191 2
         else if v = 244 then second 128 143 2
         else Inl 1)"

definition replacement_char :: string where
  "replacement_char = bytes_str [239, 191, 189]"

function from_utf8_lossy :: "string \<Rightarrow> string" where
  "from_utf8_lossy [] = []"
| "from_utf8_lossy (b # bs) =
     (case utf8_front b bs of
        Inr n \<Rightarrow> take n (b # bs) @ from_utf8_lossy (drop (n - 1) bs)
      | Inl n \<Rightarrow> replacement_char @ from_utf8_lossy (drop (n - 1) bs))"
  by pat_completeness auto
termination
  by (relation "measure length") auto

record sse_decoder =
  sse_buf :: string
  sse_done :: bool

definition sse_new :: sse_decoder where
  "sse_new = \<lparr>sse_buf = [], sse_done = False\<rparr>"

definition carriage_return :: string where
  "carriage_return = bytes_str [13]"

definition strip_eol :: "string \<Rightarrow> string" where
  "strip_eol line = rev (dropWhile (\<lambda>c. [c] = newline \<or> [c] = carriage_return) (rev line))"

text \<open>\<open>parse_line\<close>: the chunks of one line, and whether it was the end marker.\<close>

definition parse_line :: "(string \<Rightarrow> string + chunk) \<Rightarrow> string \<Rightarrow> (proto_error + chunk) list \<times> bool" where
  "parse_line from_str line =
     (let s = strip_eol line in
      if s = [] \<or> hd s = CHR '':'' then ([], False)
      else case strip_prefix ''data:'' s of
        None \<Rightarrow> ([], False)
      | Some rest \<Rightarrow>
          (let rest = unwrap_or rest (strip_prefix '' '' rest);
               rest_str = trim (from_utf8_lossy rest)
           in if rest_str = [] then ([], False)
              else if rest_str = ''[DONE]'' then ([], True)
              else ([case from_str rest_str of Inr c \<Rightarrow> Inr c | Inl e \<Rightarrow> Inl (PJson e)], False)))"

function drain_lines :: "(string \<Rightarrow> string + chunk) \<Rightarrow> sse_decoder \<Rightarrow> (proto_error + chunk) list \<times> sse_decoder" where
  "drain_lines from_str d =
     (case find_str newline (sse_buf d) of
        None \<Rightarrow> ([], d)
      | Some nl \<Rightarrow>
          (let (chunks, fin) = parse_line from_str (take (nl + 1) (sse_buf d));
               (more, d) = drain_lines from_str \<lparr>sse_buf = drop (nl + 1) (sse_buf d), sse_done = sse_done d \<or> fin\<rparr>
           in (chunks @ more, d)))"
  by pat_completeness auto
termination
  by (relation "measure (\<lambda>(_, d). length (sse_buf d))") (auto dest: find_str_SomeD simp: newline_def)

declare drain_lines.simps [simp del]

definition sse_feed :: "(string \<Rightarrow> string + chunk) \<Rightarrow> string \<Rightarrow> sse_decoder \<Rightarrow> (proto_error + chunk) list \<times> sse_decoder" where
  "sse_feed from_str bytes d = drain_lines from_str (d\<lparr>sse_buf := sse_buf d @ bytes\<rparr>)"

definition sse_finish :: "(string \<Rightarrow> string + chunk) \<Rightarrow> sse_decoder \<Rightarrow> (proto_error + chunk) list \<times> sse_decoder" where
  "sse_finish from_str d =
     (if sse_buf d = [] then ([], d)
      else let (chunks, fin) = parse_line from_str (sse_buf d)
           in (chunks, \<lparr>sse_buf = [], sse_done = sse_done d \<or> fin\<rparr>))"

section \<open>Fusing chunks into events\<close>

record stream_fuser =
  fu_acc :: "partial_call list"
  fu_finished :: bool

definition fuser_new :: stream_fuser where
  "fuser_new = \<lparr>fu_acc = [], fu_finished = False\<rparr>"

fun accumulated_event :: "accumulated \<Rightarrow> stream_event" where
  "accumulated_event (AccOk cid name arguments) = ToolCallReady cid name arguments"
| "accumulated_event (AccError index cid name raw_args error) = ToolCallFailed index cid name raw_args error"

definition flush :: "(string \<Rightarrow> string + json) \<Rightarrow> string option \<Rightarrow> stream_fuser \<Rightarrow> stream_event list \<times> stream_fuser" where
  "flush parse reason f =
     (if fu_finished f then ([], f)
      else (map accumulated_event (finish_confirmed parse (reason = Some ''tool_calls'') (fu_acc f))
              @ [SFinish (case reason of Some r \<Rightarrow> finish_parse r | None \<Rightarrow> FinOther ''stream-ended'')],
            \<lparr>fu_acc = [], fu_finished = True\<rparr>))"

definition progress_event :: "tool_call_delta \<Rightarrow> stream_event" where
  "progress_event tc =
     (let (name, arguments) = (case td_function tc of
            None \<Rightarrow> (None, [])
          | Some f \<Rightarrow> (fd_name f, unwrap_or [] (fd_arguments f)))
      in ToolCallProgress (td_index tc) (td_id tc) name arguments)"

definition nonempty_text :: "string option \<Rightarrow> string list" where
  "nonempty_text t = (case t of Some s \<Rightarrow> if s \<noteq> [] then [s] else [] | None \<Rightarrow> [])"

definition choice_events ::
  "(string \<Rightarrow> string + json) \<Rightarrow> chunk_choice \<Rightarrow> stream_fuser \<Rightarrow> stream_event list \<times> stream_fuser" where
  "choice_events parse c f =
     (let d = cc_delta c;
          out = map SText (nonempty_text (d_content d))
                @ map SReasoning (nonempty_text (case d_reasoning_content d of Some r \<Rightarrow> Some r | None \<Rightarrow> d_reasoning d))
                @ map progress_event (d_tool_calls d);
          f = f\<lparr>fu_acc := fold acc_apply (d_tool_calls d) (fu_acc f)\<rparr>
      in case cc_finish_reason c of
           None \<Rightarrow> (out, f)
         | Some fr \<Rightarrow> (let (evs, f) = flush parse (Some fr) f in (out @ evs, f)))"

fun choices_events ::
  "(string \<Rightarrow> string + json) \<Rightarrow> chunk_choice list \<Rightarrow> stream_fuser \<Rightarrow> stream_event list \<times> stream_fuser" where
  "choices_events parse [] f = ([], f)"
| "choices_events parse (c # cs) f =
     (let (evs, f) = choice_events parse c f; (more, f) = choices_events parse cs f in (evs @ more, f))"

definition fuser_apply :: "(string \<Rightarrow> string + json) \<Rightarrow> chunk \<Rightarrow> stream_fuser \<Rightarrow> stream_event list \<times> stream_fuser" where
  "fuser_apply parse ch f =
     (let (evs, f) = choices_events parse (ch_choices ch) f
      in ((case ch_usage ch of Some u \<Rightarrow> [SUsage u] | None \<Rightarrow> []) @ evs, f))"

definition fuser_finish :: "(string \<Rightarrow> string + json) \<Rightarrow> stream_fuser \<Rightarrow> stream_event list \<times> stream_fuser" where
  "fuser_finish parse f = flush parse None f"

section \<open>Facts about the decoder\<close>

lemma find_str_append: "find_str p s = Some i \<Longrightarrow> find_str p (s @ t) = Some i"
proof (induction s arbitrary: i)
  case Nil
  then show ?case by (cases p; cases t) auto
next
  case (Cons c s)
  show ?case
  proof (cases "prefix p (c # s)")
    case True
    then have "prefix p ((c # s) @ t)"
      by (rule prefix_order.trans) simp
    then show ?thesis
      using Cons.prems True by simp
  next
    case False
    then obtain j where j: "find_str p s = Some j" "i = Suc j"
      using Cons.prems by (auto split: if_splits)
    have "j + length p \<le> length s"
      using find_str_SomeD [OF j(1)] by simp
    then have "\<not> prefix p ((c # s) @ t)"
      using False prefix_length_prefix [of p "(c # s) @ t" "c # s"] by auto
    then show ?thesis
      using Cons.IH [OF j(1)] j(2) by simp
  qed
qed

fun feed_all ::
  "(string \<Rightarrow> string + chunk) \<Rightarrow> string list \<Rightarrow> sse_decoder \<Rightarrow> (proto_error + chunk) list \<times> sse_decoder" where
  "feed_all from_str [] d = ([], d)"
| "feed_all from_str (bs # bss) d =
     (let (chunks, d) = sse_feed from_str bs d; (more, d) = feed_all from_str bss d in (chunks @ more, d))"

lemma drain_then_feed:
  "drain_lines from_str d = (o1, d1) \<Longrightarrow> sse_feed from_str bs d1 = (o2, d2) \<Longrightarrow>
   drain_lines from_str (d\<lparr>sse_buf := sse_buf d @ bs\<rparr>) = (o1 @ o2, d2)"
proof (induction from_str d arbitrary: o1 rule: drain_lines.induct)
  case (1 from_str d)
  show ?case
  proof (cases "find_str newline (sse_buf d)")
    case None
    then have "o1 = [] \<and> d1 = d"
      using 1(2) by (simp add: drain_lines.simps)
    then show ?thesis
      using 1(3) by (simp add: sse_feed_def)
  next
    case (Some nl)
    then have le: "nl + 1 \<le> length (sse_buf d)"
      using find_str_SomeD [OF Some] by (simp add: newline_def)
    obtain cs fin where line: "parse_line from_str (take (nl + 1) (sse_buf d)) = (cs, fin)"
      by fastforce
    define d' where "d' = \<lparr>sse_buf = drop (nl + 1) (sse_buf d), sse_done = sse_done d \<or> fin\<rparr>"
    obtain more where more: "drain_lines from_str d' = (more, d1)" "o1 = cs @ more"
      using 1(2) Some line by (subst (asm) drain_lines.simps) (auto simp: d'_def split: prod.splits)
    have "drain_lines from_str (d'\<lparr>sse_buf := sse_buf d' @ bs\<rparr>) = (more @ o2, d2)"
      by (rule 1(1) [OF Some line [symmetric] refl, folded d'_def, OF more(1) 1(3)])
    then show ?thesis
      using le line more(2) find_str_append [OF Some, of bs]
      by (subst drain_lines.simps) (simp add: d'_def)
  qed
qed

lemma sse_feed_feed:
  assumes "sse_feed from_str as d = (o1, d1)" and "sse_feed from_str bs d1 = (o2, d2)"
  shows "sse_feed from_str (as @ bs) d = (o1 @ o2, d2)"
  using drain_then_feed [of from_str "d\<lparr>sse_buf := sse_buf d @ as\<rparr>" o1 d1 bs o2 d2] assms
  by (simp add: sse_feed_def)

lemma drained: "drain_lines from_str d = (chunks, d1) \<Longrightarrow> find_str newline (sse_buf d1) = None"
proof (induction from_str d arbitrary: chunks rule: drain_lines.induct)
  case (1 from_str d)
  show ?case
  proof (cases "find_str newline (sse_buf d)")
    case None
    then show ?thesis
      using 1(2) by (auto simp: drain_lines.simps [of _ d])
  next
    case (Some nl)
    obtain cs fin where line: "parse_line from_str (take (nl + 1) (sse_buf d)) = (cs, fin)"
      by fastforce
    obtain more where "drain_lines from_str \<lparr>sse_buf = drop (nl + 1) (sse_buf d), sse_done = sse_done d \<or> fin\<rparr> = (more, d1)"
      using 1(2) Some line by (subst (asm) drain_lines.simps) (auto split: prod.splits)
    then show ?thesis
      using 1(1) [OF Some line [symmetric] refl] by blast
  qed
qed

lemma feed_all_drained:
  "find_str newline (sse_buf d) = None \<Longrightarrow> feed_all from_str bss d = sse_feed from_str (concat bss) d"
proof (induction bss arbitrary: d)
  case Nil
  then show ?case by (simp add: sse_feed_def drain_lines.simps)
next
  case (Cons bs bss)
  obtain o1 d1 where f: "sse_feed from_str bs d = (o1, d1)" by fastforce
  then have "find_str newline (sse_buf d1) = None"
    using drained by (fastforce simp: sse_feed_def)
  then show ?case
    using Cons.IH sse_feed_feed [OF f] by (auto simp: f split: prod.splits)
qed

section \<open>Facts about the accumulator\<close>

definition fragments :: "nat \<Rightarrow> tool_call_delta list \<Rightarrow> tool_call_delta list" where
  "fragments i ds = filter (\<lambda>d. td_index d = i) ds"

definition delta_name :: "tool_call_delta \<Rightarrow> string option" where
  "delta_name d = Option.bind (td_function d) fd_name"

definition delta_arguments :: "tool_call_delta \<Rightarrow> string" where
  "delta_arguments d = unwrap_or [] (Option.bind (td_function d) fd_arguments)"

definition first_some :: "'a option list \<Rightarrow> 'a option" where
  "first_some xs = fold (\<lambda>new old. get_or_insert old new) xs None"

text \<open>What the deltas of one call add up to: the first id, the first name and all argument bytes in order.\<close>

definition reassembled :: "tool_call_delta list \<Rightarrow> partial_call" where
  "reassembled ds = \<lparr>pc_id = first_some (map td_id ds), pc_name = first_some (map delta_name ds),
     pc_args = concat (map delta_arguments ds)\<rparr>"

lemma first_some_snoc: "first_some (xs @ [x]) = get_or_insert (first_some xs) x"
  by (simp add: first_some_def)

lemma get_or_insert_None [simp]: "get_or_insert old None = old" "get_or_insert None new = new"
  by (simp_all add: get_or_insert_def split: option.split)

lemma slot_apply_reassembled: "slot_apply d (reassembled ds) = reassembled (ds @ [d])"
  by (cases "td_function d")
    (simp_all add: slot_apply_def reassembled_def first_some_snoc delta_name_def delta_arguments_def unwrap_or_def)

lemma reassembled_Nil: "reassembled [] = partial_default" "slot_apply d partial_default = reassembled [d]"
proof -
  show "reassembled [] = partial_default"
    by (simp add: reassembled_def partial_default_def first_some_def)
  then show "slot_apply d partial_default = reassembled [d]"
    using slot_apply_reassembled [of d "[]"] by simp
qed

definition call_count :: "tool_call_delta list \<Rightarrow> nat" where
  "call_count ds = fold (\<lambda>d n. max n (Suc (td_index d))) ds 0"

lemma fragments_snoc: "fragments i (ds @ [d]) = fragments i ds @ (if td_index d = i then [d] else [])"
  by (simp add: fragments_def)

lemma call_count_snoc: "call_count (ds @ [d]) = max (call_count ds) (Suc (td_index d))"
  by (simp add: call_count_def)

lemma fragments_beyond: "call_count ds \<le> i \<Longrightarrow> fragments i ds = []"
  by (induction ds rule: rev_induct) (auto simp: fragments_snoc call_count_snoc fragments_def)

lemma accumulated_slots:
  "fold acc_apply ds [] = map (\<lambda>i. reassembled (fragments i ds)) [0..<call_count ds]"
proof (induction ds rule: rev_induct)
  case Nil
  then show ?case by (simp add: call_count_def)
next
  case (snoc d ds)
  have "acc_apply d (map (\<lambda>i. reassembled (fragments i ds)) [0..<call_count ds])
      = map (\<lambda>i. reassembled (fragments i (ds @ [d]))) [0..<call_count (ds @ [d])]"
    by (rule nth_equalityI)
      (auto simp: acc_apply_def call_count_snoc fragments_snoc nth_append nth_list_update fragments_beyond
        reassembled_Nil slot_apply_reassembled max_def Let_def)
  then show ?case
    using snoc by simp
qed

section \<open>Facts about the fuser\<close>

fun is_finish :: "stream_event \<Rightarrow> bool" where
  "is_finish (SFinish _) = True"
| "is_finish _ = False"

fun is_call :: "stream_event \<Rightarrow> bool" where
  "is_call (ToolCallReady _ _ _) = True"
| "is_call (ToolCallFailed _ _ _ _ _) = True"
| "is_call _ = False"

fun fuse :: "(string \<Rightarrow> string + json) \<Rightarrow> chunk list \<Rightarrow> stream_fuser \<Rightarrow> stream_event list \<times> stream_fuser" where
  "fuse parse [] f = ([], f)"
| "fuse parse (ch # chs) f =
     (let (evs, f) = fuser_apply parse ch f; (more, f) = fuse parse chs f in (evs @ more, f))"

text \<open>The events of a whole stream.\<close>

definition stream_events :: "(string \<Rightarrow> string + json) \<Rightarrow> chunk list \<Rightarrow> stream_event list" where
  "stream_events parse chs =
     (let (evs, f) = fuse parse chs fuser_new in evs @ fst (fuser_finish parse f))"

text \<open>
  The calls and the finish of a stream against the deltas accumulated so far: nothing before the
  flush, then every call once and the finish.
\<close>

definition terminal :: "stream_event list \<Rightarrow> stream_event list" where
  "terminal evs = filter (\<lambda>e. is_call e \<or> is_finish e) evs"

lemma terminal_append [simp]: "terminal (xs @ ys) = terminal xs @ terminal ys"
  by (simp add: terminal_def)

lemma terminal_Nil [simp]: "terminal [] = []"
  by (simp add: terminal_def)

definition choice_deltas :: "chunk_choice \<Rightarrow> tool_call_delta list" where
  "choice_deltas c = d_tool_calls (cc_delta c)"

definition finish_event :: "string option \<Rightarrow> stream_event" where
  "finish_event reason = SFinish (case reason of Some r \<Rightarrow> finish_parse r | None \<Rightarrow> FinOther ''stream-ended'')"

definition flushed :: "(string \<Rightarrow> string + json) \<Rightarrow> string option \<Rightarrow> tool_call_delta list \<Rightarrow> stream_event list" where
  "flushed parse reason ds =
     map accumulated_event (finish_confirmed parse (reason = Some ''tool_calls'') (fold acc_apply ds [])) @ [finish_event reason]"

text \<open>The choices up to and including the first with a finish reason, and that reason.\<close>

fun until_finish :: "chunk_choice list \<Rightarrow> tool_call_delta list \<times> string option" where
  "until_finish [] = ([], None)"
| "until_finish (c # cs) =
     (case cc_finish_reason c of
        Some r \<Rightarrow> (choice_deltas c, Some r)
      | None \<Rightarrow> (let (ds, r) = until_finish cs in (choice_deltas c @ ds, r)))"

lemma terminal_out:
  "terminal (map SText xs) = []" "terminal (map SReasoning xs) = []" "terminal (map progress_event ds) = []"
  by (auto simp: terminal_def progress_event_def filter_empty_conv split: option.splits)

lemma terminal_calls: "terminal (map accumulated_event xs) = map accumulated_event xs" "terminal [SFinish r] = [SFinish r]"
proof -
  have "is_call (accumulated_event a)" for a
    by (cases a) auto
  then show "terminal (map accumulated_event xs) = map accumulated_event xs"
    by (simp add: terminal_def filter_id_conv)
qed (simp add: terminal_def)

lemma choice_events_terminal:
  assumes "choice_events parse c f = (evs, f')"
  shows "fu_finished f \<Longrightarrow> terminal evs = [] \<and> fu_finished f'"
    and "\<not> fu_finished f \<Longrightarrow> fu_acc f = fold acc_apply ds [] \<Longrightarrow>
      (case cc_finish_reason c of
         Some r \<Rightarrow> terminal evs = flushed parse (Some r) (ds @ choice_deltas c) \<and> fu_finished f'
       | None \<Rightarrow> terminal evs = [] \<and> \<not> fu_finished f' \<and> fu_acc f' = fold acc_apply (ds @ choice_deltas c) [])"
  using assms
  by (auto simp: choice_events_def flush_def Let_def terminal_out terminal_calls choice_deltas_def flushed_def finish_event_def
      split: option.splits if_splits)

lemma choices_terminal:
  assumes "choices_events parse cs f = (evs, f')"
  shows "(fu_finished f \<longrightarrow> terminal evs = [] \<and> fu_finished f')
    \<and> (\<not> fu_finished f \<and> fu_acc f = fold acc_apply ds [] \<longrightarrow>
      (case until_finish cs of
         (us, Some r) \<Rightarrow> terminal evs = flushed parse (Some r) (ds @ us) \<and> fu_finished f'
       | (us, None) \<Rightarrow> terminal evs = [] \<and> \<not> fu_finished f' \<and> fu_acc f' = fold acc_apply (ds @ us) []))"
  using assms
proof (induction cs arbitrary: f evs f' ds)
  case (Cons c cs)
  obtain e1 f1 where c: "choice_events parse c f = (e1, f1)" by fastforce
  obtain e2 where cs: "choices_events parse cs f1 = (e2, f')" "evs = e1 @ e2"
    using Cons.prems c by (auto split: prod.splits)
  note head = choice_events_terminal [OF c]
  show ?case
  proof (cases "fu_finished f")
    case True
    then show ?thesis
      using head(1) Cons.IH [OF cs(1)] cs(2) by simp
  next
    case False
    show ?thesis
    proof (cases "cc_finish_reason c")
      case (Some r)
      then show ?thesis
        using head(2) [OF False, of ds] Cons.IH [OF cs(1), of ds] cs(2) False by auto
    next
      case None
      then show ?thesis
        using head(2) [OF False, of ds] Cons.IH [OF cs(1), of "ds @ choice_deltas c"] cs(2) False
        by (auto split: prod.splits option.splits)
    qed
  qed
qed simp

lemma fuse_choices:
  "fuse parse chs f = (evs, f') \<Longrightarrow>
   \<exists>evs'. choices_events parse (concat (map ch_choices chs)) f = (evs', f') \<and> terminal evs' = terminal evs"
proof (induction chs arbitrary: f evs)
  case (Cons ch chs)
  have app: "choices_events parse (xs @ ys) g =
      (let (e1, g) = choices_events parse xs g; (e2, g) = choices_events parse ys g in (e1 @ e2, g))" for xs ys g
    by (induction xs arbitrary: g) (auto simp: Let_def split: prod.splits)
  have usage: "terminal (case ch_usage ch of Some u \<Rightarrow> [SUsage u] | None \<Rightarrow> []) = []"
    by (simp add: terminal_def split: option.split)
  obtain e1 f1 where c: "choices_events parse (ch_choices ch) f = (e1, f1)" by fastforce
  obtain e2 where r: "fuse parse chs f1 = (e2, f')" "terminal evs = terminal e1 @ terminal e2"
    using Cons.prems c usage by (auto simp: fuser_apply_def split: prod.splits)
  then show ?case
    using Cons.IH [OF r(1)] c by (auto simp: app)
qed simp

text \<open>The whole stream: its calls and its finish are those of the deltas up to the first finish reason.\<close>

lemma stream_terminal:
  "terminal (stream_events parse chs) =
     (let (ds, reason) = until_finish (concat (map ch_choices chs)) in flushed parse reason ds)"
proof -
  obtain evs f where f: "fuse parse chs fuser_new = (evs, f)" by fastforce
  obtain evs' where cs: "choices_events parse (concat (map ch_choices chs)) fuser_new = (evs', f)" "terminal evs' = terminal evs"
    using fuse_choices [OF f] by blast
  obtain ds reason where u: "until_finish (concat (map ch_choices chs)) = (ds, reason)" by fastforce
  show ?thesis
    using choices_terminal [OF cs(1), of "[]"] cs(2) f u
    by (cases reason) (auto simp: stream_events_def fuser_new_def fuser_finish_def flush_def flushed_def finish_event_def terminal_calls)
qed

lemma in_terminal: "is_call e \<Longrightarrow> e \<in> set evs \<longleftrightarrow> e \<in> set (terminal evs)"
  by (simp add: terminal_def)

section \<open>Properties\<close>

text \<open>
  The decoder does not see how the response body is cut: feeding the bytes in any pieces gives
  the same chunks and errors, in the same order, and leaves the same state as feeding them at once.
\<close>

theorem sse_cut_independent:
  "feed_all from_str pieces sse_new = sse_feed from_str (concat pieces) sse_new"
  by (rule feed_all_drained) (simp add: sse_new_def newline_def)

text \<open>
  C19: the accumulator reassembles fragmented tool calls exactly, however the deltas of different
  calls interleave: there is one call per index up to the largest, with the first id, the first
  name and the concatenation of the argument fragments of that index, byte for byte.
\<close>

theorem tool_calls_reassembled:
  "length (fold acc_apply ds []) = call_count ds
   \<and> (\<forall>i < call_count ds. fold acc_apply ds [] ! i =
        \<lparr>pc_id = first_some (map td_id (fragments i ds)), pc_name = first_some (map delta_name (fragments i ds)),
         pc_args = concat (map delta_arguments (fragments i ds))\<rparr>)"
  by (simp add: accumulated_slots reassembled_def)

lemma tool_calls_reassembled_witness:
  "fold acc_apply [\<lparr>td_index = 1, td_id = Some ''b'', td_function = None\<rparr>,
      \<lparr>td_index = 0, td_id = Some ''a'', td_function = Some \<lparr>fd_name = Some ''f'', fd_arguments = Some ''{''\<rparr>\<rparr>,
      \<lparr>td_index = 0, td_id = None, td_function = Some \<lparr>fd_name = None, fd_arguments = Some ''}''\<rparr>\<rparr>] [] ! 0
    = \<lparr>pc_id = Some ''a'', pc_name = Some ''f'', pc_args = ''{}''\<rparr>"
  using tool_calls_reassembled [of "[\<lparr>td_index = 1, td_id = Some ''b'', td_function = None\<rparr>,
      \<lparr>td_index = 0, td_id = Some ''a'', td_function = Some \<lparr>fd_name = Some ''f'', fd_arguments = Some ''{''\<rparr>\<rparr>,
      \<lparr>td_index = 0, td_id = None, td_function = Some \<lparr>fd_name = None, fd_arguments = Some ''}''\<rparr>\<rparr>]"]
  by (simp add: call_count_def fragments_def first_some_def delta_name_def delta_arguments_def unwrap_or_def del: fold_simps(2))

text \<open>
  What a stream owes its consumer for the call at index \<open>i\<close>, from the deltas \<open>ds\<close>: the first id and name of its fragments (an
  absent id is made up from the index) and the streamed bytes as they are when they parse. Bytes that only parse when repaired are
  accepted when \<open>confirmed\<close>; everything else is reported as failed.
\<close>

definition streamed_arguments :: "tool_call_delta list \<Rightarrow> nat \<Rightarrow> string" where
  "streamed_arguments ds i =
     (let streamed = concat (map delta_arguments (fragments i ds)) in if streamed = [] then ''{}'' else streamed)"

definition announced :: "(string \<Rightarrow> string + json) \<Rightarrow> bool \<Rightarrow> tool_call_delta list \<Rightarrow> nat \<Rightarrow> stream_event" where
  "announced parse confirmed ds i =
     (let cid = unwrap_or (''call_'' @ show_nat i) (first_some (map td_id (fragments i ds)));
          name = unwrap_or [] (first_some (map delta_name (fragments i ds)));
          args = streamed_arguments ds i
      in if \<not> isl (parse args) then ToolCallReady cid name args
         else case parse (repair args) of
           Inl e \<Rightarrow> ToolCallFailed i (Some cid) (Some name) args (''malformed tool arguments: '' @ e)
         | Inr _ \<Rightarrow>
             if confirmed then ToolCallReady cid name (repair args)
             else ToolCallFailed i (Some cid) (Some name) args ''arguments incomplete (stream ended before tool_calls finish_reason)'')"

lemma announced_slot:
  assumes "s = reassembled (fragments i ds)"
  shows "accumulated_event (finish_slot parse confirmed (i, s)) = announced parse confirmed ds i"
proof -
  have "(if pc_args s = [] then ''{}'' else pc_args s) = streamed_arguments ds i"
    "pc_id s = first_some (map td_id (fragments i ds))" "pc_name s = first_some (map delta_name (fragments i ds))"
    by (simp_all only: assms reassembled_def streamed_arguments_def Let_def partial_call.simps)
  then have "finish_slot parse confirmed (i, s) = finalize_one parse i (unwrap_or (''call_'' @ show_nat i) (first_some (map td_id (fragments i ds))))
      (unwrap_or [] (first_some (map delta_name (fragments i ds)))) (streamed_arguments ds i) confirmed"
    by (simp only: finish_slot_def prod.case)
  then show ?thesis
    by (cases "parse (streamed_arguments ds i)"; cases "parse (repair (streamed_arguments ds i))")
      (simp_all add: finalize_one_def announced_def Let_def)
qed

lemma announced_ready:
  assumes "ToolCallReady cid name args = announced parse confirmed ds i"
  shows "(\<exists>v. parse args = Inr v) \<and> (\<not> confirmed \<longrightarrow> args = streamed_arguments ds i)"
  using assms unfolding announced_def Let_def
  by (cases "parse (streamed_arguments ds i)"; cases "parse (repair (streamed_arguments ds i))"; cases confirmed) simp_all

lemma flushed_announced:
  "flushed parse reason ds = map (announced parse (reason = Some ''tool_calls'') ds) [0..<call_count ds] @ [finish_event reason]"
proof -
  have "map accumulated_event (finish_confirmed parse c (fold acc_apply ds [])) = map (announced parse c ds) [0..<call_count ds]" for c
    by (rule nth_equalityI)
      (simp_all add: finish_confirmed_def accumulated_slots nth_enumerate_eq announced_slot)
  then show ?thesis by (simp add: flushed_def)
qed

text \<open>
  C18: a stream announces its calls and its finish once. Whatever chunks arrive, take the deltas \<open>ds\<close> of the choices up to the first
  one with a finish reason, and that reason (none when no choice has one). The call and finish events of the stream are exactly: for each index
  up to the largest in \<open>ds\<close>, in order, the one event announced for its fragments, and then that finish reason, or \<open>stream-ended\<close>;
  later chunks add none. Every call that is ready has arguments that
  parse, and unless the stream finished with \<open>tool_calls\<close> they are the streamed bytes themselves
  (\<open>{}\<close> when there were none), never repaired ones.
\<close>

theorem stream_announces_calls_once:
  assumes "until_finish (concat (map ch_choices chs)) = (ds, reason)"
  shows "terminal (stream_events parse chs) =
      map (announced parse (reason = Some ''tool_calls'') ds) [0..<call_count ds]
        @ [SFinish (case reason of Some r \<Rightarrow> finish_parse r | None \<Rightarrow> FinOther ''stream-ended'')]
    \<and> (\<forall>cid name args. ToolCallReady cid name args \<in> set (stream_events parse chs) \<longrightarrow>
         (\<exists>v. parse args = Inr v) \<and>
         (reason \<noteq> Some ''tool_calls'' \<longrightarrow> (\<exists>i < call_count ds. args = streamed_arguments ds i)))"
proof -
  let ?c = "reason = Some ''tool_calls''"
  have t: "terminal (stream_events parse chs) = map (announced parse ?c ds) [0..<call_count ds] @ [finish_event reason]"
    by (simp add: stream_terminal assms flushed_announced)
  have "(\<exists>v. parse args = Inr v) \<and> (\<not> ?c \<longrightarrow> (\<exists>i < call_count ds. args = streamed_arguments ds i))"
    if "ToolCallReady cid name args \<in> set (stream_events parse chs)" for cid name args
  proof -
    have "ToolCallReady cid name args \<in> set (terminal (stream_events parse chs))"
      using that in_terminal [of "ToolCallReady cid name args" "stream_events parse chs"] by simp
    then obtain i where "i < call_count ds" "ToolCallReady cid name args = announced parse ?c ds i"
      by (auto simp: t finish_event_def)
    then show ?thesis using announced_ready by blast
  qed
  then show ?thesis using t by (simp add: finish_event_def)
qed

text \<open>
  Two interleaved calls, the second cut short, a finish with \<open>tool_calls\<close>, and a late call that is not announced.
\<close>

definition demo_delta :: "tool_call_delta list \<Rightarrow> string option \<Rightarrow> chunk" where
  "demo_delta tcs reason =
     \<lparr>ch_id = [], ch_model = [], ch_choices =
        [\<lparr>cc_index = 0, cc_delta = \<lparr>d_role = None, d_content = None, d_reasoning_content = None, d_reasoning = None, d_tool_calls = tcs\<rparr>,
          cc_finish_reason = reason\<rparr>], ch_usage = None\<rparr>"

definition demo_chunks :: "chunk list" where
  "demo_chunks =
     [demo_delta [\<lparr>td_index = 0, td_id = Some ''a'', td_function = Some \<lparr>fd_name = Some ''f'', fd_arguments = Some ''{''\<rparr>\<rparr>,
                  \<lparr>td_index = 1, td_id = None, td_function = Some \<lparr>fd_name = Some ''g'', fd_arguments = Some ''{''\<rparr>\<rparr>] None,
      demo_delta [\<lparr>td_index = 0, td_id = None, td_function = Some \<lparr>fd_name = None, fd_arguments = Some ''}''\<rparr>\<rparr>] (Some ''tool_calls''),
      demo_delta [\<lparr>td_index = 2, td_id = Some ''late'', td_function = None\<rparr>] (Some ''stop'')]"

lemma stream_announces_calls_once_witness:
  "terminal (stream_events (\<lambda>s. if s = ''{}'' then Inr (JObject []) else Inl ''eof'') demo_chunks) =
     [ToolCallReady ''a'' ''f'' ''{}'', ToolCallReady ''call_1'' ''g'' ''{}'', SFinish FinToolCalls]"
proof -
  define ds where "ds = fst (until_finish (concat (map ch_choices demo_chunks)))"
  have u: "until_finish (concat (map ch_choices demo_chunks)) = (ds, Some ''tool_calls'')"
    by (simp add: ds_def demo_chunks_def demo_delta_def choice_deltas_def)
  have n: "call_count ds = 2" and
    a: "map (announced (\<lambda>s. if s = ''{}'' then Inr (JObject []) else Inl ''eof'') True ds) [0, 1] =
      [ToolCallReady ''a'' ''f'' ''{}'', ToolCallReady ''call_1'' ''g'' ''{}'']"
    unfolding ds_def by code_simp+
  have "[0..<2] = [0, 1 :: nat]" by code_simp
  then show ?thesis
    using stream_announces_calls_once [OF u, of "\<lambda>s. if s = ''{}'' then Inr (JObject []) else Inl ''eof''"] n a
    by (simp add: finish_parse_def)
qed

end
