(* ===== verification/Model_Stream.thy ===== *)
theory Model_Stream
  imports Streaming Request_Trace
begin

text \<open>
  The model behind the agent loop, \<open>ChatModel\<close> of \<open>crates/rc-core/src/model.rs\<close>: it drives the event
  stream of a response, forwards the deltas to the sink, assembles the assistant turn, splits inline
  reasoning out of the text, and replays a request whose stream ended or failed before it produced
  anything.

  The HTTP client is a parameter: \<open>connect n\<close> is what the \<open>n\<close>-th attempt at the request gives, an error
  or a stream. A stream is the list of what polling it gives; at its end the code sees \<open>None\<close>.
\<close>

section \<open>Errors and streams\<close>

record model_error =
  me_error :: proto_error
  me_retries :: nat

record stream_attempt_error =
  sae_error :: model_error
  sae_semantic_output :: bool

text \<open>An item, an error of the stream, or no item for as long as the idle bound.\<close>

datatype polled = PolledEvent stream_event | PolledError proto_error | Stalled

record payload_stats =
  json_bytes :: nat
  wire_bytes :: nat

record connected =
  co_stream :: "polled list"
  co_retries :: nat
  co_payload :: payload_stats
  co_headers_after :: nat

section \<open>Inline reasoning\<close>

text \<open>
  The loop of \<open>strip_reasoning_tag\<close>. The tags of the code are never empty; the test for an empty tag
  only serves the termination of the definition.
\<close>

function split_tags :: "string \<Rightarrow> string \<Rightarrow> string \<Rightarrow> string \<Rightarrow> string \<Rightarrow> string \<times> string" where
  "split_tags open_tag close_tag rest clean reasoning =
     (case find_str open_tag rest of
        None \<Rightarrow> (clean @ rest, reasoning)
      | Some s \<Rightarrow>
          (let clean = clean @ take s rest; after = drop (s + length open_tag) rest in
           case find_str close_tag after of
             Some e \<Rightarrow>
               (if open_tag = [] then (clean, reasoning)
                else split_tags open_tag close_tag (drop (e + length close_tag) after) clean (reasoning @ take e after))
           | None \<Rightarrow> (clean, reasoning @ after)))"
  by pat_completeness auto
termination
  by (relation "measure (\<lambda>(_, _, rest, _, _). length rest)") (auto dest!: find_str_SomeD simp: length_greater_0_conv [symmetric] simp del: length_greater_0_conv)

declare split_tags.simps [simp del]

definition open_tag :: "string \<Rightarrow> string" where
  "open_tag tag = ''<'' @ tag @ ''>''"

definition close_tag :: "string \<Rightarrow> string" where
  "close_tag tag = ''</'' @ tag @ ''>''"

definition strip_reasoning_tag :: "string \<Rightarrow> string option \<Rightarrow> string \<times> string option" where
  "strip_reasoning_tag text tag =
     (case tag of
        None \<Rightarrow> (text, None)
      | Some tag \<Rightarrow>
          if \<not> contains_str (open_tag tag) text then (text, None)
          else let (clean, reasoning) = split_tags (open_tag tag) (close_tag tag) text [] []
               in (clean, if trim reasoning = [] then None else Some reasoning))"

section \<open>Driving a stream\<close>

record stream_state =
  st_text :: string
  st_reasoning :: string
  st_calls :: "finalized_tool_call list"
  st_finish :: finish_reason
  st_usage :: "usage option"
  st_semantic :: bool

definition stream_start :: stream_state where
  "stream_start = \<lparr>st_text = [], st_reasoning = [], st_calls = [], st_finish = FinStop, st_usage = None, st_semantic = False\<rparr>"

fun stream_step :: "stream_event \<Rightarrow> stream_state \<Rightarrow> sink_event list \<times> stream_state" where
  "stream_step TransportActivity st = ([OnTransportActivity], st)"
| "stream_step (SText t) st = ([OnText t], st\<lparr>st_semantic := st_semantic st \<or> t \<noteq> [], st_text := st_text st @ t\<rparr>)"
| "stream_step (SReasoning r) st =
     ([OnReasoning r], st\<lparr>st_semantic := st_semantic st \<or> r \<noteq> [], st_reasoning := st_reasoning st @ r\<rparr>)"
| "stream_step (ToolCallProgress index cid name args) st = ([OnToolDelta index cid name args], st\<lparr>st_semantic := True\<rparr>)"
| "stream_step (ToolCallReady cid name args) st =
     (let call = \<lparr>call_id = cid, call_name = name, call_arguments = args\<rparr>
      in ([OnToolStart call], st\<lparr>st_semantic := True, st_calls := st_calls st @ [FCall call]\<rparr>))"
| "stream_step (ToolCallFailed _ cid name raw_args error) st =
     ([], st\<lparr>st_semantic := True, st_calls := st_calls st @ [FParseError cid name raw_args error]\<rparr>)"
| "stream_step (SFinish reason) st = ([OnFinish reason], st\<lparr>st_finish := reason\<rparr>)"
| "stream_step (SUsage u) st = ([], st\<lparr>st_usage := Some u\<rparr>)"

fun stream_loop ::
  "nat option \<Rightarrow> nat \<Rightarrow> polled list \<Rightarrow> stream_state \<Rightarrow> sink_event list \<times> (stream_attempt_error + stream_state)" where
  "stream_loop idle retries [] st = ([], Inr st)"
| "stream_loop idle retries (Stalled # ps) st =
     (case idle of
        Some d \<Rightarrow> ([], Inl \<lparr>sae_error = \<lparr>me_error = PIdle d, me_retries = retries\<rparr>, sae_semantic_output = st_semantic st\<rparr>)
      | None \<Rightarrow> stream_loop idle retries ps st)"
| "stream_loop idle retries (PolledError e # ps) st =
     ([], Inl \<lparr>sae_error = \<lparr>me_error = e, me_retries = retries\<rparr>, sae_semantic_output = st_semantic st\<rparr>)"
| "stream_loop idle retries (PolledEvent ev # ps) st =
     (let (evs, st) = stream_step ev st; (more, r) = stream_loop idle retries ps st in (evs @ more, r))"

definition response_of :: "string option \<Rightarrow> nat \<Rightarrow> stream_state \<Rightarrow> model_response" where
  "response_of tag retries st =
     (let field_reasoning = (if st_reasoning st = [] then None else Some (st_reasoning st));
          (text, tag_reasoning) = strip_reasoning_tag (st_text st) tag;
          reasoning = (case (field_reasoning, tag_reasoning) of
              (Some r, Some t) \<Rightarrow> Some (r @ newline @ t)
            | (Some r, None) \<Rightarrow> Some r
            | (None, Some t) \<Rightarrow> Some t
            | (None, None) \<Rightarrow> None)
      in \<lparr>mr_text = text, mr_reasoning = reasoning, mr_tool_calls = st_calls st, mr_finish_reason = st_finish st,
          mr_usage = st_usage st, mr_retries = retries\<rparr>)"

definition consume_stream ::
  "nat option \<Rightarrow> string option \<Rightarrow> nat \<Rightarrow> polled list \<Rightarrow> sink_event list \<times> (stream_attempt_error + model_response)" where
  "consume_stream idle tag retries ps =
     (let (evs, r) = stream_loop idle retries ps stream_start
      in (evs, case r of Inl e \<Rightarrow> Inl e | Inr st \<Rightarrow> Inr (response_of tag retries st)))"

section \<open>Replaying a request\<close>

fun is_transport_error :: "proto_error \<Rightarrow> bool" where
  "is_transport_error (PHttp _) = True"
| "is_transport_error (PIdle _) = True"
| "is_transport_error _ = False"

definition is_retryable_without_semantic_output :: "stream_attempt_error \<Rightarrow> bool" where
  "is_retryable_without_semantic_output e \<longleftrightarrow> \<not> sae_semantic_output e \<and> is_transport_error (me_error (sae_error e))"

definition is_empty_stream_end :: "model_response \<Rightarrow> bool" where
  "is_empty_stream_end r \<longleftrightarrow>
     mr_finish_reason r = FinOther ''stream-ended'' \<and> trim (mr_text r) = []
     \<and> (case mr_reasoning r of Some reasoning \<Rightarrow> trim reasoning = [] | None \<Rightarrow> True) \<and> mr_tool_calls r = []"

definition max_zero_semantic_stream_retries :: nat where
  "max_zero_semantic_stream_retries = 2"

definition sat_add_u32 :: "nat \<Rightarrow> nat \<Rightarrow> nat" where
  "sat_add_u32 a b = min (a + b) (2 ^ 32 - 1)"

text \<open>\<open>on_retry\<close> is sent when the number of retries has grown since it was last reported.\<close>

definition report_retries :: "nat \<Rightarrow> nat \<Rightarrow> sink_event list \<times> nat" where
  "report_retries tot reported = (if tot > reported then ([OnRetry tot], tot) else ([], reported))"

text \<open>
  The loop of \<open>ChatModel::complete\<close>; \<open>n\<close> counts the replays (\<open>zero_semantic_stream_retries\<close>), so the
  attempt is the \<open>n\<close>-th. The result carries the number of the last attempt.
\<close>

function complete_loop ::
  "(nat \<Rightarrow> (proto_error \<times> nat \<times> payload_stats) + connected) \<Rightarrow> nat option \<Rightarrow> string option \<Rightarrow> nat \<Rightarrow> nat \<Rightarrow> nat \<Rightarrow>
   sink_event list \<times> (model_error + model_response) \<times> nat" where
  "complete_loop connect idle tag n tot reported =
     (case connect n of
        Inl (e, wire_retries, payload) \<Rightarrow>
          ([OnRequestPayload (json_bytes payload) (wire_bytes payload)],
           Inl \<lparr>me_error = e, me_retries = sat_add_u32 tot wire_retries\<rparr>, n)
      | Inr c \<Rightarrow>
          (let tot = sat_add_u32 tot (co_retries c);
               (retry_evs, reported) = report_retries tot reported;
               (stream_evs, attempt) = consume_stream idle tag tot (co_stream c);
               evs = [OnRequestPayload (json_bytes (co_payload c)) (wire_bytes (co_payload c)),
                      OnResponseHeaders (co_headers_after c)] @ retry_evs @ stream_evs;
               again = (case attempt of
                   Inl failure \<Rightarrow> is_retryable_without_semantic_output failure
                 | Inr response \<Rightarrow> is_empty_stream_end response)
           in if again \<and> n < max_zero_semantic_stream_retries then
                (let tot = sat_add_u32 tot 1;
                     (retry_evs, reported) = report_retries tot reported;
                     (more, r) = complete_loop connect idle tag (Suc n) tot reported
                 in (evs @ retry_evs @ more, r))
              else (evs, case attempt of
                  Inl failure \<Rightarrow> Inl (sae_error failure)
                | Inr response \<Rightarrow> Inr (response\<lparr>mr_retries := tot\<rparr>), n)))"
  by pat_completeness auto
termination
  by (relation "measure (\<lambda>(_, _, _, n, _, _). max_zero_semantic_stream_retries - n)") auto

declare complete_loop.simps [simp del]

definition complete ::
  "(nat \<Rightarrow> (proto_error \<times> nat \<times> payload_stats) + connected) \<Rightarrow> nat option \<Rightarrow> string option \<Rightarrow>
   sink_event list \<times> (model_error + model_response) \<times> nat" where
  "complete connect idle tag = complete_loop connect idle tag 0 0 0"

section \<open>Facts about inline reasoning\<close>

text \<open>What the loop does to a text: the closed sections in front, then the rest without an opening tag, or an unclosed section.\<close>

lemma split_tags_pieces:
  assumes "op \<noteq> []" and "split_tags op cl rest clean reasoning = (clean', reasoning')"
  shows "\<exists>ps c r. rest = concat (map (\<lambda>(c, r). c @ op @ r @ cl) ps) @ c @ (case r of Some r \<Rightarrow> op @ r | None \<Rightarrow> [])
    \<and> clean' = clean @ concat (map fst ps) @ c \<and> reasoning' = reasoning @ concat (map snd ps) @ unwrap_or [] r
    \<and> (r = None \<longrightarrow> \<not> contains_str op c) \<and> (\<forall>x. r = Some x \<longrightarrow> \<not> contains_str cl x)"
  using assms
proof (induction op cl rest clean reasoning rule: split_tags.induct)
  case (1 op cl rest clean reasoning)
  show ?case
  proof (cases "find_str op rest")
    case None
    then have "clean' = clean @ rest" "reasoning' = reasoning"
      using 1(3) by (simp_all add: split_tags.simps [of op cl rest])
    then show ?thesis
      using None by - (rule exI [of _ "[]"], rule exI [of _ rest], rule exI [of _ None], simp add: find_str_None_iff unwrap_or_def)
  next
    case (Some s)
    define after where "after = drop (s + length op) rest"
    have rest: "rest = take s rest @ op @ after"
      using find_str_split [OF Some] by (simp add: after_def)
    show ?thesis
    proof (cases "find_str cl after")
      case None
      have "clean' = clean @ take s rest" "reasoning' = reasoning @ after"
        using 1(3) Some None by (simp_all add: split_tags.simps [of op cl rest] after_def)
      then show ?thesis
        using rest None by - (rule exI [of _ "[]"], rule exI [of _ "take s rest"], rule exI [of _ "Some after"],
          simp add: find_str_None_iff unwrap_or_def)
    next
      case e: (Some e)
      define tail where "tail = drop (e + length cl) after"
      have after: "after = take e after @ cl @ tail"
        using find_str_split [OF e] by (simp add: tail_def)
      have "split_tags op cl tail (clean @ take s rest) (reasoning @ take e after) = (clean', reasoning')"
        using 1(3) Some e 1(2) by (simp add: split_tags.simps [of op cl rest] after_def tail_def)
      then obtain ps c r where IH: "tail = concat (map (\<lambda>(c, r). c @ op @ r @ cl) ps) @ c @ (case r of Some r \<Rightarrow> op @ r | None \<Rightarrow> [])"
          "clean' = (clean @ take s rest) @ concat (map fst ps) @ c"
          "reasoning' = (reasoning @ take e after) @ concat (map snd ps) @ unwrap_or [] r"
          "r = None \<longrightarrow> \<not> contains_str op c" "\<forall>x. r = Some x \<longrightarrow> \<not> contains_str cl x"
        using 1(1) [OF Some refl after_def e] 1(2) unfolding tail_def by blast
      have "rest = (take s rest @ op @ take e after @ cl) @ tail"
        using rest after by (metis append.assoc)
      then show ?thesis
        using IH by - (rule exI [of _ "(take s rest, take e after) # ps"], rule exI [of _ c], rule exI [of _ r], simp)
    qed
  qed
qed

section \<open>Facts about a stream\<close>

fun is_visible :: "sink_event \<Rightarrow> bool" where
  "is_visible (OnText t) = (t \<noteq> [])"
| "is_visible (OnReasoning r) = (r \<noteq> [])"
| "is_visible (OnToolDelta _ _ _ _) = True"
| "is_visible (OnToolStart _) = True"
| "is_visible _ = False"

lemma stream_loop_retries: "fst (stream_loop idle retries ps st) = fst (stream_loop idle 0 ps st)"
proof (induction idle retries ps st rule: stream_loop.induct)
  case (4 idle retries ev ps st)
  obtain e1 st1 where s: "stream_step ev st = (e1, st1)" by fastforce
  show ?case
    using "4.IH" [OF s [symmetric] refl] by (simp add: s split_beta)
qed (auto split: option.split)

text \<open>The events of the stream of an attempt; how often the client retried does not matter for them.\<close>

definition attempt_events :: "nat option \<Rightarrow> connected \<Rightarrow> sink_event list" where
  "attempt_events idle c = fst (stream_loop idle 0 (co_stream c) stream_start)"

lemma consume_stream_events: "fst (consume_stream idle tag retries (co_stream c)) = attempt_events idle c"
  using stream_loop_retries [of idle retries "co_stream c" stream_start]
  by (simp add: consume_stream_def attempt_events_def split_beta Let_def)

text \<open>
  The events that an attempt receives, up to its end, an error or a stall, and how it ends. Events other than activity, usage, the finish
  reason and empty deltas are what the code calls semantic output.
\<close>

fun received :: "nat option \<Rightarrow> polled list \<Rightarrow> stream_event list" where
  "received idle [] = []"
| "received idle (Stalled # ps) = (if idle = None then received idle ps else [])"
| "received idle (PolledError _ # ps) = []"
| "received idle (PolledEvent ev # ps) = ev # received idle ps"

fun is_semantic :: "stream_event \<Rightarrow> bool" where
  "is_semantic (SText t) = (t \<noteq> [])"
| "is_semantic (SReasoning r) = (r \<noteq> [])"
| "is_semantic (ToolCallProgress _ _ _ _) = True"
| "is_semantic (ToolCallReady _ _ _) = True"
| "is_semantic (ToolCallFailed _ _ _ _ _) = True"
| "is_semantic _ = False"

fun text_part :: "stream_event \<Rightarrow> string" where
  "text_part (SText t) = t"
| "text_part _ = []"

fun reasoning_part :: "stream_event \<Rightarrow> string" where
  "reasoning_part (SReasoning r) = r"
| "reasoning_part _ = []"

fun last_finish :: "stream_event list \<Rightarrow> finish_reason \<Rightarrow> finish_reason" where
  "last_finish [] f = f"
| "last_finish (SFinish reason # es) f = last_finish es reason"
| "last_finish (_ # es) f = last_finish es f"

text \<open>How polling ends: with the stream, with an error, or with a stall that the idle bound notices.\<close>

fun stream_end :: "nat option \<Rightarrow> polled list \<Rightarrow> proto_error option" where
  "stream_end idle [] = None"
| "stream_end idle (Stalled # ps) = (case idle of Some d \<Rightarrow> Some (PIdle d) | None \<Rightarrow> stream_end idle ps)"
| "stream_end idle (PolledError e # ps) = Some e"
| "stream_end idle (PolledEvent _ # ps) = stream_end idle ps"

text \<open>
  An attempt after which the request may be sent again. Its stream failed in transport and it received no semantic output; or
  its stream ended without a finish reason of the model, every call that it received was a fragment, the text is blank once the
  tagged reasoning is taken out, and both the tagged reasoning and the other one are blank.
\<close>

definition silent_attempt :: "nat option \<Rightarrow> string option \<Rightarrow> connected \<Rightarrow> bool" where
  "silent_attempt idle tag c \<longleftrightarrow>
     (let evs = received idle (co_stream c); text = concat (map text_part evs); reasoning = concat (map reasoning_part evs)
      in case stream_end idle (co_stream c) of
           Some e \<Rightarrow> is_transport_error e \<and> list_all (\<lambda>ev. \<not> is_semantic ev) evs
         | None \<Rightarrow>
             last_finish evs FinStop = FinOther ''stream-ended'' \<and> list_all (\<lambda>ev. \<not> is_call ev) evs
             \<and> trim (fst (strip_reasoning_tag text tag)) = [] \<and> snd (strip_reasoning_tag text tag) = None \<and> trim reasoning = [])"

lemma stream_loop_received:
  "case snd (stream_loop idle retries ps st) of
     Inl e \<Rightarrow> stream_end idle ps = Some (me_error (sae_error e)) \<and>
       (sae_semantic_output e \<longleftrightarrow> st_semantic st \<or> list_ex is_semantic (received idle ps))
   | Inr st' \<Rightarrow> stream_end idle ps = None \<and>
       st_text st' = st_text st @ concat (map text_part (received idle ps)) \<and>
       st_reasoning st' = st_reasoning st @ concat (map reasoning_part (received idle ps)) \<and>
       (st_calls st' = [] \<longleftrightarrow> st_calls st = [] \<and> list_all (\<lambda>ev. \<not> is_call ev) (received idle ps)) \<and>
       st_finish st' = last_finish (received idle ps) (st_finish st)"
proof (induction idle retries ps st rule: stream_loop.induct)
  case (2 idle retries ps st)
  then show ?case by (cases idle) (auto split: sum.splits)
next
  case (4 idle retries ev ps st)
  obtain e1 st1 where s: "stream_step ev st = (e1, st1)" by fastforce
  note IH = "4.IH" [OF s [symmetric] refl]
  have "snd (stream_loop idle retries (PolledEvent ev # ps) st) = snd (stream_loop idle retries ps st1)"
    by (simp add: s split_beta)
  moreover have "st_semantic st1 \<longleftrightarrow> st_semantic st \<or> is_semantic ev" "st_text st1 = st_text st @ text_part ev"
    "st_reasoning st1 = st_reasoning st @ reasoning_part ev" "st_calls st1 = [] \<longleftrightarrow> st_calls st = [] \<and> \<not> is_call ev"
    "last_finish (ev # received idle ps) (st_finish st) = last_finish (received idle ps) (st_finish st1)"
    using s by (cases ev; auto simp: Let_def)+
  ultimately show ?case using IH by (auto split: sum.splits)
qed simp_all

lemma trim_Nil [simp]: "trim [] = []"
  by (simp add: trim_def)

lemma trim_eq_Nil: "trim s = [] \<longleftrightarrow> list_all is_whitespace (chars_of s)"
proof -
  have "g \<in> set (rev (dropWhile is_whitespace (rev (dropWhile is_whitespace (chars_of s))))) \<Longrightarrow> g \<noteq> []" for g
    using chars_of_nonempty [of g s] by (auto dest!: set_dropWhileD)
  then have "trim s = [] \<longleftrightarrow> dropWhile is_whitespace (rev (dropWhile is_whitespace (chars_of s))) = []"
    by (auto simp: trim_def)
  also have "\<dots> \<longleftrightarrow> list_all is_whitespace (chars_of s)"
  proof -
    have "dropWhile P (rev (dropWhile P xs)) = [] \<longleftrightarrow> list_all P xs" for P and xs :: "string list"
      by (induction xs) (auto simp: list_all_iff dropWhile_eq_Nil_conv)
    then show ?thesis .
  qed
  finally show ?thesis .
qed

lemma trim_append_newline: "trim (r @ newline @ t) = [] \<longleftrightarrow> trim r = [] \<and> trim t = []"
proof -
  have lf: "x = []" if "is_whitespace (CHR 0x0A # x)" for x
    using that by (auto simp: is_whitespace_def whitespace_chars_literal)
  have "list_all is_whitespace (chars_of (newline @ t)) \<longleftrightarrow> list_all is_whitespace (chars_of t)"
  proof (cases "takeWhile is_cont t")
    case Nil
    then have "dropWhile is_cont t = t" by (metis append_Nil takeWhile_dropWhile_id)
    then show ?thesis using Nil by (simp add: newline_literal is_whitespace_def whitespace_chars_literal)
  next
    case (Cons b bs)
    then obtain t' where t: "t = b # t'" "is_cont b" by (cases t) (auto split: if_splits)
    have no: "\<not> is_whitespace (CHR 0x0A # b # bs')" for bs' using lf by blast
    have "\<not> is_whitespace (b # bs')" for bs'
      using t(2) by (auto simp: is_whitespace_def whitespace_chars_literal is_cont_def byte_of_def)
    then show ?thesis using no t by (simp add: newline_literal)
  qed
  then show ?thesis
    using chars_of_append_boundary [of "newline @ t" r] by (simp add: trim_eq_Nil newline_literal is_cont_def byte_of_def)
qed

lemma silent_error:
  assumes "snd (consume_stream idle tag retries (co_stream c)) = Inl e"
  shows "is_retryable_without_semantic_output e \<longleftrightarrow> silent_attempt idle tag c"
proof -
  have "snd (stream_loop idle retries (co_stream c) stream_start) = Inl e"
    using assms by (auto simp: consume_stream_def split: prod.splits sum.splits)
  then show ?thesis
    using stream_loop_received [where idle = idle and retries = retries and ps = "co_stream c" and st = stream_start]
    by (auto simp: silent_attempt_def is_retryable_without_semantic_output_def stream_start_def Let_def list_ex_iff list_all_iff)
qed

lemma silent_end:
  assumes "snd (consume_stream idle tag retries (co_stream c)) = Inr r"
  shows "is_empty_stream_end r \<longleftrightarrow> silent_attempt idle tag c"
proof -
  obtain st where st: "snd (stream_loop idle retries (co_stream c) stream_start) = Inr st" "r = response_of tag retries st"
    using assms by (auto simp: consume_stream_def split: prod.splits sum.splits)
  note got = stream_loop_received [where idle = idle and retries = retries and ps = "co_stream c" and st = stream_start, unfolded st(1), simplified]
  obtain clean tagged where strip: "strip_reasoning_tag (st_text st) tag = (clean, tagged)" by fastforce
  have tagged: "tagged = Some t \<Longrightarrow> trim t \<noteq> []" for t
    using strip by (auto simp: strip_reasoning_tag_def Let_def split: option.splits prod.splits if_splits)
  have "is_empty_stream_end r \<longleftrightarrow> st_finish st = FinOther ''stream-ended'' \<and> st_calls st = [] \<and> trim clean = [] \<and>
      tagged = None \<and> trim (st_reasoning st) = []"
    using tagged
    by (cases tagged) (auto simp: is_empty_stream_end_def st(2) response_of_def strip trim_append_newline Let_def)
  then show ?thesis
    using got strip by (auto simp: silent_attempt_def stream_start_def Let_def)
qed

text \<open>One round of the loop: the attempt is the last, or it was silent and the next one follows.\<close>

lemma complete_loop_step:
  assumes "complete_loop connect idle tag n tot reported = (evs, r, last_n)"
  shows "(last_n = n \<and> (n < 2 \<longrightarrow> \<not> (\<exists>c. connect n = Inr c \<and> silent_attempt idle tag c)) \<and> filter is_visible evs =
            (case connect n of Inr c \<Rightarrow> filter is_visible (attempt_events idle c) | Inl _ \<Rightarrow> []))
    \<or> (\<exists>c evs' tot' reported'. n < 2 \<and> connect n = Inr c \<and> silent_attempt idle tag c
         \<and> complete_loop connect idle tag (Suc n) tot' reported' = (evs', r, last_n)
         \<and> filter is_visible evs = filter is_visible (attempt_events idle c) @ filter is_visible evs')"
proof (cases "connect n")
  case (Inl e)
  then show ?thesis
    using assms by (cases e) (auto simp: complete_loop.simps [of connect idle tag n])
next
  case (Inr c)
  define tot1 where "tot1 = sat_add_u32 tot (co_retries c)"
  obtain rev1 rep1 where rep1: "report_retries tot1 reported = (rev1, rep1)" by fastforce
  obtain sev att where att: "consume_stream idle tag tot1 (co_stream c) = (sev, att)" by fastforce
  define again where "again = (case att of
      Inl failure \<Rightarrow> is_retryable_without_semantic_output failure | Inr response \<Rightarrow> is_empty_stream_end response)"
  have quiet: "filter is_visible rev1 = []"
    using rep1 by (auto simp: report_retries_def split: if_splits)
  have sev: "sev = attempt_events idle c"
    using consume_stream_events [of idle tag tot1 c] att by simp
  have again: "again \<longleftrightarrow> silent_attempt idle tag c"
    using att silent_error [of idle tag tot1 c] silent_end [of idle tag tot1 c] by (cases att) (auto simp: again_def)
  show ?thesis
  proof (cases "again \<and> n < 2")
    case True
    obtain rev2 rep2 where rep2: "report_retries (sat_add_u32 tot1 1) rep1 = (rev2, rep2)" by fastforce
    obtain more r' last' where more: "complete_loop connect idle tag (Suc n) (sat_add_u32 tot1 1) rep2 = (more, r', last')"
      by (metis prod_cases3)
    have "filter is_visible rev2 = []"
      using rep2 by (auto simp: report_retries_def split: if_splits)
    moreover have "silent_attempt idle tag c"
      using True again by simp
    moreover have "evs = [OnRequestPayload (json_bytes (co_payload c)) (wire_bytes (co_payload c)),
        OnResponseHeaders (co_headers_after c)] @ rev1 @ sev @ rev2 @ more" "r' = r" "last' = last_n"
      using assms True Inr rep1 att rep2 more
      by (simp_all add: complete_loop.simps [of connect idle tag n] tot1_def [symmetric] again_def [symmetric]
          max_zero_semantic_stream_retries_def)
    ultimately show ?thesis
      using True Inr more quiet sev
      by (intro disjI2 exI [of _ c] exI [of _ more] exI [of _ "sat_add_u32 tot1 1"] exI [of _ rep2]) simp
  next
    case False
    then show ?thesis
      using assms Inr rep1 att quiet sev again
      by (auto simp: complete_loop.simps [of connect idle tag n] tot1_def [symmetric] again_def [symmetric]
          max_zero_semantic_stream_retries_def)
  qed
qed

definition visible_attempt :: "(nat \<Rightarrow> (proto_error \<times> nat \<times> payload_stats) + connected) \<Rightarrow> nat option \<Rightarrow> nat \<Rightarrow> sink_event list" where
  "visible_attempt connect idle m =
     (case connect m of Inr c \<Rightarrow> filter is_visible (attempt_events idle c) | Inl _ \<Rightarrow> [])"

lemma complete_loop_attempts:
  assumes "n \<le> 2" and "complete_loop connect idle tag n tot reported = (evs, r, last_n)"
  shows "n \<le> last_n \<and> last_n \<le> 2
    \<and> (\<forall>m. n \<le> m \<and> m < last_n \<longrightarrow> (\<exists>c. connect m = Inr c \<and> silent_attempt idle tag c))
    \<and> (last_n < 2 \<longrightarrow> \<not> (\<exists>c. connect last_n = Inr c \<and> silent_attempt idle tag c))
    \<and> filter is_visible evs = concat (map (visible_attempt connect idle) [n..<Suc last_n])"
  using assms
proof (induction "2 - n" arbitrary: n tot reported evs)
  case 0
  then show ?case
    using complete_loop_step [OF 0(3)] by (auto simp: visible_attempt_def split: sum.split)
next
  case (Suc k)
  from complete_loop_step [OF Suc.prems(2)] show ?case
  proof
    assume "last_n = n \<and> (n < 2 \<longrightarrow> \<not> (\<exists>c. connect n = Inr c \<and> silent_attempt idle tag c)) \<and> filter is_visible evs =
        (case connect n of Inr c \<Rightarrow> filter is_visible (attempt_events idle c) | Inl _ \<Rightarrow> [])"
    then show ?thesis
      using Suc.prems(1) by (auto simp: visible_attempt_def split: sum.split)
  next
    assume "\<exists>c evs' tot' reported'. n < 2 \<and> connect n = Inr c \<and> silent_attempt idle tag c
         \<and> complete_loop connect idle tag (Suc n) tot' reported' = (evs', r, last_n)
         \<and> filter is_visible evs = filter is_visible (attempt_events idle c) @ filter is_visible evs'"
    then obtain c evs' tot' reported' where n: "n < 2" "connect n = Inr c" "silent_attempt idle tag c"
      and next_try: "complete_loop connect idle tag (Suc n) tot' reported' = (evs', r, last_n)"
      and evs: "filter is_visible evs = filter is_visible (attempt_events idle c) @ filter is_visible evs'"
      by blast
    have IH: "Suc n \<le> last_n \<and> last_n \<le> 2
        \<and> (\<forall>m. Suc n \<le> m \<and> m < last_n \<longrightarrow> (\<exists>c. connect m = Inr c \<and> silent_attempt idle tag c))
        \<and> (last_n < 2 \<longrightarrow> \<not> (\<exists>c. connect last_n = Inr c \<and> silent_attempt idle tag c))
        \<and> filter is_visible evs' = concat (map (visible_attempt connect idle) [Suc n..<Suc last_n])"
      by (rule Suc.hyps(1) [OF _ _ next_try]) (use Suc.hyps(2) n(1) in simp_all)
    have "[n..<Suc last_n] = n # [Suc n..<Suc last_n]"
      using IH by (simp add: upt_conv_Cons)
    then show ?thesis
      using IH n evs by (auto simp: visible_attempt_def Suc_le_eq order_le_less split: sum.split)
  qed
qed

section \<open>Properties\<close>

text \<open>
  Splitting inline reasoning out of a response loses nothing. The text is a sequence of closed
  sections, each some visible text and a tagged section, followed by a rest; the clean text is the
  visible parts in order, the reasoning is the tagged parts in order; the rest holds no opening
  tag, or ends in a section that is never closed, all of which is reasoning.
\<close>

theorem strip_reasoning_tag_lossless:
  assumes "strip_reasoning_tag text (Some tag) = (clean, reasoning)" and "contains_str (open_tag tag) text"
  shows "\<exists>ps c r. text = concat (map (\<lambda>(c, r). c @ open_tag tag @ r @ close_tag tag) ps)
        @ c @ (case r of Some r \<Rightarrow> open_tag tag @ r | None \<Rightarrow> [])
    \<and> clean = concat (map fst ps) @ c
    \<and> reasoning = (let whole = concat (map snd ps) @ unwrap_or [] r in if trim whole = [] then None else Some whole)
    \<and> (r = None \<longrightarrow> \<not> contains_str (open_tag tag) c) \<and> (\<forall>x. r = Some x \<longrightarrow> \<not> contains_str (close_tag tag) x)"
proof -
  obtain whole where w: "split_tags (open_tag tag) (close_tag tag) text [] [] = (clean, whole)"
    and r: "reasoning = (if trim whole = [] then None else Some whole)"
    using assms by (auto simp: strip_reasoning_tag_def Let_def split: prod.splits)
  have ne: "open_tag tag \<noteq> []"
    by (simp add: open_tag_def)
  obtain ps c x where "text = concat (map (\<lambda>(c, r). c @ open_tag tag @ r @ close_tag tag) ps)
        @ c @ (case x of Some r \<Rightarrow> open_tag tag @ r | None \<Rightarrow> [])"
      "clean = [] @ concat (map fst ps) @ c" "whole = [] @ concat (map snd ps) @ unwrap_or [] x"
      "x = None \<longrightarrow> \<not> contains_str (open_tag tag) c" "\<forall>y. x = Some y \<longrightarrow> \<not> contains_str (close_tag tag) y"
    using split_tags_pieces [OF ne w] by (elim exE conjE) (rule that)
  then show ?thesis
    using r by - (rule exI [of _ ps], rule exI [of _ c], rule exI [of _ x], simp)
qed

lemma strip_reasoning_tag_lossless_witness:
  "\<exists>ps c r. ''a<t>b</t>c'' = concat (map (\<lambda>(c, r). c @ open_tag ''t'' @ r @ close_tag ''t'') ps)
        @ c @ (case r of Some r \<Rightarrow> open_tag ''t'' @ r | None \<Rightarrow> []) \<and> ''ac'' = concat (map fst ps) @ c"
  using strip_reasoning_tag_lossless [of "''a<t>b</t>c''" "''t''" "''ac''" "Some ''b''"]
  by - (drule meta_mp, code_simp, drule meta_mp, code_simp, blast)

text \<open>
  C15: a request is sent again exactly after a silent attempt, and at most twice. Every attempt before the last was silent, and the
  last one was not silent unless it was the third. An attempt is silent when its stream failed in transport (a transport error or a stall) and it had
  received no delta at all, or when its stream ended without a finish reason of the model, no call was completed or failed to parse, and the text, the
  tagged reasoning in it and the other reasoning are all blank. What the sink sees is what the attempts sent, in order; so all that is ever shown and then sent
  again are, after a stream that ended early, blank text, blank reasoning with its tags, and fragments of calls.
\<close>

theorem replay_only_after_silence:
  assumes "complete connect idle tag = (evs, r, last_n)"
  shows "last_n \<le> 2
    \<and> (\<forall>m < last_n. \<exists>c. connect m = Inr c \<and> silent_attempt idle tag c)
    \<and> (last_n < 2 \<longrightarrow> \<not> (\<exists>c. connect last_n = Inr c \<and> silent_attempt idle tag c))
    \<and> filter is_visible evs = concat (map (visible_attempt connect idle) [0..<Suc last_n])"
  using complete_loop_attempts [of 0 connect idle tag 0 0 evs r last_n] assms by (simp add: complete_def)

text \<open>
  The first attempt shows a blank and ends early, the second stalls at once, the third answers.
\<close>

definition demo_connect :: "nat \<Rightarrow> (proto_error \<times> nat \<times> payload_stats) + connected" where
  "demo_connect n =
     Inr \<lparr>co_stream = (if n = 0 then [PolledEvent (SText '' ''), PolledEvent (SFinish (FinOther ''stream-ended''))]
            else if n = 1 then [PolledEvent TransportActivity, Stalled]
            else [PolledEvent (SText ''hi''), PolledEvent (SFinish FinStop)]),
       co_retries = 0, co_payload = \<lparr>json_bytes = 1, wire_bytes = 1\<rparr>, co_headers_after = 0\<rparr>"

lemma replay_only_after_silence_witness:
  "\<exists>evs r. complete demo_connect (Some 5) (Some ''think'') = (evs, r, 2) \<and> filter is_visible evs = [OnText '' '', OnText ''hi'']"
proof -
  obtain evs r last_n where c: "complete demo_connect (Some 5) (Some ''think'') = (evs, r, last_n)" by (metis prod_cases3)
  note p = replay_only_after_silence [OF c]
  have shown: "visible_attempt demo_connect (Some 5) 0 = [OnText '' '']" "visible_attempt demo_connect (Some 5) 1 = []"
    "visible_attempt demo_connect (Some 5) 2 = [OnText ''hi'']"
    by (simp_all add: visible_attempt_def demo_connect_def attempt_events_def stream_start_def)
  have blank: "strip_reasoning_tag '' '' (Some ''think'') = ('' '', None)" "trim '' '' = []" by code_simp+
  have "\<exists>c. demo_connect n = Inr c \<and> silent_attempt (Some 5) (Some ''think'') c" if "n < 2" for n
    using that blank by (auto simp: demo_connect_def silent_attempt_def)
  with p have "last_n = 2" by (metis le_neq_implies_less)
  then show ?thesis using c p shown by (auto simp: numeral_2_eq_2)
qed

end
