(* ===== verification/Agent_Loop.thy ===== *)
theory Agent_Loop
  imports Batch Model_Stream "HOL-Library.While_Combinator"
begin

text \<open>
  The agent loop of \<open>crates/rc-core/src/agent.rs\<close>: \<open>AgentLoop::run\<close> sends the session to the model, runs the
  tool calls of the response through the batch executor, and repeats until the model stops, a limit
  is reached, the request fails or the turn is interrupted.

  Everything outside the loop is a parameter of its environment and reads or changes a world \<open>'w\<close>: the
  model (\<open>Model::complete\<close>), the clocks, the cancellation token, the token estimator, the change
  journal. An interruption is drawn when a future is awaited under \<open>await_turn_budget\<close>. The log keeps
  what the loop reports to its sink, in order, and the requests it sends.
\<close>

section \<open>Session, environment and state\<close>

record session =
  s_id :: string
  s_cwd :: string
  s_extra_dirs :: "string list"
  s_messages :: "turn list"
  s_perm_grants :: "string list"
  s_total_usage :: usage
  s_total_cost :: cost

datatype loop_outcome =
    LoopStop | LoopLength | LoopItersExceeded | LoopNoProgress | LoopIncomplete | LoopTimeUp | LoopCancelled

text \<open>How a call of \<open>run\<close> ends: with an outcome, with the error of the model, or by a panic, with its message: of a tool that runs as a barrier, of the \<open>expect\<close> of the batch, or the \<open>unreachable!\<close> of the loop.\<close>

datatype loop_end = Returned loop_outcome | Failed model_error | Unwound string

record model_request =
  rq_messages :: "wire_message list"
  rq_tools :: "tool_definition list"
  rq_max_tokens :: "u32 option"
  rq_session_id :: string

datatype interrupt = ByCancel | ByDeadline

text \<open>
  A run of \<open>Model::complete\<close>: the events it sends to its sink with the clock readings of the trace, its
  result, and whether it was cut before.
\<close>

record model_run =
  run_events :: "(nat \<times> nat \<times> sink_event) list"
  run_result :: "model_error + model_response"
  run_cut :: "interrupt option"

record 'w loop_env =
  l_batch :: "'w batch_env"
  l_print :: "json \<Rightarrow> string"
  l_max_iters :: u32
  l_assembler :: "('w \<Rightarrow> turn list \<Rightarrow> string \<Rightarrow> wire_message list) option"
  l_turn_timeout :: "nat option"
  l_max_tokens :: "u32 option"
  l_pricing :: pricing
  l_completion_review :: bool
  l_model :: "model_request \<Rightarrow> 'w \<Rightarrow> model_run \<times> 'w"
  l_cut :: "'w \<Rightarrow> nat \<times> interrupt"
  l_cancelled :: "'w \<Rightarrow> bool"
  l_elapsed :: "'w \<Rightarrow> nat"
  l_now :: "'w \<Rightarrow> nat"
  l_times :: "'w \<Rightarrow> request_times"
  l_estimate :: "nat \<Rightarrow> 'w \<Rightarrow> nat"
  l_observe :: "u64 \<Rightarrow> nat \<Rightarrow> 'w \<Rightarrow> 'w"
  l_advance_journal :: "'w \<Rightarrow> 'w"
  l_show_error :: "proto_error \<Rightarrow> string"

datatype loop_event =
    EvIter u32 u32
  | EvContext nat nat
  | EvRequest model_request
  | EvStream "(nat \<times> nat \<times> sink_event) list"
  | EvUsage usage
  | EvTurn turn
  | EvToolEnd string string tool_result_body
  | EvBatch "exec_item list" "batch_event list"

record 'w loop_state =
  ls_session :: session
  ls_world :: 'w
  ls_iters :: u32
  ls_rounds :: u32
  ls_length_used :: u32
  ls_unconfirmed_used :: u32
  ls_review_used :: bool
  ls_tool_work :: bool
  ls_log :: "loop_event list"

datatype 'w loop_step = Continue "'w loop_state" | Done loop_end "'w loop_state"

section \<open>Helpers\<close>

definition research_nudge_after :: u32 where
  "research_nudge_after = 3"

definition research_nudge :: string where
  "research_nudge = ''[agent guidance] You have spent three consecutive tool rounds on investigation. Before another round, consolidate what is already known and list every remaining unknown. If more evidence is truly required, fetch all independent paths and queries together in one parallel response (prefer ReadMany for files); otherwise edit or answer now.''"

definition force_action_recovery :: string where
  "force_action_recovery = ''[harness recovery] Your previous response exhausted the completion budget without producing visible answer text or a confirmed tool call. Do not restart or continue hidden analysis. Take the next observable action now: call the required tool or provide the answer.''"

definition partial_answer_recovery :: string where
  "partial_answer_recovery = ''[harness recovery] Continue from the visible partial response above without repeating it. Complete the task now.''"

definition final_review_recovery :: string where
  "final_review_recovery = ''[benchmark completion gate] Before finalizing, perform one independent completion audit. Inspect the final diff, map every acceptance requirement to the implementation, and run the broadest relevant verification that is available after the last edit. Do not treat self-authored tests alone as sufficient evidence. If verification fails or a requirement is uncovered, fix it and verify again; otherwise provide the final answer.''"

definition max_length_recoveries :: u32 where
  "max_length_recoveries = 1"

definition max_unconfirmed_recoveries :: u32 where
  "max_unconfirmed_recoveries = 1"

definition with_max_iters :: "u32 \<Rightarrow> 'w loop_env \<Rightarrow> 'w loop_env" where
  "with_max_iters n env = env\<lparr>l_max_iters := (if n = 0 then - 1 else n)\<rparr>"

fun finish_reason_name :: "finish_reason \<Rightarrow> string" where
  "finish_reason_name FinStop = ''stop''"
| "finish_reason_name FinLength = ''length''"
| "finish_reason_name FinToolCalls = ''tool_calls''"
| "finish_reason_name FinContentFilter = ''content_filter''"
| "finish_reason_name (FinOther reason) = ''other:'' @ reason"

definition looks_like_implicit_length :: "model_response \<Rightarrow> u32 option \<Rightarrow> bool" where
  "looks_like_implicit_length r configured_max =
     (if mr_finish_reason r \<noteq> FinStop \<or> trim (mr_text r) \<noteq> [] \<or> mr_tool_calls r \<noteq> []
         \<or> (case mr_reasoning r of None \<Rightarrow> True | Some reasoning \<Rightarrow> trim reasoning = []) then False
      else case mr_usage r of
        None \<Rightarrow> False
      | Some u \<Rightarrow> (case configured_max of
            Some limit \<Rightarrow> ucast limit \<le> saturating_add (completion_tokens u) 8
          | None \<Rightarrow> 4096 \<le> completion_tokens u))"

fun investigates :: "exec_item \<Rightarrow> bool" where
  "investigates (ExCall c) \<longleftrightarrow> call_name c \<notin> {''Write'', ''Append'', ''Edit''}"
| "investigates (ExParseError _ _ _) \<longleftrightarrow> False"

definition is_investigation_batch :: "exec_item list \<Rightarrow> bool" where
  "is_investigation_batch items \<longleftrightarrow> items \<noteq> [] \<and> list_all investigates items"

fun message_len :: "wire_message \<Rightarrow> nat" where
  "message_len (WSystem content) = char_count content"
| "message_len (WUser text) = char_count text"
| "message_len (WAssistant content reasoning tool_calls) =
     (case content of Some c \<Rightarrow> char_count c | None \<Rightarrow> 0) + (case reasoning of Some r \<Rightarrow> char_count r | None \<Rightarrow> 0)
     + sum_list (map (\<lambda>c. char_count (wtc_arguments c) + length (wtc_name c)) tool_calls)"
| "message_len (WTool _ content) = char_count content"

fun is_retryable_proto :: "proto_error \<Rightarrow> bool" where
  "is_retryable_proto (PStatus status _) \<longleftrightarrow> status = 429 \<or> (500 \<le> status \<and> status \<le> 599)"
| "is_retryable_proto (PHttp _) \<longleftrightarrow> True"
| "is_retryable_proto (PIdle _) \<longleftrightarrow> True"
| "is_retryable_proto _ \<longleftrightarrow> False"

definition is_retryable :: "model_error \<Rightarrow> bool" where
  "is_retryable e = is_retryable_proto (me_error e)"

definition emit :: "loop_event \<Rightarrow> 'w loop_state \<Rightarrow> 'w loop_state" where
  "emit e st = st\<lparr>ls_log := ls_log st @ [e]\<rparr>"

definition push_turn :: "turn \<Rightarrow> 'w loop_state \<Rightarrow> 'w loop_state" where
  "push_turn t st =
     emit (EvTurn t) (st\<lparr>ls_session := (ls_session st)\<lparr>s_messages := s_messages (ls_session st) @ [t]\<rparr>\<rparr>)"

definition allowed_roots :: "session \<Rightarrow> string list" where
  "allowed_roots s = s_cwd s # s_extra_dirs s"

definition synthesize_interrupted :: "tool_call list \<Rightarrow> 'w loop_state \<Rightarrow> 'w loop_state" where
  "synthesize_interrupted calls =
     fold (\<lambda>c st. push_turn (ToolResult (call_id c) (call_name c) ResInterrupted 0)
                    (emit (EvToolEnd (call_id c) (call_name c) ResInterrupted) st)) calls"

definition unconfirmed_result :: "string \<Rightarrow> tool_result_body" where
  "unconfirmed_result reason = ResError (''the model response ended with finish_reason='' @ reason
     @ '' before confirming this tool call; it was not executed. Retry the tool call with complete arguments'') True"

definition synthesize_retryable_unconfirmed :: "tool_call list \<Rightarrow> string \<Rightarrow> 'w loop_state \<Rightarrow> 'w loop_state" where
  "synthesize_retryable_unconfirmed calls reason =
     fold (\<lambda>c st. push_turn (ToolResult (call_id c) (call_name c) (unconfirmed_result reason) 0)
                    (emit (EvToolEnd (call_id c) (call_name c) (unconfirmed_result reason)) st)) calls"

text \<open>The loop over the calls of a response: the calls of the assistant turn and the items of the batch.\<close>

fun classify_calls ::
  "(string \<Rightarrow> json option) \<Rightarrow> (json \<Rightarrow> string) \<Rightarrow> finalized_tool_call list \<Rightarrow> tool_call list \<Rightarrow> exec_item list \<Rightarrow>
   tool_call list \<times> exec_item list" where
  "classify_calls parse print [] calls items = (calls, items)"
| "classify_calls parse print (FCall c # fcs) calls items = classify_calls parse print fcs (calls @ [c]) (items @ [ExCall c])"
| "classify_calls parse print (FParseError cid name raw_args error # fcs) calls items =
     (let cid = unwrap_or (''parseerr_'' @ show_nat (length calls)) cid;
          name = (case name of Some n \<Rightarrow> if n \<noteq> [] then n else ''invalid_tool_call'' | None \<Rightarrow> ''invalid_tool_call'')
      in classify_calls parse print fcs
           (calls @ [\<lparr>call_id = cid, call_name = name, call_arguments = safe_tool_arguments parse print raw_args\<rparr>])
           (items @ [ExParseError cid name error]))"

fun unconfirmed_reason :: "tool_call list \<Rightarrow> finish_reason \<Rightarrow> string option" where
  "unconfirmed_reason [] _ = None"
| "unconfirmed_reason _ FinToolCalls = None"
| "unconfirmed_reason _ FinContentFilter = None"
| "unconfirmed_reason _ FinStop = Some ''stop''"
| "unconfirmed_reason _ FinLength = Some ''length''"
| "unconfirmed_reason _ (FinOther reason) = Some (''other ('' @ reason @ '')'')"

section \<open>One iteration\<close>

definition sync_cwd :: "'w loop_env \<Rightarrow> 'w loop_state \<Rightarrow> 'w loop_state" where
  "sync_cwd env st = st\<lparr>ls_session := (ls_session st)\<lparr>s_cwd := e_shell_cwd (l_batch env) (ls_world st)\<rparr>\<rparr>"

definition request_messages :: "'w loop_env \<Rightarrow> 'w loop_state \<Rightarrow> wire_message list" where
  "request_messages env st =
     (case l_assembler env of
        Some assemble \<Rightarrow> assemble (ls_world st) (s_messages (ls_session st)) (s_cwd (ls_session st))
      | None \<Rightarrow> project (e_parse (l_batch env)) (l_print env) (s_messages (ls_session st)))
     @ (if research_nudge_after \<le> ls_rounds st then [WUser research_nudge] else [])"

text \<open>The accounting of a response that carries its usage.\<close>

definition account :: "'w loop_env \<Rightarrow> usage option \<Rightarrow> nat \<Rightarrow> 'w loop_state \<Rightarrow> 'w loop_state" where
  "account env u context_chars st =
     (case u of
        None \<Rightarrow> st
      | Some u \<Rightarrow>
          (let st = emit (EvUsage u) st; s = ls_session st in
           st\<lparr>ls_session := s\<lparr>s_total_usage := usage_add (s_total_usage s) u,
                             s_total_cost := cost_add (s_total_cost s) (cost_of (l_pricing env) u)\<rparr>,
              ls_world := l_observe env (prompt_tokens u) context_chars (ls_world st)\<rparr>))"

text \<open>
  \<open>await_turn_budget\<close> on a batch: how many awaits complete before it is cut. Without a deadline only a
  cancellation cuts, so a batch that a deadline would cut gets all the awaits it needs.
\<close>

definition batch_awaits :: "'w loop_env \<Rightarrow> exec_item list \<Rightarrow> nat \<times> interrupt \<Rightarrow> nat" where
  "batch_awaits env items cut' =
     (if snd cut' = ByDeadline \<and> l_turn_timeout env = None then 3 * length items + 1 else fst cut')"

definition count_round :: "bool \<Rightarrow> 'w loop_state \<Rightarrow> 'w loop_state" where
  "count_round investigation st = st\<lparr>ls_rounds := (if investigation then saturating_add (ls_rounds st) 1 else 0)\<rparr>"

definition run_tools ::
  "'w loop_env \<Rightarrow> string list \<Rightarrow> tool_call list \<Rightarrow> exec_item list \<Rightarrow> 'w loop_state \<Rightarrow> 'w loop_step" where
  "run_tools env roots calls items st =
     (let investigation = is_investigation_batch items;
          st = st\<lparr>ls_tool_work := ls_tool_work st \<or> items \<noteq> []\<rparr>;
          cut' = l_cut env (ls_world st);
          (fl, bs) = poll_batch ((l_batch env)\<lparr>e_roots := roots\<rparr>) items
            (batch_start (length items) (batch_awaits env items cut') (ls_world st) (s_perm_grants (ls_session st)));
          st = st\<lparr>ls_world := b_world bs, ls_session := (ls_session st)\<lparr>s_perm_grants := b_grants bs\<rparr>\<rparr>
      in case fl of
           Finished results \<Rightarrow>
             Continue (count_round investigation (fold push_turn (map result_turn results) (emit (EvBatch items (b_log bs)) st)))
         | Dropped \<Rightarrow>
             (let (turns, events) = finish_partial_batch bs 0 calls;
                  st = fold push_turn turns (emit (EvBatch items (b_log bs @ events)) st)
              in case snd cut' of
                   ByCancel \<Rightarrow> Done (Returned LoopCancelled) (push_turn (Cancelled (l_now env (ls_world st))) st)
                 | ByDeadline \<Rightarrow> Done (Returned LoopTimeUp) st)
         | Crashed e \<Rightarrow> Done (Unwound e) (emit (EvBatch items (b_log bs)) st))"

text \<open>The branches on the finish reason, after the accounting.\<close>

definition finish_turn ::
  "'w loop_env \<Rightarrow> string list \<Rightarrow> finish_reason \<Rightarrow> (tool_call list \<Rightarrow> turn) \<Rightarrow> string \<Rightarrow> tool_call list \<Rightarrow> exec_item list \<Rightarrow>
   'w loop_state \<Rightarrow> 'w loop_step" where
  "finish_turn env roots reason assistant text calls items st =
     (case unconfirmed_reason calls reason of
        Some why \<Rightarrow>
          (let st = synthesize_retryable_unconfirmed calls why (push_turn (assistant calls) st) in
           if max_unconfirmed_recoveries \<le> ls_unconfirmed_used st then Done (Returned LoopIncomplete) st
           else Continue (st\<lparr>ls_unconfirmed_used := ls_unconfirmed_used st + 1\<rparr>))
      | None \<Rightarrow>
          (case reason of
             FinToolCalls \<Rightarrow> run_tools env roots calls items (push_turn (assistant calls) st)
           | FinStop \<Rightarrow>
               (let st = synthesize_interrupted calls (push_turn (assistant calls) st) in
                if l_completion_review env \<and> ls_tool_work st \<and> \<not> ls_review_used st then
                  Continue (push_turn (SystemNote Recovery final_review_recovery) (st\<lparr>ls_review_used := True\<rparr>))
                else Done (Returned LoopStop) st)
           | FinLength \<Rightarrow>
               if calls = [] then
                 (let no_progress = (trim text = []);
                      st = push_turn (assistant []) st
                  in if max_length_recoveries \<le> ls_length_used st then
                       Done (Returned (if no_progress then LoopNoProgress else LoopLength)) st
                     else
                       Continue (push_turn (SystemNote Recovery (if no_progress then force_action_recovery else partial_answer_recovery))
                         (st\<lparr>ls_length_used := ls_length_used st + 1\<rparr>)))
               else Done (Unwound ''outstanding length-finished calls retry above'') st
           | _ \<Rightarrow> Done (Returned LoopIncomplete) (synthesize_interrupted calls (push_turn (assistant calls) st))))"

definition handle_response ::
  "'w loop_env \<Rightarrow> string list \<Rightarrow> nat \<Rightarrow> nat \<Rightarrow> request_observation \<Rightarrow> model_response \<Rightarrow> 'w loop_state \<Rightarrow> 'w loop_step" where
  "handle_response env roots context_chars context_tokens ob r st =
     (let implicit_length = looks_like_implicit_length r (l_max_tokens env);
          reason = (if implicit_length then FinLength else mr_finish_reason r);
          trace = finish_trace (l_times env (ls_world st)) context_chars context_tokens ob
            (finish_reason_name (mr_finish_reason r)) (finish_reason_name reason) (mr_retries r) implicit_length;
          turn_cost = map_option (cost_of (l_pricing env)) (mr_usage r);
          st = account env (mr_usage r) context_chars st;
          (calls, items) = classify_calls (e_parse (l_batch env)) (l_print env) (mr_tool_calls r) [] [];
          assistant = (\<lambda>cs. Assistant (mr_text r) (mr_reasoning r) cs (mr_usage r) turn_cost (Some trace))
      in finish_turn env roots reason assistant (mr_text r) calls items st)"

definition handle_error ::
  "'w loop_env \<Rightarrow> nat \<Rightarrow> nat \<Rightarrow> request_observation \<Rightarrow> model_error \<Rightarrow> 'w loop_state \<Rightarrow> 'w loop_step" where
  "handle_error env context_chars context_tokens ob e st =
     (let retries = me_retries e;
          trace = finish_trace (l_times env (ls_world st)) context_chars context_tokens ob ''error'' ''error'' retries False
      in if l_cancelled env (ls_world st) then
           Done (Returned LoopCancelled) (push_turn (Cancelled (l_now env (ls_world st))) st)
         else
           Done (Failed e) (push_turn (Error (''proto: '' @ l_show_error env (me_error e)) (Some (is_retryable e))
             (if 0 < retries then Some retries else None) (Some trace) (partial_response ob) (l_now env (ls_world st))) st))"

definition await_model :: "'w loop_env \<Rightarrow> model_run \<Rightarrow> interrupt option" where
  "await_model env run =
     (case run_cut run of Some ByDeadline \<Rightarrow> if l_turn_timeout env = None then None else Some ByDeadline | c \<Rightarrow> c)"

definition send_request :: "'w loop_env \<Rightarrow> string list \<Rightarrow> 'w loop_state \<Rightarrow> 'w loop_step" where
  "send_request env roots st =
     (let messages = request_messages env st;
          context_chars = sum_list (map message_len messages);
          context_tokens = l_estimate env context_chars (ls_world st);
          request = \<lparr>rq_messages = messages, rq_tools = reg_defs (e_tools (l_batch env)), rq_max_tokens = l_max_tokens env,
                     rq_session_id = s_id (ls_session st)\<rparr>;
          (run, w) = l_model env request (ls_world st);
          st = emit (EvStream (run_events run)) (emit (EvRequest request) (emit (EvContext context_chars context_tokens) st))
                 \<lparr>ls_world := w\<rparr>;
          ob = fold observe_event (run_events run) observation_default
      in case await_model env run of
           Some ByCancel \<Rightarrow> Done (Returned LoopCancelled) (push_turn (Cancelled (l_now env (ls_world st))) st)
         | Some ByDeadline \<Rightarrow> Done (Returned LoopTimeUp) st
         | None \<Rightarrow> (case run_result run of
               Inl e \<Rightarrow> handle_error env context_chars context_tokens ob e st
             | Inr r \<Rightarrow> handle_response env roots context_chars context_tokens ob r st))"

definition iteration :: "'w loop_env \<Rightarrow> string list \<Rightarrow> 'w loop_state \<Rightarrow> 'w loop_step" where
  "iteration env roots st =
     (let st = st\<lparr>ls_iters := ls_iters st + 1\<rparr> in
      if l_max_iters env < ls_iters st then Done (Returned LoopItersExceeded) st
      else if (case l_turn_timeout env of Some d \<Rightarrow> d \<le> l_elapsed env (ls_world st) | None \<Rightarrow> False)
        then Done (Returned LoopTimeUp) st
      else send_request env roots (sync_cwd env (emit (EvIter (ls_iters st) (l_max_iters env)) st)))"

section \<open>A turn\<close>

fun running :: "'w loop_step \<Rightarrow> bool" where
  "running (Continue _) = True"
| "running (Done _ _) = False"

fun advance :: "'w loop_env \<Rightarrow> string list \<Rightarrow> 'w loop_step \<Rightarrow> 'w loop_step" where
  "advance env roots (Continue st) = iteration env roots st"
| "advance env roots (Done e st) = Done e st"

text \<open>The loop of \<open>run\<close>; \<open>None\<close> when it never returns.\<close>

definition run_loop :: "'w loop_env \<Rightarrow> string list \<Rightarrow> 'w loop_state \<Rightarrow> 'w loop_step option" where
  "run_loop env roots st = while_option running (advance env roots) (Continue st)"

definition run_start :: "'w loop_env \<Rightarrow> string \<Rightarrow> session \<Rightarrow> 'w \<Rightarrow> 'w loop_state" where
  "run_start env input s w =
     (let st = push_turn (User input (l_now env w))
            \<lparr>ls_session = s, ls_world = w, ls_iters = 0, ls_rounds = 0, ls_length_used = 0, ls_unconfirmed_used = 0,
             ls_review_used = False, ls_tool_work = False, ls_log = []\<rparr>
      in (sync_cwd env st)\<lparr>ls_world := l_advance_journal env w\<rparr>)"

definition run :: "'w loop_env \<Rightarrow> string \<Rightarrow> session \<Rightarrow> 'w \<Rightarrow> 'w loop_step option" where
  "run env input s w =
     (let st = run_start env input s w in run_loop env (allowed_roots (ls_session st)) st)"

section \<open>What a step appends\<close>

abbreviation messages_of :: "'w loop_state \<Rightarrow> turn list" where
  "messages_of st \<equiv> s_messages (ls_session st)"

fun event_turns :: "loop_event \<Rightarrow> turn list" where
  "event_turns (EvTurn t) = [t]"
| "event_turns _ = []"

definition turns_of :: "loop_event list \<Rightarrow> turn list" where
  "turns_of evs = concat (map event_turns evs)"

lemma turns_of_simps [simp]:
  "turns_of [] = []" "turns_of (e # es) = event_turns e @ turns_of es" "turns_of (xs @ ys) = turns_of xs @ turns_of ys"
  by (simp_all add: turns_of_def)

lemma turns_of_map [simp]: "turns_of (map EvTurn ts) = ts"
  by (induction ts) simp_all

fun state_of :: "'w loop_step \<Rightarrow> 'w loop_state" where
  "state_of (Continue st) = st"
| "state_of (Done _ st) = st"

definition appends :: "'w loop_state \<Rightarrow> loop_event list \<Rightarrow> 'w loop_state \<Rightarrow> bool" where
  "appends st evs st' \<longleftrightarrow>
     ls_log st' = ls_log st @ evs \<and> messages_of st' = messages_of st @ turns_of evs
     \<and> s_total_usage (ls_session st') = s_total_usage (ls_session st)
     \<and> s_total_cost (ls_session st') = s_total_cost (ls_session st) \<and> ls_iters st' = ls_iters st"

lemma appends_refl: "appends st [] st"
  by (simp add: appends_def)

lemma appends_trans: "appends st xs st1 \<Longrightarrow> appends st1 ys st2 \<Longrightarrow> appends st (xs @ ys) st2"
  by (simp add: appends_def)

lemma appends_emit: "event_turns e = [] \<Longrightarrow> appends st xs st1 \<Longrightarrow> appends st (xs @ [e]) (emit e st1)"
  by (simp add: appends_def emit_def)

lemma appends_push: "appends st xs st1 \<Longrightarrow> appends st (xs @ [EvTurn t]) (push_turn t st1)"
  by (simp add: appends_def push_turn_def emit_def)

lemma appends_push_all: "appends st xs st1 \<Longrightarrow> appends st (xs @ map EvTurn ts) (fold push_turn ts st1)"
proof (induction ts arbitrary: xs st1)
  case (Cons t ts)
  show ?case
    using Cons.IH [OF appends_push [OF Cons.prems, of t]] by simp
qed simp

lemma appends_update:
  assumes "appends st xs st1"
  shows "appends st xs (st1\<lparr>ls_unconfirmed_used := a\<rparr>)" "appends st xs (st1\<lparr>ls_length_used := a\<rparr>)"
    "appends st xs (st1\<lparr>ls_review_used := b\<rparr>)" "appends st xs (st1\<lparr>ls_tool_work := b\<rparr>)" "appends st xs (st1\<lparr>ls_world := w\<rparr>)"
    "appends st xs (st1\<lparr>ls_session := (ls_session st1)\<lparr>s_perm_grants := g\<rparr>\<rparr>)" "appends st xs (sync_cwd env st1)"
    "appends st xs (count_round b st1)"
  using assms by (simp_all add: appends_def sync_cwd_def count_round_def)

text \<open>The events of the synthesized results, a completion and a turn per call.\<close>

definition answer_events :: "tool_result_body \<Rightarrow> tool_call list \<Rightarrow> loop_event list" where
  "answer_events body calls =
     concat (map (\<lambda>c. [EvToolEnd (call_id c) (call_name c) body, EvTurn (ToolResult (call_id c) (call_name c) body 0)]) calls)"

lemma answer_events_simps [simp]:
  "answer_events body [] = []"
  "answer_events body (c # cs) =
     EvToolEnd (call_id c) (call_name c) body # EvTurn (ToolResult (call_id c) (call_name c) body 0) # answer_events body cs"
  by (simp_all add: answer_events_def)

lemma appends_answers:
  "appends st xs st1 \<Longrightarrow>
   appends st (xs @ answer_events body calls)
     (fold (\<lambda>c st. push_turn (ToolResult (call_id c) (call_name c) body 0) (emit (EvToolEnd (call_id c) (call_name c) body) st)) calls st1)"
proof (induction calls arbitrary: xs st1)
  case (Cons c cs)
  have "appends st ((xs @ [EvToolEnd (call_id c) (call_name c) body]) @ [EvTurn (ToolResult (call_id c) (call_name c) body 0)])
      (push_turn (ToolResult (call_id c) (call_name c) body 0) (emit (EvToolEnd (call_id c) (call_name c) body) st1))"
    by (intro appends_push appends_emit Cons.prems) simp
  from Cons.IH [OF this] show ?case by simp
qed simp

lemma answers_answer: "list_all2 is_answer calls (turns_of (answer_events body calls))"
  by (induction calls) simp_all

text \<open>A batch runs right after the assistant turn that announces its calls, with the reason \<open>tool_calls\<close>.\<close>

text \<open>The item of a call: the call itself, or the error that its arguments did not parse, under its id and name.\<close>

fun item_of :: "tool_call \<Rightarrow> exec_item \<Rightarrow> bool" where
  "item_of c (ExCall c') \<longleftrightarrow> c' = c"
| "item_of c (ExParseError cid name error) \<longleftrightarrow> cid = call_id c \<and> name = call_name c"

lemma item_of_ids: "list_all2 item_of calls items \<Longrightarrow> map call_id calls = map item_id items"
proof (induction rule: list_all2_induct)
  case (Cons c cs i its)
  then show ?case by (cases i) auto
qed simp

fun announces :: "loop_event \<Rightarrow> exec_item list \<Rightarrow> bool" where
  "announces (EvTurn (Assistant _ _ calls _ _ (Some tr))) items \<longleftrightarrow>
     tr_effective_finish_reason tr = ''tool_calls'' \<and> list_all2 item_of calls items"
| "announces _ _ \<longleftrightarrow> False"

fun confirmed_from :: "loop_event \<Rightarrow> loop_event list \<Rightarrow> bool" where
  "confirmed_from prev [] \<longleftrightarrow> True"
| "confirmed_from prev (e # es) \<longleftrightarrow>
     (case e of EvBatch items _ \<Rightarrow> announces prev items | _ \<Rightarrow> True) \<and> confirmed_from e es"

fun is_batch :: "loop_event \<Rightarrow> bool" where
  "is_batch (EvBatch _ _) = True"
| "is_batch _ = False"

fun is_request :: "loop_event \<Rightarrow> bool" where
  "is_request (EvRequest _) = True"
| "is_request _ = False"

fun is_assistant :: "turn \<Rightarrow> bool" where
  "is_assistant (Assistant _ _ _ _ _ _) = True"
| "is_assistant _ = False"

lemma confirmed_no_batch: "(\<forall>e \<in> set es. \<not> is_batch e) \<Longrightarrow> confirmed_from prev es"
  by (induction es arbitrary: prev) (auto split: loop_event.split)

lemma confirmed_append: "confirmed_from prev (xs @ ys) \<longleftrightarrow> confirmed_from prev xs \<and> confirmed_from (last (prev # xs)) ys"
  by (induction xs arbitrary: prev) auto

lemma answer_events_plain:
  "e \<in> set (answer_events body calls) \<Longrightarrow> \<not> is_batch e \<and> \<not> is_request e"
  "t \<in> set (turns_of (answer_events body calls)) \<Longrightarrow> \<not> is_assistant t"
  by (induction calls) auto

lemma answered_append: "answered xs \<Longrightarrow> answered ys \<Longrightarrow> answered (xs @ ys)"
proof (induction xs rule: answered.induct)
  case (2 t ts)
  then show ?case
    by auto
qed simp

lemma answered_turn: "\<not> is_result t \<Longrightarrow> list_all2 is_answer (turn_calls t) rs \<Longrightarrow> answered (t # rs)"
  using list_all2_lengthD by fastforce

lemma answered_note: "answered xs \<Longrightarrow> \<not> is_result t \<Longrightarrow> turn_calls t = [] \<Longrightarrow> answered (xs @ [t])"
  by (rule answered_append) simp_all

lemma answer_not_assistant: "list_all2 is_answer calls rs \<Longrightarrow> t \<in> set rs \<Longrightarrow> \<not> is_assistant t"
proof (induction rule: list_all2_induct)
  case (Cons c cs r rs)
  then show ?case by (cases r) auto
qed simp

lemma classify_items:
  "classify_calls parse print fcs calls items = (calls', items') \<Longrightarrow> list_all2 item_of calls items \<Longrightarrow> list_all2 item_of calls' items'"
  by (induction parse print fcs calls items rule: classify_calls.induct) (auto simp: Let_def list_all2_appendI)

section \<open>Steps of the loop\<close>

fun unwound :: "'w loop_step \<Rightarrow> bool" where
  "unwound (Done (Unwound _) _) = True"
| "unwound _ = False"

text \<open>What follows the assistant turn of a response: its answers, at most one batch, no request.\<close>

definition closes :: "turn \<Rightarrow> loop_event list \<Rightarrow> 'w loop_step \<Rightarrow> bool" where
  "closes asst rest step \<longleftrightarrow>
     confirmed_from (EvTurn asst) rest \<and> (\<forall>e \<in> set rest. \<not> is_request e)
     \<and> (\<forall>t \<in> set (turns_of rest). \<not> is_assistant t) \<and> (unwound step \<or> answered (asst # turns_of rest))"

lemma closes_answers:
  assumes "is_assistant asst" and "turn_calls asst = calls"
    and "\<forall>e \<in> set extra. \<not> is_batch e \<and> \<not> is_request e"
    and "\<forall>t \<in> set (turns_of extra). \<not> is_assistant t \<and> \<not> is_result t \<and> turn_calls t = []" and "length (turns_of extra) \<le> 1"
  shows "closes asst (answer_events body calls @ extra) step"
proof -
  have "answered (asst # turns_of (answer_events body calls))"
    using assms(1, 2) answers_answer by (intro answered_turn) (cases asst; auto)+
  moreover have "answered (turns_of extra)"
    using assms(4, 5) by (cases "turns_of extra") auto
  ultimately have "answered (asst # turns_of (answer_events body calls @ extra))"
    using answered_append by fastforce
  then show ?thesis
    using assms(3, 4) answer_events_plain by (auto simp: closes_def intro!: confirmed_no_batch)
qed

lemma batch_turns:
  assumes "map call_id calls = map item_id items"
    and "poll_batch env items (batch_start (length items) k w grants) = (fl, bs)"
  shows "fl = Finished rs \<Longrightarrow> list_all2 is_answer calls (map result_turn rs)"
    and "fl = Dropped \<Longrightarrow> list_all2 is_answer calls (fst (finish_partial_batch bs 0 calls))"
proof -
  show "list_all2 is_answer calls (map result_turn rs)" if fl: "fl = Finished rs"
    using poll_batch_cases [OF assms(2)] fl
  proof cases
    case (2 j)
    show ?thesis by (rule answers_of_ids) (use execute_batch_spec(4) [OF 2(2) fl] assms(1) in simp)
  qed simp
  show "list_all2 is_answer calls (fst (finish_partial_batch bs 0 calls))" if fl: "fl = Dropped"
  proof -
    have "batch_inv env items bs"
      using poll_batch_cases [OF assms(2)]
    proof cases
      case 1
      then show ?thesis using batch_inv_start by simp
    next
      case (2 j)
      show ?thesis by (rule execute_batch_spec(5) [OF 2(2) fl])
    qed
    from finish_partial_spec [OF this, of calls 0] show ?thesis using assms(1) by (metis drop0 fst_conv le0 surj_pair)
  qed
qed

lemma closes_batch:
  assumes "is_assistant asst" and "announces (EvTurn asst) items" and "list_all2 is_answer (turn_calls asst) ts"
    and "set extra \<subseteq> {Cancelled n}" and "length extra \<le> 1"
  shows "closes asst (EvBatch items b # map EvTurn (ts @ extra)) step"
proof -
  have "answered extra"
    using assms(4, 5) by (cases extra) auto
  moreover have "answered (asst # ts)"
    using assms(1, 3) by (intro answered_turn) (cases asst; auto)+
  ultimately have "answered (asst # ts @ extra)"
    using answered_append by fastforce
  moreover have "confirmed_from (EvBatch items b) (map EvTurn (ts @ extra))"
    by (rule confirmed_no_batch) auto
  ultimately show ?thesis
    using assms answer_not_assistant [OF assms(3)] by (auto simp: closes_def)
qed

lemma run_tools_closes:
  assumes ids: "map call_id calls = map item_id items"
    and asst: "is_assistant asst" "turn_calls asst = calls" "announces (EvTurn asst) items"
    and st: "appends st0 xs st"
  shows "\<exists>rest. appends st0 (xs @ rest) (state_of (run_tools env roots calls items st))
    \<and> closes asst rest (run_tools env roots calls items st)"
proof -
  define st1 where "st1 = st\<lparr>ls_tool_work := ls_tool_work st \<or> items \<noteq> []\<rparr>"
  define cut' where "cut' = l_cut env (ls_world st1)"
  obtain fl bs where ex: "poll_batch ((l_batch env)\<lparr>e_roots := roots\<rparr>) items
      (batch_start (length items) (batch_awaits env items cut') (ls_world st1) (s_perm_grants (ls_session st1))) = (fl, bs)"
    by fastforce
  define st2 where "st2 = st1\<lparr>ls_world := b_world bs, ls_session := (ls_session st1)\<lparr>s_perm_grants := b_grants bs\<rparr>\<rparr>"
  have a2: "appends st0 xs st2"
    using st by (simp add: st2_def st1_def appends_def)
  note turns = batch_turns [OF ids ex]
  have unf: "run_tools env roots calls items st = (case fl of
        Finished results \<Rightarrow> Continue (count_round (is_investigation_batch items)
          (fold push_turn (map result_turn results) (emit (EvBatch items (b_log bs)) st2)))
      | Dropped \<Rightarrow> (let (turns, events) = finish_partial_batch bs 0 calls;
            st = fold push_turn turns (emit (EvBatch items (b_log bs @ events)) st2)
          in case snd cut' of
               ByCancel \<Rightarrow> Done (Returned LoopCancelled) (push_turn (Cancelled (l_now env (ls_world st))) st)
             | ByDeadline \<Rightarrow> Done (Returned LoopTimeUp) st)
      | Crashed e \<Rightarrow> Done (Unwound e) (emit (EvBatch items (b_log bs)) st2))"
    unfolding run_tools_def Let_def st1_def [symmetric] cut'_def [symmetric]
    by (simp only: ex prod.case st2_def [symmetric])
  have batch: "appends st0 (xs @ [EvBatch items b]) (emit (EvBatch items b) st2)" for b
    by (rule appends_emit [OF _ a2]) simp
  show ?thesis
  proof (cases fl)
    case (Finished rs)
    have "appends st0 (xs @ EvBatch items (b_log bs) # map EvTurn (map result_turn rs @ []))
        (state_of (run_tools env roots calls items st))"
      using appends_update(8) [OF appends_push_all [OF batch [of "b_log bs"], of "map result_turn rs"]] Finished
      by (simp add: unf)
    then show ?thesis
      using closes_batch [OF asst(1, 3), of "map result_turn rs" "[]"] turns(1) [OF Finished] asst(2)
      by (intro exI conjI) simp_all
  next
    case Dropped
    obtain ts es where fin: "finish_partial_batch bs 0 calls = (ts, es)" by fastforce
    note ans = turns(2) [OF Dropped, unfolded fin fst_conv, folded asst(2)]
    note pushed = appends_push_all [OF batch [of "b_log bs @ es"], of ts]
    show ?thesis
    proof (cases "snd cut'")
      case ByCancel
      define n where "n = l_now env (ls_world (fold push_turn ts (emit (EvBatch items (b_log bs @ es)) st2)))"
      have "appends st0 (xs @ EvBatch items (b_log bs @ es) # map EvTurn (ts @ [Cancelled n]))
          (state_of (run_tools env roots calls items st))"
        using appends_push [OF pushed, of "Cancelled n"] Dropped ByCancel fin by (simp add: unf n_def Let_def)
      then show ?thesis
        using closes_batch [OF asst(1, 3) ans, of "[Cancelled n]" n] by (intro exI conjI) simp_all
    next
      case ByDeadline
      have "appends st0 (xs @ EvBatch items (b_log bs @ es) # map EvTurn (ts @ []))
          (state_of (run_tools env roots calls items st))"
        using pushed Dropped ByDeadline fin by (simp add: unf Let_def)
      then show ?thesis
        using closes_batch [OF asst(1, 3) ans, of "[]"] by (intro exI conjI) simp_all
    qed
  next
    case (Crashed e)
    have "appends st0 (xs @ [EvBatch items (b_log bs)]) (state_of (run_tools env roots calls items st))"
      using batch Crashed by (simp add: unf)
    then show ?thesis
      using asst Crashed by (intro exI conjI) (auto simp: closes_def unf)
  qed
qed

lemma finish_turn_closes:
  assumes items: "list_all2 item_of calls items"
    and asst: "assistant = (\<lambda>cs. Assistant text reasoning cs u c (Some tr))"
      "tr_effective_finish_reason tr = finish_reason_name reason"
    and step: "step = finish_turn env roots reason assistant text calls items st"
  shows "\<exists>cs rest. appends st (EvTurn (assistant cs) # rest) (state_of step) \<and> closes (assistant cs) rest step"
proof -
  have a: "is_assistant (assistant cs)" "turn_calls (assistant cs) = cs" for cs
    by (simp_all add: asst(1))
  have pushed: "appends st [EvTurn (assistant cs)] (push_turn (assistant cs) st)" for cs
    using appends_push [OF appends_refl, of st] by simp
  have answers: "appends st (EvTurn (assistant calls) # answer_events body calls)
      (fold (\<lambda>c st. push_turn (ToolResult (call_id c) (call_name c) body 0) (emit (EvToolEnd (call_id c) (call_name c) body) st))
         calls (push_turn (assistant calls) st))" for body
    using appends_answers [OF pushed] by simp
  note ca = closes_answers [OF a, of _ calls]
  show ?thesis
  proof (cases "unconfirmed_reason calls reason")
    case (Some why)
    have "appends st (EvTurn (assistant calls) # answer_events (unconfirmed_result why) calls @ []) (state_of step)"
      using answers [of "unconfirmed_result why"] Some
      by (simp add: step finish_turn_def synthesize_retryable_unconfirmed_def Let_def appends_update)
    then show ?thesis
      using ca [of "[]"] by (intro exI conjI) simp_all
  next
    case None
    show ?thesis
    proof (cases reason)
      case FinToolCalls
      have "announces (EvTurn (assistant calls)) items"
        using items asst FinToolCalls by simp
      then show ?thesis
        using run_tools_closes [OF item_of_ids [OF items] a _ pushed [of calls], of env roots] None FinToolCalls
        by (auto simp: step finish_turn_def)
    next
      case FinStop
      note i = answers [of ResInterrupted, folded synthesize_interrupted_def]
      show ?thesis
      proof (cases "l_completion_review env \<and> ls_tool_work (synthesize_interrupted calls (push_turn (assistant calls) st))
          \<and> \<not> ls_review_used (synthesize_interrupted calls (push_turn (assistant calls) st))")
        case True
        have "appends st (EvTurn (assistant calls) # answer_events ResInterrupted calls
            @ [EvTurn (SystemNote Recovery final_review_recovery)]) (state_of step)"
          using True None FinStop
            appends_push [OF appends_update(3) [OF i, where b = True], of "SystemNote Recovery final_review_recovery"]
          by (simp add: step finish_turn_def Let_def)
        then show ?thesis
          using ca [of "[EvTurn (SystemNote Recovery final_review_recovery)]"] by (intro exI conjI) simp_all
      next
        case False
        have "appends st (EvTurn (assistant calls) # answer_events ResInterrupted calls @ []) (state_of step)"
          using False None FinStop i by (auto simp: step finish_turn_def Let_def)
        then show ?thesis
          using ca [of "[]"] by (intro exI conjI) simp_all
      qed
    next
      case FinLength
      then have nil: "calls = []"
        using None by (cases calls) auto
      define note_turn where "note_turn = SystemNote Recovery (if trim text = [] then force_action_recovery else partial_answer_recovery)"
      note n = appends_push [OF appends_update(2) [OF pushed [of "[]"]], of note_turn]
      show ?thesis
      proof (cases "max_length_recoveries \<le> ls_length_used (push_turn (assistant []) st)")
        case True
        have "appends st (EvTurn (assistant []) # answer_events ResInterrupted [] @ []) (state_of step)"
          using True None FinLength nil pushed [of "[]"] by (simp add: step finish_turn_def Let_def)
        then show ?thesis
          using closes_answers [of "assistant []" "[]" "[]" ResInterrupted step] a by (intro exI conjI) simp_all
      next
        case False
        have "appends st (EvTurn (assistant []) # answer_events ResInterrupted [] @ [EvTurn note_turn]) (state_of step)"
          using False None FinLength nil n by (simp add: step finish_turn_def Let_def note_turn_def)
        then show ?thesis
          using closes_answers [of "assistant []" "[]" "[EvTurn note_turn]" ResInterrupted step] a by (intro exI conjI) (auto simp: note_turn_def)
      qed
    next
      case FinContentFilter
      have "appends st (EvTurn (assistant calls) # answer_events ResInterrupted calls @ []) (state_of step)"
        using None FinContentFilter answers [of ResInterrupted, folded synthesize_interrupted_def] by (simp add: step finish_turn_def)
      then show ?thesis
        using ca [of "[]"] by (intro exI conjI) simp_all
    next
      case (FinOther r)
      have "appends st (EvTurn (assistant calls) # answer_events ResInterrupted calls @ []) (state_of step)"
        using None FinOther answers [of ResInterrupted, folded synthesize_interrupted_def] by (simp add: step finish_turn_def)
      then show ?thesis
        using ca [of "[]"] by (intro exI conjI) simp_all
    qed
  qed
qed

section \<open>Context assembly\<close>

text \<open>
  The contract of \<open>ContextAssembler\<close> that the loop relies on: from a log in which every call is answered it
  makes messages in which every call is answered.
\<close>

lemma verify_append_user: "verify_invariant ms = Inr () \<Longrightarrow> verify_invariant (ms @ [WUser text]) = Inr ()"
proof (induction ms rule: verify_invariant.induct)
  case (2 m ms)
  have tw: "takeWhile is_tool_message (ms @ [WUser text]) = takeWhile is_tool_message ms"
    and dw: "dropWhile is_tool_message (ms @ [WUser text]) = dropWhile is_tool_message ms @ [WUser text]"
    by (induction ms) simp_all
  show ?case
  proof (cases m)
    case (WAssistant c r tcs)
    then show ?thesis
      using 2 tw dw by (auto simp: Let_def split: if_splits)
  qed (use 2 in auto)
qed simp

locale context_assembler =
  fixes assemble :: "turn list \<Rightarrow> string \<Rightarrow> wire_message list"
  assumes answers_kept: "answered turns \<Longrightarrow> verify_invariant (assemble turns cwd) = Inr ()"
begin

lemma with_guidance:
  "answered turns \<Longrightarrow> verify_invariant (assemble turns cwd @ (if nudge then [WUser text] else [])) = Inr ()"
  using answers_kept verify_append_user by simp

end

interpretation legacy: context_assembler "\<lambda>turns cwd. project parse print turns" for parse print
  by unfold_locales (simp add: project_def project_with_verified)

definition assembler_ok :: "'w loop_env \<Rightarrow> bool" where
  "assembler_ok env \<longleftrightarrow> (\<forall>assemble w. l_assembler env = Some assemble \<longrightarrow> context_assembler (assemble w))"

lemma request_messages_valid:
  assumes "assembler_ok env" and "answered (messages_of st)"
  shows "verify_invariant (request_messages env st) = Inr ()"
proof (cases "l_assembler env")
  case None
  then show ?thesis
    using legacy.with_guidance [OF assms(2)] by (simp add: request_messages_def)
next
  case (Some assemble)
  then show ?thesis
    using context_assembler.with_guidance [OF _ assms(2)] assms(1) by (simp add: request_messages_def assembler_ok_def)
qed

section \<open>An iteration\<close>

fun add_usage :: "turn \<Rightarrow> usage \<Rightarrow> usage" where
  "add_usage (Assistant _ _ _ (Some u) _ _) acc = usage_add acc u"
| "add_usage _ acc = acc"

fun add_cost :: "turn \<Rightarrow> cost \<Rightarrow> cost" where
  "add_cost (Assistant _ _ _ _ (Some c) _) acc = cost_add acc c"
| "add_cost _ acc = acc"

lemma not_assistant_adds: "\<not> is_assistant t \<Longrightarrow> add_usage t u = u \<and> add_cost t c = c"
  by (cases t) auto

lemma fold_no_assistant:
  assumes "\<forall>t \<in> set ts. \<not> is_assistant t"
  shows "fold add_usage ts u = u" "fold add_cost ts c = c"
  using assms by (induction ts) (auto simp: not_assistant_adds)

text \<open>The effect of one iteration on the log, the session and its totals.\<close>

definition iterates :: "'w loop_env \<Rightarrow> 'w loop_state \<Rightarrow> loop_event list \<Rightarrow> 'w loop_step \<Rightarrow> bool" where
  "iterates env st evs step \<longleftrightarrow>
     ls_log (state_of step) = ls_log st @ evs
     \<and> messages_of (state_of step) = messages_of st @ turns_of evs
     \<and> s_total_usage (ls_session (state_of step)) = fold add_usage (turns_of evs) (s_total_usage (ls_session st))
     \<and> s_total_cost (ls_session (state_of step)) = fold add_cost (turns_of evs) (s_total_cost (ls_session st))
     \<and> (\<forall>prev. confirmed_from prev evs) \<and> length (filter is_request evs) \<le> 1
     \<and> (unwound step \<or> answered (turns_of evs)) \<and> ls_iters (state_of step) = ls_iters st"

lemma iterates_plain:
  assumes "appends st evs (state_of step)"
    and "\<forall>e \<in> set evs. \<not> is_batch e" and "length (filter is_request evs) \<le> 1"
    and "\<forall>t \<in> set (turns_of evs). \<not> is_assistant t \<and> \<not> is_result t \<and> turn_calls t = []" and "length (turns_of evs) \<le> 1"
  shows "iterates env st evs step"
proof -
  have "answered (turns_of evs)"
    using assms(4, 5) by (cases "turns_of evs") auto
  then show ?thesis
    using assms by (auto simp: iterates_def appends_def fold_no_assistant intro: confirmed_no_batch)
qed

lemma handle_response_iterates:
  assumes "appends st0 pre st" and "turns_of pre = []" and "\<forall>e \<in> set pre. \<not> is_batch e" and "length (filter is_request pre) \<le> 1"
  shows "\<exists>evs. iterates env st0 (pre @ evs) (handle_response env roots cc ct ob r st) \<and> filter is_request evs = []"
proof -
  define reason where "reason = (if looks_like_implicit_length r (l_max_tokens env) then FinLength else mr_finish_reason r)"
  define tr where "tr = finish_trace (l_times env (ls_world st)) cc ct ob
      (finish_reason_name (mr_finish_reason r)) (finish_reason_name reason) (mr_retries r) (looks_like_implicit_length r (l_max_tokens env))"
  define assistant where "assistant = (\<lambda>cs. Assistant (mr_text r) (mr_reasoning r) cs (mr_usage r)
      (map_option (cost_of (l_pricing env)) (mr_usage r)) (Some tr))"
  obtain calls items where cl: "classify_calls (e_parse (l_batch env)) (l_print env) (mr_tool_calls r) [] [] = (calls, items)"
    by fastforce
  define st1 where "st1 = account env (mr_usage r) cc st"
  define step where "step = finish_turn env roots reason assistant (mr_text r) calls items st1"
  have hr: "handle_response env roots cc ct ob r st = step"
    using cl by (simp add: handle_response_def Let_def step_def st1_def assistant_def reason_def tr_def)
  have items: "list_all2 item_of calls items"
    by (rule classify_items [OF cl]) simp
  obtain cs rest where app: "appends st1 (EvTurn (assistant cs) # rest) (state_of step)" and cl: "closes (assistant cs) rest step"
    using finish_turn_closes [OF items assistant_def _ step_def] by (auto simp: tr_def finish_trace_def)
  define us where "us = (case mr_usage r of Some u \<Rightarrow> [EvUsage u] | None \<Rightarrow> [])"
  have us: "ls_log st1 = ls_log st @ us" "messages_of st1 = messages_of st" "turns_of us = []" "filter is_request us = []"
    "\<forall>e \<in> set us. \<not> is_batch e" "ls_iters st1 = ls_iters st"
    by (auto simp: st1_def account_def us_def emit_def Let_def split: option.splits)
  have tot: "s_total_usage (ls_session st1) = add_usage (assistant cs) (s_total_usage (ls_session st))"
    "s_total_cost (ls_session st1) = add_cost (assistant cs) (s_total_cost (ls_session st))"
    by (auto simp: st1_def account_def assistant_def emit_def Let_def split: option.splits)
  have no: "\<forall>t \<in> set (turns_of rest). \<not> is_assistant t" "filter is_request rest = []"
    using cl by (auto simp: closes_def filter_empty_conv)
  have "confirmed_from prev (pre @ us @ EvTurn (assistant cs) # rest)" for prev
    using cl confirmed_no_batch [of pre prev] confirmed_no_batch [of us] assms(3) us(5) by (auto simp: confirmed_append closes_def)
  then have "iterates env st0 (pre @ us @ EvTurn (assistant cs) # rest) step"
    using app assms us tot no cl by (auto simp: iterates_def appends_def fold_no_assistant closes_def)
  then show ?thesis
    using hr us(4) no(2) by (intro exI [of _ "us @ EvTurn (assistant cs) # rest"]) simp
qed

lemma handle_error_ends:
  "\<exists>en t. handle_error env cc ct ob e st = Done en (push_turn t st) \<and> \<not> is_assistant t \<and> \<not> is_result t \<and> turn_calls t = []"
  by (cases "l_cancelled env (ls_world st)") (fastforce simp: handle_error_def Let_def)+

lemma send_request_iterates:
  "\<exists>cc ct rest. iterates env st (EvContext cc ct # EvRequest \<lparr>rq_messages = request_messages env st,
       rq_tools = reg_defs (e_tools (l_batch env)), rq_max_tokens = l_max_tokens env, rq_session_id = s_id (ls_session st)\<rparr> # rest)
     (send_request env roots st) \<and> filter is_request rest = []"
proof -
  define cc where "cc = sum_list (map message_len (request_messages env st))"
  define ct where "ct = l_estimate env cc (ls_world st)"
  define rq where "rq = \<lparr>rq_messages = request_messages env st, rq_tools = reg_defs (e_tools (l_batch env)),
      rq_max_tokens = l_max_tokens env, rq_session_id = s_id (ls_session st)\<rparr>"
  obtain rn w where m: "l_model env rq (ls_world st) = (rn, w)" by fastforce
  define pre where "pre = [EvContext cc ct, EvRequest rq, EvStream (run_events rn)]"
  define st1 where "st1 = emit (EvStream (run_events rn)) (emit (EvRequest rq) (emit (EvContext cc ct) st))\<lparr>ls_world := w\<rparr>"
  define ob where "ob = fold observe_event (run_events rn) observation_default"
  have unf: "send_request env roots st = (case await_model env rn of
        Some ByCancel \<Rightarrow> Done (Returned LoopCancelled) (push_turn (Cancelled (l_now env (ls_world st1))) st1)
      | Some ByDeadline \<Rightarrow> Done (Returned LoopTimeUp) st1
      | None \<Rightarrow> (case run_result rn of
            Inl e \<Rightarrow> handle_error env cc ct ob e st1
          | Inr r \<Rightarrow> handle_response env roots cc ct ob r st1))"
    unfolding send_request_def Let_def cc_def [symmetric] ct_def [symmetric] rq_def [symmetric]
    by (simp only: m prod.case st1_def [symmetric] ob_def [symmetric])
  have a: "appends st pre st1"
    by (simp add: appends_def st1_def pre_def emit_def)
  have plain: "turns_of pre = []" "\<forall>e \<in> set pre. \<not> is_batch e" "length (filter is_request pre) \<le> 1"
    by (simp_all add: pre_def)
  have fin: "\<exists>evs. iterates env st (pre @ evs) (send_request env roots st) \<and> filter is_request evs = []"
    if "send_request env roots st = Done en (push_turn t st1)" "\<not> is_assistant t" "\<not> is_result t" "turn_calls t = []" for en t
    using appends_push [OF a, of t] that plain by (intro exI [of _ "[EvTurn t]"] conjI iterates_plain) auto
  have "\<exists>evs. iterates env st (pre @ evs) (send_request env roots st) \<and> filter is_request evs = []"
  proof (cases "await_model env rn")
    case None
    then show ?thesis
    proof (cases "run_result rn")
      case (Inl e)
      then have "send_request env roots st = handle_error env cc ct ob e st1"
        using None by (simp add: unf)
      then show ?thesis
        using handle_error_ends [of env cc ct ob e st1] fin by metis
    next
      case (Inr r)
      then show ?thesis
        using handle_response_iterates [OF a plain] None by (simp add: unf)
    qed
  next
    case (Some i)
    show ?thesis
    proof (cases i)
      case ByCancel
      then show ?thesis
        using Some by (intro fin [of "Returned LoopCancelled" "Cancelled (l_now env (ls_world st1))"]) (simp_all add: unf)
    next
      case ByDeadline
      then have "iterates env st (pre @ []) (send_request env roots st)"
        using Some a plain by (intro iterates_plain) (simp_all add: unf)
      then show ?thesis by (intro exI [of _ "[]"] conjI) simp_all
    qed
  qed
  then obtain evs where "iterates env st (pre @ evs) (send_request env roots st)" "filter is_request evs = []" by blast
  then show ?thesis
    by (intro exI [of _ cc] exI [of _ ct] exI [of _ "EvStream (run_events rn) # evs"]) (simp add: pre_def rq_def)
qed

definition valid_requests :: "loop_event list \<Rightarrow> bool" where
  "valid_requests evs \<longleftrightarrow> (\<forall>rq. EvRequest rq \<in> set evs \<longrightarrow> verify_invariant (rq_messages rq) = Inr ())"

lemma valid_requests_append [simp]: "valid_requests (xs @ ys) \<longleftrightarrow> valid_requests xs \<and> valid_requests ys"
  by (auto simp: valid_requests_def)

lemma iteration_iterates:
  "\<exists>evs. iterates env (st\<lparr>ls_iters := ls_iters st + 1\<rparr>) evs (iteration env roots st)
    \<and> (assembler_ok env \<and> answered (messages_of st) \<longrightarrow> valid_requests evs)
    \<and> (running (iteration env roots st) \<longrightarrow> ls_iters st + 1 \<le> l_max_iters env)
    \<and> (\<not> ls_iters st + 1 \<le> l_max_iters env \<longrightarrow> filter is_request evs = [])"
proof -
  define st1 where "st1 = st\<lparr>ls_iters := ls_iters st + 1\<rparr>"
  define st2 where "st2 = sync_cwd env (emit (EvIter (ls_iters st1) (l_max_iters env)) st1)"
  have stop: "\<exists>evs. iterates env st1 evs (Done e st1) \<and> valid_requests evs \<and> filter is_request evs = []" for e
    by (rule exI [of _ "[]"]) (simp add: iterates_plain appends_refl valid_requests_def)
  show ?thesis
  proof (cases "l_max_iters env < ls_iters st1 \<or> (case l_turn_timeout env of Some d \<Rightarrow> d \<le> l_elapsed env (ls_world st1) | None \<Rightarrow> False)")
    case True
    then obtain e where "iteration env roots st = Done e st1"
      unfolding iteration_def Let_def st1_def [symmetric] by (cases "l_max_iters env < ls_iters st1") auto
    then show ?thesis
      using stop [of e] by (auto simp: st1_def)
  next
    case False
    have it: "iteration env roots st = send_request env roots st2"
      unfolding iteration_def Let_def st1_def [symmetric] using False by (simp add: st2_def)
    obtain cc ct rest rq where send: "iterates env st2 (EvContext cc ct # EvRequest rq # rest) (send_request env roots st2)"
      "filter is_request rest = []" "rq_messages rq = request_messages env st2"
      using send_request_iterates [of env st2 roots] by fastforce
    have "messages_of st2 = messages_of st"
      by (simp add: st2_def sync_cwd_def emit_def st1_def)
    then have "assembler_ok env \<and> answered (messages_of st) \<longrightarrow> verify_invariant (rq_messages rq) = Inr ()"
      using request_messages_valid [of env st2] send(3) by simp
    then have "assembler_ok env \<and> answered (messages_of st) \<longrightarrow>
        valid_requests (EvIter (ls_iters st1) (l_max_iters env) # EvContext cc ct # EvRequest rq # rest)"
      using send(2) by (auto simp: valid_requests_def filter_empty_conv)
    moreover have "iterates env st1 (EvIter (ls_iters st1) (l_max_iters env) # EvContext cc ct # EvRequest rq # rest) (iteration env roots st)"
      using send(1) by (simp add: it iterates_def st2_def sync_cwd_def emit_def)
    ultimately show ?thesis
      using False by (auto simp: st1_def not_less)
  qed
qed

section \<open>The whole loop\<close>

text \<open>What holds of a step reached from \<open>st0\<close>.\<close>

definition loop_inv :: "'w loop_env \<Rightarrow> 'w loop_state \<Rightarrow> 'w loop_step \<Rightarrow> bool" where
  "loop_inv env st0 step \<longleftrightarrow> (\<exists>evs.
     ls_log (state_of step) = ls_log st0 @ evs
     \<and> messages_of (state_of step) = messages_of st0 @ turns_of evs
     \<and> s_total_usage (ls_session (state_of step)) = fold add_usage (turns_of evs) (s_total_usage (ls_session st0))
     \<and> s_total_cost (ls_session (state_of step)) = fold add_cost (turns_of evs) (s_total_cost (ls_session st0))
     \<and> (\<forall>prev. confirmed_from prev evs)
     \<and> (assembler_ok env \<and> answered (messages_of st0) \<longrightarrow>
          valid_requests evs \<and> (unwound step \<or> answered (messages_of (state_of step))))
     \<and> (l_max_iters env \<noteq> - 1 \<longrightarrow>
          length (filter is_request evs) \<le> unat (l_max_iters env)
          \<and> (running step \<longrightarrow> ls_iters (state_of step) \<le> l_max_iters env
               \<and> length (filter is_request evs) \<le> unat (ls_iters (state_of step)))))"

lemma unat_add_one: "x \<noteq> (- 1 :: u32) \<Longrightarrow> unat (x + 1) = Suc (unat x)"
  using unatSuc [of x] by (simp add: add.commute eq_neg_iff_add_eq_0)

lemma loop_inv_start: "ls_iters st = 0 \<Longrightarrow> loop_inv env st (Continue st)"
  unfolding loop_inv_def by (rule exI [of _ "[]"]) (simp add: valid_requests_def)

lemma loop_inv_iteration:
  assumes inv: "loop_inv env st0 (Continue st)"
  shows "loop_inv env st0 (iteration env roots st)"
proof -
  obtain evs where old: "ls_log st = ls_log st0 @ evs" "messages_of st = messages_of st0 @ turns_of evs"
      "s_total_usage (ls_session st) = fold add_usage (turns_of evs) (s_total_usage (ls_session st0))"
      "s_total_cost (ls_session st) = fold add_cost (turns_of evs) (s_total_cost (ls_session st0))"
      "\<forall>prev. confirmed_from prev evs"
      "assembler_ok env \<and> answered (messages_of st0) \<longrightarrow> valid_requests evs \<and> answered (messages_of st)"
      "l_max_iters env \<noteq> - 1 \<longrightarrow> length (filter is_request evs) \<le> unat (l_max_iters env) \<and> ls_iters st \<le> l_max_iters env
         \<and> length (filter is_request evs) \<le> unat (ls_iters st)"
    using inv unfolding loop_inv_def by auto
  define step where "step = iteration env roots st"
  obtain more where it: "iterates env (st\<lparr>ls_iters := ls_iters st + 1\<rparr>) more step"
      and val: "assembler_ok env \<and> answered (messages_of st) \<longrightarrow> valid_requests more"
      and run: "running step \<longrightarrow> ls_iters st + 1 \<le> l_max_iters env"
      and req: "\<not> ls_iters st + 1 \<le> l_max_iters env \<longrightarrow> filter is_request more = []"
    using iteration_iterates [of env st roots] unfolding step_def by blast
  have one: "length (filter is_request more) \<le> 1" and its: "ls_iters (state_of step) = ls_iters st + 1"
    using it by (simp_all add: iterates_def)
  have bound: "length (filter is_request (evs @ more)) \<le> unat (l_max_iters env)
      \<and> (running step \<longrightarrow> length (filter is_request (evs @ more)) \<le> unat (ls_iters (state_of step)))"
    if max: "l_max_iters env \<noteq> - 1"
  proof -
    have "ls_iters st \<noteq> - 1"
      using old(7) max by (metis word_n1_ge antisym)
    then have "unat (ls_iters st + 1) = Suc (unat (ls_iters st))"
      by (rule unat_add_one)
    then show ?thesis
      using old(7) max one req its by (cases "ls_iters st + 1 \<le> l_max_iters env") (auto simp: word_le_nat_alt)
  qed
  have conf: "confirmed_from prev (evs @ more)" for prev
    using old(5) it by (simp add: confirmed_append iterates_def)
  have ans: "assembler_ok env \<and> answered (messages_of st0) \<longrightarrow>
      valid_requests (evs @ more) \<and> (unwound step \<or> answered (messages_of (state_of step)))"
    using it old(6) val by (auto simp: iterates_def intro: answered_append)
  show ?thesis
    unfolding step_def [symmetric] loop_inv_def
    by (rule exI [of _ "evs @ more"])
      (use it old(1-5,7) conf ans run its bound in \<open>auto simp: iterates_def\<close>)
qed

lemma loop_inv_run:
  assumes "ls_iters st = 0" and "run_loop env roots st = Some step"
  shows "loop_inv env st step \<and> \<not> running step"
proof
  have "loop_inv env st (advance env roots s)" if "loop_inv env st s" "running s" for s
    using that loop_inv_iteration by (cases s) auto
  then show "loop_inv env st step"
    using while_option_rule [where P = "loop_inv env st", OF _ assms(2) [unfolded run_loop_def]] loop_inv_start [OF assms(1)]
    by blast
  show "\<not> running step"
    using assms(2) unfolding run_loop_def by (rule while_option_stop)
qed

lemma loop_terminates:
  assumes "ls_iters st = 0" and "l_max_iters env \<noteq> - 1"
  shows "\<exists>step. run_loop env roots st = Some step"
  unfolding run_loop_def
proof (rule measure_while_option_Some [where P = "loop_inv env st"
      and f = "\<lambda>s. if running s then Suc (unat (l_max_iters env) - unat (ls_iters (state_of s))) else 0"])
  show "loop_inv env st (Continue st)"
    by (rule loop_inv_start [OF assms(1)])
  fix s
  assume "loop_inv env st s" "running s"
  then obtain s1 where s: "s = Continue s1" "loop_inv env st (Continue s1)"
    by (cases s) auto
  have inv: "loop_inv env st (iteration env roots s1)"
    by (rule loop_inv_iteration [OF s(2)])
  have le: "ls_iters s1 \<le> l_max_iters env"
    using s(2) assms(2) by (auto simp: loop_inv_def)
  then have "ls_iters s1 \<noteq> - 1"
    using assms(2) by (metis word_n1_ge antisym)
  then have suc: "unat (ls_iters s1 + 1) = Suc (unat (ls_iters s1))"
    by (rule unat_add_one)
  have "ls_iters (state_of (iteration env roots s1)) = ls_iters s1 + 1"
      "running (iteration env roots s1) \<longrightarrow> ls_iters s1 + 1 \<le> l_max_iters env"
    using iteration_iterates [of env s1 roots] by (auto simp: iterates_def)
  then show "loop_inv env st (advance env roots s)
      \<and> (if running (advance env roots s) then Suc (unat (l_max_iters env) - unat (ls_iters (state_of (advance env roots s)))) else 0)
        < (if running s then Suc (unat (l_max_iters env) - unat (ls_iters (state_of s))) else 0)"
    using inv s(1) suc by (auto simp: word_le_nat_alt)
qed

lemma run_start_facts:
  "ls_iters (run_start env input s w) = 0"
  "ls_log (run_start env input s w) = [EvTurn (User input (l_now env w))]"
  "messages_of (run_start env input s w) = s_messages s @ [User input (l_now env w)]"
  "s_total_usage (ls_session (run_start env input s w)) = s_total_usage s"
  "s_total_cost (ls_session (run_start env input s w)) = s_total_cost s"
  by (simp_all add: run_start_def push_turn_def emit_def sync_cwd_def)

lemma run_inv:
  assumes "run env input s w = Some step"
  shows "loop_inv env (run_start env input s w) step" and "\<not> running step"
  using loop_inv_run [OF run_start_facts(1) [of env input s w]] assms unfolding run_def Let_def by blast+

section \<open>How a turn ends\<close>

text \<open>An end of the loop that the transcript has to show.\<close>

definition recorded :: "'w loop_env \<Rightarrow> 'w loop_step \<Rightarrow> bool" where
  "recorded env step \<longleftrightarrow> (case step of
     Done (Failed e) st \<Rightarrow>
       (\<exists>trace partial ts. last (messages_of st) = Error (''proto: '' @ l_show_error env (me_error e)) (Some (is_retryable e))
          (if 0 < me_retries e then Some (me_retries e) else None) (Some trace) partial ts)
   | Done (Returned LoopCancelled) st \<Rightarrow> (\<exists>ts. last (messages_of st) = Cancelled ts)
   | _ \<Rightarrow> True)"

lemma last_push [simp]: "last (messages_of (push_turn t st)) = t"
  by (simp add: push_turn_def emit_def)

lemma recorded_simps [simp]:
  "recorded env (Continue st)" "recorded env (Done (Unwound m) st)" "o' \<noteq> LoopCancelled \<Longrightarrow> recorded env (Done (Returned o') st)"
  "recorded env (Done (Returned LoopCancelled) (push_turn (Cancelled n) st))"
  by (cases o'; simp add: recorded_def)+

lemma recorded_run_tools: "recorded env (run_tools env roots calls items st)"
  by (auto simp: run_tools_def Let_def split: prod.split flow.split interrupt.split)

lemma recorded_finish_turn: "recorded env (finish_turn env roots reason assistant text calls items st)"
  by (auto simp: finish_turn_def Let_def recorded_run_tools split: option.split finish_reason.split)

lemma recorded_iteration: "recorded env (iteration env roots st)"
proof -
  have err: "recorded env (handle_error env cc ct ob e st)" for cc ct ob e st
    by (simp add: handle_error_def Let_def recorded_def)
  have resp: "recorded env (handle_response env roots cc ct ob r st)" for cc ct ob r st
    by (simp add: handle_response_def Let_def recorded_finish_turn split: prod.split)
  have "recorded env (send_request env roots st)" for st
    by (auto simp: send_request_def Let_def err resp split: prod.split option.split interrupt.split sum.split)
  then show ?thesis
    by (simp add: iteration_def Let_def)
qed

lemma recorded_run: "run env input s w = Some step \<Longrightarrow> recorded env step"
proof -
  have "recorded env (advance env roots step')" if "running step'" for roots step'
    using that recorded_iteration by (cases step') auto
  then show "run env input s w = Some step \<Longrightarrow> recorded env step"
    unfolding run_def run_loop_def Let_def by (rule while_option_rule [where P = "recorded env"]) auto
qed

text \<open>A model that reads a file and then stops, for the witnesses; the world counts what happened.\<close>

definition demo_loop :: "nat loop_env" where
  "demo_loop = \<lparr>l_batch = demo_env, l_print = (\<lambda>_. ''{}''), l_max_iters = 5, l_assembler = Some (\<lambda>_ _ _. [WSystem ''s'']),
     l_turn_timeout = None, l_max_tokens = None, l_pricing = pricing_zero, l_completion_review = False,
     l_model = (\<lambda>rq w. (\<lparr>run_events = [], run_result = Inr \<lparr>mr_text = ''t'', mr_reasoning = None,
        mr_tool_calls = (if w = 0 then [FCall \<lparr>call_id = ''a'', call_name = ''Read'', call_arguments = ''{}''\<rparr>] else []),
        mr_finish_reason = (if w = 0 then FinToolCalls else FinStop), mr_usage = None, mr_retries = 0\<rparr>, run_cut = None\<rparr>, Suc w)),
     l_cut = (\<lambda>_. (9, ByCancel)), l_cancelled = (\<lambda>_. False), l_elapsed = (\<lambda>_. 0), l_now = (\<lambda>w. w),
     l_times = (\<lambda>_. \<lparr>rt_started_ms = 0, rt_completed = None, rt_total = 0\<rparr>), l_estimate = (\<lambda>n _. n),
     l_observe = (\<lambda>_ _ w. w), l_advance_journal = (\<lambda>w. w), l_show_error = (\<lambda>_. [])\<rparr>"

definition demo_session :: session where
  "demo_session = \<lparr>s_id = ''x'', s_cwd = ''/'', s_extra_dirs = [], s_messages = [], s_perm_grants = [],
     s_total_usage = usage_default, s_total_cost = 0\<rparr>"

lemma demo_ok: "assembler_ok demo_loop" "answered (s_messages demo_session)"
  by (simp_all add: assembler_ok_def demo_loop_def context_assembler_def demo_session_def)

text \<open>The same model with a turn that is cancelled while its tool runs.\<close>

definition demo_cut :: "nat loop_env" where
  "demo_cut = demo_loop\<lparr>l_cut := (\<lambda>_. (1, ByCancel))\<rparr>"

definition demo_read :: tool_call where
  "demo_read = \<lparr>call_id = ''a'', call_name = ''Read'', call_arguments = ''{}''\<rparr>"

lemma demo_cut_batch:
  "fst (poll_batch (demo_env\<lparr>e_roots := [''/'']\<rparr>) [ExCall demo_read] (batch_start (length [ExCall demo_read]) 1 1 [])) = Dropped"
  by code_simp

lemma run_tools_cut:
  assumes "poll_batch ((l_batch env)\<lparr>e_roots := roots\<rparr>) items
      (batch_start (length items) 1 (ls_world st) (s_perm_grants (ls_session st))) = (Dropped, bs)"
    and "l_cut env = (\<lambda>_. (1, ByCancel))"
  shows "\<exists>st' b after. run_tools env roots calls items st = Done (Returned LoopCancelled) st'
    \<and> ls_log st' = ls_log st @ EvBatch items b # after"
proof -
  have log: "ls_log (fold push_turn ts s) = ls_log s @ map EvTurn ts" for ts and s :: "'a loop_state"
    by (induction ts arbitrary: s) (simp_all add: push_turn_def emit_def)
  show ?thesis
    using assms by (auto simp: run_tools_def batch_awaits_def Let_def push_turn_def emit_def log split: prod.split)
qed

lemma iteration_tools:
  assumes "\<not> l_max_iters env < ls_iters st + 1" and "l_turn_timeout env = None"
    and "\<And>rq. l_model env rq (ls_world st) = (rn, w)" and "run_cut rn = None" and "run_result rn = Inr r"
    and "mr_finish_reason r = FinToolCalls" and "mr_usage r = None"
    and "classify_calls (e_parse (l_batch env)) (l_print env) (mr_tool_calls r) [] [] = (calls, items)"
  obtains st' where "iteration env roots st = run_tools env roots calls items st'" and "ls_world st' = w"
    and "s_perm_grants (ls_session st') = s_perm_grants (ls_session st)"
proof -
  have un: "unconfirmed_reason calls FinToolCalls = None"
    by (cases calls) simp_all
  have impl: "\<not> looks_like_implicit_length r (l_max_tokens env)"
    using assms(6) by (simp add: looks_like_implicit_length_def)
  show thesis
    by (rule that) (simp add: iteration_def send_request_def handle_response_def finish_turn_def await_model_def Let_def
        sync_cwd_def push_turn_def emit_def account_def assms un impl; fail)+
qed

lemma demo_cut_run:
  "\<exists>st before b after. run demo_cut ''go'' demo_session 0 = Some (Done (Returned LoopCancelled) st)
     \<and> ls_log st = before @ EvBatch [ExCall demo_read] b # after"
proof -
  obtain bs where bs: "poll_batch (demo_env\<lparr>e_roots := [''/'']\<rparr>) [ExCall demo_read]
      (batch_start (length [ExCall demo_read]) 1 1 []) = (Dropped, bs)"
    using demo_cut_batch by (cases "poll_batch (demo_env\<lparr>e_roots := [''/'']\<rparr>) [ExCall demo_read]
      (batch_start (length [ExCall demo_read]) 1 1 [])") auto
  let ?st = "run_start demo_cut ''go'' demo_session 0"
  define r where "r = \<lparr>mr_text = ''t'', mr_reasoning = None, mr_tool_calls = [FCall demo_read],
      mr_finish_reason = FinToolCalls, mr_usage = None, mr_retries = 0\<rparr>"
  have w: "ls_world ?st = 0" "s_perm_grants (ls_session ?st) = []"
    by (simp_all add: run_start_def sync_cwd_def push_turn_def emit_def demo_cut_def demo_loop_def demo_session_def)
  have mdl: "\<not> l_max_iters demo_cut < ls_iters ?st + 1" "l_turn_timeout demo_cut = None"
      "l_model demo_cut rq (ls_world ?st) = (\<lparr>run_events = [], run_result = Inr r, run_cut = None\<rparr>, 1)" for rq
    unfolding w run_start_facts by (simp_all add: demo_cut_def demo_loop_def r_def demo_read_def)
  obtain st where st: "iteration demo_cut [''/''] ?st = run_tools demo_cut [''/''] [demo_read] [ExCall demo_read] st"
      "ls_world st = 1" "s_perm_grants (ls_session st) = []"
    by (rule iteration_tools [OF mdl(1, 2) mdl(3), where r = r and calls = "[demo_read]" and items = "[ExCall demo_read]"
          and roots = "[''/'']"]) (simp_all add: r_def w)
  have env: "l_batch demo_cut = demo_env" "l_cut demo_cut = (\<lambda>_. (1, ByCancel))"
    by (simp_all add: demo_cut_def demo_loop_def)
  obtain st' b after where last_step: "iteration demo_cut [''/''] (run_start demo_cut ''go'' demo_session 0) = Done (Returned LoopCancelled) st'"
      "ls_log st' = ls_log st @ EvBatch [ExCall demo_read] b # after"
    using run_tools_cut [where env = demo_cut and roots = "[''/'']" and items = "[ExCall demo_read]" and st = st and bs = bs
        and calls = "[demo_read]"] bs st env by auto
  have "allowed_roots (ls_session (run_start demo_cut ''go'' demo_session 0)) = [''/'']"
    by (simp add: allowed_roots_def run_start_def sync_cwd_def push_turn_def emit_def demo_cut_def demo_loop_def demo_session_def demo_env_def)
  then have "run demo_cut ''go'' demo_session 0 = Some (Done (Returned LoopCancelled) st')"
    using last_step(1) by (simp add: run_def run_loop_def Let_def while_option_unfold)
  then show ?thesis
    using last_step(2) by blast
qed

lemma run_returns:
  assumes "l_max_iters env \<noteq> - 1"
  shows "\<exists>e st. run env input s w = Some (Done e st)
    \<and> length (filter is_request (ls_log st)) \<le> unat (l_max_iters env)"
proof -
  obtain step where r: "run env input s w = Some step"
    using loop_terminates [OF run_start_facts(1) [of env input s w] assms] unfolding run_def Let_def by blast
  note inv = run_inv [OF r]
  obtain e st where "step = Done e st"
    using inv(2) by (cases step) auto
  then show ?thesis
    using r inv(1) assms by (auto simp: loop_inv_def run_start_facts)
qed

lemma demo_returns: "\<exists>e st. run demo_loop ''go'' demo_session 0 = Some (Done e st)"
  using run_returns [of demo_loop] by (fastforce simp: demo_loop_def)

section \<open>Properties\<close>

text \<open>
  C1: whatever the model answers, whatever the tools do and wherever the turn is cancelled or times
  out, every request of a turn satisfies the provider's tool-answer invariant, and the session is
  left with every call answered, so that the next turn can start from it. The hypotheses are the
  contract of the context assembler and that the session was in that state before; the only
  exception is a panic of a tool that unwinds the loop itself.
\<close>

theorem turn_keeps_every_call_answered:
  assumes "assembler_ok env" and "answered (s_messages s)" and "run env input s w = Some (Done e st)"
  shows "(\<forall>rq. EvRequest rq \<in> set (ls_log st) \<longrightarrow> verify_invariant (rq_messages rq) = Inr ())
    \<and> ((\<exists>m. e = Unwound m) \<or> answered (messages_of st))"
  using run_inv(1) [OF assms(3)] assms(1) answered_note [OF assms(2)]
  by (cases e) (auto simp: loop_inv_def run_start_facts valid_requests_def)

lemma turn_keeps_every_call_answered_witness:
  "\<exists>e st. run demo_loop ''go'' demo_session 0 = Some (Done e st) \<and> ((\<exists>m. e = Unwound m) \<or> answered (messages_of st))"
  using demo_returns turn_keeps_every_call_answered [OF demo_ok, of "''go''" 0] by blast

text \<open>
  C5: a turn ends. Unless the iteration limit is \<open>u32::MAX\<close>, which stands for no limit, the loop
  returns after finitely many iterations, for any session, any context assembler and whatever the model
  and the tools do, and has then sent at most as many requests as the limit says.
\<close>

theorem turn_ends:
  assumes "l_max_iters env \<noteq> - 1"
  shows "\<exists>e st. run env input s w = Some (Done e st)
    \<and> length (filter is_request (ls_log st)) \<le> unat (l_max_iters env)"
  using assms by (rule run_returns)

lemma turn_ends_witness:
  "\<exists>e st. run demo_loop ''go'' demo_session 0 = Some (Done e st) \<and> length (filter is_request (ls_log st)) \<le> 5"
  using turn_ends [of demo_loop "''go''" demo_session 0] by (simp add: demo_loop_def)

text \<open>
  C4: a tool call that the provider has not confirmed never runs, in any session: whenever a batch runs, the turn
  just before it in the log is the assistant turn of a response that finished with \<open>tool_calls\<close>,
  and the items of the batch are the calls of that turn, one by one in their order: the call itself with
  its name and arguments, or, for a call whose arguments did not parse, the error under its id and name.
\<close>

theorem unconfirmed_calls_never_run:
  assumes "run env input s w = Some (Done e st)" and "ls_log st = before @ EvBatch items b # after"
  shows "before \<noteq> [] \<and> (\<exists>text reasoning calls u c tr. last before = EvTurn (Assistant text reasoning calls u c (Some tr))
    \<and> tr_effective_finish_reason tr = ''tool_calls''
    \<and> list_all2 (\<lambda>call item. case item of ExCall c' \<Rightarrow> c' = call | ExParseError cid name error \<Rightarrow> cid = call_id call \<and> name = call_name call)
        calls items)"
proof -
  obtain evs where evs: "ls_log st = EvTurn (User input (l_now env w)) # evs" "\<forall>prev. confirmed_from prev evs"
    using run_inv(1) [OF assms(1)] by (auto simp: loop_inv_def run_start_facts)
  then obtain bs where "before = EvTurn (User input (l_now env w)) # bs" "evs = bs @ EvBatch items b # after"
    using assms(2) by (cases before) auto
  moreover from this have "announces (last before) items"
    using evs(2) by (auto simp: confirmed_append)
  moreover have "item_of = (\<lambda>call item. case item of ExCall c' \<Rightarrow> c' = call | ExParseError cid name error \<Rightarrow> cid = call_id call \<and> name = call_name call)"
    by (intro ext) (simp split: exec_item.split)
  ultimately show ?thesis
    by (cases "(last before, items)" rule: announces.cases) auto
qed

lemma unconfirmed_calls_never_run_witness:
  "\<exists>st before b after. run demo_cut ''go'' demo_session 0 = Some (Done (Returned LoopCancelled) st)
     \<and> ls_log st = before @ EvBatch [ExCall demo_read] b # after
     \<and> (\<exists>text reasoning u c tr. last before = EvTurn (Assistant text reasoning [demo_read] u c (Some tr)))"
proof -
  obtain st before b after where r: "run demo_cut ''go'' demo_session 0 = Some (Done (Returned LoopCancelled) st)"
    "ls_log st = before @ EvBatch [ExCall demo_read] b # after" using demo_cut_run by blast
  from unconfirmed_calls_never_run [OF r] obtain answer reasoning calls u c tr where
    "last before = EvTurn (Assistant answer reasoning calls u c (Some tr))"
    "list_all2 (\<lambda>call item. case item of ExCall c' \<Rightarrow> c' = call | ExParseError cid name error \<Rightarrow> cid = call_id call \<and> name = call_name call)
       calls [ExCall demo_read]" by blast
  moreover from this have "calls = [demo_read]" by (auto simp: list_all2_Cons2)
  ultimately show ?thesis using r by blast
qed

text \<open>
  C13: the session is an append-only log that its host has seen: whatever the session held before, the turns added to it are exactly
  those reported by \<open>on_turn\<close>, in order, and the running totals of tokens and cost are the old ones
  plus the usage and the cost of every assistant turn added.
\<close>

theorem session_is_append_only:
  assumes "run env input s w = Some (Done e st)"
  shows "messages_of st = s_messages s @ turns_of (ls_log st)
    \<and> s_total_usage (ls_session st) = fold add_usage (turns_of (ls_log st)) (s_total_usage s)
    \<and> s_total_cost (ls_session st) = fold add_cost (turns_of (ls_log st)) (s_total_cost s)"
  using run_inv(1) [OF assms] by (auto simp: loop_inv_def run_start_facts)

lemma session_is_append_only_witness:
  "\<exists>e st. run demo_loop ''go'' demo_session 0 = Some (Done e st) \<and> messages_of st = s_messages demo_session @ turns_of (ls_log st)"
  using demo_returns session_is_append_only [of demo_loop "''go''" demo_session 0] by blast

text \<open>
  C14: no failure is lost. A turn that ends with the model's error leaves an error turn with its
  message, its retry count and whether it is worth retrying as the last entry of the session; a
  turn that the user cancelled ends with a cancellation.
\<close>

theorem failures_are_recorded:
  assumes "run env input s w = Some (Done e st)"
  shows "(\<forall>err. e = Failed err \<longrightarrow>
      (\<exists>trace partial ts. last (messages_of st) = Error (''proto: '' @ l_show_error env (me_error err)) (Some (is_retryable err))
         (if 0 < me_retries err then Some (me_retries err) else None) (Some trace) partial ts))
    \<and> (e = Returned LoopCancelled \<longrightarrow> (\<exists>ts. last (messages_of st) = Cancelled ts))"
  using recorded_run [OF assms] by (auto simp: recorded_def)

lemma failures_are_recorded_witness:
  "\<exists>st ts. run demo_cut ''go'' demo_session 0 = Some (Done (Returned LoopCancelled) st) \<and> last (messages_of st) = Cancelled ts"
  using demo_cut_run failures_are_recorded [of demo_cut "''go''" demo_session 0] by blast

end
