(* ===== verification/Civil_Time.thy ===== *)
theory Civil_Time
  imports Rust_Prelude "HOL-Library.Signed_Division" "HOL-Library.List_Lexorder" "HOL-Library.Char_ord"
begin

text \<open>
  \<open>crates/rc-tokenize/src/time.rs\<close> and the byte estimate of \<open>crates/rc-tokenize/src/lib.rs\<close>: the
  civil date of a day number, the date of the environment block and the timestamp of session ids.
  An \<open>i64\<close> is an \<^typ>\<open>int\<close>: the callers pass a \<open>u64\<close> of seconds divided by 86400, far from the
  bounds of the type. Rust's division truncates, which is \<open>sdiv\<close>. The clock is an argument.
\<close>

definition civil_from_days :: "int \<Rightarrow> int \<times> int \<times> int" where
  "civil_from_days z0 =
     (let z = z0 + 719468;
          era = (if z \<ge> 0 then z else z - 146096) sdiv 146097;
          doe = z - era * 146097;
          yoe = (doe - doe sdiv 1460 + doe sdiv 36524 - doe sdiv 146096) sdiv 365;
          y = yoe + era * 400;
          doy = doe - (365 * yoe + yoe sdiv 4 - yoe sdiv 100);
          mp = (5 * doy + 2) sdiv 153;
          d = doy - (153 * mp + 2) sdiv 5 + 1;
          m = (if mp < 10 then mp + 3 else mp - 9)
      in (y + (if m \<le> 2 then 1 else 0), m, d))"

definition estimate_tokens :: "string \<Rightarrow> nat" where
  "estimate_tokens text = (length text + 3) div 4"

definition weekday_names :: "string list" where
  "weekday_names = [''Thu'', ''Fri'', ''Sat'', ''Sun'', ''Mon'', ''Tue'', ''Wed'']"

definition month_names :: "string list" where
  "month_names = [''Jan'', ''Feb'', ''Mar'', ''Apr'', ''May'', ''Jun'', ''Jul'', ''Aug'', ''Sep'', ''Oct'', ''Nov'', ''Dec'']"

text \<open>The decimal rendering of a signed integer.\<close>

definition show_int :: "int \<Rightarrow> string" where
  "show_int i = (if i < 0 then ''-'' @ show_nat (nat (- i)) else show_nat (nat i))"

text \<open>\<open>now\<close> is the number of seconds since the epoch.\<close>

definition today_string :: "nat \<Rightarrow> string" where
  "today_string now =
     (let days = now div 86400; (y, m, d) = civil_from_days (int days);
          day_idx = ((days mod 7) + 7) mod 7;
          weekday = weekday_names ! day_idx;
          month = month_names ! nat (m - 1)
      in weekday @ '' '' @ month @ '' '' @ show_int d @ '', '' @ show_int y)"

text \<open>\<open>{n:0w}\<close>: the decimal digits, filled with zeros on the left to the width.\<close>

definition show_padded :: "nat \<Rightarrow> nat \<Rightarrow> string" where
  "show_padded w n = replicate (w - length (show_nat n)) (CHR ''0'') @ show_nat n"

text \<open>The year of a time after the epoch is positive, so the sign of \<open>{y:04}\<close> plays no part.\<close>

definition sortable_timestamp :: "nat \<Rightarrow> string" where
  "sortable_timestamp now =
     (let secs = now mod 60; mins = (now div 60) mod 60; hours = (now div 3600) mod 24;
          (y, m, d) = civil_from_days (int (now div 86400))
      in show_padded 4 (nat y) @ show_padded 2 (nat m) @ show_padded 2 (nat d) @ ''T''
         @ show_padded 2 hours @ show_padded 2 mins @ show_padded 2 secs)"

section \<open>The Gregorian calendar\<close>

definition leap_year :: "int \<Rightarrow> bool" where
  "leap_year y \<longleftrightarrow> y mod 4 = 0 \<and> (y mod 100 \<noteq> 0 \<or> y mod 400 = 0)"

definition month_length :: "int \<Rightarrow> int \<Rightarrow> int" where
  "month_length y m = (if m = 2 then (if leap_year y then 29 else 28) else if m \<in> {4, 6, 9, 11} then 30 else 31)"

definition is_date :: "int \<times> int \<times> int \<Rightarrow> bool" where
  "is_date c = (case c of (y, m, d) \<Rightarrow> 1 \<le> m \<and> m \<le> 12 \<and> 1 \<le> d \<and> d \<le> month_length y m)"

definition next_date :: "int \<times> int \<times> int \<Rightarrow> int \<times> int \<times> int" where
  "next_date c = (case c of (y, m, d) \<Rightarrow>
     if d < month_length y m then (y, m, d + 1) else if m < 12 then (y, m + 1, 1) else (y + 1, 1, 1))"

section \<open>The computation in years that start in March\<close>

definition year_of_era :: "int \<Rightarrow> int" where
  "year_of_era doe = (doe - doe div 1460 + doe div 36524 - doe div 146096) div 365"

definition year_start :: "int \<Rightarrow> int" where
  "year_start yoe = 365 * yoe + yoe div 4 - yoe div 100"

definition year_length :: "int \<Rightarrow> int" where
  "year_length yoe = (if leap_year (yoe + 1) then 366 else 365)"

definition march_md :: "int \<Rightarrow> int \<times> int" where
  "march_md doy = (let mp = (5 * doy + 2) div 153 in (if mp < 10 then mp + 3 else mp - 9, doy - (153 * mp + 2) div 5 + 1))"

text \<open>The civil date of day \<open>doy\<close> of the year that starts in March of year \<open>Y\<close>.\<close>

definition march_date :: "int \<Rightarrow> int \<Rightarrow> int \<times> int \<times> int" where
  "march_date Y doy = (case march_md doy of (m, d) \<Rightarrow> (Y + (if m \<le> 2 then 1 else 0), m, d))"

lemma sdiv_nonneg: "0 \<le> a \<Longrightarrow> 0 < b \<Longrightarrow> a sdiv b = a div b" for a b :: int
  by (cases "a = 0") (auto simp: signed_divide_int_def)

lemma era_floor: "(if z \<ge> 0 then z else z - 146096) sdiv 146097 = z div (146097 :: int)"
proof (cases "0 \<le> z")
  case True
  then show ?thesis by (simp add: sdiv_nonneg)
next
  case False
  then have "(z - 146096) sdiv 146097 = - ((146096 - z) div 146097)"
    by (simp add: signed_divide_int_def sgn_if)
  also have "\<dots> = z div 146097" using False by linarith
  finally show ?thesis using False by simp
qed

lemma year_of_era_mono:
  assumes "a \<le> b"
  shows "year_of_era a \<le> year_of_era b"
proof -
  have four: "x div 146096 = x div 36524 div 4" for x :: int
    by (simp add: zdiv_zmult2_eq [symmetric])
  have "a - a div 1460 \<le> b - b div 1460" using assms by linarith
  moreover have "a div 36524 \<le> b div 36524" using assms by (simp add: zdiv_mono1)
  then have "a div 36524 - a div 146096 \<le> b div 36524 - b div 146096"
    unfolding four by linarith
  ultimately show ?thesis
    unfolding year_of_era_def by (intro zdiv_mono1) simp_all
qed

text \<open>Checked for the 400 years of an era, at the first and the last day of each.\<close>

lemma year_of_era_table:
  "list_all (\<lambda>y. year_of_era (year_start y) = y \<and> year_of_era (year_start y + year_length y - 1) = y
     \<and> year_start (y + 1) + (if y = 399 then 1 else 0) = year_start y + year_length y) [0..399]"
  by code_simp

lemma march_md_table:
  "list_all (\<lambda>doy. case march_md doy of (m, d) \<Rightarrow>
       1 \<le> m \<and> m \<le> 12 \<and> 1 \<le> d \<and> (m \<noteq> 2 \<longrightarrow> d \<le> month_length 1 m) \<and> (m = 2 \<longleftrightarrow> 337 \<le> doy) \<and> (m \<le> 2 \<longleftrightarrow> 306 \<le> doy)
       \<and> (m = 2 \<longrightarrow> d = doy - 336)
       \<and> march_md (doy + 1) = (if m = 2 \<or> d < month_length 1 m then (m, d + 1) else if m < 12 then (m + 1, 1) else (1, 1)))
     [0..365]"
  by code_simp

lemma year_table:
  assumes "0 \<le> y" and "y \<le> 399"
  shows "year_of_era (year_start y) = y" and "year_of_era (year_start y + year_length y - 1) = y"
    and "year_start (y + 1) + (if y = 399 then 1 else 0) = year_start y + year_length y"
  using year_of_era_table assms by (simp_all add: list_all_iff)

lemma march_md_step:
  assumes "0 \<le> doy" and "doy \<le> 365" and "march_md doy = (m, d)"
  shows "1 \<le> m" "m \<le> 12" "1 \<le> d" "m \<noteq> 2 \<Longrightarrow> d \<le> month_length 1 m" "m = 2 \<longleftrightarrow> 337 \<le> doy" "m \<le> 2 \<longleftrightarrow> 306 \<le> doy"
    "m = 2 \<Longrightarrow> d = doy - 336"
    "march_md (doy + 1) = (if m = 2 \<or> d < month_length 1 m then (m, d + 1) else if m < 12 then (m + 1, 1) else (1, 1))"
proof -
  have "doy \<in> set [0..365]" using assms by simp
  with march_md_table have *: "case march_md doy of (m, d) \<Rightarrow>
       1 \<le> m \<and> m \<le> 12 \<and> 1 \<le> d \<and> (m \<noteq> 2 \<longrightarrow> d \<le> month_length 1 m) \<and> (m = 2 \<longleftrightarrow> 337 \<le> doy) \<and> (m \<le> 2 \<longleftrightarrow> 306 \<le> doy)
       \<and> (m = 2 \<longrightarrow> d = doy - 336)
       \<and> march_md (doy + 1) = (if m = 2 \<or> d < month_length 1 m then (m, d + 1) else if m < 12 then (m + 1, 1) else (1, 1))"
    by (simp only: list_all_iff)
  then show "1 \<le> m" "m \<le> 12" "1 \<le> d" "m \<noteq> 2 \<Longrightarrow> d \<le> month_length 1 m" "m = 2 \<longleftrightarrow> 337 \<le> doy" "m \<le> 2 \<longleftrightarrow> 306 \<le> doy"
    "m = 2 \<Longrightarrow> d = doy - 336"
    "march_md (doy + 1) = (if m = 2 \<or> d < month_length 1 m then (m, d + 1) else if m < 12 then (m + 1, 1) else (1, 1))"
    using assms(3) by simp_all
qed

text \<open>Every day number is a day of one year of one era.\<close>

lemma year_bounds:
  assumes "0 \<le> doe" and "doe \<le> 146096"
  shows "0 \<le> year_of_era doe" and "year_of_era doe \<le> 399"
    and "year_start (year_of_era doe) \<le> doe" and "doe < year_start (year_of_era doe) + year_length (year_of_era doe)"
proof -
  let ?y = "year_of_era doe"
  have "year_of_era 0 \<le> ?y" and "?y \<le> year_of_era 146096" using assms by (auto intro: year_of_era_mono)
  then show y: "0 \<le> ?y" "?y \<le> 399" by (simp_all add: year_of_era_def)
  show "year_start ?y \<le> doe"
  proof (rule ccontr)
    assume *: "\<not> year_start ?y \<le> doe"
    then have "?y \<noteq> 0" using assms by (auto simp: year_start_def)
    with y have "year_start ?y = year_start (?y - 1) + year_length (?y - 1)" and "year_of_era (year_start (?y - 1) + year_length (?y - 1) - 1) = ?y - 1"
      using year_table(2, 3) [of "?y - 1"] by simp_all
    then show False using * year_of_era_mono [of doe "year_start ?y - 1"] by simp
  qed
  show "doe < year_start ?y + year_length ?y"
  proof (rule ccontr)
    assume *: "\<not> doe < year_start ?y + year_length ?y"
    show False
    proof (cases "?y = 399")
      case True
      with * assms show ?thesis by (simp add: year_start_def year_length_def leap_year_def)
    next
      case False
      with y * have "year_start (?y + 1) \<le> doe" using year_table(3) [of ?y] by simp
      then show ?thesis using year_table(1) [of "?y + 1"] y False year_of_era_mono [of "year_start (?y + 1)" doe] by simp
    qed
  qed
qed

lemma civil_from_days_march:
  assumes "0 \<le> y" and "y \<le> 399" and "0 \<le> doy" and "doy < year_length y"
  shows "civil_from_days (era * 146097 + year_start y + doy - 719468) = march_date (era * 400 + y) doy"
proof -
  define doe where "doe = year_start y + doy"
  have start: "0 \<le> year_start y" using assms by (simp add: year_start_def)
  have last: "year_start y + year_length y \<le> 146097"
  proof (cases "y = 399")
    case True
    then show ?thesis by (simp add: year_start_def year_length_def leap_year_def)
  next
    case False
    then have "year_start y + year_length y = year_start (y + 1)" using year_table(3) [of y] assms by simp
    also have "\<dots> \<le> 146097" using assms by (simp add: year_start_def)
    finally show ?thesis .
  qed
  have doe: "0 \<le> doe" "doe \<le> 146096" using assms start last by (simp_all add: doe_def)
  have "year_of_era (year_start y) \<le> year_of_era doe" "year_of_era doe \<le> year_of_era (year_start y + year_length y - 1)"
    using assms by (auto simp: doe_def intro: year_of_era_mono)
  then have yoe: "year_of_era doe = y" using year_table [of y] assms by simp
  have era: "(era * 146097 + doe) div 146097 = era" using doe by simp
  have yoe_eq: "(doe - doe sdiv 1460 + doe sdiv 36524 - doe sdiv 146096) sdiv 365 = y"
  proof -
    have "0 \<le> doe - doe div 1460 + doe div 36524 - doe div 146096" using doe by linarith
    then show ?thesis using yoe doe by (simp add: sdiv_nonneg year_of_era_def)
  qed
  have doy_eq: "doe - (365 * y + y sdiv 4 - y sdiv 100) = doy"
    using assms by (simp add: sdiv_nonneg doe_def year_start_def)
  have z_eq: "era * 146097 + doe - 719468 + 719468 = era * 146097 + doe" "era * 146097 + doe - era * 146097 = doe"
    by simp_all
  have "civil_from_days (era * 146097 + doe - 719468) =
      (let mp = (5 * doy + 2) sdiv 153; d = doy - (153 * mp + 2) sdiv 5 + 1; m = (if mp < 10 then mp + 3 else mp - 9)
       in (y + era * 400 + (if m \<le> 2 then 1 else 0), m, d))"
    by (simp only: civil_from_days_def Let_def era_floor z_eq era yoe_eq doy_eq)
  also have "\<dots> = march_date (era * 400 + y) doy"
    using assms by (simp add: Let_def sdiv_nonneg march_date_def march_md_def add.commute)
  finally show ?thesis by (simp add: doe_def add.assoc)
qed

text \<open>A day number split into era, year and day of the year.\<close>

lemma day_split:
  obtains era y doy where "z = era * 146097 + year_start y + doy - 719468"
    and "0 \<le> y" and "y \<le> 399" and "0 \<le> doy" and "doy < year_length y"
proof -
  define era doe where "era = (z + 719468) div 146097" and "doe = (z + 719468) mod 146097"
  have "z = era * 146097 + doe - 719468" by (simp add: era_def doe_def)
  moreover have doe: "0 \<le> doe" "doe \<le> 146096"
    using pos_mod_bound [of 146097 "z + 719468"] by (simp_all add: doe_def)
  ultimately show thesis
    using year_bounds [OF doe] by (intro that [of era "year_of_era doe" "doe - year_start (year_of_era doe)"]) simp_all
qed

lemma leap_era: "leap_year (era * 400 + y) = leap_year y"
proof -
  have split: "era * 400 + y = y + era * 100 * 4" "era * 400 + y = y + era * 4 * 100" by simp_all
  have "(era * 400 + y) mod 4 = y mod 4" unfolding split(1) by (rule mod_mult_self1)
  moreover have "(era * 400 + y) mod 100 = y mod 100" unfolding split(2) by (rule mod_mult_self1)
  moreover have "(era * 400 + y) mod 400 = y mod 400" by simp
  ultimately show ?thesis by (simp add: leap_year_def)
qed

lemma march_date_next:
  assumes "0 \<le> y" and "y \<le> 399" and "0 \<le> doy" and "doy < year_length y"
  shows "next_date (march_date (era * 400 + y) doy) =
      (if doy + 1 < year_length y then march_date (era * 400 + y) (doy + 1) else march_date (era * 400 + y + 1) 0)"
    and "is_date (march_date (era * 400 + y) doy)"
proof -
  obtain m d where md: "march_md doy = (m, d)" by fastforce
  have doy: "doy \<le> 365" using assms by (simp add: year_length_def split: if_splits)
  note step = march_md_step [OF assms(3) doy md]
  have leap: "leap_year (era * 400 + y + 1) = leap_year (y + 1)" using leap_era [of era "y + 1"] by (simp add: add.assoc)
  have len: "m \<noteq> 2 \<Longrightarrow> month_length (era * 400 + y + (if m \<le> 2 then 1 else 0)) m = month_length 1 m"
    and feb: "month_length (era * 400 + y + 1) 2 = (if leap_year (y + 1) then 29 else 28)"
    using leap by (simp_all add: month_length_def)
  have zero: "march_md 0 = (3, 1)" by (simp add: march_md_def)
  have long: "year_length y = (if leap_year (y + 1) then 366 else 365)" by (simp add: year_length_def)
  show "is_date (march_date (era * 400 + y) doy)"
    using step(1 - 7) assms(4) len feb long by (cases "m = 2") (auto simp: is_date_def march_date_def md)
  show "next_date (march_date (era * 400 + y) doy) =
      (if doy + 1 < year_length y then march_date (era * 400 + y) (doy + 1) else march_date (era * 400 + y + 1) 0)"
  proof (cases "m = 2")
    case True
    with step(5, 7, 8) assms(4) feb long show ?thesis
      by (auto simp: next_date_def march_date_def md zero)
  next
    case False
    then have "doy < 337" using step(5) by simp
    then have "doy + 1 < year_length y" using long by simp
    moreover have "m \<le> 1 \<longleftrightarrow> m \<le> 2" using False by linarith
    ultimately show ?thesis
      using False step(1, 2, 4, 8) len [OF False] by (auto simp: next_date_def march_date_def md split: if_splits)
  qed
qed

lemma civil_next: "civil_from_days (z + 1) = next_date (civil_from_days z)" and civil_is_date: "is_date (civil_from_days z)"
proof -
  obtain era y doy where z: "z = era * 146097 + year_start y + doy - 719468"
    and b: "0 \<le> y" "y \<le> 399" "0 \<le> doy" "doy < year_length y" by (rule day_split)
  have now: "civil_from_days z = march_date (era * 400 + y) doy" using civil_from_days_march [OF b] z by simp
  then show "is_date (civil_from_days z)" using march_date_next(2) [OF b] by simp
  show "civil_from_days (z + 1) = next_date (civil_from_days z)"
  proof (cases "doy + 1 < year_length y")
    case True
    then have "civil_from_days (z + 1) = march_date (era * 400 + y) (doy + 1)"
      using civil_from_days_march [of y "doy + 1" era] b by (simp add: z algebra_simps)
    then show ?thesis using march_date_next(1) [OF b, of era] now True by simp
  next
    case False
    then have last: "doy + 1 = year_length y" using b by simp
    show ?thesis
    proof (cases "y = 399")
      case True
      have "civil_from_days ((era + 1) * 146097 + year_start 0 + 0 - 719468) = march_date ((era + 1) * 400 + 0) 0"
        by (rule civil_from_days_march) (simp_all add: year_length_def)
      moreover have "z + 1 = (era + 1) * 146097 + year_start 0 + 0 - 719468"
        using z last year_table(3) [of y] b True by (simp add: year_start_def algebra_simps)
      moreover have "(era + 1) * 400 + 0 = era * 400 + y + 1" using True by simp
      ultimately have "civil_from_days (z + 1) = march_date (era * 400 + y + 1) 0" by (simp only:)
      then show ?thesis using march_date_next(1) [OF b, of era] last now by simp
    next
      case False
      have "civil_from_days (era * 146097 + year_start (y + 1) + 0 - 719468) = march_date (era * 400 + (y + 1)) 0"
        using b False by (intro civil_from_days_march) (simp_all add: year_length_def)
      moreover have "z + 1 = era * 146097 + year_start (y + 1) + 0 - 719468"
        using z last year_table(3) [of y] b False by simp
      ultimately have "civil_from_days (z + 1) = march_date (era * 400 + y + 1) 0" by (simp only: add.assoc)
      then show ?thesis using march_date_next(1) [OF b, of era] last now by simp
    qed
  qed
qed

lemma civil_epoch: "civil_from_days 0 = (1970, 1, 1)"
  by code_simp

section \<open>Timestamps sort by time\<close>

definition date_less :: "int \<times> int \<times> int \<Rightarrow> int \<times> int \<times> int \<Rightarrow> bool" where
  "date_less a b = (case (a, b) of ((y, m, d), (y', m', d')) \<Rightarrow> y < y' \<or> y = y' \<and> (m < m' \<or> m = m' \<and> d < d'))"

lemma date_less_trans: "date_less a b \<Longrightarrow> date_less b c \<Longrightarrow> date_less a c"
  by (auto simp: date_less_def split: prod.splits)

lemma date_less_next: "date_less c (next_date c)"
  by (auto simp: date_less_def next_date_def split: prod.splits)

lemma civil_mono: "z < z' \<Longrightarrow> date_less (civil_from_days z) (civil_from_days z')"
proof (induction z' rule: int_gr_induct)
  case base
  show ?case by (simp add: civil_next date_less_next)
next
  case (step i)
  then show ?case using date_less_next date_less_trans by (fastforce simp: civil_next)
qed

lemma civil_year_range:
  assumes "0 \<le> z" and "z < 2932897" and "civil_from_days z = (y, m, d)"
  shows "0 \<le> y" and "y < 10000" and "1 \<le> m" and "m \<le> 12" and "1 \<le> d" and "d \<le> 31"
proof -
  have last: "civil_from_days 2932896 = (9999, 12, 31)" by code_simp
  show "0 \<le> y"
    using civil_mono [of 0 z] assms(1, 3) civil_epoch by (cases "z = 0") (auto simp: date_less_def)
  show "y < 10000"
    using civil_mono [of z 2932896] assms(2, 3) last by (cases "z = 2932896") (auto simp: date_less_def)
  show "1 \<le> m" "m \<le> 12" "1 \<le> d" "d \<le> 31"
    using civil_is_date [of z] assms(3) by (auto simp: is_date_def month_length_def split: if_splits)
qed

fun digits :: "nat \<Rightarrow> nat \<Rightarrow> string" where
  "digits 0 n = []"
| "digits (Suc w) n = digits w (n div 10) @ [digit_char (n mod 10)]"

lemma length_digits [simp]: "length (digits w n) = w"
  by (induction w arbitrary: n) simp_all

lemma digits_zero: "digits w 0 = replicate w (CHR ''0'')"
  by (induction w) (simp_all add: digit_char_def char_of_def bit_0 flip: replicate_append_same)

lemma show_padded_digits: "n < 10 ^ w \<Longrightarrow> 0 < w \<Longrightarrow> show_padded w n = digits w n"
proof (induction w arbitrary: n)
  case 0
  then show ?case by simp
next
  case (Suc w)
  show ?case
  proof (cases "n < 10")
    case True
    then show ?thesis by (simp add: show_padded_def show_nat.simps [of n] digits_zero)
  next
    case False
    with Suc.prems have "n div 10 < 10 ^ w" and "0 < w" by (auto intro: Nat.gr0I)
    then have "show_padded w (n div 10) = digits w (n div 10)" by (rule Suc.IH)
    then show ?thesis using False by (simp add: show_padded_def show_nat.simps [of n] flip: append_assoc)
  qed
qed

lemma append_less_append:
  "length xs = length ys \<Longrightarrow> xs @ us < ys @ vs \<longleftrightarrow> xs < ys \<or> xs = ys \<and> us < vs" for xs ys :: string
  by (induction xs ys rule: list_induct2) auto

lemma digit_char_less: "a < 10 \<Longrightarrow> b < 10 \<Longrightarrow> digit_char a < digit_char b \<longleftrightarrow> a < b"
  by (simp add: digit_char_def less_char_def)

lemma div_mod_less: "a < b \<Longrightarrow> a div k < b div k \<or> a div k = b div k \<and> a mod k < b mod k" for a b k :: nat
  by (metis div_le_mono div_mult_mod_eq le_neq_implies_less less_imp_le nat_add_left_cancel_less)

lemma digits_less: "a < b \<Longrightarrow> b < 10 ^ w \<Longrightarrow> digits w a < digits w b"
proof (induction w arbitrary: a b)
  case 0
  then show ?case by simp
next
  case (Suc w)
  have bound: "b div 10 < 10 ^ w" using Suc.prems(2) by auto
  from div_mod_less [OF Suc.prems(1), of 10] show ?case
    using Suc.IH [OF _ bound, of "a div 10"] by (auto simp: append_less_append digit_char_less)
qed

lemma digits_numeral:
  "digits 2 n = [digit_char (n div 10 mod 10), digit_char (n mod 10)]"
  "digits 4 n = [digit_char (n div 1000 mod 10), digit_char (n div 100 mod 10), digit_char (n div 10 mod 10), digit_char (n mod 10)]"
proof -
  have n: "(2 :: nat) = Suc (Suc 0)" "(4 :: nat) = Suc (Suc (Suc (Suc 0)))" by simp_all
  show "digits 2 n = [digit_char (n div 10 mod 10), digit_char (n mod 10)]"
    and "digits 4 n = [digit_char (n div 1000 mod 10), digit_char (n div 100 mod 10), digit_char (n div 10 mod 10), digit_char (n mod 10)]"
    unfolding n by (simp_all add: div_mult2_eq [symmetric])
qed

lemma digit_char_numeral:
  "digit_char 0 = CHR ''0''" "digit_char (Suc 0) = CHR ''1''" "digit_char 1 = CHR ''1''" "digit_char 2 = CHR ''2''" "digit_char 3 = CHR ''3''"
  "digit_char 4 = CHR ''4''" "digit_char 5 = CHR ''5''" "digit_char 8 = CHR ''8''" "digit_char 9 = CHR ''9''"
  by code_simp+

lemma timestamp_digits:
  assumes "now < 253402300800" and "civil_from_days (int (now div 86400)) = (y, m, d)"
  shows "sortable_timestamp now = digits 4 (nat y) @ digits 2 (nat m) @ digits 2 (nat d) @ ''T''
     @ digits 2 ((now div 3600) mod 24) @ digits 2 ((now div 60) mod 60) @ digits 2 (now mod 60)"
proof -
  have "int (now div 86400) < 2932897" using assms(1) by linarith
  then show ?thesis
    using civil_year_range [OF _ _ assms(2)] by (simp add: sortable_timestamp_def assms(2) Let_def show_padded_digits)
qed

lemma clock_less:
  assumes "(a :: nat) < b" and "a div 86400 = b div 86400"
  shows "(a div 3600) mod 24 < (b div 3600) mod 24
     \<or> (a div 3600) mod 24 = (b div 3600) mod 24 \<and> ((a div 60) mod 60 < (b div 60) mod 60
        \<or> (a div 60) mod 60 = (b div 60) mod 60 \<and> a mod 60 < b mod 60)"
proof -
  have e: "n div 60 div 60 = n div 3600" "n div 3600 div 24 = n div 86400" for n :: nat
    by (simp_all flip: div_mult2_eq)
  have "a div 60 = b div 60 \<Longrightarrow> a div 3600 = b div 3600" by (metis e(1))
  with e show ?thesis
    using div_mod_less [OF assms(1), of 60] div_mod_less [of "a div 60" "b div 60" 60]
      div_mod_less [of "a div 3600" "b div 3600" 24] assms(2) by auto
qed

lemma clock_digits_less:
  assumes "h < h' \<or> h = h' \<and> (i < i' \<or> i = i' \<and> s < s')" and "h' < 100" and "i' < 100" and "s' < 100"
  shows "digits 2 h @ digits 2 i @ digits 2 s < digits 2 h' @ digits 2 i' @ digits 2 s'"
  using assms by (auto simp: append_less_append intro!: digits_less)

lemma date_digits_less:
  assumes "y < y' \<or> y = y' \<and> (m < m' \<or> m = m' \<and> d < d')" and "y' < 10000" and "m' < 100" and "d' < 100"
  shows "digits 4 y @ digits 2 m @ digits 2 d @ u < digits 4 y' @ digits 2 m' @ digits 2 d' @ v"
  using assms by (auto simp: append_less_append intro!: digits_less)

text \<open>The date of the environment block abbreviates the name of the day.\<close>

lemma today_string_abbreviated: "today_string 1785196800 = ''Tue Jul 28, 2026''"
proof -
  have "civil_from_days 20662 = (2026, 7, 28)" by code_simp
  moreover have "show_nat 28 = ''28''" "show_nat 2026 = ''2026''"
    by (simp_all add: show_nat.simps digit_char_numeral digit_char_def char_of_def bit_0)
  ultimately show ?thesis
    by (simp add: today_string_def weekday_names_def month_names_def show_int_def)
qed

section \<open>Properties\<close>

text \<open>
  The date computation without a date library is the Gregorian calendar: day 0 is 1 January 1970,
  every day number gives a date that exists, and the day after it gives the following date, across
  months, leap years, centuries and eras, in both directions from the epoch.
\<close>

theorem civil_from_days_is_calendar:
  "civil_from_days 0 = (1970, 1, 1) \<and> is_date (civil_from_days z)
   \<and> civil_from_days (z + 1) = next_date (civil_from_days z)"
  using civil_epoch civil_is_date civil_next by blast

text \<open>
  Fresh session ids sort by the time they were made: until the year 10000, a later second gives a
  timestamp that is later in the order of strings, and every timestamp has fifteen characters.
\<close>

theorem timestamps_sort_by_time:
  assumes "a < b" and "b < 253402300800"
  shows "sortable_timestamp a < sortable_timestamp b \<and> length (sortable_timestamp b) = 15"
proof -
  obtain y m d where ca: "civil_from_days (int (a div 86400)) = (y, m, d)" by (metis surj_pair)
  obtain y' m' d' where cb: "civil_from_days (int (b div 86400)) = (y', m', d')" by (metis surj_pair)
  have range: "int (a div 86400) < 2932897" "int (b div 86400) < 2932897" using assms by linarith+
  note ra = civil_year_range [OF _ range(1) ca] and rb = civil_year_range [OF _ range(2) cb]
  have da: "sortable_timestamp a = digits 4 (nat y) @ digits 2 (nat m) @ digits 2 (nat d) @ ''T''
     @ digits 2 ((a div 3600) mod 24) @ digits 2 ((a div 60) mod 60) @ digits 2 (a mod 60)"
    using timestamp_digits [OF _ ca] assms by simp
  have db: "sortable_timestamp b = digits 4 (nat y') @ digits 2 (nat m') @ digits 2 (nat d') @ ''T''
     @ digits 2 ((b div 3600) mod 24) @ digits 2 ((b div 60) mod 60) @ digits 2 (b mod 60)"
    using timestamp_digits [OF _ cb] assms by simp
  have "length (sortable_timestamp b) = 15" by (simp add: db)
  moreover have "sortable_timestamp a < sortable_timestamp b"
  proof (cases "a div 86400 = b div 86400")
    case True
    then have "(y, m, d) = (y', m', d')" using ca cb by simp
    then show ?thesis
      using clock_digits_less [OF clock_less [OF assms(1) True]]
      by (simp add: da db append_less_append less_trans [OF mod_less_divisor])
  next
    case False
    then have "a div 86400 < b div 86400" using assms(1) by (metis div_le_mono le_neq_implies_less less_imp_le)
    then have "date_less (y, m, d) (y', m', d')" using civil_mono [of "int (a div 86400)" "int (b div 86400)"] ca cb by simp
    then have "nat y < nat y' \<or> nat y = nat y' \<and> (nat m < nat m' \<or> nat m = nat m' \<and> nat d < nat d')"
      using ra rb by (auto simp: date_less_def)
    then show ?thesis
      unfolding da db using rb by (intro date_digits_less) simp_all
  qed
  ultimately show ?thesis by blast
qed

theorem timestamps_sort_by_time_witness:
  "sortable_timestamp 951782399 < sortable_timestamp 951782400
   \<and> sortable_timestamp 951782399 = ''20000228T235959'' \<and> sortable_timestamp 951782400 = ''20000229T000000''"
proof -
  have a: "civil_from_days 11015 = (2000, 2, 28)" and b: "civil_from_days 11016 = (2000, 2, 29)" by code_simp+
  have "sortable_timestamp 951782399 = ''20000228T235959''" "sortable_timestamp 951782400 = ''20000229T000000''"
    using timestamp_digits [of 951782399 2000 2 28] timestamp_digits [of 951782400 2000 2 29] a b
    by (simp_all add: digits_numeral digit_char_numeral)
  then show ?thesis using timestamps_sort_by_time [of 951782399 951782400] by simp
qed

end
