(* ===== verification/Context_Assembly.thy ===== *)
theory Context_Assembly
  imports Agent_Loop Paths Seq_Hash Civil_Time
begin

text \<open>
  \<open>crates/rc-ctx/src/lib.rs\<close>: the system prompt, the expansion of file mentions and the cap on tool
  results, and the assembler of \<open>crates/rc-core/src/context.rs\<close> built from them. The file system is an
  argument: \<open>read\<close> gives the bytes \<open>fs::read\<close> returns for a path, \<open>None\<close> for any error. A path is its
  text, which is also what \<open>display()\<close> prints for a path that is valid UTF-8.
\<close>

section \<open>Reading files\<close>

text \<open>\<open>std::str::from_utf8\<close>.\<close>

function from_utf8 :: "string \<Rightarrow> string option" where
  "from_utf8 [] = Some []"
| "from_utf8 (b # bs) =
     (case utf8_front b bs of
        Inr n \<Rightarrow> map_option (\<lambda>s. take n (b # bs) @ s) (from_utf8 (drop (n - 1) bs))
      | Inl n \<Rightarrow> None)"
  by pat_completeness auto
termination
  by (relation "measure length") auto

definition read_to_string :: "(string \<Rightarrow> string option) \<Rightarrow> string \<Rightarrow> string option" where
  "read_to_string read p = Option.bind (read p) from_utf8"

section \<open>Caps\<close>

record caps =
  inline_file_cap :: nat
  tool_result_cap :: nat

definition caps_unlimited :: caps where
  "caps_unlimited = \<lparr>inline_file_cap = 0, tool_result_cap = 0\<rparr>"

definition caps_bounded :: caps where
  "caps_bounded = \<lparr>inline_file_cap = 8 * 1024, tool_result_cap = 16 * 1024\<rparr>"

definition over :: "nat \<Rightarrow> nat \<Rightarrow> bool" where
  "over cap len \<longleftrightarrow> cap \<noteq> 0 \<and> len > cap"

section \<open>The environment block\<close>

record environment =
  env_cwd :: string
  env_platform :: string
  env_date :: string
  env_git_branch :: "string option"

definition read_git_branch :: "(string \<Rightarrow> string option) \<Rightarrow> string \<Rightarrow> string option" where
  "read_git_branch read cwd =
     (case read_to_string read (path_join (path_join cwd ''.git'') ''HEAD'') of
        None \<Rightarrow> None
      | Some head \<Rightarrow> strip_prefix ''ref: refs/heads/'' (trim head))"

definition platform_name :: "string \<Rightarrow> string" where
  "platform_name os =
     (if os = ''macos'' then ''macOS'' else if os = ''linux'' then ''Linux'' else if os = ''windows'' then ''Windows'' else os)"

definition env_detect :: "(string \<Rightarrow> string option) \<Rightarrow> string \<Rightarrow> string \<Rightarrow> string \<Rightarrow> environment" where
  "env_detect read os cwd date =
     \<lparr>env_cwd = cwd, env_platform = platform_name os, env_date = date, env_git_branch = read_git_branch read cwd\<rparr>"

definition env_from_cwd :: "(string \<Rightarrow> string option) \<Rightarrow> string \<Rightarrow> nat \<Rightarrow> string \<Rightarrow> environment" where
  "env_from_cwd read os now cwd = env_detect read os cwd (today_string now)"

definition render_block :: "environment \<Rightarrow> string" where
  "render_block env =
     ''# Environment'' @ newline @ newline
     @ ''- Working directory: '' @ env_cwd env @ newline
     @ ''- Platform: '' @ env_platform env @ newline
     @ ''- Date: '' @ env_date env @ newline
     @ (case env_git_branch env of Some branch \<Rightarrow> ''- Git branch: '' @ branch @ newline | None \<Rightarrow> [])"

section \<open>The memory chain\<close>

record memory =
  mem_path :: string
  mem_contents :: string

definition load_memory :: "(string \<Rightarrow> string option) \<Rightarrow> string \<Rightarrow> string \<Rightarrow> memory option" where
  "load_memory read path label =
     (case read_to_string read path of
        None \<Rightarrow> None
      | Some contents \<Rightarrow>
          if trim contents = [] then None else Some \<lparr>mem_path = label, mem_contents = contents\<rparr>)"

text \<open>\<open>home\<close> is the environment variable \<open>HOME\<close>; the Windows variant is not modelled.\<close>

definition load_chain :: "(string \<Rightarrow> string option) \<Rightarrow> string option \<Rightarrow> string \<Rightarrow> memory list" where
  "load_chain read home cwd =
     (let add = (\<lambda>m chain. case m of Some x \<Rightarrow> chain @ [x] | None \<Rightarrow> chain);
          chain = [];
          chain = (case home of
              Some h \<Rightarrow> add (load_memory read (path_join (path_join h ''.sc'') ''AGENTS.md'') ''~/.sc/AGENTS.md'') chain
            | None \<Rightarrow> chain);
          chain = add (load_memory read (path_join (path_join cwd ''.sc'') ''AGENTS.md'') ''.sc/AGENTS.md'') chain
      in add (load_memory read (path_join cwd ''AGENTS.md'') ''AGENTS.md'') chain)"

section \<open>The system prompt\<close>

definition left_quote :: string where
  "left_quote = bytes_str [226, 128, 152]"

definition right_quote :: string where
  "right_quote = bytes_str [226, 128, 153]"

definition identity :: string where
  "identity =
     ''You are `marathon` (Subconscious Code), a terminal agent that helps with software ''
     @ ''engineering tasks in the user's repository. Use the provided tools to inspect and edit ''
     @ ''files. Be concise and direct. When you have enough information, answer in plain text.''"

definition posture :: string where
  "posture =
     ''# Instructions''
     @ newline
     @ newline
     @ ''Read files before editing them. Prefer the smallest change that solves the problem. ''
     @ ''Minimize model round trips: use one comprehensive read-only call instead of sequential ''
     @ ''discovery when possible. Before recursively inventorying a working directory that is not ''
     @ ''itself a repository, list its direct children and identify the intended project. For folder ''
     @ ''inventories or ''
     @ left_quote
     @ ''everything in this folder''
     @ right_quote
     @ '', call `List` once on that specific folder with `recursive: true` instead of probing with ''
     @ ''repeated `ls`, `find`, or `Glob` calls. If that inventory needs descriptions from file ''
     @ ''contents, follow it with exactly one `ReadMany` call containing every relevant text file, ''
     @ ''then answer; do not read those files one at a time. Use `Grep`/`GrepMany` for content ''
     @ ''searches and `Glob` for file patterns instead of shelling out to `grep`, `rg`, or `find`; ''
     @ ''these tools preserve workspace scoping and return structured results. When several ''
     @ ''independent searches are known, use one `GrepMany` call. For other independent reads, use ''
     @ ''one `ReadMany` call or issue them together in one parallel tool batch. Spend at most three ''
     @ ''consecutive tool rounds investigating before consolidating what is known, listing every ''
     @ ''remaining unknown, and fetching those unknowns together. Before emitting any read-only ''
     @ ''call, collect every independent path or query already known and include all of those calls ''
     @ ''in the same assistant response; do not narrate and then emit only the first one. For a ''
     @ ''short factual question, perform at least one cheap grounded inspection before answering ''
     @ ''unless the existing conversation or tool output already establishes the answer; label ''
     @ ''remaining uncertainty explicitly instead of substituting a shallow guess. For a long ''
     @ ''generated document, create it in bounded `Append` chunks and use each reported `new_size` ''
     @ ''as the next `expected_size`; do not attempt one completion-sized `Write`. Independent ''
     @ ''`Write`, `Append`, or `Edit` calls may also share a response. The runtime runs safe reads ''
     @ ''concurrently and serializes file edits in model order. Never batch calls when a later call ''
     @ ''depends on an earlier call's result. While editing, run the narrowest relevant test or ''
     @ ''check. Run the full workspace test suite once, at the end; rerun it only if that final run ''
     @ ''fails and you have applied a fix. Do not repeat an unchanged passing test command. For ''
     @ ''implementation tasks, do not declare completion merely because a narrow or self-authored ''
     @ ''test passes. Before the final answer, inspect the final diff, map every acceptance ''
     @ ''requirement to the implementation, and run the broadest relevant verification available ''
     @ ''after the last edit. If part of the requested verification cannot run, perform a static ''
     @ ''review of that behavior and state the limitation. When you have enough information to ''
     @ ''answer and this completion audit is satisfied, stop calling tools and answer in plain text. ''
     @ ''Keep private reasoning proportional to the task; once the next observable action is known, ''
     @ ''call the tool or answer instead of spending the completion budget rehearsing it.''"

definition build_system_prompt :: "environment \<Rightarrow> memory list \<Rightarrow> string" where
  "build_system_prompt env memories =
     identity @ newline @ newline @ render_block env
     @ (if memories \<noteq> [] then
          newline @ ''# Memory'' @ newline @ newline
          @ concat (map (\<lambda>m. ''## '' @ mem_path m @ newline @ newline @ trim (mem_contents m) @ newline @ newline) memories)
        else [])
     @ posture"

section \<open>File mentions\<close>

text \<open>\<open>Path::extension\<close>: what follows the last dot of the file name, if something precedes that dot.\<close>

definition path_extension :: "string \<Rightarrow> string option" where
  "path_extension p =
     (case path_file_name p of
        None \<Rightarrow> None
      | Some name \<Rightarrow>
          (let after = rev (takeWhile (\<lambda>c. c \<noteq> CHR ''.'') (rev name)) in
           if length after + 1 < length name then Some after else None))"

definition em_dash :: string where
  "em_dash = bytes_str [226, 128, 148]"

definition fence :: string where
  "fence = ''```''"

definition inline_file :: "(string \<Rightarrow> string option) \<Rightarrow> string \<Rightarrow> string \<Rightarrow> nat \<Rightarrow> string" where
  "inline_file read rel root cap =
     (let cleaned = unwrap_or rel (strip_prefix ''./'' rel) in
      if prefix ''/'' cleaned \<or> contains_str ''..'' cleaned then []
      else
        let path = path_join root cleaned in
        case read path of
          None \<Rightarrow> []
        | Some bytes \<Rightarrow>
            if bytes = [] then newline @ fence @ newline @ ''<file '' @ rel @ '' is empty>'' @ newline @ fence @ newline
            else case from_utf8 bytes of
              None \<Rightarrow>
                newline @ fence @ newline @ ''<file '' @ rel @ '' is not valid UTF-8 '' @ em_dash @ '' not inlined>''
                @ newline @ fence @ newline
            | Some text \<Rightarrow>
                let lang = unwrap_or [] (Option.bind (path_extension path) from_utf8) in
                if over cap (length text) then
                  let head = take (floor_char_boundary text cap) text; elided = length text - length head in
                  newline @ fence @ lang @ newline @ head @ newline @ ellipsis @ ''['' @ show_nat elided
                  @ '' more bytes truncated '' @ em_dash @ '' use Read for the full file]'' @ newline @ fence @ newline
                else
                  newline @ fence @ lang @ newline @ rev (dropWhile (\<lambda>c. [c] = newline) (rev text))
                  @ newline @ fence @ newline)"

text \<open>The token at the front of a text: up to the next white space.\<close>

definition token_of :: "string \<Rightarrow> string" where
  "token_of after = concat (takeWhile (\<lambda>g. \<not> is_whitespace g) (chars_of after))"

text \<open>\<open>expand_line_mentions\<close>: \<open>rest\<close> is what of the line is left.\<close>

function expand_line_mentions :: "(string \<Rightarrow> string option) \<Rightarrow> string \<Rightarrow> nat \<Rightarrow> string \<Rightarrow> string" where
  "expand_line_mentions read root cap rest =
     (case find_str ''@'' rest of
        None \<Rightarrow> rest
      | Some at \<Rightarrow>
          (let begins_token = (at = 0 \<or> rest ! (at - 1) = CHR '' '');
               after = drop (at + 1) rest in
           if \<not> begins_token then take (at + 1) rest @ expand_line_mentions read root cap after
           else
             let token = token_of after in
             if token = [] then take (at + 1) rest @ expand_line_mentions read root cap after
             else take (at + 1) rest @ token @ inline_file read token root cap
                  @ expand_line_mentions read root cap (drop (length token) after)))"
  by pat_completeness auto
termination
  by (relation "measure (\<lambda>(_, _, _, rest). length rest)") (auto dest!: find_str_SomeD)

declare expand_line_mentions.simps [simp del]

text \<open>\<open>str::split_inclusive('\n')\<close>: every piece but the last ends with the line feed.\<close>

fun split_inclusive :: "string \<Rightarrow> string list" where
  "split_inclusive [] = []"
| "split_inclusive (c # cs) =
     (if [c] = newline then [c] # split_inclusive cs
      else case split_inclusive cs of [] \<Rightarrow> [[c]] | l # ls \<Rightarrow> (c # l) # ls)"

definition expand_line :: "(string \<Rightarrow> string option) \<Rightarrow> string \<Rightarrow> nat \<Rightarrow> string \<Rightarrow> string" where
  "expand_line read root cap line =
     (case strip_suffix newline line of
        Some b \<Rightarrow> expand_line_mentions read root cap b @ newline
      | None \<Rightarrow> expand_line_mentions read root cap line)"

definition expand_mentions :: "(string \<Rightarrow> string option) \<Rightarrow> string \<Rightarrow> nat \<Rightarrow> string \<Rightarrow> string" where
  "expand_mentions read root cap text =
     (if \<not> contains_str ''@'' text then text else concat (map (expand_line read root cap) (split_inclusive text)))"

section \<open>The assembler\<close>

fun is_user :: "turn \<Rightarrow> bool" where
  "is_user (User _ _) = True"
| "is_user _ = False"

fun truncate_result_turn :: "nat \<Rightarrow> turn \<Rightarrow> turn" where
  "truncate_result_turn cap (ToolResult cid name result duration) = ToolResult cid name (truncate_body cap result) duration"
| "truncate_result_turn cap other = other"

definition truncate_tool_results :: "turn list \<Rightarrow> nat \<Rightarrow> turn list" where
  "truncate_tool_results turns cap = (if cap = 0 then turns else map (truncate_result_turn cap) turns)"

fun expand_turn :: "(string \<Rightarrow> string option) \<Rightarrow> string \<Rightarrow> nat \<Rightarrow> turn \<Rightarrow> turn" where
  "expand_turn read root cap (User content ts) = User (expand_mentions read root cap content) ts"
| "expand_turn read root cap other = other"

definition prepare_turns :: "(string \<Rightarrow> string option) \<Rightarrow> turn list \<Rightarrow> string \<Rightarrow> caps \<Rightarrow> turn list" where
  "prepare_turns read turns root cs =
     (case rposition is_user turns of
        None \<Rightarrow> truncate_tool_results turns (tool_result_cap cs)
      | Some idx \<Rightarrow>
          truncate_tool_results (take idx turns @ map (expand_turn read root (inline_file_cap cs)) (drop idx turns))
            (tool_result_cap cs))"

record assembler =
  asm_env :: environment
  asm_system_prompt :: string
  asm_caps :: caps

definition assembler_new :: "(string \<Rightarrow> string option) \<Rightarrow> string option \<Rightarrow> environment \<Rightarrow> assembler" where
  "assembler_new read home env =
     (let memories = load_chain read home (env_cwd env) in
      \<lparr>asm_env = env, asm_system_prompt = build_system_prompt env memories, asm_caps = caps_unlimited\<rparr>)"

definition with_system_prompt :: "environment \<Rightarrow> string \<Rightarrow> assembler" where
  "with_system_prompt env prompt = \<lparr>asm_env = env, asm_system_prompt = prompt, asm_caps = caps_unlimited\<rparr>"

definition with_caps :: "caps \<Rightarrow> assembler \<Rightarrow> assembler" where
  "with_caps cs a = a\<lparr>asm_caps := cs\<rparr>"

definition assemble :: "(string \<Rightarrow> json option) \<Rightarrow> (json \<Rightarrow> string) \<Rightarrow> (string \<Rightarrow> string option) \<Rightarrow> assembler \<Rightarrow> turn list \<Rightarrow> wire_message list" where
  "assemble parse print read a turns =
     (let prepared = prepare_turns read turns (env_cwd (asm_env a)) (asm_caps a) in
      project_with parse print prepared (asm_system_prompt a))"

text \<open>
  \<open>context_key\<close> and \<open>prefix_fingerprint\<close> of the assembled messages; \<open>to_bytes\<close> is
  \<open>rc_proto::canonical::to_bytes\<close>, whose failures are skipped.
\<close>

definition assembled_blocks :: "(wire_message \<Rightarrow> u8 list option) \<Rightarrow> wire_message list \<Rightarrow> u8 list list" where
  "assembled_blocks to_bytes msgs = List.map_filter to_bytes msgs"

definition assembler_context_key ::
  "target \<Rightarrow> (u8 list \<Rightarrow> u8 list) \<Rightarrow> (u8 list \<Rightarrow> u8 list) \<Rightarrow> (wire_message \<Rightarrow> u8 list option) \<Rightarrow> wire_message list \<Rightarrow> u8 list" where
  "assembler_context_key t hash xof to_bytes msgs =
     context_key (fold (\<lambda>bytes cs. snd (context_add t hash xof bytes cs)) (assembled_blocks to_bytes msgs) context_new)"

definition assembler_prefix_fingerprint ::
  "(u8 list \<Rightarrow> u8 list) \<Rightarrow> (wire_message \<Rightarrow> u8 list option) \<Rightarrow> wire_message list \<Rightarrow> prefix_fingerprint" where
  "assembler_prefix_fingerprint hash to_bytes msgs =
     fp_from_blocks (map (block_from_bytes hash) (assembled_blocks to_bytes msgs))"

section \<open>The projection of prepared turns\<close>

text \<open>What preparing keeps of a turn: its calls, and the call a result answers.\<close>

fun same_shape :: "turn \<Rightarrow> turn \<Rightarrow> bool" where
  "same_shape (ToolResult cid _ _ _) t = (case t of ToolResult cid' _ _ _ \<Rightarrow> cid' = cid | _ \<Rightarrow> False)"
| "same_shape t u = (\<not> is_result u \<and> turn_calls u = turn_calls t)"

lemma same_shape_expand [simp]: "same_shape t (expand_turn read root cap t)"
  by (cases t) simp_all

lemma same_shape_truncate [simp]: "same_shape t u \<Longrightarrow> same_shape t (truncate_result_turn cap u)"
  by (cases t; cases u) auto

lemma same_shape_refl [simp]: "same_shape t t"
  by (cases t) simp_all

lemma same_shapeD: "same_shape t u \<Longrightarrow> is_result u = is_result t \<and> turn_calls u = turn_calls t"
  by (cases t; cases u) auto

lemma same_shape_answer: "is_answer c t \<Longrightarrow> same_shape t u \<Longrightarrow> is_answer c u"
  by (cases t; cases u) auto

lemma answers_same_shape:
  assumes "list_all2 is_answer cs ts" and "list_all2 same_shape ts us"
  shows "list_all2 is_answer cs us"
  using list_all2_trans [OF _ assms, of is_answer] same_shape_answer by blast

lemma answered_same_shape: "answered ts \<Longrightarrow> list_all2 same_shape ts us \<Longrightarrow> answered us"
proof (induction ts arbitrary: us rule: answered.induct)
  case 1
  then show ?case by simp
next
  case (2 t ts)
  then obtain u vs where us: "us = u # vs" and tu: "same_shape t u" and rest: "list_all2 same_shape ts vs"
    by (auto simp: list_all2_Cons1)
  have "answered (drop (length (turn_calls t)) vs)"
    using 2 us list_all2_dropI [OF rest] by simp
  moreover have "list_all2 is_answer (turn_calls t) (take (length (turn_calls t)) vs)"
    using 2 answers_same_shape [OF _ list_all2_takeI [OF rest]] by simp
  ultimately show ?case
    using 2 us same_shapeD [OF tu] list_all2_lengthD [OF rest] by simp
qed

lemma prepare_same_shape: "list_all2 same_shape turns (prepare_turns read turns root cs)"
proof -
  have trunc: "list_all2 same_shape ts (truncate_tool_results us cap)" if "list_all2 same_shape ts us" for ts us cap
    using that by (auto simp: truncate_tool_results_def list_all2_conv_all_nth)
  have same: "list_all2 same_shape ts ts" for ts by (simp add: list_all2_conv_all_nth)
  have "list_all2 same_shape (take i turns @ drop i turns) (take i turns @ map (expand_turn read root cap) (drop i turns))" for i cap
    by (intro list_all2_appendI same) (simp add: list_all2_conv_all_nth)
  then show ?thesis
    by (auto simp: prepare_turns_def same split: option.split intro!: trunc)
qed

interpretation assembled: context_assembler "\<lambda>turns cwd. assemble parse print read a turns" for parse print read a
proof unfold_locales
  fix turns
  assume "answered turns"
  then have "answered (prepare_turns read turns (env_cwd (asm_env a)) (asm_caps a))"
    using prepare_same_shape by (rule answered_same_shape)
  then show "verify_invariant (assemble parse print read a turns) = Inr ()"
    by (simp add: assemble_def project_with_verified)
qed

section \<open>What a mention can read\<close>

text \<open>The paths below the root that name no parent directory.\<close>

definition mentionable :: "string \<Rightarrow> string \<Rightarrow> bool" where
  "mentionable root p \<longleftrightarrow> (\<exists>rel. p = path_join root rel \<and> \<not> is_absolute rel \<and> \<not> contains_str ''..'' rel)"

definition reads_agree :: "string \<Rightarrow> (string \<Rightarrow> string option) \<Rightarrow> (string \<Rightarrow> string option) \<Rightarrow> bool" where
  "reads_agree root read read' \<longleftrightarrow> (\<forall>p. mentionable root p \<longrightarrow> read p = read' p)"

lemma inline_file_agree:
  assumes "reads_agree root read read'"
  shows "inline_file read rel root cap = inline_file read' rel root cap"
proof -
  let ?c = "unwrap_or rel (strip_prefix ''./'' rel)"
  have "read (path_join root ?c) = read' (path_join root ?c)" if "\<not> prefix ''/'' ?c" "\<not> contains_str ''..'' ?c"
    using that assms unfolding reads_agree_def mentionable_def is_absolute_def by blast
  then show ?thesis
    by (simp add: inline_file_def Let_def)
qed

lemma expand_line_None: "find_str ''@'' rest = None \<Longrightarrow> expand_line_mentions read root cap rest = rest"
  by (subst expand_line_mentions.simps) simp

lemma expand_line_Some:
  assumes "find_str ''@'' rest = Some at"
  shows "expand_line_mentions read root cap rest =
    take (at + 1) rest
    @ (let after = drop (at + 1) rest; token = token_of after in
       if (at = 0 \<or> rest ! (at - 1) = CHR '' '') \<and> token \<noteq> []
       then token @ inline_file read token root cap @ expand_line_mentions read root cap (drop (length token) after)
       else expand_line_mentions read root cap after)"
  using assms by (subst expand_line_mentions.simps) (auto simp: Let_def)

text \<open>The two recursive calls are on shorter texts.\<close>

lemma expand_line_induct [case_names None Some]:
  assumes "\<And>rest. find_str ''@'' rest = None \<Longrightarrow> P rest"
    and "\<And>rest at. find_str ''@'' rest = Some at \<Longrightarrow> P (drop (at + 1) rest)
      \<Longrightarrow> P (drop (length (token_of (drop (at + 1) rest))) (drop (at + 1) rest)) \<Longrightarrow> P rest"
  shows "P rest"
proof (induction rest rule: length_induct)
  case (1 rest)
  show ?case
  proof (cases "find_str ''@'' rest")
    case (Some at)
    then have "length (drop n (drop (at + 1) rest)) < length rest" for n using find_str_SomeD [OF Some] by auto
    then have "P (drop n (drop (at + 1) rest))" for n using 1 by blast
    from this [of 0] this show ?thesis by (intro assms(2) [OF Some]) simp_all
  qed (rule assms(1))
qed

lemma expand_line_agree:
  assumes "reads_agree root read read'"
  shows "expand_line_mentions read root cap rest = expand_line_mentions read' root cap rest"
proof (induction rest rule: expand_line_induct)
  case (None rest)
  then show ?case by (simp add: expand_line_None)
next
  case (Some rest at)
  then show ?case
    using inline_file_agree [OF assms] by (simp add: expand_line_Some [OF Some(1)] Let_def)
qed

lemma prepare_turns_agree:
  assumes "reads_agree root read read'"
  shows "prepare_turns read turns root cs = prepare_turns read' turns root cs"
proof -
  have "expand_line_mentions read root = expand_line_mentions read' root"
    using expand_line_agree [OF assms] by (intro ext)
  then have "expand_line read root cap = expand_line read' root cap" for cap
    by (intro ext) (simp add: expand_line_def cong: option.case_cong)
  then have "expand_mentions read root cap s = expand_mentions read' root cap s" for cap s
    by (simp only: expand_mentions_def)
  then have "expand_turn read root cap t = expand_turn read' root cap t" for cap t
    by (cases t) simp_all
  then have "expand_turn read root = expand_turn read' root" by (intro ext)
  then show ?thesis by (simp only: prepare_turns_def)
qed

text \<open>Textually, such a path is the root followed by components that do not climb.\<close>

definition below :: "string \<Rightarrow> string \<Rightarrow> bool" where
  "below root p \<longleftrightarrow> (\<exists>rest. components p = components root @ rest \<and> ParentDir \<notin> set rest)"

lemma prefix_hd_split_slash: "prefix (hd (split_slash s)) s"
proof (induction s)
  case (Cons c cs)
  then show ?case using split_slash_nonempty [of cs] by (auto split: list.splits)
qed simp

lemma contains_segment: "seg \<in> set (split_slash s) \<Longrightarrow> contains_str seg s"
proof (induction s)
  case (Cons c cs)
  obtain t ts where cs: "split_slash cs = t # ts" using split_slash_nonempty by (meson list.exhaust)
  have "prefix t cs" using prefix_hd_split_slash [of cs] cs by simp
  then show ?case using Cons cs by (auto split: if_splits)
qed simp

lemma components_join_relative:
  assumes "root \<noteq> []" and "\<not> is_absolute rel"
  shows "components (path_join root rel) = components root @ body_components (split_slash rel)"
proof -
  have absolute: "is_absolute (root @ s) = is_absolute root" for s
    using assms(1) by (cases root) (simp_all add: is_absolute_def)
  have empty: "body_components (segs @ [[]]) = body_components segs" for segs
    by (simp add: body_components_def skipped_def)
  obtain stem where join: "path_join root rel = stem @ ''/'' @ rel" and tail: "root = stem @ ''/'' \<or> root = stem"
    using assms by (cases "suffix ''/'' root") (auto simp: path_join_def suffix_def)
  then have abs: "is_absolute (path_join root rel) = is_absolute root"
    using absolute [of rel] absolute [of "''/'' @ rel"] by auto
  have ne: "split_slash stem \<noteq> []" by simp
  have split: "split_slash (path_join root rel) = split_slash stem @ split_slash rel"
    unfolding join by (rule split_slash_append_slash)
  have "hd (split_slash root) = hd (split_slash stem)"
    and "body_components (tl (split_slash root)) = body_components (tl (split_slash stem))"
    using tail split_slash_append_slash [of stem "[]"] ne empty [of "tl (split_slash stem)"] by auto
  moreover have "body_components (xs @ ys) = body_components xs @ body_components ys" for xs ys
    by (simp add: body_components_def)
  ultimately show ?thesis
    using ne abs by (simp add: components_front [of "path_join root rel"] components_front [of root] split)
qed

lemma mentionable_below: "mentionable root p \<Longrightarrow> below root p"
proof -
  assume "mentionable root p"
  then obtain rel where rel: "p = path_join root rel" "\<not> is_absolute rel" "\<not> contains_str ''..'' rel"
    by (auto simp: mentionable_def)
  have no: "ParentDir \<notin> set (body_components segs)" if "set segs \<subseteq> set (split_slash rel)" for segs
    using contains_segment rel(3) that by (auto simp: body_components_def body_component_def split: if_splits)
  show ?thesis
  proof (cases "root = []")
    case True
    have "set (tl (split_slash rel)) \<subseteq> set (split_slash rel)" by (metis list.set_sel(2) split_slash_nonempty subsetI)
    then have "ParentDir \<notin> set (components rel)"
      using no [of "tl (split_slash rel)"] no [of "split_slash rel"] by (auto simp: components_def Let_def)
    moreover have "components [] = []" by (simp add: components_def is_absolute_def body_components_def skipped_def)
    ultimately show ?thesis using True rel by (simp add: below_def path_join_def)
  next
    case False
    then show ?thesis using rel components_join_relative no [of "split_slash rel"] by (auto simp: below_def)
  qed
qed

section \<open>What a mention adds\<close>

lemma token_of_split: "after = token_of after @ drop (length (token_of after)) after"
proof -
  have "after = token_of after @ concat (dropWhile (\<lambda>g. \<not> is_whitespace g) (chars_of after))"
    by (simp add: token_of_def flip: concat_append)
  then show ?thesis by (metis append_eq_conv_conj)
qed

lemma subseq_expand_line: "subseq rest (expand_line_mentions read root cap rest)"
proof (induction rest rule: expand_line_induct)
  case (None rest)
  then show ?case by (simp add: expand_line_None)
next
  case (Some rest at)
  let ?after = "drop (at + 1) rest" and ?token = "token_of (drop (at + 1) rest)"
  have "subseq (?token @ drop (length ?token) ?after)
      (?token @ inline_file read ?token root cap @ expand_line_mentions read root cap (drop (length ?token) ?after))"
    by (intro list_emb_append_mono subseq_order.refl list_emb_append2 Some(3))
  then have "subseq ?after (?token @ inline_file read ?token root cap @ expand_line_mentions read root cap (drop (length ?token) ?after))"
    by (simp only: token_of_split [symmetric])
  then have "subseq (take (at + 1) rest @ ?after) (expand_line_mentions read root cap rest)"
    unfolding expand_line_Some [OF Some(1)] Let_def
    using Some(2) by (intro list_emb_append_mono subseq_order.refl) simp
  then show ?case by simp
qed

lemma concat_split_inclusive [simp]: "concat (split_inclusive s) = s"
  by (induction s) (auto split: list.splits)

lemma subseq_concat_map: "(\<And>x. subseq x (f x)) \<Longrightarrow> subseq (concat xs) (concat (map f xs))"
  by (induction xs) (simp_all add: list_emb_append_mono)

lemma subseq_expand_mentions: "subseq text (expand_mentions read root cap text)"
proof -
  have line: "subseq l (expand_line read root cap l)" for l
  proof (cases "strip_suffix newline l")
    case None
    then show ?thesis by (simp add: expand_line_def subseq_expand_line)
  next
    case (Some b)
    then have "l = b @ newline" by (auto simp: strip_suffix_def suffix_def split: if_splits)
    then show ?thesis using Some by (simp add: expand_line_def subseq_expand_line list_emb_append_mono)
  qed
  have "subseq (concat (split_inclusive text)) (concat (map (expand_line read root cap) (split_inclusive text)))"
    using line by (rule subseq_concat_map)
  then show ?thesis by (simp add: expand_mentions_def)
qed

section \<open>The reusable prefix\<close>





section \<open>An assembler to compute with\<close>

definition demo_assembler :: assembler where
  "demo_assembler = with_system_prompt \<lparr>env_cwd = ''/w'', env_platform = ''Linux'', env_date = [], env_git_branch = None\<rparr> ''s''"

definition demo_files :: "string \<Rightarrow> string \<Rightarrow> string option" where
  "demo_files contents p = (if p = ''/w/a'' then Some contents else None)"

lemma demo_mention:
  "expand_mentions (demo_files ''x'') ''/w'' 0 ''@a'' = ''@a'' @ newline @ ''```'' @ newline @ ''x'' @ newline @ ''```'' @ newline"
  "expand_mentions (demo_files ''y'') ''/w'' 0 ''@a'' = ''@a'' @ newline @ ''```'' @ newline @ ''y'' @ newline @ ''```'' @ newline"
  by code_simp+

lemma split_body_short: "6 * length s \<le> max_string_escaped \<Longrightarrow> split_body s = [s]"
proof -
  have "byte_escape_extra c \<le> 5" for c by (simp add: byte_escape_extra_def)
  then have "(\<Sum>c \<leftarrow> s. byte_escape_extra c) \<le> 5 * length s" by (induction s) (auto simp: add_mono)
  then show "6 * length s \<le> max_string_escaped \<Longrightarrow> ?thesis" by (simp add: split_body_def escaped_len_sum)
qed

lemma demo_user_message:
  assumes "\<forall>u \<in> set later. \<not> is_compaction u \<and> goal_text u = None" and "split_body c = [c]"
  shows "\<exists>ms. project_with parse print (User c t # later) sp = WSystem sp # WUser c # ms"
proof -
  have none: "rposition is_compaction (User c t # later) = None" "rposition (\<lambda>t. goal_text t \<noteq> None) (User c t # later) = None"
    using assms(1) unfolding rposition_None_iff by auto
  have "project_with parse print (User c t # later) sp
      = project_head (User c t # later) sp @ concat (map (\<lambda>t. project_turn parse print t []) (User c t # later))"
    unfolding project_with_split active_start_def none by (simp add: unwrap_or_def)
  also have "project_head (User c t # later) sp = [WSystem sp]"
    by (simp only: project_head_def none option.case)
  finally show ?thesis using assms(2) by (simp add: push_user_def)
qed

section \<open>Properties\<close>



text \<open>
  A mention in a message reads only files below the working directory: two file systems that agree
  on every path that is the working directory followed by components none of which is \<open>..\<close> give the
  same request, whatever the user typed.
\<close>

theorem mentions_read_only_below_root:
  assumes "\<forall>p. below (env_cwd (asm_env a)) p \<longrightarrow> read p = read' p"
  shows "assemble parse print read a turns = assemble parse print read' a turns"
proof -
  have "reads_agree (env_cwd (asm_env a)) read read'"
    using assms mentionable_below by (simp add: reads_agree_def)
  then show ?thesis by (simp add: assemble_def prepare_turns_agree)
qed

theorem mentions_read_only_below_root_witness:
  "\<not> below ''/w'' ''/etc/passwd''
   \<and> assemble (\<lambda>_. None) (\<lambda>_. []) (demo_files ''x'') demo_assembler [User ''@/etc/passwd @../etc/passwd @a'' 0]
     = assemble (\<lambda>_. None) (\<lambda>_. []) ((demo_files ''x'')(''/etc/passwd'' := Some ''secret'')) demo_assembler
         [User ''@/etc/passwd @../etc/passwd @a'' 0]"
proof -
  have no: "\<not> below ''/w'' ''/etc/passwd''"
    by (auto simp: below_def components_def is_absolute_def body_components_def body_component_def skipped_def)
  then have "\<forall>p. below (env_cwd (asm_env demo_assembler)) p \<longrightarrow>
      demo_files ''x'' p = ((demo_files ''x'')(''/etc/passwd'' := Some ''secret'')) p"
    by (auto simp: demo_assembler_def with_system_prompt_def)
  with no show ?thesis using mentions_read_only_below_root by blast
qed

text \<open>
  The expansion of mentions keeps the message: the text the user typed is what remains when the
  inserted file blocks are dropped, and a message without the mention sign is sent as it is.
\<close>

theorem mentions_only_insert:
  "subseq content (expand_mentions read root cap content)
   \<and> (\<not> contains_str ''@'' content \<longrightarrow> expand_mentions read root cap content = content)"
  using subseq_expand_mentions by (simp add: expand_mentions_def)

theorem mentions_only_insert_witness:
  "subseq ''hi'' (expand_mentions (demo_files ''x'') ''/w'' 0 ''hi'')
   \<and> expand_mentions (demo_files ''x'') ''/w'' 0 ''hi'' = ''hi''"
  using mentions_only_insert [of "''hi''" "demo_files ''x''" "''/w''" 0] by simp

text \<open>
  A message with a mention is not byte-stable. The block of the file is computed anew from the file
  system for every request, so an edit of the file during the turn rewrites a message that was already
  sent; and the block disappears from it when the next user message arrives.
\<close>

theorem mention_rewrites_prefix:
  "\<not> prefix (assemble parse print (demo_files ''x'') demo_assembler [User ''@a'' 0])
        (assemble parse print (demo_files ''y'') demo_assembler [User ''@a'' 0, Assistant ''ok'' None [] None None None])
   \<and> \<not> prefix (assemble parse print (demo_files ''x'') demo_assembler [User ''@a'' 0])
        (assemble parse print (demo_files ''x'') demo_assembler [User ''@a'' 0, User ''go on'' 1])"
proof -
  have cfg: "env_cwd (asm_env demo_assembler) = ''/w''" "asm_caps demo_assembler = \<lparr>inline_file_cap = 0, tool_result_cap = 0\<rparr>"
    by (simp_all add: demo_assembler_def with_system_prompt_def caps_unlimited_def)
  have go: "expand_mentions read ''/w'' 0 ''go on'' = ''go on''" for read by (simp add: expand_mentions_def)
  let ?x = "''@a'' @ newline @ ''```'' @ newline @ ''x'' @ newline @ ''```'' @ newline"
  let ?y = "''@a'' @ newline @ ''```'' @ newline @ ''y'' @ newline @ ''```'' @ newline"
  have short: "split_body ?x = [?x]" "split_body ?y = [?y]" "split_body ''@a'' = [''@a'']"
    by (rule split_body_short, simp add: max_string_escaped_def newline_def)+
  note message = demo_user_message [of _ _ parse print 0 "asm_system_prompt demo_assembler"]
  obtain p where p: "assemble parse print (demo_files ''x'') demo_assembler [User ''@a'' 0]
      = WSystem (asm_system_prompt demo_assembler) # WUser ?x # p"
    using message [of "[]", OF _ short(1)] by (auto simp: assemble_def prepare_turns_def cfg truncate_tool_results_def demo_mention)
  obtain q where q: "assemble parse print (demo_files ''y'') demo_assembler [User ''@a'' 0, Assistant ''ok'' None [] None None None]
      = WSystem (asm_system_prompt demo_assembler) # WUser ?y # q"
    using message [of "[Assistant ''ok'' None [] None None None]", OF _ short(2)]
    by (auto simp: assemble_def prepare_turns_def cfg truncate_tool_results_def demo_mention)
  obtain r where r: "assemble parse print (demo_files ''x'') demo_assembler [User ''@a'' 0, User ''go on'' 1]
      = WSystem (asm_system_prompt demo_assembler) # WUser ''@a'' # r"
    using message [of "[User ''go on'' 1]", OF _ short(3)]
    by (auto simp: assemble_def prepare_turns_def cfg truncate_tool_results_def go)
  show ?thesis unfolding p q r by (simp add: newline_def)
qed

end
