(* ===== verification/Client.thy ===== *)
theory Client
  imports Context_Assembly
begin

text \<open>
  \<open>crates/rc-proto/src/client.rs\<close>: the encoding of a request body with its spool on disk, the retries
  and their delays, the fallback from gzip, and the stream of events read from a response body. The
  HTTP library, the compressor, the JSON serializer, the disk and the clock are parameters. A duration
  is its number of nanoseconds.
\<close>

section \<open>Options\<close>

record 't complete_opts =
  op_max_tokens :: "nat option"
  op_temperature :: "'t option"
  op_reasoning_effort :: "string option"
  op_session_id :: "string option"

record retry_opts =
  ro_max_retries :: nat
  ro_base_delay :: nat
  ro_max_delay :: nat

definition retry_default :: retry_opts where
  "retry_default = \<lparr>ro_max_retries = 0, ro_base_delay = 200 * 10 ^ 6, ro_max_delay = 10 * 10 ^ 9\<rparr>"

definition payload_default :: payload_stats where
  "payload_default = \<lparr>json_bytes = 0, wire_bytes = 0\<rparr>"

record chat_client =
  cl_base_url :: string
  cl_api_key :: string
  cl_model :: string
  cl_retry :: retry_opts

text \<open>\<open>build\<close> is the construction of the HTTP client, which may fail.\<close>

definition client_new :: "(nat option \<Rightarrow> string option) \<Rightarrow> string \<Rightarrow> string \<Rightarrow> string \<Rightarrow> nat option \<Rightarrow> proto_error + chat_client" where
  "client_new build base_url api_key model timeout =
     (if api_key = [] then Inl PNoApiKey
      else case build timeout of
        Some e \<Rightarrow> Inl (PHttp e)
      | None \<Rightarrow> Inr \<lparr>cl_base_url = rev (dropWhile (\<lambda>c. c = CHR ''/'') (rev base_url)), cl_api_key = api_key,
          cl_model = model, cl_retry = retry_default\<rparr>)"

definition with_retry :: "retry_opts \<Rightarrow> chat_client \<Rightarrow> chat_client" where
  "with_retry r c = c\<lparr>cl_retry := r\<rparr>"

definition debug_body_preview :: nat where
  "debug_body_preview = 8 * 1024"

definition request_memory_bytes :: nat where
  "request_memory_bytes = 8 * 1024 * 1024"

definition max_session_id_len :: nat where
  "max_session_id_len = 256"

section \<open>The request body\<close>

datatype encoded_body =
    Memory (body_memory: string)
  | Spool (spool_file: string) (spool_len: nat) (spool_preview: string)

fun body_len :: "encoded_body \<Rightarrow> nat" where
  "body_len (Memory bytes) = length bytes"
| "body_len (Spool _ len _) = len"

fun body_preview :: "encoded_body \<Rightarrow> string" where
  "body_preview (Memory bytes) = bytes"
| "body_preview (Spool _ _ preview) = preview"

fun is_spooled :: "encoded_body \<Rightarrow> bool" where
  "is_spooled (Spool _ _ _) = True"
| "is_spooled _ = False"

text \<open>The bytes of the body; reopening the spool may fail.\<close>

fun request_body :: "string option \<Rightarrow> encoded_body \<Rightarrow> proto_error + string" where
  "request_body reopen (Memory bytes) = Inr bytes"
| "request_body reopen (Spool file _ _) = (case reopen of Some e \<Rightarrow> Inl (PIo e) | None \<Rightarrow> Inr file)"

text \<open>
  The disk: an error for creating the temporary file, for appending bytes to what it holds, and for
  flushing it.
\<close>

record disk =
  dk_create :: "string option"
  dk_append :: "string \<Rightarrow> string \<Rightarrow> string option"
  dk_flush :: "string option"

record spool_writer =
  sw_memory :: string
  sw_file :: "string option"
  sw_preview :: string
  sw_threshold :: nat
  sw_total :: nat

definition spool_new :: "nat \<Rightarrow> spool_writer" where
  "spool_new threshold = \<lparr>sw_memory = [], sw_file = None, sw_preview = [], sw_threshold = threshold, sw_total = 0\<rparr>"

definition spool_finish :: "disk \<Rightarrow> spool_writer \<Rightarrow> string + encoded_body" where
  "spool_finish dk w =
     (case sw_file w of
        Some file \<Rightarrow> (case dk_flush dk of Some e \<Rightarrow> Inl e | None \<Rightarrow> Inr (Spool file (sw_total w) (sw_preview w)))
      | None \<Rightarrow> Inr (Memory (sw_memory w)))"

definition write_all :: "disk \<Rightarrow> string \<Rightarrow> string \<Rightarrow> string + string" where
  "write_all dk file bytes = (case dk_append dk file bytes of Some e \<Rightarrow> Inl e | None \<Rightarrow> Inr (file @ bytes))"

definition promote :: "disk \<Rightarrow> spool_writer \<Rightarrow> string + spool_writer" where
  "promote dk w =
     (if sw_file w \<noteq> None then Inr w
      else case dk_create dk of
        Some e \<Rightarrow> Inl e
      | None \<Rightarrow> (case write_all dk [] (sw_memory w) of
            Inl e \<Rightarrow> Inl e
          | Inr file \<Rightarrow> Inr (w\<lparr>sw_memory := [], sw_file := Some file\<rparr>)))"

definition spool_write :: "disk \<Rightarrow> string \<Rightarrow> spool_writer \<Rightarrow> string + spool_writer" where
  "spool_write dk bytes w =
     (let preview_left = debug_body_preview - length (sw_preview w);
          w = w\<lparr>sw_preview := sw_preview w @ take (min (length bytes) preview_left) bytes\<rparr>;
          promoted = (if sw_file w = None \<and> sw_total w + length bytes > sw_threshold w then promote dk w else Inr w)
      in case promoted of
           Inl e \<Rightarrow> Inl e
         | Inr w \<Rightarrow>
             (case (case sw_file w of
                      Some file \<Rightarrow> (case write_all dk file bytes of Inl e \<Rightarrow> Inl e | Inr f \<Rightarrow> Inr (w\<lparr>sw_file := Some f\<rparr>))
                    | None \<Rightarrow> Inr (w\<lparr>sw_memory := sw_memory w @ bytes\<rparr>)) of
                Inl e \<Rightarrow> Inl e
              | Inr w \<Rightarrow> Inr (w\<lparr>sw_total := sw_total w + length bytes\<rparr>)))"

fun spool_write_all :: "disk \<Rightarrow> string list \<Rightarrow> spool_writer \<Rightarrow> string + spool_writer" where
  "spool_write_all dk [] w = Inr w"
| "spool_write_all dk (p # ps) w = (case spool_write dk p w of Inl e \<Rightarrow> Inl e | Inr w \<Rightarrow> spool_write_all dk ps w)"

text \<open>
  \<open>encode_body_with\<close>. \<open>serialize\<close> is \<open>serde_json\<close>: the pieces it writes and the error it stops with, if
  any; a failed write is an error of the serializer too. \<open>compress\<close> is the gzip encoder: the pieces
  it writes while it is fed, and those it writes when it is finished.
\<close>

definition encode_body_with ::
  "disk \<Rightarrow> ('r \<Rightarrow> string list \<times> string option) \<Rightarrow> (string list \<Rightarrow> string list \<times> string list) \<Rightarrow> 'r \<Rightarrow> bool \<Rightarrow>
   proto_error + (encoded_body \<times> payload_stats)" where
  "encode_body_with dk serialize compress req gzip =
     (let (pieces, err) = serialize req in
      if \<not> gzip then
        (case spool_write_all dk pieces (spool_new request_memory_bytes) of
           Inl e \<Rightarrow> Inl (PJson e)
         | Inr writer \<Rightarrow>
             (case err of
                Some e \<Rightarrow> Inl (PJson e)
              | None \<Rightarrow>
                  (let n = sw_total writer in
                   case spool_finish dk writer of
                     Inl e \<Rightarrow> Inl (PIo e)
                   | Inr body \<Rightarrow> Inr (body, \<lparr>json_bytes = n, wire_bytes = n\<rparr>))))
      else
        (let n = sum_list (map length pieces); (during, final) = compress pieces in
         case spool_write_all dk during (spool_new request_memory_bytes) of
           Inl e \<Rightarrow> Inl (PJson e)
         | Inr writer \<Rightarrow>
             (case err of
                Some e \<Rightarrow> Inl (PJson e)
              | None \<Rightarrow>
                  (case spool_write_all dk final writer of
                     Inl e \<Rightarrow> Inl (PGzip e)
                   | Inr writer \<Rightarrow>
                       (case spool_finish dk writer of
                          Inl e \<Rightarrow> Inl (PIo e)
                        | Inr body \<Rightarrow> Inr (body, \<lparr>json_bytes = n, wire_bytes = body_len body\<rparr>))))))"

text \<open>\<open>floor_char_boundary\<close> on bytes.\<close>

fun back_to_lead :: "string \<Rightarrow> nat \<Rightarrow> nat" where
  "back_to_lead bytes 0 = 0"
| "back_to_lead bytes (Suc n) = (if is_cont (bytes ! Suc n) then back_to_lead bytes n else Suc n)"

definition floor_byte_boundary :: "string \<Rightarrow> nat \<Rightarrow> nat" where
  "floor_byte_boundary bytes cap = (if length bytes \<le> cap then length bytes else back_to_lead bytes cap)"

text \<open>What \<open>log_request\<close> shows of the body when debugging is on.\<close>

definition logged_body :: "bool \<Rightarrow> encoded_body \<Rightarrow> string" where
  "logged_body full body =
     (let preview = body_preview body in
      if (full \<and> \<not> is_spooled body) \<or> body_len body \<le> debug_body_preview then from_utf8_lossy preview
      else from_utf8_lossy (take (floor_byte_boundary preview debug_body_preview) preview))"

section \<open>Sending\<close>

definition ascii_lower :: "char \<Rightarrow> char" where
  "ascii_lower c = (if 65 \<le> byte_of c \<and> byte_of c \<le> 90 then char_of (byte_of c + 32) else c)"

definition to_ascii_lowercase :: "string \<Rightarrow> string" where
  "to_ascii_lowercase s = map ascii_lower s"

definition is_transient_status_body :: "nat \<Rightarrow> string \<Rightarrow> bool" where
  "is_transient_status_body status body =
     (if status \<in> {429, 500, 502, 503, 504} then True
      else if status \<noteq> 404 then False
      else let body = to_ascii_lowercase body in
        contains_str ''no router available'' body \<or> contains_str ''no available router'' body)"

definition gzip_is_unsupported :: "proto_error \<Rightarrow> bool" where
  "gzip_is_unsupported error =
     (case error of
        PStatus status body \<Rightarrow>
          if status = 415 then True
          else if status \<noteq> 400 then False
          else let body = to_ascii_lowercase body in
            contains_str ''content-encoding'' body \<or> contains_str ''gzip'' body \<or> contains_str ''compressed'' body
            \<or> contains_str ''invalid utf-8'' body \<or> contains_str ''expected value at line 1 column 1'' body
      | _ \<Rightarrow> False)"

definition is_ascii_alphanumeric :: "char \<Rightarrow> bool" where
  "is_ascii_alphanumeric c \<longleftrightarrow>
     48 \<le> byte_of c \<and> byte_of c \<le> 57 \<or> 65 \<le> byte_of c \<and> byte_of c \<le> 90 \<or> 97 \<le> byte_of c \<and> byte_of c \<le> 122"

definition session_id_ok :: "string \<Rightarrow> bool" where
  "session_id_ok sid \<longleftrightarrow>
     sid \<noteq> [] \<and> length sid \<le> max_session_id_len
     \<and> list_all (\<lambda>c. is_ascii_alphanumeric c \<or> c \<in> {CHR ''-'', CHR ''_'', CHR ''.'', CHR '':''}) sid"

text \<open>\<open>str::parse::<u64>\<close>: digits after an optional plus sign.\<close>

definition is_digit :: "char \<Rightarrow> bool" where
  "is_digit c \<longleftrightarrow> 48 \<le> byte_of c \<and> byte_of c \<le> 57"

definition parse_u64 :: "string \<Rightarrow> nat option" where
  "parse_u64 s =
     (let ds = (if prefix ''+'' s then tl s else s);
          v = foldl (\<lambda>n c. n * 10 + (byte_of c - 48)) 0 ds
      in if ds \<noteq> [] \<and> list_all is_digit ds \<and> v < 2 ^ 64 then Some v else None)"

datatype transport_error = TransportError (te_connect: bool) (te_timeout: bool) (te_text: string)

definition is_transient_transport :: "transport_error \<Rightarrow> bool" where
  "is_transient_transport e \<longleftrightarrow> te_connect e \<and> \<not> te_timeout e"

text \<open>
  A response: its status, the text of its \<open>Retry-After\<close> header if there is one that is text, what
  \<open>text()\<close> gives, and the polls of its body.
\<close>

record 'b response =
  rs_status :: nat
  rs_retry_after :: "string option"
  rs_text :: "string option"
  rs_body :: 'b

definition status_success :: "nat \<Rightarrow> bool" where
  "status_success status \<longleftrightarrow> 200 \<le> status \<and> status < 300"

record post =
  po_url :: string
  po_headers :: "(string \<times> string) list"
  po_body :: string

text \<open>The world outside the client; \<open>hv_send\<close> is one HTTP exchange.\<close>

record ('w, 'b) http_env =
  hv_send :: "post \<Rightarrow> 'w \<Rightarrow> (transport_error + 'b response) \<times> 'w"
  hv_clock :: "'w \<Rightarrow> u64"
  hv_reopen :: "'w \<Rightarrow> string option"
  hv_sleep :: "nat \<Rightarrow> 'w \<Rightarrow> 'w"

text \<open>
  The client's own state: whether bodies are compressed, and the process-wide sequence of the jitter;
  with it the requests sent and the delays slept.
\<close>

record 'w net =
  nt_world :: 'w
  nt_gzip :: bool
  nt_sequence :: u64
  nt_posts :: "post list"
  nt_slept :: "nat list"

definition duration_max :: nat where
  "duration_max = (2 ^ 64 - 1) * 10 ^ 9 + 999999999"

definition u64_max :: nat where
  "u64_max = 2 ^ 64 - 1"

definition mix64 :: "u64 \<Rightarrow> u64 \<Rightarrow> u64" where
  "mix64 epoch sequence =
     (let m = xor epoch (sequence * 0x9e3779b97f4a7c15);
          m = xor m (drop_bit 30 m);
          m = m * 0xbf58476d1ce4e5b9;
          m = xor m (drop_bit 27 m);
          m = m * 0x94d049bb133111eb
      in xor m (drop_bit 31 m))"

definition backoff :: "retry_opts \<Rightarrow> u64 \<Rightarrow> nat \<Rightarrow> 'w net \<Rightarrow> nat \<times> 'w net" where
  "backoff ro epoch attempt st =
     (let factor = 2 ^ min attempt 20;
          ceiling = min (min (ro_base_delay ro * factor) duration_max) (ro_max_delay ro);
          nanos = min ceiling u64_max
      in if nanos < 4 then (ceiling, st)
         else
           let spread = nanos div 4; low = nanos - spread; sequence = nt_sequence st;
               st = st\<lparr>nt_sequence := sequence + 1\<rparr>
           in (low + unat (mix64 epoch sequence) mod (spread + 1), st))"

definition retry_after :: "retry_opts \<Rightarrow> 'b response \<Rightarrow> nat option" where
  "retry_after ro resp =
     (case Option.bind (rs_retry_after resp) parse_u64 of
        Some secs \<Rightarrow> Some (min (secs * 10 ^ 9) (ro_max_delay ro))
      | None \<Rightarrow> None)"

definition sleep_for :: "('w, 'b) http_env \<Rightarrow> nat \<Rightarrow> 'w net \<Rightarrow> 'w net" where
  "sleep_for env d st = st\<lparr>nt_slept := nt_slept st @ [d], nt_world := hv_sleep env d (nt_world st)\<rparr>"

definition post_headers :: "chat_client \<Rightarrow> encoded_body \<Rightarrow> string option \<Rightarrow> bool \<Rightarrow> (string \<times> string) list" where
  "post_headers cl body session_id gzip =
     [(''authorization'', ''Bearer '' @ cl_api_key cl), (''content-type'', ''application/json''),
      (''content-length'', show_nat (body_len body)), (''x-subconscious-client'', ''subconscious_code'')]
     @ (case session_id of Some sid \<Rightarrow> [(''x-subconscious-code-session-id'', sid)] | None \<Rightarrow> [])
     @ (if gzip then [(''content-encoding'', ''gzip'')] else [])"

definition send_post :: "('w, 'b) http_env \<Rightarrow> post \<Rightarrow> 'w net \<Rightarrow> (transport_error + 'b response) \<times> 'w net" where
  "send_post env p st =
     (let (r, w) = hv_send env p (nt_world st) in (r, st\<lparr>nt_world := w, nt_posts := nt_posts st @ [p]\<rparr>))"

function attempts ::
  "('w, 'b) http_env \<Rightarrow> chat_client \<Rightarrow> string \<Rightarrow> encoded_body \<Rightarrow> string option \<Rightarrow> bool \<Rightarrow> nat \<Rightarrow> 'w net \<Rightarrow>
   ((proto_error \<times> nat) + ('b response \<times> nat)) \<times> 'w net" where
  "attempts env cl url body session_id gzip attempt st =
     (case request_body (hv_reopen env (nt_world st)) body of
        Inl e \<Rightarrow> (Inl (e, attempt), st)
      | Inr bytes \<Rightarrow>
          (let (r, st) = send_post env \<lparr>po_url = url, po_headers = post_headers cl body session_id gzip, po_body = bytes\<rparr> st in
           case r of
             Inl e \<Rightarrow>
               if is_transient_transport e \<and> attempt < ro_max_retries (cl_retry cl) then
                 (let (d, st) = backoff (cl_retry cl) (hv_clock env (nt_world st)) attempt st
                  in attempts env cl url body session_id gzip (attempt + 1) (sleep_for env d st))
               else (Inl (PHttp (te_text e), attempt), st)
           | Inr resp \<Rightarrow>
               if status_success (rs_status resp) then (Inr (resp, attempt), st)
               else
                 (let text = unwrap_or [] (rs_text resp) in
                  if is_transient_status_body (rs_status resp) text \<and> attempt < ro_max_retries (cl_retry cl) then
                    (let (d, st) = (case retry_after (cl_retry cl) resp of
                           Some d \<Rightarrow> (d, st)
                         | None \<Rightarrow> backoff (cl_retry cl) (hv_clock env (nt_world st)) attempt st)
                     in attempts env cl url body session_id gzip (attempt + 1) (sleep_for env d st))
                  else (Inl (PStatus (rs_status resp) text, attempt), st))))"
  by pat_completeness auto
termination
  by (relation "measure (\<lambda>(env, cl, url, body, sid, gz, attempt, st). ro_max_retries (cl_retry cl) - attempt)") auto

declare attempts.simps [simp del]

definition send_with_retry ::
  "('w, 'b) http_env \<Rightarrow> chat_client \<Rightarrow> string \<Rightarrow> encoded_body \<Rightarrow> string option \<Rightarrow> bool \<Rightarrow> 'w net \<Rightarrow>
   ((proto_error \<times> nat) + ('b response \<times> nat)) \<times> 'w net" where
  "send_with_retry env cl url body session_id gzip st =
     (if (case session_id of Some sid \<Rightarrow> \<not> session_id_ok sid | None \<Rightarrow> False) then (Inl (PInvalidSessionId, 0), st)
      else attempts env cl url body session_id gzip 0 st)"

text \<open>The encoder of the client: everything \<^const>\<open>encode_body_with\<close> needs besides the request.\<close>

definition encode_and_send ::
  "('w, 'b) http_env \<Rightarrow> chat_client \<Rightarrow> (bool \<Rightarrow> proto_error + (encoded_body \<times> payload_stats)) \<Rightarrow> string \<Rightarrow> string option \<Rightarrow>
   'w net \<Rightarrow> ((proto_error \<times> nat \<times> payload_stats) + ('b response \<times> nat \<times> payload_stats)) \<times> 'w net" where
  "encode_and_send env cl encode url session_id st =
     (let gzip = nt_gzip st in
      case encode gzip of
        Inl e \<Rightarrow> (Inl (e, 0, payload_default), st)
      | Inr (body, payload) \<Rightarrow>
          (let (r, st) = send_with_retry env cl url body session_id gzip st in
           case r of
             Inr (resp, retries) \<Rightarrow> (Inr (resp, retries, payload), st)
           | Inl (error, retries) \<Rightarrow>
               if gzip \<and> gzip_is_unsupported error then
                 (let st = st\<lparr>nt_gzip := False\<rparr> in
                  case encode False of
                    Inl e \<Rightarrow> (Inl (e, retries, payload_default), st)
                  | Inr (raw_body, raw_payload) \<Rightarrow>
                      (let (r, st) = send_with_retry env cl url raw_body session_id False st in
                       case r of
                         Inr (resp, raw_retries) \<Rightarrow> (Inr (resp, sat_add_u32 (sat_add_u32 retries 1) raw_retries, raw_payload), st)
                       | Inl (e, raw_retries) \<Rightarrow> (Inl (e, sat_add_u32 (sat_add_u32 retries 1) raw_retries, raw_payload), st)))
               else (Inl (error, retries, payload), st)))"

section \<open>Requests\<close>

record 't chat_request =
  rq_model :: string
  rq_messages :: "wire_message list"
  rq_max_tokens :: "nat option"
  rq_temperature :: "'t option"
  rq_reasoning_effort :: "string option"
  rq_stream :: bool
  rq_tools :: "tool_definition list"
  rq_tool_choice_auto :: bool
  rq_parallel_tool_calls :: "bool option"
  rq_include_usage :: bool

text \<open>The metadata of the delta transport is the request without its messages.\<close>

record 't chat_metadata =
  md_model :: string
  md_max_tokens :: "nat option"
  md_temperature :: "'t option"
  md_reasoning_effort :: "string option"
  md_stream :: bool
  md_tools :: "tool_definition list"
  md_tool_choice_auto :: bool
  md_parallel_tool_calls :: "bool option"
  md_include_usage :: bool

definition complete_request :: "chat_client \<Rightarrow> wire_message list \<Rightarrow> 't complete_opts \<Rightarrow> 't chat_request" where
  "complete_request cl messages opts =
     \<lparr>rq_model = cl_model cl, rq_messages = messages, rq_max_tokens = op_max_tokens opts,
      rq_temperature = op_temperature opts, rq_reasoning_effort = op_reasoning_effort opts, rq_stream = False,
      rq_tools = [], rq_tool_choice_auto = False, rq_parallel_tool_calls = None, rq_include_usage = False\<rparr>"

definition stream_request :: "chat_client \<Rightarrow> wire_message list \<Rightarrow> 't complete_opts \<Rightarrow> tool_definition list \<Rightarrow> 't chat_request" where
  "stream_request cl messages opts tools =
     \<lparr>rq_model = cl_model cl, rq_messages = messages, rq_max_tokens = op_max_tokens opts,
      rq_temperature = op_temperature opts, rq_reasoning_effort = op_reasoning_effort opts, rq_stream = True,
      rq_tools = tools, rq_tool_choice_auto = (tools \<noteq> []),
      rq_parallel_tool_calls = (if tools = [] then None else Some True), rq_include_usage = True\<rparr>"

definition request_metadata :: "'t chat_request \<Rightarrow> 't chat_metadata" where
  "request_metadata r =
     \<lparr>md_model = rq_model r, md_max_tokens = rq_max_tokens r, md_temperature = rq_temperature r,
      md_reasoning_effort = rq_reasoning_effort r, md_stream = rq_stream r, md_tools = rq_tools r,
      md_tool_choice_auto = rq_tool_choice_auto r, md_parallel_tool_calls = rq_parallel_tool_calls r,
      md_include_usage = rq_include_usage r\<rparr>"

text \<open>
  \<open>send_model_request\<close>. \<open>dlr\<close> is the delta transport, if one is configured: an error, a response, or
  nothing when the ordinary path is to be taken.
\<close>

type_synonym ('t, 'w, 'b) dlr_transport =
  "string option \<Rightarrow> wire_message list \<Rightarrow> 't chat_metadata \<Rightarrow> string \<Rightarrow> 'w net \<Rightarrow>
   (proto_error + ('b response \<times> payload_stats) option) \<times> 'w net"

definition send_model_request ::
  "('w, 'b) http_env \<Rightarrow> chat_client \<Rightarrow> ('t, 'w, 'b) dlr_transport option \<Rightarrow> ('t chat_metadata \<Rightarrow> string option) \<Rightarrow>
   ('t chat_request \<Rightarrow> bool \<Rightarrow> proto_error + (encoded_body \<times> payload_stats)) \<Rightarrow> 't chat_request \<Rightarrow> string option \<Rightarrow>
   'w net \<Rightarrow> ((proto_error \<times> nat \<times> payload_stats) + ('b response \<times> nat \<times> payload_stats)) \<times> 'w net" where
  "send_model_request env cl dlr to_value encode req session_id st =
     (let plain = (\<lambda>st. encode_and_send env cl (encode req) (cl_base_url cl @ ''/chat/completions'') session_id st) in
      case dlr of
        None \<Rightarrow> plain st
      | Some send \<Rightarrow>
          (case to_value (request_metadata req) of
             Some e \<Rightarrow> (Inl (PJson e, 0, payload_default), st)
           | None \<Rightarrow>
               (let (r, st) = send session_id (rq_messages req) (request_metadata req) (cl_api_key cl) st in
                case r of
                  Inl e \<Rightarrow> (Inl (e, 0, payload_default), st)
                | Inr None \<Rightarrow> plain st
                | Inr (Some (resp, payload)) \<Rightarrow>
                    if status_success (rs_status resp) then (Inr (resp, 0, payload), st)
                    else (Inl (PStatus (rs_status resp) (unwrap_or [] (rs_text resp)), 0, payload), st))))"

text \<open>\<open>complete\<close>, the round trip without streaming; \<open>read_json\<close> is \<open>Response::json\<close>.\<close>

definition client_complete ::
  "('w, 'b) http_env \<Rightarrow> chat_client \<Rightarrow> ('t, 'w, 'b) dlr_transport option \<Rightarrow> ('t chat_metadata \<Rightarrow> string option) \<Rightarrow>
   ('t chat_request \<Rightarrow> bool \<Rightarrow> proto_error + (encoded_body \<times> payload_stats)) \<Rightarrow> ('b response \<Rightarrow> string + 'c) \<Rightarrow> ('c \<Rightarrow> 'd list) \<Rightarrow>
   wire_message list \<Rightarrow> 't complete_opts \<Rightarrow> 'w net \<Rightarrow> (proto_error + 'c) \<times> 'w net" where
  "client_complete env cl dlr to_value encode read_json choices messages opts st =
     (let (r, st) = send_model_request env cl dlr to_value encode (complete_request cl messages opts) (op_session_id opts) st in
      case r of
        Inl (e, _, _) \<Rightarrow> (Inl e, st)
      | Inr (resp, _, _) \<Rightarrow>
          (case read_json resp of
             Inl e \<Rightarrow> (Inl (PHttp e), st)
           | Inr parsed \<Rightarrow> if choices parsed = [] then (Inl PEmptyChoices, st) else (Inr parsed, st)))"

section \<open>The stream of events\<close>

text \<open>The answers of successive polls of the response body; after the last of them it stays pending.\<close>

datatype body_poll = BodyPending | BodyEnd | BodyErr string | BodyBytes string

datatype item_poll = PollPending | PollNone | PollItem "proto_error + stream_event"

record event_stream =
  es_body :: "body_poll list"
  es_dec :: sse_decoder
  es_fuser :: stream_fuser
  es_pending :: "stream_event list"
  es_done :: bool

definition event_stream_new :: "body_poll list \<Rightarrow> event_stream" where
  "event_stream_new body = \<lparr>es_body = body, es_dec = sse_new, es_fuser = fuser_new, es_pending = [], es_done = False\<rparr>"

text \<open>The loop over decoded chunks: it stops at the first error.\<close>

fun apply_chunks :: "(string \<Rightarrow> string + json) \<Rightarrow> (proto_error + chunk) list \<Rightarrow> event_stream \<Rightarrow> proto_error option \<times> event_stream" where
  "apply_chunks parse [] es = (None, es)"
| "apply_chunks parse (Inl e # cs) es = (Some e, es)"
| "apply_chunks parse (Inr c # cs) es =
     (let (evs, f) = fuser_apply parse c (es_fuser es)
      in apply_chunks parse cs (es\<lparr>es_fuser := f, es_pending := es_pending es @ evs\<rparr>))"

lemma apply_chunks_body [simp]: "apply_chunks parse cs es = (r, es') \<Longrightarrow> es_body es' = es_body es"
  by (induction parse cs es rule: apply_chunks.induct) (auto split: prod.splits)

function poll_next :: "(string \<Rightarrow> string + chunk) \<Rightarrow> (string \<Rightarrow> string + json) \<Rightarrow> event_stream \<Rightarrow> item_poll \<times> event_stream" where
  "poll_next from_str parse es =
     (case es_pending es of
        ev # evs \<Rightarrow> (PollItem (Inr ev), es\<lparr>es_pending := evs\<rparr>)
      | [] \<Rightarrow>
          if es_done es then (PollNone, es)
          else case es_body es of
            [] \<Rightarrow> (PollPending, es)
          | BodyPending # body \<Rightarrow> (PollPending, es\<lparr>es_body := body\<rparr>)
          | BodyErr e # body \<Rightarrow> (PollItem (Inl (PHttp e)), es\<lparr>es_body := body, es_done := True\<rparr>)
          | BodyEnd # body \<Rightarrow>
              (let (chunks, dec) = sse_finish from_str (es_dec es);
                   (err, es) = apply_chunks parse chunks (es\<lparr>es_body := body, es_dec := dec\<rparr>)
               in case err of
                    Some e \<Rightarrow> (PollItem (Inl e), es\<lparr>es_done := True\<rparr>)
                  | None \<Rightarrow>
                      (let (evs, f) = fuser_finish parse (es_fuser es)
                       in poll_next from_str parse (es\<lparr>es_fuser := f, es_pending := es_pending es @ evs, es_done := True\<rparr>)))
          | BodyBytes bytes # body \<Rightarrow>
              (let had_pending = es_pending es \<noteq> [];
                   (chunks, dec) = sse_feed from_str bytes (es_dec es);
                   (err, es) = apply_chunks parse chunks (es\<lparr>es_body := body, es_dec := dec\<rparr>)
               in case err of
                    Some e \<Rightarrow> (PollItem (Inl e), es\<lparr>es_done := True\<rparr>)
                  | None \<Rightarrow>
                      if bytes \<noteq> [] \<and> \<not> had_pending \<and> es_pending es = [] then (PollItem (Inr TransportActivity), es)
                      else poll_next from_str parse es))"
  by pat_completeness auto
termination
  by (relation "measure (\<lambda>(_, _, es). length (es_body es))") (auto dest!: apply_chunks_body [OF sym])

declare poll_next.simps [simp del]

section \<open>What a stream delivers\<close>

text \<open>One poll, by what the stream holds.\<close>

lemma poll_queue: "es_pending es = ev # evs \<Longrightarrow> poll_next from_str parse es = (PollItem (Inr ev), es\<lparr>es_pending := evs\<rparr>)"
  by (subst poll_next.simps) simp

lemma poll_over: "es_pending es = [] \<Longrightarrow> es_done es \<Longrightarrow> poll_next from_str parse es = (PollNone, es)"
  by (subst poll_next.simps) simp

lemma poll_quiet:
  "es_pending es = [] \<Longrightarrow> \<not> es_done es \<Longrightarrow> es_body es = [] \<Longrightarrow> poll_next from_str parse es = (PollPending, es)"
  "es_pending es = [] \<Longrightarrow> \<not> es_done es \<Longrightarrow> es_body es = BodyPending # body \<Longrightarrow>
     poll_next from_str parse es = (PollPending, es\<lparr>es_body := body\<rparr>)"
  "es_pending es = [] \<Longrightarrow> \<not> es_done es \<Longrightarrow> es_body es = BodyErr e # body \<Longrightarrow>
     poll_next from_str parse es = (PollItem (Inl (PHttp e)), es\<lparr>es_body := body, es_done := True\<rparr>)"
  by (subst poll_next.simps, simp)+

lemma poll_end:
  assumes "es_pending es = []" and "\<not> es_done es" and "es_body es = BodyEnd # body"
    and "sse_finish from_str (es_dec es) = (chunks, dec)"
    and "apply_chunks parse chunks (es\<lparr>es_body := body, es_dec := dec\<rparr>) = (err, es1)"
    and "fuser_finish parse (es_fuser es1) = (evs, f)"
  shows "poll_next from_str parse es =
    (case err of Some e \<Rightarrow> (PollItem (Inl e), es1\<lparr>es_done := True\<rparr>)
     | None \<Rightarrow> poll_next from_str parse (es1\<lparr>es_fuser := f, es_pending := es_pending es1 @ evs, es_done := True\<rparr>))"
  using assms by (subst poll_next.simps) (simp split: option.split)

lemma poll_bytes:
  assumes "es_pending es = []" and "\<not> es_done es" and "es_body es = BodyBytes bytes # body"
    and "sse_feed from_str bytes (es_dec es) = (chunks, dec)"
    and "apply_chunks parse chunks (es\<lparr>es_body := body, es_dec := dec\<rparr>) = (err, es1)"
  shows "poll_next from_str parse es =
    (case err of Some e \<Rightarrow> (PollItem (Inl e), es1\<lparr>es_done := True\<rparr>)
     | None \<Rightarrow> if bytes \<noteq> [] \<and> es_pending es1 = [] then (PollItem (Inr TransportActivity), es1)
               else poll_next from_str parse es1)"
  using assms by (subst poll_next.simps) (simp split: option.split)

text \<open>Polling takes answers from the body or events from the queue.\<close>

lemma poll_next_body_le: "poll_next from_str parse es = (r, es') \<Longrightarrow> length (es_body es') \<le> length (es_body es)"
proof (induction "length (es_body es)" arbitrary: es rule: less_induct)
  case less
  show ?case
  proof (cases "es_pending es = [] \<and> \<not> es_done es \<and> es_body es \<noteq> []")
    case False
    then show ?thesis using less(2) by (subst (asm) poll_next.simps) (auto split: list.splits if_splits)
  next
    case True
    then obtain a body where b: "es_body es = a # body" by (cases "es_body es") auto
    show ?thesis
    proof (cases a)
      case BodyEnd
      obtain cs dec where f: "sse_finish from_str (es_dec es) = (cs, dec)" by fastforce
      obtain err es1 where ap: "apply_chunks parse cs (es\<lparr>es_body := body, es_dec := dec\<rparr>) = (err, es1)" by fastforce
      obtain evs fu where ff: "fuser_finish parse (es_fuser es1) = (evs, fu)" by fastforce
      have "es_body es1 = body" using apply_chunks_body [OF ap] by simp
      then show ?thesis
        using less(1) [of "es1\<lparr>es_fuser := fu, es_pending := es_pending es1 @ evs, es_done := True\<rparr>"] less(2)
          poll_end [OF _ _ _ f ap ff] True b BodyEnd by (cases err) auto
    next
      case (BodyBytes bytes)
      obtain cs dec where f: "sse_feed from_str bytes (es_dec es) = (cs, dec)" by fastforce
      obtain err es1 where ap: "apply_chunks parse cs (es\<lparr>es_body := body, es_dec := dec\<rparr>) = (err, es1)" by fastforce
      have "es_body es1 = body" using apply_chunks_body [OF ap] by simp
      then show ?thesis
        using less(1) [of es1] less(2) poll_bytes [OF _ _ _ f ap] True b BodyBytes by (cases err) (auto split: if_splits)
    qed (use less(2) True b poll_quiet in auto)
  qed
qed

lemma poll_next_decreases:
  assumes "poll_next from_str parse es = (r, es')" and "r \<noteq> PollNone" and "es_body es \<noteq> [] \<or> r \<noteq> PollPending"
  shows "(es', es) \<in> measures [\<lambda>es. length (es_body es), \<lambda>es. length (es_pending es)]"
proof (cases "es_pending es")
  case (Cons ev evs)
  then show ?thesis using assms(1) by (auto simp: poll_queue)
next
  case Nil
  have live: "\<not> es_done es" using poll_over [OF Nil, of from_str parse] assms by auto
  have ne: "es_body es \<noteq> []" using poll_quiet(1) [OF Nil live, of from_str parse] assms by auto
  then obtain a body where b: "es_body es = a # body" by (cases "es_body es") auto
  have "length (es_body es') \<le> length body"
  proof (cases a)
    case BodyEnd
    obtain cs dec where f: "sse_finish from_str (es_dec es) = (cs, dec)" by fastforce
    obtain err es1 where ap: "apply_chunks parse cs (es\<lparr>es_body := body, es_dec := dec\<rparr>) = (err, es1)" by fastforce
    obtain evs fu where ff: "fuser_finish parse (es_fuser es1) = (evs, fu)" by fastforce
    have "es_body es1 = body" using apply_chunks_body [OF ap] by simp
    then show ?thesis
      using poll_end [OF Nil live _ f ap ff] poll_next_body_le assms(1) b BodyEnd by (cases err) fastforce+
  next
    case (BodyBytes bytes)
    obtain cs dec where f: "sse_feed from_str bytes (es_dec es) = (cs, dec)" by fastforce
    obtain err es1 where ap: "apply_chunks parse cs (es\<lparr>es_body := body, es_dec := dec\<rparr>) = (err, es1)" by fastforce
    have "es_body es1 = body" using apply_chunks_body [OF ap] by simp
    then show ?thesis
      using poll_bytes [OF Nil live _ f ap] poll_next_body_le [of from_str parse es1 r es'] assms(1) b BodyBytes
      by (cases err) (auto split: if_splits)
  qed (use assms(1) Nil live b poll_quiet in auto)
  then show ?thesis using b by simp
qed

text \<open>Everything a consumer gets that polls to the end.\<close>

function stream_items ::
  "(string \<Rightarrow> string + chunk) \<Rightarrow> (string \<Rightarrow> string + json) \<Rightarrow> event_stream \<Rightarrow> (proto_error + stream_event) list" where
  "stream_items from_str parse es =
     (case poll_next from_str parse es of
        (PollItem i, es') \<Rightarrow> i # stream_items from_str parse es'
      | (PollPending, es') \<Rightarrow> if es_body es = [] then [] else stream_items from_str parse es'
      | (PollNone, es') \<Rightarrow> [])"
  by pat_completeness auto
termination
  by (relation "inv_image (measures [\<lambda>es. length (es_body es), \<lambda>es. length (es_pending es)]) (\<lambda>(_, _, es). es)")
    (auto simp: in_inv_image simp del: in_measures dest!: poll_next_decreases [OF sym])

declare stream_items.simps [simp del]

fun fuse_all :: "(string \<Rightarrow> string + json) \<Rightarrow> chunk list \<Rightarrow> stream_fuser \<Rightarrow> stream_event list \<times> stream_fuser" where
  "fuse_all parse [] f = ([], f)"
| "fuse_all parse (c # cs) f =
     (let (evs, f) = fuser_apply parse c f; (more, f) = fuse_all parse cs f in (evs @ more, f))"

text \<open>The reference: decode the whole body, then fuse all its chunks.\<close>

definition whole_body_events :: "(string \<Rightarrow> string + chunk) \<Rightarrow> (string \<Rightarrow> string + json) \<Rightarrow> string \<Rightarrow> stream_event list" where
  "whole_body_events from_str parse bytes =
     (let (chunks, d) = sse_feed from_str bytes sse_new; (rest, _) = sse_finish from_str d;
          (evs, f) = fuse_all parse (map projr (chunks @ rest)) fuser_new
      in evs @ fst (fuser_finish parse f))"

lemma fuse_all_append:
  "fuse_all parse (as @ bs) f = (fst (fuse_all parse as f) @ fst (fuse_all parse bs (snd (fuse_all parse as f))),
     snd (fuse_all parse bs (snd (fuse_all parse as f))))"
  by (induction as arbitrary: f) (simp_all add: case_prod_beta Let_def)

lemma apply_chunks_ok:
  "apply_chunks parse (map Inr cs) es =
     (None, es\<lparr>es_fuser := snd (fuse_all parse cs (es_fuser es)), es_pending := es_pending es @ fst (fuse_all parse cs (es_fuser es))\<rparr>)"
  by (induction cs arbitrary: es) (simp_all add: case_prod_beta Let_def)

lemma apply_chunks_err:
  "apply_chunks parse (map Inr cs @ Inl e # rest) es =
     (Some e, es\<lparr>es_fuser := snd (fuse_all parse cs (es_fuser es)), es_pending := es_pending es @ fst (fuse_all parse cs (es_fuser es))\<rparr>)"
  by (induction cs arbitrary: es) (simp_all add: case_prod_beta Let_def)

lemma items_queue: "stream_items from_str parse es = map Inr (es_pending es) @ stream_items from_str parse (es\<lparr>es_pending := []\<rparr>)"
proof (induction "es_pending es" arbitrary: es)
  case Nil
  then show ?case by (cases es) simp
next
  case (Cons ev evs)
  have "stream_items from_str parse es = Inr ev # stream_items from_str parse (es\<lparr>es_pending := evs\<rparr>)"
    by (subst stream_items.simps) (simp add: poll_queue [OF Cons(2) [symmetric]])
  then show ?case using Cons(1) [of "es\<lparr>es_pending := evs\<rparr>"] Cons(2) [symmetric] by simp
qed

lemma items_poll:
  assumes "poll_next from_str parse es = poll_next from_str parse es'" and "es_body es \<noteq> []"
  shows "stream_items from_str parse es = stream_items from_str parse es'"
proof (cases "poll_next from_str parse es' = (PollPending, es')")
  case True
  then show ?thesis using assms by (subst stream_items.simps) simp
next
  case False
  then have "es_body es' \<noteq> []" if "fst (poll_next from_str parse es') = PollPending"
    using that by (cases "es_pending es'"; cases "es_done es'") (auto simp: poll_queue poll_over poll_quiet(1))
  then show ?thesis
    using assms by (subst (1 2) stream_items.simps) (auto split: prod.split item_poll.split)
qed

lemma items_over: "es_done es \<Longrightarrow> stream_items from_str parse es = map Inr (es_pending es)"
proof -
  assume "es_done es"
  then have "stream_items from_str parse (es\<lparr>es_pending := []\<rparr>) = []"
    by (subst stream_items.simps) (simp add: poll_over)
  then show ?thesis using items_queue [of from_str parse es] by simp
qed

lemma no_activity_choices: "TransportActivity \<notin> set (fst (choices_events parse cs f))"
proof (induction cs arbitrary: f)
  case (Cons c cs)
  have acc: "TransportActivity \<noteq> accumulated_event a" for a by (cases a) simp_all
  have "TransportActivity \<notin> set (fst (choice_events parse c f))" 
    by (auto simp: choice_events_def flush_def progress_event_def acc Let_def split: option.splits prod.splits if_splits)
  then show ?case using Cons by (auto simp: case_prod_beta)
qed simp

lemma no_activity: "TransportActivity \<notin> set (fst (fuse_all parse cs f))" "TransportActivity \<notin> set (fst (fuser_finish parse f))"
proof -
  have acc: "TransportActivity \<noteq> accumulated_event a" for a by (cases a) simp_all
  show "TransportActivity \<notin> set (fst (fuser_finish parse f))" by (auto simp: fuser_finish_def flush_def acc)
  have one: "TransportActivity \<notin> set (fst (fuser_apply parse c f))" for c f
    using no_activity_choices [of parse "ch_choices c" f] by (auto simp: fuser_apply_def case_prod_beta split: option.splits)
  show "TransportActivity \<notin> set (fst (fuse_all parse cs f))"
    by (induction cs arbitrary: f) (auto simp: case_prod_beta one)
qed

fun frames :: "body_poll \<Rightarrow> string list" where
  "frames (BodyBytes bytes) = [bytes]"
| "frames _ = []"

definition body_flows :: "body_poll list \<Rightarrow> bool" where
  "body_flows polls \<longleftrightarrow> list_all (\<lambda>p. case p of BodyPending \<Rightarrow> True | BodyBytes _ \<Rightarrow> True | _ \<Rightarrow> False) polls"

abbreviation visible :: "(proto_error + stream_event) list \<Rightarrow> (proto_error + stream_event) list" where
  "visible \<equiv> filter (\<lambda>i. i \<noteq> Inr TransportActivity)"

lemma visible_events: "TransportActivity \<notin> set evs \<Longrightarrow> visible (map Inr evs) = map Inr evs"
  by (auto simp: filter_id_conv)

lemma items_bytes:
  assumes "es_pending es = []" and "\<not> es_done es" and "es_body es = BodyBytes bytes # body"
    and "sse_feed from_str bytes (es_dec es) = (map Inr cs, dec)" and "fuse_all parse cs (es_fuser es) = (evs, f)"
  shows "visible (stream_items from_str parse es) =
    map Inr evs @ visible (stream_items from_str parse (es\<lparr>es_body := body, es_dec := dec, es_fuser := f\<rparr>))"
proof -
  define es1 where "es1 = es\<lparr>es_body := body, es_dec := dec, es_fuser := f, es_pending := evs\<rparr>"
  have "apply_chunks parse (map Inr cs) (es\<lparr>es_body := body, es_dec := dec\<rparr>) = (None, es1)"
    using assms(1, 5) by (simp add: apply_chunks_ok es1_def)
  note poll = poll_bytes [OF assms(1 - 4) this]
  have "visible (stream_items from_str parse es) = visible (stream_items from_str parse es1)"
  proof (cases "bytes \<noteq> [] \<and> es_pending es1 = []")
    case True
    then show ?thesis by (subst stream_items.simps) (simp add: poll)
  next
    case False
    then show ?thesis using items_poll [of from_str parse es es1] poll assms(3) by auto
  qed
  moreover have "visible (map Inr evs) = map Inr evs"
    using no_activity(1) [of parse cs "es_fuser es"] assms(5) by (intro visible_events) simp
  moreover have "es1\<lparr>es_pending := []\<rparr> = es\<lparr>es_body := body, es_dec := dec, es_fuser := f\<rparr>"
    using assms(1) by (simp add: es1_def)
  ultimately show ?thesis using items_queue [of from_str parse es1] by (simp add: es1_def)
qed

lemma items_end:
  assumes "es_pending es = []" and "\<not> es_done es" and "es_body es = BodyEnd # body"
    and "sse_finish from_str (es_dec es) = (map Inr cs, dec)" and "fuse_all parse cs (es_fuser es) = (evs, f)"
  shows "visible (stream_items from_str parse es) = map Inr (evs @ fst (fuser_finish parse f))"
proof -
  obtain last_evs f' where fin: "fuser_finish parse f = (last_evs, f')" by fastforce
  define es1 where "es1 = es\<lparr>es_body := body, es_dec := dec, es_fuser := f, es_pending := evs\<rparr>"
  have ap: "apply_chunks parse (map Inr cs) (es\<lparr>es_body := body, es_dec := dec\<rparr>) = (None, es1)"
    using assms(1, 5) by (simp add: apply_chunks_ok es1_def)
  define es2 where "es2 = es1\<lparr>es_fuser := f', es_pending := es_pending es1 @ last_evs, es_done := True\<rparr>"
  have "poll_next from_str parse es = poll_next from_str parse es2"
    using poll_end [OF assms(1 - 4) ap, of last_evs f'] fin by (simp add: es1_def es2_def)
  then have "stream_items from_str parse es = map Inr (evs @ last_evs)"
    using items_poll assms(3) items_over [of es2] by (simp add: es1_def es2_def)
  moreover have "TransportActivity \<notin> set (evs @ last_evs)"
    using no_activity [of parse] assms(5) fin by (metis Un_iff fst_conv set_append)
  ultimately show ?thesis using fin visible_events by simp
qed

lemma items_polls:
  assumes "body_flows polls" and "es_pending es = []" and "\<not> es_done es" and "es_body es = polls @ [BodyEnd]"
    and "feed_all from_str (concat (map frames polls)) (es_dec es) = (map Inr cs, d)"
    and "sse_finish from_str d = (map Inr cs', d')"
    and "fuse_all parse (cs @ cs') (es_fuser es) = (evs, f)"
  shows "visible (stream_items from_str parse es) = map Inr (evs @ fst (fuser_finish parse f))"
  using assms
proof (induction polls arbitrary: es cs evs)
  case Nil
  then show ?case using items_end by simp
next
  case (Cons p polls)
  show ?case
  proof (cases p)
    case BodyPending
    then have "stream_items from_str parse es = stream_items from_str parse (es\<lparr>es_body := polls @ [BodyEnd]\<rparr>)"
      using poll_quiet(2) [OF Cons(3, 4)] Cons(5) by (subst stream_items.simps) simp
    then show ?thesis
      using Cons(1) [of "es\<lparr>es_body := polls @ [BodyEnd]\<rparr>" cs evs] Cons(2 -) BodyPending by (simp add: body_flows_def)
  next
    case (BodyBytes bytes)
    obtain o1 d1 where feed: "sse_feed from_str bytes (es_dec es) = (o1, d1)" by fastforce
    obtain o2 where rest: "feed_all from_str (concat (map frames polls)) d1 = (o2, d)" and split: "map Inr cs = o1 @ o2"
      using Cons(6) BodyBytes feed by (auto split: prod.splits)
    obtain as bs where cs: "cs = as @ bs" "o1 = map Inr as" "o2 = map Inr bs"
      using split by (metis map_eq_append_conv)
    obtain evs1 f1 where f1: "fuse_all parse as (es_fuser es) = (evs1, f1)" by fastforce
    obtain evs2 where f2: "fuse_all parse (bs @ cs') f1 = (evs2, f)" and evs: "evs = evs1 @ evs2"
      using Cons(8) f1 by (auto simp: cs(1) fuse_all_append)
    have "visible (stream_items from_str parse es) = map Inr evs1
        @ visible (stream_items from_str parse (es\<lparr>es_body := polls @ [BodyEnd], es_dec := d1, es_fuser := f1\<rparr>))"
      using items_bytes [OF Cons(3, 4) _ _ f1] Cons(5) BodyBytes feed cs(2) by simp
    also have "\<dots> = map Inr evs1 @ map Inr (evs2 @ fst (fuser_finish parse f))"
      using Cons(1) [of "es\<lparr>es_body := polls @ [BodyEnd], es_dec := d1, es_fuser := f1\<rparr>" bs evs2] Cons(2 - 4) rest cs(3) Cons(7) f2
      by (simp add: body_flows_def)
    finally show ?thesis by (simp add: evs)
  qed (use Cons(2) in \<open>simp_all add: body_flows_def\<close>)
qed

section \<open>The spool holds what was written\<close>

definition spool_holds :: "spool_writer \<Rightarrow> string \<Rightarrow> bool" where
  "spool_holds w written \<longleftrightarrow>
     sw_total w = length written \<and> sw_preview w = take debug_body_preview written
     \<and> (case sw_file w of
          None \<Rightarrow> sw_memory w = written \<and> length written \<le> sw_threshold w
        | Some file \<Rightarrow> file = written \<and> sw_memory w = [] \<and> length written > sw_threshold w)"

lemma take_preview: "take n s @ take (min (length b) (n - length (take n s))) b = take n (s @ b)"
  by (simp add: min_def)

lemma spool_write_holds:
  assumes "spool_holds w s" and "spool_write dk b w = Inr w'"
  shows "spool_holds w' (s @ b) \<and> sw_threshold w' = sw_threshold w"
proof -
  have tot: "sw_total w = length s"
    and pre: "sw_preview w @ take (min (length b) (debug_body_preview - length (sw_preview w))) b = take debug_body_preview (s @ b)"
    using assms(1) take_preview [of debug_body_preview s b] by (simp_all add: spool_holds_def)
  note run = assms(2) [unfolded spool_write_def Let_def pre]
  show ?thesis
  proof (cases "sw_file w")
    case (Some f)
    then have "f = s" "sw_memory w = []" "sw_threshold w < length s" using assms(1) by (simp_all add: spool_holds_def)
    then show ?thesis
      using run Some tot by (simp add: spool_holds_def write_all_def split: option.splits) force
  next
    case None
    then have mem: "sw_memory w = s" "length s \<le> sw_threshold w" using assms(1) by (simp_all add: spool_holds_def)
    show ?thesis
    proof (cases "length s + length b > sw_threshold w")
      case True
      then show ?thesis
        using run None mem tot by (simp add: spool_holds_def write_all_def promote_def split: option.splits) force
    next
      case False
      then show ?thesis
        using run None mem tot by (simp add: spool_holds_def) force
    qed
  qed
qed

lemma spool_write_all_holds:
  "spool_holds w s \<Longrightarrow> spool_write_all dk ps w = Inr w' \<Longrightarrow> spool_holds w' (s @ concat ps) \<and> sw_threshold w' = sw_threshold w"
proof (induction ps arbitrary: w s)
  case Nil
  then show ?case by simp
next
  case (Cons p ps)
  then obtain w1 where w1: "spool_write dk p w = Inr w1" "spool_write_all dk ps w1 = Inr w'" by (auto split: sum.splits)
  with Cons spool_write_holds [of w s dk p w1] Cons.IH [of w1 "s @ p"] show ?case by simp
qed

lemma spool_holds_new: "spool_holds (spool_new n) []"
  by (simp add: spool_holds_def spool_new_def)

lemma spool_finish_body:
  assumes "spool_holds w s" and "spool_finish dk w = Inr body"
  shows "request_body None body = Inr s \<and> body_len body = length s \<and> (is_spooled body \<longleftrightarrow> sw_threshold w < length s)
    \<and> take debug_body_preview (body_preview body) = take debug_body_preview s"
  using assms by (auto simp: spool_holds_def spool_finish_def split: option.splits)

section \<open>Retries\<close>

lemma backoff_window:
  assumes "backoff ro epoch attempt st = (d, st')"
  shows "d \<le> ro_max_delay ro" and "nt_posts st' = nt_posts st" and "nt_slept st' = nt_slept st"
    and "nt_world st' = nt_world st" and "nt_gzip st' = nt_gzip st"
proof -
  define ceiling where "ceiling = min (min (ro_base_delay ro * 2 ^ min attempt 20) duration_max) (ro_max_delay ro)"
  define nanos where "nanos = min ceiling u64_max"
  have "nanos - nanos div 4 + unat x mod (nanos div 4 + 1) \<le> nanos" for x :: u64
    using mod_less_divisor [of "nanos div 4 + 1" "unat x"] div_le_dividend [of nanos 4] by linarith
  moreover have "d = (if nanos < 4 then ceiling
      else nanos - nanos div 4 + unat (mix64 epoch (nt_sequence st)) mod (nanos div 4 + 1))"
    using assms unfolding backoff_def Let_def ceiling_def [symmetric] nanos_def [symmetric] by (auto split: if_splits)
  moreover have "nanos \<le> ceiling" by (simp add: nanos_def)
  ultimately have "d \<le> ceiling" by (metis order_refl order_trans)
  then show "d \<le> ro_max_delay ro" by (simp add: ceiling_def)
  show "nt_posts st' = nt_posts st" "nt_slept st' = nt_slept st" "nt_world st' = nt_world st" "nt_gzip st' = nt_gzip st"
    using assms unfolding backoff_def Let_def ceiling_def [symmetric] nanos_def [symmetric] by (auto split: if_splits)
qed

lemma retry_after_le: "retry_after ro resp = Some d \<Longrightarrow> d \<le> ro_max_delay ro"
  by (auto simp: retry_after_def split: option.splits)

fun body_bytes :: "encoded_body \<Rightarrow> string" where
  "body_bytes (Memory bytes) = bytes"
| "body_bytes (Spool file _ _) = file"

fun retries_of :: "(proto_error \<times> nat) + ('b response \<times> nat) \<Rightarrow> nat" where
  "retries_of (Inl (_, n)) = n"
| "retries_of (Inr (_, n)) = n"

definition the_post :: "chat_client \<Rightarrow> string \<Rightarrow> encoded_body \<Rightarrow> string option \<Rightarrow> bool \<Rightarrow> post" where
  "the_post cl url body session_id gzip =
     \<lparr>po_url = url, po_headers = post_headers cl body session_id gzip, po_body = body_bytes body\<rparr>"

text \<open>From attempt \<open>a\<close> on: the requests, the delays between them, and the number of retries reported.\<close>

definition retried :: "chat_client \<Rightarrow> post \<Rightarrow> nat \<Rightarrow> nat \<Rightarrow> 'w net \<Rightarrow> 'w net \<Rightarrow> bool" where
  "retried cl p a n st st' \<longleftrightarrow>
     (\<exists>k ds. nt_posts st' = nt_posts st @ replicate k p \<and> nt_slept st' = nt_slept st @ ds
       \<and> a \<le> n \<and> length ds = n - a \<and> (k = n - a \<or> k = n - a + 1)
       \<and> (\<forall>d \<in> set ds. d \<le> ro_max_delay (cl_retry cl))) \<and> nt_gzip st' = nt_gzip st"

lemma request_body_bytes: "request_body r body = Inr bytes \<Longrightarrow> bytes = body_bytes body"
  by (cases body) (auto split: option.splits)

lemma send_post_state:
  assumes "send_post env p st = (r, st1)"
  shows "nt_posts st1 = nt_posts st @ [p]" "nt_slept st1 = nt_slept st" "nt_gzip st1 = nt_gzip st"
  using assms by (auto simp: send_post_def split: prod.splits)

lemma retried_stop:
  assumes "nt_posts st1 = nt_posts st @ [p]" "nt_slept st1 = nt_slept st" "nt_gzip st1 = nt_gzip st"
  shows "retried cl p a a st st1"
  unfolding retried_def using assms by (intro conjI exI [of _ 1] exI [of _ "[]"]) simp_all

lemma retried_again:
  assumes "nt_posts st1 = nt_posts st @ [p]" "nt_slept st1 = nt_slept st @ [d]" "nt_gzip st1 = nt_gzip st"
    and "d \<le> ro_max_delay (cl_retry cl)" and "retried cl p (a + 1) n st1 st'"
  shows "retried cl p a n st st'"
proof -
  obtain k ds where k: "nt_posts st' = nt_posts st1 @ replicate k p" "nt_slept st' = nt_slept st1 @ ds" "a + 1 \<le> n"
    "length ds = n - (a + 1)" "k = n - (a + 1) \<or> k = n - (a + 1) + 1" "\<forall>d \<in> set ds. d \<le> ro_max_delay (cl_retry cl)"
    "nt_gzip st' = nt_gzip st1"
    using assms(5) unfolding retried_def by blast
  show ?thesis
    unfolding retried_def using k assms(1 - 4) by (intro conjI exI [of _ "Suc k"] exI [of _ "d # ds"]) auto
qed

text \<open>After a request was sent, the loop is over or it sleeps and sends again.\<close>

lemma attempts_step:
  fixes st :: "'w net"
  assumes "attempts env cl url body sid gz a st = (r, st')"
    and body: "request_body (hv_reopen env (nt_world st)) body = Inr bytes"
    and sent: "send_post env (the_post cl url body sid gz) st = (o1, st1)"
  shows "retries_of r = a \<and> st' = st1
    \<or> (\<exists>d st2. a < ro_max_retries (cl_retry cl) \<and> d \<le> ro_max_delay (cl_retry cl)
         \<and> attempts env cl url body sid gz (a + 1) (sleep_for env d st2) = (r, st')
         \<and> nt_posts st2 = nt_posts st1 \<and> nt_slept st2 = nt_slept st1 \<and> nt_gzip st2 = nt_gzip st1)"
proof -
  have post: "\<lparr>po_url = url, po_headers = post_headers cl body sid gz, po_body = bytes\<rparr> = the_post cl url body sid gz"
    using request_body_bytes [OF body] by (simp add: the_post_def)
  note run = assms(1) [unfolded attempts.simps [of env cl url body sid gz a st] body sum.case Let_def post sent prod.case]
  obtain d0 st0 where wait: "backoff (cl_retry cl) (hv_clock env (nt_world st1)) a st1 = (d0, st0)" by fastforce
  note window = backoff_window [OF wait]
  show ?thesis
  proof (cases o1)
    case (Inl e)
    show ?thesis
    proof (cases "is_transient_transport e \<and> a < ro_max_retries (cl_retry cl)")
      case True
      then have "attempts env cl url body sid gz (a + 1) (sleep_for env d0 st0) = (r, st')"
        using run by (simp add: Inl wait)
      then show ?thesis using True window by blast
    next
      case False
      then show ?thesis using run by (auto simp: Inl)
    qed
  next
    case (Inr resp)
    let ?text = "unwrap_or [] (rs_text resp)"
    show ?thesis
    proof (cases "\<not> status_success (rs_status resp) \<and> is_transient_status_body (rs_status resp) ?text \<and> a < ro_max_retries (cl_retry cl)")
      case True
      show ?thesis
      proof (cases "retry_after (cl_retry cl) resp")
        case None
        then have "attempts env cl url body sid gz (a + 1) (sleep_for env d0 st0) = (r, st')"
          using run True by (simp add: Inr wait Let_def)
        then show ?thesis using True window by blast
      next
        case (Some d)
        then have "attempts env cl url body sid gz (a + 1) (sleep_for env d st1) = (r, st')"
          using run True by (simp add: Inr Let_def)
        then show ?thesis using True retry_after_le [OF Some] by blast
      qed
    next
      case False
      then show ?thesis using run by (auto simp: Inr Let_def split: if_splits)
    qed
  qed
qed

lemma attempts_retried:
  "attempts env cl url body sid gz a st = (r, st') \<Longrightarrow> a \<le> ro_max_retries (cl_retry cl) \<Longrightarrow>
     retried cl (the_post cl url body sid gz) a (retries_of r) st st' \<and> retries_of r \<le> ro_max_retries (cl_retry cl)"
proof (induction "ro_max_retries (cl_retry cl) - a" arbitrary: a st rule: less_induct)
  case less
  let ?p = "the_post cl url body sid gz"
  show ?case
  proof (cases "request_body (hv_reopen env (nt_world st)) body")
    case (Inl e)
    then have "r = Inl (e, a)" "st' = st" using less(2) unfolding attempts.simps [of env cl url body sid gz a st] by simp_all
    then show ?thesis using less(3) by (auto simp: retried_def)
  next
    case (Inr bytes)
    obtain o1 st1 where sent: "send_post env ?p st = (o1, st1)" by fastforce
    note state = send_post_state [OF sent]
    from attempts_step [OF less(2) Inr sent] consider
      (stop) "retries_of r = a" "st' = st1"
    | (again) d st2 where "a < ro_max_retries (cl_retry cl)" "d \<le> ro_max_delay (cl_retry cl)"
        "attempts env cl url body sid gz (a + 1) (sleep_for env d st2) = (r, st')"
        "nt_posts st2 = nt_posts st1" "nt_slept st2 = nt_slept st1" "nt_gzip st2 = nt_gzip st1" by blast
    then show ?thesis
    proof cases
      case stop
      then show ?thesis using retried_stop [OF state] less(3) by simp
    next
      case again
      have "retried cl ?p (a + 1) (retries_of r) (sleep_for env d st2) st' \<and> retries_of r \<le> ro_max_retries (cl_retry cl)"
        using less(1) [OF _ again(3)] again(1) by simp
      then show ?thesis
        using again state retried_again [of "sleep_for env d st2" st ?p d cl a "retries_of r" st'] by (simp add: sleep_for_def)
    qed
  qed
qed

text \<open>A gateway that rejects compression gets the plain body, and compression stays off.\<close>

lemma gzip_fallback:
  assumes "nt_gzip st" and "encode True = Inr (body, payload)"
    and "send_with_retry env cl url body sid True st = (Inl (err, n), st1)" and "gzip_is_unsupported err"
    and "encode False = Inr (plain, raw_payload)"
    and "send_with_retry env cl url plain sid False (st1\<lparr>nt_gzip := False\<rparr>) = (r, st2)"
  shows "encode_and_send env cl encode url sid st =
      (case r of
         Inr (resp, k) \<Rightarrow> (Inr (resp, sat_add_u32 (sat_add_u32 n 1) k, raw_payload), st2)
       | Inl (e, k) \<Rightarrow> (Inl (e, sat_add_u32 (sat_add_u32 n 1) k, raw_payload), st2))"
    and "\<not> nt_gzip st2"
proof -
  show "encode_and_send env cl encode url sid st =
      (case r of
         Inr (resp, k) \<Rightarrow> (Inr (resp, sat_add_u32 (sat_add_u32 n 1) k, raw_payload), st2)
       | Inl (e, k) \<Rightarrow> (Inl (e, sat_add_u32 (sat_add_u32 n 1) k, raw_payload), st2))"
    using assms by (simp add: encode_and_send_def Let_def split: sum.split prod.split)
  show "\<not> nt_gzip st2"
  proof (cases "attempts env cl url plain sid False 0 (st1\<lparr>nt_gzip := False\<rparr>) = (r, st2)")
    case True
    then show ?thesis using attempts_retried [OF True] by (simp add: retried_def)
  next
    case False
    then show ?thesis using assms(6) by (auto simp: send_with_retry_def split: option.splits if_splits)
  qed
qed

text \<open>A chunk with text, and a reader that knows only its line.\<close>

definition demo_chunk :: chunk where
  "demo_chunk = \<lparr>ch_id = [], ch_model = [], ch_choices = [\<lparr>cc_index = 0,
      cc_delta = \<lparr>d_role = None, d_content = Some ''hi'', d_reasoning_content = None, d_reasoning = None, d_tool_calls = []\<rparr>,
      cc_finish_reason = None\<rparr>], ch_usage = None\<rparr>"

definition demo_from_str :: "string \<Rightarrow> string + chunk" where
  "demo_from_str s = (if s = ''a'' then Inr demo_chunk else Inl ''bad'')"

definition demo_lines :: string where
  "demo_lines = ''data: a'' @ newline @ ''data: b'' @ newline"

lemma demo_decode:
  "sse_feed demo_from_str demo_lines sse_new = ([Inr demo_chunk, Inl (PJson ''bad'')], sse_new)"
  "sse_feed demo_from_str (''data: a'' @ newline) sse_new = ([Inr demo_chunk], sse_new)"
  "sse_finish demo_from_str sse_new = ([], sse_new)"
  "fuse_all (\<lambda>_. Inl []) [demo_chunk] fuser_new = ([SText ''hi''], fuser_new)"
  "whole_body_events demo_from_str (\<lambda>_. Inl []) (''data: a'' @ newline) = [SText ''hi'', SFinish (FinOther ''stream-ended'')]"
  by code_simp+

section \<open>Properties\<close>

text \<open>
  C17: retrying is bounded and repeats the same request: whatever the server answers, a call sends at
  most one request more than the configured retries, all of them identical to the byte, reports exactly
  the number of retries it made, and never sleeps longer than the configured maximum between them. A
  session id that is not a valid header value sends nothing.
\<close>

theorem retries_bounded:
  assumes "send_with_retry env cl url body sid gz st = (r, st')"
  shows "\<exists>k ds. nt_posts st' = nt_posts st @ replicate k (the_post cl url body sid gz) \<and> nt_slept st' = nt_slept st @ ds
      \<and> k \<le> ro_max_retries (cl_retry cl) + 1 \<and> length ds = retries_of r \<and> retries_of r \<le> ro_max_retries (cl_retry cl)
      \<and> (\<forall>d \<in> set ds. d \<le> ro_max_delay (cl_retry cl))
      \<and> ((\<exists>i. sid = Some i \<and> \<not> session_id_ok i) \<longrightarrow> k = 0 \<and> r = Inl (PInvalidSessionId, 0))"
proof (cases "\<exists>i. sid = Some i \<and> \<not> session_id_ok i")
  case True
  then have "r = Inl (PInvalidSessionId, 0)" "st' = st" using assms by (auto simp: send_with_retry_def)
  then show ?thesis by (intro exI [of _ 0] exI [of _ "[]"]) simp
next
  case False
  then have "attempts env cl url body sid gz 0 st = (r, st')"
    using assms by (auto simp: send_with_retry_def split: option.splits)
  from attempts_retried [OF this] have
    *: "retried cl (the_post cl url body sid gz) 0 (retries_of r) st st'" "retries_of r \<le> ro_max_retries (cl_retry cl)"
    by simp_all
  then obtain k ds where "nt_posts st' = nt_posts st @ replicate k (the_post cl url body sid gz)"
    "nt_slept st' = nt_slept st @ ds" "length ds = retries_of r" "k = retries_of r \<or> k = retries_of r + 1"
    "\<forall>d \<in> set ds. d \<le> ro_max_delay (cl_retry cl)"
    unfolding retried_def by auto
  then show ?thesis using *(2) False by (intro exI [of _ k] exI [of _ ds]) auto
qed

text \<open>A server that is overloaded once and answers the second time.\<close>

definition demo_http :: "(nat, nat) http_env" where
  "demo_http = \<lparr>hv_send = (\<lambda>p w. (Inr \<lparr>rs_status = (if w = 0 then 503 else 200), rs_retry_after = Some ''2'', rs_text = None, rs_body = 7\<rparr>, w + 1)),
     hv_clock = (\<lambda>_. 0), hv_reopen = (\<lambda>_. None), hv_sleep = (\<lambda>_ w. w)\<rparr>"

definition demo_client :: chat_client where
  "demo_client = \<lparr>cl_base_url = ''u'', cl_api_key = ''k'', cl_model = ''m'',
     cl_retry = \<lparr>ro_max_retries = 3, ro_base_delay = 1, ro_max_delay = 5\<rparr>\<rparr>"

definition demo_net :: "nat net" where
  "demo_net = \<lparr>nt_world = 0, nt_gzip = False, nt_sequence = 0, nt_posts = [], nt_slept = []\<rparr>"

lemma demo_retry:
  "send_with_retry demo_http demo_client ''u'' (Memory ''{}'') None False demo_net =
     (Inr (\<lparr>rs_status = 200, rs_retry_after = Some ''2'', rs_text = None, rs_body = 7\<rparr>, 1),
      demo_net\<lparr>nt_world := 2, nt_posts := replicate 2 (the_post demo_client ''u'' (Memory ''{}'') None False), nt_slept := [5]\<rparr>)"
proof -
  have after: "retry_after (cl_retry demo_client) \<lparr>rs_status = 503, rs_retry_after = Some ''2'', rs_text = None, rs_body = 7 :: nat\<rparr> = Some 5"
    by (simp add: retry_after_def parse_u64_def is_digit_def byte_of_def demo_client_def)
  show ?thesis
    using after
    by (simp add: send_with_retry_def attempts.simps demo_http_def demo_net_def send_post_def status_success_def
        is_transient_status_body_def unwrap_or_def the_post_def sleep_for_def Let_def numeral_2_eq_2)
       (simp add: demo_client_def)
qed

theorem retries_bounded_witness:
  "\<exists>k ds. nt_posts (snd (send_with_retry demo_http demo_client ''u'' (Memory ''{}'') None False demo_net))
        = nt_posts demo_net @ replicate k (the_post demo_client ''u'' (Memory ''{}'') None False)
      \<and> nt_slept (snd (send_with_retry demo_http demo_client ''u'' (Memory ''{}'') None False demo_net)) = nt_slept demo_net @ ds
      \<and> k \<le> 4 \<and> length ds = 1 \<and> nt_slept demo_net @ ds = [5]"
  using retries_bounded [OF demo_retry] unfolding demo_retry by (auto simp: demo_client_def demo_net_def)

text \<open>
  The body that is sent is the body that was written: whether it stays in memory or moves to the
  spool, the bytes a request reads back are exactly what the serializer, or the compressor, produced;
  the length announced and reported is theirs; and a body is on disk only when it is larger than the
  memory budget.
\<close>

theorem encoded_body_exact:
  assumes "encode_body_with dk serialize compress req gzip = Inr (body, payload)"
  shows "(let json = concat (fst (serialize req));
              wire = (if gzip then concat (fst (compress (fst (serialize req)))) @ concat (snd (compress (fst (serialize req)))) else json)
          in request_body None body = Inr wire \<and> body_len body = length wire \<and> wire_bytes payload = length wire
             \<and> json_bytes payload = length json \<and> (is_spooled body \<longleftrightarrow> request_memory_bytes < length wire)
             \<and> snd (serialize req) = None)"
proof -
  obtain pieces err where ser: "serialize req = (pieces, err)" by fastforce
  obtain during final where com: "compress pieces = (during, final)" by fastforce
  note new = spool_holds_new [of request_memory_bytes]
  show ?thesis
  proof (cases gzip)
    case False
    then obtain w where w: "spool_write_all dk pieces (spool_new request_memory_bytes) = Inr w" "err = None"
      "spool_finish dk w = Inr body" "payload = \<lparr>json_bytes = sw_total w, wire_bytes = sw_total w\<rparr>"
      using assms ser by (auto simp: encode_body_with_def Let_def split: sum.splits option.splits)
    have holds: "spool_holds w (concat pieces)" "sw_threshold w = request_memory_bytes"
      using spool_write_all_holds [OF new w(1)] by (simp_all add: spool_new_def)
    show ?thesis
      using spool_finish_body [OF holds(1) w(3)] holds w False ser by (simp add: spool_holds_def)
  next
    case True
    then obtain w w' where w: "spool_write_all dk during (spool_new request_memory_bytes) = Inr w" "err = None"
      "spool_write_all dk final w = Inr w'" "spool_finish dk w' = Inr body"
      "payload = \<lparr>json_bytes = sum_list (map length pieces), wire_bytes = body_len body\<rparr>"
      using assms ser com by (auto simp: encode_body_with_def Let_def split: sum.splits option.splits)
    have "spool_holds w (concat during)" "sw_threshold w = request_memory_bytes"
      using spool_write_all_holds [OF new w(1)] by (simp_all add: spool_new_def)
    then have holds: "spool_holds w' (concat during @ concat final)" "sw_threshold w' = request_memory_bytes"
      using spool_write_all_holds [OF _ w(3)] by simp_all
    show ?thesis
      using spool_finish_body [OF holds(1) w(4)] holds w True ser com by (simp add: length_concat)
  qed
qed

definition demo_disk :: disk where
  "demo_disk = \<lparr>dk_create = None, dk_append = (\<lambda>_ _. None), dk_flush = None\<rparr>"

theorem encoded_body_exact_witness:
  "\<exists>body payload. encode_body_with demo_disk (\<lambda>_. ([''{'', ''}''], None)) (\<lambda>_. ([], [])) () False = Inr (body, payload)
     \<and> request_body None body = Inr ''{}'' \<and> wire_bytes payload = 2 \<and> \<not> is_spooled body"
proof -
  have enc: "encode_body_with demo_disk (\<lambda>_. ([''{'', ''}''], None)) (\<lambda>_. ([], [])) () False
      = Inr (Memory ''{}'', \<lparr>json_bytes = 2, wire_bytes = 2\<rparr>)"
    by (simp add: encode_body_with_def spool_new_def spool_write_def spool_finish_def request_memory_bytes_def)
  from encoded_body_exact [OF enc] enc show ?thesis by (simp add: request_memory_bytes_def)
qed

text \<open>Every event of a body, the one behind the last line end included, decodes to a chunk.\<close>

definition body_decodes :: "(string \<Rightarrow> string + chunk) \<Rightarrow> string \<Rightarrow> bool" where
  "body_decodes from_str bytes \<longleftrightarrow>
     (\<forall>c \<in> set (fst (sse_feed from_str bytes sse_new) @ fst (sse_finish from_str (snd (sse_feed from_str bytes sse_new)))). \<not> isl c)"

text \<open>
  C16: the stream of events of a well-formed body does not depend on how the network cuts it. When the body arrives without a transport
  error (\<open>body_flows\<close>) and every event in it decodes to a chunk (\<open>body_decodes\<close>), then however the body is cut into
  frames and wherever the connection pauses, a consumer that polls to the end gets the events of
  decoding the whole body at once and fusing its chunks, in that order, and nothing else but liveness
  marks. Without the second condition this fails: a decode error overtakes the events queued from good chunks of
  the same frame (\<open>decode_error_overtakes_events\<close> below), so what is delivered before it depends on the cut.
\<close>

theorem event_stream_matches_whole_body:
  assumes "body_flows polls"
    and "body_decodes from_str (concat (concat (map frames polls)))"
  shows "visible (stream_items from_str parse (event_stream_new (polls @ [BodyEnd])))
    = map Inr (whole_body_events from_str parse (concat (concat (map frames polls))))"
proof -
  let ?bytes = "concat (concat (map frames polls))"
  have inr: "\<exists>cs. xs = map Inr cs" if "\<forall>c \<in> set xs. \<not> isl c" for xs :: "(proto_error + chunk) list"
  proof
    show "xs = map Inr (map projr xs)" using that by (auto intro!: map_idI [symmetric] sum.collapse(2))
  qed
  obtain xs d where xs: "sse_feed from_str ?bytes sse_new = (xs, d)" by fastforce
  obtain ys d' where ys: "sse_finish from_str d = (ys, d')" by fastforce
  obtain cs cs' where cs: "xs = map Inr cs" "ys = map Inr cs'" using inr [of xs] inr [of ys] assms(2) xs ys by (auto simp: body_decodes_def)
  have feed: "feed_all from_str (concat (map frames polls)) sse_new = (map Inr cs, d)"
    using feed_all_drained [of sse_new from_str "concat (map frames polls)"] xs cs(1) by (simp add: sse_new_def newline_def)
  obtain evs f where fuse: "fuse_all parse (cs @ cs') fuser_new = (evs, f)" by fastforce
  have "whole_body_events from_str parse ?bytes = evs @ fst (fuser_finish parse f)"
    using xs ys cs fuse by (simp add: whole_body_events_def comp_def)
  then show ?thesis
    using items_polls [OF assms(1), of "event_stream_new (polls @ [BodyEnd])" from_str cs d cs' d' parse evs f] feed ys cs(2) fuse
    by (simp add: event_stream_new_def)
qed

theorem event_stream_matches_whole_body_witness:
  "visible (stream_items demo_from_str (\<lambda>_. Inl []) (event_stream_new ([BodyBytes ''data:'', BodyPending, BodyBytes ('' a'' @ newline)] @ [BodyEnd])))
    = [Inr (SText ''hi''), Inr (SFinish (FinOther ''stream-ended''))]"
proof -
  let ?polls = "[BodyBytes ''data:'', BodyPending, BodyBytes ('' a'' @ newline)]"
  have bytes: "concat (concat (map frames ?polls)) = ''data: a'' @ newline" by simp
  have "visible (stream_items demo_from_str (\<lambda>_. Inl []) (event_stream_new (?polls @ [BodyEnd])))
      = map Inr (whole_body_events demo_from_str (\<lambda>_. Inl []) (concat (concat (map frames ?polls))))"
  proof (rule event_stream_matches_whole_body)
    show "body_flows ?polls" by (simp add: body_flows_def)
    show "body_decodes demo_from_str (concat (concat (map frames ?polls)))"
      unfolding bytes body_decodes_def demo_decode fst_conv snd_conv by simp
  qed
  also have "whole_body_events demo_from_str (\<lambda>_. Inl []) (concat (concat (map frames ?polls)))
      = [SText ''hi'', SFinish (FinOther ''stream-ended'')]"
    unfolding bytes by (rule demo_decode(5))
  finally show ?thesis by simp
qed

text \<open>
  A malformed event overtakes what came before it: when one frame holds good chunks and then a
  line that does not parse, the error is delivered first and the events of the good chunks only after
  it, where a consumer that stops at the error never sees them. The same lines in two frames are
  delivered in order.
\<close>

theorem decode_error_overtakes_events:
  assumes "sse_feed from_str bytes sse_new = (map Inr cs @ Inl e # rest, d)"
  shows "stream_items from_str parse (event_stream_new (BodyBytes bytes # body))
    = Inl e # map Inr (fst (fuse_all parse cs fuser_new))"
proof -
  let ?es = "event_stream_new (BodyBytes bytes # body)"
  obtain es1 where ap: "apply_chunks parse (map Inr cs @ Inl e # rest) (?es\<lparr>es_body := body, es_dec := d\<rparr>) = (Some e, es1)"
    and pend: "es_pending es1 = fst (fuse_all parse cs fuser_new)"
    by (simp add: apply_chunks_err event_stream_new_def)
  have "poll_next from_str parse ?es = (PollItem (Inl e), es1\<lparr>es_done := True\<rparr>)"
    using poll_bytes [of ?es bytes body from_str _ d parse "Some e" es1] assms ap by (simp add: event_stream_new_def)
  then have "stream_items from_str parse ?es = Inl e # stream_items from_str parse (es1\<lparr>es_done := True\<rparr>)"
    by (subst stream_items.simps) simp
  then show ?thesis using items_over [of "es1\<lparr>es_done := True\<rparr>" from_str parse] pend by simp
qed

theorem decode_error_overtakes_events_witness:
  "stream_items demo_from_str (\<lambda>_. Inl []) (event_stream_new [BodyBytes demo_lines]) = [Inl (PJson ''bad''), Inr (SText ''hi'')]"
  using decode_error_overtakes_events [of demo_from_str demo_lines "[demo_chunk]" "PJson ''bad''" "[]" sse_new "\<lambda>_. Inl []" "[]"]
  unfolding demo_decode by simp

end
