(* ===== verification/Session_Store.thy ===== *)
theory Session_Store
  imports Context_Assembly
begin

text \<open>
  \<open>crates/rc-session/src/lib.rs\<close>: the transcript of a session as one header line and one line per turn,
  its replay with crash recovery, and the choice of the session to continue. \<open>serde_json\<close> is a
  parameter: \<open>to_line\<close> and \<open>from_line\<close> write and read a turn, \<open>header_line\<close> and \<open>read_header\<close> the header.
  The files of the disk are a map from paths to bytes.
\<close>

section \<open>The store\<close>

record session_header =
  sh_id :: string
  sh_cwd :: string
  sh_model :: string
  sh_mode :: agent_mode
  sh_extra_dirs :: "string list"

text \<open>\<open>writer\<close> is the buffered writer, as the bytes it has not written yet.\<close>

record session_store =
  st_writer :: "string option"
  st_path :: string
  st_pending_header :: "string option"

text \<open>
  The operations of the disk that can fail: an error for creating a directory or a file, and for a
  flush the number of buffered bytes that reach the file together with an error, if any.
\<close>

record store_io =
  io_mkdir :: "string \<Rightarrow> string option"
  io_create :: "string \<Rightarrow> string option"
  io_flush :: "string \<Rightarrow> nat \<times> string option"

text \<open>Writing the whole buffer, as a flush that succeeds does.\<close>

definition io_works :: "store_io \<Rightarrow> bool" where
  "io_works io \<longleftrightarrow> (\<forall>p. io_mkdir io p = None \<and> io_create io p = None) \<and> (\<forall>b. io_flush io b = (length b, None))"

type_synonym files = "string \<Rightarrow> string option"

text \<open>The session with the fields that only the store and its callers use.\<close>

record stored_session = session +
  s_model :: string
  s_mode :: agent_mode

definition session_new :: "string \<Rightarrow> string \<Rightarrow> string \<Rightarrow> stored_session" where
  "session_new sid cwd model =
     \<lparr>s_id = sid, s_cwd = cwd, s_extra_dirs = [], s_messages = [], s_perm_grants = [], s_total_usage = usage_default,
      s_total_cost = 0, s_model = model, s_mode = ModeDefault\<rparr>"

definition header_of :: "stored_session \<Rightarrow> session_header" where
  "header_of s = \<lparr>sh_id = s_id s, sh_cwd = s_cwd s, sh_model = s_model s, sh_mode = s_mode s, sh_extra_dirs = s_extra_dirs s\<rparr>"

definition with_parent :: "store_io \<Rightarrow> string \<Rightarrow> string option" where
  "with_parent io path = (case path_parent path of Some parent \<Rightarrow> io_mkdir io parent | None \<Rightarrow> None)"

text \<open>A flush moves bytes from the buffer to the end of the file.\<close>

definition flush_writer :: "store_io \<Rightarrow> string \<Rightarrow> string \<Rightarrow> files \<Rightarrow> string option \<times> string \<times> files" where
  "flush_writer io path buf fs =
     (let (n, err) = io_flush io buf
      in (err, drop n buf, fs(path \<mapsto> unwrap_or [] (fs path) @ take n buf)))"

definition store_create ::
  "store_io \<Rightarrow> (session_header \<Rightarrow> string + string) \<Rightarrow> string \<Rightarrow> stored_session \<Rightarrow> files \<Rightarrow> (string + session_store) \<times> files" where
  "store_create io header_line path s fs =
     (case with_parent io path of
        Some e \<Rightarrow> (Inl e, fs)
      | None \<Rightarrow>
          (case io_create io path of
             Some e \<Rightarrow> (Inl e, fs)
           | None \<Rightarrow>
               (let fs = fs(path \<mapsto> []) in
                case header_line (header_of s) of
                  Inl e \<Rightarrow> (Inl e, fs)
                | Inr line \<Rightarrow>
                    (let (err, buf, fs) = flush_writer io path (line @ newline) fs in
                     case err of
                       Some e \<Rightarrow> (Inl e, fs)
                     | None \<Rightarrow> (Inr \<lparr>st_writer = Some buf, st_path = path, st_pending_header = None\<rparr>, fs)))))"

definition store_create_lazy :: "(session_header \<Rightarrow> string + string) \<Rightarrow> string \<Rightarrow> stored_session \<Rightarrow> string + session_store" where
  "store_create_lazy header_line path s =
     (case header_line (header_of s) of
        Inl e \<Rightarrow> Inl e
      | Inr line \<Rightarrow> Inr \<lparr>st_writer = None, st_path = path, st_pending_header = Some line\<rparr>)"

definition ensure_writer :: "store_io \<Rightarrow> session_store \<times> files \<Rightarrow> (string + string) \<times> session_store \<times> files" where
  "ensure_writer io sf =
     (let (st, fs) = sf in
      case st_writer st of
        Some buf \<Rightarrow> (Inr buf, st, fs)
      | None \<Rightarrow>
          (case with_parent io (st_path st) of
             Some e \<Rightarrow> (Inl e, st, fs)
           | None \<Rightarrow>
               (case io_create io (st_path st) of
                  Some e \<Rightarrow> (Inl e, st, fs)
                | None \<Rightarrow>
                    (let fs = fs(st_path st \<mapsto> []) in
                     case st_pending_header st of
                       None \<Rightarrow> (Inl ''lazy session store is missing its pending header'', st, fs)
                     | Some h \<Rightarrow>
                         (Inr (h @ newline), st\<lparr>st_pending_header := None, st_writer := Some (h @ newline)\<rparr>, fs)))))"

definition append_turn ::
  "store_io \<Rightarrow> (turn \<Rightarrow> string option) \<Rightarrow> turn \<Rightarrow> session_store \<times> files \<Rightarrow> string option \<times> session_store \<times> files" where
  "append_turn io to_line t sf =
     (case to_line t of
        None \<Rightarrow> (Some ''serializing turn'', sf)
      | Some line \<Rightarrow>
          (case ensure_writer io sf of
             (Inl e, st, fs) \<Rightarrow> (Some e, st, fs)
           | (Inr buf, st, fs) \<Rightarrow>
               (let (err, buf, fs) = flush_writer io (st_path st) (buf @ line @ newline) fs
                in (err, st\<lparr>st_writer := Some buf\<rparr>, fs))))"

definition store_open_append :: "store_io \<Rightarrow> string \<Rightarrow> files \<Rightarrow> string + session_store" where
  "store_open_append io path fs =
     (case fs path of
        None \<Rightarrow> Inl ''opening session file for append''
      | Some _ \<Rightarrow>
          (case io_create io path of
             Some e \<Rightarrow> Inl e
           | None \<Rightarrow> Inr \<lparr>st_writer = Some [], st_path = path, st_pending_header = None\<rparr>))"

section \<open>Loading\<close>

text \<open>\<open>BufRead::lines\<close>: the lines without their ends; \<open>None\<close> is a line that is not UTF-8.\<close>

definition strip_line_end :: "string \<Rightarrow> string" where
  "strip_line_end l =
     (case strip_suffix newline l of
        None \<Rightarrow> l
      | Some s \<Rightarrow> unwrap_or s (strip_suffix carriage_return s))"

definition read_lines :: "string \<Rightarrow> string option list" where
  "read_lines bytes = map (\<lambda>l. map_option strip_line_end (from_utf8 l)) (split_inclusive bytes)"

definition mode_from_note :: "string \<Rightarrow> agent_mode option" where
  "mode_from_note t =
     (if t = ''default'' then Some ModeDefault
      else if t = ''accept_edits'' \<or> t = ''acceptEdits'' then Some ModeAcceptEdits
      else if t = ''plan'' then Some ModePlan
      else if t = ''ask'' then Some ModeAsk
      else if t = ''auto'' \<or> t = ''bypass_permissions'' then Some ModeAuto
      else None)"

fun mode_after :: "turn \<Rightarrow> agent_mode \<Rightarrow> agent_mode" where
  "mode_after (SystemNote ModeChange t) m = unwrap_or m (mode_from_note t)"
| "mode_after _ m = m"

definition push_loaded :: "turn \<Rightarrow> stored_session \<Rightarrow> stored_session" where
  "push_loaded t s =
     s\<lparr>s_mode := mode_after t (s_mode s), s_total_usage := add_usage t (s_total_usage s),
       s_total_cost := add_cost t (s_total_cost s), s_messages := s_messages s @ [t]\<rparr>"

text \<open>The loop over the lines after the header: it stops at a line that cannot be read and skips one that does not parse.\<close>

fun replay_turns :: "(string \<Rightarrow> turn option) \<Rightarrow> string option list \<Rightarrow> stored_session \<Rightarrow> stored_session" where
  "replay_turns from_line [] s = s"
| "replay_turns from_line (None # ls) s = s"
| "replay_turns from_line (Some l # ls) s =
     (case from_line l of
        Some t \<Rightarrow> replay_turns from_line ls (push_loaded t s)
      | None \<Rightarrow> replay_turns from_line ls s)"

definition session_of_header :: "session_header \<Rightarrow> stored_session" where
  "session_of_header h =
     (session_new (sh_id h) (sh_cwd h) (sh_model h))\<lparr>s_mode := sh_mode h, s_extra_dirs := sh_extra_dirs h\<rparr>"

datatype load_error = OpenFailed | EmptyFile | ReadFailed | BadHeader string

definition load_session ::
  "(string \<Rightarrow> string + session_header) \<Rightarrow> (string \<Rightarrow> turn option) \<Rightarrow> files \<Rightarrow> string \<Rightarrow> load_error + stored_session" where
  "load_session read_header from_line fs path =
     (case fs path of
        None \<Rightarrow> Inl OpenFailed
      | Some bytes \<Rightarrow>
          (case read_lines bytes of
             [] \<Rightarrow> Inl EmptyFile
           | None # _ \<Rightarrow> Inl ReadFailed
           | Some l # ls \<Rightarrow>
               (case read_header l of
                  Inl e \<Rightarrow> Inl (BadHeader e)
                | Inr h \<Rightarrow> Inr (replay_turns from_line ls (session_of_header h)))))"

section \<open>Choosing a session\<close>

record session_info =
  si_path :: string
  si_id :: string
  si_cwd :: string
  si_model :: string
  si_modified :: nat
  si_first_prompt :: "string option"

definition head_scan_lines :: nat where
  "head_scan_lines = 32"

text \<open>\<open>str::split_whitespace\<close>, on the characters of the text.\<close>

fun words_of :: "string list \<Rightarrow> string \<Rightarrow> string list" where
  "words_of [] w = (if w = [] then [] else [w])"
| "words_of (g # gs) w =
     (if is_whitespace g then (if w = [] then [] else [w]) @ words_of gs [] else words_of gs (w @ g))"

fun join_words :: "string list \<Rightarrow> string" where
  "join_words [] = []"
| "join_words [w] = w"
| "join_words (w # ws) = w @ '' '' @ join_words ws"

definition one_line :: "string \<Rightarrow> string" where
  "one_line s = join_words (words_of (chars_of s) [])"

text \<open>The lines up to the first that cannot be read, without the blank ones.\<close>

definition readable_lines :: "string \<Rightarrow> string list" where
  "readable_lines bytes = filter (\<lambda>l. trim l \<noteq> []) (map the (takeWhile (\<lambda>l. l \<noteq> None) (read_lines bytes)))"

fun first_user :: "(string \<Rightarrow> turn option) \<Rightarrow> string list \<Rightarrow> string option" where
  "first_user from_line [] = None"
| "first_user from_line (l # ls) =
     (case from_line l of Some (User content _) \<Rightarrow> Some (one_line content) | _ \<Rightarrow> first_user from_line ls)"

definition read_info ::
  "(string \<Rightarrow> string + session_header) \<Rightarrow> (string \<Rightarrow> turn option) \<Rightarrow> files \<Rightarrow> string \<Rightarrow> nat \<Rightarrow> session_info option" where
  "read_info read_header from_line fs path modified =
     (case fs path of
        None \<Rightarrow> None
      | Some bytes \<Rightarrow>
          (case readable_lines bytes of
             [] \<Rightarrow> None
           | l # ls \<Rightarrow>
               (case read_header l of
                  Inl _ \<Rightarrow> None
                | Inr h \<Rightarrow>
                    if take head_scan_lines ls = [] then None
                    else Some \<lparr>si_path = path, si_id = sh_id h, si_cwd = sh_cwd h, si_model = sh_model h,
                      si_modified = modified, si_first_prompt = first_user from_line (take head_scan_lines ls)\<rparr>)))"

text \<open>The directory as \<open>read_dir\<close> lists it: paths with their modification time, if it can be read.\<close>

definition is_jsonl :: "string \<Rightarrow> bool" where
  "is_jsonl p \<longleftrightarrow> path_extension p = Some ''jsonl''"

definition list_sessions ::
  "(string \<Rightarrow> string + session_header) \<Rightarrow> (string \<Rightarrow> turn option) \<Rightarrow> files \<Rightarrow> (string \<times> nat option) list option \<Rightarrow> session_info list" where
  "list_sessions read_header from_line fs dir =
     (case dir of
        None \<Rightarrow> []
      | Some entries \<Rightarrow>
          sort_key (\<lambda>i. - int (si_modified i))
            (List.map_filter (\<lambda>(p, m). case m of None \<Rightarrow> None | Some t \<Rightarrow> read_info read_header from_line fs p t)
              (filter (\<lambda>(p, m). is_jsonl p) entries)))"

definition has_turns :: "files \<Rightarrow> string \<Rightarrow> bool" where
  "has_turns fs path = (case fs path of None \<Rightarrow> False | Some bytes \<Rightarrow> 1 < length (readable_lines bytes))"

text \<open>\<open>Iterator::max_by_key\<close>: the last of the greatest.\<close>

fun max_by_key :: "('a \<Rightarrow> nat) \<Rightarrow> 'a list \<Rightarrow> 'a option" where
  "max_by_key f [] = None"
| "max_by_key f (x # xs) = (case max_by_key f xs of None \<Rightarrow> Some x | Some y \<Rightarrow> if f x \<le> f y then Some y else Some x)"

definition latest_session :: "files \<Rightarrow> (string \<times> nat option) list option \<Rightarrow> string option" where
  "latest_session fs dir =
     (case dir of
        None \<Rightarrow> None
      | Some entries \<Rightarrow>
          map_option fst (max_by_key snd (filter (\<lambda>(p, m). has_turns fs p)
            (List.map_filter (\<lambda>(p, m). if is_jsonl p then map_option (Pair p) m else None) entries))))"

section \<open>Facts about reading lines\<close>

lemma take_conts_append: "take_conts n k bs = Inr m \<Longrightarrow> take_conts n k (bs @ cs) = Inr m"
  by (induction n k bs rule: take_conts.induct) (auto split: if_splits)

lemma take_conts_bound: "take_conts n k bs = Inr m \<Longrightarrow> n \<le> m \<and> m \<le> n + length bs"
  by (induction n k bs rule: take_conts.induct) (auto split: if_splits)

lemma utf8_front_append: "utf8_front b bs = Inr n \<Longrightarrow> utf8_front b (bs @ cs) = Inr n"
  by (cases bs) (auto simp: utf8_front_def Let_def take_conts_append split: if_splits)

lemma utf8_front_bound: "utf8_front b bs = Inr n \<Longrightarrow> 1 \<le> n \<and> n - 1 \<le> length bs"
  by (cases bs) (auto simp: utf8_front_def Let_def split: if_splits dest!: take_conts_bound)

lemma from_utf8_id: "from_utf8 s = Some t \<Longrightarrow> t = s"
proof (induction s arbitrary: t rule: from_utf8.induct)
  case 1
  then show ?case by simp
next
  case (2 b bs)
  then obtain n u where n: "utf8_front b bs = Inr n" and u: "from_utf8 (drop (n - 1) bs) = Some u" "t = take n (b # bs) @ u"
    by (auto split: sum.splits)
  have "u = drop (n - 1) bs" using 2(1) [OF n u(1)] .
  moreover have "take n (b # bs) @ drop (n - 1) bs = b # bs" using utf8_front_bound [OF n] by (cases n) auto
  ultimately show ?case using u(2) by simp
qed

lemma from_utf8_append: "from_utf8 a = Some a' \<Longrightarrow> from_utf8 (a @ b) = map_option ((@) a) (from_utf8 b)"
proof (induction a arbitrary: a' rule: from_utf8.induct)
  case 1
  then show ?case by (simp add: map_option.id [unfolded id_def])
next
  case (2 c cs)
  then obtain n u where n: "utf8_front c cs = Inr n" and u: "from_utf8 (drop (n - 1) cs) = Some u"
    by (auto split: sum.splits)
  have bound: "1 \<le> n" "n - 1 \<le> length cs" using utf8_front_bound [OF n] by simp_all
  have "from_utf8 (drop (n - 1) cs @ b) = map_option ((@) (drop (n - 1) cs)) (from_utf8 b)"
    by (rule 2(1) [OF n u])
  moreover have "take n (c # cs @ b) = take n (c # cs)" using bound by (cases n) simp_all
  moreover have "take n (c # cs) @ drop (n - 1) cs = c # cs" using bound by (cases n) auto
  ultimately show ?case
    using bound utf8_front_append [OF n, of b] by (simp add: option.map_comp comp_def flip: append_assoc)
qed

lemma from_utf8_newline [simp]: "from_utf8 newline = Some newline"
  by code_simp

lemma split_inclusive_line:
  "newline \<noteq> [] \<Longrightarrow> \<forall>c \<in> set l. [c] \<noteq> newline \<Longrightarrow> split_inclusive (l @ newline @ rest) = (l @ newline) # split_inclusive rest"
  by (induction l) (simp_all add: newline_def)

lemma split_inclusive_last: "\<forall>c \<in> set l. [c] \<noteq> newline \<Longrightarrow> split_inclusive l = (if l = [] then [] else [l])"
  by (induction l) simp_all

section \<open>What the serializer promises\<close>

text \<open>
  A turn is written as one line of JSON: no line feed or carriage return in it, valid UTF-8, and
  reading it gives the turn back.
\<close>

definition line_clean :: "string \<Rightarrow> bool" where
  "line_clean l \<longleftrightarrow> l \<noteq> [] \<and> from_utf8 l = Some l \<and> (\<forall>c \<in> set l. [c] \<noteq> newline \<and> [c] \<noteq> carriage_return)"

definition turns_roundtrip :: "(turn \<Rightarrow> string option) \<Rightarrow> (string \<Rightarrow> turn option) \<Rightarrow> turn list \<Rightarrow> bool" where
  "turns_roundtrip to_line from_line ts \<longleftrightarrow>
     (\<forall>t \<in> set ts. case to_line t of None \<Rightarrow> False | Some l \<Rightarrow> line_clean l \<and> from_line l = Some t)"

definition headers_roundtrip ::
  "(session_header \<Rightarrow> string + string) \<Rightarrow> (string \<Rightarrow> string + session_header) \<Rightarrow> session_header \<Rightarrow> bool" where
  "headers_roundtrip header_line read_header h \<longleftrightarrow>
     (case header_line h of Inl _ \<Rightarrow> False | Inr l \<Rightarrow> line_clean l \<and> read_header l = Inr h)"

text \<open>JSON objects are self-delimiting: what is left of a line that was cut does not parse.\<close>

definition cut_lines_unreadable :: "(turn \<Rightarrow> string option) \<Rightarrow> (string \<Rightarrow> turn option) \<Rightarrow> turn list \<Rightarrow> bool" where
  "cut_lines_unreadable to_line from_line ts \<longleftrightarrow>
     (\<forall>t \<in> set ts. \<forall>l p. to_line t = Some l \<longrightarrow> strict_prefix p l \<longrightarrow> from_line p = None)"

definition the_line :: "(turn \<Rightarrow> string option) \<Rightarrow> turn \<Rightarrow> string" where
  "the_line to_line t = the (to_line t) @ newline"

lemma the_line_ne [simp]: "the_line to_line t \<noteq> []"
  by (simp add: the_line_def newline_def)

lemma roundtripD:
  assumes "turns_roundtrip to_line from_line ts" and "t \<in> set ts"
  obtains l where "to_line t = Some l" "line_clean l" "from_line l = Some t" "the_line to_line t = l @ newline"
  using assms unfolding turns_roundtrip_def the_line_def by (auto split: option.splits)

lemma headerD:
  assumes "headers_roundtrip header_line read_header h"
  obtains l where "header_line h = Inr l" "line_clean l" "read_header l = Inr h"
proof (cases "header_line h")
  case (Inl e)
  then show ?thesis using assms by (simp add: headers_roundtrip_def)
next
  case (Inr l)
  then show ?thesis using assms that by (simp add: headers_roundtrip_def)
qed

lemma read_lines_Nil [simp]: "read_lines [] = []"
  by (simp add: read_lines_def)

lemma strip_line_end_newline: "line_clean l \<Longrightarrow> strip_line_end (l @ newline) = l"
proof -
  assume clean: "line_clean l"
  then have "l \<noteq> []" "[last l] \<noteq> carriage_return" by (auto simp: line_clean_def)
  then have "\<not> suffix carriage_return l"
    by (auto simp: suffix_def carriage_return_def bytes_str_def)
  moreover have "suffix newline (l @ newline)" by (simp add: suffix_def)
  ultimately show ?thesis by (simp add: strip_line_end_def strip_suffix_def unwrap_or_def)
qed

lemma read_lines_line: "line_clean l \<Longrightarrow> read_lines (l @ newline @ rest) = Some l # read_lines rest"
proof -
  assume clean: "line_clean l"
  then have "from_utf8 (l @ newline) = Some (l @ newline)"
    using from_utf8_append [of l l newline] by (simp add: line_clean_def)
  moreover have "split_inclusive (l @ newline @ rest) = (l @ newline) # split_inclusive rest"
    using clean by (intro split_inclusive_line) (auto simp: line_clean_def newline_def)
  ultimately show ?thesis using clean by (simp add: read_lines_def strip_line_end_newline)
qed

lemma roundtrip_Cons:
  assumes "turns_roundtrip to_line from_line (t # ts)"
  shows "turns_roundtrip to_line from_line [t]" and "turns_roundtrip to_line from_line ts"
  using assms by (auto simp: turns_roundtrip_def)

lemma replay_lines:
  "turns_roundtrip to_line from_line ts \<Longrightarrow>
   replay_turns from_line (read_lines (concat (map (the_line to_line) ts) @ rest)) s
    = replay_turns from_line (read_lines rest) (fold push_loaded ts s)"
proof (induction ts arbitrary: s)
  case (Cons t ts)
  obtain l where "to_line t = Some l" "line_clean l" "from_line l = Some t" "the_line to_line t = l @ newline"
    by (rule roundtripD [OF Cons.prems, of t]) simp
  then show ?case using Cons.IH [OF roundtrip_Cons(2) [OF Cons.prems]] read_lines_line [of l] by simp
qed simp

lemma fold_push_loaded:
  "fold push_loaded ts s =
     s\<lparr>s_mode := fold mode_after ts (s_mode s), s_total_usage := fold add_usage ts (s_total_usage s),
       s_total_cost := fold add_cost ts (s_total_cost s), s_messages := s_messages s @ ts\<rparr>"
  by (induction ts arbitrary: s) (simp_all add: push_loaded_def)

section \<open>Writing\<close>

definition header_text :: "(session_header \<Rightarrow> string + string) \<Rightarrow> session_header \<Rightarrow> string" where
  "header_text header_line h = projr (header_line h) @ newline"

lemma flush_works: "io_works io \<Longrightarrow> flush_writer io path buf fs = (None, [], fs(path \<mapsto> unwrap_or [] (fs path) @ buf))"
  by (simp add: io_works_def flush_writer_def)

lemma mkdir_works: "io_works io \<Longrightarrow> with_parent io path = None"
  by (simp add: io_works_def with_parent_def split: option.split)

lemma create_works:
  assumes "io_works io" and "headers_roundtrip header_line read_header (header_of s)"
  shows "store_create io header_line path s fs =
    (Inr \<lparr>st_writer = Some [], st_path = path, st_pending_header = None\<rparr>,
     fs(path \<mapsto> header_text header_line (header_of s)))"
proof -
  obtain l where "header_line (header_of s) = Inr l" by (rule headerD [OF assms(2)])
  moreover have "io_create io path = None" using assms(1) by (simp add: io_works_def)
  ultimately show ?thesis
    by (simp add: store_create_def mkdir_works [OF assms(1)] flush_works [OF assms(1)] header_text_def unwrap_or_def)
qed

fun append_turns ::
  "store_io \<Rightarrow> (turn \<Rightarrow> string option) \<Rightarrow> turn list \<Rightarrow> session_store \<times> files \<Rightarrow> session_store \<times> files" where
  "append_turns io to_line [] sf = sf"
| "append_turns io to_line (t # ts) sf = append_turns io to_line ts (snd (append_turn io to_line t sf))"

lemma append_turn_works:
  assumes "io_works io" and "turns_roundtrip to_line from_line [t]" and "st_writer st = Some []" and "fs (st_path st) = Some b"
  shows "append_turn io to_line t (st, fs) = (None, st, fs(st_path st \<mapsto> b @ the_line to_line t))"
proof -
  obtain l where "to_line t = Some l" "the_line to_line t = l @ newline" by (rule roundtripD [OF assms(2), of t]) simp
  then show ?thesis
    using assms by (simp add: append_turn_def ensure_writer_def flush_works unwrap_or_def)
qed

lemma append_turns_works:
  assumes "io_works io"
  shows "turns_roundtrip to_line from_line ts \<Longrightarrow> st_writer st = Some [] \<Longrightarrow> fs (st_path st) = Some b \<Longrightarrow>
    append_turns io to_line ts (st, fs) = (st, fs(st_path st \<mapsto> b @ concat (map (the_line to_line) ts)))"
proof (induction ts arbitrary: fs b)
  case Nil
  then show ?case by (simp add: fun_upd_idem)
next
  case (Cons t ts)
  then show ?case
    using Cons.IH [OF roundtrip_Cons(2) [OF Cons.prems(1)] Cons.prems(2), of "fs(st_path st \<mapsto> b @ the_line to_line t)" "b @ the_line to_line t"]
    by (simp add: append_turn_works [of io to_line from_line t st fs b, OF assms roundtrip_Cons(1) [OF Cons.prems(1)] Cons.prems(2, 3)] del: fun_upd_apply add: fun_upd_same)
qed

lemma load_text:
  assumes "headers_roundtrip header_line read_header h"
    and "fs path = Some (header_text header_line h @ rest)"
  shows "load_session read_header from_line fs path = Inr (replay_turns from_line (read_lines rest) (session_of_header h))"
proof -
  obtain l where l: "header_line h = Inr l" "line_clean l" "read_header l = Inr h" by (rule headerD [OF assms(1)])
  then show ?thesis using assms(2) read_lines_line [of l rest] by (simp add: load_session_def header_text_def)
qed

section \<open>Torn files\<close>

text \<open>How many bytes the first \<open>k\<close> turns take.\<close>

definition written :: "(turn \<Rightarrow> string option) \<Rightarrow> turn list \<Rightarrow> nat \<Rightarrow> nat" where
  "written to_line ts k = length (concat (map (the_line to_line) (take k ts)))"

lemma cut_lines:
  "turns_roundtrip to_line from_line ts \<Longrightarrow> cut_lines_unreadable to_line from_line ts \<Longrightarrow>
   \<exists>k \<le> length ts. replay_turns from_line (read_lines (take m (concat (map (the_line to_line) ts)))) s = fold push_loaded (take k ts) s
    \<and> written to_line ts k \<le> m + 1 \<and> (k < length ts \<longrightarrow> m + 1 < written to_line ts (k + 1))"
proof (induction ts arbitrary: m s)
  case Nil
  then show ?case by (simp add: written_def)
next
  case (Cons t ts)
  obtain l where l: "to_line t = Some l" "line_clean l" "from_line l = Some t" "the_line to_line t = l @ newline"
    by (rule roundtripD [OF Cons.prems(1), of t]) simp
  have clean: "\<forall>c \<in> set l. [c] \<noteq> newline" using l(2) by (simp add: line_clean_def)
  have one: "length newline = 1" by (simp add: newline_def)
  show ?case
  proof (cases "m \<le> length l")
    case True
    then have cut: "take m (concat (map (the_line to_line) (t # ts))) = take m l" using l(4) by simp
    have cleanm: "\<forall>c \<in> set (take m l). [c] \<noteq> newline" using clean by (meson in_set_takeD)
    have lines: "read_lines (take m l) = (if take m l = [] then [] else [map_option strip_line_end (from_utf8 (take m l))])"
      using split_inclusive_last [of "take m l"] cleanm by (simp add: read_lines_def)
    have no_end: "strip_line_end p = p" if "\<forall>c \<in> set p. [c] \<noteq> newline" for p
      using that by (cases p rule: rev_cases) (auto simp: strip_line_end_def strip_suffix_def newline_def suffix_def)
    show ?thesis
    proof (cases "m = length l")
      case True
      then have "replay_turns from_line (read_lines (take m l)) s = push_loaded t s"
        using l(2, 3) no_end [OF clean] lines by (simp add: line_clean_def)
      then show ?thesis
        unfolding cut using True l(4) one by (intro exI [of _ 1]) (auto simp: written_def take_Suc)
    next
      case False
      with \<open>m \<le> length l\<close> have strict: "strict_prefix (take m l) l" "m < length l"
        by (auto simp: strict_prefix_def take_is_prefix)
      have "from_line (take m l) = None"
        using Cons.prems(2) l(1) strict(1) unfolding cut_lines_unreadable_def by (meson list.set_intros(1))
      moreover have "strip_line_end (take m l) = take m l" using cleanm by (rule no_end)
      ultimately have "replay_turns from_line (read_lines (take m l)) s = s"
        using lines from_utf8_id [of "take m l"] by (cases "from_utf8 (take m l)") auto
      then show ?thesis
        unfolding cut using strict(2) l(4) one by (intro exI [of _ 0]) (auto simp: written_def take_Suc)
    qed
  next
    case False
    then have cut: "take m (concat (map (the_line to_line) (t # ts))) = l @ newline @ take (m - length l - 1) (concat (map (the_line to_line) ts))"
      using l(4) one by simp
    obtain k where k: "k \<le> length ts"
      "replay_turns from_line (read_lines (take (m - length l - 1) (concat (map (the_line to_line) ts)))) (push_loaded t s)
         = fold push_loaded (take k ts) (push_loaded t s)"
      "written to_line ts k \<le> m - length l - 1 + 1"
      "k < length ts \<longrightarrow> m - length l - 1 + 1 < written to_line ts (k + 1)"
      using Cons.IH [of "m - length l - 1" "push_loaded t s"] Cons.prems roundtrip_Cons(2) [OF Cons.prems(1)]
      by (auto simp: cut_lines_unreadable_def)
    have "written to_line (t # ts) (Suc j) = length l + 1 + written to_line ts j" for j
      using l(4) one by (simp add: written_def)
    then show ?thesis
      unfolding cut using k l(2, 3) read_lines_line [OF l(2)] False
      by (intro exI [of _ "Suc k"]) auto
  qed
qed

section \<open>The session to continue\<close>

lemma max_by_key_SomeD: "max_by_key f xs = Some x \<Longrightarrow> x \<in> set xs \<and> (\<forall>y \<in> set xs. f y \<le> f x)"
proof (induction xs arbitrary: x)
  case (Cons a xs)
  show ?case
  proof (cases "max_by_key f xs")
    case None
    then have "xs = []" by (cases xs) (auto split: option.splits if_splits)
    with Cons.prems show ?thesis by simp
  next
    case (Some y)
    with Cons.IH [OF Some] Cons.prems show ?thesis by (auto split: if_splits)
  qed
qed simp

lemma set_map_filter: "set (List.map_filter f xs) = {y. \<exists>x \<in> set xs. f x = Some y}"
  by (induction xs) (auto simp: List.map_filter_simps split: option.splits)

text \<open>The session continued is the newest that has turns; one that died at its start is passed over.\<close>

lemma latest_session_newest:
  assumes "latest_session fs (Some entries) = Some p"
  shows "\<exists>m. (p, Some m) \<in> set entries \<and> is_jsonl p \<and> has_turns fs p
    \<and> (\<forall>q n. (q, Some n) \<in> set entries \<longrightarrow> is_jsonl q \<longrightarrow> has_turns fs q \<longrightarrow> n \<le> m)"
proof -
  let ?pick = "\<lambda>(p, m). if is_jsonl p then map_option (Pair p) m else None"
  let ?cands = "filter (\<lambda>(p, m). has_turns fs p) (List.map_filter ?pick entries)"
  obtain m where "max_by_key snd ?cands = Some (p, m)"
    using assms by (auto simp: latest_session_def)
  from max_by_key_SomeD [OF this] have "(p, m) \<in> set ?cands" and best: "\<forall>y \<in> set ?cands. snd y \<le> m" by simp_all
  moreover have mem: "(q, n) \<in> set ?cands \<longleftrightarrow> (q, Some n) \<in> set entries \<and> is_jsonl q \<and> has_turns fs q" for q n
    by (auto simp: set_map_filter split: if_splits intro!: bexI [of _ "(q, Some n)"])
  ultimately show ?thesis by (intro exI [of _ m]) fastforce
qed

section \<open>Properties\<close>

text \<open>
  C21: a session written to a file that was created for it survives a cut of that file at any byte behind the header. The file is created
  by \<open>store_create\<close>, the turns are appended to it, and then it is cut: loading succeeds and gives the session of the first turns, in order: every
  turn whose line is complete is there, none that was cut is, and mode, usage and cost are those of
  the turns that are there. With nothing cut it is the whole session. The hypotheses: while the session is written no disk operation fails (\<open>io_works\<close>);
  \<open>serde_json\<close> reads back the header and each turn and writes each on one line (\<open>headers_roundtrip\<close>, \<open>turns_roundtrip\<close>); and no proper
  prefix of the line of a turn parses as a turn (\<open>cut_lines_unreadable\<close>), as for every JSON object. A file that was reopened after a
  cut is not covered: there the first turns appended are lost, \<open>resumed_turns_lost\<close> below.
\<close>

theorem load_recovers_prefix:
  assumes "io_works io" and "headers_roundtrip header_line read_header (header_of s)"
    and "turns_roundtrip to_line from_line ts" and "cut_lines_unreadable to_line from_line ts"
    and "store_create io header_line path s fs = (Inr st, fs1)"
    and "append_turns io to_line ts (st, fs1) = (st', fs2)"
    and "fs3 path = map_option (take (length (header_text header_line (header_of s)) + m)) (fs2 path)"
  shows "\<exists>k \<le> length ts. load_session read_header from_line fs3 path =
      Inr ((session_of_header (header_of s))\<lparr>s_mode := fold mode_after (take k ts) (s_mode s),
        s_total_usage := fold add_usage (take k ts) usage_default, s_total_cost := fold add_cost (take k ts) 0,
        s_messages := take k ts\<rparr>)
    \<and> written to_line ts k \<le> m + 1 \<and> (k < length ts \<longrightarrow> m + 1 < written to_line ts (k + 1))"
proof -
  let ?h = "header_text header_line (header_of s)" and ?body = "concat (map (the_line to_line) ts)"
  have "st = \<lparr>st_writer = Some [], st_path = path, st_pending_header = None\<rparr>" "fs1 = fs(path \<mapsto> ?h)"
    using assms(5) create_works [OF assms(1, 2)] by auto
  then have "fs2 path = Some (?h @ ?body)"
    using assms(6) append_turns_works [OF assms(1, 3), of st fs1 ?h] by auto
  then have cut: "fs3 path = Some (?h @ take m ?body)" using assms(7) by simp
  obtain k where k: "k \<le> length ts"
    "replay_turns from_line (read_lines (take m ?body)) (session_of_header (header_of s)) = fold push_loaded (take k ts) (session_of_header (header_of s))"
    "written to_line ts k \<le> m + 1" "k < length ts \<longrightarrow> m + 1 < written to_line ts (k + 1)"
    using cut_lines [OF assms(3, 4)] by blast
  show ?thesis
    using k load_text [of header_line read_header "header_of s" fs3 path _ from_line, OF assms(2) cut]
    by (intro exI [of _ k]) (simp add: fold_push_loaded session_of_header_def session_new_def header_of_def)
qed

text \<open>A writer that knows two turns, and its reader.\<close>

definition demo_turns :: "turn list" where
  "demo_turns = [User ''hi'' 0, SystemNote ModeChange ''plan'']"

definition demo_to_line :: "turn \<Rightarrow> string option" where
  "demo_to_line t = (if t = User ''hi'' 0 then Some ''{u}'' else Some ''{note}'')"

definition demo_from_line :: "string \<Rightarrow> turn option" where
  "demo_from_line l =
     (if l = ''{u}'' then Some (User ''hi'' 0) else if l = ''{note}'' then Some (SystemNote ModeChange ''plan'') else None)"

definition demo_stored :: stored_session where
  "demo_stored = session_new ''x'' ''/'' ''m''"

definition demo_read_header :: "string \<Rightarrow> string + session_header" where
  "demo_read_header l = Inr (header_of demo_stored)"

definition demo_io :: store_io where
  "demo_io = \<lparr>io_mkdir = (\<lambda>_. None), io_create = (\<lambda>_. None), io_flush = (\<lambda>b. (length b, None))\<rparr>"

lemma demo_store_ok:
  "io_works demo_io" "headers_roundtrip (\<lambda>_. Inr ''{h}'') demo_read_header (header_of demo_stored)"
  "turns_roundtrip demo_to_line demo_from_line demo_turns" "cut_lines_unreadable demo_to_line demo_from_line demo_turns"
proof -
  have clean: "line_clean ''{h}''" "line_clean ''{u}''" "line_clean ''{note}''"
    unfolding line_clean_def by code_simp+
  show "io_works demo_io" by (simp add: io_works_def demo_io_def)
  show "headers_roundtrip (\<lambda>_. Inr ''{h}'') demo_read_header (header_of demo_stored)"
    using clean by (simp add: headers_roundtrip_def demo_read_header_def)
  show "turns_roundtrip demo_to_line demo_from_line demo_turns"
    using clean by (simp add: turns_roundtrip_def demo_turns_def demo_to_line_def demo_from_line_def)
  show "cut_lines_unreadable demo_to_line demo_from_line demo_turns"
    by (auto simp: cut_lines_unreadable_def demo_turns_def demo_to_line_def demo_from_line_def strict_prefix_def prefix_Cons
        split: if_splits)
qed

text \<open>The file is cut inside the second turn: the first is there, the mode is the one of the header.\<close>

theorem load_recovers_prefix_witness:
  "\<exists>k \<le> length demo_turns.
     load_session demo_read_header demo_from_line
       (\<lambda>p. if p = ''f'' then Some (''{h}'' @ newline @ ''{u}'' @ newline @ ''{n'') else None) ''f'' =
     Inr ((session_of_header (header_of demo_stored))\<lparr>s_mode := fold mode_after (take k demo_turns) ModeDefault,
        s_total_usage := fold add_usage (take k demo_turns) usage_default, s_total_cost := fold add_cost (take k demo_turns) 0,
        s_messages := take k demo_turns\<rparr>)"
proof -
  let ?st = "\<lparr>st_writer = Some [], st_path = ''f'', st_pending_header = None\<rparr>"
  let ?fs1 = "(\<lambda>_. None)(''f'' \<mapsto> ''{h}'' @ newline)"
  let ?fs2 = "?fs1(''f'' \<mapsto> (''{h}'' @ newline) @ concat (map (the_line demo_to_line) demo_turns))"
  have "store_create demo_io (\<lambda>_. Inr ''{h}'') ''f'' demo_stored (\<lambda>_. None) = (Inr ?st, ?fs1)"
    using create_works [OF demo_store_ok(1, 2)] by (simp add: header_text_def)
  moreover have "append_turns demo_io demo_to_line demo_turns (?st, ?fs1) = (?st, ?fs2)"
    using append_turns_works [OF demo_store_ok(1, 3), of ?st ?fs1] by simp
  ultimately have "\<exists>k \<le> length demo_turns. load_session demo_read_header demo_from_line
       (\<lambda>p. if p = ''f'' then Some (''{h}'' @ newline @ ''{u}'' @ newline @ ''{n'') else None) ''f'' =
      Inr ((session_of_header (header_of demo_stored))\<lparr>s_mode := fold mode_after (take k demo_turns) (s_mode demo_stored),
        s_total_usage := fold add_usage (take k demo_turns) usage_default, s_total_cost := fold add_cost (take k demo_turns) 0,
        s_messages := take k demo_turns\<rparr>)
    \<and> written demo_to_line demo_turns k \<le> 6 + 1 \<and> (k < length demo_turns \<longrightarrow> 6 + 1 < written demo_to_line demo_turns (k + 1))"
    by (rule load_recovers_prefix [OF demo_store_ok])
       (simp add: header_text_def the_line_def demo_turns_def demo_to_line_def newline_def eval_nat_numeral)
  then show ?thesis by (auto simp: demo_stored_def session_new_def)
qed

text \<open>
  A session that is resumed after such a crash loses turns. The store is reopened for appending
  behind the torn line without ending it, so the next turn is written onto that line: it does not
  parse, and the turn is gone at the next load. If the crash cut a character in two, the line is no
  longer UTF-8 and loading stops there: every turn of the resumed session is lost.
\<close>

theorem resumed_turns_lost:
  assumes "io_works io" and "headers_roundtrip header_line read_header h"
    and "turns_roundtrip to_line from_line (ts @ t # later)"
    and "fs path = Some (header_text header_line h @ concat (map (the_line to_line) ts) @ torn)"
    and "\<forall>c \<in> set torn. [c] \<noteq> newline" and "from_utf8 (torn @ the_line to_line t) = None"
    and "store_open_append io path fs = Inr st"
    and "append_turns io to_line (t # later) (st, fs) = (st', fs')"
  shows "load_session read_header from_line fs' path = Inr (fold push_loaded ts (session_of_header h))"
proof -
  obtain l where l: "to_line t = Some l" "line_clean l" "the_line to_line t = l @ newline"
    by (rule roundtripD [OF assms(3), of t]) simp
  have parts: "turns_roundtrip to_line from_line ts" "turns_roundtrip to_line from_line (t # later)"
    using assms(3) by (simp_all add: turns_roundtrip_def)
  have st: "st = \<lparr>st_writer = Some [], st_path = path, st_pending_header = None\<rparr>"
    using assms(4, 7) by (simp add: store_open_append_def split: option.splits)
  have cut: "fs' path = Some (header_text header_line h @ concat (map (the_line to_line) ts)
      @ (torn @ l) @ newline @ concat (map (the_line to_line) later))"
    using append_turns_works [OF assms(1) parts(2), of st fs] assms(4, 8) st l(3) by auto
  have "split_inclusive ((torn @ l) @ newline @ concat (map (the_line to_line) later))
      = ((torn @ l) @ newline) # split_inclusive (concat (map (the_line to_line) later))"
    using assms(5) l(2) by (intro split_inclusive_line) (auto simp: line_clean_def newline_def)
  then have "read_lines ((torn @ l) @ newline @ concat (map (the_line to_line) later))
      = None # read_lines (concat (map (the_line to_line) later))"
    using assms(6) l(3) by (simp add: read_lines_def)
  then show ?thesis
    using load_text [of header_line read_header h fs' path _ from_line, OF assms(2) cut] replay_lines [OF parts(1)] by simp
qed

text \<open>The crash left the first byte of a two-byte character.\<close>

theorem resumed_turns_lost_witness:
  "load_session demo_read_header demo_from_line
     (\<lambda>p. if p = ''f'' then Some (''{h}'' @ newline @ ''{u}'' @ newline @ bytes_str [195] @ ''{note}'' @ newline) else None) ''f''
   = Inr (fold push_loaded [User ''hi'' 0] (session_of_header (header_of demo_stored)))"
proof -
  let ?st = "\<lparr>st_writer = Some [], st_path = ''f'', st_pending_header = None\<rparr>"
  let ?b = "header_text (\<lambda>_. Inr ''{h}'') (header_of demo_stored) @ concat (map (the_line demo_to_line) [User ''hi'' 0]) @ bytes_str [195]"
  let ?fs = "(\<lambda>_. None)(''f'' \<mapsto> ?b)"
  let ?t = "SystemNote ModeChange ''plan''"
  have ok: "turns_roundtrip demo_to_line demo_from_line ([User ''hi'' 0] @ ?t # [])"
    using demo_store_ok(3) by (simp add: demo_turns_def)
  then have ok2: "turns_roundtrip demo_to_line demo_from_line [?t]" by (auto simp: turns_roundtrip_def)
  have bad: "from_utf8 (bytes_str [195] @ the_line demo_to_line ?t) = None" by code_simp
  have torn: "\<forall>c \<in> set (bytes_str [195]). [c] \<noteq> newline" by code_simp
  have "store_open_append demo_io ''f'' ?fs = Inr ?st"
    by (simp add: store_open_append_def demo_io_def)
  moreover have "append_turns demo_io demo_to_line [?t] (?st, ?fs) = (?st, ?fs(''f'' \<mapsto> ?b @ the_line demo_to_line ?t))"
    using append_turns_works [OF demo_store_ok(1) ok2, of ?st ?fs ?b] by simp
  ultimately have "load_session demo_read_header demo_from_line (?fs(''f'' \<mapsto> ?b @ the_line demo_to_line ?t)) ''f''
      = Inr (fold push_loaded [User ''hi'' 0] (session_of_header (header_of demo_stored)))"
    using resumed_turns_lost [OF demo_store_ok(1, 2) ok _ torn bad, of ?fs "''f''"] by simp
  then show ?thesis
    by (simp add: load_session_def header_text_def the_line_def demo_to_line_def)
qed

end
