(* ===== verification/DLR_Frame.thy ===== *)
theory DLR_Frame
  imports Rust_Prelude
begin

text \<open>
  The data and the wire format of \<open>integrations/dlr/crates/core\<close>: blocks and their canonical bytes
  (\<open>block.rs\<close>, \<open>canonical.rs\<close>), the chained root (\<open>merkle.rs\<close>), the frames and their codec (\<open>frame.rs\<close>), and
  the shard of a session (\<open>session.rs\<close>). \<open>blake3\<close> is a parameter: a hasher that is fed several slices
  digests their concatenation. A reader consumes bytes from the front; \<open>None\<close> is a panic.
\<close>

section \<open>Little-endian integers\<close>

type_synonym bytes = "u8 list"
type_synonym u128 = "128 word"

text \<open>\<open>to_le_bytes\<close> of an integer of \<open>n\<close> bytes, and \<open>from_le_bytes\<close>.\<close>

fun le_bytes :: "nat \<Rightarrow> int \<Rightarrow> bytes" where
  "le_bytes 0 x = []"
| "le_bytes (Suc n) x = word_of_int x # le_bytes n (x div 256)"

fun from_le :: "bytes \<Rightarrow> int" where
  "from_le [] = 0"
| "from_le (b # bs) = uint b + 256 * from_le bs"

lemma length_le_bytes [simp]: "length (le_bytes n x) = n"
  by (induction n arbitrary: x) simp_all

lemma from_le_bytes: "from_le (le_bytes n x) = x mod 256 ^ n"
proof (induction n arbitrary: x)
  case (Suc n)
  have "from_le (le_bytes (Suc n) x) = x mod 256 + 256 * ((x div 256) mod 256 ^ n)"
    by (simp add: Suc uint_word_of_int)
  also have "\<dots> = x mod 256 ^ Suc n"
    by (simp add: zmod_zmult2_eq)
  finally show ?case .
qed simp

lemma from_le_range: "0 \<le> from_le bs \<and> from_le bs < 256 ^ length bs"
proof (induction bs)
  case (Cons b bs)
  have "0 \<le> uint b" "uint b < 256"
    using uint_range_size [of b] by (simp_all add: word_size)
  with Cons show ?case by simp
qed simp

lemma le_bytes_from_le: "le_bytes (length bs) (from_le bs) = bs"
proof (induction bs)
  case (Cons b bs)
  have "0 \<le> uint b" "uint b < 256"
    using uint_range_size [of b] by (simp_all add: word_size)
  then have "(uint b + 256 * from_le bs) div 256 = from_le bs"
    by simp
  moreover have "word_of_int (uint b + 256 * from_le bs) = b"
  proof -
    have "(256 :: u8) = 0" by simp
    then show ?thesis by (simp only: wi_hom_syms word_of_int_uint of_int_numeral) simp
  qed
  ultimately show ?case using Cons by simp
qed simp

definition u32_le :: "u32 \<Rightarrow> bytes" where
  "u32_le v = le_bytes 4 (uint v)"

definition u64_le :: "u64 \<Rightarrow> bytes" where
  "u64_le v = le_bytes 8 (uint v)"

definition u128_le :: "u128 \<Rightarrow> bytes" where
  "u128_le v = le_bytes 16 (uint v)"

definition u32_of_le :: "bytes \<Rightarrow> u32" where
  "u32_of_le bs = word_of_int (from_le bs)"

definition u64_of_le :: "bytes \<Rightarrow> u64" where
  "u64_of_le bs = word_of_int (from_le bs)"

definition u128_of_le :: "bytes \<Rightarrow> u128" where
  "u128_of_le bs = word_of_int (from_le bs)"

named_theorems le_simps \<open>encoding and decoding of integers\<close>

lemma u32_le_inverse [le_simps]: "u32_of_le (u32_le v) = v"
  using uint_range_size [of v] by (simp add: u32_of_le_def u32_le_def from_le_bytes word_size)

lemma u64_le_inverse [le_simps]: "u64_of_le (u64_le v) = v"
  using uint_range_size [of v] by (simp add: u64_of_le_def u64_le_def from_le_bytes word_size)

lemma u128_le_inverse [le_simps]: "u128_of_le (u128_le v) = v"
  using uint_range_size [of v] by (simp add: u128_of_le_def u128_le_def from_le_bytes word_size)

lemma length_le [le_simps, simp]: "length (u32_le v) = 4" "length (u64_le w) = 8" "length (u128_le x) = 16"
  by (simp_all add: u32_le_def u64_le_def u128_le_def)

lemma unat_u32_of_nat [le_simps]: "n < 4294967296 \<Longrightarrow> unat (word_of_nat n :: u32) = n"
  by (simp add: unat_of_nat)

lemma unat_u64_of_nat [le_simps]: "n < 18446744073709551616 \<Longrightarrow> unat (word_of_nat n :: u64) = n"
  by (simp add: unat_of_nat)

lemma u32_of_le_zero:
  assumes "length bs = 4" and "u32_of_le bs = 0"
  shows "bs = [0, 0, 0, 0]"
proof -
  have "from_le bs < 4294967296" using from_le_range [of bs] assms by simp
  then have "from_le bs = 0"
    using assms from_le_range [of bs] by (simp add: u32_of_le_def word_of_int_eq_0_iff zdvd_not_zless)
       (metis zdvd_not_zless le_less)
  then show ?thesis using le_bytes_from_le [of bs] assms by (simp add: numeral_eq_Suc)
qed

section \<open>Blocks\<close>

datatype block_kind = Message | ToolCall | ToolResult | System | Summary

definition kind_to_byte :: "block_kind \<Rightarrow> u8" where
  "kind_to_byte k = (case k of Message \<Rightarrow> 1 | ToolCall \<Rightarrow> 2 | ToolResult \<Rightarrow> 3 | System \<Rightarrow> 4 | Summary \<Rightarrow> 5)"

definition kind_from_byte :: "u8 \<Rightarrow> block_kind option" where
  "kind_from_byte b = (if b = 1 then Some Message else if b = 2 then Some ToolCall else if b = 3 then Some ToolResult
     else if b = 4 then Some System else if b = 5 then Some Summary else None)"

lemma kind_byte_inverse [simp]: "kind_from_byte (kind_to_byte k) = Some k"
  by (cases k) (simp_all add: kind_to_byte_def kind_from_byte_def)

record dlr_block =
  bk_kind :: block_kind
  bk_seq :: u64
  bk_payload :: bytes

definition block_new :: "block_kind \<Rightarrow> u64 \<Rightarrow> bytes \<Rightarrow> dlr_block" where
  "block_new kind seq payload = \<lparr>bk_kind = kind, bk_seq = seq, bk_payload = payload\<rparr>"

text \<open>The 17 bytes that \<open>canonical_into\<close> packs before the payload.\<close>

definition canonical_header :: "dlr_block \<Rightarrow> bytes" where
  "canonical_header b = kind_to_byte (bk_kind b) # u64_le (bk_seq b) @ u64_le (word_of_nat (length (bk_payload b)))"

definition canonical_into :: "dlr_block \<Rightarrow> bytes list" where
  "canonical_into b = [canonical_header b, bk_payload b]"

text \<open>A hasher fed the slices \<open>us\<close>.\<close>

definition hasher_finalize :: "(bytes \<Rightarrow> bytes) \<Rightarrow> bytes list \<Rightarrow> bytes" where
  "hasher_finalize blake3 us = blake3 (concat us)"

definition block_block_id :: "(bytes \<Rightarrow> bytes) \<Rightarrow> dlr_block \<Rightarrow> bytes" where
  "block_block_id blake3 b = hasher_finalize blake3 (canonical_into b)"

definition block_fingerprint :: "(bytes \<Rightarrow> bytes) \<Rightarrow> (bytes \<Rightarrow> u64) \<Rightarrow> dlr_block \<Rightarrow> u64" where
  "block_fingerprint blake3 xxh3 b = xxh3 (block_block_id blake3 b)"

definition block_id_from_canonical :: "(bytes \<Rightarrow> bytes) \<Rightarrow> bytes \<Rightarrow> bytes" where
  "block_id_from_canonical blake3 canon = hasher_finalize blake3 [canon]"

section \<open>Canonical bytes\<close>

definition max_block_payload :: u64 where
  "max_block_payload = 1073741824"

definition canonical_bytes :: "dlr_block \<Rightarrow> bytes" where
  "canonical_bytes b =
     [kind_to_byte (bk_kind b)] @ u64_le (bk_seq b) @ u64_le (word_of_nat (length (bk_payload b))) @ bk_payload b"

definition canonical_bytes_and_id :: "(bytes \<Rightarrow> bytes) \<Rightarrow> dlr_block \<Rightarrow> bytes \<times> bytes" where
  "canonical_bytes_and_id blake3 b =
     (canonical_header b @ bk_payload b, hasher_finalize blake3 [canonical_header b, bk_payload b])"

text \<open>\<open>&buf[i..j]\<close>.\<close>

definition sub_slice :: "nat \<Rightarrow> nat \<Rightarrow> 'a list \<Rightarrow> 'a list" where
  "sub_slice i j xs = take (j - i) (drop i xs)"

definition from_canonical :: "bytes \<Rightarrow> string + dlr_block" where
  "from_canonical buf =
     (if length buf < 17 then Inl ''buffer too short for canonical block''
      else case kind_from_byte (buf ! 0) of
        None \<Rightarrow> Inl ''unknown block kind''
      | Some kind \<Rightarrow>
          (let seq = u64_of_le (sub_slice 1 9 buf);
               len = u64_of_le (sub_slice 9 17 buf)
           in if len > max_block_payload then Inl ''payload length exceeds maximum''
              else if 17 + unat len \<ge> 2 ^ 64 then Inl ''payload length exceeds maximum''
              else if length buf < 17 + unat len then Inl ''payload truncated''
              else Inr \<lparr>bk_kind = kind, bk_seq = seq, bk_payload = sub_slice 17 (17 + unat len) buf\<rparr>))"

definition from_canonical_owned :: "(bytes \<Rightarrow> bytes) \<Rightarrow> bytes \<Rightarrow> string + (dlr_block \<times> bytes)" where
  "from_canonical_owned blake3 canon =
     (if length canon < 17 then Inl ''buffer too short for canonical block''
      else case kind_from_byte (canon ! 0) of
        None \<Rightarrow> Inl ''unknown block kind''
      | Some kind \<Rightarrow>
          (let seq = u64_of_le (sub_slice 1 9 canon);
               len = u64_of_le (sub_slice 9 17 canon)
           in if len > max_block_payload then Inl ''payload length exceeds maximum''
              else if 17 + unat len \<ge> 2 ^ 64 then Inl ''payload length exceeds maximum''
              else if length canon < 17 + unat len then Inl ''payload truncated''
              else (let end = 17 + unat len;
                        hash = hasher_finalize blake3 [take 17 canon, sub_slice 17 end canon]
                    in Inr (\<lparr>bk_kind = kind, bk_seq = seq, bk_payload = sub_slice 17 end canon\<rparr>, hash))))"

section \<open>The chained root\<close>

definition root_zero :: bytes where
  "root_zero = replicate 32 0"

definition append_root :: "(bytes \<Rightarrow> bytes) \<Rightarrow> bytes \<Rightarrow> bytes \<Rightarrow> bytes" where
  "append_root blake3 prev block_id = blake3 (prev @ block_id)"

definition root_over :: "(bytes \<Rightarrow> bytes) \<Rightarrow> bytes \<Rightarrow> bytes list \<Rightarrow> bytes" where
  "root_over blake3 start ids = foldl (append_root blake3) start ids"

section \<open>Frames\<close>

datatype frame_error = Truncated | UnknownTag u8 | UnknownKind u8 | TooLarge nat | MissingRef

datatype frame_block = Inline dlr_block | Ref bytes

record append_frame =
  ap_session_id :: u128
  ap_base_root :: bytes
  ap_blocks :: "frame_block list"

record resync_frame =
  rs_session_id :: u128
  rs_client_root :: bytes
  rs_manifest :: "bytes list"

record bulk_frame =
  bu_session_id :: u128
  bu_generation :: u32
  bu_k :: u32
  bu_symbol_size :: u32
  bu_symbols :: "bytes list"

record ack_frame =
  ak_session_id :: u128
  ak_root :: bytes

record missing_frame =
  ms_session_id :: u128
  ms_missing :: "bytes list"

datatype frame = Append append_frame | Resync resync_frame | Bulk bulk_frame | Ack ack_frame | Missing missing_frame

definition ref_bit :: u8 where
  "ref_bit = 128"

definition max_inline_payload :: nat where
  "max_inline_payload = 2 ^ 30"

definition max_frame_count :: nat where
  "max_frame_count = 2 ^ 24"

subsection \<open>Encoding\<close>

definition encode_frame_block :: "frame_block \<Rightarrow> bytes" where
  "encode_frame_block fb =
     (case fb of
        Inline b \<Rightarrow>
          u32_le (word_of_nat (1 + 8 + 8 + length (bk_payload b)))
          @ [and (kind_to_byte (bk_kind b)) (not ref_bit)]
          @ u64_le (bk_seq b) @ u64_le (word_of_nat (length (bk_payload b))) @ bk_payload b
      | Ref block_id \<Rightarrow> u32_le 33 @ [ref_bit] @ block_id)"

definition encode_symbol :: "bytes \<Rightarrow> bytes" where
  "encode_symbol s = u32_le (word_of_nat (length s)) @ s"

definition encode_frame :: "frame \<Rightarrow> bytes" where
  "encode_frame f =
     (case f of
        Append a \<Rightarrow> [1] @ u128_le (ap_session_id a) @ ap_base_root a @ u32_le (word_of_nat (length (ap_blocks a)))
          @ concat (map encode_frame_block (ap_blocks a))
      | Resync r \<Rightarrow> [2] @ u128_le (rs_session_id r) @ rs_client_root r @ u32_le (word_of_nat (length (rs_manifest r)))
          @ concat (rs_manifest r)
      | Bulk b \<Rightarrow> [3] @ u128_le (bu_session_id b) @ u32_le (bu_generation b) @ u32_le (bu_k b)
          @ u32_le (bu_symbol_size b) @ u32_le (word_of_nat (length (bu_symbols b)))
          @ concat (map encode_symbol (bu_symbols b))
      | Ack a \<Rightarrow> [4] @ u128_le (ak_session_id a) @ ak_root a
      | Missing m \<Rightarrow> [5] @ u128_le (ms_session_id m) @ u32_le (word_of_nat (length (ms_missing m)))
          @ concat (ms_missing m))"

text \<open>The capacity that \<open>encode_frame\<close> reserves before it writes.\<close>

definition frame_block_size :: "frame_block \<Rightarrow> nat" where
  "frame_block_size fb = (case fb of Inline b \<Rightarrow> 4 + 1 + 8 + 8 + length (bk_payload b) | Ref _ \<Rightarrow> 4 + 1 + 32)"

definition frame_capacity :: "frame \<Rightarrow> nat" where
  "frame_capacity f =
     (case f of
        Append a \<Rightarrow> 53 + sum_list (map frame_block_size (ap_blocks a))
      | Resync r \<Rightarrow> 53 + length (rs_manifest r) * 32
      | Bulk b \<Rightarrow> 33 + sum_list (map (\<lambda>s. 4 + length s) (bu_symbols b))
      | Missing m \<Rightarrow> 21 + length (ms_missing m) * 32
      | Ack _ \<Rightarrow> 1 + 16 + 32)"

subsection \<open>Decoding\<close>

type_synonym 'a reader = "bytes \<Rightarrow> (frame_error + 'a \<times> bytes) option"

text \<open>\<open>?\<close> on a reader, and a reader that reads nothing.\<close>

definition read_then :: "'a reader \<Rightarrow> ('a \<Rightarrow> 'b reader) \<Rightarrow> 'b reader" where
  "read_then m f r =
     (case m r of None \<Rightarrow> None | Some (Inl e) \<Rightarrow> Some (Inl e) | Some (Inr (x, r')) \<Rightarrow> f x r')"

definition read_done :: "'a \<Rightarrow> 'a reader" where
  "read_done x r = Some (Inr (x, r))"

text \<open>\<open>for _ in 0..n { v.push(read(&mut r)?) }\<close>.\<close>

fun read_many :: "nat \<Rightarrow> 'a reader \<Rightarrow> 'a list reader" where
  "read_many 0 m = read_done []"
| "read_many (Suc n) m = read_then m (\<lambda>x. read_then (read_many n m) (\<lambda>xs. read_done (x # xs)))"

definition take_u32 :: "u32 reader" where
  "take_u32 r = (if length r < 4 then Some (Inl Truncated) else Some (Inr (u32_of_le (take 4 r), drop 4 r)))"

definition take_count :: "nat reader" where
  "take_count = read_then take_u32
     (\<lambda>n r. if unat n > max_frame_count then Some (Inl (TooLarge (unat n))) else Some (Inr (unat n, r)))"

definition take_u128 :: "u128 reader" where
  "take_u128 r = (if length r < 16 then Some (Inl Truncated) else Some (Inr (u128_of_le (take 16 r), drop 16 r)))"

definition take_block_id :: "bytes reader" where
  "take_block_id r = (if length r < 32 then Some (Inl Truncated) else Some (Inr (take 32 r, drop 32 r)))"

definition take_root :: "bytes reader" where
  "take_root = take_block_id"

text \<open>
  \<open>decode_frame_block(r, body)\<close>. The payload is a slice of \<open>body\<close> at the offset that \<open>r\<close> has reached. With
  nothing left to read, \<open>r[0]\<close> panics.
\<close>

definition block_rest :: "bytes \<Rightarrow> u32 \<Rightarrow> frame_block reader" where
  "block_rest body len32 r =
     (let len = unat len32; off = length body - length r
      in if length r < len then Some (Inl Truncated)
         else case r of
           [] \<Rightarrow> None
         | marker # _ \<Rightarrow>
             if and marker ref_bit \<noteq> 0
             then if len \<noteq> 33 then Some (Inl Truncated)
                  else Some (Inr (Ref (sub_slice 1 33 r), drop len r))
             else (case kind_from_byte (and marker (not ref_bit)) of
                     None \<Rightarrow> Some (Inl (UnknownKind marker))
                   | Some kind \<Rightarrow>
                       if len < 1 + 16 then Some (Inl Truncated)
                       else let seq = u64_of_le (sub_slice 1 9 r);
                                plen = unat (u64_of_le (sub_slice 9 17 r))
                            in if plen > max_inline_payload then Some (Inl (TooLarge plen))
                               else if len < 1 + 16 + plen then Some (Inl Truncated)
                               else Some (Inr (Inline \<lparr>bk_kind = kind, bk_seq = seq,
                                                 bk_payload = sub_slice (off + 1 + 16) (off + 1 + 16 + plen) body\<rparr>,
                                               drop (1 + 16 + plen) r))))"

definition decode_frame_block :: "bytes \<Rightarrow> frame_block reader" where
  "decode_frame_block body = read_then take_u32 (block_rest body)"

text \<open>One symbol of a BULK frame.\<close>

definition take_symbol :: "bytes \<Rightarrow> bytes reader" where
  "take_symbol body = read_then take_u32
     (\<lambda>len32 r.
        let len = unat len32; off = length body - length r
        in if len > max_inline_payload then Some (Inl (TooLarge len))
           else if length r < len then Some (Inl Truncated)
           else Some (Inr (sub_slice off (off + len) body, drop len r)))"

definition decode_body_reader :: "u8 \<Rightarrow> bytes \<Rightarrow> frame reader" where
  "decode_body_reader tag body =
     (if tag = 1 then
        read_then take_u128 (\<lambda>sid. read_then take_root (\<lambda>root. read_then take_count (\<lambda>n.
        read_then (read_many n (decode_frame_block body)) (\<lambda>blocks.
        read_done (Append \<lparr>ap_session_id = sid, ap_base_root = root, ap_blocks = blocks\<rparr>)))))
      else if tag = 2 then
        read_then take_u128 (\<lambda>sid. read_then take_root (\<lambda>root. read_then take_count (\<lambda>n.
        read_then (read_many n take_block_id) (\<lambda>manifest.
        read_done (Resync \<lparr>rs_session_id = sid, rs_client_root = root, rs_manifest = manifest\<rparr>)))))
      else if tag = 3 then
        read_then take_u128 (\<lambda>sid. read_then take_u32 (\<lambda>gen. read_then take_u32 (\<lambda>k. read_then take_u32 (\<lambda>size.
        read_then take_count (\<lambda>n. read_then (read_many n (take_symbol body)) (\<lambda>symbols.
        read_done (Bulk \<lparr>bu_session_id = sid, bu_generation = gen, bu_k = k, bu_symbol_size = size,
                         bu_symbols = symbols\<rparr>)))))))
      else if tag = 4 then
        read_then take_u128 (\<lambda>sid. read_then take_root (\<lambda>root.
        read_done (Ack \<lparr>ak_session_id = sid, ak_root = root\<rparr>)))
      else if tag = 5 then
        read_then take_u128 (\<lambda>sid. read_then take_count (\<lambda>n.
        read_then (read_many n take_block_id) (\<lambda>missing.
        read_done (Missing \<lparr>ms_session_id = sid, ms_missing = missing\<rparr>))))
      else (\<lambda>r. Some (Inl (UnknownTag tag))))"

definition decode_body :: "u8 \<Rightarrow> bytes \<Rightarrow> (frame_error + frame) option" where
  "decode_body tag body = map_option (map_sum id fst) (decode_body_reader tag body body)"

definition decode_frame :: "bytes \<Rightarrow> (frame_error + frame) option" where
  "decode_frame buf = (case buf of [] \<Rightarrow> Some (Inl Truncated) | tag # body \<Rightarrow> decode_body tag body)"

definition decode_frame_bytes :: "bytes \<Rightarrow> (frame_error + frame) option" where
  "decode_frame_bytes buf =
     (if buf = [] then Some (Inl Truncated) else decode_body (buf ! 0) (sub_slice 1 (length buf) buf))"

section \<open>Sessions\<close>

definition count_ones :: "u64 \<Rightarrow> nat" where
  "count_ones n = length (filter (bit n) [0..<64])"

definition is_power_of_two :: "u64 \<Rightarrow> bool" where
  "is_power_of_two n \<longleftrightarrow> count_ones n = 1"

definition trailing_zeros :: "u64 \<Rightarrow> nat" where
  "trailing_zeros n = length (takeWhile (\<lambda>i. \<not> bit n i) [0..<64])"

text \<open>\<open>SessionId::shard\<close>; a remainder by zero panics.\<close>

definition session_shard :: "u128 \<Rightarrow> u64 \<Rightarrow> u64 option" where
  "session_shard sid n =
     (if n = 1 then Some 0
      else let lo = ucast (and sid 0xFFFFFFFFFFFFFFFF) :: u64;
               prod = lo * 0x9E3779B97F4A7C15
           in if is_power_of_two n then Some (drop_bit (64 - trailing_zeros n) prod)
              else if n = 0 then None else Some (prod mod n))"

section \<open>Canonical form\<close>

lemma slice_header:
  assumes "length a = 8" and "length b = 8"
  shows "sub_slice 1 9 (k # a @ b @ p) = a" and "sub_slice (Suc 0) 9 (k # a @ b @ p) = a" and "sub_slice 9 17 (k # a @ b @ p) = b"
    and "sub_slice 17 n (k # a @ b @ p) = take (n - 17) p"
  using assms by (simp_all add: sub_slice_def)

lemmas canonical_defs = canonical_bytes_def canonical_header_def canonical_into_def hasher_finalize_def

text \<open>The payload of a block that the format can carry.\<close>

definition payload_ok :: "dlr_block \<Rightarrow> bool" where
  "payload_ok b \<longleftrightarrow> length (bk_payload b) \<le> 1073741824"

lemma payload_len_word:
  assumes "payload_ok b"
  shows "unat (word_of_nat (length (bk_payload b)) :: u64) = length (bk_payload b)"
    and "(word_of_nat (length (bk_payload b)) :: u64) \<le> max_block_payload"
  using assms by (simp_all add: payload_ok_def unat_u64_of_nat word_le_nat_alt max_block_payload_def)

lemma from_canonical_bytes:
  assumes "payload_ok b"
  shows "from_canonical (canonical_bytes b @ rest) = Inr b"
  using payload_len_word [OF assms] assms
  by (simp add: from_canonical_def canonical_bytes_def slice_header u64_le_inverse Let_def not_less payload_ok_def)

lemma owned_is_from_canonical:
  "map_sum id fst (from_canonical_owned blake3 buf) = from_canonical buf"
  by (simp add: from_canonical_owned_def from_canonical_def Let_def split: option.split)

lemma owned_id:
  assumes "from_canonical buf = Inr c"
  shows "from_canonical_owned blake3 buf = Inr (c, hasher_finalize blake3 [take 17 buf, bk_payload c])"
  using assms by (auto simp: from_canonical_owned_def from_canonical_def Let_def split: if_splits option.splits)

lemma ids_agree:
  "snd (canonical_bytes_and_id blake3 b) = block_block_id blake3 b"
  "fst (canonical_bytes_and_id blake3 b) = canonical_bytes b"
  "block_id_from_canonical blake3 (canonical_bytes b) = block_block_id blake3 b"
  by (simp_all add: canonical_bytes_and_id_def block_block_id_def canonical_defs block_id_from_canonical_def)

text \<open>What the parser accepts is the canonical form of what it returns, up to trailing bytes.\<close>

lemma kind_from_byteD: "kind_from_byte m = Some k \<Longrightarrow> m = kind_to_byte k"
  by (auto simp: kind_from_byte_def kind_to_byte_def split: if_splits)

lemma u64_le_of_le:
  assumes "length bs = 8"
  shows "u64_le (u64_of_le bs) = bs"
proof -
  have "from_le bs < 256 ^ 8" "0 \<le> from_le bs" using from_le_range [of bs] assms by auto
  then show ?thesis
    using le_bytes_from_le [of bs] assms by (simp add: u64_le_def u64_of_le_def uint_word_of_int)
qed

lemma header_split:
  assumes "17 \<le> length buf"
  shows "buf = buf ! 0 # sub_slice 1 9 buf @ sub_slice 9 17 buf @ drop 17 buf"
proof -
  obtain k xs where buf: "buf = k # xs" using assms by (cases buf) auto
  have "xs = take 8 xs @ take 8 (drop 8 xs) @ drop 16 xs"
    by (metis append_take_drop_id drop_drop numeral_Bit0)
  then show ?thesis by (simp add: buf sub_slice_def)
qed

lemma from_canonical_accepts:
  assumes "from_canonical buf = Inr b"
  shows "payload_ok b \<and> canonical_bytes b = take (17 + length (bk_payload b)) buf"
proof -
  let ?n = "u64_of_le (sub_slice 9 17 buf)"
  have len: "17 \<le> length buf" and n: "?n \<le> max_block_payload" "17 + unat ?n \<le> length buf"
    and kind: "kind_from_byte (buf ! 0) = Some (bk_kind b)"
    and seq: "bk_seq b = u64_of_le (sub_slice 1 9 buf)" and pay: "bk_payload b = take (unat ?n) (drop 17 buf)"
    using assms by (auto simp: from_canonical_def Let_def sub_slice_def not_less split: if_splits option.splits)
  have "unat ?n \<le> 1073741824" using n(1) by (simp add: word_le_nat_alt max_block_payload_def)
  then have ok: "payload_ok b" by (simp add: payload_ok_def pay)
  have plen: "length (bk_payload b) = unat ?n" using n(2) by (simp add: pay)
  have lens: "length (sub_slice 1 9 buf) = 8" "length (sub_slice 9 17 buf) = 8" using len by (simp_all add: sub_slice_def)
  have "canonical_bytes b = buf ! 0 # sub_slice 1 9 buf @ sub_slice 9 17 buf @ take (unat ?n) (drop 17 buf)"
    using lens by (simp add: canonical_bytes_def kind_from_byteD [OF kind, symmetric] seq plen u64_le_of_le) (simp add: pay)
  also have "\<dots> = take (17 + unat ?n) (buf ! 0 # sub_slice 1 9 buf @ sub_slice 9 17 buf @ drop 17 buf)"
    using lens by (simp add: take_Cons')
  finally show ?thesis using ok header_split [OF len] plen by simp
qed

section \<open>Shards\<close>

lemma single_bit:
  assumes "is_power_of_two n"
  shows "n = 2 ^ trailing_zeros n \<and> trailing_zeros n < 64"
proof -
  let ?t = "trailing_zeros n"
  obtain i where i: "filter (bit n) [0..<64] = [i]"
    using assms by (auto simp: is_power_of_two_def count_ones_def length_Suc_conv)
  then have mem: "\<And>j. j < 64 \<and> bit n j \<longleftrightarrow> j = i"
  proof -
    fix j
    have "j \<in> set (filter (bit n) [0..<64]) \<longleftrightarrow> j = i" by (simp only: i) simp
    then show "j < 64 \<and> bit n j \<longleftrightarrow> j = i" by simp
  qed
  then have "takeWhile (\<lambda>j. \<not> bit n j) [0..<64] = [0..<i]"
  proof -
    have "i < 64" using mem by blast
    then have "[0..<64] = [0..<i] @ i # [Suc i..<64]"
      using upt_add_eq_append [of 0 i "64 - i"] upt_conv_Cons [of i 64] by simp
    moreover have "\<forall>j \<in> set [0..<i]. \<not> bit n j" and "bit n i" using mem \<open>i < 64\<close> by force+
    ultimately show ?thesis by (simp add: takeWhile_append)
  qed
  then have t: "?t = i" by (simp add: trailing_zeros_def)
  have "n = 2 ^ i"
  proof (rule bit_word_eqI)
    fix j assume "j < LENGTH(64)"
    then have "bit n j \<longleftrightarrow> j = i" and "bit (2 ^ i :: u64) j \<longleftrightarrow> j = i"
      using mem [of j] by (simp, auto simp: bit_exp_iff possible_bit_def)
    then show "bit n j \<longleftrightarrow> bit (2 ^ i :: u64) j" by simp
  qed
  moreover have "i < 64" using mem [of i] by simp
  ultimately show ?thesis using t by simp
qed

lemma session_shard_bound:
  assumes "session_shard sid n = Some i"
  shows "i < n"
proof (cases "n \<noteq> 1 \<and> is_power_of_two n")
  case True
  then have n: "n = 2 ^ trailing_zeros n" "trailing_zeros n < 64" using single_bit by blast+
  let ?t = "trailing_zeros n"
  obtain p :: u64 where i: "i = drop_bit (64 - ?t) p"
    using assms True by (auto simp: session_shard_def Let_def)
  have "unat i = unat p div 2 ^ (64 - ?t)" by (simp add: i unat_drop_bit_eq flip: drop_bit_eq_div)
  moreover have "unat p < 2 ^ ?t * 2 ^ (64 - ?t)"
  proof -
    have "unat p < 2 ^ LENGTH(64)" by (rule unsigned_less)
    then show ?thesis using n(2) by (simp flip: power_add)
  qed
  ultimately have "unat i < 2 ^ ?t" by (simp add: less_mult_imp_div_less)
  moreover have "unat n = 2 ^ ?t"
  proof -
    have "(2 :: nat) ^ ?t < 2 ^ 64" by (rule power_strict_increasing) (use n(2) in simp_all)
    then have "unat (word_of_nat (2 ^ ?t) :: u64) = 2 ^ ?t" by (intro unat_u64_of_nat) simp
    moreover have "n = word_of_nat (2 ^ ?t)" using n(1) by simp
    ultimately show ?thesis by metis
  qed
  ultimately show ?thesis by (simp add: word_less_nat_alt)
next
  case False
  with assms show ?thesis
    by (auto simp: session_shard_def Let_def word_mod_less_divisor word_neq_0_conv split: if_splits)
qed

section \<open>The frame codec\<close>

text \<open>
  A reader that, wherever it stands in \<open>body\<close>, consumes exactly the bytes \<open>bs\<close> and returns \<open>x\<close>.
\<close>

definition reads_in :: "bytes \<Rightarrow> 'a reader \<Rightarrow> bytes \<Rightarrow> 'a \<Rightarrow> bool" where
  "reads_in body m bs x \<longleftrightarrow> (\<forall>rest. suffix (bs @ rest) body \<longrightarrow> m (bs @ rest) = Some (Inr (x, rest)))"

lemma reads_inI [intro]:
  "(\<And>rest. suffix (bs @ rest) body \<Longrightarrow> m (bs @ rest) = Some (Inr (x, rest))) \<Longrightarrow> reads_in body m bs x"
  by (simp add: reads_in_def)

lemma reads_done: "reads_in body (read_done x) [] x"
  by (rule reads_inI) (simp add: read_done_def)

lemma reads_then:
  assumes "reads_in body m bs x" and "reads_in body (f x) cs y"
  shows "reads_in body (read_then m f) (bs @ cs) y"
proof
  fix rest assume suf: "suffix ((bs @ cs) @ rest) body"
  then have "suffix (cs @ rest) body" by (metis append.assoc suffix_appendD)
  with assms suf show "read_then m f ((bs @ cs) @ rest) = Some (Inr (y, rest))"
    by (simp add: read_then_def reads_in_def)
qed

lemma reads_then_done: "reads_in body m bs x \<Longrightarrow> reads_in body (read_then m (\<lambda>v. read_done (g v))) bs (g x)"
  by (frule reads_then [where f = "\<lambda>v. read_done (g v)", OF _ reads_done]) simp

lemma reads_u32: "reads_in body take_u32 (u32_le v) v"
  by (rule reads_inI) (simp add: take_u32_def le_simps)

lemma reads_u128: "reads_in body take_u128 (u128_le v) v"
  by (rule reads_inI) (simp add: take_u128_def le_simps)

lemma reads_block_id: "length i = 32 \<Longrightarrow> reads_in body take_block_id i i"
  by (rule reads_inI) (simp add: take_block_id_def)

lemma reads_count:
  assumes "n \<le> max_frame_count"
  shows "reads_in body take_count (u32_le (word_of_nat n)) n"
proof -
  have "unat (word_of_nat n :: u32) = n" using assms by (simp add: unat_u32_of_nat max_frame_count_def)
  then show ?thesis
    unfolding take_count_def using assms
    by (intro reads_then [OF reads_u32, where cs = "[]", simplified] reads_inI) simp
qed

text \<open>At the position that \<open>r\<close> has reached, a slice of \<open>body\<close> is a slice of \<open>r\<close>.\<close>

lemma body_slice:
  assumes "suffix r body"
  shows "sub_slice (length body - length r + i) (length body - length r + j) body = sub_slice i j r"
  using assms by (auto simp: suffix_def sub_slice_def)

lemma reads_symbol:
  assumes "length s \<le> max_inline_payload"
  shows "reads_in body (take_symbol body) (encode_symbol s) s"
proof -
  have len: "unat (word_of_nat (length s) :: u32) = length s"
    using assms by (simp add: unat_u32_of_nat max_inline_payload_def)
  show ?thesis unfolding take_symbol_def encode_symbol_def
  proof (rule reads_then [OF reads_u32])
    show "reads_in body (\<lambda>r. let len = unat (word_of_nat (length s) :: u32); off = length body - length r
        in if len > max_inline_payload then Some (Inl (TooLarge len))
           else if length r < len then Some (Inl Truncated)
           else Some (Inr (sub_slice off (off + len) body, drop len r))) s s"
    proof
      fix rest assume "suffix (s @ rest) body"
      from body_slice [OF this, of 0 "length s"] show "(let len = unat (word_of_nat (length s) :: u32); off = length body - length (s @ rest)
        in if len > max_inline_payload then Some (Inl (TooLarge len))
           else if length (s @ rest) < len then Some (Inl Truncated)
           else Some (Inr (sub_slice off (off + len) body, drop len (s @ rest)))) = Some (Inr (s, rest))"
        using assms by (simp add: len sub_slice_def not_less)
    qed
  qed
qed

definition frame_block_ok :: "frame_block \<Rightarrow> bool" where
  "frame_block_ok fb = (case fb of Inline b \<Rightarrow> payload_ok b | Ref i \<Rightarrow> length i = 32)"

lemma kind_byte_clears_ref: "and (kind_to_byte k) (not ref_bit) = kind_to_byte k" "and (kind_to_byte k) ref_bit = 0"
  by (cases k; simp add: kind_to_byte_def ref_bit_def)+

lemma block_rest_inline:
  assumes "r = kind_to_byte k # xs" and "unat len \<le> length r"
    and "u64_of_le (sub_slice 9 17 r) = n" and "unat n \<le> max_inline_payload" and "17 + unat n \<le> unat len"
  shows "block_rest body len r =
    Some (Inr (Inline \<lparr>bk_kind = k, bk_seq = u64_of_le (sub_slice 1 9 r),
      bk_payload = sub_slice (length body - length r + 17) (length body - length r + (17 + unat n)) body\<rparr>,
      drop (17 + unat n) r))"
proof -
  have "kind_from_byte (and (kind_to_byte k) (not ref_bit)) = Some k" by (simp add: kind_byte_clears_ref)
  then show ?thesis
    unfolding block_rest_def Let_def assms(3) using assms(1,2,4,5)
    by (simp add: kind_byte_clears_ref(2) del: One_nat_def) (simp add: ac_simps)
qed

lemma reads_inline_rest:
  assumes "payload_ok b"
  shows "reads_in body (block_rest body (word_of_nat (17 + length (bk_payload b)))) (canonical_bytes b) (Inline b)"
proof
  let ?p = "bk_payload b" and ?n = "word_of_nat (length (bk_payload b)) :: u64"
  fix rest assume suf: "suffix (canonical_bytes b @ rest) body"
  define r where "r = canonical_bytes b @ rest"
  have r: "r = kind_to_byte (bk_kind b) # u64_le (bk_seq b) @ u64_le ?n @ (?p @ rest)"
    by (simp add: r_def canonical_bytes_def)
  have len: "unat (word_of_nat (17 + length ?p) :: u32) = 17 + length ?p"
    using assms by (intro unat_u32_of_nat) (simp add: payload_ok_def)
  have hdr: "sub_slice 1 9 r = u64_le (bk_seq b)" "sub_slice 9 17 r = u64_le ?n"
    and long: "17 + length ?p \<le> length r"
    by (simp_all add: r slice_header del: One_nat_def)
  have rest: "drop (17 + length ?p) r = rest"
    by (simp add: r drop_Cons')
  have pay: "sub_slice (length body - length r + 17) (length body - length r + (17 + length ?p)) body = ?p"
    using body_slice [OF suf, of 17 "17 + length ?p"] by (simp add: r_def [symmetric]) (simp add: r slice_header)
  show "block_rest body (word_of_nat (17 + length ?p)) (canonical_bytes b @ rest) = Some (Inr (Inline b, rest))"
    unfolding r_def [symmetric]
    using assms long
    by (subst block_rest_inline [OF r, where n = ?n])
      (simp_all add: hdr u64_le_inverse payload_len_word(1) [OF assms] payload_ok_def max_inline_payload_def
         len pay rest del: One_nat_def of_nat_add)
qed

lemma reads_ref_rest:
  assumes "length i = 32"
  shows "reads_in body (block_rest body 33) (ref_bit # i) (Ref i)"
  by (rule reads_inI) (use assms in \<open>simp add: block_rest_def ref_bit_def sub_slice_def\<close>)

lemma reads_frame_block:
  assumes "frame_block_ok fb"
  shows "reads_in body (decode_frame_block body) (encode_frame_block fb) fb"
proof (cases fb)
  case (Inline b)
  then have ok: "payload_ok b" using assms by (simp add: frame_block_ok_def)
  have "encode_frame_block fb = u32_le (word_of_nat (17 + length (bk_payload b))) @ canonical_bytes b"
    by (simp add: encode_frame_block_def Inline canonical_bytes_def kind_byte_clears_ref)
  then show ?thesis
    unfolding decode_frame_block_def Inline by (simp only:) (rule reads_then [OF reads_u32], rule reads_inline_rest [OF ok])
next
  case (Ref i)
  then have "length i = 32" using assms by (simp add: frame_block_ok_def)
  then show ?thesis
    unfolding decode_frame_block_def Ref encode_frame_block_def
    by (simp only: frame_block.simps append.simps) (rule reads_then [OF reads_u32], rule reads_ref_rest)
qed

text \<open>
  An item codec: what the frame codec relies on for the entries of its lists.
\<close>

locale item_codec =
  fixes enc :: "'a \<Rightarrow> bytes" and dec :: "bytes \<Rightarrow> 'a reader" and ok :: "'a \<Rightarrow> bool"
  assumes item_reads: "ok x \<Longrightarrow> reads_in body (dec body) (enc x) x"
begin

lemma many_reads:
  "list_all ok xs \<Longrightarrow> reads_in body (read_many (length xs) (dec body)) (concat (map enc xs)) xs"
proof (induction xs)
  case Nil
  then show ?case by (simp add: reads_done)
next
  case (Cons x xs)
  then have "reads_in body (dec body) (enc x) x"
    and "reads_in body (read_many (length xs) (dec body)) (concat (map enc xs)) xs"
    by (simp_all add: item_reads)
  then show ?case by (auto intro: reads_then reads_then_done)
qed

lemma counted_reads:
  assumes "list_all ok xs" and "length xs \<le> max_frame_count"
  shows "reads_in body (read_then take_count (\<lambda>n. read_then (read_many n (dec body)) (\<lambda>ys. read_done (g ys))))
           (u32_le (word_of_nat (length xs)) @ concat (map enc xs)) (g xs)"
  using assms by (intro reads_then [OF reads_count] reads_then_done many_reads)

end

interpretation block_items: item_codec encode_frame_block decode_frame_block frame_block_ok
  by unfold_locales (rule reads_frame_block)

interpretation symbol_items: item_codec encode_symbol take_symbol "\<lambda>s. length s \<le> max_inline_payload"
  by unfold_locales (rule reads_symbol)

interpretation id_items: item_codec "\<lambda>i. i" "\<lambda>body. take_block_id" "\<lambda>i. length i = 32"
  by unfold_locales (rule reads_block_id)

text \<open>The frames the format can carry: ids of 32 bytes, bounded counts, payloads and symbols.\<close>

definition frame_ok :: "frame \<Rightarrow> bool" where
  "frame_ok f =
     (case f of
        Append a \<Rightarrow> length (ap_base_root a) = 32 \<and> length (ap_blocks a) \<le> max_frame_count
          \<and> list_all frame_block_ok (ap_blocks a)
      | Resync r \<Rightarrow> length (rs_client_root r) = 32 \<and> length (rs_manifest r) \<le> max_frame_count
          \<and> list_all (\<lambda>i. length i = 32) (rs_manifest r)
      | Bulk b \<Rightarrow> length (bu_symbols b) \<le> max_frame_count
          \<and> list_all (\<lambda>s. length s \<le> max_inline_payload) (bu_symbols b)
      | Ack a \<Rightarrow> length (ak_root a) = 32
      | Missing m \<Rightarrow> length (ms_missing m) \<le> max_frame_count \<and> list_all (\<lambda>i. length i = 32) (ms_missing m))"

lemma reads_frame:
  assumes "frame_ok f" and "encode_frame f = tag # bs"
  shows "reads_in body (decode_body_reader tag body) bs f"
proof (cases f)
  case (Append a)
  then have tag: "tag = 1"
    and bs: "bs = u128_le (ap_session_id a) @ ap_base_root a @ u32_le (word_of_nat (length (ap_blocks a)))
      @ concat (map encode_frame_block (ap_blocks a))"
    using assms(2) by (simp_all add: encode_frame_def)
  have "reads_in body (decode_body_reader 1 body) bs
      (Append \<lparr>ap_session_id = ap_session_id a, ap_base_root = ap_base_root a, ap_blocks = ap_blocks a\<rparr>)"
    unfolding decode_body_reader_def bs take_root_def
    using assms(1) Append
    by (simp only: if_True refl) (intro reads_then [OF reads_u128] reads_then [OF reads_block_id] block_items.counted_reads, simp_all add: frame_ok_def)
  then show ?thesis by (cases a) (simp add: tag Append)
next
  case (Resync r)
  then have tag: "tag = 2"
    and bs: "bs = u128_le (rs_session_id r) @ rs_client_root r @ u32_le (word_of_nat (length (rs_manifest r)))
      @ concat (map (\<lambda>i. i) (rs_manifest r))"
    using assms(2) by (simp_all add: encode_frame_def)
  have "reads_in body (decode_body_reader 2 body) bs
      (Resync \<lparr>rs_session_id = rs_session_id r, rs_client_root = rs_client_root r, rs_manifest = rs_manifest r\<rparr>)"
    unfolding decode_body_reader_def bs take_root_def
    using assms(1) Resync
    by (subst if_not_P, simp) (simp only: if_True refl, intro reads_then [OF reads_u128] reads_then [OF reads_block_id] id_items.counted_reads, simp_all add: frame_ok_def)
  then show ?thesis by (cases r) (simp add: tag Resync)
next
  case (Bulk b)
  then have tag: "tag = 3"
    and bs: "bs = u128_le (bu_session_id b) @ u32_le (bu_generation b) @ u32_le (bu_k b) @ u32_le (bu_symbol_size b)
      @ u32_le (word_of_nat (length (bu_symbols b))) @ concat (map encode_symbol (bu_symbols b))"
    using assms(2) by (simp_all add: encode_frame_def)
  have "reads_in body (decode_body_reader 3 body) bs
      (Bulk \<lparr>bu_session_id = bu_session_id b, bu_generation = bu_generation b, bu_k = bu_k b,
         bu_symbol_size = bu_symbol_size b, bu_symbols = bu_symbols b\<rparr>)"
    unfolding decode_body_reader_def bs
    using assms(1) Bulk
    by simp (intro reads_then [OF reads_u128] reads_then [OF reads_u32] symbol_items.counted_reads, simp_all add: frame_ok_def)
  then show ?thesis by (cases b) (simp add: tag Bulk)
next
  case (Ack a)
  then have tag: "tag = 4" and bs: "bs = u128_le (ak_session_id a) @ ak_root a"
    using assms(2) by (simp_all add: encode_frame_def)
  have "reads_in body (decode_body_reader 4 body) bs (Ack \<lparr>ak_session_id = ak_session_id a, ak_root = ak_root a\<rparr>)"
    unfolding decode_body_reader_def bs take_root_def
    using assms(1) Ack
    by simp (intro reads_then [OF reads_u128] reads_then_done reads_block_id, simp_all add: frame_ok_def)
  then show ?thesis by (cases a) (simp add: tag Ack)
next
  case (Missing m)
  then have tag: "tag = 5"
    and bs: "bs = u128_le (ms_session_id m) @ u32_le (word_of_nat (length (ms_missing m))) @ concat (map (\<lambda>i. i) (ms_missing m))"
    using assms(2) by (simp_all add: encode_frame_def)
  have "reads_in body (decode_body_reader 5 body) bs (Missing \<lparr>ms_session_id = ms_session_id m, ms_missing = ms_missing m\<rparr>)"
    unfolding decode_body_reader_def bs
    using assms(1) Missing
    by simp (intro reads_then [OF reads_u128] id_items.counted_reads [simplified], simp_all add: frame_ok_def)
  then show ?thesis by (cases m) (simp add: tag Missing)
qed

lemma decode_encode:
  assumes "frame_ok f"
  shows "decode_frame (encode_frame f @ rest) = Some (Inr f)"
proof -
  obtain tag bs where enc: "encode_frame f = tag # bs" by (cases f) (simp_all add: encode_frame_def)
  have "decode_body_reader tag (bs @ rest) (bs @ rest) = Some (Inr (f, rest))"
    using reads_frame [OF assms enc, of "bs @ rest"] by (simp add: reads_in_def)
  then show ?thesis by (simp add: decode_frame_def decode_body_def enc)
qed

section \<open>What decoding can give\<close>

definition gives :: "'a reader \<Rightarrow> ('a \<Rightarrow> bool) \<Rightarrow> bool" where
  "gives m P \<longleftrightarrow> (\<forall>r x r'. m r = Some (Inr (x, r')) \<longrightarrow> P x \<and> suffix r' r)"

lemma givesI [intro]: "(\<And>r x r'. m r = Some (Inr (x, r')) \<Longrightarrow> P x \<and> suffix r' r) \<Longrightarrow> gives m P"
  by (simp add: gives_def)

lemma gives_done: "P x \<Longrightarrow> gives (read_done x) P"
  by (auto simp: read_done_def)

lemma gives_then:
  assumes "gives m P" and "\<And>x. P x \<Longrightarrow> gives (f x) Q"
  shows "gives (read_then m f) Q"
proof
  fix r y r'' assume "read_then m f r = Some (Inr (y, r''))"
  then obtain x r' where m: "m r = Some (Inr (x, r'))" and f: "f x r' = Some (Inr (y, r''))"
    by (auto simp: read_then_def split: option.splits sum.splits)
  then have "P x" "suffix r' r" using assms(1) by (auto simp: gives_def)
  then show "Q y \<and> suffix r'' r" using assms(2) f suffix_order.order_trans unfolding gives_def by blast
qed

lemma gives_weaken: "gives m P \<Longrightarrow> (\<And>x. P x \<Longrightarrow> Q x) \<Longrightarrow> gives m Q"
  by (simp add: gives_def)

lemma gives_many: "gives m P \<Longrightarrow> gives (read_many n m) (\<lambda>xs. length xs = n \<and> list_all P xs)"
proof (induction n)
  case (Suc n)
  then show ?case by (auto intro!: gives_then [where m = m] gives_then [OF Suc.IH] gives_done)
qed (simp add: gives_done)

lemma gives_u32: "gives take_u32 (\<lambda>_. True)"
  by (auto simp: take_u32_def suffix_drop split: if_splits)

lemma gives_u128: "gives take_u128 (\<lambda>_. True)"
  by (auto simp: take_u128_def suffix_drop split: if_splits)

lemma gives_block_id: "gives take_block_id (\<lambda>i. length i = 32)"
  by (rule givesI) (auto simp: take_block_id_def suffix_drop split: if_splits)

lemma gives_count: "gives take_count (\<lambda>n. n \<le> max_frame_count)"
  unfolding take_count_def by (rule gives_then [OF gives_u32]) (auto split: if_splits)

lemma gives_symbol: "gives (take_symbol body) (\<lambda>s. length s \<le> max_inline_payload)"
  unfolding take_symbol_def
  by (rule gives_then [OF gives_u32], rule givesI) (auto simp: Let_def sub_slice_def suffix_drop split: if_splits)

lemma gives_block_rest: "gives (block_rest body len) frame_block_ok"
proof
  fix r x r' assume "block_rest body len r = Some (Inr (x, r'))"
  then show "frame_block_ok x \<and> suffix r' r"
    by (auto simp: block_rest_def Let_def sub_slice_def frame_block_ok_def payload_ok_def max_inline_payload_def suffix_drop
        min_def suffix_ConsI split: if_splits option.splits list.splits)
qed

lemma gives_frame_block: "gives (decode_frame_block body) frame_block_ok"
  unfolding decode_frame_block_def by (rule gives_then [OF gives_u32 gives_block_rest])

lemmas gives_items = gives_many [OF gives_frame_block] gives_many [OF gives_symbol] gives_many [OF gives_block_id]

lemma gives_frame: "gives (decode_body_reader tag body) frame_ok"
proof -
  have "gives (decode_body_reader 1 body) frame_ok"
    unfolding decode_body_reader_def take_root_def
    by simp (rule gives_then [OF gives_u128], rule gives_then [OF gives_block_id], rule gives_then [OF gives_count],
      rule gives_then [OF gives_items(1)], rule gives_done, simp add: frame_ok_def)
  moreover have "gives (decode_body_reader 2 body) frame_ok"
    unfolding decode_body_reader_def take_root_def
    by simp (rule gives_then [OF gives_u128], rule gives_then [OF gives_block_id], rule gives_then [OF gives_count],
      rule gives_then [OF gives_items(3)], rule gives_done, simp add: frame_ok_def)
  moreover have "gives (decode_body_reader 3 body) frame_ok"
    unfolding decode_body_reader_def
    by simp (rule gives_then [OF gives_u128], rule gives_then [OF gives_u32], rule gives_then [OF gives_u32],
      rule gives_then [OF gives_u32], rule gives_then [OF gives_count], rule gives_then [OF gives_items(2)],
      rule gives_done, simp add: frame_ok_def)
  moreover have "gives (decode_body_reader 4 body) frame_ok"
    unfolding decode_body_reader_def take_root_def
    by simp (rule gives_then [OF gives_u128], rule gives_then [OF gives_block_id], rule gives_done, simp add: frame_ok_def)
  moreover have "gives (decode_body_reader 5 body) frame_ok"
    unfolding decode_body_reader_def
    by simp (rule gives_then [OF gives_u128], rule gives_then [OF gives_count], rule gives_then [OF gives_items(3)],
      rule gives_done, simp add: frame_ok_def)
  moreover have "gives (decode_body_reader tag body) frame_ok" if "tag \<notin> {1, 2, 3, 4, 5}"
    using that by (intro givesI) (simp add: decode_body_reader_def)
  ultimately show ?thesis by blast
qed

text \<open>A reader that panics only on four zero bytes at the end of what is left to read.\<close>

definition panics_at_end :: "'a reader \<Rightarrow> bool" where
  "panics_at_end m \<longleftrightarrow> (\<forall>r. m r = None \<longrightarrow> suffix [0, 0, 0, 0] r)"

lemma panics_then:
  assumes "panics_at_end m" and "gives m P" and "\<And>x. panics_at_end (f x)"
  shows "panics_at_end (read_then m f)"
  unfolding panics_at_end_def
proof (intro allI impI)
  fix r assume "read_then m f r = None"
  then consider "m r = None" | x r' where "m r = Some (Inr (x, r'))" "f x r' = None"
    by (auto simp: read_then_def split: option.splits sum.splits)
  then show "suffix [0, 0, 0, 0] r"
  proof cases
    case 1
    then show ?thesis using assms(1) by (simp add: panics_at_end_def)
  next
    case 2
    then have "suffix [0, 0, 0, 0] r'" "suffix r' r"
      using assms(2,3) by (auto simp: panics_at_end_def gives_def)
    then show ?thesis by (rule suffix_order.order_trans)
  qed
qed

lemma panics_never: "(\<And>r. m r \<noteq> None) \<Longrightarrow> panics_at_end m"
  unfolding panics_at_end_def by metis

lemma never_panics: "read_done x r \<noteq> None" "take_u32 r \<noteq> None" "take_u128 r \<noteq> None" "take_block_id r \<noteq> None"
  by (simp_all add: read_done_def take_u32_def take_u128_def take_block_id_def)

lemmas panics_basic = never_panics [THEN panics_never]

lemma panics_count: "panics_at_end take_count"
  unfolding take_count_def by (rule panics_then [OF panics_basic(2) gives_u32]) (simp add: panics_at_end_def)

lemma panics_symbol: "panics_at_end (take_symbol body)"
  unfolding take_symbol_def
  by (rule panics_then [OF panics_basic(2) gives_u32]) (simp add: panics_at_end_def Let_def)

lemma panics_frame_block: "panics_at_end (decode_frame_block body)"
  unfolding panics_at_end_def
proof (intro allI impI)
  fix r assume "decode_frame_block body r = None"
  then have len: "4 \<le> length r" and rest: "block_rest body (u32_of_le (take 4 r)) (drop 4 r) = None"
    by (auto simp: decode_frame_block_def read_then_def take_u32_def not_less split: if_splits)
  have "drop 4 r = []" "unat (u32_of_le (take 4 r)) = 0"
    using rest by (auto simp: block_rest_def Let_def split: if_splits list.splits option.splits)
  then have "length r = 4" "u32_of_le r = 0" using len by (auto simp: unat_eq_0)
  then have "r = [0, 0, 0, 0]" by (rule u32_of_le_zero)
  then show "suffix [0, 0, 0, 0] r" by simp
qed

lemma panics_many: "panics_at_end m \<Longrightarrow> gives m P \<Longrightarrow> panics_at_end (read_many n m)"
proof (induction n)
  case (Suc n)
  then show ?case
    by (auto intro!: panics_then [OF Suc.prems] panics_then [OF Suc.IH gives_many] panics_basic)
qed (simp add: panics_basic)

text \<open>Only an APPEND frame can make the decoder panic.\<close>

lemma panics_frame: "tag = 1 \<Longrightarrow> panics_at_end (decode_body_reader tag body)"
  unfolding decode_body_reader_def take_root_def
  by simp (rule panics_then [OF panics_basic(3) gives_u128], rule panics_then [OF panics_basic(4) gives_block_id],
    rule panics_then [OF panics_count gives_count],
    rule panics_then [OF panics_many [OF panics_frame_block gives_frame_block] gives_items(1)], rule panics_basic)

definition no_panic :: "'a reader \<Rightarrow> bool" where
  "no_panic m \<longleftrightarrow> (\<forall>r. m r \<noteq> None)"

lemma no_panic_then: "no_panic m \<Longrightarrow> (\<And>x. no_panic (f x)) \<Longrightarrow> no_panic (read_then m f)"
  unfolding no_panic_def read_then_def by (simp split: option.split sum.split)

lemma no_panic_basic: "no_panic (read_done x)" "no_panic take_u32" "no_panic take_u128" "no_panic take_block_id"
  unfolding no_panic_def by (rule allI, rule never_panics)+

lemma no_panic_count: "no_panic take_count"
  unfolding take_count_def by (rule no_panic_then [OF no_panic_basic(2)]) (simp add: no_panic_def)

lemma no_panic_symbol: "no_panic (take_symbol body)"
  unfolding take_symbol_def by (rule no_panic_then [OF no_panic_basic(2)]) (simp add: no_panic_def Let_def)

lemma no_panic_many: "no_panic m \<Longrightarrow> no_panic (read_many n m)"
proof (induction n)
  case (Suc n)
  then show ?case by (simp add: no_panic_then no_panic_basic)
qed (simp add: no_panic_basic)

lemmas no_panic_intros = no_panic_then no_panic_basic no_panic_count no_panic_symbol no_panic_many

lemma decode_body_None:
  assumes "decode_body_reader tag body r = None"
  shows "tag = 1"
proof (rule ccontr)
  assume "tag \<noteq> 1"
  moreover have "no_panic (decode_body_reader 2 body)" "no_panic (decode_body_reader 3 body)"
    "no_panic (decode_body_reader 4 body)" "no_panic (decode_body_reader 5 body)"
    by (simp_all add: decode_body_reader_def take_root_def no_panic_intros)
  moreover have "no_panic (decode_body_reader tag body)" if "tag \<notin> {1, 2, 3, 4, 5}"
    using that by (simp add: decode_body_reader_def no_panic_def)
  ultimately have "no_panic (decode_body_reader tag body)" by blast
  then show False using assms unfolding no_panic_def by blast
qed

section \<open>The root commits to the log\<close>

lemma root_over_snoc: "root_over h s (xs @ [x]) = h (root_over h s xs @ x)"
  by (simp add: root_over_def append_root_def)

text \<open>What is hashed while a root is computed.\<close>

definition root_inputs :: "(bytes \<Rightarrow> bytes) \<Rightarrow> bytes \<Rightarrow> bytes list \<Rightarrow> bytes set" where
  "root_inputs h s xs = {root_over h s (take i xs) @ xs ! i |i. i < length xs}"

lemma root_inputs_snoc: "root_inputs h s (xs @ [x]) = insert (root_over h s xs @ x) (root_inputs h s xs)"
proof -
  have "{f i |i. i < Suc n} = insert (f n) {f i |i. i < n}" for f :: "nat \<Rightarrow> bytes" and n
    by (auto simp: less_Suc_eq)
  moreover have "{root_over h s (take i (xs @ [x])) @ (xs @ [x]) ! i |i. i < length xs} = root_inputs h s xs"
    unfolding root_inputs_def by (rule Collect_cong) (auto simp: nth_append)
  ultimately show ?thesis by (simp add: root_inputs_def [of h s "xs @ [x]"])
qed

lemma root_over_injective:
  assumes "inj_on h (root_inputs h s xs \<union> root_inputs h s ys)"
    and "s \<notin> h ` (root_inputs h s xs \<union> root_inputs h s ys)"
    and "list_all (\<lambda>i. length i = 32) xs" and "list_all (\<lambda>i. length i = 32) ys"
    and "root_over h s xs = root_over h s ys"
  shows "xs = ys"
  using assms
proof (induction xs arbitrary: ys rule: rev_induct)
  case Nil
  show ?case
  proof (cases ys rule: rev_cases)
    case (snoc ys' y)
    then show ?thesis using Nil by (auto simp: root_over_snoc root_inputs_snoc root_over_def [of h s "[]"])
  qed simp
next
  case (snoc x xs)
  show ?case
  proof (cases ys rule: rev_cases)
    case Nil
    then show ?thesis using snoc.prems by (auto simp: root_over_snoc root_inputs_snoc root_over_def [of h s "[]"])
  next
    case ys: (snoc ys' y)
    have inp: "root_over h s xs @ x \<in> root_inputs h s (xs @ [x]) \<union> root_inputs h s ys"
      "root_over h s ys' @ y \<in> root_inputs h s (xs @ [x]) \<union> root_inputs h s ys"
      by (simp_all add: ys root_inputs_snoc)
    have "root_over h s xs @ x = root_over h s ys' @ y"
      using snoc.prems(5) by (intro inj_onD [OF snoc.prems(1) _ inp]) (simp add: ys root_over_snoc)
    then have eq: "root_over h s xs = root_over h s ys'" "x = y"
      using snoc.prems(3,4) by (auto simp: ys)
    have "xs = ys'"
    proof (rule snoc.IH [OF _ _ _ _ eq(1)])
      show "inj_on h (root_inputs h s xs \<union> root_inputs h s ys')"
        by (rule inj_on_subset [OF snoc.prems(1)]) (auto simp: ys root_inputs_snoc)
      show "s \<notin> h ` (root_inputs h s xs \<union> root_inputs h s ys')"
        using snoc.prems(2) by (auto simp: ys root_inputs_snoc)
    qed (use snoc.prems(3,4) in \<open>auto simp: ys\<close>)
    with eq show ?thesis by (simp add: ys)
  qed
qed

section \<open>Properties\<close>

definition demo_block :: dlr_block where
  "demo_block = block_new ToolResult 7 [104, 105]"

definition demo_append :: frame where
  "demo_append = Append \<lparr>ap_session_id = 0xA11CE0001DEADBEEF, ap_base_root = root_zero,
     ap_blocks = [Inline demo_block, Ref (replicate 32 9)]\<rparr>"

text \<open>
  A block survives its canonical form: parsing the canonical bytes of a block gives the block back, whatever
  follows them, for every payload up to 1 GiB; and everything the parser accepts is the canonical form of what it
  returns. The id that the owning parser derives on the way is the id of the block.
\<close>

theorem canonical_roundtrip:
  assumes "length (bk_payload b) \<le> 1073741824"
  shows "from_canonical (canonical_bytes b @ rest) = Inr b \<and>
    from_canonical_owned blake3 (canonical_bytes b @ rest) = Inr (b, block_block_id blake3 b) \<and>
    (\<forall>buf c. from_canonical buf = Inr c \<longrightarrow> prefix (canonical_bytes c) buf)"
proof (intro conjI)
  have ok: "payload_ok b" using assms by (simp add: payload_ok_def)
  show parsed: "from_canonical (canonical_bytes b @ rest) = Inr b" by (rule from_canonical_bytes [OF ok])
  have "canonical_bytes b @ rest = canonical_header b @ (bk_payload b @ rest)" and "length (canonical_header b) = 17"
    by (simp_all add: canonical_defs)
  then have "take 17 (canonical_bytes b @ rest) = canonical_header b" by simp
  then show "from_canonical_owned blake3 (canonical_bytes b @ rest) = Inr (b, block_block_id blake3 b)"
    by (simp add: owned_id [OF parsed] block_block_id_def canonical_into_def)
  show "\<forall>buf c. from_canonical buf = Inr c \<longrightarrow> prefix (canonical_bytes c) buf"
    using from_canonical_accepts by (metis take_is_prefix)
qed

theorem canonical_roundtrip_witness:
  "from_canonical (canonical_bytes demo_block @ [1, 2]) = Inr demo_block \<and>
   from_canonical_owned (\<lambda>bs. take 32 (bs @ replicate 32 0)) (canonical_bytes demo_block @ [1, 2])
     = Inr (demo_block, block_block_id (\<lambda>bs. take 32 (bs @ replicate 32 0)) demo_block)"
  using canonical_roundtrip [of demo_block "[1, 2]"] by (simp add: demo_block_def block_new_def)

text \<open>
  C33: decoding inverts encoding: a frame of any kind within the limits of the format (ids of 32 bytes, at most
  \<open>2^24\<close> entries, payloads and symbols of at most 1 GiB) is read back exactly, whatever bytes follow it, by both
  entry points, and the buffer that the encoder reserves is filled exactly.
\<close>

theorem frame_roundtrip:
  assumes "frame_ok f"
  shows "decode_frame (encode_frame f @ rest) = Some (Inr f) \<and>
    decode_frame_bytes (encode_frame f @ rest) = Some (Inr f) \<and>
    length (encode_frame f) = frame_capacity f"
proof (intro conjI)
  have bytes: "decode_frame_bytes buf = decode_frame buf" for buf
    by (cases buf) (simp_all add: decode_frame_bytes_def decode_frame_def sub_slice_def)
  show "decode_frame (encode_frame f @ rest) = Some (Inr f)" by (rule decode_encode [OF assms])
  then show "decode_frame_bytes (encode_frame f @ rest) = Some (Inr f)" by (simp add: bytes)
  have block: "length (encode_frame_block fb) = frame_block_size fb" if "frame_block_ok fb" for fb
    using that by (cases fb) (simp_all add: encode_frame_block_def frame_block_size_def frame_block_ok_def)
  have ids: "length (concat xs) = length xs * 32" if "list_all (\<lambda>i. length i = 32) xs" for xs :: "bytes list"
    using that by (induction xs) simp_all
  have blocks: "length (concat (map encode_frame_block bs)) = sum_list (map frame_block_size bs)"
    if "list_all frame_block_ok bs" for bs
    using that by (induction bs) (simp_all add: block)
  have symbols: "length (concat (map encode_symbol ss)) = sum_list (map (\<lambda>s. 4 + length s) ss)" for ss
    by (induction ss) (simp_all add: encode_symbol_def)
  show "length (encode_frame f) = frame_capacity f"
    using assms by (cases f) (simp_all add: encode_frame_def frame_capacity_def frame_ok_def ids blocks symbols)
qed

theorem frame_roundtrip_witness:
  "decode_frame (encode_frame demo_append @ [1]) = Some (Inr demo_append) \<and>
   decode_frame_bytes (encode_frame demo_append @ [1]) = Some (Inr demo_append) \<and>
   length (encode_frame demo_append) = 113"
proof -
  have "frame_ok demo_append"
    by (simp add: frame_ok_def demo_append_def root_zero_def max_frame_count_def frame_block_ok_def payload_ok_def
        demo_block_def block_new_def)
  from frame_roundtrip [OF this, of "[1]"] show ?thesis
    by (simp add: frame_capacity_def demo_append_def frame_block_size_def demo_block_def block_new_def)
qed

text \<open>
  C34: every frame that the decoder returns, for whatever bytes a peer sends, is within the limits of the format:
  ids of 32 bytes, at most \<open>2^24\<close> entries, payloads and symbols of at most 1 GiB.
\<close>

theorem decoded_frames_ok:
  assumes "decode_frame buf = Some (Inr f)"
  shows "frame_ok f"
proof -
  obtain tag body z where z: "decode_body_reader tag body body = Some z" "map_sum id fst z = Inr f"
    using assms by (auto simp: decode_frame_def decode_body_def split: list.splits)
  then obtain r where "decode_body_reader tag body body = Some (Inr (f, r))"
    by (cases z) auto
  then show ?thesis using gives_frame [of tag body] by (auto simp: gives_def)
qed

theorem decoded_frames_ok_witness: "frame_ok demo_append"
proof (rule decoded_frames_ok)
  have "frame_ok demo_append"
    by (simp add: frame_ok_def demo_append_def root_zero_def max_frame_count_def frame_block_ok_def payload_ok_def
        demo_block_def block_new_def)
  from decode_encode [OF this, of "[]"] show "decode_frame (encode_frame demo_append) = Some (Inr demo_append)" by simp
qed

text \<open>
  The decoder panics on an APPEND frame whose last block claims a length of zero (it reads the marker of a
  block from an empty slice), and on no input that does not end in such a length field.
\<close>

theorem decode_panics:
  "(\<forall>sid. decode_frame ([1] @ u128_le sid @ root_zero @ u32_le 1 @ u32_le 0) = None) \<and>
   (\<forall>buf. decode_frame buf = None \<longrightarrow> hd buf = 1 \<and> suffix [0, 0, 0, 0] (tl buf))"
proof
  have block: "decode_frame_block body (u32_le 0) = None" for body
    by (simp add: decode_frame_block_def read_then_def take_u32_def le_simps block_rest_def)
  show "\<forall>sid. decode_frame ([1] @ u128_le sid @ root_zero @ u32_le 1 @ u32_le 0) = None"
    by (simp add: decode_frame_def decode_body_def decode_body_reader_def take_root_def read_then_def take_u128_def
        take_block_id_def take_count_def take_u32_def le_simps max_frame_count_def root_zero_def block)
  show "\<forall>buf. decode_frame buf = None \<longrightarrow> hd buf = 1 \<and> suffix [0, 0, 0, 0] (tl buf)"
  proof (intro allI impI)
    fix buf assume "decode_frame buf = None"
    then obtain tag body where buf: "buf = tag # body" and none: "decode_body_reader tag body body = None"
      by (auto simp: decode_frame_def decode_body_def split: list.splits)
    then show "hd buf = 1 \<and> suffix [0, 0, 0, 0] (tl buf)"
      using decode_body_None [OF none] panics_frame [of tag body] by (auto simp: panics_at_end_def)
  qed
qed

theorem decode_panics_witness:
  "decode_frame ([1] @ u128_le 5 @ root_zero @ u32_le 1 @ u32_le 0) = None \<and>
   suffix [0, 0, 0, 0] (u128_le 5 @ root_zero @ u32_le 1 @ u32_le 0)"
proof -
  have none: "decode_frame ([1] @ u128_le 5 @ root_zero @ u32_le 1 @ u32_le 0) = None"
    using decode_panics by blast
  from decode_panics have "decode_frame buf = None \<longrightarrow> suffix [0, 0, 0, 0] (tl buf)" for buf by blast
  from mp [OF this none] none show ?thesis by simp
qed

text \<open>
  The root that the receiver acknowledges commits to the whole log: two sequences of block ids with the same
  root from the empty root are equal, unless BLAKE3 collides on what was hashed or outputs 32 zero bytes there.
\<close>

theorem root_commits_to_log:
  assumes "inj_on blake3 (root_inputs blake3 root_zero xs \<union> root_inputs blake3 root_zero ys)"
    and "root_zero \<notin> blake3 ` (root_inputs blake3 root_zero xs \<union> root_inputs blake3 root_zero ys)"
    and "list_all (\<lambda>i. length i = 32) xs" and "list_all (\<lambda>i. length i = 32) ys"
  shows "root_over blake3 root_zero xs = root_over blake3 root_zero ys \<longleftrightarrow> xs = ys"
  using root_over_injective [OF assms] by auto

text \<open>A stand-in hash that keeps the last 32 bytes of its input.\<close>

definition last_bytes :: "bytes \<Rightarrow> bytes" where
  "last_bytes bs = drop (length bs - 32) bs"

theorem root_commits_to_log_witness:
  "root_over last_bytes root_zero [replicate 32 1] \<noteq> root_over last_bytes root_zero [replicate 32 2]"
proof -
  have inputs: "root_inputs last_bytes root_zero [x] = {root_zero @ x}" for x
    by (auto simp: root_inputs_def root_over_def)
  have "last_bytes (root_zero @ replicate 32 (n :: u8)) = replicate 32 n" for n
    by (simp add: last_bytes_def root_zero_def)
  then show ?thesis
    using root_commits_to_log [of last_bytes "[replicate 32 1]" "[replicate 32 2]"]
    by (simp add: inputs inj_on_def) (simp add: root_zero_def numeral_eq_Suc)
qed

text \<open>A session is mapped to a shard below the number of shards; only zero shards make the mapping panic.\<close>

theorem shard_in_range: "n \<noteq> 0 \<longrightarrow> (\<exists>i. session_shard sid n = Some i \<and> i < n)"
proof
  assume "n \<noteq> 0"
  then obtain i where "session_shard sid n = Some i"
    by (cases "session_shard sid n") (simp_all add: session_shard_def Let_def split: if_splits)
  then show "\<exists>i. session_shard sid n = Some i \<and> i < n" using session_shard_bound by blast
qed

end
