(* ===== verification/DLR_Store.thy ===== *)
theory DLR_Store
  imports DLR_Frame
begin

text \<open>
  The content-addressed store of \<open>integrations/dlr/crates/core/src/store.rs\<close> and its write-ahead log
  (\<open>wal.rs\<close>). The two concurrent maps are maps; each operation is the composition of its atomic steps (the entry
  in the block map, the entry in the session map, the append to the log), so that an interleaving of two
  threads is a sequence of those steps. An append to the log takes an argument that says whether a write
  failed and after how many bytes. \<open>blake3\<close> is a parameter.
\<close>

section \<open>The write-ahead log\<close>

datatype io_kind = InvalidInput | InvalidData | WouldBlock | OtherKind string

type_synonym io_err = "io_kind \<times> string"

text \<open>
  \<open>w_bytes\<close> is the file with what has been handed to the buffered writer, \<open>w_durable\<close> the length of what the last
  successful \<open>flush(true)\<close> of this handle covered. A crash leaves a prefix of \<open>w_bytes\<close> of at least that length.
\<close>

record wal =
  w_bytes :: bytes
  w_durable :: nat

definition wal_header :: nat where
  "wal_header = 16 + 1 + 4"

definition max_record_bytes :: nat where
  "max_record_bytes = 512 * 1024 * 1024"

definition record_len :: "nat \<Rightarrow> io_err + u32" where
  "record_len len =
     (if len > max_record_bytes
      then Inl (InvalidInput, ''WAL record length '' @ show_nat len @ '' exceeds safety limit'')
      else if len \<ge> 2 ^ 32 then Inl (InvalidInput, ''WAL record too large'')
      else Inr (word_of_nat len))"

text \<open>The sequence of \<open>write_all\<close> calls of one record; \<open>Some (k, e)\<close> fails with \<open>e\<close> after \<open>k\<close> bytes.\<close>

type_synonym write_outcome = "(nat \<times> io_err) option"

definition wal_write :: "write_outcome \<Rightarrow> bytes \<Rightarrow> wal \<Rightarrow> wal \<times> io_err option" where
  "wal_write out bs w =
     (case out of
        None \<Rightarrow> (w\<lparr>w_bytes := w_bytes w @ bs\<rparr>, None)
      | Some (k, e) \<Rightarrow> (w\<lparr>w_bytes := w_bytes w @ take k bs\<rparr>, Some e))"

definition wal_record :: "u128 \<Rightarrow> u8 \<Rightarrow> bytes \<Rightarrow> bytes" where
  "wal_record sid variant payload = u128_le sid @ [variant] @ u32_le (word_of_nat (length payload)) @ payload"

definition append_insert :: "write_outcome \<Rightarrow> u128 \<Rightarrow> bytes \<Rightarrow> wal \<Rightarrow> wal \<times> io_err option" where
  "append_insert out sid canonical w =
     (case record_len (length canonical) of
        Inl e \<Rightarrow> (w, Some e)
      | Inr len \<Rightarrow> wal_write out (u128_le sid @ [0] @ u32_le len @ canonical) w)"

definition append_reference :: "write_outcome \<Rightarrow> u128 \<Rightarrow> bytes \<Rightarrow> wal \<Rightarrow> wal \<times> io_err option" where
  "append_reference out sid block_id w = wal_write out (u128_le sid @ [1] @ u32_le 32 @ block_id) w"

definition append_seed :: "write_outcome \<Rightarrow> u128 \<Rightarrow> bytes list \<Rightarrow> bytes \<Rightarrow> wal \<Rightarrow> wal \<times> io_err option" where
  "append_seed out sid ids root w =
     (if length ids * 32 + 36 \<ge> 2 ^ 64 then (w, Some (InvalidInput, ''WAL seed too large''))
      else case record_len (length ids * 32 + 36) of
        Inl e \<Rightarrow> (w, Some e)
      | Inr len \<Rightarrow>
          if length ids \<ge> 2 ^ 32 then (w, Some (InvalidInput, ''WAL seed has too many ids''))
          else wal_write out (u128_le sid @ [2] @ u32_le len @ u32_le (word_of_nat (length ids)) @ concat ids @ root) w)"

definition append_content :: "write_outcome \<Rightarrow> u128 \<Rightarrow> bytes \<Rightarrow> wal \<Rightarrow> wal \<times> io_err option" where
  "append_content out sid canonical w =
     (case record_len (length canonical) of
        Inl e \<Rightarrow> (w, Some e)
      | Inr len \<Rightarrow> wal_write out (u128_le sid @ [3] @ u32_le len @ canonical) w)"

definition wal_flush :: "io_err option \<Rightarrow> bool \<Rightarrow> wal \<Rightarrow> wal \<times> io_err option" where
  "wal_flush out sync w =
     (case out of Some e \<Rightarrow> (w, Some e) | None \<Rightarrow> (if sync then w\<lparr>w_durable := length (w_bytes w)\<rparr> else w, None))"

section \<open>The store\<close>

record store_stats =
  ss_blocks_stored :: u64
  ss_bytes_stored :: u64
  ss_blocks_deduped :: u64
  ss_sessions :: u64

record session_log =
  sl_ids :: "bytes list"
  sl_root :: bytes

record content_store =
  cs_blocks :: "bytes \<rightharpoonup> dlr_block"
  cs_sessions :: "u128 \<rightharpoonup> session_log"
  cs_stats :: store_stats
  cs_wal :: "wal option"
  cs_wal_error :: "io_err option"

definition store_new :: content_store where
  "store_new = \<lparr>cs_blocks = Map.empty, cs_sessions = Map.empty,
     cs_stats = \<lparr>ss_blocks_stored = 0, ss_bytes_stored = 0, ss_blocks_deduped = 0, ss_sessions = 0\<rparr>,
     cs_wal = None, cs_wal_error = None\<rparr>"

text \<open>The cell \<open>wal\<close> is set once; a second \<open>set\<close> is ignored.\<close>

definition set_wal :: "wal \<Rightarrow> content_store \<Rightarrow> content_store" where
  "set_wal w s = (if cs_wal s = None then s\<lparr>cs_wal := Some w\<rparr> else s)"

definition latch_wal_error :: "io_err \<Rightarrow> content_store \<Rightarrow> content_store" where
  "latch_wal_error e s = (if cs_wal_error s = None then s\<lparr>cs_wal_error := Some e\<rparr> else s)"

definition record_wal_result :: "io_err option \<Rightarrow> content_store \<Rightarrow> content_store" where
  "record_wal_result r s = (case r of Some e \<Rightarrow> latch_wal_error e s | None \<Rightarrow> s)"

text \<open>\<open>if let Some(wal) = wal { self.record_wal_result(f(wal)) }\<close>.\<close>

definition shadow :: "(wal \<Rightarrow> wal \<times> io_err option) \<Rightarrow> content_store \<Rightarrow> content_store" where
  "shadow f s =
     (case cs_wal s of
        None \<Rightarrow> s
      | Some w \<Rightarrow> (case f w of (w', r) \<Rightarrow> record_wal_result r (s\<lparr>cs_wal := Some w'\<rparr>)))"

definition flush_wal :: "io_err option \<Rightarrow> bool \<Rightarrow> content_store \<Rightarrow> (io_err + unit) \<times> content_store" where
  "flush_wal out sync s =
     (case cs_wal_error s of
        Some e \<Rightarrow> (Inl e, s)
      | None \<Rightarrow>
          (case cs_wal s of
             None \<Rightarrow> (Inr (), s)
           | Some w \<Rightarrow>
               (case wal_flush out sync w of
                  (w', Some e) \<Rightarrow> (Inl e, latch_wal_error e (s\<lparr>cs_wal := Some w'\<rparr>))
                | (w', None) \<Rightarrow> (Inr (), s\<lparr>cs_wal := Some w'\<rparr>))))"

text \<open>The entry in the block map, with its counters.\<close>

definition store_block :: "bytes \<Rightarrow> dlr_block \<Rightarrow> content_store \<Rightarrow> bool \<times> content_store" where
  "store_block i b s =
     (case cs_blocks s i of
        Some _ \<Rightarrow> (False, s\<lparr>cs_stats := (cs_stats s)\<lparr>ss_blocks_deduped := ss_blocks_deduped (cs_stats s) + 1\<rparr>\<rparr>)
      | None \<Rightarrow>
          (True, s\<lparr>cs_blocks := (cs_blocks s)(i \<mapsto> b),
                  cs_stats := (cs_stats s)\<lparr>ss_blocks_stored := ss_blocks_stored (cs_stats s) + 1,
                    ss_bytes_stored := ss_bytes_stored (cs_stats s) + word_of_nat (length (bk_payload b))\<rparr>\<rparr>))"

text \<open>The entry in the session map.\<close>

definition log_entry :: "(bytes \<Rightarrow> bytes) \<Rightarrow> bytes \<Rightarrow> session_log option \<Rightarrow> session_log" where
  "log_entry blake3 i entry =
     (case entry of
        Some log \<Rightarrow> \<lparr>sl_ids = sl_ids log @ [i], sl_root = append_root blake3 (sl_root log) i\<rparr>
      | None \<Rightarrow> \<lparr>sl_ids = [i], sl_root = append_root blake3 root_zero i\<rparr>)"

definition session_append :: "(bytes \<Rightarrow> bytes) \<Rightarrow> u128 \<Rightarrow> bytes \<Rightarrow> content_store \<Rightarrow> content_store" where
  "session_append blake3 sid i s = s\<lparr>cs_sessions := (cs_sessions s)(sid \<mapsto> log_entry blake3 i (cs_sessions s sid))\<rparr>"

definition count_session :: "bool \<Rightarrow> content_store \<Rightarrow> content_store" where
  "count_session was_new s =
     (if was_new then s\<lparr>cs_stats := (cs_stats s)\<lparr>ss_sessions := ss_sessions (cs_stats s) + 1\<rparr>\<rparr> else s)"

definition insert_session :: "(bytes \<Rightarrow> bytes) \<Rightarrow> u128 \<Rightarrow> bytes \<Rightarrow> content_store \<Rightarrow> content_store" where
  "insert_session blake3 sid i s = count_session (cs_sessions s sid = None) (session_append blake3 sid i s)"

definition insert_shadow ::
    "write_outcome \<Rightarrow> u128 \<Rightarrow> dlr_block \<Rightarrow> bytes \<Rightarrow> bytes option \<Rightarrow> bool \<Rightarrow> content_store \<Rightarrow> content_store" where
  "insert_shadow out sid b i canonical newly =
     shadow (if newly then append_insert out sid (case canonical of Some c \<Rightarrow> c | None \<Rightarrow> canonical_bytes b)
             else append_reference out sid i)"

definition insert_with_canonical ::
    "(bytes \<Rightarrow> bytes) \<Rightarrow> write_outcome \<Rightarrow> u128 \<Rightarrow> dlr_block \<Rightarrow> bytes \<Rightarrow> bytes option \<Rightarrow> content_store \<Rightarrow> bool \<times> content_store" where
  "insert_with_canonical blake3 out sid b i canonical s =
     (case store_block i b s of
        (newly, s) \<Rightarrow> (newly, insert_shadow out sid b i canonical newly (insert_session blake3 sid i s)))"

definition insert_with_id ::
    "(bytes \<Rightarrow> bytes) \<Rightarrow> write_outcome \<Rightarrow> u128 \<Rightarrow> dlr_block \<Rightarrow> bytes \<Rightarrow> content_store \<Rightarrow> bool \<times> content_store" where
  "insert_with_id blake3 out sid b i s = insert_with_canonical blake3 out sid b i None s"

definition store_insert ::
    "(bytes \<Rightarrow> bytes) \<Rightarrow> write_outcome \<Rightarrow> u128 \<Rightarrow> dlr_block \<Rightarrow> content_store \<Rightarrow> bool \<times> content_store" where
  "store_insert blake3 out sid b s = insert_with_id blake3 out sid b (block_block_id blake3 b) s"

definition store_reference ::
    "(bytes \<Rightarrow> bytes) \<Rightarrow> write_outcome \<Rightarrow> u128 \<Rightarrow> bytes \<Rightarrow> content_store \<Rightarrow> (string + unit) \<times> content_store" where
  "store_reference blake3 out sid i s =
     (if cs_blocks s i = None then (Inl ''referenced block not present in store'', s)
      else let s = session_append blake3 sid i s;
               s = s\<lparr>cs_stats := (cs_stats s)\<lparr>ss_blocks_deduped := ss_blocks_deduped (cs_stats s) + 1\<rparr>\<rparr>
           in (Inr (), shadow (append_reference out sid i) s))"

definition seed_session :: "write_outcome \<Rightarrow> u128 \<Rightarrow> bytes list \<Rightarrow> bytes \<Rightarrow> content_store \<Rightarrow> content_store" where
  "seed_session out sid ids root s =
     shadow (append_seed out sid ids root)
       (count_session (cs_sessions s sid = None)
          (s\<lparr>cs_sessions := (cs_sessions s)(sid \<mapsto> \<lparr>sl_ids = ids, sl_root = root\<rparr>)\<rparr>))"

definition store_content_with_id ::
    "write_outcome \<Rightarrow> u128 \<Rightarrow> dlr_block \<Rightarrow> bytes \<Rightarrow> content_store \<Rightarrow> bool \<times> content_store" where
  "store_content_with_id out sid b i s =
     (case store_block i b s of
        (newly, s) \<Rightarrow> (newly, if newly then shadow (append_content out sid (canonical_bytes b)) s else s))"

definition store_content ::
    "(bytes \<Rightarrow> bytes) \<Rightarrow> write_outcome \<Rightarrow> u128 \<Rightarrow> dlr_block \<Rightarrow> content_store \<Rightarrow> bool \<times> content_store" where
  "store_content blake3 out sid b s = store_content_with_id out sid b (block_block_id blake3 b) s"

subsection \<open>Queries\<close>

definition session_root :: "u128 \<Rightarrow> content_store \<Rightarrow> bytes" where
  "session_root sid s = (case cs_sessions s sid of Some l \<Rightarrow> sl_root l | None \<Rightarrow> root_zero)"

definition session_ids :: "u128 \<Rightarrow> content_store \<Rightarrow> bytes list" where
  "session_ids sid s = (case cs_sessions s sid of Some l \<Rightarrow> sl_ids l | None \<Rightarrow> [])"

definition session_len :: "u128 \<Rightarrow> content_store \<Rightarrow> nat" where
  "session_len sid s = (case cs_sessions s sid of Some l \<Rightarrow> length (sl_ids l) | None \<Rightarrow> 0)"

definition blocks_of :: "content_store \<Rightarrow> bytes list \<Rightarrow> dlr_block list" where
  "blocks_of s ids = List.map_filter (cs_blocks s) ids"

definition reconstruct :: "u128 \<Rightarrow> content_store \<Rightarrow> dlr_block list" where
  "reconstruct sid s = (case cs_sessions s sid of Some l \<Rightarrow> blocks_of s (sl_ids l) | None \<Rightarrow> [])"

text \<open>\<open>&ids[from..to]\<close> panics when \<open>to < from\<close>.\<close>

definition reconstruct_range :: "u128 \<Rightarrow> nat \<Rightarrow> nat \<Rightarrow> content_store \<Rightarrow> dlr_block list option" where
  "reconstruct_range sid from to s =
     (case cs_sessions s sid of
        None \<Rightarrow> Some []
      | Some l \<Rightarrow>
          (let from = min from (length (sl_ids l)); to = min to (length (sl_ids l))
           in if to < from then None else Some (blocks_of s (sub_slice from to (sl_ids l)))))"

section \<open>Replay\<close>

definition read_ids :: "bytes \<Rightarrow> nat \<Rightarrow> bytes list" where
  "read_ids payload count = map (\<lambda>i. sub_slice (4 + i * 32) (4 + i * 32 + 32) payload) [0..<count]"

text \<open>One record. During replay no log is attached, so nothing is written.\<close>

definition replay_record :: "(bytes \<Rightarrow> bytes) \<Rightarrow> u128 \<Rightarrow> u8 \<Rightarrow> bytes \<Rightarrow> content_store \<Rightarrow> content_store" where
  "replay_record blake3 sid variant payload s =
     (if variant = 0 then
        (case from_canonical payload of Inr b \<Rightarrow> snd (store_insert blake3 None sid b s) | Inl _ \<Rightarrow> s)
      else if variant = 1 then
        (if length payload = 32 then snd (store_reference blake3 None sid payload s) else s)
      else if variant = 2 then
        (if length payload \<ge> 4
         then let count = unat (u32_of_le (take 4 payload))
              in if count * 32 + 36 < 2 ^ 64 \<and> count * 32 + 36 = length payload
                 then seed_session None sid (read_ids payload count)
                        (sub_slice (4 + count * 32) (4 + count * 32 + 32) payload) s
                 else s
         else s)
      else if variant = 3 then
        (case from_canonical payload of Inr b \<Rightarrow> snd (store_content blake3 None sid b s) | Inl _ \<Rightarrow> s)
      else s)"

text \<open>
  \<open>replay\<close> from position \<open>pos\<close>, with \<open>r\<close> what is left of the file: the position behind the last complete record.
\<close>

function wal_replay :: "(bytes \<Rightarrow> bytes) \<Rightarrow> bytes \<Rightarrow> nat \<Rightarrow> content_store \<Rightarrow> io_err + nat \<times> content_store" where
  "wal_replay blake3 r pos s =
     (if length r < wal_header then Inr (pos, s)
      else let sid = u128_of_le (take 16 r);
               variant = r ! 16;
               len = unat (u32_of_le (sub_slice 17 21 r))
           in if len > max_record_bytes
              then Inl (InvalidData, ''WAL record length '' @ show_nat len @ '' exceeds safety limit'')
              else if length r < wal_header + len then Inr (pos, s)
              else wal_replay blake3 (drop (wal_header + len) r) (pos + wal_header + len)
                     (replay_record blake3 sid variant (sub_slice 21 (21 + len) r) s))"
  by pat_completeness auto
termination
  by (relation "measure (\<lambda>(_, r, _, _). length r)") (auto simp: wal_header_def)

declare wal_replay.simps [simp del]

text \<open>\<open>Wal::open\<close> on the bytes of the file; \<open>locked\<close> says that the lock was obtained.\<close>

definition wal_open :: "(bytes \<Rightarrow> bytes) \<Rightarrow> bool \<Rightarrow> bytes \<Rightarrow> content_store \<Rightarrow> io_err + wal \<times> content_store" where
  "wal_open blake3 locked bs s =
     (if \<not> locked then Inl (WouldBlock, ''try_lock'')
      else case wal_replay blake3 bs 0 s of
        Inl e \<Rightarrow> Inl e
      | Inr (valid_len, s) \<Rightarrow>
          (let bs = (if valid_len < length bs then take valid_len bs else bs)
           in Inr (\<lparr>w_bytes = bs, w_durable = 0\<rparr>, s)))"

definition with_wal :: "(bytes \<Rightarrow> bytes) \<Rightarrow> bool \<Rightarrow> bytes \<Rightarrow> io_err + content_store" where
  "with_wal blake3 locked bs =
     (case wal_open blake3 locked bs store_new of
        Inl e \<Rightarrow> Inl e
      | Inr (w, s) \<Rightarrow> Inr (set_wal w s))"

section \<open>What the store promises\<close>

type_synonym store_view = "(bytes \<rightharpoonup> dlr_block) \<times> (u128 \<rightharpoonup> session_log)"

definition view_of :: "content_store \<Rightarrow> store_view" where
  "view_of s = (cs_blocks s, cs_sessions s)"

datatype store_op =
    OInsert u128 dlr_block
  | OReference u128 bytes
  | OSeed u128 "bytes list" bytes
  | OContent u128 dlr_block

definition run_store_op :: "(bytes \<Rightarrow> bytes) \<Rightarrow> write_outcome \<Rightarrow> store_op \<Rightarrow> content_store \<Rightarrow> content_store" where
  "run_store_op blake3 out op s =
     (case op of
        OInsert sid b \<Rightarrow> snd (store_insert blake3 out sid b s)
      | OReference sid i \<Rightarrow> snd (store_reference blake3 out sid i s)
      | OSeed sid ids root \<Rightarrow> seed_session out sid ids root s
      | OContent sid b \<Rightarrow> snd (store_content blake3 out sid b s))"

text \<open>The operations on the two maps alone: the specification.\<close>

definition spec_add :: "bytes \<Rightarrow> dlr_block \<Rightarrow> (bytes \<rightharpoonup> dlr_block) \<Rightarrow> (bytes \<rightharpoonup> dlr_block)" where
  "spec_add i b m = (if m i = None then m(i \<mapsto> b) else m)"

definition spec_op :: "(bytes \<Rightarrow> bytes) \<Rightarrow> store_op \<Rightarrow> store_view \<Rightarrow> store_view" where
  "spec_op blake3 op v =
     (case (op, v) of
        (OInsert sid b, (bl, ses)) \<Rightarrow>
          (spec_add (block_block_id blake3 b) b bl, ses(sid \<mapsto> log_entry blake3 (block_block_id blake3 b) (ses sid)))
      | (OReference sid i, (bl, ses)) \<Rightarrow> (bl, if bl i = None then ses else ses(sid \<mapsto> log_entry blake3 i (ses sid)))
      | (OSeed sid ids root, (bl, ses)) \<Rightarrow> (bl, ses(sid \<mapsto> \<lparr>sl_ids = ids, sl_root = root\<rparr>))
      | (OContent sid b, (bl, ses)) \<Rightarrow> (spec_add (block_block_id blake3 b) b bl, ses))"

text \<open>The record that an operation leaves in the log, none when there is nothing to remember.\<close>

definition op_record :: "(bytes \<Rightarrow> bytes) \<Rightarrow> store_view \<Rightarrow> store_op \<Rightarrow> bytes" where
  "op_record blake3 v op =
     (case op of
        OInsert sid b \<Rightarrow>
          (let i = block_block_id blake3 b
           in if fst v i = None then wal_record sid 0 (canonical_bytes b) else wal_record sid 1 i)
      | OReference sid i \<Rightarrow> (if fst v i = None then [] else wal_record sid 1 i)
      | OSeed sid ids root \<Rightarrow> wal_record sid 2 (u32_le (word_of_nat (length ids)) @ concat ids @ root)
      | OContent sid b \<Rightarrow>
          (if fst v (block_block_id blake3 b) = None then wal_record sid 3 (canonical_bytes b) else []))"

text \<open>Operations whose record is within the limit of the log.\<close>

definition op_ok :: "store_op \<Rightarrow> bool" where
  "op_ok op =
     (case op of
        OInsert sid b \<Rightarrow> 17 + length (bk_payload b) \<le> max_record_bytes
      | OReference sid i \<Rightarrow> length i = 32
      | OSeed sid ids root \<Rightarrow> list_all (\<lambda>i. length i = 32) ids \<and> length root = 32 \<and> length ids * 32 + 36 \<le> max_record_bytes
      | OContent sid b \<Rightarrow> 17 + length (bk_payload b) \<le> max_record_bytes)"

lemmas store_defs = store_insert_def insert_with_id_def insert_with_canonical_def store_reference_def seed_session_def
  store_content_def store_content_with_id_def insert_session_def count_session_def session_append_def insert_shadow_def

lemma shadow_view [simp]: "cs_blocks (shadow f s) = cs_blocks s" "cs_sessions (shadow f s) = cs_sessions s"
  by (simp_all add: shadow_def record_wal_result_def latch_wal_error_def split: option.split prod.split)

lemma store_block_maps: "cs_blocks (snd (store_block i b s)) = spec_add i b (cs_blocks s)"
    "cs_sessions (snd (store_block i b s)) = cs_sessions s"
    "cs_wal (snd (store_block i b s)) = cs_wal s" "cs_wal_error (snd (store_block i b s)) = cs_wal_error s"
    "fst (store_block i b s) \<longleftrightarrow> cs_blocks s i = None"
  by (simp_all add: store_block_def spec_add_def split: option.split)

lemma run_op_refines: "view_of (run_store_op blake3 out op s) = spec_op blake3 op (view_of s)"
proof (cases op)
  case (OReference sid i)
  then show ?thesis by (simp add: run_store_op_def store_defs view_of_def spec_op_def Let_def)
qed (simp_all add: run_store_op_def store_defs view_of_def spec_op_def case_prod_beta store_block_maps)

definition run_ops :: "(bytes \<Rightarrow> bytes) \<Rightarrow> store_op list \<Rightarrow> content_store \<Rightarrow> content_store" where
  "run_ops blake3 ops s = fold (run_store_op blake3 None) ops s"

lemma run_ops_refines: "view_of (run_ops blake3 ops s) = fold (spec_op blake3) ops (view_of s)"
  by (induction ops arbitrary: s) (simp_all add: run_ops_def run_op_refines)

section \<open>What an operation writes\<close>

lemma record_len_ok: "n \<le> max_record_bytes \<Longrightarrow> record_len n = Inr (word_of_nat n)"
  by (simp add: record_len_def max_record_bytes_def)

lemma shadow_write:
  assumes "cs_wal s = Some w" and "\<And>w. f w = wal_write None bs w"
  shows "cs_wal (shadow f s) = Some (w\<lparr>w_bytes := w_bytes w @ bs\<rparr>)" and "cs_wal_error (shadow f s) = cs_wal_error s"
  using assms by (simp_all add: shadow_def wal_write_def record_wal_result_def)

lemma canonical_length: "length (canonical_bytes b) = 17 + length (bk_payload b)"
  by (simp add: canonical_bytes_def)

lemma append_writes:
  "17 + length (bk_payload b) \<le> max_record_bytes \<Longrightarrow>
     append_insert None sid (canonical_bytes b) w = wal_write None (wal_record sid 0 (canonical_bytes b)) w"
  "17 + length (bk_payload b) \<le> max_record_bytes \<Longrightarrow>
     append_content None sid (canonical_bytes b) w = wal_write None (wal_record sid 3 (canonical_bytes b)) w"
  "length i = 32 \<Longrightarrow> append_reference None sid i w = wal_write None (wal_record sid 1 i) w"
  by (simp_all add: append_insert_def append_content_def append_reference_def record_len_ok wal_record_def canonical_length)

lemma concat_ids_length: "list_all (\<lambda>i. length i = 32) ids \<Longrightarrow> length (concat ids) = length ids * 32"
  by (induction ids) simp_all

lemma seed_writes:
  assumes "list_all (\<lambda>i. length i = 32) ids" and "length root = 32" and "length ids * 32 + 36 \<le> max_record_bytes"
  shows "append_seed None sid ids root w = wal_write None (wal_record sid 2 (u32_le (word_of_nat (length ids)) @ concat ids @ root)) w"
proof -
  have "length (u32_le (word_of_nat (length ids)) @ concat ids @ root) = length ids * 32 + 36"
    using assms by (simp add: concat_ids_length)
  moreover have "length ids * 32 + 36 < 2 ^ 64" and "length ids < 2 ^ 32"
    using assms(3) by (simp_all add: max_record_bytes_def)
  ultimately show ?thesis
    using assms(3) by (simp add: append_seed_def record_len_ok wal_record_def not_le add.commute del: of_nat_add)
qed

lemma wal_of_op:
  assumes "\<And>x. length (blake3 x) = 32" and "op_ok op" and w: "cs_wal s = Some w"
  shows "cs_wal (run_store_op blake3 None op s) = Some (w\<lparr>w_bytes := w_bytes w @ op_record blake3 (view_of s) op\<rparr>) \<and>
    cs_wal_error (run_store_op blake3 None op s) = cs_wal_error s"
proof (cases op)
  case (OInsert sid b)
  let ?i = "block_block_id blake3 b"
  let ?s = "insert_session blake3 sid ?i (snd (store_block ?i b s))"
  have i: "length ?i = 32" by (simp add: block_block_id_def hasher_finalize_def assms(1))
  have s: "cs_wal ?s = Some w" "cs_wal_error ?s = cs_wal_error s"
    by (simp_all add: insert_session_def count_session_def session_append_def store_block_maps w)
  have ok: "17 + length (bk_payload b) \<le> max_record_bytes" using assms(2) OInsert by (simp add: op_ok_def)
  have run: "run_store_op blake3 None op s = insert_shadow None sid b ?i None (cs_blocks s ?i = None) ?s"
    by (simp add: run_store_op_def OInsert store_insert_def insert_with_id_def insert_with_canonical_def case_prod_beta store_block_maps)
  show ?thesis
    using shadow_write [OF s(1) append_writes(1) [OF ok]] shadow_write [OF s(1) append_writes(3) [OF i]]
    by (simp only: run) (simp add: insert_shadow_def op_record_def OInsert view_of_def Let_def s)
next
  case (OReference sid i)
  then have i: "length i = 32" using assms(2) by (simp add: op_ok_def)
  have w': "cs_wal (session_append blake3 sid i s\<lparr>cs_stats := x\<rparr>) = Some w" for x by (simp add: session_append_def w)
  show ?thesis
    using shadow_write [OF w' append_writes(3) [OF i]] w
    by (simp add: run_store_op_def OReference store_reference_def Let_def op_record_def view_of_def) (simp add: session_append_def)
next
  case (OSeed sid ids root)
  then have ok: "list_all (\<lambda>i. length i = 32) ids" "length root = 32" "length ids * 32 + 36 \<le> max_record_bytes"
    using assms(2) by (simp_all add: op_ok_def)
  let ?s = "count_session (cs_sessions s sid = None)
    (s\<lparr>cs_sessions := (cs_sessions s)(sid \<mapsto> \<lparr>sl_ids = ids, sl_root = root\<rparr>)\<rparr>)"
  have s: "cs_wal ?s = Some w" "cs_wal_error ?s = cs_wal_error s" by (simp_all add: count_session_def w)
  show ?thesis
    using shadow_write [OF s(1) seed_writes [OF ok]] by (simp add: run_store_op_def OSeed seed_session_def op_record_def s)
next
  case (OContent sid b)
  let ?s = "snd (store_block (block_block_id blake3 b) b s)"
  have s: "cs_wal ?s = Some w" "cs_wal_error ?s = cs_wal_error s" by (simp_all add: store_block_maps w)
  have ok: "17 + length (bk_payload b) \<le> max_record_bytes" using assms(2) OContent by (simp add: op_ok_def)
  show ?thesis
    using shadow_write [OF s(1) append_writes(2) [OF ok]]
    by (simp add: run_store_op_def OContent store_content_def store_content_with_id_def op_record_def view_of_def case_prod_beta
        store_block_maps s w)
qed

section \<open>Crash recovery\<close>

text \<open>
  A store with a journal. Replaying the record of an operation has the effect of the operation, and a record
  that was cut has none. \<open>view\<close> is what must survive.
\<close>

fun journal_of :: "('v \<Rightarrow> 'op \<Rightarrow> bytes) \<Rightarrow> ('op \<Rightarrow> 'v \<Rightarrow> 'v) \<Rightarrow> 'v \<Rightarrow> 'op list \<Rightarrow> bytes" where
  "journal_of rc step v [] = []"
| "journal_of rc step v (op # ops) = rc v op @ journal_of rc step (step op v) ops"

lemma journal_of_append:
  "journal_of rc step v (ops @ ops') = journal_of rc step v ops @ journal_of rc step (fold step ops v) ops'"
  by (induction ops arbitrary: v) simp_all

locale journaled_store =
  fixes step :: "'op \<Rightarrow> 'v \<Rightarrow> 'v" and rc :: "'v \<Rightarrow> 'op \<Rightarrow> bytes" and ok :: "'op \<Rightarrow> bool"
    and view :: "'s \<Rightarrow> 'v" and replay :: "bytes \<Rightarrow> nat \<Rightarrow> 's \<Rightarrow> 'e + nat \<times> 's"
  assumes replay_nothing: "replay [] p s = Inr (p, s)"
    and replay_whole: "ok op \<Longrightarrow> \<exists>s'. view s' = step op (view s) \<and>
      (\<forall>rest. replay (rc (view s) op @ rest) p s = replay rest (p + length (rc (view s) op)) s')"
    and replay_cut: "ok op \<Longrightarrow> n < length (rc (view s) op) \<Longrightarrow> replay (take n (rc (view s) op)) p s = Inr (p, s)"
begin

lemma recovers_prefix:
  assumes "list_all ok ops"
  shows "\<exists>j \<le> length ops. \<exists>s'.
    replay (take n (journal_of rc step (view s) ops)) p s = Inr (p + length (journal_of rc step (view s) (take j ops)), s') \<and>
    view s' = fold step (take j ops) (view s) \<and>
    length (journal_of rc step (view s) (take j ops)) \<le> n \<and>
    (\<forall>i \<le> length ops. length (journal_of rc step (view s) (take i ops)) \<le> n \<longrightarrow> i \<le> j)"
  using assms
proof (induction ops arbitrary: s p n)
  case Nil
  show ?case by (rule exI [of _ 0]) (simp add: replay_nothing)
next
  case (Cons op ops)
  let ?r = "rc (view s) op"
  show ?case
  proof (cases "n < length ?r")
    case True
    have "i = 0" if "length (journal_of rc step (view s) (take i (op # ops))) \<le> n" for i
      using that True by (cases i) auto
    moreover have "replay (take n ?r) p s = Inr (p, s)" using Cons.prems True by (intro replay_cut) simp_all
    ultimately show ?thesis using True by (intro exI [of _ 0]) auto
  next
    case False
    from Cons.prems obtain s1 where s1: "view s1 = step op (view s)"
      and run: "\<And>rest. replay (?r @ rest) p s = replay rest (p + length ?r) s1"
      using replay_whole [of op s p] by auto
    obtain j s' where j: "j \<le> length ops"
      and s': "replay (take (n - length ?r) (journal_of rc step (view s1) ops)) (p + length ?r) s1 =
        Inr (p + length ?r + length (journal_of rc step (view s1) (take j ops)), s')"
      "view s' = fold step (take j ops) (view s1)"
      "length (journal_of rc step (view s1) (take j ops)) \<le> n - length ?r"
      and mx: "\<And>i. i \<le> length ops \<Longrightarrow> length (journal_of rc step (view s1) (take i ops)) \<le> n - length ?r \<Longrightarrow> i \<le> j"
      using Cons.IH [of "n - length ?r" s1 "p + length ?r"] Cons.prems by auto
    have "i \<le> Suc j" if "i \<le> length (op # ops)" "length (journal_of rc step (view s) (take i (op # ops))) \<le> n" for i
      using that mx [of "i - 1"] by (cases i) (auto simp: s1)
    with j s' False show ?thesis
      by (intro exI [of _ "Suc j"]) (auto simp: s1 run add.assoc)
  qed
qed

end

lemma replay_record_bytes:
  assumes "length payload \<le> max_record_bytes"
  shows "wal_replay blake3 (wal_record sid v payload @ rest) p s =
    wal_replay blake3 rest (p + length (wal_record sid v payload)) (replay_record blake3 sid v payload s)"
proof -
  have "unat (word_of_nat (length payload) :: u32) = length payload"
    using assms by (intro unat_u32_of_nat) (simp add: max_record_bytes_def)
  then show ?thesis
    using assms by (subst wal_replay.simps)
      (simp add: wal_record_def wal_header_def le_simps sub_slice_def nth_append Let_def ac_simps drop_Cons')
qed

lemma replay_cut_record:
  assumes "length payload \<le> max_record_bytes" and "n < length (wal_record sid v payload)"
  shows "wal_replay blake3 (take n (wal_record sid v payload)) p s = Inr (p, s)"
proof (cases "n < 21")
  case True
  then have "length (take n (wal_record sid v payload)) < wal_header" by (simp add: wal_header_def)
  then show ?thesis by (simp add: wal_replay.simps)
next
  case False
  have len: "unat (word_of_nat (length payload) :: u32) = length payload"
    using assms by (intro unat_u32_of_nat) (simp add: max_record_bytes_def)
  have cut: "take n (wal_record sid v payload) = u128_le sid @ [v] @ u32_le (word_of_nat (length payload)) @ take (n - 21) payload"
    using False by (simp add: wal_record_def take_Cons')
  have short: "n - 21 < length payload" using assms(2) False by (simp add: wal_record_def)
  show ?thesis
    unfolding cut using assms(1) short
    by (subst wal_replay.simps) (simp add: wal_header_def le_simps sub_slice_def nth_append Let_def len)
qed

lemma read_ids_concat:
  assumes "list_all (\<lambda>i. length i = 32) ids" and "length c = 4"
  shows "read_ids (c @ concat ids @ root) (length ids) = ids"
proof -
  have "take 32 (drop (i * 32) (concat ids @ root)) = ids ! i" if "i < length ids" for i
    using assms(1) that
  proof (induction ids arbitrary: i)
    case (Cons x xs)
    then show ?case by (cases i) (simp_all add: ac_simps)
  qed simp
  then show ?thesis
    by (intro nth_equalityI) (simp_all add: read_ids_def sub_slice_def assms(2))
qed

lemma payload_ok_of_record: "17 + length (bk_payload b) \<le> max_record_bytes \<Longrightarrow> payload_ok b"
  by (simp add: payload_ok_def max_record_bytes_def)

lemma from_canonical_whole:
  "17 + length (bk_payload b) \<le> max_record_bytes \<Longrightarrow> from_canonical (canonical_bytes b) = Inr b"
  using from_canonical_bytes [OF payload_ok_of_record, of b "[]"] by simp

lemma replay_insert_record:
  assumes "op_ok (OInsert sid b)"
  shows "view_of (replay_record blake3 sid 0 (canonical_bytes b) s) = spec_op blake3 (OInsert sid b) (view_of s)"
  using assms run_op_refines [of blake3 None "OInsert sid b" s]
  by (simp add: replay_record_def from_canonical_whole op_ok_def run_store_op_def)

lemma replay_reference_record:
  assumes "length i = 32"
  shows "view_of (replay_record blake3 sid 1 i s) = spec_op blake3 (OReference sid i) (view_of s)"
  using assms run_op_refines [of blake3 None "OReference sid i" s] by (simp add: replay_record_def run_store_op_def)

lemma replay_content_record:
  assumes "op_ok (OContent sid b)"
  shows "view_of (replay_record blake3 sid 3 (canonical_bytes b) s) = spec_op blake3 (OContent sid b) (view_of s)"
  using assms run_op_refines [of blake3 None "OContent sid b" s]
  by (simp add: replay_record_def from_canonical_whole op_ok_def run_store_op_def)

lemma replay_seed_record:
  assumes "op_ok (OSeed sid ids root)"
  shows "view_of (replay_record blake3 sid 2 (u32_le (word_of_nat (length ids)) @ concat ids @ root) s)
    = spec_op blake3 (OSeed sid ids root) (view_of s)"
proof -
  have ok: "list_all (\<lambda>i. length i = 32) ids" "length root = 32" "length ids * 32 + 36 \<le> max_record_bytes"
    using assms by (simp_all add: op_ok_def)
  let ?p = "u32_le (word_of_nat (length ids)) @ concat ids @ root"
  have count: "unat (word_of_nat (length ids) :: u32) = length ids"
    using ok(3) by (intro unat_u32_of_nat) (simp add: max_record_bytes_def)
  have len: "length ?p = length ids * 32 + 36" using ok by (simp add: concat_ids_length)
  have root: "sub_slice (4 + length ids * 32) (36 + length ids * 32) ?p = root"
    using ok by (simp add: sub_slice_def concat_ids_length)
  have "replay_record blake3 sid 2 ?p s = seed_session None sid ids root s"
    using ok(3) len
    by (simp add: replay_record_def le_simps count root read_ids_concat [OF ok(1)] max_record_bytes_def Let_def del: length_append)
  then show ?thesis using run_op_refines [of blake3 None "OSeed sid ids root" s] by (simp add: run_store_op_def)
qed

lemma dedup_insert_is_reference:
  assumes "fst v (block_block_id blake3 b) \<noteq> None"
  shows "spec_op blake3 (OInsert sid b) v = spec_op blake3 (OReference sid (block_block_id blake3 b)) v"
  using assms by (cases v) (auto simp: spec_op_def spec_add_def)

lemma silent_op:
  assumes "op_record blake3 v op = []"
  shows "spec_op blake3 op v = v"
  using assms by (cases v; cases op) (auto simp: op_record_def wal_record_def spec_op_def spec_add_def Let_def split: if_splits)

text \<open>Every operation leaves nothing, or one record that replays to its effect.\<close>

lemma op_record_replays:
  assumes "\<And>x. length (blake3 x) = 32" and "op_ok op" and "op_record blake3 (view_of s) op \<noteq> []"
  obtains sid v payload where "op_record blake3 (view_of s) op = wal_record sid v payload"
    and "length payload \<le> max_record_bytes"
    and "\<And>s'. view_of s' = view_of s \<Longrightarrow> view_of (replay_record blake3 sid v payload s') = spec_op blake3 op (view_of s)"
proof (cases op)
  case (OInsert sid b)
  let ?i = "block_block_id blake3 b"
  have i: "length ?i = 32" by (simp add: block_block_id_def hasher_finalize_def assms(1))
  show thesis
  proof (cases "fst (view_of s) ?i = None")
    case True
    then show thesis
      using that [of sid 0 "canonical_bytes b"] assms(2) replay_insert_record [of sid b blake3]
      by (simp add: OInsert op_record_def canonical_length op_ok_def)
  next
    case False
    then obtain y where "fst (view_of s) ?i = Some y" by auto
    then show thesis
      using that [of sid 1 ?i] replay_reference_record [OF i, of blake3 sid] dedup_insert_is_reference [OF False, of sid]
      by (simp add: OInsert op_record_def Let_def i max_record_bytes_def)
  qed
next
  case (OReference sid i)
  then show thesis
    using that [of sid 1 i] assms(2,3) replay_reference_record [of i blake3 sid]
    by (auto simp: op_record_def op_ok_def max_record_bytes_def split: if_splits)
next
  case (OSeed sid ids root)
  then show thesis
    using that [of sid 2 "u32_le (word_of_nat (length ids)) @ concat ids @ root"] assms(2) replay_seed_record [of sid ids root blake3]
    by (simp add: op_record_def op_ok_def concat_ids_length)
next
  case (OContent sid b)
  then show thesis
    using that [of sid 3 "canonical_bytes b"] assms(2,3) replay_content_record [of sid b blake3]
    by (auto simp: op_record_def op_ok_def canonical_length split: if_splits)
qed

lemma replay_nil: "wal_replay blake3 [] p s = Inr (p, s)"
  by (simp add: wal_replay.simps wal_header_def)

lemma wal_is_journaled_store:
  assumes "\<And>x. length (blake3 x) = 32"
  shows "journaled_store (spec_op blake3) (op_record blake3) op_ok view_of (wal_replay blake3)"
proof
  fix p s show "wal_replay blake3 [] p s = Inr (p, s)" by (rule replay_nil)
next
  fix op s p assume ok: "op_ok op"
  let ?r = "op_record blake3 (view_of s) op"
  show "\<exists>s'. view_of s' = spec_op blake3 op (view_of s) \<and>
    (\<forall>rest. wal_replay blake3 (?r @ rest) p s = wal_replay blake3 rest (p + length ?r) s')"
  proof (cases "?r = []")
    case True
    then show ?thesis by (intro exI [of _ s]) (simp add: silent_op)
  next
    case False
    obtain sid v payload where "?r = wal_record sid v payload" "length payload \<le> max_record_bytes"
      and "\<And>s'. view_of s' = view_of s \<Longrightarrow> view_of (replay_record blake3 sid v payload s') = spec_op blake3 op (view_of s)"
      by (rule op_record_replays [OF assms ok False]) (rule that)
    then show ?thesis by (intro exI [of _ "replay_record blake3 sid v payload s"]) (simp add: replay_record_bytes)
  qed
next
  fix op n s p assume ok: "op_ok op" and n: "n < length (op_record blake3 (view_of s) op)"
  then have nonempty: "op_record blake3 (view_of s) op \<noteq> []" by auto
  obtain sid v payload where "op_record blake3 (view_of s) op = wal_record sid v payload"
    and "length payload \<le> max_record_bytes"
    and "\<And>s'. view_of s' = view_of s \<Longrightarrow> view_of (replay_record blake3 sid v payload s') = spec_op blake3 op (view_of s)"
    by (rule op_record_replays [OF assms ok nonempty]) (rule that)
  then show "wal_replay blake3 (take n (op_record blake3 (view_of s) op)) p s = Inr (p, s)"
    using replay_cut_record n by simp
qed

lemma shadow_none: "cs_wal s = None \<Longrightarrow> shadow f s = s"
  by (simp add: shadow_def)

lemma run_op_no_wal: "cs_wal s = None \<Longrightarrow> cs_wal (run_store_op blake3 out op s) = None"
  by (cases op) (simp_all add: run_store_op_def store_defs case_prod_beta store_block_maps shadow_none Let_def)

lemma replay_record_no_wal:
  assumes "cs_wal s = None"
  shows "cs_wal (replay_record blake3 sid v payload s) = None"
proof -
  have "cs_wal (snd (store_insert blake3 None sid b s)) = None" "cs_wal (snd (store_content blake3 None sid b s)) = None"
    "cs_wal (snd (store_reference blake3 None sid i s)) = None" "cs_wal (seed_session None sid ids root s) = None" for b i ids root
    using run_op_no_wal [OF assms, of blake3 None "OInsert sid b"] run_op_no_wal [OF assms, of blake3 None "OContent sid b"]
      run_op_no_wal [OF assms, of blake3 None "OReference sid i"] run_op_no_wal [OF assms, of blake3 None "OSeed sid ids root"]
    by (simp_all add: run_store_op_def)
  then show ?thesis by (simp add: replay_record_def Let_def assms split: sum.split)
qed

lemma replay_keeps_no_wal:
  assumes "wal_replay blake3 r p s = Inr (n, s')" and "cs_wal s = None"
  shows "cs_wal s' = None"
  using assms
proof (induction blake3 r p s arbitrary: n s' rule: wal_replay.induct)
  case (1 blake3 r p s)
  show ?case
  proof (cases "length r < wal_header \<or> length r < wal_header + unat (u32_of_le (sub_slice 17 21 r))")
    case True
    then show ?thesis using 1(2,3) by (subst (asm) wal_replay.simps) (auto simp: Let_def split: if_splits)
  next
    case False
    then show ?thesis
      using 1(2) by (subst (asm) wal_replay.simps)
        (auto simp: Let_def split: if_splits intro: 1(1) [OF _ refl refl refl _ _ _ replay_record_no_wal [OF 1(3)]])
  qed
qed

text \<open>A hash cut or padded to 32 bytes: every function of bytes as a BLAKE3, and a BLAKE3 itself.\<close>

definition digest32 :: "(bytes \<Rightarrow> bytes) \<Rightarrow> bytes \<Rightarrow> bytes" where
  "digest32 h x = take 32 (h x @ replicate 32 0)"

lemma digest32_length [simp]: "length (digest32 h x) = 32"
  by (simp add: digest32_def)

lemma digest32_id: "(\<And>x. length (h x) = 32) \<Longrightarrow> digest32 h = h"
  by (rule ext) (simp add: digest32_def)

interpretation journal: journaled_store "spec_op (digest32 h)" "op_record (digest32 h)" op_ok view_of "wal_replay (digest32 h)"
  for h
  by (rule wal_is_journaled_store) simp

abbreviation wal_journal :: "(bytes \<Rightarrow> bytes) \<Rightarrow> store_op list \<Rightarrow> bytes" where
  "wal_journal h ops \<equiv> journal_of (op_record h) (spec_op h) (view_of store_new) ops"

lemma wal_of_ops:
  assumes "\<And>x. length (h x) = 32" and "list_all op_ok ops" and "cs_wal s = Some w"
  shows "cs_wal (run_ops h ops s) = Some (w\<lparr>w_bytes := w_bytes w @ journal_of (op_record h) (spec_op h) (view_of s) ops\<rparr>)
    \<and> cs_wal_error (run_ops h ops s) = cs_wal_error s"
  using assms(2,3)
proof (induction ops arbitrary: s w)
  case Nil
  then show ?case by (simp add: run_ops_def)
next
  case (Cons op ops)
  have step: "cs_wal (run_store_op h None op s) = Some (w\<lparr>w_bytes := w_bytes w @ op_record h (view_of s) op\<rparr>)"
    "cs_wal_error (run_store_op h None op s) = cs_wal_error s"
    using wal_of_op [OF assms(1), of op s w] Cons.prems by simp_all
  show ?case using Cons.IH [OF _ step(1)] Cons.prems step(2) by (simp add: run_ops_def run_op_refines)
qed

lemma recovers_ops:
  assumes len: "\<And>x. length (h x) = 32" and ok: "list_all op_ok ops"
  shows "\<exists>j \<le> length ops. \<exists>s w.
    with_wal h True (take n (wal_journal h ops)) = Inr s \<and> view_of s = fold (spec_op h) (take j ops) (view_of store_new) \<and>
    cs_wal s = Some w \<and> w_bytes w = wal_journal h (take j ops) \<and> length (wal_journal h (take j ops)) \<le> n \<and>
    (\<forall>i \<le> length ops. length (wal_journal h (take i ops)) \<le> n \<longrightarrow> i \<le> j)"
proof -
  obtain j s where j: "j \<le> length ops"
    and rep: "wal_replay h (take n (wal_journal h ops)) 0 store_new = Inr (length (wal_journal h (take j ops)), s)"
    and s: "view_of s = fold (spec_op h) (take j ops) (view_of store_new)"
    and n: "length (wal_journal h (take j ops)) \<le> n"
    and mx: "\<forall>i \<le> length ops. length (wal_journal h (take i ops)) \<le> n \<longrightarrow> i \<le> j"
    using journal.recovers_prefix [OF ok, of h n store_new 0] unfolding digest32_id [OF len] by auto
  have pre: "wal_journal h ops = wal_journal h (take j ops) @ journal_of (op_record h) (spec_op h)
      (fold (spec_op h) (take j ops) (view_of store_new)) (drop j ops)"
    by (metis append_take_drop_id journal_of_append)
  let ?bs = "take n (wal_journal h ops)" and ?len = "length (wal_journal h (take j ops))"
  have "?len \<le> length ?bs" using n by (simp add: pre)
  then have bs: "(if ?len < length ?bs then take ?len ?bs else ?bs) = wal_journal h (take j ops)"
    using n by (auto simp: pre min_def split: if_splits)
  have wal_none: "cs_wal s = None"
    using rep by (rule replay_keeps_no_wal) (simp add: store_new_def)
  have "with_wal h True ?bs = Inr (set_wal \<lparr>w_bytes = wal_journal h (take j ops), w_durable = 0\<rparr> s)"
    unfolding with_wal_def wal_open_def rep by (simp only: bs Let_def sum.case prod.case simp_thms if_False not_True_eq_False)
  moreover have "view_of (set_wal w s) = view_of s" for w by (simp add: set_wal_def view_of_def)
  ultimately show ?thesis using j s n mx wal_none by (intro exI [of _ j]) (auto simp: set_wal_def)
qed

section \<open>Invariants\<close>

text \<open>
  Every block is stored under its own id, and the root of every session is the root of its ids.
\<close>

definition view_inv :: "(bytes \<Rightarrow> bytes) \<Rightarrow> store_view \<Rightarrow> bool" where
  "view_inv h v \<longleftrightarrow> (\<forall>i b. fst v i = Some b \<longrightarrow> i = block_block_id h b) \<and>
     (\<forall>sid l. snd v sid = Some l \<longrightarrow> sl_root l = root_over h root_zero (sl_ids l))"

text \<open>A seed brings the root that belongs to its manifest.\<close>

definition seed_honest :: "(bytes \<Rightarrow> bytes) \<Rightarrow> store_op \<Rightarrow> bool" where
  "seed_honest h op = (case op of OSeed sid ids root \<Rightarrow> root = root_over h root_zero ids | _ \<Rightarrow> True)"

lemma log_entry_root:
  "(\<And>l. e = Some l \<Longrightarrow> sl_root l = root_over h root_zero (sl_ids l)) \<Longrightarrow>
   sl_root (log_entry h i e) = root_over h root_zero (sl_ids (log_entry h i e))"
  by (cases e) (simp_all add: log_entry_def root_over_def)

lemma spec_op_inv:
  assumes "view_inv h v" and "seed_honest h op"
  shows "view_inv h (spec_op h op v)"
proof -
  obtain bl ses where v: "v = (bl, ses)" by (cases v)
  have b: "\<And>i b. bl i = Some b \<Longrightarrow> i = block_block_id h b"
    and l: "\<And>sid l. ses sid = Some l \<Longrightarrow> sl_root l = root_over h root_zero (sl_ids l)"
    using assms(1) by (auto simp: view_inv_def v)
  have add: "spec_add (block_block_id h c) c bl i = Some b \<Longrightarrow> i = block_block_id h b" for c i b
    by (auto simp: spec_add_def b split: if_splits)
  show ?thesis
    using assms(2) by (cases op)
      (auto simp: v view_inv_def spec_op_def seed_honest_def b l add log_entry_root split: if_splits)
qed

lemma run_ops_inv:
  assumes "view_inv h (view_of s)" and "list_all (seed_honest h) ops"
  shows "view_inv h (view_of (run_ops h ops s))"
  using assms
proof (induction ops arbitrary: s)
  case (Cons op ops)
  then have "view_inv h (view_of (run_store_op h None op s))" by (simp add: run_op_refines spec_op_inv)
  with Cons show ?case by (simp add: run_ops_def)
qed (simp add: run_ops_def)

lemma view_new_inv: "view_inv h (view_of store_new)"
  by (simp add: view_inv_def view_of_def store_new_def)

section \<open>Failures of the log\<close>

lemma shadow_error: "cs_wal_error s = Some e \<Longrightarrow> cs_wal_error (shadow f s) = Some e"
  by (simp add: shadow_def record_wal_result_def latch_wal_error_def split: option.split prod.split)

lemma run_op_error: "cs_wal_error s = Some e \<Longrightarrow> cs_wal_error (run_store_op h out op s) = Some e"
  by (cases op) (simp_all add: run_store_op_def store_defs case_prod_beta store_block_maps shadow_error Let_def)

lemma shadow_latches:
  assumes "cs_wal s = Some w" and "snd (f w) = Some e" and "cs_wal_error s = None"
  shows "cs_wal_error (shadow f s) = Some e"
  using assms by (cases "f w") (simp add: shadow_def record_wal_result_def latch_wal_error_def)

lemma write_fails: "snd (wal_write (Some (k, e)) bs w) = Some e"
  by (simp add: wal_write_def)

lemma append_fails:
  "17 + length (bk_payload b) \<le> max_record_bytes \<Longrightarrow> snd (append_insert (Some (k, e)) sid (canonical_bytes b) w) = Some e"
  "17 + length (bk_payload b) \<le> max_record_bytes \<Longrightarrow> snd (append_content (Some (k, e)) sid (canonical_bytes b) w) = Some e"
  "snd (append_reference (Some (k, e)) sid i w) = Some e"
  "length ids * 32 + 36 \<le> max_record_bytes \<Longrightarrow> snd (append_seed (Some (k, e)) sid ids root w) = Some e"
  by (simp_all add: append_insert_def append_content_def append_reference_def append_seed_def record_len_ok canonical_length
      write_fails max_record_bytes_def del: of_nat_add)

lemma failed_op_latches:
  assumes "cs_wal s = Some w" and "cs_wal_error s = None" and "op_ok op" and "op_record h (view_of s) op \<noteq> []"
  shows "cs_wal_error (run_store_op h (Some (k, e)) op s) = Some e"
proof (cases op)
  case (OInsert sid b)
  let ?i = "block_block_id h b"
  let ?s = "insert_session h sid ?i (snd (store_block ?i b s))"
  have s: "cs_wal ?s = Some w" "cs_wal_error ?s = None"
    by (simp_all add: insert_session_def count_session_def session_append_def store_block_maps assms)
  have ok: "17 + length (bk_payload b) \<le> max_record_bytes" using assms(3) OInsert by (simp add: op_ok_def)
  show ?thesis
    using shadow_latches [OF s(1) append_fails(1) [OF ok] s(2)] shadow_latches [OF s(1) append_fails(3) s(2)]
    by (simp add: run_store_op_def OInsert store_insert_def insert_with_id_def insert_with_canonical_def case_prod_beta
        store_block_maps insert_shadow_def)
next
  case (OReference sid i)
  then have "cs_blocks s i \<noteq> None" using assms(4) by (auto simp: op_record_def view_of_def split: if_splits)
  moreover have "cs_wal (session_append h sid i s\<lparr>cs_stats := x\<rparr>) = Some w" "cs_wal_error (session_append h sid i s\<lparr>cs_stats := x\<rparr>) = None" for x
    by (simp_all add: session_append_def assms)
  ultimately show ?thesis
    using shadow_latches [OF _ append_fails(3)] by (auto simp: run_store_op_def OReference store_reference_def Let_def)
next
  case (OSeed sid ids root)
  let ?s = "count_session (cs_sessions s sid = None)
    (s\<lparr>cs_sessions := (cs_sessions s)(sid \<mapsto> \<lparr>sl_ids = ids, sl_root = root\<rparr>)\<rparr>)"
  have s: "cs_wal ?s = Some w" "cs_wal_error ?s = None" by (simp_all add: count_session_def assms)
  have ok: "length ids * 32 + 36 \<le> max_record_bytes" using assms(3) OSeed by (simp add: op_ok_def)
  show ?thesis
    using shadow_latches [OF s(1) append_fails(4) [OF ok] s(2)] by (simp add: run_store_op_def OSeed seed_session_def)
next
  case (OContent sid b)
  let ?s = "snd (store_block (block_block_id h b) b s)"
  have s: "cs_wal ?s = Some w" "cs_wal_error ?s = None" by (simp_all add: store_block_maps assms)
  have ok: "17 + length (bk_payload b) \<le> max_record_bytes" using assms(3) OContent by (simp add: op_ok_def)
  have "cs_blocks s (block_block_id h b) = None" using assms(4) OContent by (auto simp: op_record_def view_of_def split: if_splits)
  then show ?thesis
    using shadow_latches [OF s(1) append_fails(2) [OF ok] s(2)]
    by (simp add: run_store_op_def OContent store_content_def store_content_with_id_def case_prod_beta store_block_maps)
qed

lemma flush_latched: "cs_wal_error s = Some e \<Longrightarrow> flush_wal out sync s = (Inl e, s)"
  by (simp add: flush_wal_def)

lemma flush_view: "view_of (snd (flush_wal out sync s)) = view_of s"
  by (simp add: flush_wal_def view_of_def latch_wal_error_def split: option.split prod.split)

lemma flush_syncs:
  assumes "cs_wal s = Some w" and "cs_wal_error s = None"
  shows "flush_wal None True s = (Inr (), s\<lparr>cs_wal := Some (w\<lparr>w_durable := length (w_bytes w)\<rparr>)\<rparr>)"
  using assms by (simp add: flush_wal_def wal_flush_def)

section \<open>Cold start\<close>

lemma contents_sessions:
  "snd (fold (spec_op h) (map (OContent sid) cs) v) = snd v"
  by (induction cs arbitrary: v) (auto simp: spec_op_def split: prod.split)

lemma contents_keep:
  "fst v i = Some c \<Longrightarrow> fst (fold (spec_op h) (map (OContent sid) cs) v) i = Some c"
proof (induction cs arbitrary: v)
  case (Cons c' cs)
  then have "fst (spec_op h (OContent sid c') v) i = Some c" by (cases v) (auto simp: spec_op_def spec_add_def)
  with Cons show ?case by simp
qed simp

lemma contents_blocks:
  assumes "inj_on (block_block_id h) (set cs \<union> B)" and "\<And>i b. fst v i = Some b \<Longrightarrow> b \<in> B \<and> i = block_block_id h b"
    and "b \<in> set cs"
  shows "fst (fold (spec_op h) (map (OContent sid) cs) v) (block_block_id h b) = Some b"
  using assms
proof (induction cs arbitrary: v B)
  case (Cons c cs)
  let ?v = "spec_op h (OContent sid c) v"
  have fst_v: "fst ?v = spec_add (block_block_id h c) c (fst v)" by (cases v) (simp add: spec_op_def)
  show ?case
  proof (cases "b = c")
    case True
    have "fst ?v (block_block_id h c) = Some c"
    proof (cases "fst v (block_block_id h c)")
      case (Some d)
      then have "d \<in> B" "block_block_id h c = block_block_id h d" using Cons.prems(2) by auto
      then have "c = d" using Cons.prems(1) by (auto dest: inj_onD)
      then show ?thesis using Some unfolding fst_v by (simp add: spec_add_def)
    qed (simp add: fst_v spec_add_def)
    then show ?thesis using True contents_keep by simp
  next
    case False
    have "fst (fold (spec_op h) (map (OContent sid) cs) ?v) (block_block_id h b) = Some b"
    proof (rule Cons.IH [where B = "insert c B"])
      show "inj_on (block_block_id h) (set cs \<union> insert c B)" using Cons.prems(1) by simp
      show "e \<in> insert c B \<and> i = block_block_id h e" if "fst ?v i = Some e" for i e
        using that Cons.prems(2) by (auto simp: fst_v spec_add_def split: if_splits)
      show "b \<in> set cs" using False Cons.prems(3) by simp
    qed
    then show ?thesis by simp
  qed
qed simp

lemma blocks_of_all:
  "(\<And>b. b \<in> set bs \<Longrightarrow> cs_blocks s (f b) = Some b) \<Longrightarrow> blocks_of s (map f bs) = bs"
  unfolding blocks_of_def by (induction bs) (simp_all add: List.map_filter_simps)

section \<open>Properties\<close>

definition demo_store :: content_store where
  "demo_store = set_wal \<lparr>w_bytes = [], w_durable = 0\<rparr> store_new"

definition demo_ops :: "store_op list" where
  "demo_ops = [OInsert 1 demo_block, OInsert 2 demo_block]"

definition demo_blake3 :: "bytes \<Rightarrow> bytes" where
  "demo_blake3 bs = take 32 (rev bs @ replicate 32 0)"

lemma demo_facts: "length (demo_blake3 x) = 32" "list_all op_ok demo_ops" "op_ok (OInsert 1 demo_block)"
  by (simp_all add: demo_blake3_def demo_ops_def op_ok_def demo_block_def block_new_def max_record_bytes_def)

text \<open>
  C27: a crash loses only what was not flushed. A store runs \<open>before\<close>, flushes with \<open>fsync\<close>, runs \<open>after\<close>, and the
  process dies leaving any prefix of the log that covers the flush, cut anywhere, even inside a record. Opening that
  file succeeds and gives the blocks and session logs of \<open>before\<close> and of some prefix of \<open>after\<close>; and the new log holds
  exactly the records of those operations, so that later records are not hidden behind a torn one. The operations are within the size limit
  of a record and ids have 32 bytes (\<open>op_ok\<close>).
\<close>

theorem crash_recovery:
  assumes "\<forall>x. length (h x) = 32" and "list_all op_ok (before @ after)"
    and "run_ops h before (set_wal \<lparr>w_bytes = [], w_durable = 0\<rparr> store_new) = s1"
    and "flush_wal None True s1 = (Inr (), s2)"
    and "run_ops h after s2 = s3" and "cs_wal s3 = Some w" and "w_durable w \<le> n"
  shows "\<exists>j s w'. with_wal h True (take n (w_bytes w)) = Inr s \<and>
    view_of s = view_of (run_ops h (before @ take j after) store_new) \<and>
    cs_wal s = Some w' \<and> w_bytes w' = wal_journal h (before @ take j after)"
proof -
  have len: "\<And>x. length (h x) = 32" using assms(1) by simp
  let ?s0 = "set_wal \<lparr>w_bytes = [], w_durable = 0\<rparr> store_new"
  have v0: "view_of ?s0 = view_of store_new" and w0: "cs_wal ?s0 = Some \<lparr>w_bytes = [], w_durable = 0\<rparr>"
    and e0: "cs_wal_error ?s0 = None"
    by (simp_all add: set_wal_def store_new_def view_of_def)
  have w1: "cs_wal s1 = Some \<lparr>w_bytes = wal_journal h before, w_durable = 0\<rparr>" and e1: "cs_wal_error s1 = None"
    using wal_of_ops [OF len _ w0, of before] assms(2,3) v0 e0 by auto
  have v1: "view_of s1 = fold (spec_op h) before (view_of store_new)"
    using assms(3) v0 by (auto simp: run_ops_refines)
  have s2: "s2 = s1\<lparr>cs_wal := Some \<lparr>w_bytes = wal_journal h before, w_durable = length (wal_journal h before)\<rparr>\<rparr>"
    using assms(4) flush_syncs [OF w1 e1] by simp
  have w2: "cs_wal s2 = Some \<lparr>w_bytes = wal_journal h before, w_durable = length (wal_journal h before)\<rparr>"
    by (simp add: s2)
  have v2: "view_of s2 = fold (spec_op h) before (view_of store_new)" using v1 by (simp add: s2 view_of_def)
  have w: "w = \<lparr>w_bytes = wal_journal h (before @ after), w_durable = length (wal_journal h before)\<rparr>"
    using wal_of_ops [where h = h, OF len _ w2, of after] assms(2,5,6) by (simp add: journal_of_append v2)
  obtain i s w' where s: "with_wal h True (take n (wal_journal h (before @ after))) = Inr s"
    "view_of s = fold (spec_op h) (take i (before @ after)) (view_of store_new)" "cs_wal s = Some w'"
    "w_bytes w' = wal_journal h (take i (before @ after))"
    and mx: "\<forall>i' \<le> length (before @ after). length (wal_journal h (take i' (before @ after))) \<le> n \<longrightarrow> i' \<le> i"
    using recovers_ops [where h = h and n = n, OF len assms(2)] by auto
  have "length before \<le> i" using mx [rule_format, of "length before"] assms(7) by (simp add: w)
  then have "take i (before @ after) = before @ take (i - length before) after" by simp
  then show ?thesis using s
    by (intro exI [of _ "i - length before"]) (simp add: w run_ops_refines)
qed

theorem crash_recovery_witness:
  "\<exists>j s w'. with_wal demo_blake3 True (take 100 (wal_journal demo_blake3 demo_ops)) = Inr s \<and>
    view_of s = view_of (run_ops demo_blake3 ([OInsert 1 demo_block] @ take j [OInsert 2 demo_block]) store_new) \<and>
    cs_wal s = Some w' \<and> w_bytes w' = wal_journal demo_blake3 ([OInsert 1 demo_block] @ take j [OInsert 2 demo_block])"
proof -
  let ?b = "[OInsert 1 demo_block]" and ?a = "[OInsert 2 demo_block]"
  let ?s1 = "run_ops demo_blake3 ?b (set_wal \<lparr>w_bytes = [], w_durable = 0\<rparr> store_new)"
  have w0: "cs_wal (set_wal \<lparr>w_bytes = [], w_durable = 0\<rparr> store_new) = Some \<lparr>w_bytes = [], w_durable = 0\<rparr>"
    and e0: "cs_wal_error (set_wal \<lparr>w_bytes = [], w_durable = 0\<rparr> store_new) = None"
    and v0: "view_of (set_wal w store_new) = view_of store_new" for w
    by (simp_all add: set_wal_def store_new_def view_of_def)
  have ok: "list_all op_ok (?b @ ?a)" using demo_facts(2) by (simp add: demo_ops_def)
  have w1: "cs_wal ?s1 = Some \<lparr>w_bytes = wal_journal demo_blake3 ?b, w_durable = 0\<rparr>" "cs_wal_error ?s1 = None"
    using wal_of_ops [OF demo_facts(1) _ w0, of ?b] ok e0 v0 by auto
  define s2 where "s2 = snd (flush_wal None True ?s1)"
  have f: "flush_wal None True ?s1 = (Inr (), s2)" and
    w2: "cs_wal s2 = Some \<lparr>w_bytes = wal_journal demo_blake3 ?b, w_durable = length (wal_journal demo_blake3 ?b)\<rparr>"
    using flush_syncs [OF w1] by (simp_all add: s2_def)
  have v2: "view_of s2 = fold (spec_op demo_blake3) ?b (view_of store_new)"
    unfolding s2_def flush_view run_ops_refines v0 ..
  have len: "length (wal_journal demo_blake3 ?b) \<le> 100"
    by (simp add: op_record_def view_of_def store_new_def wal_record_def canonical_length demo_block_def block_new_def)
  have w3: "cs_wal (run_ops demo_blake3 ?a s2) = Some \<lparr>w_bytes = wal_journal demo_blake3 (?b @ ?a),
      w_durable = length (wal_journal demo_blake3 ?b)\<rparr>"
    using wal_of_ops [OF demo_facts(1) _ w2, of ?a] ok v2 by (simp only: journal_of_append) simp
  show ?thesis
    using crash_recovery [OF _ ok refl f refl w3, of 100] len demo_facts(1) by (simp add: demo_ops_def)
qed

text \<open>
  A failed write is never acknowledged: once an operation that has something to log meets a write error, every
  later flush returns that error, whatever operations run in between and whether or not their writes succeed.
\<close>

theorem failed_append_reported:
  assumes "cs_wal s = Some w" and "cs_wal_error s = None" and "op_ok op" and "op_record h (view_of s) op \<noteq> []"
  shows "fst (flush_wal fo sync (fold (\<lambda>(out, op'). run_store_op h out op') later (run_store_op h (Some (k, e)) op s))) = Inl e"
proof -
  have "cs_wal_error (fold (\<lambda>(out, op'). run_store_op h out op') later t) = Some e" if "cs_wal_error t = Some e" for t
    using that by (induction later arbitrary: t) (auto simp: run_op_error)
  then show ?thesis using failed_op_latches [OF assms] by (simp add: flush_latched)
qed

theorem failed_append_reported_witness:
  "fst (flush_wal None True (run_store_op demo_blake3 None (OInsert 2 demo_block)
     (run_store_op demo_blake3 (Some (5, (OtherKind ''disk full'', ''disk full''))) (OInsert 1 demo_block) demo_store)))
   = Inl (OtherKind ''disk full'', ''disk full'')"
proof -
  have "op_record demo_blake3 (view_of demo_store) (OInsert 1 demo_block) \<noteq> []"
    by (simp add: op_record_def view_of_def demo_store_def set_wal_def store_new_def wal_record_def)
  then show ?thesis
    using failed_append_reported [of demo_store "\<lparr>w_bytes = [], w_durable = 0\<rparr>" "OInsert 1 demo_block" demo_blake3 None True
        "[(None, OInsert 2 demo_block)]" 5 "(OtherKind ''disk full'', ''disk full'')"] demo_facts(3)
    by (simp add: demo_store_def set_wal_def store_new_def)
qed

text \<open>
  In every store that has run any operations (a seed bringing the root of its manifest), the root of a session
  is the root over its ids, and a block is found only under its own id.
\<close>

theorem store_invariant:
  assumes "list_all (seed_honest h) ops"
  shows "let s = run_ops h ops store_new
    in session_root sid s = root_over h root_zero (session_ids sid s) \<and> (\<forall>b. cs_blocks s i = Some b \<longrightarrow> i = block_block_id h b)"
  using run_ops_inv [OF view_new_inv assms]
  by (auto simp: Let_def view_inv_def view_of_def session_root_def session_ids_def root_over_def split: option.split)

theorem store_invariant_witness:
  "session_root 2 (run_ops demo_blake3 demo_ops store_new)
     = root_over demo_blake3 root_zero (session_ids 2 (run_ops demo_blake3 demo_ops store_new))"
  using store_invariant [of demo_blake3 demo_ops 2] by (simp add: demo_ops_def seed_honest_def Let_def)

text \<open>
  A cold start may receive its blocks in any order, and repeatedly: after a seed with the manifest, whatever the
  order in which the blocks arrive, the session keeps the order and the root of the manifest and reconstructs
  exactly its blocks (for blocks whose ids are distinct).
\<close>

theorem cold_start_any_order:
  assumes "inj_on (block_block_id h) (set bs)" and "set arrivals = set bs"
  shows "let s = run_ops h (OSeed sid (map (block_block_id h) bs) root # map (OContent sid) arrivals) store_new
    in reconstruct sid s = bs \<and> session_root sid s = root"
proof -
  let ?ids = "map (block_block_id h) bs"
  let ?v = "spec_op h (OSeed sid ?ids root) (view_of store_new)"
  let ?s = "run_ops h (OSeed sid ?ids root # map (OContent sid) arrivals) store_new"
  have view: "view_of ?s = fold (spec_op h) (map (OContent sid) arrivals) ?v" by (simp add: run_ops_refines)
  have "cs_sessions ?s sid = Some \<lparr>sl_ids = ?ids, sl_root = root\<rparr>"
    using arg_cong [OF view, of snd] by (simp add: contents_sessions) (simp add: view_of_def spec_op_def store_new_def)
  moreover have "cs_blocks ?s (block_block_id h b) = Some b" if "b \<in> set bs" for b
    using arg_cong [OF view, of fst] contents_blocks [of h arrivals "{}" ?v b sid] assms that
    by (simp add: view_of_def spec_op_def store_new_def)
  ultimately show ?thesis by (simp add: reconstruct_def session_root_def blocks_of_all Let_def)
qed

theorem cold_start_any_order_witness:
  "let s = run_ops demo_blake3 (OSeed 3 (map (block_block_id demo_blake3) [demo_block, block_new Message 1 []]) root_zero
       # map (OContent 3) [block_new Message 1 [], demo_block, demo_block]) store_new
   in reconstruct 3 s = [demo_block, block_new Message 1 []] \<and> session_root 3 s = root_zero"
proof (rule cold_start_any_order)
  have "block_block_id demo_blake3 demo_block ! 0 = 105" "block_block_id demo_blake3 (block_new Message 1 []) ! 0 = 0"
    by code_simp+
  then show "inj_on (block_block_id demo_blake3) (set [demo_block, block_new Message 1 []])"
    by (auto simp: inj_on_def)
qed auto

text \<open>
  C32: two threads that insert the same block into different sessions can leave a log that loses a session. The thread
  that finds the block present may append its reference before the other thread appends the block; after a restart the
  reference is dropped and the session is empty, although it held the block and a flush succeeded.
\<close>

theorem interleaved_inserts_lose_session:
  assumes "\<forall>x. length (h x) = 32" and "op_ok (OInsert sid1 b)" and "sid1 \<noteq> sid2"
    and "store_block (block_block_id h b) b (set_wal \<lparr>w_bytes = [], w_durable = 0\<rparr> store_new) = (new1, s1)"
    and "store_block (block_block_id h b) b s1 = (new2, s2)"
    and "insert_shadow None sid2 b (block_block_id h b) None new2 (insert_session h sid2 (block_block_id h b) s2) = s3"
    and "insert_shadow None sid1 b (block_block_id h b) None new1 (insert_session h sid1 (block_block_id h b) s3) = s4"
  shows "session_ids sid2 s4 = [block_block_id h b] \<and>
    (\<exists>w s. flush_wal None True s4 = (Inr (), s4\<lparr>cs_wal := Some w\<rparr>) \<and> with_wal h True (w_bytes w) = Inr s \<and> session_ids sid2 s = [])"
proof -
  let ?i = "block_block_id h b" and ?s0 = "set_wal \<lparr>w_bytes = [], w_durable = 0\<rparr> store_new"
  have i: "length ?i = 32" using assms(1) by (simp add: block_block_id_def hasher_finalize_def)
  have ok: "17 + length (bk_payload b) \<le> max_record_bytes" using assms(2) by (simp add: op_ok_def)
  have s0: "cs_wal ?s0 = Some \<lparr>w_bytes = [], w_durable = 0\<rparr>" "cs_wal_error ?s0 = None" "cs_blocks ?s0 = Map.empty" "cs_sessions ?s0 = Map.empty"
    by (simp_all add: set_wal_def store_new_def)
  have new1: "new1" and s1: "cs_blocks s1 ?i = Some b" "cs_sessions s1 = Map.empty" "cs_wal s1 = cs_wal ?s0" "cs_wal_error s1 = None"
    using assms(4) s0 store_block_maps [of ?i b ?s0] by (simp_all add: spec_add_def)
  have new2: "\<not> new2" and s2: "cs_sessions s2 = Map.empty" "cs_wal s2 = cs_wal ?s0" "cs_wal_error s2 = None"
    using assms(5) s1 store_block_maps [of ?i b s1] by simp_all
  define t2 where "t2 = insert_session h sid2 ?i s2"
  have t2: "cs_sessions t2 = Map.empty(sid2 \<mapsto> log_entry h ?i None)" "cs_wal t2 = cs_wal ?s0" "cs_wal_error t2 = None"
    using s2 by (simp_all add: t2_def insert_session_def count_session_def session_append_def)
  have s3: "cs_sessions s3 = Map.empty(sid2 \<mapsto> log_entry h ?i None)" "cs_wal s3 = Some \<lparr>w_bytes = wal_record sid2 1 ?i, w_durable = 0\<rparr>"
    "cs_wal_error s3 = None"
    using assms(6) new2 t2 s0(1) shadow_write [of t2 _ "append_reference None sid2 ?i", OF _ append_writes(3) [OF i]]
    by (simp_all add: insert_shadow_def flip: t2_def) (auto simp: insert_shadow_def)
  define t3 where "t3 = insert_session h sid1 ?i s3"
  have t3: "cs_sessions t3 sid2 = Some (log_entry h ?i None)" "cs_wal t3 = cs_wal s3" "cs_wal_error t3 = None"
    using s3 assms(3) by (simp_all add: t3_def insert_session_def count_session_def session_append_def)
  let ?bs = "wal_record sid2 1 ?i @ wal_record sid1 0 (canonical_bytes b)"
  have s4: "cs_sessions s4 sid2 = Some (log_entry h ?i None)" "cs_wal s4 = Some \<lparr>w_bytes = ?bs, w_durable = 0\<rparr>" "cs_wal_error s4 = None"
    using assms(7) new1 t3 s3(2) shadow_write [of t3 _ "append_insert None sid1 (canonical_bytes b)", OF _ append_writes(1) [OF ok]]
    by (auto simp: insert_shadow_def simp flip: t3_def)
  have flush: "flush_wal None True s4 = (Inr (), s4\<lparr>cs_wal := Some \<lparr>w_bytes = ?bs, w_durable = length ?bs\<rparr>\<rparr>)"
    using flush_syncs [OF s4(2,3)] by simp
  let ?r1 = "replay_record h sid2 1 ?i store_new" and ?r2 = "replay_record h sid1 0 (canonical_bytes b)"
  have r1: "?r1 = store_new" using i by (simp add: replay_record_def store_reference_def store_new_def)
  have replay: "wal_replay h ?bs 0 store_new = Inr (length ?bs, ?r2 store_new)"
    using replay_record_bytes [of ?i h sid2 1 "wal_record sid1 0 (canonical_bytes b)" 0 store_new]
      replay_record_bytes [of "canonical_bytes b" h sid1 0 "[]" "length (wal_record sid2 1 ?i)" store_new] i ok
    by (simp add: r1 replay_nil canonical_length max_record_bytes_def)
  have lost: "cs_sessions (?r2 store_new) sid2 = None"
    using replay_insert_record [OF assms(2), of h store_new] assms(3)
    by (simp add: view_of_def spec_op_def store_new_def)
  have "with_wal h True ?bs = Inr (set_wal \<lparr>w_bytes = ?bs, w_durable = 0\<rparr> (?r2 store_new))"
    unfolding with_wal_def wal_open_def replay by (simp del: length_append)
  moreover have "session_ids sid2 (set_wal w' (?r2 store_new)) = []" for w'
    using lost by (simp add: session_ids_def set_wal_def)
  ultimately show ?thesis using s4(1) flush by (auto simp: session_ids_def log_entry_def)
qed

theorem interleaved_inserts_lose_session_witness:
  "\<exists>s1 s3 s4 w s. store_block (block_block_id demo_blake3 demo_block) demo_block demo_store = (True, s1) \<and>
     session_ids 2 s4 = [block_block_id demo_blake3 demo_block] \<and> flush_wal None True s4 = (Inr (), s4\<lparr>cs_wal := Some w\<rparr>) \<and>
     with_wal demo_blake3 True (w_bytes w) = Inr s \<and> session_ids 2 s = [] \<and>
     insert_shadow None 1 demo_block (block_block_id demo_blake3 demo_block) None True
       (insert_session demo_blake3 1 (block_block_id demo_blake3 demo_block) s3) = s4"
proof -
  let ?i = "block_block_id demo_blake3 demo_block"
  obtain new1 s1 where 1: "store_block ?i demo_block demo_store = (new1, s1)" by fastforce
  obtain new2 s2 where 2: "store_block ?i demo_block s1 = (new2, s2)" by fastforce
  have new1: "new1" using store_block_maps(5) [of ?i demo_block demo_store] 1 by (simp add: demo_store_def set_wal_def store_new_def)
  have "(1 :: u128) \<noteq> 2" by simp
  from interleaved_inserts_lose_session [OF _ demo_facts(3) this 1 [unfolded demo_store_def] 2 refl refl]
  show ?thesis using 1 new1 demo_facts(1) by auto
qed

text \<open>A session that is created by a reference is not counted.\<close>

theorem reference_miscounts_sessions:
  assumes "cs_blocks s i \<noteq> None" and "cs_sessions s sid = None" and "cs_wal s = None"
  shows "cs_sessions (snd (store_reference h out sid i s)) sid \<noteq> None \<and>
    ss_sessions (cs_stats (snd (store_reference h out sid i s))) = ss_sessions (cs_stats s)"
  using assms by (auto simp: store_reference_def Let_def session_append_def shadow_none)

end
