(* ===== verification/DLR_MMR.thy ===== *)
theory DLR_MMR
  imports DLR_Frame
begin

text \<open>
  The Merkle mountain range of \<open>integrations/dlr/crates/core/src/mmr.rs\<close>: a forest of perfect binary trees in a
  shared arena, inclusion proofs and their check. Leaf counts, heights and arena indices are natural numbers: the
  code counts leaves in a \<open>u64\<close> by one per append. Indexing the arena is \<open>(!)\<close>; the invariant shows that every index
  the code uses is in range. A missing child makes the code panic, which is \<open>None\<close>.
\<close>

section \<open>The forest\<close>

record mmr_node =
  nd_hash :: bytes
  nd_left :: "nat option"
  nd_right :: "nat option"

record mmr_tree =
  tr_root :: nat
  tr_height :: nat
  tr_base :: nat

record mmr =
  mm_trees :: "mmr_tree list"
  mm_leaves :: nat
  mm_arena :: "mmr_node list"

text \<open>The bytes \<open>b"M"\<close> and \<open>b"L"\<close> keep inner nodes and leaves apart.\<close>

definition mmr_parent :: "(bytes \<Rightarrow> bytes) \<Rightarrow> bytes \<Rightarrow> bytes \<Rightarrow> bytes" where
  "mmr_parent blake3 left right = hasher_finalize blake3 [[77], left, right]"

definition mmr_leaf :: "(bytes \<Rightarrow> bytes) \<Rightarrow> bytes \<Rightarrow> bytes" where
  "mmr_leaf blake3 block_id = hasher_finalize blake3 [[76], block_id]"

definition tree_leaf_count :: "mmr_tree \<Rightarrow> nat" where
  "tree_leaf_count t = 2 ^ tr_height t"

definition tree_covers :: "mmr_tree \<Rightarrow> nat \<Rightarrow> bool" where
  "tree_covers t i \<longleftrightarrow> tr_base t \<le> i \<and> i < tr_base t + tree_leaf_count t"

definition mmr_new :: mmr where
  "mmr_new = \<lparr>mm_trees = [], mm_leaves = 0, mm_arena = []\<rparr>"

definition mmr_is_empty :: "mmr \<Rightarrow> bool" where
  "mmr_is_empty m \<longleftrightarrow> mm_leaves m = 0"

text \<open>The loop of \<open>append\<close>, on the trees in reverse (\<open>last\<close>, \<open>pop\<close> and \<open>push\<close> work on the head).\<close>

fun merge_last :: "(bytes \<Rightarrow> bytes) \<Rightarrow> mmr_tree list \<Rightarrow> mmr_tree \<Rightarrow> mmr_node list \<Rightarrow> mmr_tree list \<times> mmr_node list" where
  "merge_last blake3 [] tree arena = ([tree], arena)"
| "merge_last blake3 (prev # rest) tree arena =
     (if tr_height prev = tr_height tree
      then merge_last blake3 rest
             \<lparr>tr_root = length arena, tr_height = tr_height prev + 1, tr_base = tr_base prev\<rparr>
             (arena @ [\<lparr>nd_hash = mmr_parent blake3 (nd_hash (arena ! tr_root prev)) (nd_hash (arena ! tr_root tree)),
                        nd_left = Some (tr_root prev), nd_right = Some (tr_root tree)\<rparr>])
      else (tree # prev # rest, arena))"

definition mmr_append :: "(bytes \<Rightarrow> bytes) \<Rightarrow> bytes \<Rightarrow> mmr \<Rightarrow> mmr" where
  "mmr_append blake3 block_id m =
     (case merge_last blake3 (rev (mm_trees m)) \<lparr>tr_root = length (mm_arena m), tr_height = 0, tr_base = mm_leaves m\<rparr>
             (mm_arena m @ [\<lparr>nd_hash = mmr_leaf blake3 block_id, nd_left = None, nd_right = None\<rparr>]) of
        (trees, arena) \<Rightarrow> \<lparr>mm_trees = rev trees, mm_leaves = mm_leaves m + 1, mm_arena = arena\<rparr>)"

definition mmr_peaks :: "mmr \<Rightarrow> bytes list" where
  "mmr_peaks m = map (\<lambda>t. nd_hash (mm_arena m ! tr_root t)) (mm_trees m)"

definition mmr_root :: "(bytes \<Rightarrow> bytes) \<Rightarrow> mmr \<Rightarrow> bytes" where
  "mmr_root blake3 m =
     (case mm_trees m of
        [] \<Rightarrow> replicate 32 0
      | t # ts \<Rightarrow> foldl (\<lambda>acc t. mmr_parent blake3 acc (nd_hash (mm_arena m ! tr_root t))) (nd_hash (mm_arena m ! tr_root t)) ts)"

section \<open>Inclusion proofs\<close>

text \<open>The walk from the peak down to the leaf; each step names the sibling and whether it is on the left.\<close>

fun proof_steps :: "mmr_node list \<Rightarrow> nat \<Rightarrow> nat \<Rightarrow> nat \<Rightarrow> (nat \<times> bool) list option" where
  "proof_steps arena 0 leaf node = Some []"
| "proof_steps arena (Suc h) leaf node =
     (case (nd_left (arena ! node), nd_right (arena ! node)) of
        (Some left_root, Some right_root) \<Rightarrow>
          if leaf < 2 ^ h
          then map_option ((#) (right_root, False)) (proof_steps arena h leaf left_root)
          else map_option ((#) (left_root, True)) (proof_steps arena h (leaf - 2 ^ h) right_root)
      | _ \<Rightarrow> None)"

definition inclusion_proof :: "mmr \<Rightarrow> nat \<Rightarrow> (bytes \<times> bool) list option" where
  "inclusion_proof m i =
     (case find (\<lambda>t. tree_covers t i) (mm_trees m) of
        None \<Rightarrow> Some []
      | Some tree \<Rightarrow>
          map_option (\<lambda>steps. map (\<lambda>(idx, sib_is_left). (nd_hash (mm_arena m ! idx), sib_is_left)) (rev steps))
            (proof_steps (mm_arena m) (tr_height tree) (i - tr_base tree) (tr_root tree)))"

definition peak_from_proof :: "(bytes \<Rightarrow> bytes) \<Rightarrow> bytes \<Rightarrow> (bytes \<times> bool) list \<Rightarrow> bytes" where
  "peak_from_proof blake3 leaf_id pf =
     foldl (\<lambda>acc (sib, sib_is_left). if sib_is_left then mmr_parent blake3 sib acc else mmr_parent blake3 acc sib)
       (mmr_leaf blake3 leaf_id) pf"

definition verify_inclusion :: "(bytes \<Rightarrow> bytes) \<Rightarrow> mmr \<Rightarrow> nat \<Rightarrow> bytes \<Rightarrow> bool option" where
  "verify_inclusion blake3 m i leaf_id =
     (case find (\<lambda>t. tree_covers t i) (mm_trees m) of
        None \<Rightarrow> Some False
      | Some tree \<Rightarrow>
          map_option (\<lambda>pf. peak_from_proof blake3 leaf_id pf = nd_hash (mm_arena m ! tr_root tree)) (inclusion_proof m i))"

section \<open>The trees in the arena\<close>

text \<open>Node \<open>n\<close> is the root of a perfect tree of height \<open>k\<close> over the ids \<open>xs\<close>.\<close>

fun tree_at :: "(bytes \<Rightarrow> bytes) \<Rightarrow> mmr_node list \<Rightarrow> nat \<Rightarrow> nat \<Rightarrow> bytes list \<Rightarrow> bool" where
  "tree_at h A 0 n xs \<longleftrightarrow> n < length A \<and> (\<exists>x. xs = [x] \<and> A ! n = \<lparr>nd_hash = mmr_leaf h x, nd_left = None, nd_right = None\<rparr>)"
| "tree_at h A (Suc k) n xs \<longleftrightarrow> n < length A \<and>
     (\<exists>l r. A ! n = \<lparr>nd_hash = mmr_parent h (nd_hash (A ! l)) (nd_hash (A ! r)), nd_left = Some l, nd_right = Some r\<rparr> \<and>
        tree_at h A k l (take (2 ^ k) xs) \<and> tree_at h A k r (drop (2 ^ k) xs))"

lemma tree_at_length: "tree_at h A k n xs \<Longrightarrow> length xs = 2 ^ k"
proof (induction k arbitrary: n xs)
  case (Suc k)
  then obtain l r where "tree_at h A k l (take (2 ^ k) xs)" "tree_at h A k r (drop (2 ^ k) xs)" by auto
  then have "length (take (2 ^ k) xs) = 2 ^ k" "length (drop (2 ^ k) xs) = 2 ^ k" by (auto simp only: Suc.IH)
  then show ?case by auto
qed auto

lemma tree_at_range: "tree_at h A k n xs \<Longrightarrow> n < length A"
  by (cases k) auto

lemma tree_at_append: "tree_at h A k n xs \<Longrightarrow> tree_at h (A @ B) k n xs"
proof (induction k arbitrary: n xs)
  case (Suc k)
  then obtain l r where n: "n < length A" "A ! n = \<lparr>nd_hash = mmr_parent h (nd_hash (A ! l)) (nd_hash (A ! r)), nd_left = Some l, nd_right = Some r\<rparr>"
    and l: "tree_at h A k l (take (2 ^ k) xs)" and r: "tree_at h A k r (drop (2 ^ k) xs)" by auto
  have "l < length A" "r < length A" using l r tree_at_range by blast+
  then show ?case using n Suc.IH [OF l] Suc.IH [OF r] by (auto simp: nth_append)
qed (auto simp: nth_append)

text \<open>The trees stand side by side over the ids from position \<open>b\<close> on.\<close>

fun trees_over :: "(bytes \<Rightarrow> bytes) \<Rightarrow> mmr_node list \<Rightarrow> mmr_tree list \<Rightarrow> nat \<Rightarrow> bytes list \<Rightarrow> bool" where
  "trees_over h A [] b xs \<longleftrightarrow> xs = []"
| "trees_over h A (t # ts) b xs \<longleftrightarrow> tr_base t = b \<and> tree_at h A (tr_height t) (tr_root t) (take (2 ^ tr_height t) xs) \<and>
     trees_over h A ts (b + 2 ^ tr_height t) (drop (2 ^ tr_height t) xs)"

lemma trees_over_grow: "trees_over h A ts b xs \<Longrightarrow> trees_over h (A @ B) ts b xs"
  by (induction ts arbitrary: b xs) (auto intro: tree_at_append)

lemma trees_over_snoc:
  "trees_over h A (ts @ [t]) b xs \<longleftrightarrow>
     (\<exists>ys zs. xs = ys @ zs \<and> trees_over h A ts b ys \<and> tr_base t = b + length ys \<and> tree_at h A (tr_height t) (tr_root t) zs)"
proof (induction ts arbitrary: b xs)
  case Nil
  show ?case
  proof
    assume l: "trees_over h A ([] @ [t]) b xs"
    then have "drop (2 ^ tr_height t) xs = []" by simp
    then have "take (2 ^ tr_height t) xs = xs" by simp
    with l show "\<exists>ys zs. xs = ys @ zs \<and> trees_over h A [] b ys \<and> tr_base t = b + length ys \<and> tree_at h A (tr_height t) (tr_root t) zs"
      by auto
  qed (use tree_at_length in fastforce)
next
  case (Cons u us)
  let ?k = "2 ^ tr_height u"
  show ?case (is "?L \<longleftrightarrow> ?R")
  proof
    assume ?L
    then obtain ys zs where split: "drop ?k xs = ys @ zs" and u: "tr_base u = b" "tree_at h A (tr_height u) (tr_root u) (take ?k xs)"
      and ys: "trees_over h A us (b + ?k) ys" "tr_base t = b + ?k + length ys" "tree_at h A (tr_height t) (tr_root t) zs"
      by (auto simp: Cons.IH)
    have "length (take ?k xs) = ?k" using tree_at_length [OF u(2)] .
    then show ?R
      using u ys split by (intro exI [of _ "take ?k xs @ ys"] exI [of _ zs]) (simp flip: split)
  next
    assume ?R
    then obtain ys zs where xs: "xs = ys @ zs" and u: "tr_base u = b" "tree_at h A (tr_height u) (tr_root u) (take ?k ys)"
      and us: "trees_over h A us (b + ?k) (drop ?k ys)"
      and t: "tr_base t = b + length ys" "tree_at h A (tr_height t) (tr_root t) zs" by auto
    have len: "?k \<le> length ys" using tree_at_length [OF u(2)] by simp
    then have "tr_base t = b + ?k + length (drop ?k ys)" using t by simp
    then have "trees_over h A (us @ [t]) (b + ?k) (drop ?k ys @ zs)"
      unfolding Cons.IH using us t(2) by blast
    then show ?L using xs u len by simp
  qed
qed

definition mmr_inv :: "(bytes \<Rightarrow> bytes) \<Rightarrow> mmr \<Rightarrow> bytes list \<Rightarrow> bool" where
  "mmr_inv h m xs \<longleftrightarrow> mm_leaves m = length xs \<and> trees_over h (mm_arena m) (mm_trees m) 0 xs \<and>
     sorted_wrt (>) (map tr_height (mm_trees m)) \<and> length (mm_arena m) + length (mm_trees m) = 2 * length xs"

lemma tree_at_join:
  assumes "tree_at h A k l ys" and "tree_at h A k r zs"
  shows "tree_at h (A @ [\<lparr>nd_hash = mmr_parent h (nd_hash (A ! l)) (nd_hash (A ! r)), nd_left = Some l, nd_right = Some r\<rparr>])
           (Suc k) (length A) (ys @ zs)"
proof -
  have "l < length A" "r < length A" "length ys = 2 ^ k" using assms tree_at_range tree_at_length by blast+
  then show ?thesis using assms by (auto simp: nth_append intro: tree_at_append)
qed

lemma merge_last_inv:
  assumes "trees_over h A (rev rts) 0 ys" and "tr_base tree = length ys" and "tree_at h A (tr_height tree) (tr_root tree) zs"
    and "sorted_wrt (<) (map tr_height rts)" and "\<forall>t \<in> set rts. tr_height tree \<le> tr_height t"
    and "merge_last h rts tree A = (ts, A')"
  shows "trees_over h A' (rev ts) 0 (ys @ zs) \<and> sorted_wrt (<) (map tr_height ts) \<and> length A' + length ts = length A + length rts + 1"
  using assms
proof (induction rts arbitrary: tree A ys zs)
  case Nil
  then have "take (2 ^ tr_height tree) zs = zs" "drop (2 ^ tr_height tree) zs = []"
    using tree_at_length [OF Nil.prems(3)] by simp_all
  then show ?case using Nil by auto
next
  case (Cons prev rest)
  obtain us vs where ys: "ys = us @ vs" and rest: "trees_over h A (rev rest) 0 us" and base: "tr_base prev = length us"
    and prev: "tree_at h A (tr_height prev) (tr_root prev) vs"
    using Cons.prems(1) by (auto simp: trees_over_snoc)
  show ?case
  proof (cases "tr_height prev = tr_height tree")
    case True
    let ?n = "\<lparr>nd_hash = mmr_parent h (nd_hash (A ! tr_root prev)) (nd_hash (A ! tr_root tree)),
      nd_left = Some (tr_root prev), nd_right = Some (tr_root tree)\<rparr>"
    let ?t = "\<lparr>tr_root = length A, tr_height = tr_height prev + 1, tr_base = tr_base prev\<rparr>"
    have "trees_over h A' (rev ts) 0 (us @ (vs @ zs)) \<and> sorted_wrt (<) (map tr_height ts) \<and>
        length A' + length ts = length (A @ [?n]) + length rest + 1"
    proof (rule Cons.IH)
      show "trees_over h (A @ [?n]) (rev rest) 0 us" by (rule trees_over_grow [OF rest])
      show "tree_at h (A @ [?n]) (tr_height ?t) (tr_root ?t) (vs @ zs)"
        using tree_at_join [OF prev, of "tr_root tree" zs] Cons.prems(3) True by simp
      show "merge_last h rest ?t (A @ [?n]) = (ts, A')" using Cons.prems(6) True by simp
    qed (use Cons.prems(4) base in auto)
    then show ?thesis by (simp add: ys)
  next
    case False
    then have ts: "ts = tree # prev # rest" and A': "A' = A" using Cons.prems(6) by auto
    have "trees_over h A (rev (prev # rest) @ [tree]) 0 (ys @ zs)"
      using Cons.prems(1,2,3) by (subst trees_over_snoc) auto
    moreover have "tr_height tree < tr_height prev" using Cons.prems(5) False by (simp add: order_less_le)
    ultimately show ?thesis using Cons.prems(4) by (auto simp: ts A')
  qed
qed

lemma sorted_rev: "sorted_wrt (>) (map f xs) \<longleftrightarrow> sorted_wrt (<) (map f (rev xs))" for f :: "'a \<Rightarrow> nat"
  by (simp add: sorted_wrt_rev flip: rev_map)

lemma mmr_append_inv:
  assumes "mmr_inv h m xs"
  shows "mmr_inv h (mmr_append h x m) (xs @ [x])"
proof -
  let ?A = "mm_arena m @ [\<lparr>nd_hash = mmr_leaf h x, nd_left = None, nd_right = None\<rparr>]"
  let ?t = "\<lparr>tr_root = length (mm_arena m), tr_height = 0, tr_base = mm_leaves m\<rparr>"
  obtain ts A' where run: "merge_last h (rev (mm_trees m)) ?t ?A = (ts, A')" by fastforce
  have inv: "mm_leaves m = length xs" "trees_over h (mm_arena m) (mm_trees m) 0 xs" "sorted_wrt (>) (map tr_height (mm_trees m))"
    "length (mm_arena m) + length (mm_trees m) = 2 * length xs"
    using assms by (auto simp: mmr_inv_def)
  have "trees_over h A' (rev ts) 0 (xs @ [x]) \<and> sorted_wrt (<) (map tr_height ts) \<and>
      length A' + length ts = length ?A + length (rev (mm_trees m)) + 1"
    by (rule merge_last_inv [OF _ _ _ _ _ run])
      (use inv in \<open>auto intro: trees_over_grow simp: nth_append simp flip: sorted_rev\<close>)
  moreover have "mmr_append h x m = \<lparr>mm_trees = rev ts, mm_leaves = mm_leaves m + 1, mm_arena = A'\<rparr>"
    unfolding mmr_append_def run by simp
  ultimately show ?thesis
    using inv(1,4) by (simp add: mmr_inv_def sorted_rev)
qed

definition mmr_of :: "(bytes \<Rightarrow> bytes) \<Rightarrow> bytes list \<Rightarrow> mmr" where
  "mmr_of h xs = fold (mmr_append h) xs mmr_new"

lemma mmr_of_inv: "mmr_inv h (mmr_of h xs) xs"
proof (induction xs rule: rev_induct)
  case Nil
  show ?case by (simp add: mmr_of_def mmr_inv_def mmr_new_def)
next
  case (snoc x xs)
  then show ?case using mmr_append_inv by (simp add: mmr_of_def)
qed

section \<open>Proofs\<close>

lemma peak_snoc:
  "peak_from_proof h x (ps @ [(sib, left)]) =
     (if left then mmr_parent h sib (peak_from_proof h x ps) else mmr_parent h (peak_from_proof h x ps) sib)"
  by (simp add: peak_from_proof_def)

lemma proof_steps_peak:
  assumes "tree_at h A k n xs" and "i < 2 ^ k"
  shows "\<exists>st. proof_steps A k i n = Some st \<and> length st = k \<and>
    peak_from_proof h (xs ! i) (map (\<lambda>(idx, b). (nd_hash (A ! idx), b)) (rev st)) = nd_hash (A ! n)"
  using assms
proof (induction k arbitrary: i n xs)
  case 0
  then show ?case by (auto simp: peak_from_proof_def)
next
  case (Suc k)
  then obtain l r where n: "A ! n = \<lparr>nd_hash = mmr_parent h (nd_hash (A ! l)) (nd_hash (A ! r)), nd_left = Some l, nd_right = Some r\<rparr>"
    and l: "tree_at h A k l (take (2 ^ k) xs)" and r: "tree_at h A k r (drop (2 ^ k) xs)" by auto
  show ?case
  proof (cases "i < 2 ^ k")
    case True
    from Suc.IH [OF l True] obtain st where "proof_steps A k i l = Some st" "length st = k"
      "peak_from_proof h (xs ! i) (map (\<lambda>(idx, b). (nd_hash (A ! idx), b)) (rev st)) = nd_hash (A ! l)"
      using True by auto
    then show ?thesis using True by (simp add: n peak_snoc)
  next
    case False
    then have i: "i - 2 ^ k < 2 ^ k" using Suc.prems(2) by simp
    from Suc.IH [OF r i] obtain st where "proof_steps A k (i - 2 ^ k) r = Some st" "length st = k"
      "peak_from_proof h (xs ! i) (map (\<lambda>(idx, b). (nd_hash (A ! idx), b)) (rev st)) = nd_hash (A ! r)"
      using False tree_at_length [OF l] by auto
    then show ?thesis using False by (simp add: n peak_snoc)
  qed
qed

lemma covering_tree:
  assumes "trees_over h A ts b xs" and "b \<le> i" and "i < b + length xs"
  shows "\<exists>t ys. find (\<lambda>t. tree_covers t i) ts = Some t \<and> tree_at h A (tr_height t) (tr_root t) ys \<and>
    i - tr_base t < 2 ^ tr_height t \<and> ys ! (i - tr_base t) = xs ! (i - b)"
  using assms
proof (induction ts arbitrary: b xs)
  case (Cons t ts)
  let ?k = "2 ^ tr_height t"
  have t: "tr_base t = b" "tree_at h A (tr_height t) (tr_root t) (take ?k xs)" and ts: "trees_over h A ts (b + ?k) (drop ?k xs)"
    using Cons.prems(1) by auto
  show ?case
  proof (cases "i < b + ?k")
    case True
    then have "tree_covers t i" "i - b < ?k" using t Cons.prems(2) by (auto simp: tree_covers_def tree_leaf_count_def)
    then show ?thesis using t by (intro exI [of _ t] exI [of _ "take ?k xs"]) auto
  next
    case False
    have "?k \<le> length xs" using tree_at_length [OF t(2)] by simp
    then have "\<not> tree_covers t i" and rest: "b + ?k \<le> i" "i < b + ?k + length (drop ?k xs)"
      using False t(1) Cons.prems by (auto simp: tree_covers_def tree_leaf_count_def)
    moreover have "drop ?k xs ! (i - (b + ?k)) = xs ! (i - b)"
      using \<open>?k \<le> length xs\<close> rest by (simp add: nth_drop)
    ultimately show ?thesis using Cons.IH [OF ts rest] by auto
  qed
qed simp

lemma uncovered:
  assumes "trees_over h A ts b xs" and "b + length xs \<le> i"
  shows "find (\<lambda>t. tree_covers t i) ts = None"
  using assms
proof (induction ts arbitrary: b xs)
  case (Cons t ts)
  have t: "tr_base t = b" "tree_at h A (tr_height t) (tr_root t) (take (2 ^ tr_height t) xs)" using Cons.prems(1) by auto
  have "2 ^ tr_height t \<le> length xs" using tree_at_length [OF t(2)] by simp
  then show ?case using Cons t(1) by (auto simp: tree_covers_def tree_leaf_count_def)
qed simp

lemma inclusion_of_leaf:
  assumes "mmr_inv h m xs" and "i < length xs"
  shows "\<exists>t pf. find (\<lambda>t. tree_covers t i) (mm_trees m) = Some t \<and> inclusion_proof m i = Some pf \<and> length pf = tr_height t \<and>
    peak_from_proof h (xs ! i) pf = nd_hash (mm_arena m ! tr_root t)"
proof -
  obtain t ys where t: "find (\<lambda>t. tree_covers t i) (mm_trees m) = Some t" "tree_at h (mm_arena m) (tr_height t) (tr_root t) ys"
    "i - tr_base t < 2 ^ tr_height t" "ys ! (i - tr_base t) = xs ! i"
    using covering_tree [of h "mm_arena m" "mm_trees m" 0 xs i] assms by (auto simp: mmr_inv_def)
  from proof_steps_peak [OF t(2,3)] show ?thesis using t by (auto simp: inclusion_proof_def)
qed

text \<open>What is hashed while a proof is checked.\<close>

fun path_inputs :: "(bytes \<Rightarrow> bytes) \<Rightarrow> bytes \<Rightarrow> (bytes \<times> bool) list \<Rightarrow> bytes set" where
  "path_inputs h acc [] = {}"
| "path_inputs h acc ((sib, left) # ps) =
     (let inp = (if left then [77] @ sib @ acc else [77] @ acc @ sib) in insert inp (path_inputs h (h inp) ps))"

lemma path_injective:
  assumes "foldl (\<lambda>acc (sib, left). if left then mmr_parent h sib acc else mmr_parent h acc sib) a ps =
      foldl (\<lambda>acc (sib, left). if left then mmr_parent h sib acc else mmr_parent h acc sib) b ps"
    and "inj_on h (path_inputs h a ps \<union> path_inputs h b ps)" and "length a = length b" and "\<And>x. length (h x) = 32"
  shows "a = b"
  using assms(1-3)
proof (induction ps arbitrary: a b)
  case (Cons p ps)
  obtain sib left where p: "p = (sib, left)" by (cases p)
  let ?in = "\<lambda>acc. if left then [77] @ sib @ acc else [77] @ acc @ sib"
  have hash: "(if left then mmr_parent h sib acc else mmr_parent h acc sib) = h (?in acc)" for acc
    by (simp add: mmr_parent_def hasher_finalize_def)
  have "h (?in a) = h (?in b)"
  proof (rule Cons.IH)
    show "inj_on h (path_inputs h (h (?in a)) ps \<union> path_inputs h (h (?in b)) ps)"
      by (rule inj_on_subset [OF Cons.prems(2)]) (auto simp: p Let_def)
  qed (use Cons.prems(1) assms(4) in \<open>simp_all add: p hash\<close>)
  then have "?in a = ?in b"
    by (rule inj_onD [OF Cons.prems(2)]) (auto simp: p Let_def)
  then show ?case using Cons.prems(3) by (auto split: if_splits)
qed simp

section \<open>Properties\<close>

definition demo_ids :: "bytes list" where
  "demo_ids = map (\<lambda>n. replicate 32 (word_of_nat n)) [1, 2, 3, 4, 5, 6, 7]"

definition tail_hash :: "bytes \<Rightarrow> bytes" where
  "tail_hash bs = drop (length bs) (replicate 32 0 @ bs)"

text \<open>
  Every appended block can be proved to be in the log: after appending any ids, the check of position \<open>i\<close> with the
  id appended there succeeds, with a proof of logarithmic length; the check of a position behind the end fails; and
  no check panics.
\<close>

theorem mmr_proofs_complete:
  assumes "i < length xs"
  shows "verify_inclusion h (mmr_of h xs) i (xs ! i) = Some True \<and>
    (\<exists>pf. inclusion_proof (mmr_of h xs) i = Some pf \<and> 2 ^ length pf \<le> length xs) \<and>
    (\<forall>j y. verify_inclusion h (mmr_of h xs) j y \<noteq> None) \<and>
    (\<forall>j y. length xs \<le> j \<longrightarrow> verify_inclusion h (mmr_of h xs) j y = Some False)"
proof -
  let ?m = "mmr_of h xs"
  note inv = mmr_of_inv [of h xs]
  have over: "trees_over h (mm_arena ?m) (mm_trees ?m) 0 xs" using inv by (simp add: mmr_inv_def)
  have beyond: "verify_inclusion h ?m j y = Some False" if "length xs \<le> j" for j y
    using uncovered [OF over, of j] that by (simp add: verify_inclusion_def)
  have inside: "verify_inclusion h ?m j y \<noteq> None" if "j < length xs" for j y
    using inclusion_of_leaf [OF inv that] by (auto simp: verify_inclusion_def)
  obtain t pf where t: "find (\<lambda>t. tree_covers t i) (mm_trees ?m) = Some t" "inclusion_proof ?m i = Some pf" "length pf = tr_height t"
    "peak_from_proof h (xs ! i) pf = nd_hash (mm_arena ?m ! tr_root t)"
    using inclusion_of_leaf [OF inv assms] by blast
  have size: "2 ^ tr_height u \<le> length ys" if "trees_over h A ts b ys" "u \<in> set ts" for A ts b ys u
    using that
  proof (induction ts arbitrary: b ys)
    case (Cons v vs)
    then have "tree_at h A (tr_height v) (tr_root v) (take (2 ^ tr_height v) ys)" by simp
    from tree_at_length [OF this] have "2 ^ tr_height v \<le> length ys" by simp
    moreover have "2 ^ tr_height u \<le> length (drop (2 ^ tr_height v) ys)" if "u \<in> set vs"
      by (rule Cons.IH [OF _ that]) (use Cons.prems(1) in auto)
    ultimately show ?case using Cons.prems(2) by fastforce
  qed simp
  have "t \<in> set (mm_trees ?m)" using t(1) by (auto simp: find_Some_iff)
  then have "2 ^ length pf \<le> length xs" using size [OF over] t(3) by simp
  moreover have "verify_inclusion h ?m i (xs ! i) = Some True" using t by (simp add: verify_inclusion_def)
  moreover have "verify_inclusion h ?m j y \<noteq> None" for j y
    using beyond [of j y] inside [of j y] by (cases "j < length xs") simp_all
  ultimately show ?thesis using beyond t(2) by blast
qed

theorem mmr_proofs_complete_witness:
  "verify_inclusion tail_hash (mmr_of tail_hash demo_ids) 5 (replicate 32 6) = Some True"
  using mmr_proofs_complete [of 5 demo_ids tail_hash] by (simp add: demo_ids_def)

text \<open>
  C39: the check accepts nothing else: if it succeeds at a position inside the log, the id is the one that was appended
  there, unless BLAKE3 collides on one of the inputs hashed along the two paths.
\<close>

theorem mmr_proofs_sound:
  assumes "i < length xs" and "verify_inclusion h (mmr_of h xs) i y = Some True"
    and "inclusion_proof (mmr_of h xs) i = Some pf" and "\<forall>x. length (h x) = 32"
    and "inj_on h ({[76] @ xs ! i, [76] @ y} \<union> path_inputs h (h ([76] @ xs ! i)) pf \<union> path_inputs h (h ([76] @ y)) pf)"
  shows "y = xs ! i"
proof -
  obtain t where t: "find (\<lambda>t. tree_covers t i) (mm_trees (mmr_of h xs)) = Some t"
    "peak_from_proof h (xs ! i) pf = nd_hash (mm_arena (mmr_of h xs) ! tr_root t)"
    using inclusion_of_leaf [OF mmr_of_inv assms(1), of h] assms(3) by auto
  then have "peak_from_proof h y pf = peak_from_proof h (xs ! i) pf"
    using assms(2,3) by (simp add: verify_inclusion_def)
  then have eq: "foldl (\<lambda>acc (sib, left). if left then mmr_parent h sib acc else mmr_parent h acc sib) (h ([76] @ y)) pf =
      foldl (\<lambda>acc (sib, left). if left then mmr_parent h sib acc else mmr_parent h acc sib) (h ([76] @ xs ! i)) pf"
    by (simp add: peak_from_proof_def mmr_leaf_def hasher_finalize_def)
  have "h ([76] @ y) = h ([76] @ xs ! i)"
    by (rule path_injective [OF eq])
      (use assms(4) in \<open>simp_all add: inj_on_subset [OF assms(5)] Un_commute subset_iff\<close>)
  then have "[76] @ y = [76] @ xs ! i" by (rule inj_onD [OF assms(5)]) simp_all
  then show ?thesis by simp
qed

text \<open>A log of one block: its proof is empty, and a hash that tells two leaves apart rejects the other id.\<close>

theorem mmr_proofs_sound_witness:
  "verify_inclusion tail_hash (mmr_of tail_hash [replicate 32 1]) 0 (replicate 32 2) \<noteq> Some True"
proof
  assume accepted: "verify_inclusion tail_hash (mmr_of tail_hash [replicate 32 1]) 0 (replicate 32 2) = Some True"
  have len: "length (tail_hash x) = 32" for x by (simp add: tail_hash_def)
  have single: "inclusion_proof (mmr_of tail_hash [replicate 32 1]) 0 = Some []"
    by (simp add: mmr_of_def mmr_append_def mmr_new_def inclusion_proof_def tree_covers_def tree_leaf_count_def)
  have apart: "tail_hash (76 # replicate 32 (1 :: u8)) \<noteq> tail_hash (76 # replicate 32 2)"
    by (simp add: tail_hash_def numeral_eq_Suc)
  have "replicate 32 (2 :: u8) = [replicate 32 1] ! 0"
    using accepted single len apart
    by (intro mmr_proofs_sound [of 0 "[replicate 32 1]" tail_hash "replicate 32 2" "[]"]) (auto simp: inj_on_def)
  then show False by (simp add: numeral_eq_Suc)
qed

text \<open>
  The forest has the shape of the binary numeral of the number of leaves: the heights of its trees decrease
  strictly, their leaf counts add up to the number of leaves, and the arena holds every subtree once (twice the
  number of leaves less the number of peaks).
\<close>

theorem mmr_shape:
  "mm_leaves (mmr_of h xs) = length xs \<and> sorted_wrt (>) (map tr_height (mm_trees (mmr_of h xs))) \<and>
   sum_list (map tree_leaf_count (mm_trees (mmr_of h xs))) = length xs \<and>
   length (mm_arena (mmr_of h xs)) + length (mmr_peaks (mmr_of h xs)) = 2 * length xs"
proof -
  have "sum_list (map tree_leaf_count ts) = length ys" if "trees_over h A ts b ys" for A ts b ys
    using that
  proof (induction ts arbitrary: b ys)
    case (Cons t ts)
    then have "tree_at h A (tr_height t) (tr_root t) (take (2 ^ tr_height t) ys)" by simp
    from tree_at_length [OF this] have "2 ^ tr_height t \<le> length ys" by simp
    with Cons show ?case by (auto simp: tree_leaf_count_def)
  qed simp
  then show ?thesis using mmr_of_inv [of h xs] by (auto simp: mmr_inv_def mmr_peaks_def)
qed

end
