(* ===== verification/GF256.thy ===== *)
theory GF256
  imports Rust_Prelude
begin

text \<open>
  \<open>integrations/dlr/crates/coding/src/gf256.rs\<close>: the field with 256 elements, its exponential, logarithm and
  multiplication tables, the vector kernels (scalar, and the table lookups of the AVX2, SSSE3 and NEON loops) and
  Gaussian elimination on a flat matrix. Arrays are lists; every index the code uses is in range.
\<close>

section \<open>Tables\<close>

text \<open>One step of the loop that builds the tables: multiplication by the generator 3 on a \<open>u16\<close>.\<close>

definition gf_step :: "u16 \<Rightarrow> u16" where
  "gf_step g =
     (let g2 = xor (push_bit 1 g) (if and g 0x80 \<noteq> 0 then 0x11B else 0) in and (xor g2 g) 0xFF)"

definition walk_step :: "nat \<Rightarrow> u8 list \<times> u8 list \<times> u16 \<Rightarrow> u8 list \<times> u8 list \<times> u16" where
  "walk_step i st = (case st of (ex, lg, g) \<Rightarrow> (ex[i := ucast g], lg[unat g := word_of_nat i], gf_step g))"

definition gf_walk :: "u8 list \<times> u8 list \<times> u16" where
  "gf_walk = fold walk_step [0..<255] (replicate 512 0, replicate 256 0, 1)"

definition exp_table :: "u8 list" where
  "exp_table = fold (\<lambda>i ex. ex[255 + i := ex ! i]) [0..<256] (fst gf_walk)"

definition log_table :: "u8 list" where
  "log_table = (fst (snd gf_walk))[0 := 0]"

definition mul_row :: "u8 \<Rightarrow> u8 list" where
  "mul_row a =
     (if a = 0 then replicate 256 0
      else fold (\<lambda>b row. row[b := exp_table ! (unat (log_table ! unat a) + unat (log_table ! b))]) [1..<256] (replicate 256 0))"

definition gf_mul :: "u8 \<Rightarrow> u8 \<Rightarrow> u8" where
  "gf_mul a b = mul_row a ! unat b"

definition gf_add :: "u8 \<Rightarrow> u8 \<Rightarrow> u8" where
  "gf_add a b = xor a b"

definition gf_inv :: "u8 \<Rightarrow> u8" where
  "gf_inv a = (if a = 0 then 0 else exp_table ! (255 - unat (log_table ! unat a)))"

definition gf_div :: "u8 \<Rightarrow> u8 \<Rightarrow> u8" where
  "gf_div a b =
     (if b = 0 then 0 else if a = 0 then 0
      else exp_table ! nat ((int (unat (log_table ! unat a)) - int (unat (log_table ! unat b))) mod 255))"

section \<open>Multiplication by the generator\<close>

lemma unat_u8: "unat (x :: u8) < 256"
proof -
  have "unat x < 2 ^ LENGTH(8)" by (rule unsigned_less)
  then show ?thesis by simp
qed

definition times3 :: "u8 \<Rightarrow> u8" where
  "times3 x = ucast (gf_step (ucast x))"

lemma gf_step_small: "gf_step g = ucast (ucast (gf_step g) :: u8)"
proof -
  have "and (gf_step g) 0xFF = gf_step g" by (simp add: gf_step_def Let_def and.assoc)
  moreover have "ucast (ucast g' :: u8) = and g' 0xFF" for g' :: u16
  proof -
    have mask: "(0xFF :: u16) = mask 8" by (simp add: mask_eq_exp_minus_1)
    show ?thesis unfolding mask by (rule bit_word_eqI) (auto simp: bit_simps)
  qed
  ultimately show ?thesis by metis
qed

lemma times3_eq: "times3 x = xor (xor (push_bit 1 x) (if bit x 7 then 0x1B else 0)) x"
proof -
  have mask: "(0xFF :: u16) = mask 8" by (simp add: mask_eq_exp_minus_1)
  have top: "and (ucast x :: u16) 0x80 \<noteq> 0 \<longleftrightarrow> bit x 7"
  proof -
    have "and (ucast x :: u16) 0x80 \<noteq> 0 \<longleftrightarrow> bit (ucast x :: u16) 7" by (simp add: bit_iff_and_push_bit_not_eq_0)
    then show ?thesis by (simp add: bit_simps)
  qed
  have cut: "ucast (and g 0xFF) = (ucast g :: u8)" for g :: u16
    unfolding mask by (rule bit_word_eqI) (auto simp: bit_simps)
  have shift: "ucast (push_bit 1 (ucast x :: u16)) = push_bit 1 x"
    by (rule bit_word_eqI) (auto simp add: bit_push_bit_iff bit_simps simp del: push_bit_of_1 push_bit_Suc)
  have again: "ucast (ucast x :: u16) = x" by (rule bit_word_eqI) (simp add: bit_simps)
  have low: "(0x11B :: u8) = 0x1B" by simp
  show ?thesis
    unfolding times3_def gf_step_def Let_def cut unsigned_xor_eq shift top again by (simp add: low)
qed

lemma times3_xor: "times3 (xor x y) = xor (times3 x) (times3 y)"
  by (cases "bit x 7"; cases "bit y 7") (simp_all add: times3_eq push_bit_xor bit_xor_iff ac_simps)

abbreviation g3 :: "nat \<Rightarrow> u8" where
  "g3 n \<equiv> (times3 ^^ n) 1"

lemma funpow17: "(f ^^ 17) x = f (f (f (f (f (f (f (f (f (f (f (f (f (f (f (f (f x))))))))))))))))"
  by (simp add: numeral_eq_Suc)

lemma blocks17:
  "(times3 ^^ 17) 1 = 225"
  "(times3 ^^ 17) 225 = 92"
  "(times3 ^^ 17) 92 = 12"
  "(times3 ^^ 17) 12 = 224"
  "(times3 ^^ 17) 224 = 189"
  "(times3 ^^ 17) 189 = 80"
  "(times3 ^^ 17) 80 = 236"
  "(times3 ^^ 17) 236 = 93"
  "(times3 ^^ 17) 93 = 237"
  "(times3 ^^ 17) 237 = 188"
  "(times3 ^^ 17) 188 = 177"
  "(times3 ^^ 17) 177 = 176"
  "(times3 ^^ 17) 176 = 81"
  "(times3 ^^ 17) 81 = 13"
  "(times3 ^^ 17) 13 = 1"
  unfolding funpow17 by (simp_all add: times3_eq)

lemma g3_add: "g3 (m + n) = (times3 ^^ m) (g3 n)"
  by (simp add: funpow_add)

lemma g3_17: "g3 (17 * Suc k) = (times3 ^^ 17) (g3 (17 * k))"
  using g3_add [of 17 "17 * k"] by simp

lemma g3_values: "g3 51 = 12" "g3 85 = 189" "g3 255 = 1" "g3 15 = 53"
proof -
  note step = g3_17 [of 0] g3_17 [of 1] g3_17 [of 2] g3_17 [of 3] g3_17 [of 4] g3_17 [of 5] g3_17 [of 6] g3_17 [of 7]
    g3_17 [of 8] g3_17 [of 9] g3_17 [of 10] g3_17 [of 11] g3_17 [of 12] g3_17 [of 13] g3_17 [of 14]
  show "g3 51 = 12" "g3 85 = 189" "g3 255 = 1" using step by (simp_all add: blocks17)
  have "g3 15 = times3 (times3 (times3 (times3 (times3 (times3 (times3 (times3 (times3 (times3 (times3 (times3 (times3 (times3 (times3 1))))))))))))))"
    by (simp add: numeral_eq_Suc)
  then show "g3 15 = 53" by (simp add: times3_eq)
qed

lemma g3_period: "g3 (n + 255 * k) = g3 n"
proof (induction k)
  case (Suc k)
  have "g3 (n + 255 * Suc k) = (times3 ^^ (n + 255 * k)) (g3 255)"
    using g3_add [of "n + 255 * k" 255] by (simp add: ac_simps)
  then show ?case using Suc g3_values(3) by simp
qed simp

lemma g3_multiple: "g3 d = 1 \<Longrightarrow> g3 (d * k) = 1"
proof (induction k)
  case (Suc k)
  have "g3 (d * Suc k) = (times3 ^^ (d * k)) (g3 d)" using g3_add [of "d * k" d] by (simp add: ac_simps)
  with Suc show ?case by simp
qed simp

lemma divisors_255:
  assumes "e dvd 255" and "e \<noteq> (255 :: nat)"
  shows "e dvd 85 \<or> e dvd 51 \<or> e dvd 15"
proof -
  have table: "list_all (\<lambda>e. e dvd (255 :: nat) \<longrightarrow> e dvd 85 \<or> e dvd 51 \<or> e dvd 15) [2..<128]"
    by simp
  obtain f where f: "255 = e * f" using assms(1) by (rule dvdE)
  have "f \<noteq> 0" by (rule notI) (use f in simp)
  moreover have "f \<noteq> 1" by (rule notI) (use f assms(2) in simp)
  moreover have e: "e \<noteq> 0" by (rule notI) (use f in simp)
  ultimately have "2 \<le> f" by simp
  then have "e * 2 \<le> 255" using f by (metis mult_le_mono2)
  then have "e = 1 \<or> e \<in> set [2..<128]" using e unfolding set_upt atLeastLessThan_iff by arith
  then show ?thesis using table assms(1) by (auto simp only: list_all_iff one_dvd)
qed

lemma g3_order:
  assumes "0 < d" and "d < 255"
  shows "g3 d \<noteq> 1"
proof
  assume one: "g3 d = 1"
  obtain x y where xy: "d * x = 255 * y + gcd d 255" using bezout_nat [of d 255] assms(1) by auto
  have "g3 (gcd d 255) = g3 (d * x)" using g3_period [of "gcd d 255" y] xy by (simp add: add.commute)
  then have e: "g3 (gcd d 255) = 1" using g3_multiple [OF one] by simp
  have "gcd d 255 \<le> d" using assms(1) by (simp add: gcd_le1_nat)
  then have "gcd d 255 \<noteq> 255" using assms(2) by simp
  then have "gcd d 255 dvd 85 \<or> gcd d 255 dvd 51 \<or> gcd d 255 dvd 15" by (intro divisors_255) simp_all
  then have "g3 85 = 1 \<or> g3 51 = 1 \<or> g3 15 = 1" using g3_multiple [OF e] by (metis dvdE)
  then show False by (simp add: g3_values)
qed

lemma g3_inj: "inj_on g3 {..<255}"
proof (rule linorder_inj_onI)
  fix i j assume ij: "i < j" "i \<in> {..<255}" "j \<in> {..<255 :: nat}"
  show "g3 i \<noteq> g3 j"
  proof
    assume "g3 i = g3 j"
    then have "g3 (255 - j + i) = g3 (255 - j + j)" by (simp only: g3_add)
    then have one: "g3 (255 - j + i) = 1" using ij by (simp add: g3_values)
    have "0 < 255 - j + i" "255 - j + i < 255" using ij by auto
    from notE [OF g3_order [OF this] one] show False .
  qed
qed auto

lemma times3_0 [simp]: "times3 0 = 0"
  by (simp add: times3_eq)

lemma funpow_times3_xor: "(times3 ^^ n) (xor x y) = xor ((times3 ^^ n) x) ((times3 ^^ n) y)"
  by (induction n) (simp_all add: times3_xor)

lemma funpow_times3_0 [simp]: "(times3 ^^ n) 0 = 0"
  by (induction n) simp_all

lemma g3_nonzero: "g3 n \<noteq> 0"
proof
  assume "g3 n = 0"
  then have "(times3 ^^ (254 * n)) (g3 n) = 0" by simp
  then have "g3 (254 * n + n) = 0" by (simp only: g3_add)
  moreover have "g3 (254 * n + n) = 1" using g3_period [of 0 n] by (simp add: algebra_simps)
  ultimately show False by simp
qed

lemma g3_surj: "x \<noteq> 0 \<Longrightarrow> \<exists>i < 255. g3 i = x"
proof -
  assume "x \<noteq> 0"
  have "card (UNIV :: u8 set) = 256" by (simp add: card_word)
  then have "card (UNIV - {0 :: u8}) = 255" by simp
  moreover have "card (g3 ` {..<255}) = 255" using g3_inj by (simp add: card_image)
  moreover have "g3 ` {..<255} \<subseteq> UNIV - {0}" using g3_nonzero by auto
  ultimately have "g3 ` {..<255} = UNIV - {0}" by (intro card_subset_eq) simp_all
  then have "x \<in> g3 ` {..<255}" using \<open>x \<noteq> 0\<close> by simp
  then show ?thesis by blast
qed

section \<open>What the tables hold\<close>

lemma gf_step_g3: "gf_step (ucast (g3 i)) = ucast (g3 (Suc i))"
  using gf_step_small [of "ucast (g3 i)"] by (simp add: times3_def)

lemma walk_tables:
  assumes "n \<le> 255"
  shows "\<exists>ex lg. fold walk_step [0..<n] (replicate 512 0, replicate 256 0, 1) = (ex, lg, ucast (g3 n)) \<and>
    length ex = 512 \<and> length lg = 256 \<and> (\<forall>i < n. ex ! i = g3 i) \<and> (\<forall>i < n. lg ! unat (g3 i) = word_of_nat i)"
  using assms
proof (induction n)
  case 0
  then show ?case by simp
next
  case (Suc n)
  then obtain ex lg where run: "fold walk_step [0..<n] (replicate 512 0, replicate 256 0, 1) = (ex, lg, ucast (g3 n))"
    and len: "length ex = 512" "length lg = 256" and ex: "\<forall>i < n. ex ! i = g3 i" and lg: "\<forall>i < n. lg ! unat (g3 i) = word_of_nat i"
    by auto
  have down: "ucast (ucast (g3 n) :: u16) = g3 n" and up: "unat (ucast (g3 n) :: u16) = unat (g3 n)"
  proof -
    have "unat (g3 n) < 2 ^ 16" using unat_u8 [of "g3 n"] by simp
    then show "unat (ucast (g3 n) :: u16) = unat (g3 n)" by (simp add: unsigned_ucast_eq take_bit_nat_eq_self_iff)
  qed (rule bit_word_eqI, simp add: bit_simps)
  have range: "unat (g3 i) < 256" for i using unat_u8 [of "g3 i"] by simp
  have apart: "unat (g3 i) \<noteq> unat (g3 n)" if "i < n" for i
  proof -
    have "g3 i \<noteq> g3 n" using inj_onD [OF g3_inj, of i n] that Suc.prems by auto
    then show ?thesis by (simp add: word_unat_eq_iff)
  qed
  have run': "fold walk_step [0..<Suc n] (replicate 512 0, replicate 256 0, 1) =
      (ex[n := g3 n], lg[unat (g3 n) := word_of_nat n], ucast (g3 (Suc n)))"
    by (simp add: run walk_step_def down up gf_step_g3 del: funpow.simps)
  have lg': "\<forall>i < Suc n. lg[unat (g3 n) := word_of_nat n] ! unat (g3 i) = word_of_nat i"
  proof (intro allI impI)
    fix i assume "i < Suc n"
    then show "lg[unat (g3 n) := word_of_nat n] ! unat (g3 i) = word_of_nat i"
      using lg apart [of i] range [of n] len(2) by (cases "i = n") simp_all
  qed
  have ex': "\<forall>i < Suc n. ex[n := g3 n] ! i = g3 i"
    using ex len(1) Suc.prems by (auto simp: less_Suc_eq nth_list_update)
  show ?case
    by (intro exI conjI) (rule run', simp_all only: length_list_update len, rule ex', rule lg')
qed

lemma walk_facts:
  obtains ex lg where "gf_walk = (ex, lg, 1)" and "length ex = 512" and "length lg = 256"
    and "\<And>i. i < 255 \<Longrightarrow> ex ! i = g3 i" and "\<And>i. i < 255 \<Longrightarrow> lg ! unat (g3 i) = word_of_nat i"
  using walk_tables [of 255] g3_values(3) by (auto simp: gf_walk_def)

lemma log_of_power: "i < 255 \<Longrightarrow> log_table ! unat (g3 i) = word_of_nat i"
proof -
  assume i: "i < 255"
  obtain ex lg where walk: "gf_walk = (ex, lg, 1)" and lg: "lg ! unat (g3 i) = word_of_nat i" using walk_facts i by metis
  have "unat (g3 i) \<noteq> 0" using g3_nonzero [of i] by (simp add: unat_eq_0)
  then show ?thesis unfolding log_table_def walk by (simp add: lg)
qed

lemma double_table:
  assumes "length ex = 512" and "n \<le> 256" and "\<And>i. i < 255 \<Longrightarrow> ex ! i = g3 i"
  shows "length (fold (\<lambda>i ex. ex[255 + i := ex ! i]) [0..<n] ex) = 512 \<and>
    (\<forall>j < 255 + n. fold (\<lambda>i ex. ex[255 + i := ex ! i]) [0..<n] ex ! j = g3 j)"
  using assms(2)
proof (induction n)
  case 0
  then show ?case using assms by simp
next
  case (Suc n)
  let ?t = "fold (\<lambda>i ex. ex[255 + i := ex ! i]) [0..<n] ex"
  have t: "length ?t = 512" "\<And>j. j < 255 + n \<Longrightarrow> ?t ! j = g3 j" using Suc by auto
  have "?t ! n = g3 n" using t(2) by simp
  moreover have "g3 (255 + n) = g3 n" using g3_period [of n 1] by (simp add: add.commute)
  ultimately show ?case using t Suc.prems by (auto simp: nth_list_update less_Suc_eq)
qed

lemma exp_table_nth: "i < 511 \<Longrightarrow> exp_table ! i = g3 i"
proof -
  assume i: "i < 511"
  obtain ex lg where walk: "gf_walk = (ex, lg, 1)" "length ex = 512" "\<And>i. i < 255 \<Longrightarrow> ex ! i = g3 i" using walk_facts by metis
  have "fold (\<lambda>i ex. ex[255 + i := ex ! i]) [0..<256] ex ! i = g3 i"
    using double_table [of ex 256] walk(2,3) i by simp
  then show ?thesis unfolding exp_table_def walk(1) by simp
qed

definition gf_log :: "u8 \<Rightarrow> nat" where
  "gf_log x = unat (log_table ! unat x)"

lemma gf_log_props:
  assumes "x \<noteq> 0"
  shows "gf_log x < 255" and "g3 (gf_log x) = x"
proof -
  obtain i where i: "i < 255" "g3 i = x" using g3_surj [OF assms] by blast
  then have "gf_log x = i" using log_of_power [OF i(1)] by (simp add: gf_log_def unat_of_nat)
  then show "gf_log x < 255" "g3 (gf_log x) = x" using i by simp_all
qed

lemma mul_row_nth:
  assumes "a \<noteq> 0" and "n \<le> 256" and "1 \<le> n" and "b < 256"
  shows "fold (\<lambda>b row. row[b := exp_table ! (gf_log a + unat (log_table ! b))]) [1..<n] (replicate 256 0) ! b =
    (if 1 \<le> b \<and> b < n then exp_table ! (gf_log a + unat (log_table ! b)) else 0)"
proof -
  let ?t = "\<lambda>n. fold (\<lambda>b row. row[b := exp_table ! (gf_log a + unat (log_table ! b))]) [1..<n] (replicate 256 0 :: u8 list)"
  have "length (?t n) = 256 \<and> (\<forall>b < 256. ?t n ! b = (if 1 \<le> b \<and> b < n then exp_table ! (gf_log a + unat (log_table ! b)) else 0))"
    using assms(3,2)
  proof (induction n rule: nat_induct_at_least)
    case base
    then show ?case by simp
  next
    case (Suc n)
    then show ?case by (auto simp: nth_list_update less_Suc_eq)
  qed
  then show ?thesis using assms(4) by blast
qed

theorem gf_mul_power: "gf_mul a b = (if a = 0 then 0 else (times3 ^^ gf_log a) b)"
proof (cases "a = 0")
  case True
  have "unat b < 256" by (rule unat_u8)
  then show ?thesis using True by (simp add: gf_mul_def mul_row_def)
next
  case False
  have b: "unat b < 256" by (rule unat_u8)
  have row: "gf_mul a b = (if 1 \<le> unat b \<and> unat b < 256 then exp_table ! (gf_log a + gf_log b) else 0)"
    using mul_row_nth [OF False, of 256 "unat b"] b False by (simp add: gf_mul_def mul_row_def gf_log_def)
  show ?thesis
  proof (cases "b = 0")
    case True
    then show ?thesis using row False by simp
  next
    case nz: False
    then have "1 \<le> unat b" using unat_eq_0 [of b] by linarith
    then have "gf_mul a b = g3 (gf_log a + gf_log b)"
      using row b gf_log_props(1) [OF False] gf_log_props(1) [OF nz] by (simp add: exp_table_nth)
    then show ?thesis using False gf_log_props(2) [OF nz] by (simp add: g3_add)
  qed
qed

section \<open>The field\<close>

lemma gf_mul_powers: "a \<noteq> 0 \<Longrightarrow> b \<noteq> 0 \<Longrightarrow> gf_mul a b = g3 (gf_log a + gf_log b)"
  by (simp add: gf_mul_power g3_add gf_log_props)

lemma gf_mul_zero [simp]: "gf_mul 0 b = 0" "gf_mul a 0 = 0"
  by (simp_all add: gf_mul_power)

lemma gf_mul_commute: "gf_mul a b = gf_mul b a"
  by (cases "a = 0"; cases "b = 0") (simp_all add: gf_mul_powers add.commute)

lemma gf_mul_distrib: "gf_mul a (xor b c) = xor (gf_mul a b) (gf_mul a c)"
  by (simp add: gf_mul_power funpow_times3_xor)

lemma gf_log_mul:
  assumes "a \<noteq> 0" and "b \<noteq> 0"
  shows "gf_mul a b \<noteq> 0" and "(times3 ^^ gf_log (gf_mul a b)) x = (times3 ^^ (gf_log a + gf_log b)) x"
proof -
  show nz: "gf_mul a b \<noteq> 0" using gf_mul_powers [OF assms] g3_nonzero by simp
  let ?m = "gf_log (gf_mul a b)" and ?n = "gf_log a + gf_log b"
  have eq: "g3 ?m = g3 ?n" using gf_log_props(2) [OF nz] gf_mul_powers [OF assms] by simp
  show "(times3 ^^ ?m) x = (times3 ^^ ?n) x"
  proof (cases "x = 0")
    case False
    have "(times3 ^^ ?m) (g3 (gf_log x)) = (times3 ^^ ?n) (g3 (gf_log x))"
      using arg_cong [OF eq, of "times3 ^^ gf_log x"] by (simp add: g3_add [symmetric] add.commute)
    then show ?thesis using gf_log_props(2) [OF False] by simp
  qed simp
qed

lemma gf_mul_assoc: "gf_mul (gf_mul a b) c = gf_mul a (gf_mul b c)"
proof (cases "a = 0 \<or> b = 0")
  case False
  then have nz: "a \<noteq> 0" "b \<noteq> 0" by auto
  have "gf_mul (gf_mul a b) c = (times3 ^^ (gf_log a + gf_log b)) c"
    by (subst gf_mul_power) (simp add: gf_log_mul [OF nz])
  also have "\<dots> = gf_mul a (gf_mul b c)"
    by (simp add: funpow_add gf_mul_power [of a] gf_mul_power [of b] nz)
  finally show ?thesis .
qed auto

lemma gf_log_one: "gf_log 1 = 0"
  using log_of_power [of 0] by (simp add: gf_log_def)

lemma gf_mul_one [simp]: "gf_mul 1 a = a" "gf_mul a 1 = a"
proof -
  show "gf_mul 1 a = a" by (simp add: gf_mul_power gf_log_one)
  then show "gf_mul a 1 = a" by (simp add: gf_mul_commute)
qed

lemma gf_inv_power: "a \<noteq> 0 \<Longrightarrow> gf_inv a = g3 (255 - gf_log a)"
  by (simp add: gf_inv_def exp_table_nth flip: gf_log_def)

lemma gf_inv_right: "a \<noteq> 0 \<Longrightarrow> gf_mul a (gf_inv a) = 1"
proof -
  assume a: "a \<noteq> 0"
  have "gf_mul a (gf_inv a) = g3 (gf_log a + (255 - gf_log a))"
    using a by (simp add: gf_mul_power gf_inv_power g3_add)
  then show ?thesis using gf_log_props(1) [OF a] g3_values(3) by simp
qed

lemma gf_div_mul: "b \<noteq> 0 \<Longrightarrow> gf_div a b = gf_mul a (gf_inv b)"
proof (cases "a = 0")
  case False
  assume b: "b \<noteq> 0"
  let ?a = "gf_log a" and ?b = "gf_log b" and ?n = "nat ((int (gf_log a) - int (gf_log b)) mod 255)"
  have lt: "?a < 255" "?b < 255" using gf_log_props(1) False b by auto
  have "int (?a + (255 - ?b)) = (int ?a - int ?b) + 255" using lt by simp
  then have "int ?n mod 255 = int (?a + (255 - ?b)) mod 255" by (simp only: mod_add_self2) simp
  then have "int (?n mod 255) = int ((?a + (255 - ?b)) mod 255)" by (simp only: of_nat_mod of_nat_numeral)
  then have "?n mod 255 = (?a + (255 - ?b)) mod 255" by (simp only: of_nat_eq_iff)
  moreover have "g3 n = g3 (n mod 255)" for n using g3_period [of "n mod 255" "n div 255"] by simp
  ultimately have "g3 ?n = g3 (?a + (255 - ?b))" by metis
  moreover have "?n < 511" by (simp add: nat_less_iff order.strict_trans [OF pos_mod_bound])
  ultimately show ?thesis
    using False b by (simp add: gf_div_def exp_table_nth gf_mul_power gf_inv_power g3_add flip: gf_log_def)
qed (simp add: gf_div_def)

text \<open>
  The reference: multiplication of polynomials over the field with two elements modulo \<open>x\<^sup>8 + x\<^sup>4 + x\<^sup>3 + x + 1\<close>, one
  shifted copy of \<open>b\<close> for each bit of \<open>a\<close>.
\<close>

definition xtime :: "u8 \<Rightarrow> u8" where
  "xtime x = xor (push_bit 1 x) (if bit x 7 then 0x1B else 0)"

primrec poly_product :: "nat \<Rightarrow> u8 \<Rightarrow> u8 \<Rightarrow> u8" where
  "poly_product 0 a b = 0"
| "poly_product (Suc n) a b = xor (poly_product n a b) (if bit a n then (xtime ^^ n) b else 0)"

lemma gf_mul_2: "gf_mul 2 b = xtime b"
proof -
  have "g3 1 = 3" by (simp add: times3_eq)
  then have "gf_log 3 = 1" using log_of_power [of 1] by (simp add: gf_log_def)
  then have "gf_mul 3 b = xor (xtime b) b" by (simp add: gf_mul_power times3_eq xtime_def)
  moreover have "gf_mul 2 b = xor (gf_mul 3 b) (gf_mul 1 b)"
    using gf_mul_distrib [of b 3 1] by (simp add: gf_mul_commute)
  ultimately show ?thesis by (simp add: xor.assoc)
qed

lemma gf_mul_bit: "i < 8 \<Longrightarrow> gf_mul (push_bit i 1) b = (xtime ^^ i) b"
proof (induction i)
  case (Suc i)
  have "\<not> bit (push_bit i 1 :: u8) 7" using Suc.prems by (simp add: bit_simps)
  then have "push_bit (Suc i) (1 :: u8) = xtime (push_bit i 1)" by (simp add: xtime_def push_bit_Suc)
  then have "gf_mul (push_bit (Suc i) 1) b = gf_mul 2 (gf_mul (push_bit i 1) b)"
    by (simp only: gf_mul_2 [symmetric] gf_mul_assoc)
  then show ?case using Suc by (simp add: gf_mul_2)
qed simp

lemma gf_mul_low_bits: "n \<le> 8 \<Longrightarrow> gf_mul (take_bit n a) b = poly_product n a b"
proof (induction n)
  case (Suc n)
  have "take_bit (Suc n) a = xor (take_bit n a) (if bit a n then push_bit n 1 else 0)"
    by (rule bit_word_eqI) (auto simp: bit_simps less_Suc_eq)
  then have "gf_mul (take_bit (Suc n) a) b = xor (gf_mul (take_bit n a) b) (gf_mul (if bit a n then push_bit n 1 else 0) b)"
    using gf_mul_distrib [of b "take_bit n a"] by (simp add: gf_mul_commute [of _ b])
  then show ?case using Suc gf_mul_bit [of n b] by simp
qed simp

text \<open>
  The tables compute the field: the product read from the 256 by 256 table is the product of the two bytes as
  polynomials modulo \<open>x\<^sup>8 + x\<^sup>4 + x\<^sup>3 + x + 1\<close>, and division by a nonzero byte undoes it.
\<close>

theorem gf_tables_correct: "gf_mul a b = poly_product 8 a b \<and> (b \<noteq> 0 \<longrightarrow> gf_div (gf_mul a b) b = a)"
proof -
  have "take_bit 8 a = a" by (rule bit_word_eqI) (simp add: bit_simps)
  moreover have "gf_div (gf_mul a b) b = a" if "b \<noteq> 0" using that by (simp add: gf_div_mul gf_mul_assoc gf_inv_right)
  ultimately show ?thesis using gf_mul_low_bits [of 8 a b] by simp
qed

theorem gf_tables_correct_witness: "gf_mul 0x53 0xCA = 1 \<and> gf_div 1 0xCA = 0x53"
proof -
  have bits: "[0..<8] = [0, 1, 2, 3, 4, 5, 6, 7 :: nat]" by (simp add: upt_rec)
  have sum: "poly_product n a b = fold (\<lambda>i x. xor x (if bit a i then (xtime ^^ i) b else 0)) [0..<n] 0" for n a b
    by (induction n) simp_all
  have pow: "(xtime ^^ numeral m) x = xtime ((xtime ^^ pred_numeral m) x)" for m x by (simp add: numeral_eq_Suc)
  have "poly_product 8 0x53 0xCA = 1" unfolding sum bits by (simp add: pow) (simp add: xtime_def)
  then show ?thesis using gf_tables_correct [of "0x53" "0xCA"] by auto
qed

section \<open>Vector kernels\<close>

text \<open>The reference: \<open>dst[i] ^= a * src[i]\<close> on the common length, the rest of \<open>dst\<close> untouched.\<close>

definition axpy_ref :: "u8 \<Rightarrow> u8 list \<Rightarrow> u8 list \<Rightarrow> u8 list" where
  "axpy_ref a src dst = map (\<lambda>j. if j < length src then xor (dst ! j) (gf_mul a (src ! j)) else dst ! j) [0..<length dst]"

text \<open>\<open>t[i] = a * i\<close> and \<open>t[16 + i] = a * (i << 4)\<close>.\<close>

definition mul_nibble_tables :: "u8 \<Rightarrow> u8 list" where
  "mul_nibble_tables a = map (\<lambda>i. mul_row a ! i) [0..<16] @ map (\<lambda>i. mul_row a ! (16 * i)) [0..<16]"

text \<open>
  One byte of a vector: the low nibble indexes the first table, the high nibble the second (\<open>pshufb\<close>, \<open>vqtbl1q\<close>). The
  16-bit shift of the x86 kernels followed by the mask leaves the high nibble of each byte.
\<close>

definition nibble_mul :: "u8 list \<Rightarrow> u8 \<Rightarrow> u8" where
  "nibble_mul tabs x = xor (tabs ! unat (and x 0x0F)) (tabs ! (16 + unat (and (drop_bit 4 x) 0x0F)))"

datatype simd = AVX2 | SSSE3 | NEON | NoSimd

definition simd_width :: "simd \<Rightarrow> nat" where
  "simd_width k = (case k of AVX2 \<Rightarrow> 32 | SSSE3 \<Rightarrow> 16 | NEON \<Rightarrow> 16 | NoSimd \<Rightarrow> 0)"

text \<open>\<open>while i + width <= n\<close>: one vector of \<open>width\<close> bytes at a time; the result is \<open>dst\<close> with the vectors replaced.\<close>

function axpy_vectors :: "nat \<Rightarrow> u8 list \<Rightarrow> u8 list \<Rightarrow> u8 list \<Rightarrow> nat \<Rightarrow> nat \<Rightarrow> u8 list" where
  "axpy_vectors w tabs src dst n i =
     (if w \<noteq> 0 \<and> i + w \<le> n
      then axpy_vectors w tabs src
             (take i dst @ map2 (\<lambda>d x. xor d (nibble_mul tabs x)) (take w (drop i dst)) (take w (drop i src)) @ drop (i + w) dst) n (i + w)
      else dst)"
  by pat_completeness auto
termination
  by (relation "measure (\<lambda>(w, tabs, src, dst, n, i). n - i)") auto

declare axpy_vectors.simps [simp del]

definition gf_axpy_slice :: "simd \<Rightarrow> u8 \<Rightarrow> u8 list \<Rightarrow> u8 list \<Rightarrow> u8 list" where
  "gf_axpy_slice k a src dst =
     (let n = min (length src) (length dst)
      in if a = 0 \<or> n = 0 then dst
         else if a = 1 then fold (\<lambda>i dst. dst[i := xor (dst ! i) (src ! i)]) [0..<n] dst
         else let w = simd_width k;
                  dst = axpy_vectors w (mul_nibble_tables a) src dst n 0;
                  i = (if w = 0 then 0 else n - n mod w)
              in fold (\<lambda>j dst. dst[j := xor (dst ! j) (mul_row a ! unat (src ! j))]) [i..<n] dst)"

function scal_vectors :: "nat \<Rightarrow> u8 list \<Rightarrow> u8 list \<Rightarrow> nat \<Rightarrow> nat \<Rightarrow> u8 list" where
  "scal_vectors w tabs dst n i =
     (if w \<noteq> 0 \<and> i + w \<le> n
      then scal_vectors w tabs (take i dst @ map (nibble_mul tabs) (take w (drop i dst)) @ drop (i + w) dst) n (i + w)
      else dst)"
  by pat_completeness auto
termination
  by (relation "measure (\<lambda>(w, tabs, dst, n, i). n - i)") auto

declare scal_vectors.simps [simp del]

definition gf_scal_slice :: "simd \<Rightarrow> u8 \<Rightarrow> u8 list \<Rightarrow> u8 list" where
  "gf_scal_slice k a dst =
     (let n = length dst
      in if n = 0 then dst
         else if a = 0 then map (\<lambda>_. 0) dst
         else if a = 1 then dst
         else let w = simd_width k;
                  dst = scal_vectors w (mul_nibble_tables a) dst n 0;
                  i = (if w = 0 then 0 else n - n mod w)
              in fold (\<lambda>j dst. dst[j := mul_row a ! unat (dst ! j)]) [i..<n] dst)"

lemma nibble_mul_eq: "nibble_mul (mul_nibble_tables a) x = gf_mul a x"
proof -
  let ?lo = "and x 0x0F" and ?hi = "and (drop_bit 4 x) 0x0F"
  have mask: "(0x0F :: u8) = mask 4" by (simp add: mask_eq_exp_minus_1)
  have split: "x = xor ?lo (push_bit 4 ?hi)"
    unfolding mask by (rule bit_word_eqI) (auto simp: bit_simps)
  have small: "unat (and y 0x0F) < 16" for y :: u8
  proof -
    have "and y 0x0F = take_bit 4 y" unfolding mask by (simp add: take_bit_eq_mask and.commute)
    then show ?thesis by (simp add: unsigned_take_bit_eq take_bit_nat_less_exp [where n = 4, simplified])
  qed
  have hi: "unat (push_bit 4 ?hi) = 16 * unat ?hi"
    using small [of "drop_bit 4 x"] by (simp add: push_bit_eq_mult unat_mult_lem [THEN iffD1] mult.commute)
  have "nibble_mul (mul_nibble_tables a) x = xor (mul_row a ! unat ?lo) (mul_row a ! (16 * unat ?hi))"
    using small by (simp add: nibble_mul_def mul_nibble_tables_def nth_append)
  also have "\<dots> = xor (gf_mul a ?lo) (gf_mul a (push_bit 4 ?hi))" by (simp only: gf_mul_def hi)
  also have "\<dots> = gf_mul a x" by (simp only: gf_mul_distrib [symmetric] split [symmetric])
  finally show ?thesis .
qed

lemma fold_update_length: "length (fold (\<lambda>j d. d[j := f j (d ! j)]) js dst) = length dst"
  by (induction js arbitrary: dst) simp_all

lemma fold_update_nth:
  assumes "distinct js" and "\<forall>j \<in> set js. j < length dst"
  shows "fold (\<lambda>j d. d[j := f j (d ! j)]) js dst ! i = (if i \<in> set js then f i (dst ! i) else dst ! i)"
  using assms
proof (induction js arbitrary: dst)
  case (Cons j js)
  then show ?case by (cases "i = j") (auto simp: nth_list_update)
qed simp

lemma axpy_vectors_nth:
  assumes "n \<le> length src" and "n \<le> length dst" and "i \<le> n"
  shows "length (axpy_vectors w tabs src dst n i) = length dst \<and>
    (\<forall>j < length dst. axpy_vectors w tabs src dst n i ! j =
       (if i \<le> j \<and> j < i + w * ((n - i) div w) then xor (dst ! j) (nibble_mul tabs (src ! j)) else dst ! j))"
  using assms
proof (induction w tabs src dst n i rule: axpy_vectors.induct)
  case (1 w tabs src dst n i)
  show ?case
  proof (cases "w \<noteq> 0 \<and> i + w \<le> n")
    case True
    let ?d = "take i dst @ map2 (\<lambda>d x. xor d (nibble_mul tabs x)) (take w (drop i dst)) (take w (drop i src)) @ drop (i + w) dst"
    have len: "length ?d = length dst" using True 1(2-) by (auto simp: min_def)
    have d: "?d ! j = (if i \<le> j \<and> j < i + w then xor (dst ! j) (nibble_mul tabs (src ! j)) else dst ! j)"
      if "j < length dst" for j
    proof -
      consider "j < i" | "i \<le> j" "j < i + w" | "i + w \<le> j" by linarith
      then show ?thesis
      proof cases
        case 2
        then have "j - i < w" "i + (j - i) = j" by linarith+
        then show ?thesis using 2 True 1(2-) by (auto simp: nth_append less_diff_conv2)
      qed (use True 1(2-) that in \<open>auto simp: nth_append\<close>)
    qed
    have "(n - i) div w = Suc ((n - (i + w)) div w)"
    proof -
      have "w \<le> n - i" "0 < w" using True by linarith+
      then show ?thesis using le_div_geq [of w "n - i"] by simp
    qed
    then have upto: "i + w * ((n - i) div w) = i + w + w * ((n - (i + w)) div w)" by simp
    have IH: "length (axpy_vectors w tabs src ?d n (i + w)) = length ?d \<and>
      (\<forall>j < length ?d. axpy_vectors w tabs src ?d n (i + w) ! j =
       (if i + w \<le> j \<and> j < i + w + w * ((n - (i + w)) div w) then xor (?d ! j) (nibble_mul tabs (src ! j)) else ?d ! j))"
      by (rule 1(1)) (use True 1(2-) len in simp_all)
    show ?thesis
      unfolding axpy_vectors.simps [of w tabs src dst n i] if_P [OF True] upto
      using IH d unfolding len by auto
  next
    case False
    then have "w = 0 \<or> n - i < w" by linarith
    then have "w * ((n - i) div w) = 0" by auto
    then show ?thesis unfolding axpy_vectors.simps [of w tabs src dst n i] if_not_P [OF False] by auto
  qed
qed

lemma scal_vectors_nth:
  assumes "n \<le> length dst" and "i \<le> n"
  shows "length (scal_vectors w tabs dst n i) = length dst \<and>
    (\<forall>j < length dst. scal_vectors w tabs dst n i ! j =
       (if i \<le> j \<and> j < i + w * ((n - i) div w) then nibble_mul tabs (dst ! j) else dst ! j))"
  using assms
proof (induction w tabs dst n i rule: scal_vectors.induct)
  case (1 w tabs dst n i)
  show ?case
  proof (cases "w \<noteq> 0 \<and> i + w \<le> n")
    case True
    let ?d = "take i dst @ map (nibble_mul tabs) (take w (drop i dst)) @ drop (i + w) dst"
    have len: "length ?d = length dst" using True 1(2-) by (auto simp: min_def)
    have d: "?d ! j = (if i \<le> j \<and> j < i + w then nibble_mul tabs (dst ! j) else dst ! j)" if "j < length dst" for j
    proof -
      consider "j < i" | "i \<le> j" "j < i + w" | "i + w \<le> j" by linarith
      then show ?thesis
      proof cases
        case 2
        then have "j - i < w" "i + (j - i) = j" by linarith+
        then show ?thesis using 2 True 1(2-) by (auto simp: nth_append less_diff_conv2)
      qed (use True 1(2-) that in \<open>auto simp: nth_append\<close>)
    qed
    have "(n - i) div w = Suc ((n - (i + w)) div w)"
    proof -
      have "w \<le> n - i" "0 < w" using True by linarith+
      then show ?thesis using le_div_geq [of w "n - i"] by simp
    qed
    then have upto: "i + w * ((n - i) div w) = i + w + w * ((n - (i + w)) div w)" by simp
    have IH: "length (scal_vectors w tabs ?d n (i + w)) = length ?d \<and>
      (\<forall>j < length ?d. scal_vectors w tabs ?d n (i + w) ! j =
       (if i + w \<le> j \<and> j < i + w + w * ((n - (i + w)) div w) then nibble_mul tabs (?d ! j) else ?d ! j))"
      by (rule 1(1)) (use True 1(2-) len in simp_all)
    show ?thesis
      unfolding scal_vectors.simps [of w tabs dst n i] if_P [OF True] upto
      using IH d unfolding len by auto
  next
    case False
    then have "w = 0 \<or> n - i < w" by linarith
    then have "w * ((n - i) div w) = 0" by auto
    then show ?thesis unfolding scal_vectors.simps [of w tabs dst n i] if_not_P [OF False] by auto
  qed
qed

lemma vector_end: "(if w = 0 then 0 else n - n mod w) = w * (n div w)" for n w :: nat
  by (simp add: minus_mod_eq_mult_div)

lemma gf_axpy_slice_eq: "gf_axpy_slice k a src dst = axpy_ref a src dst"
proof (rule nth_equalityI)
  let ?n = "min (length src) (length dst)" and ?w = "simd_width k"
  let ?v = "axpy_vectors ?w (mul_nibble_tables a) src dst ?n 0"
  have v: "length ?v = length dst" "\<And>j. j < length dst \<Longrightarrow> ?v ! j =
      (if j < ?w * (?n div ?w) then xor (dst ! j) (gf_mul a (src ! j)) else dst ! j)"
    using axpy_vectors_nth [of ?n src dst 0 ?w "mul_nibble_tables a"] by (simp_all add: nibble_mul_eq)
  show len: "length (gf_axpy_slice k a src dst) = length (axpy_ref a src dst)"
    using v(1) fold_update_length [where f = "\<lambda>i d. xor d (src ! i)"]
      fold_update_length [where f = "\<lambda>i d. xor d (mul_row a ! unat (src ! i))"]
    by (auto simp: gf_axpy_slice_def axpy_ref_def Let_def)
  fix j assume "j < length (gf_axpy_slice k a src dst)"
  then have j: "j < length dst" using len by (simp add: axpy_ref_def)
  have le: "?w * (?n div ?w) \<le> ?n" by (rule times_div_less_eq_dividend)
  show "gf_axpy_slice k a src dst ! j = axpy_ref a src dst ! j"
  proof (cases "a = 0 \<or> a = 1 \<or> ?n = 0")
    case True
    then show ?thesis using j by (auto simp: gf_axpy_slice_def axpy_ref_def Let_def fold_update_nth [where f = "\<lambda>i d. xor d (src ! i)"])
  next
    case False
    then have "a \<noteq> 0" "a \<noteq> 1" "\<not> (a = 0 \<or> ?n = 0)" by auto
    then have "gf_axpy_slice k a src dst = fold (\<lambda>j d. d[j := xor (d ! j) (gf_mul a (src ! j))]) [?w * (?n div ?w)..<?n] ?v"
      unfolding gf_axpy_slice_def Let_def vector_end gf_mul_def by (simp only: if_False simp_thms)
    then show ?thesis
      using j v le fold_update_nth [where f = "\<lambda>i d. xor d (gf_mul a (src ! i))" and dst = ?v, of "[?w * (?n div ?w)..<?n]" j]
      by (auto simp: axpy_ref_def)
  qed
qed

lemma gf_scal_slice_eq: "gf_scal_slice k a dst = map (gf_mul a) dst"
proof (rule nth_equalityI)
  let ?n = "length dst" and ?w = "simd_width k"
  let ?v = "scal_vectors ?w (mul_nibble_tables a) dst ?n 0"
  have v: "length ?v = length dst" "\<And>j. j < length dst \<Longrightarrow> ?v ! j = (if j < ?w * (?n div ?w) then gf_mul a (dst ! j) else dst ! j)"
    using scal_vectors_nth [of ?n dst 0 ?w "mul_nibble_tables a"] by (simp_all add: nibble_mul_eq)
  show len: "length (gf_scal_slice k a dst) = length (map (gf_mul a) dst)"
    using v(1) fold_update_length [where f = "\<lambda>i d. mul_row a ! unat d"] by (auto simp: gf_scal_slice_def Let_def)
  fix j assume "j < length (gf_scal_slice k a dst)"
  then have j: "j < length dst" using len by simp
  have le: "?w * (?n div ?w) \<le> ?n" by (rule times_div_less_eq_dividend)
  show "gf_scal_slice k a dst ! j = map (gf_mul a) dst ! j"
  proof (cases "a = 0 \<or> a = 1")
    case True
    then show ?thesis using j by (auto simp: gf_scal_slice_def Let_def)
  next
    case False
    then have "gf_scal_slice k a dst = fold (\<lambda>j d. d[j := gf_mul a (d ! j)]) [?w * (?n div ?w)..<?n] ?v"
      using j unfolding gf_scal_slice_def Let_def vector_end gf_mul_def by auto
    then show ?thesis
      using j v le fold_update_nth [where f = "\<lambda>i d. gf_mul a d" and dst = ?v, of "[?w * (?n div ?w)..<?n]" j] by auto
  qed
qed

text \<open>\<open>gf_dot\<close>.\<close>

definition gf_dot :: "simd \<Rightarrow> u8 list \<Rightarrow> u8 list list \<Rightarrow> u8 list" where
  "gf_dot k coeffs rows =
     (case rows of
        [] \<Rightarrow> []
      | r # _ \<Rightarrow> fold (\<lambda>(c, r) out. if c = 0 then out else gf_axpy_slice k c r out) (zip coeffs rows) (replicate (length r) 0))"

text \<open>
  The vector kernels agree with the scalar definition whatever instruction set is found at run time: adding a
  multiple of one slice to another changes exactly the bytes of the common length, each by the product with the
  coefficient, and scaling multiplies every byte.
\<close>

theorem kernels_match_reference:
  "gf_axpy_slice k a src dst = axpy_ref a src dst \<and> gf_scal_slice k a dst = map (gf_mul a) dst"
  by (simp add: gf_axpy_slice_eq gf_scal_slice_eq)

end
