(* ===== verification/GF_Elimination.thy ===== *)
theory GF_Elimination
  imports GF256
begin

text \<open>
  Gaussian elimination of \<open>integrations/dlr/crates/coding/src/gf256.rs\<close>, and what it means for a linear system: it
  keeps the solutions, it ends in the identity when it reports full rank, and it reports full rank unless some
  nonzero vector is mapped to zero by every row.
\<close>

section \<open>Gaussian elimination\<close>

text \<open>
  The flat matrix is kept as the list of its rows of \<open>row_len\<close> bytes (\<open>mat[r * row_len + c]\<close> is \<open>mat ! r ! c\<close>). The search
  for a pivot in column \<open>col\<close> starts at row \<open>rank\<close>.
\<close>

definition find_pivot :: "u8 list list \<Rightarrow> nat \<Rightarrow> nat \<Rightarrow> nat option" where
  "find_pivot mat rank col = find (\<lambda>r. mat ! r ! col \<noteq> 0) [rank..<length mat]"

definition swap_rows :: "nat \<Rightarrow> nat \<Rightarrow> 'a list \<Rightarrow> 'a list" where
  "swap_rows i j mat = (if i = j then mat else mat[i := mat ! j, j := mat ! i])"

definition clear_column :: "simd \<Rightarrow> nat \<Rightarrow> nat \<Rightarrow> u8 list \<Rightarrow> u8 list list \<Rightarrow> u8 list list" where
  "clear_column k rank col prow mat =
     fold (\<lambda>r mat. if r = rank \<or> mat ! r ! col = 0 then mat else mat[r := gf_axpy_slice k (mat ! r ! col) prow (mat ! r)])
       [0..<length mat] mat"

definition eliminate_column :: "simd \<Rightarrow> nat \<Rightarrow> u8 list list \<times> nat \<Rightarrow> u8 list list \<times> nat" where
  "eliminate_column k col st =
     (case st of (mat, rank) \<Rightarrow>
        (case find_pivot mat rank col of
           None \<Rightarrow> (mat, rank)
         | Some p \<Rightarrow>
             (let mat = swap_rows rank p mat;
                  prow = gf_scal_slice k (exp_table ! (255 - unat (log_table ! unat (mat ! rank ! col)))) (mat ! rank);
                  mat = mat[rank := prow]
              in (clear_column k rank col prow mat, rank + 1))))"

text \<open>\<open>for col in 0..k\<close>, left when the rank reaches the number of rows.\<close>

fun eliminate_columns :: "simd \<Rightarrow> nat list \<Rightarrow> u8 list list \<times> nat \<Rightarrow> u8 list list \<times> nat" where
  "eliminate_columns k [] st = st"
| "eliminate_columns k (col # cols) st =
     (case eliminate_column k col st of
        (mat, rank) \<Rightarrow> if rank = length mat \<and> rank \<noteq> snd st then (mat, rank) else eliminate_columns k cols (mat, rank))"

definition gf_gauss_eliminate :: "simd \<Rightarrow> u8 list list \<Rightarrow> nat \<Rightarrow> nat \<Rightarrow> u8 list list \<times> nat" where
  "gf_gauss_eliminate k mat row_len cols =
     (if row_len = 0 then (mat, 0) else eliminate_columns k [0..<cols] (mat, 0))"

lemma eliminate_column_alt:
  "eliminate_column k col (mat, rank) =
     (case find_pivot mat rank col of
        None \<Rightarrow> (mat, rank)
      | Some p \<Rightarrow>
          (let mat = swap_rows rank p mat;
               prow = map (gf_mul (gf_inv (mat ! rank ! col))) (mat ! rank)
           in (clear_column k rank col prow (mat[rank := prow]), rank + 1)))"
  if "\<forall>p. find_pivot mat rank col = Some p \<longrightarrow> swap_rows rank p mat ! rank ! col \<noteq> 0"
  using that by (cases "find_pivot mat rank col") (simp_all add: eliminate_column_def Let_def gf_scal_slice_eq gf_inv_def)

lemma find_pivotD:
  assumes "find_pivot mat rank col = Some p"
  shows "rank \<le> p" and "p < length mat" and "mat ! p ! col \<noteq> 0"
  using assms by (auto simp: find_pivot_def find_Some_iff)

lemma swap_rows_nth:
  assumes "i < length mat" and "j < length mat"
  shows "swap_rows i j mat ! r = (if r = i then mat ! j else if r = j then mat ! i else mat ! r)"
  using assms by (auto simp: swap_rows_def nth_list_update)

lemma length_swap_rows [simp]: "length (swap_rows i j mat) = length mat"
  by (simp add: swap_rows_def)

lemma clear_column_nth:
  assumes "rank < length mat" and "col < length prow"
  shows "length (clear_column k rank col prow mat) = length mat \<and>
    (\<forall>r < length mat. clear_column k rank col prow mat ! r =
       (if r = rank \<or> mat ! r ! col = 0 then mat ! r else axpy_ref (mat ! r ! col) prow (mat ! r)))"
proof -
  let ?f = "\<lambda>r row. if r = rank \<or> row ! col = 0 then row else axpy_ref (row ! col) prow row"
  have step: "(if r = rank \<or> m ! r ! col = 0 then m else m[r := gf_axpy_slice k (m ! r ! col) prow (m ! r)]) = m[r := ?f r (m ! r)]" for r m
    by (simp add: gf_axpy_slice_eq list_update_id)
  show ?thesis
    unfolding clear_column_def step
    using fold_update_length [where f = ?f] fold_update_nth [where f = ?f, of "[0..<length mat]" mat] by auto
qed

text \<open>
  One column, when a pivot is found: the rows trade places, the pivot row is scaled to a leading one, and a multiple
  of it is added to every other row.
\<close>

lemma eliminate_column_pivot:
  assumes "find_pivot mat rank col = Some p" and "rank < length mat" and "col < length (mat ! p)"
  obtains prow mat' where "eliminate_column k col (mat, rank) = (mat', rank + 1)" and "length mat' = length mat"
    and "prow = map (gf_mul (gf_inv (mat ! p ! col))) (mat ! p)"
    and "mat' ! rank = prow"
    and "\<And>r. r < length mat \<Longrightarrow> r \<noteq> rank \<Longrightarrow>
      mat' ! r = (let row = (if r = p then mat ! rank else mat ! r) in if row ! col = 0 then row else axpy_ref (row ! col) prow row)"
proof -
  note p = find_pivotD [OF assms(1)]
  let ?s = "swap_rows rank p mat"
  let ?prow = "map (gf_mul (gf_inv (mat ! p ! col))) (mat ! p)"
  let ?m = "?s[rank := ?prow]"
  have s: "?s ! rank = mat ! p" using swap_rows_nth [OF assms(2) p(2)] by simp
  have "\<forall>q. find_pivot mat rank col = Some q \<longrightarrow> swap_rows rank q mat ! rank ! col \<noteq> 0"
    using assms(1) p(3) s by simp
  from eliminate_column_alt [OF this] have e: "eliminate_column k col (mat, rank) = (clear_column k rank col ?prow ?m, rank + 1)"
    by (simp add: assms(1) Let_def s)
  have c: "length (clear_column k rank col ?prow ?m) = length mat"
    "\<And>r. r < length mat \<Longrightarrow> clear_column k rank col ?prow ?m ! r =
       (if r = rank \<or> ?m ! r ! col = 0 then ?m ! r else axpy_ref (?m ! r ! col) ?prow (?m ! r))"
    using clear_column_nth [of rank ?m col ?prow k] assms by auto
  show thesis
  proof (rule that [OF e c(1) refl])
    show "clear_column k rank col ?prow ?m ! rank = ?prow" using c(2) [OF assms(2)] assms(2) by simp
    fix r assume r: "r < length mat" "r \<noteq> rank"
    then have "?m ! r = (if r = p then mat ! rank else mat ! r)" using swap_rows_nth [OF assms(2) p(2), of r] by simp
    then show "clear_column k rank col ?prow ?m ! r =
      (let row = (if r = p then mat ! rank else mat ! r) in if row ! col = 0 then row else axpy_ref (row ! col) ?prow row)"
      using c(2) [OF r(1)] r(2) by (simp add: Let_def)
  qed
qed

section \<open>Linear systems\<close>

primrec gf_sum :: "(nat \<Rightarrow> u8) \<Rightarrow> nat \<Rightarrow> u8" where
  "gf_sum f 0 = 0"
| "gf_sum f (Suc n) = xor (gf_sum f n) (f n)"

lemma gf_sum_cong: "(\<And>j. j < n \<Longrightarrow> f j = g j) \<Longrightarrow> gf_sum f n = gf_sum g n"
  by (induction n) simp_all

lemma gf_sum_xor: "gf_sum (\<lambda>j. xor (f j) (g j)) n = xor (gf_sum f n) (gf_sum g n)"
  by (induction n) (simp_all add: ac_simps)

lemma gf_sum_mul: "gf_mul a (gf_sum f n) = gf_sum (\<lambda>j. gf_mul a (f j)) n"
  by (induction n) (simp_all add: gf_mul_distrib)

lemma gf_sum_zero: "(\<And>j. j < n \<Longrightarrow> f j = 0) \<Longrightarrow> gf_sum f n = 0"
  by (induction n) simp_all

lemma gf_sum_single: "i < n \<Longrightarrow> (\<And>j. j < n \<Longrightarrow> j \<noteq> i \<Longrightarrow> f j = 0) \<Longrightarrow> gf_sum f n = f i"
proof (induction n)
  case (Suc n)
  show ?case
  proof (cases "i = n")
    case True
    then have "gf_sum f n = 0" using Suc.prems by (intro gf_sum_zero) simp
    then show ?thesis using True by simp
  next
    case False
    then show ?thesis using Suc by simp
  qed
qed simp

lemma gf_sum_swap: "gf_sum (\<lambda>i. gf_sum (\<lambda>j. f i j) m) n = gf_sum (\<lambda>j. gf_sum (\<lambda>i. f i j) n) m"
  by (induction n) (simp_all add: gf_sum_xor gf_sum_zero)

text \<open>The product of the first \<open>n\<close> entries of a row with a vector.\<close>

definition row_dot :: "nat \<Rightarrow> u8 list \<Rightarrow> (nat \<Rightarrow> u8) \<Rightarrow> u8" where
  "row_dot n row v = gf_sum (\<lambda>j. gf_mul (row ! j) (v j)) n"

lemma gf_mul_distrib_left: "gf_mul (xor a b) c = xor (gf_mul a c) (gf_mul b c)"
  using gf_mul_distrib [of c a b] by (simp add: gf_mul_commute)

lemma row_dot_scal:
  assumes "n \<le> length row"
  shows "row_dot n (map (gf_mul a) row) v = gf_mul a (row_dot n row v)"
  unfolding row_dot_def gf_sum_mul by (rule gf_sum_cong) (use assms in \<open>simp add: gf_mul_assoc\<close>)

lemma row_dot_axpy:
  assumes "n \<le> length row" and "length src = length row"
  shows "row_dot n (axpy_ref a src row) v = xor (row_dot n row v) (gf_mul a (row_dot n src v))"
  unfolding row_dot_def gf_sum_mul gf_sum_xor [symmetric]
  by (rule gf_sum_cong) (use assms in \<open>simp add: axpy_ref_def gf_mul_distrib_left gf_mul_assoc\<close>)

text \<open>
  What elimination needs of a property of rows to keep it on every row: it is closed under scaling a row and under
  adding a multiple of one row to another. All rows have the length \<open>len\<close>.
\<close>

locale row_property =
  fixes P :: "u8 list \<Rightarrow> bool" and len :: nat
  assumes P_length: "P row \<Longrightarrow> length row = len"
    and P_scal: "P row \<Longrightarrow> P (map (gf_mul a) row)"
    and P_axpy: "P src \<Longrightarrow> P row \<Longrightarrow> P (axpy_ref a src row)"
begin

lemma eliminate_column_keeps:
  assumes "\<forall>r < length mat. P (mat ! r)" and "col < len" and "eliminate_column k col (mat, rank) = (mat', rank')"
  shows "length mat' = length mat \<and> (\<forall>r < length mat. P (mat' ! r))"
proof (cases "find_pivot mat rank col")
  case None
  then show ?thesis using assms by (simp add: eliminate_column_def)
next
  case (Some p)
  note piv = find_pivotD [OF Some]
  have rank: "rank < length mat" using piv by simp
  have col: "col < length (mat ! p)" using assms(1,2) piv P_length by auto
  show ?thesis
  proof (rule eliminate_column_pivot [OF Some rank col, of k])
    fix prow m assume m: "eliminate_column k col (mat, rank) = (m, rank + 1)" "length m = length mat"
      "prow = map (gf_mul (gf_inv (mat ! p ! col))) (mat ! p)" "m ! rank = prow"
      and other: "\<And>r. r < length mat \<Longrightarrow> r \<noteq> rank \<Longrightarrow>
        m ! r = (let row = (if r = p then mat ! rank else mat ! r) in if row ! col = 0 then row else axpy_ref (row ! col) prow row)"
    have prow: "P prow" using assms(1) piv P_scal by (simp add: m(3))
    have "P (m ! r)" if "r < length mat" for r
      using other [OF that] prow m(4) assms(1) that rank P_axpy by (cases "r = rank") (auto simp: Let_def)
    then show ?thesis using m assms(3) by simp
  qed
qed

lemma eliminate_columns_keeps:
  assumes "\<forall>r < length mat. P (mat ! r)" and "\<forall>col \<in> set cols. col < len"
    and "eliminate_columns k cols (mat, rank) = (mat', rank')"
  shows "length mat' = length mat \<and> (\<forall>r < length mat. P (mat' ! r))"
  using assms
proof (induction cols arbitrary: mat rank)
  case (Cons col cols)
  obtain m r where e: "eliminate_column k col (mat, rank) = (m, r)" by fastforce
  have m: "length m = length mat \<and> (\<forall>r < length mat. P (m ! r))"
    using eliminate_column_keeps [OF Cons.prems(1) _ e] Cons.prems(2) by simp
  show ?case
  proof (cases "r = length m \<and> r \<noteq> rank")
    case True
    then show ?thesis using Cons.prems(3) m by (simp add: e)
  next
    case False
    then have "eliminate_columns k cols (m, r) = (mat', rank')" using Cons.prems(3) by (simp add: e) (auto split: if_splits)
    then show ?thesis using Cons.IH [of m r] m Cons.prems(2) by simp
  qed
qed simp

lemma gauss_keeps:
  assumes "\<forall>r < length mat. P (mat ! r)" and "cols \<le> len" and "gf_gauss_eliminate k mat len cols = (mat', rank')"
  shows "length mat' = length mat \<and> (\<forall>r < length mat. P (mat' ! r))"
  using assms eliminate_columns_keeps [of mat "[0..<cols]" k 0 mat' rank'] by (auto simp: gf_gauss_eliminate_def split: if_splits)

end

interpretation any_row: row_property "\<lambda>row. length row = len" len for len
  by unfold_locales (simp_all add: axpy_ref_def)

text \<open>The rows that a vector \<open>v\<close> solves: the entry behind the first \<open>n\<close> is the product of those with \<open>v\<close>.\<close>

interpretation solved: row_property "\<lambda>row. length row = n + s \<and> (\<forall>t < s. row ! (n + t) = row_dot n row (\<lambda>j. X j t))" "n + s" for n s X
proof
  fix row a
  assume r: "length row = n + s \<and> (\<forall>t < s. row ! (n + t) = row_dot n row (\<lambda>j. X j t))"
  then show "length (map (gf_mul a) row) = n + s \<and>
      (\<forall>t < s. map (gf_mul a) row ! (n + t) = row_dot n (map (gf_mul a) row) (\<lambda>j. X j t))"
    by (simp add: row_dot_scal)
next
  fix src row a
  assume "length src = n + s \<and> (\<forall>t < s. src ! (n + t) = row_dot n src (\<lambda>j. X j t))"
    and "length row = n + s \<and> (\<forall>t < s. row ! (n + t) = row_dot n row (\<lambda>j. X j t))"
  then show "length (axpy_ref a src row) = n + s \<and>
      (\<forall>t < s. axpy_ref a src row ! (n + t) = row_dot n (axpy_ref a src row) (\<lambda>j. X j t))"
    by (simp add: row_dot_axpy) (simp add: axpy_ref_def)
qed simp

section \<open>Elimination can be undone\<close>

lemma axpy_ref_twice: "length src = length row \<Longrightarrow> axpy_ref a src (axpy_ref a src row) = row"
  by (rule nth_equalityI) (simp_all add: axpy_ref_def xor.assoc)

lemma scal_undo: "a \<noteq> 0 \<Longrightarrow> map (gf_mul a) (map (gf_mul (gf_inv a)) row) = row"
  by (simp add: map_idI comp_def gf_mul_assoc [symmetric] gf_inv_right)

context row_property
begin

lemma eliminate_column_reflects:
  assumes "\<forall>r < length mat. length (mat ! r) = len" and "col < len" and "eliminate_column k col (mat, rank) = (mat', rank')"
    and "\<forall>r < length mat'. P (mat' ! r)"
  shows "\<forall>r < length mat. P (mat ! r)"
proof (cases "find_pivot mat rank col")
  case None
  then show ?thesis using assms by (simp add: eliminate_column_def)
next
  case (Some p)
  note piv = find_pivotD [OF Some]
  have rank: "rank < length mat" using piv by simp
  have col: "col < length (mat ! p)" using assms(1,2) piv by auto
  show ?thesis
  proof (rule eliminate_column_pivot [OF Some rank col, of k])
    fix prow m assume m: "eliminate_column k col (mat, rank) = (m, rank + 1)" "length m = length mat"
      "prow = map (gf_mul (gf_inv (mat ! p ! col))) (mat ! p)" "m ! rank = prow"
      and other: "\<And>r. r < length mat \<Longrightarrow> r \<noteq> rank \<Longrightarrow>
        m ! r = (let row = (if r = p then mat ! rank else mat ! r) in if row ! col = 0 then row else axpy_ref (row ! col) prow row)"
    have all: "P (m ! r)" if "r < length mat" for r using that assms(3,4) m(1,2) by auto
    have prow: "P prow" using all [OF rank] m(4) by simp
    have "map (gf_mul (mat ! p ! col)) prow = mat ! p" using scal_undo [OF piv(3)] by (simp add: m(3))
    then have at_p: "P (mat ! p)" using P_scal [OF prow, of "mat ! p ! col"] by simp
    have undo: "P row" if row: "length row = len" "P (if row ! col = 0 then row else axpy_ref (row ! col) prow row)" for row
      using row P_axpy [OF prow, of "axpy_ref (row ! col) prow row" "row ! col"] axpy_ref_twice [of prow row] P_length [OF prow]
      by (simp split: if_splits)
    show ?thesis
    proof (intro allI impI)
      fix r assume r: "r < length mat"
      show "P (mat ! r)"
      proof (cases "r = p")
        case True
        then show ?thesis using at_p by simp
      next
        case False
        show ?thesis
        proof (cases "r = rank")
          case True
          then have "p \<noteq> rank" using False by simp
          then show ?thesis using other [OF piv(2)] all [OF piv(2)] undo [of "mat ! rank"] assms(1) rank True by (simp add: Let_def)
        next
          case ne: False
          then show ?thesis using other [OF r ne] all [OF r] undo [of "mat ! r"] assms(1) r False by (simp add: Let_def)
        qed
      qed
    qed
  qed
qed

end

section \<open>Reduced form\<close>

definition reduced :: "nat \<Rightarrow> u8 list list \<Rightarrow> bool" where
  "reduced c mat \<longleftrightarrow> c \<le> length mat \<and> (\<forall>r < length mat. \<forall>j < c. mat ! r ! j = (if r = j then 1 else 0))"

lemma eliminate_column_reduced:
  assumes red: "reduced c mat" and len: "\<forall>r < length mat. length (mat ! r) = len" and "c < len"
    and piv: "find_pivot mat c c = Some p" and e: "eliminate_column k c (mat, c) = (mat', rank')"
  shows "rank' = Suc c \<and> reduced (Suc c) mat'"
proof -
  note p = find_pivotD [OF piv]
  have c: "c < length mat" using p by simp
  have col: "c < length (mat ! p)" using len p assms(3) by simp
  have zero: "mat ! r ! j = (if r = j then 1 else 0)" if "r < length mat" "j < c" for r j
    using red that by (simp add: reduced_def)
  show ?thesis
  proof (rule eliminate_column_pivot [OF piv c col, of k])
    fix prow m assume m: "eliminate_column k c (mat, c) = (m, c + 1)" "length m = length mat"
      "prow = map (gf_mul (gf_inv (mat ! p ! c))) (mat ! p)" "m ! c = prow"
      and other: "\<And>r. r < length mat \<Longrightarrow> r \<noteq> c \<Longrightarrow>
        m ! r = (let row = (if r = p then mat ! c else mat ! r) in if row ! c = 0 then row else axpy_ref (row ! c) prow row)"
    have plen: "length prow = len" using len p by (simp add: m(3))
    have pj: "prow ! j = 0" if "j < c" for j using that zero [OF p(2) that] p(1) plen len p(2) assms(3) by (simp add: m(3))
    have pc: "prow ! c = 1" using p(3) col gf_inv_right [OF p(3)] by (simp add: m(3) gf_mul_commute)
    have "m ! r ! j = (if r = j then 1 else 0)" if r: "r < length mat" and j: "j < Suc c" for r j
    proof (cases "r = c")
      case True
      then show ?thesis using m(4) pj pc j by (cases "j = c") auto
    next
      case False
      define row where "row = (if r = p then mat ! c else mat ! r)"
      have rlen: "length row = len" using len r c by (simp add: row_def)
      have mr: "m ! r = (if row ! c = 0 then row else axpy_ref (row ! c) prow row)"
        using other [OF r False] by (simp add: row_def Let_def)
      have at_c: "m ! r ! c = 0" using mr rlen plen assms(3) pc by (auto simp: axpy_ref_def)
      have below: "m ! r ! j = row ! j" if "j < c" using that mr rlen plen assms(3) pj [OF that] by (auto simp: axpy_ref_def)
      have "row ! j = (if r = j then 1 else 0)" if "j < c"
        using zero [OF r that] zero [OF c that] that p(1) by (auto simp: row_def)
      then show ?thesis using at_c below False j by (cases "j = c") auto
    qed
    then show ?thesis using m e c by (auto simp: reduced_def)
  qed
qed

text \<open>With no pivot left in column \<open>c\<close>, some nonzero vector is orthogonal to every row.\<close>

definition kernel_vector :: "nat \<Rightarrow> u8 list list \<Rightarrow> nat \<Rightarrow> u8" where
  "kernel_vector c mat j = (if j < c then mat ! j ! c else if j = c then 1 else 0)"

lemma kernel_vector_zero:
  assumes "reduced c mat" and "c < n" and "\<forall>r < length mat. c \<le> r \<longrightarrow> mat ! r ! c = 0" and "r < length mat"
  shows "row_dot n (mat ! r) (kernel_vector c mat) = 0"
proof -
  have row: "mat ! r ! j = (if r = j then 1 else 0)" if "j < c" for j using assms(1,4) that by (simp add: reduced_def)
  let ?f = "\<lambda>j. gf_mul (mat ! r ! j) (kernel_vector c mat j)"
  have split: "gf_sum ?f m = xor (gf_sum ?f c) (if c < m then mat ! r ! c else 0)" if "c \<le> m" for m
    using that
  proof (induction m rule: nat_induct_at_least)
    case (Suc m)
    then show ?case by (cases "m = c") (auto simp: kernel_vector_def)
  qed simp
  have "gf_sum ?f c = (if r < c then mat ! r ! c else 0)"
  proof (cases "r < c")
    case True
    have "gf_sum ?f c = ?f r" by (rule gf_sum_single [OF True]) (simp add: row)
    then show ?thesis using True row [OF True] by (simp add: kernel_vector_def)
  next
    case False
    have "gf_sum ?f c = 0" using row False by (intro gf_sum_zero) auto
    then show ?thesis using False by simp
  qed
  then show ?thesis using split [of n] assms(2,3,4) by (auto simp: row_dot_def)
qed

lemma find_pivot_None: "find_pivot mat c c = None \<Longrightarrow> \<forall>r < length mat. c \<le> r \<longrightarrow> mat ! r ! c = 0"
  by (auto simp: find_pivot_def find_None_iff)

lemma eliminate_columns_rank: "snd (eliminate_columns k cols st) \<le> snd st + length cols"
proof (induction cols arbitrary: st)
  case (Cons col cols)
  obtain mat rank where st: "st = (mat, rank)" by (cases st)
  obtain m r where e: "eliminate_column k col st = (m, r)" by fastforce
  then have "r \<le> Suc rank" by (auto simp: st eliminate_column_def Let_def split: option.splits)
  moreover have "snd (eliminate_columns k (col # cols) st) = (if r = length m \<and> r \<noteq> rank then r else snd (eliminate_columns k cols (m, r)))"
    using e by (simp add: st)
  ultimately show ?case using Cons.IH [of "(m, r)"] by (simp add: st split: if_splits)
qed simp

text \<open>The vectors that every row maps to zero.\<close>

interpretation kernel: row_property "\<lambda>row. length row = len \<and> n \<le> len \<and> row_dot n row v = 0" len for n v len
  by unfold_locales (simp_all add: row_dot_scal row_dot_axpy axpy_ref_def [of _ _ _, THEN arg_cong [of _ _ length]])

definition has_kernel :: "nat \<Rightarrow> u8 list list \<Rightarrow> bool" where
  "has_kernel n mat \<longleftrightarrow> (\<exists>v. (\<exists>j < n. v j \<noteq> 0) \<and> (\<forall>r < length mat. row_dot n (mat ! r) v = 0))"

lemma kernel_found:
  assumes "reduced c mat" and "c < n" and "\<forall>r < length mat. c \<le> r \<longrightarrow> mat ! r ! c = 0"
  shows "has_kernel n mat"
proof -
  have "kernel_vector c mat c \<noteq> 0" by (simp add: kernel_vector_def)
  then show ?thesis using kernel_vector_zero [OF assms] assms(2) unfolding has_kernel_def by blast
qed

lemma kernel_reflected:
  assumes "has_kernel n mat'" and "n \<le> len" and "\<forall>r < length mat. length (mat ! r) = len" and "col < len"
    and e: "eliminate_column k col (mat, rank) = (mat', rank')"
  shows "has_kernel n mat"
proof -
  obtain v where v: "\<exists>j < n. v j \<noteq> 0" "\<forall>r < length mat'. row_dot n (mat' ! r) v = 0"
    using assms(1) by (auto simp: has_kernel_def)
  have len': "length mat' = length mat \<and> (\<forall>r < length mat. length (mat' ! r) = len)"
    by (rule any_row.eliminate_column_keeps [OF assms(3,4) e])
  have "\<forall>r < length mat. length (mat ! r) = len \<and> n \<le> len \<and> row_dot n (mat ! r) v = 0"
    by (rule kernel.eliminate_column_reflects [OF assms(3,4) e]) (use len' v assms(2) in simp)
  then show ?thesis using v(1) by (auto simp: has_kernel_def)
qed

lemma eliminate_columns_spec:
  assumes "reduced c mat" and "\<forall>r < length mat. length (mat ! r) = len" and "n \<le> len" and "c \<le> n"
    and "eliminate_columns k [c..<n] (mat, c) = (mat', rank)"
  shows "rank \<le> n \<and> (rank = n \<longrightarrow> reduced n mat') \<and> (rank < n \<longrightarrow> has_kernel n mat)"
  using assms
proof (induction "n - c" arbitrary: c mat)
  case 0
  then show ?case by simp
next
  case (Suc d)
  have c: "c < n" using Suc.hyps(2) by simp
  have cols: "[c..<n] = c # [Suc c..<n]" using c by (simp add: upt_conv_Cons)
  show ?case
  proof (cases "find_pivot mat c c")
    case None
    then have e: "eliminate_column k c (mat, c) = (mat, c)" by (simp add: eliminate_column_def)
    have "has_kernel n mat" by (rule kernel_found [OF Suc.prems(1) c find_pivot_None [OF None]])
    moreover have "rank \<le> c + (n - Suc c)"
      using eliminate_columns_rank [of k "[Suc c..<n]" "(mat, c)"] Suc.prems(5) by (simp add: cols e)
    ultimately show ?thesis using c by auto
  next
    case (Some p)
    obtain m r where e: "eliminate_column k c (mat, c) = (m, r)" by fastforce
    have cl: "c < len" using c Suc.prems(3) by simp
    have r: "r = Suc c" and red: "reduced (Suc c) m"
      using eliminate_column_reduced [OF Suc.prems(1,2) cl Some e] by auto
    have len: "length m = length mat \<and> (\<forall>r < length mat. length (m ! r) = len)"
      by (rule any_row.eliminate_column_keeps [OF Suc.prems(2) cl e])
    show ?thesis
    proof (cases "r = length m")
      case True
      then have out: "mat' = m" "rank = Suc c" using Suc.prems(5) r by (auto simp: cols e)
      have "has_kernel n mat" if "Suc c < n"
        by (rule kernel_reflected [OF kernel_found [OF red that] Suc.prems(3,2) cl e]) (use True r in auto)
      then show ?thesis using out red c by (auto simp: le_less)
    next
      case False
      then have run: "eliminate_columns k [Suc c..<n] (m, Suc c) = (mat', rank)" using Suc.prems(5) r by (simp add: cols e)
      have "rank \<le> n \<and> (rank = n \<longrightarrow> reduced n mat') \<and> (rank < n \<longrightarrow> has_kernel n m)"
        by (rule Suc.hyps(1) [OF _ red _ _ _ run]) (use Suc.hyps(2) len Suc.prems(3) c in auto)
      then show ?thesis using kernel_reflected [OF _ Suc.prems(3,2) cl e] by blast
    qed
  qed
qed

lemma gauss_spec:
  assumes "\<forall>r < length mat. length (mat ! r) = len" and "n \<le> len" and "0 < len" and "gf_gauss_eliminate k mat len n = (mat', rank)"
  shows "rank \<le> n \<and> (rank = n \<longrightarrow> reduced n mat') \<and> (rank < n \<longrightarrow> has_kernel n mat)"
  using assms eliminate_columns_spec [of 0 mat len n k mat' rank] by (simp add: gf_gauss_eliminate_def reduced_def)

text \<open>A system with full rank gives back the vectors that solve it.\<close>

lemma gauss_solves:
  assumes rows: "\<forall>r < length mat. length (mat ! r) = n + s \<and> (\<forall>t < s. mat ! r ! (n + t) = row_dot n (mat ! r) (\<lambda>j. X j t))"
    and run: "gf_gauss_eliminate k mat (n + s) n = (mat', n)" and "0 < n"
  shows "length mat' = length mat \<and> n \<le> length mat \<and> (\<forall>r < n. \<forall>t < s. mat' ! r ! (n + t) = X r t) \<and>
    (\<forall>r < length mat. length (mat' ! r) = n + s \<and> (\<forall>j < n. mat' ! r ! j = (if r = j then 1 else 0)))"
proof -
  have kept: "length mat' = length mat \<and> (\<forall>r < length mat. length (mat' ! r) = n + s \<and>
      (\<forall>t < s. mat' ! r ! (n + t) = row_dot n (mat' ! r) (\<lambda>j. X j t)))"
    by (rule solved.gauss_keeps [OF rows _ run]) simp
  have red: "reduced n mat'" using gauss_spec [OF _ _ _ run] rows assms(3) by auto
  have "row_dot n (mat' ! r) v = v r" if "r < n" for r v
  proof -
    have "row_dot n (mat' ! r) v = gf_mul (mat' ! r ! r) (v r)"
      unfolding row_dot_def by (rule gf_sum_single [OF that]) (use red that in \<open>auto simp: reduced_def\<close>)
    then show ?thesis using red that by (simp add: reduced_def)
  qed
  then show ?thesis using kept red by (auto simp: reduced_def)
qed

lemma gauss_kernel_rank:
  assumes "has_kernel n mat" and "\<forall>r < length mat. length (mat ! r) = len" and "n \<le> len" and "0 < len"
    and run: "gf_gauss_eliminate k mat len n = (mat', rank)"
  shows "rank < n"
proof -
  obtain v j where v: "j < n" "v j \<noteq> 0" "\<forall>r < length mat. row_dot n (mat ! r) v = 0" using assms(1) by (auto simp: has_kernel_def)
  have kept: "length mat' = length mat \<and> (\<forall>r < length mat. length (mat' ! r) = len \<and> n \<le> len \<and> row_dot n (mat' ! r) v = 0)"
    by (rule kernel.gauss_keeps [OF _ assms(3) run]) (use assms(2,3) v(3) in simp)
  have "rank \<noteq> n"
  proof
    assume "rank = n"
    then have red: "reduced n mat'" using gauss_spec [OF assms(2,3,4) run] by simp
    have "row_dot n (mat' ! j) v = gf_mul (mat' ! j ! j) (v j)"
      unfolding row_dot_def by (rule gf_sum_single [OF v(1)]) (use red v(1) in \<open>auto simp: reduced_def\<close>)
    then show False using red v(1,2) kept by (auto simp: reduced_def)
  qed
  then show ?thesis using gauss_spec [OF assms(2,3,4) run] by simp
qed

text \<open>
  Gaussian elimination of a system of \<open>n\<close> unknowns decides it: it reports rank \<open>n\<close> exactly when no nonzero vector is
  mapped to zero by every row, and then the payload of row \<open>r\<close> is the unknown \<open>r\<close> of every solution.
\<close>

theorem gauss_decides_system:
  assumes "\<forall>row \<in> set mat. length row = n + s \<and> (\<forall>t < s. row ! (n + t) = row_dot n row (\<lambda>j. X j t))"
    and "0 < n" and "gf_gauss_eliminate simd mat (n + s) n = (mat', rank)"
  shows "(rank = n \<longleftrightarrow> \<not> has_kernel n mat) \<and> (rank = n \<longrightarrow> (\<forall>r < n. \<forall>t < s. mat' ! r ! (n + t) = X r t))"
proof -
  have rows: "\<forall>r < length mat. length (mat ! r) = n + s \<and> (\<forall>t < s. mat ! r ! (n + t) = row_dot n (mat ! r) (\<lambda>j. X j t))"
    using assms(1) by simp
  then have len: "\<forall>r < length mat. length (mat ! r) = n + s" by simp
  have "rank \<le> n" "rank < n \<longrightarrow> has_kernel n mat" using gauss_spec [OF len _ _ assms(3)] assms(2) by auto
  moreover have "rank < n" if "has_kernel n mat" by (rule gauss_kernel_rank [OF that len _ _ assms(3)]) (use assms(2) in auto)
  moreover have "\<forall>r < n. \<forall>t < s. mat' ! r ! (n + t) = X r t" if "rank = n"
    using gauss_solves [OF rows _ assms(2)] assms(3) that by blast
  ultimately show ?thesis by (auto simp: le_less)
qed

theorem gauss_decides_system_witness:
  "case gf_gauss_eliminate NoSimd [[1, 7]] (1 + 1) 1 of (mat, rank) \<Rightarrow> rank = 1 \<and> mat ! 0 ! 1 = 7"
proof -
  have ker: "\<not> has_kernel 1 [[1, 7]]" by (auto simp: has_kernel_def row_dot_def)
  obtain mat rank where run: "gf_gauss_eliminate NoSimd [[1, 7]] (1 + 1) 1 = (mat, rank)" by fastforce
  have "(rank = 1 \<longleftrightarrow> \<not> has_kernel 1 [[1, 7]]) \<and> (rank = 1 \<longrightarrow> (\<forall>r < 1. \<forall>t < 1. mat ! r ! (1 + t) = 7))"
    by (rule gauss_decides_system [where X = "\<lambda>_ _. 7", OF _ _ run]) (simp_all add: row_dot_def)
  then show ?thesis using ker run by simp
qed

end
