(* ===== verification/Reed_Solomon.thy ===== *)
theory Reed_Solomon
  imports GF_Elimination
begin

text \<open>
  \<open>integrations/dlr/crates/coding/src/rs.rs\<close>: systematic Reed-Solomon codes over the field with 256 elements. The cache
  of generators is transparent and left out. A panic is \<open>None\<close>.
\<close>

section \<open>The generator\<close>

datatype rs_error =
    RsEmpty
  | RsSizeMismatch nat nat
  | RsInsufficient nat nat

text \<open>One row of the Vandermonde matrix: the powers of \<open>alpha\<close>, from \<open>pow\<close> on.\<close>

fun powers :: "nat \<Rightarrow> u8 \<Rightarrow> u8 \<Rightarrow> u8 list" where
  "powers 0 pow alpha = []"
| "powers (Suc n) pow alpha = pow # powers n (gf_mul pow alpha) alpha"

definition vandermonde :: "nat \<Rightarrow> nat \<Rightarrow> u8 list list" where
  "vandermonde n k = map (\<lambda>i. powers k 1 (word_of_nat (i + 1))) [0..<n]"

text \<open>\<open>[a | I]\<close>.\<close>

definition augment :: "u8 list list \<Rightarrow> nat \<Rightarrow> u8 list list" where
  "augment a k = map (\<lambda>i. a ! i @ (replicate k 0)[i := 1]) [0..<length a]"

text \<open>One round of the loop of \<open>invert_matrix\<close>; \<open>col\<close> advances whether or not a pivot is found.\<close>

definition invert_step :: "simd \<Rightarrow> nat \<Rightarrow> nat \<Rightarrow> u8 list list \<times> nat \<Rightarrow> u8 list list \<times> nat" where
  "invert_step simd k r st =
     (case st of (rows, col) \<Rightarrow>
        (case find (\<lambda>rr. rows ! rr ! col \<noteq> 0) [r..<k] of
           None \<Rightarrow> (rows, col + 1)
         | Some p \<Rightarrow>
             (let rows = swap_rows r p rows;
                  prow = gf_scal_slice simd (gf_inv (rows ! r ! col)) (rows ! r)
              in (clear_column simd r col prow (rows[r := prow]), col + 1))))"

definition invert_matrix :: "simd \<Rightarrow> u8 list list \<Rightarrow> nat \<Rightarrow> u8 list list" where
  "invert_matrix simd a k = map (drop k) (fst (fold (invert_step simd k) [0..<k] (augment a k, 0)))"

definition build_generator :: "simd \<Rightarrow> nat \<Rightarrow> nat \<Rightarrow> u8 list list" where
  "build_generator simd k m =
     (let n = k + m; v = vandermonde n k; inv = invert_matrix simd (take k v) k
      in map (\<lambda>j. (replicate k 0)[j := 1]) [0..<k]
         @ map (\<lambda>i. map (\<lambda>j. fold (\<lambda>t acc. xor acc (gf_mul (v ! (k + i) ! t) (inv ! t ! j))) [0..<k] 0) [0..<k]) [0..<m])"

section \<open>Encoding and decoding\<close>

record rs_encoder =
  rs_g :: "u8 list list"
  rs_k :: nat
  rs_n :: nat
  rs_symbol_size :: nat

definition rs_encoder_new :: "simd \<Rightarrow> nat \<Rightarrow> nat \<Rightarrow> nat \<Rightarrow> rs_error + rs_encoder" where
  "rs_encoder_new simd k m symbol_size =
     (if k = 0 then Inl RsEmpty
      else Inr \<lparr>rs_g = build_generator simd k m, rs_k = k, rs_n = k + m, rs_symbol_size = symbol_size\<rparr>)"

definition parity_symbol :: "simd \<Rightarrow> nat \<Rightarrow> u8 list list \<Rightarrow> u8 list \<Rightarrow> u8 list" where
  "parity_symbol simd symbol_size data row =
     fold (\<lambda>j out. if row ! j = 0 then out else gf_axpy_slice simd (row ! j) (data ! j) out) [0..<length data] (replicate symbol_size 0)"

definition rs_encode :: "simd \<Rightarrow> rs_encoder \<Rightarrow> u8 list list \<Rightarrow> rs_error + u8 list list" where
  "rs_encode simd e data =
     (if length data \<noteq> rs_k e then Inl (RsSizeMismatch (length data) (rs_k e))
      else case find (\<lambda>d. length d \<noteq> rs_symbol_size e) data of
        Some d \<Rightarrow> Inl (RsSizeMismatch (length d) (rs_symbol_size e))
      | None \<Rightarrow> Inr (data @ map (\<lambda>i. parity_symbol simd (rs_symbol_size e) data (rs_g e ! i)) [rs_k e..<rs_n e]))"

text \<open>The extraction after elimination: a row with its first nonzero entry in column \<open>piv\<close> is symbol \<open>piv\<close>.\<close>

definition place_row :: "nat \<Rightarrow> nat \<Rightarrow> u8 list \<Rightarrow> u8 list list \<Rightarrow> u8 list list" where
  "place_row k symbol_size r out =
     (case find (\<lambda>piv. r ! piv \<noteq> 0) [0..<k] of
        Some piv \<Rightarrow> out[piv := take symbol_size (drop k r)]
      | None \<Rightarrow> out)"

definition rs_decode ::
    "simd \<Rightarrow> nat \<Rightarrow> nat \<Rightarrow> nat \<Rightarrow> (nat \<times> u8 list) list \<Rightarrow> (rs_error + u8 list list) option" where
  "rs_decode simd k m symbol_size survived =
     (if length survived < k then Some (Inl (RsInsufficient (length survived) k))
      else let g = build_generator simd k m; rows_in = take k survived; row_len = k + symbol_size
           in if \<exists>(idx, sym) \<in> set rows_in. \<not> (idx < k + m \<and> length sym = symbol_size) then None
              else (case gf_gauss_eliminate simd (map (\<lambda>(idx, sym). take k (g ! idx) @ sym) rows_in) row_len k of
                      (rows, rank) \<Rightarrow>
                        if rank < k then Some (Inl (RsInsufficient rank k))
                        else if row_len = 0 then None
                        else let out = fold (place_row k symbol_size) rows (replicate k [])
                             in if [] \<in> set out then Some (Inl (RsInsufficient rank k)) else Some (Inr out)))"

section \<open>Polynomials\<close>

fun poly_eval :: "u8 list \<Rightarrow> u8 \<Rightarrow> u8" where
  "poly_eval [] x = 0"
| "poly_eval (y # ys) x = xor y (gf_mul x (poly_eval ys x))"

text \<open>The quotient by \<open>x + a\<close>.\<close>

fun poly_quot :: "u8 \<Rightarrow> u8 list \<Rightarrow> u8 list" where
  "poly_quot a [] = []"
| "poly_quot a [y] = []"
| "poly_quot a (y # z # ys) = poly_eval (z # ys) a # poly_quot a (z # ys)"

lemma length_poly_quot [simp]: "length (poly_quot a ys) = length ys - 1"
  by (induction a ys rule: poly_quot.induct) simp_all

lemma poly_division: "poly_eval ys x = xor (gf_mul (xor x a) (poly_eval (poly_quot a ys) x)) (poly_eval ys a)"
proof (induction a ys rule: poly_quot.induct)
  case (3 a y z ys)
  let ?r = "poly_eval (z # ys)" and ?q = "poly_eval (poly_quot a (z # ys)) x"
  have "poly_eval (y # z # ys) x = xor y (gf_mul x (xor (gf_mul (xor x a) ?q) (?r a)))"
    by (simp only: poly_eval.simps(2) [of y] 3)
  also have "\<dots> = xor (gf_mul (xor x a) (xor (?r a) (gf_mul x ?q))) (xor y (gf_mul a (?r a)))"
  proof -
    have "gf_mul x (gf_mul (xor x a) ?q) = gf_mul (xor x a) (gf_mul x ?q)" by (metis gf_mul_assoc gf_mul_commute)
    moreover have "gf_mul (xor x a) (?r a) = xor (gf_mul x (?r a)) (gf_mul a (?r a))" by (rule gf_mul_distrib_left)
    ultimately show ?thesis by (simp only: gf_mul_distrib) (simp only: ac_simps xor.left_commute xor_self_eq xor.right_neutral
      xor.assoc, simp add: ac_simps)
  qed
  finally show ?case by simp
qed simp_all

lemma poly_quot_zero:
  assumes "\<forall>q \<in> set (poly_quot a ys). q = 0" and "poly_eval ys a = 0"
  shows "\<forall>y \<in> set ys. y = 0"
  using assms by (induction a ys rule: poly_quot.induct) auto

lemma gf_no_zero_divisors: "gf_mul a b = 0 \<Longrightarrow> a \<noteq> 0 \<Longrightarrow> b = 0"
  using gf_log_mul(1) by blast

lemma poly_roots:
  assumes "distinct as" and "length ys \<le> length as" and "\<forall>a \<in> set as. poly_eval ys a = 0"
  shows "\<forall>y \<in> set ys. y = 0"
  using assms
proof (induction as arbitrary: ys)
  case (Cons a as)
  have "poly_eval (poly_quot a ys) b = 0" if b: "b \<in> set as" for b
  proof -
    have "gf_mul (xor b a) (poly_eval (poly_quot a ys) b) = 0"
      using poly_division [of ys b a] Cons.prems(3) b by simp
    moreover have "xor b a \<noteq> 0"
    proof
      assume "xor b a = 0"
      then have "b = a" by (metis xor.assoc xor_self_eq xor.right_neutral xor.left_neutral)
      then show False using Cons.prems(1) b by simp
    qed
    ultimately show ?thesis by (rule gf_no_zero_divisors)
  qed
  then have "\<forall>q \<in> set (poly_quot a ys). q = 0" using Cons.IH [of "poly_quot a ys"] Cons.prems(1,2) by simp
  then show ?case by (rule poly_quot_zero) (use Cons.prems(3) in simp)
qed simp

section \<open>The Vandermonde rows\<close>

lemma length_powers [simp]: "length (powers n p a) = n"
  by (induction n arbitrary: p) simp_all

lemma gf_sum_front: "gf_sum f (Suc n) = xor (f 0) (gf_sum (\<lambda>j. f (Suc j)) n)"
  by (induction n) (simp_all add: xor.assoc)

lemma powers_dot: "gf_sum (\<lambda>j. gf_mul (powers n p a ! j) (y j)) n = gf_mul p (poly_eval (map y [0..<n]) a)"
proof (induction n arbitrary: p y)
  case (Suc n)
  have "gf_sum (\<lambda>j. gf_mul (powers (Suc n) p a ! j) (y j)) (Suc n) =
      xor (gf_mul p (y 0)) (gf_mul (gf_mul p a) (poly_eval (map (\<lambda>j. y (Suc j)) [0..<n]) a))"
    unfolding gf_sum_front using Suc [of "gf_mul p a" "\<lambda>j. y (Suc j)"] by simp
  also have "\<dots> = gf_mul p (poly_eval (map y [0..<Suc n]) a)"
    unfolding map_upt_Suc by (simp add: gf_mul_assoc gf_mul_distrib)
  finally show ?case .
qed simp

lemma vandermonde_dot:
  "i < n \<Longrightarrow> row_dot k (vandermonde n k ! i) y = poly_eval (map y [0..<k]) (word_of_nat (i + 1))"
  using powers_dot [of k 1 "word_of_nat (i + 1)" y] by (simp add: row_dot_def vandermonde_def)

lemma points_distinct: "distinct is \<Longrightarrow> \<forall>i \<in> set is. i < 256 \<Longrightarrow> distinct (map (\<lambda>i. word_of_nat (i + 1) :: u8) is)"
proof -
  assume "distinct is" and small: "\<forall>i \<in> set is. i < 256"
  have "inj_on (\<lambda>i. word_of_nat (i + 1) :: u8) (set is)"
  proof (rule inj_onI)
    fix i j assume ij: "i \<in> set is" "j \<in> set is" "(word_of_nat (i + 1) :: u8) = word_of_nat (j + 1)"
    then have "unat (word_of_nat (i + 1) :: u8) = unat (word_of_nat (j + 1) :: u8)" by simp
    then have "(i + 1) mod 256 = (j + 1) mod 256" by (simp add: unat_of_nat del: of_nat_Suc of_nat_add)
    moreover have "(x + 1) mod 256 = (if x = 255 then 0 else x + 1)" if "x < 256" for x :: nat using that by simp
    moreover have "i < 256" "j < 256" using small ij(1,2) by auto
    ultimately show "i = j" by (auto split: if_splits)
  qed
  then show ?thesis using \<open>distinct is\<close> by (simp add: distinct_map)
qed

text \<open>Any \<open>k\<close> rows with different indices determine the coefficients.\<close>

lemma vandermonde_zero:
  assumes "distinct is" and "length is = k" and "\<forall>i \<in> set is. i < n" and "\<forall>i \<in> set is. i < 256"
    and "\<forall>i \<in> set is. row_dot k (vandermonde n k ! i) y = 0" and "t < k"
  shows "y t = 0"
proof -
  let ?as = "map (\<lambda>i. word_of_nat (i + 1) :: u8) is"
  have d: "distinct ?as" using assms(1,4) by (intro points_distinct) auto
  have z: "\<forall>a \<in> set ?as. poly_eval (map y [0..<k]) a = 0"
    using assms(3,5) by (auto simp: vandermonde_dot simp del: of_nat_Suc of_nat_add)
  have "\<forall>c \<in> set (map y [0..<k]). c = 0" by (rule poly_roots [OF d _ z]) (use assms(2) in simp)
  then show ?thesis using assms(6) by auto
qed

section \<open>The inverse\<close>

lemma invert_step_eliminates:
  assumes "length rows = k" and "find_pivot rows r r = Some p"
  shows "invert_step simd k r (rows, r) = eliminate_column simd r (rows, r)"
proof -
  note p = find_pivotD [OF assms(2)]
  have "find (\<lambda>rr. rows ! rr ! r \<noteq> 0) [r..<k] = Some p" using assms by (simp add: find_pivot_def)
  moreover have "swap_rows r p rows ! r ! r \<noteq> 0"
    using p swap_rows_nth [of r rows p r] by simp
  ultimately show ?thesis
    using assms(2) by (simp add: invert_step_def eliminate_column_def Let_def gf_inv_def)
qed

context row_property
begin

lemma invert_loop:
  assumes "reduced c rows" and "\<forall>r < length rows. P (rows ! r)" and "length rows = k" and "k \<le> len" and "c \<le> k"
    and "\<not> has_kernel k rows"
  shows "\<exists>rows'. fold (invert_step simd k) [c..<k] (rows, c) = (rows', k) \<and> reduced k rows' \<and> length rows' = k \<and>
    (\<forall>r < k. P (rows' ! r))"
  using assms
proof (induction "k - c" arbitrary: c rows)
  case 0
  then show ?case by simp
next
  case (Suc d)
  have c: "c < k" using Suc.hyps(2) by simp
  have lens: "\<forall>r < length rows. length (rows ! r) = len" using Suc.prems(2) P_length by blast
  have cl: "c < len" using c Suc.prems(4) by simp
  obtain p where p: "find_pivot rows c c = Some p"
    using kernel_found [OF Suc.prems(1) c find_pivot_None] Suc.prems(6) by (cases "find_pivot rows c c") auto
  obtain m r where e: "eliminate_column simd c (rows, c) = (m, r)" by fastforce
  have r: "r = Suc c" and red: "reduced (Suc c) m" using eliminate_column_reduced [OF Suc.prems(1) lens cl p e] by auto
  have keep: "length m = length rows \<and> (\<forall>r < length rows. P (m ! r))"
    by (rule eliminate_column_keeps [OF Suc.prems(2) cl e])
  have ker: "\<not> has_kernel k m" using kernel_reflected [OF _ Suc.prems(4) lens cl e] Suc.prems(6) by blast
  have "\<exists>rows'. fold (invert_step simd k) [Suc c..<k] (m, Suc c) = (rows', k) \<and> reduced k rows' \<and> length rows' = k \<and>
      (\<forall>r < k. P (rows' ! r))"
    by (rule Suc.hyps(1)) (use Suc.hyps(2) keep red ker Suc.prems(3,4) c in auto)
  moreover have "fold (invert_step simd k) [c..<k] (rows, c) = fold (invert_step simd k) [Suc c..<k] (m, Suc c)"
    using c invert_step_eliminates [OF Suc.prems(3) p, of simd] e r by (simp add: upt_conv_Cons)
  ultimately show ?case by simp
qed

end

text \<open>Rows \<open>[a | b]\<close> in which \<open>b\<close> says how \<open>a\<close> is combined from the rows of \<open>V\<close>.\<close>

lemma drop_axpy_ref: "length src = length row \<Longrightarrow> drop k (axpy_ref a src row) = axpy_ref a (drop k src) (drop k row)"
  by (rule nth_equalityI) (auto simp: axpy_ref_def add.commute less_diff_conv)

interpretation combined: row_property "\<lambda>row. length row = k + k \<and> (\<forall>j < k. row ! j = row_dot k (drop k row) (\<lambda>t. V t j))" "k + k" for k V
proof
  fix row a assume "length row = k + k \<and> (\<forall>j < k. row ! j = row_dot k (drop k row) (\<lambda>t. V t j))"
  then show "length (map (gf_mul a) row) = k + k \<and> (\<forall>j < k. map (gf_mul a) row ! j = row_dot k (drop k (map (gf_mul a) row)) (\<lambda>t. V t j))"
    by (simp add: drop_map row_dot_scal)
next
  fix src row a
  assume "length src = k + k \<and> (\<forall>j < k. src ! j = row_dot k (drop k src) (\<lambda>t. V t j))"
    and "length row = k + k \<and> (\<forall>j < k. row ! j = row_dot k (drop k row) (\<lambda>t. V t j))"
  then show "length (axpy_ref a src row) = k + k \<and>
      (\<forall>j < k. axpy_ref a src row ! j = row_dot k (drop k (axpy_ref a src row)) (\<lambda>t. V t j))"
    by (simp add: drop_axpy_ref row_dot_axpy) (simp add: axpy_ref_def)
qed simp

lemma augment_nth: "i < length a \<Longrightarrow> length (a ! i) = k \<Longrightarrow> augment a k ! i = a ! i @ (replicate k 0)[i := 1]"
  by (simp add: augment_def)

lemma unit_dot: "i < k \<Longrightarrow> row_dot k ((replicate k 0)[i := 1]) v = v i"
  unfolding row_dot_def by (subst gf_sum_single [of i]) auto

lemma invert_left:
  assumes "length a = k" and "\<forall>i < k. length (a ! i) = k" and "\<not> has_kernel k a" and "r < k"
  shows "length (invert_matrix simd a k) = k \<and> length (invert_matrix simd a k ! r) = k \<and>
    (\<forall>j < k. row_dot k (invert_matrix simd a k ! r) (\<lambda>t. a ! t ! j) = (if r = j then 1 else 0))"
proof -
  let ?m = "augment a k"
  have rows: "\<forall>i < length ?m. length (?m ! i) = k + k \<and> (\<forall>j < k. ?m ! i ! j = row_dot k (drop k (?m ! i)) (\<lambda>t. a ! t ! j))"
    using assms(1,2) by (auto simp: augment_nth unit_dot nth_append augment_def [THEN arg_cong [of _ _ length]])
  have len: "length ?m = k" using assms(1) by (simp add: augment_def)
  have dots: "row_dot k (?m ! i) v = row_dot k (a ! i) v" if "i < k" for i v
    unfolding row_dot_def by (rule gf_sum_cong) (use that assms in \<open>simp add: augment_nth nth_append\<close>)
  then have ker: "\<not> has_kernel k ?m" using assms(1,3) len by (auto simp: has_kernel_def)
  have red: "reduced 0 ?m" by (simp add: reduced_def)
  obtain rows' where run: "fold (invert_step simd k) [0..<k] (?m, 0) = (rows', k)" and "reduced k rows'" "length rows' = k"
    and final: "\<forall>r < k. length (rows' ! r) = k + k \<and> (\<forall>j < k. rows' ! r ! j = row_dot k (drop k (rows' ! r)) (\<lambda>t. a ! t ! j))"
    using combined.invert_loop [OF red rows len _ _ ker, of simd] by auto
  then show ?thesis
    using assms(4) by (auto simp: invert_matrix_def run reduced_def)
qed

text \<open>A left inverse of a square matrix is a right inverse, since there are finitely many vectors.\<close>

lemma left_inverse_right:
  assumes len: "\<forall>r < k. \<forall>j < k. row_dot k (b r) (\<lambda>t. a t ! j) = (if r = j then 1 else 0)" and "i < k"
  shows "row_dot k (a i) (\<lambda>t. row_dot k (b t) x) = x i"
proof -
  let ?A = "{v :: nat \<Rightarrow> u8. \<forall>j. (j \<in> {..<k} \<longrightarrow> v j \<in> UNIV) \<and> (j \<notin> {..<k} \<longrightarrow> v j = 0)}"
  let ?f = "\<lambda>v i. if i < k then row_dot k (a i) v else 0"
  let ?g = "\<lambda>v i. if i < k then row_dot k (b i) v else 0"
  have undo: "row_dot k (b r) (?f v) = v r" if "r < k" for r v
  proof -
    have "row_dot k (b r) (?f v) = gf_sum (\<lambda>t. gf_mul (b r ! t) (row_dot k (a t) v)) k"
      unfolding row_dot_def [of k "b r"] by (rule gf_sum_cong) simp
    also have "\<dots> = gf_sum (\<lambda>t. gf_sum (\<lambda>j. gf_mul (gf_mul (b r ! t) (a t ! j)) (v j)) k) k"
      by (rule gf_sum_cong) (simp add: row_dot_def gf_sum_mul gf_mul_assoc)
    also have "\<dots> = gf_sum (\<lambda>j. gf_sum (\<lambda>t. gf_mul (gf_mul (b r ! t) (a t ! j)) (v j)) k) k" by (rule gf_sum_swap)
    also have "\<dots> = gf_sum (\<lambda>j. gf_mul (row_dot k (b r) (\<lambda>t. a t ! j)) (v j)) k"
      by (rule gf_sum_cong) (simp add: row_dot_def gf_mul_commute [of _ "v _"] gf_sum_mul)
    also have "\<dots> = gf_mul (row_dot k (b r) (\<lambda>t. a t ! r)) (v r)"
      by (rule gf_sum_single [OF that]) (use len that in auto)
    finally show ?thesis using len that by simp
  qed
  have "finite ?A" by (rule finite_set_of_finite_funs) simp_all
  moreover have "?f ` ?A \<subseteq> ?A" by auto
  moreover have "inj_on ?f ?A"
  proof (rule inj_onI)
    fix v w assume vw: "v \<in> ?A" "w \<in> ?A" "?f v = ?f w"
    show "v = w"
    proof
      fix j show "v j = w j" using undo [of j v] undo [of j w] vw by (cases "j < k") auto
    qed
  qed
  ultimately have onto: "?f ` ?A = ?A" by (rule endo_inj_surj)
  let ?x = "\<lambda>j. if j < k then x j else 0"
  have "?x \<in> ?f ` ?A" unfolding onto by simp
  then obtain v where v: "?f v = ?x" by auto
  have "row_dot k (b t) x = v t" if "t < k" for t
  proof -
    have "row_dot k (b t) x = row_dot k (b t) ?x" unfolding row_dot_def by (rule gf_sum_cong) simp
    also have "\<dots> = v t" using undo [OF that, of v] unfolding v .
    finally show ?thesis .
  qed
  then have "row_dot k (a i) (\<lambda>t. row_dot k (b t) x) = row_dot k (a i) v"
    unfolding row_dot_def [of k "a i"] by (intro gf_sum_cong) simp
  also have "\<dots> = x i" using fun_cong [OF v, of i] assms(2) by simp
  finally show ?thesis .
qed

section \<open>Any \<open>k\<close> symbols\<close>

lemma take_vandermonde: "k \<le> n \<Longrightarrow> t < k \<Longrightarrow> take k (vandermonde n k) ! t = vandermonde n k ! t"
  by simp

lemma vandermonde_shape [simp]: "length (vandermonde n k) = n" "i < n \<Longrightarrow> length (vandermonde n k ! i) = k"
  by (simp_all add: vandermonde_def)

lemma vandermonde_top_no_kernel:
  assumes "k \<le> n" and "k \<le> 256"
  shows "\<not> has_kernel k (take k (vandermonde n k))"
proof
  assume "has_kernel k (take k (vandermonde n k))"
  then obtain v j where j: "j < k" "v j \<noteq> 0" and z: "\<forall>r < k. row_dot k (vandermonde n k ! r) v = 0"
    using assms(1) by (auto simp: has_kernel_def)
  have "v j = 0" by (rule vandermonde_zero [of "[0..<k]" k n]) (use assms z j in auto)
  then show False using j by simp
qed

lemma generator_inverse:
  assumes "k \<le> n" and "k \<le> 256" and "i < k"
  shows "row_dot k (vandermonde n k ! i) (\<lambda>t. row_dot k (invert_matrix simd (take k (vandermonde n k)) k ! t) x) = x i"
proof (rule left_inverse_right [OF _ assms(3)], intro allI impI)
  fix r j assume "r < k" "j < k"
  let ?inv = "invert_matrix simd (take k (vandermonde n k)) k"
  have "row_dot k (?inv ! r) (\<lambda>t. vandermonde n k ! t ! j) = row_dot k (?inv ! r) (\<lambda>t. take k (vandermonde n k) ! t ! j)"
    unfolding row_dot_def by (rule gf_sum_cong) simp
  also have "\<dots> = (if r = j then 1 else 0)"
    using invert_left [OF _ _ vandermonde_top_no_kernel [OF assms(1,2)] \<open>r < k\<close>, of simd] assms(1) \<open>j < k\<close> by simp
  finally show "row_dot k (?inv ! r) (\<lambda>t. vandermonde n k ! t ! j) = (if r = j then 1 else 0)" .
qed

lemma fold_xor_sum: "fold (\<lambda>t acc. xor acc (f t)) [0..<n] 0 = gf_sum f n"
  by (induction n) simp_all

lemma generator_shape [simp]:
  "length (build_generator simd k m) = k + m" "i < k + m \<Longrightarrow> length (build_generator simd k m ! i) = k"
  by (auto simp: build_generator_def Let_def nth_append)

lemma generator_head: "i < k \<Longrightarrow> build_generator simd k m ! i = (replicate k 0)[i := 1]"
  by (simp add: build_generator_def Let_def nth_append)

lemma generator_dot:
  assumes "k \<le> 256" and "i < k + m"
  shows "row_dot k (build_generator simd k m ! i) x =
    row_dot k (vandermonde (k + m) k ! i) (\<lambda>t. row_dot k (invert_matrix simd (take k (vandermonde (k + m) k)) k ! t) x)"
proof (cases "i < k")
  case True
  then show ?thesis using generator_inverse [of k "k + m" i simd x] assms by (simp add: generator_head unit_dot)
next
  case False
  let ?v = "vandermonde (k + m) k ! i" and ?inv = "invert_matrix simd (take k (vandermonde (k + m) k)) k"
  have "build_generator simd k m ! i ! j = gf_sum (\<lambda>t. gf_mul (?v ! t) (?inv ! t ! j)) k" if "j < k" for j
    using that False assms(2) by (simp add: build_generator_def Let_def nth_append fold_xor_sum)
  then have "row_dot k (build_generator simd k m ! i) x = gf_sum (\<lambda>j. gf_sum (\<lambda>t. gf_mul (gf_mul (?v ! t) (?inv ! t ! j)) (x j)) k) k"
    unfolding row_dot_def by (intro gf_sum_cong) (simp add: gf_mul_commute [of _ "x _"] gf_sum_mul)
  also have "\<dots> = gf_sum (\<lambda>t. gf_sum (\<lambda>j. gf_mul (gf_mul (?v ! t) (?inv ! t ! j)) (x j)) k) k" by (rule gf_sum_swap)
  also have "\<dots> = row_dot k ?v (\<lambda>t. row_dot k (?inv ! t) x)"
    unfolding row_dot_def by (intro gf_sum_cong) (simp add: gf_sum_mul gf_mul_assoc)
  finally show ?thesis .
qed

lemma generator_independent:
  assumes "k + m \<le> 256" and "distinct is" and "length is = k" and "\<forall>i \<in> set is. i < k + m"
  shows "\<not> has_kernel k (map (\<lambda>i. build_generator simd k m ! i) is)"
proof
  assume "has_kernel k (map (\<lambda>i. build_generator simd k m ! i) is)"
  then obtain x j where j: "j < k" "x j \<noteq> 0" and z: "\<forall>r < k. row_dot k (build_generator simd k m ! (is ! r)) x = 0"
    using assms(3) by (auto simp: has_kernel_def)
  let ?y = "\<lambda>t. row_dot k (invert_matrix simd (take k (vandermonde (k + m) k)) k ! t) x"
  have "\<forall>i \<in> set is. row_dot k (vandermonde (k + m) k ! i) ?y = 0"
  proof
    fix i assume "i \<in> set is"
    then obtain r where "r < k" "i = is ! r" "i < k + m" using assms(3,4) in_set_conv_nth [of i "is"] by blast
    then show "row_dot k (vandermonde (k + m) k ! i) ?y = 0" using z generator_dot [of k i m simd x] assms(1) by simp
  qed
  then have y: "?y t = 0" if "t < k" for t
    by (rule vandermonde_zero [OF assms(2,3,4) _ _ that, rotated]) (use assms(1,4) in auto)
  have "x j = row_dot k (vandermonde (k + m) k ! j) ?y"
    using generator_inverse [of k "k + m" j simd x] assms(1) j(1) by simp
  also have "\<dots> = 0" unfolding row_dot_def [of k "vandermonde (k + m) k ! j"] by (rule gf_sum_zero) (simp add: y)
  finally show False using j by simp
qed

text \<open>A byte of a parity symbol is the product of the generator's row with the bytes of the data at that place.\<close>

lemma parity_symbol_nth:
  assumes "\<forall>d \<in> set data. length d = s"
  shows "length (parity_symbol simd s data row) = s \<and>
    (\<forall>t < s. parity_symbol simd s data row ! t = row_dot (length data) row (\<lambda>j. data ! j ! t))"
proof -
  let ?step = "\<lambda>j out. if row ! j = 0 then out else gf_axpy_slice simd (row ! j) (data ! j) out"
  have "length (fold ?step [0..<n] (replicate s 0)) = s \<and>
      (\<forall>t < s. fold ?step [0..<n] (replicate s 0) ! t = row_dot n row (\<lambda>j. data ! j ! t))" if "n \<le> length data" for n
    using that
  proof (induction n)
    case (Suc n)
    then show ?case using assms by (auto simp: gf_axpy_slice_eq axpy_ref_def row_dot_def)
  qed (simp add: row_dot_def)
  then show ?thesis unfolding parity_symbol_def by simp
qed

lemma encode_nth:
  assumes "rs_encode simd \<lparr>rs_g = build_generator simd k m, rs_k = k, rs_n = k + m, rs_symbol_size = s\<rparr> data = Inr cw"
    and "i < k + m"
  shows "length data = k \<and> (\<forall>d \<in> set data. length d = s) \<and> length (cw ! i) = s \<and>
    (\<forall>t < s. cw ! i ! t = row_dot k (build_generator simd k m ! i) (\<lambda>j. data ! j ! t))"
proof -
  from assms(1) have len: "length data = k" and none: "find (\<lambda>d. length d \<noteq> s) data = None"
    and cw: "cw = data @ map (\<lambda>i. parity_symbol simd s data (build_generator simd k m ! i)) [k..<k + m]"
    by (auto simp: rs_encode_def split: if_splits option.splits)
  have sz: "\<forall>d \<in> set data. length d = s" using none by (auto simp: find_None_iff)
  show ?thesis
  proof (cases "i < k")
    case True
    then show ?thesis using len sz by (simp add: cw nth_append generator_head unit_dot)
  next
    case False
    then obtain j where "i = k + j" "j < m" using assms(2) by (metis add_less_cancel_left le_add_diff_inverse not_less)
    then have "cw ! i = parity_symbol simd s data (build_generator simd k m ! i)" using len by (simp add: cw nth_append)
    then show ?thesis using parity_symbol_nth [OF sz, of simd "build_generator simd k m ! i"] len sz by simp
  qed
qed

lemma fold_place:
  assumes "\<forall>r < length rows. \<forall>out. place_row k s (rows ! r) out = out[r := f r]"
  shows "length (fold (place_row k s) rows out) = length out \<and>
    (\<forall>i < length out. fold (place_row k s) rows out ! i = (if i < length rows then f i else out ! i))"
  using assms
proof (induction rows rule: rev_induct)
  case (snoc row rows)
  have "\<forall>r < length rows. \<forall>out. place_row k s (rows ! r) out = out[r := f r]"
    using snoc.prems by (auto simp: nth_append split: if_splits)
  moreover have "place_row k s row out = out[length rows := f (length rows)]" for out
    using snoc.prems [rule_format, of "length rows"] by simp
  ultimately show ?case using snoc.IH by (auto simp: nth_list_update less_Suc_eq)
qed simp

lemma place_unit_row:
  assumes "\<forall>j < k. row ! j = (if r = j then 1 else 0)" and "r < k"
  shows "place_row k s row out = out[r := take s (drop k row)]"
proof -
  have "find (\<lambda>piv. row ! piv \<noteq> 0) [0..<k] = Some r"
    unfolding find_Some_iff by (rule exI [of _ r]) (use assms in auto)
  then show ?thesis by (simp add: place_row_def)
qed

text \<open>What \<open>decode\<close> extracts from a solved system.\<close>

lemma extract_solution:
  assumes "length mat = k" and "length data = k" and "\<forall>d \<in> set data. length d = s"
    and "\<forall>r < k. \<forall>t < s. mat ! r ! (k + t) = data ! r ! t"
    and "\<forall>r < k. length (mat ! r) = k + s \<and> (\<forall>j < k. mat ! r ! j = (if r = j then 1 else 0))"
  shows "fold (place_row k s) mat (replicate k []) = data"
proof -
  have tail: "take s (drop k (mat ! r)) = data ! r" if "r < k" for r
    using that assms by (intro nth_equalityI) auto
  have "place_row k s (mat ! r) out = out[r := data ! r]" if "r < k" for r out
    using place_unit_row [of k "mat ! r" r s out] assms(5) that tail by simp
  then have "\<forall>r < length mat. \<forall>out. place_row k s (mat ! r) out = out[r := data ! r]" using assms(1) by simp
  from fold_place [OF this, of "replicate k []"] show ?thesis
    using assms(1,2) by (intro nth_equalityI) auto
qed

lemma decode_survivors:
  assumes "0 < k" and "0 < s" and "k + m \<le> 256" and len: "length data = k" "\<forall>d \<in> set data. length d = s"
    and "length survived \<ge> k" and "distinct (map fst survived)"
    and sound: "\<forall>(i, sym) \<in> set survived. i < k + m \<and> length sym = s \<and>
      (\<forall>t < s. sym ! t = row_dot k (build_generator simd k m ! i) (\<lambda>j. data ! j ! t))"
  shows "rs_decode simd k m s survived = Some (Inr data)"
proof -
  let ?g = "build_generator simd k m" and ?in = "take k survived"
  let ?mat = "map (\<lambda>(i, sym). take k (?g ! i) @ sym) ?in"
  have sub: "set ?in \<subseteq> set survived" by (rule set_take_subset)
  have lin: "length ?in = k" using assms(6) by simp
  have row: "?mat ! r = ?g ! fst (?in ! r) @ snd (?in ! r) \<and> fst (?in ! r) < k + m \<and> length (snd (?in ! r)) = s \<and>
      (\<forall>t < s. snd (?in ! r) ! t = row_dot k (?g ! fst (?in ! r)) (\<lambda>j. data ! j ! t))" if "r < k" for r
  proof -
    obtain i sym where e: "?in ! r = (i, sym)" by fastforce
    then have "(i, sym) \<in> set survived" using that lin sub nth_mem [of r ?in] by auto
    then show ?thesis using sound that lin e by auto
  qed
  have dot: "row_dot k (?mat ! r) v = row_dot k (?g ! fst (?in ! r)) v" if "r < k" for r v
    unfolding row_dot_def by (rule gf_sum_cong) (use row [OF that] in \<open>simp add: nth_append\<close>)
  have rows: "\<forall>r < length ?mat. length (?mat ! r) = k + s \<and> (\<forall>t < s. ?mat ! r ! (k + t) = row_dot k (?mat ! r) (\<lambda>j. data ! j ! t))"
    using row dot lin by (simp add: nth_append)
  have "\<not> has_kernel k (map (\<lambda>i. ?g ! i) (map fst ?in))"
  proof (rule generator_independent [OF assms(3)])
    show "distinct (map fst ?in)" using assms(7) by (simp add: take_map [symmetric])
    show "\<forall>i \<in> set (map fst ?in). i < k + m" using sound sub by fastforce
  qed (use lin in simp)
  then have ker: "\<not> has_kernel k ?mat" using dot lin by (auto simp: has_kernel_def)
  obtain mat rank where run: "gf_gauss_eliminate simd ?mat (k + s) k = (mat, rank)" by fastforce
  have rank: "rank = k" using gauss_spec [OF _ _ _ run] rows ker assms(1) by fastforce
  have "fold (place_row k s) mat (replicate k []) = data"
    using gauss_solves [OF rows run [unfolded rank] assms(1)] lin len by (intro extract_solution) auto
  moreover have "\<not> (\<exists>(i, sym) \<in> set ?in. \<not> (i < k + m \<and> length sym = s))" using sound sub by fastforce
  moreover have "[] \<notin> set data" using len(2) assms(2) by auto
  ultimately show ?thesis
    using assms(1,6) run by (simp add: rs_decode_def Let_def rank)
qed

text \<open>
  C35: any \<open>k\<close> symbols of a Reed-Solomon codeword of at most 256 symbols give the data back. When an encoder for \<open>k\<close> data
  and \<open>m\<close> parity symbols encodes \<open>data\<close> as \<open>cw\<close>, decoding any list of at least \<open>k\<close> symbols of \<open>cw\<close> with different
  indices returns exactly \<open>data\<close>, whichever kernel computes the rows. Symbols are of positive size.
\<close>

theorem rs_any_k_reconstruct:
  assumes "k + m \<le> 256" and "0 < symbol_size" and "rs_encoder_new simd k m symbol_size = Inr e" and "rs_encode simd e data = Inr cw"
    and "distinct (map fst survived)" and "k \<le> length survived"
    and "\<forall>(i, sym) \<in> set survived. i < length cw \<and> sym = cw ! i"
  shows "rs_decode simd k m symbol_size survived = Some (Inr data)"
proof -
  have k: "0 < k" and e: "e = \<lparr>rs_g = build_generator simd k m, rs_k = k, rs_n = k + m, rs_symbol_size = symbol_size\<rparr>"
    using assms(3) by (auto simp: rs_encoder_new_def split: if_splits)
  note enc = encode_nth [OF assms(4) [unfolded e]]
  have len: "length data = k" "\<forall>d \<in> set data. length d = symbol_size" using enc [of 0] k by auto
  have "length cw = k + m" using assms(4) len(1) by (auto simp: e rs_encode_def split: option.splits)
  then have "\<forall>(i, sym) \<in> set survived. i < k + m \<and> length sym = symbol_size \<and>
      (\<forall>t < symbol_size. sym ! t = row_dot k (build_generator simd k m ! i) (\<lambda>j. data ! j ! t))"
    using enc assms(7) by fastforce
  then show ?thesis by (rule decode_survivors [OF k assms(2,1) len assms(6,5)])
qed

theorem rs_any_k_reconstruct_witness:
  "rs_decode SSSE3 2 2 1
     (map (\<lambda>i. (i, parity_symbol SSSE3 1 [[7], [9]] (build_generator SSSE3 2 2 ! i))) [3, 2]) = Some (Inr [[7], [9]])"
  by (rule rs_any_k_reconstruct [where m = 2 and data = "[[7], [9]]" and
        cw = "[[7], [9]] @ map (\<lambda>i. parity_symbol SSSE3 1 [[7], [9]] (build_generator SSSE3 2 2 ! i)) [2..<4]" and
        e = "\<lparr>rs_g = build_generator SSSE3 2 2, rs_k = 2, rs_n = 4, rs_symbol_size = 1\<rparr>"])
    (simp_all add: rs_encoder_new_def rs_encode_def upt_rec nth_append del: One_nat_def)

text \<open>
  Past 256 symbols the evaluation points repeat, since \<open>(i + 1) as u8\<close> wraps: the row of symbol 256 is the row of symbol 0.
\<close>

lemma vandermonde_wraps: "i + 256 < n \<Longrightarrow> vandermonde n k ! (i + 256) = vandermonde n k ! i"
proof -
  assume "i + 256 < n"
  moreover have "(word_of_nat (i + 256 + 1) :: u8) = word_of_nat (i + 1)"
    by simp
  ultimately show ?thesis by (simp add: vandermonde_def del: of_nat_Suc of_nat_add)
qed

text \<open>
  The encoder accepts codewords of more than 256 symbols, and for those some \<open>k\<close> different symbols are not enough: with
  symbol 256 in the place of symbol \<open>k - 1\<close>, decoding ends in \<open>Insufficient\<close>.
\<close>

theorem rs_wraps_past_256:
  assumes "2 \<le> k" and "k \<le> 256" and "256 < k + m" and "rs_encoder_new simd k m symbol_size = Inr e" and "rs_encode simd e data = Inr cw"
  shows "\<exists>rank < k. rs_decode simd k m symbol_size (map (\<lambda>i. (i, cw ! i)) ([0..<k - 1] @ [256])) = Some (Inl (RsInsufficient rank k))"
proof -
  define ix where "ix = [0..<k - 1] @ [256]"
  let ?g = "build_generator simd k m"
  let ?sv = "map (\<lambda>i. (i, cw ! i)) ix" and ?mat = "map (\<lambda>i. take k (?g ! i) @ cw ! i) ix"
  have e: "e = \<lparr>rs_g = ?g, rs_k = k, rs_n = k + m, rs_symbol_size = symbol_size\<rparr>"
    using assms(4) by (auto simp: rs_encoder_new_def split: if_splits)
  have small: "\<forall>i \<in> set ix. i < k + m" using assms(3) by (auto simp: ix_def)
  have cw: "length (cw ! i) = symbol_size" if "i \<in> set ix" for i using encode_nth [OF assms(5) [unfolded e]] small that by blast
  have len: "\<forall>r < length ?mat. length (?mat ! r) = k + symbol_size"
    using small cw by simp
  have sv: "length ?sv = k" using assms(1) by (simp add: ix_def)
  let ?v = "\<lambda>j. if j = k - 1 then 1 else 0 :: u8"
  have dot: "row_dot k (?g ! i) ?v = 0" if "i \<in> set ix" for i
  proof (cases "i = 256")
    case True
    have "row_dot k (?g ! 256) ?v = row_dot k (?g ! 0) ?v"
      using generator_dot [OF assms(2), of 0 m simd ?v] generator_dot [OF assms(2), of 256 m simd ?v] vandermonde_wraps [of 0 "k + m" k] assms(1,3) by simp
    then show ?thesis using True assms(1) by (simp add: generator_head unit_dot)
  next
    case False
    then show ?thesis using that by (auto simp: ix_def generator_head unit_dot)
  qed
  have "row_dot k (?mat ! r) ?v = 0" if "r < length ?mat" for r
  proof -
    have r: "ix ! r \<in> set ix" using that by (intro nth_mem) simp
    have "row_dot k (?mat ! r) ?v = row_dot k (?g ! (ix ! r)) ?v"
      unfolding row_dot_def by (rule gf_sum_cong) (use small r that in \<open>simp add: nth_append\<close>)
    then show ?thesis using dot [OF r] by simp
  qed
  moreover have "k - 1 < k" "?v (k - 1) \<noteq> 0" using assms(1) by auto
  ultimately have ker: "has_kernel k ?mat" unfolding has_kernel_def by (intro exI [of _ ?v]) blast
  obtain mat rank where run: "gf_gauss_eliminate simd ?mat (k + symbol_size) k = (mat, rank)" by fastforce
  have "rank < k" by (rule gauss_kernel_rank [OF ker len _ _ run]) (use assms(1) in auto)
  moreover have "\<not> (\<exists>(i, sym) \<in> set (take k ?sv). \<not> (i < k + m \<and> length sym = symbol_size))"
    using small cw sv by auto
  ultimately show ?thesis using run sv unfolding ix_def [symmetric] by (auto simp: rs_decode_def Let_def comp_def)
qed

theorem rs_wraps_past_256_witness:
  "\<exists>rank < 2. rs_decode NoSimd 2 255 1 (map (\<lambda>i. (i, ([[7], [9]] @
      map (\<lambda>i. parity_symbol NoSimd 1 [[7], [9]] (build_generator NoSimd 2 255 ! i)) [2..<257]) ! i)) ([0..<2 - 1] @ [256])) =
    Some (Inl (RsInsufficient rank 2))"
  by (rule rs_wraps_past_256 [where e = "\<lparr>rs_g = build_generator NoSimd 2 255, rs_k = 2, rs_n = 257, rs_symbol_size = 1\<rparr>"
        and data = "[[7], [9]]"])
    (simp_all add: rs_encoder_new_def rs_encode_def del: upt_rec_numeral One_nat_def)

end
