(* ===== verification/File_Text.thy ===== *)
theory File_Text
  imports Session_Store Complex_Main
begin

text \<open>
  The text functions behind the file tools of \<open>crates/rc-tools/src\<close>: searching and replacing (\<open>str::match_indices\<close>,
  \<open>str::replace\<close>, \<open>str::replacen\<close>), line endings, the near match and the hints of \<open>Edit\<close>, and the numbered listing of \<open>Read\<close>.
  A pattern is searched byte by byte: in UTF-8 a character never occurs inside another.
\<close>

section \<open>Searching and replacing\<close>

abbreviation lf :: char where
  "lf \<equiv> CHR 0x0A"

abbreviation cr :: char where
  "cr \<equiv> CHR 0x0D"

abbreviation crlf :: string where
  "crlf \<equiv> [CHR 0x0D, CHR 0x0A]"

text \<open>The places of the matches of a pattern that is not empty, from left to right and disjoint; \<open>i\<close> is the place of the rest.\<close>

function match_from :: "string \<Rightarrow> nat \<Rightarrow> string \<Rightarrow> nat list" where
  "match_from p i [] = []"
| "match_from p i (c # cs) =
     (if prefix p (c # cs) then i # match_from p (i + length p) (drop (length p - 1) cs) else match_from p (i + 1) cs)"
  by pat_completeness auto
termination
  by (relation "measure (\<lambda>(p, i, s). length s)") auto

text \<open>The empty pattern matches at every character boundary.\<close>

primrec boundaries :: "nat \<Rightarrow> string list \<Rightarrow> nat list" where
  "boundaries i [] = [i]"
| "boundaries i (g # gs) = i # boundaries (i + length g) gs"

definition match_indices :: "string \<Rightarrow> string \<Rightarrow> nat list" where
  "match_indices p s = (if p = [] then boundaries 0 (chars_of s) else match_from p 0 s)"

function replace_from :: "string \<Rightarrow> string \<Rightarrow> string \<Rightarrow> string" where
  "replace_from p q [] = []"
| "replace_from p q (c # cs) =
     (if prefix p (c # cs) then q @ replace_from p q (drop (length p - 1) cs) else c # replace_from p q cs)"
  by pat_completeness auto
termination
  by (relation "measure (\<lambda>(p, q, s). length s)") auto

definition str_replace :: "string \<Rightarrow> string \<Rightarrow> string \<Rightarrow> string" where
  "str_replace p q s = (if p = [] then q @ concat (map (\<lambda>g. g @ q) (chars_of s)) else replace_from p q s)"

definition replace_first :: "string \<Rightarrow> string \<Rightarrow> string \<Rightarrow> string" where
  "replace_first p q s = (case find_str p s of Some i \<Rightarrow> take i s @ q @ drop (i + length p) s | None \<Rightarrow> s)"

text \<open>\<open>str::lines\<close>: a line feed ends a line together with a carriage return before it.\<close>

definition line_body :: "string \<Rightarrow> string" where
  "line_body l =
     (case strip_suffix newline l of
        None \<Rightarrow> l
      | Some b \<Rightarrow> (case strip_suffix [cr] b of None \<Rightarrow> b | Some b' \<Rightarrow> b'))"

definition str_lines :: "string \<Rightarrow> string list" where
  "str_lines s = map line_body (split_inclusive s)"

text \<open>\<open>\<open>{:>6}\<close>\<close> of a number.\<close>

definition pad6 :: "nat \<Rightarrow> string" where
  "pad6 n = replicate (6 - length (show_nat n)) CHR '' '' @ show_nat n"

definition numbered :: "nat \<Rightarrow> string list \<Rightarrow> string" where
  "numbered first ls = concat (map (\<lambda>(i, l). pad6 (first + i) @ [CHR 0x09] @ l @ newline) (enumerate 0 ls))"

text \<open>\<open>[..].join(sep)\<close>.\<close>

fun join_with :: "string \<Rightarrow> string list \<Rightarrow> string" where
  "join_with sep [] = []"
| "join_with sep [s] = s"
| "join_with sep (s # ss) = s @ sep @ join_with sep ss"

section \<open>Line endings\<close>

definition preserve_line_endings :: "string option \<Rightarrow> string \<Rightarrow> string" where
  "preserve_line_endings old_opt new_text =
     (case old_opt of
        None \<Rightarrow> if suffix newline new_text then new_text else new_text @ newline
      | Some old \<Rightarrow>
          (let has_crlf = contains_str crlf old;
               old_trailing = suffix newline old;
               s = str_replace crlf newline new_text;
               s = (if has_crlf then str_replace newline crlf s else s);
               trailing = suffix newline s
           in if old_trailing \<and> \<not> trailing then s @ (if has_crlf then crlf else newline)
              else if \<not> old_trailing \<and> trailing then
                (if has_crlf \<and> suffix crlf s then take (length s - 2) s
                 else if suffix newline s then take (length s - 1) s else s)
              else s))"

definition normalize_chunk :: "string option \<Rightarrow> string \<Rightarrow> string" where
  "normalize_chunk old chunk =
     (let s = str_replace crlf newline chunk;
          s = (case old of Some contents \<Rightarrow> if contains_str crlf contents then str_replace newline crlf s else s | None \<Rightarrow> s)
      in if old = None \<and> \<not> suffix newline s then s @ newline else s)"

section \<open>Near matches and hints\<close>

text \<open>
  \<open>ratio\<close> is \<open>TextDiff::from_chars(..).ratio()\<close> of the crate \<open>similar\<close>, a number that an \<open>f32\<close> holds; the thresholds are the values of
  the literals \<open>0.97\<close> at 32 bits and \<open>0.6\<close> at 64 bits.
\<close>

definition near_match_threshold :: rat where
  "near_match_threshold = 16273900 / 16777216"

definition hint_threshold :: rat where
  "hint_threshold = 5404319552844595 / 9007199254740992"

definition normalize_whitespace :: "string \<Rightarrow> string" where
  "normalize_whitespace s = join_words (words_of (chars_of s) [])"

definition unique_near_line_match :: "(string \<Rightarrow> string \<Rightarrow> rat) \<Rightarrow> string \<Rightarrow> string \<Rightarrow> (string \<times> nat \<times> rat) option" where
  "unique_near_line_match ratio content needle =
     (if cr \<in> set needle \<or> lf \<in> set needle \<or> trim needle = [] then None
      else case filter (\<lambda>(i, line). near_match_threshold \<le> ratio (normalize_whitespace line) (normalize_whitespace needle))
                  (enumerate 0 (str_lines content)) of
             [(i, line)] \<Rightarrow> Some (line, i + 1, ratio (normalize_whitespace line) (normalize_whitespace needle))
           | _ \<Rightarrow> None)"

definition line_of :: "string \<Rightarrow> nat \<Rightarrow> nat" where
  "line_of content off = count_list (take off content) lf"

definition occurrence_lines :: "string \<Rightarrow> string \<Rightarrow> nat list" where
  "occurrence_lines content needle = map (\<lambda>off. line_of content off + 1) (match_indices needle content)"

text \<open>The first line with the greatest ratio.\<close>

definition best_line :: "(string \<Rightarrow> string \<Rightarrow> rat) \<Rightarrow> string \<Rightarrow> string \<Rightarrow> (rat \<times> nat \<times> string) option" where
  "best_line ratio content needle =
     fold (\<lambda>(i, line) best.
       (let r = ratio (normalize_whitespace line) needle in
        case best of
          None \<Rightarrow> Some (r, i + 1, line)
        | Some (b, _, _) \<Rightarrow> if b < r then Some (r, i + 1, line) else best))
     (enumerate 0 (str_lines content)) None"

text \<open>\<open>percent\<close> is the \<open>\<open>{:.0}\<close>\<close> rendering of a hundred times the ratio, \<open>debug\<close> the \<open>\<open>{:?}\<close>\<close> rendering of a string.\<close>

definition fuzzy_hint :: "(string \<Rightarrow> string \<Rightarrow> rat) \<Rightarrow> (rat \<Rightarrow> string) \<Rightarrow> (string \<Rightarrow> string) \<Rightarrow> string \<Rightarrow> string \<Rightarrow> string" where
  "fuzzy_hint ratio percent debug content needle =
     (case best_line ratio content (normalize_whitespace needle) of
        Some (r, lineno, line) \<Rightarrow>
          if hint_threshold \<le> r
          then ''closest match is line '' @ show_nat lineno @ '' (similarity '' @ percent r @ ''%): '' @ debug line @ '' '' @ em_dash
            @ '' check exact whitespace/indentation''
          else ''no close match found '' @ em_dash @ '' re-read the file to see the exact contents''
      | None \<Rightarrow> ''no close match found '' @ em_dash @ '' re-read the file to see the exact contents'')"

definition snippet_around :: "string \<Rightarrow> string \<Rightarrow> nat \<Rightarrow> string" where
  "snippet_around content needle ctx =
     (let off = (case find_str needle content of Some o' \<Rightarrow> Some o' | None \<Rightarrow> find_str (str_replace newline crlf needle) content);
          ls = str_lines content;
          target = (case off of Some o' \<Rightarrow> line_of content o' | None \<Rightarrow> 0);
          start = target - ctx;
          stop = min (target + ctx + 1) (length ls)
      in numbered (start + 1) (take (stop - start) (drop start ls)))"

section \<open>Listing a file\<close>

definition truncate_line :: "nat \<Rightarrow> string \<Rightarrow> string" where
  "truncate_line max_line_chars line =
     (if max_line_chars = 0 \<or> char_count line \<le> max_line_chars then line
      else concat (take max_line_chars (chars_of line)) @ '' '' @ ellipsis @ ''[+''
        @ show_nat (char_count line - max_line_chars) @ '' chars truncated]'')"

definition render_lines :: "string \<Rightarrow> u32 option \<Rightarrow> u32 option \<Rightarrow> u32 \<Rightarrow> nat \<Rightarrow> string" where
  "render_lines s offset limit default_limit max_line_chars =
     (let ls = str_lines s;
          total_lines = length ls;
          offset = max (case offset of Some n \<Rightarrow> unat n | None \<Rightarrow> 1) 1;
          n = unat (case limit of Some n \<Rightarrow> n | None \<Rightarrow> default_limit);
          limit = (if n = 0 then total_lines else n);
          start = offset - 1
      in if total_lines \<le> start
         then ''<offset '' @ show_nat offset @ '' is beyond the end of the file ('' @ show_nat total_lines @ '' lines)>''
         else numbered (start + 1) (map (truncate_line max_line_chars) (take (min (start + limit) total_lines - start) (drop start ls))))"

section \<open>Facts about searching and replacing\<close>

lemma newline_eq: "newline = [lf]"
  by (rule newline_literal)

lemma find_str_prefix: "prefix p s \<Longrightarrow> find_str p s = Some 0"
  by (cases s) simp_all

lemma match_from_Nil_iff: "p \<noteq> [] \<Longrightarrow> match_from p i s = [] \<longleftrightarrow> \<not> contains_str p s"
  by (induction p i s rule: match_from.induct) auto

lemma match_from_Cons: "p \<noteq> [] \<Longrightarrow> match_from p i s = j # js \<Longrightarrow> \<exists>k. find_str p s = Some k \<and> j = i + k"
  by (induction p i s rule: match_from.induct) (auto split: if_splits)

lemma match_indices_find:
  "match_indices p s = [] \<longleftrightarrow> find_str p s = None"
  "match_indices p s = j # js \<Longrightarrow> find_str p s = Some j"
proof -
  show "match_indices p s = [] \<longleftrightarrow> find_str p s = None"
    by (cases s; cases "chars_of s") (auto simp: match_indices_def match_from_Nil_iff find_str_None_iff)
  show "match_indices p s = j # js \<Longrightarrow> find_str p s = Some j"
  proof (cases "p = []")
    case True
    then show "match_indices p s = j # js \<Longrightarrow> find_str p s = Some j"
      by (cases s; cases "chars_of s") (auto simp: match_indices_def)
  next
    case False
    then show "match_indices p s = j # js \<Longrightarrow> find_str p s = Some j"
      using match_from_Cons [of p 0 s j js] by (simp add: match_indices_def)
  qed
qed

lemma replace_from_id: "p \<noteq> [] \<Longrightarrow> \<not> contains_str p s \<Longrightarrow> replace_from p q s = s"
  by (induction p q s rule: replace_from.induct) auto

text \<open>With one match, replacing every match and replacing the first are the same.\<close>

lemma match_from_shift: "match_from p (i + k) s = map ((+) k) (match_from p i s)"
proof (induction p i s rule: match_from.induct)
  case (2 p i c cs)
  then show ?case by (auto simp: add.assoc add.commute add.left_commute)
qed simp

lemma replace_single:
  "p \<noteq> [] \<Longrightarrow> match_from p i s = [j] \<Longrightarrow> replace_from p q s = replace_first p q s"
proof (induction p i s rule: match_from.induct)
  case (2 p i c cs)
  show ?case
  proof (cases "prefix p (c # cs)")
    case True
    then have "match_from p (i + length p) (drop (length p - 1) cs) = []" using 2(4) by auto
    then have "\<not> contains_str p (drop (length p - 1) cs)" using match_from_Nil_iff [OF 2(3)] by blast
    then have "replace_from p q (drop (length p - 1) cs) = drop (length p - 1) cs" by (rule replace_from_id [OF 2(3)])
    moreover have "drop (length p) (c # cs) = drop (length p - 1) cs" using 2(3) by (cases p) auto
    ultimately show ?thesis using True by (simp add: replace_first_def)
  next
    case False
    then have "match_from p (i + 1) cs = [j]" using 2 by simp
    then have IH: "replace_from p q cs = replace_first p q cs" using 2 False by blast
    obtain k where "find_str p cs = Some k" using match_from_Cons [OF 2(3) \<open>match_from p (i + 1) cs = [j]\<close>] by blast
    then show ?thesis using False IH by (simp add: replace_first_def)
  qed
qed simp

text \<open>A pattern that occurs once: the text before it and behind it stay.\<close>

lemma replace_first_split: "find_str p s = Some i \<Longrightarrow> replace_first p q s = take i s @ q @ drop (i + length p) s"
  by (simp add: replace_first_def)

lemma match_from_occurrence:
  "p \<noteq> [] \<Longrightarrow> j \<in> set (match_from p i s) \<Longrightarrow> \<exists>a b. s = a @ p @ b \<and> j = i + length a"
proof (induction p i s rule: match_from.induct)
  case (2 p i c cs)
  have tail: "drop (length p) (c # cs) = drop (length p - 1) cs" using 2(3) by (cases p) auto
  show ?case
  proof (cases "prefix p (c # cs)")
    case True
    then have split: "c # cs = p @ drop (length p - 1) cs" using tail by (metis append_eq_conv_conj prefix_def)
    consider "j = i" | "j \<in> set (match_from p (i + length p) (drop (length p - 1) cs))" using 2(4) True by auto
    then show ?thesis
    proof cases
      case 1
      then show ?thesis using split by (intro exI [of _ "[]"] exI [of _ "drop (length p - 1) cs"]) simp
    next
      case second: 2
      then obtain a b where "drop (length p - 1) cs = a @ p @ b" "j = i + length p + length a" using 2 True by blast
      then show ?thesis using split by (intro exI [of _ "p @ a"] exI [of _ b]) simp
    qed
  next
    case False
    then obtain a b where "cs = a @ p @ b" "j = i + 1 + length a" using 2 by auto
    then show ?thesis by (intro exI [of _ "c # a"] exI [of _ b]) simp
  qed
qed simp

lemma match_from_distinct: "p \<noteq> [] \<Longrightarrow> distinct (match_from p i s) \<and> (\<forall>j \<in> set (match_from p i s). i \<le> j)"
proof (induction p i s rule: match_from.induct)
  case (2 p i c cs)
  then show ?case by (cases "prefix p (c # cs)") fastforce+
qed simp

text \<open>A pattern with one occurrence, overlapping ones included, has one match, and both replacements put the new text there.\<close>

lemma unique_occurrence:
  assumes "s = before @ p @ behind" and "\<forall>a b. s = a @ p @ b \<longrightarrow> a = before"
  shows "match_indices p s = [length before]" and "replace_first p q s = before @ q @ behind" and "str_replace p q s = before @ q @ behind"
proof -
  have empty: "s = []" if "p = []" using assms that by (metis append_Nil append_Nil2 append_is_Nil_conv)
  show m: "match_indices p s = [length before]"
  proof (cases "p = []")
    case True
    then show ?thesis using empty assms(1) by (simp add: match_indices_def)
  next
    case False
    have "\<forall>j \<in> set (match_from p 0 s). j = length before" using match_from_occurrence [OF False] assms(2) by fastforce
    moreover have "distinct (match_from p 0 s)" using match_from_distinct [OF False] by blast
    moreover have "match_from p 0 s \<noteq> []" using match_from_Nil_iff [OF False] contains_str_iff assms(1) by blast
    ultimately have "match_from p 0 s = [length before]"
      by (cases "match_from p 0 s"; cases "tl (match_from p 0 s)") auto
    then show ?thesis using False by (simp add: match_indices_def)
  qed
  show first: "replace_first p q s = before @ q @ behind"
    using match_indices_find(2) [OF m] assms(1) by (simp add: replace_first_def)
  show "str_replace p q s = before @ q @ behind"
  proof (cases "p = []")
    case True
    then show ?thesis using empty assms(1) by (simp add: str_replace_def)
  next
    case False
    then show ?thesis using replace_single [of p 0 s "length before" q] m first by (simp add: match_indices_def str_replace_def)
  qed
qed

section \<open>Facts about line endings\<close>

lemma replace_newline: "str_replace newline q s = concat (map (\<lambda>c. if c = lf then q else [c]) s)"
proof -
  have "replace_from [lf] q s = concat (map (\<lambda>c. if c = lf then q else [c]) s)"
    by (induction "[lf]" q s rule: replace_from.induct) auto
  then show ?thesis by (simp add: str_replace_def newline_eq)
qed

lemma crlf_to_lf_id: "\<not> contains_str crlf s \<Longrightarrow> str_replace crlf newline s = s"
  by (simp add: str_replace_def replace_from_id)

lemma preserve_exact:
  assumes "\<not> contains_str crlf old" and "\<not> contains_str crlf s" and "suffix newline old \<longleftrightarrow> suffix newline s"
  shows "preserve_line_endings (Some old) s = s"
  using assms by (auto simp: preserve_line_endings_def Let_def crlf_to_lf_id)

text \<open>Every line feed stands behind a carriage return.\<close>

fun crlf_only :: "bool \<Rightarrow> string \<Rightarrow> bool" where
  "crlf_only after_cr [] \<longleftrightarrow> True"
| "crlf_only after_cr (c # cs) \<longleftrightarrow> (c = lf \<longrightarrow> after_cr) \<and> crlf_only (c = cr) cs"

lemma crlf_only_lf_to_crlf: "crlf_only b (str_replace newline crlf s)"
  unfolding replace_newline by (induction s arbitrary: b) auto

lemma crlf_only_append:
  "crlf_only b (s @ t) \<longleftrightarrow> crlf_only b s \<and> crlf_only (if s = [] then b else last s = cr) t"
  by (induction b s rule: crlf_only.induct) auto

lemma crlf_only_take: "crlf_only b s \<Longrightarrow> crlf_only b (take n s)"
  by (metis append_take_drop_id crlf_only_append)

lemma preserve_crlf:
  assumes "contains_str crlf old"
  shows "crlf_only False (preserve_line_endings (Some old) s)"
  using assms crlf_only_lf_to_crlf [of False "str_replace crlf newline s"]
  by (simp add: preserve_line_endings_def Let_def crlf_only_take crlf_only_append)

end
