(* ===== verification/File_Tools.thy ===== *)
theory File_Tools
  imports File_Text Change_Journal
begin

text \<open>
  The file tools \<open>Read\<close>, \<open>Edit\<close>, \<open>Write\<close> and \<open>Append\<close> of \<open>crates/rc-tools/src\<close> with the helpers of \<open>util.rs\<close>, over the user's files,
  the read registry and the rewind journal. What the operating system does during one call is the record \<open>tool_env\<close>;
  every call gets its own, so that between calls anything may change outside. A call works on one state of
  the files: no other process writes while it runs. Paths are texts, which is what \<open>display()\<close> prints for paths that are valid UTF-8.
\<close>

section \<open>The world of a call\<close>

record tool_env =
  te_canonicalize :: "string \<Rightarrow> io_error + string"
  te_roots :: "string list"
  te_cwd :: string
  te_fault :: "string \<Rightarrow> io_error option"
  te_dir :: "string \<Rightarrow> bool"
  te_mkdir :: "string \<Rightarrow> io_error option"
  te_write :: "string \<Rightarrow> io_error option"
  te_now :: nat
  te_hash :: "string \<Rightarrow> string"
  te_json :: "durable_entry \<Rightarrow> string"
  te_blob_io :: io
  te_log_io :: io
  te_ratio :: "string \<Rightarrow> string \<Rightarrow> rat"
  te_percent :: "rat \<Rightarrow> string"
  te_debug :: "string \<Rightarrow> string"

record tool_world =
  tw_files :: file_system
  tw_mtime :: "string \<Rightarrow> nat"
  tw_registry :: read_registry
  tw_journal :: "change_journal \<times> file_system"

text \<open>\<open>std::fs::read\<close> and \<open>std::fs::read_to_string\<close>; \<open>te_fault\<close> is an error other than absence.\<close>

definition enoent :: string where
  "enoent = ''No such file or directory (os error 2)''"

definition read_bytes :: "tool_env \<Rightarrow> tool_world \<Rightarrow> string \<Rightarrow> io_error + string" where
  "read_bytes env w p =
     (case te_fault env p of
        Some e \<Rightarrow> Inl e
      | None \<Rightarrow> (case tw_files w p of Some b \<Rightarrow> Inr b | None \<Rightarrow> Inl (NotFound enoent)))"

definition read_text :: "tool_env \<Rightarrow> tool_world \<Rightarrow> string \<Rightarrow> io_error + string" where
  "read_text env w p =
     (case read_bytes env w p of
        Inl e \<Rightarrow> Inl e
      | Inr b \<Rightarrow> (case from_utf8 b of Some s \<Rightarrow> Inr s | None \<Rightarrow> Inl (OtherIo ''stream did not contain valid UTF-8'')))"

definition path_exists :: "tool_env \<Rightarrow> tool_world \<Rightarrow> string \<Rightarrow> bool" where
  "path_exists env w p \<longleftrightarrow> tw_files w p \<noteq> None \<or> te_dir env p"

definition is_not_found :: "io_error \<Rightarrow> bool" where
  "is_not_found e = (case e of NotFound _ \<Rightarrow> True | OtherIo _ \<Rightarrow> False)"

fun path_message :: "path_error \<Rightarrow> string" where
  "path_message (IoFailure p m) = p @ '': '' @ m"
| "path_message (OutsideRoots p roots) = ''path outside allowed roots: '' @ p @ '' (allowed: '' @ join_with '', '' roots @ '')''"
| "path_message (Traversal p) = ''path traversal with `..` is not allowed: '' @ p"
| "path_message (InvalidPath p) = ''invalid path: '' @ p"

section \<open>Helpers of \<open>util.rs\<close>\<close>

definition mtime_of :: "tool_env \<Rightarrow> tool_world \<Rightarrow> string \<Rightarrow> nat option" where
  "mtime_of env w p = (if path_exists env w p then Some (tw_mtime w p) else None)"

text \<open>\<open>blake3::hash(&std::fs::read(canon).unwrap_or_default())\<close>.\<close>

definition content_hash :: "tool_env \<Rightarrow> tool_world \<Rightarrow> string \<Rightarrow> string" where
  "content_hash env w p = te_hash env (case read_bytes env w p of Inr b \<Rightarrow> b | Inl _ \<Rightarrow> [])"

definition record_read :: "tool_env \<Rightarrow> string \<Rightarrow> tool_world \<Rightarrow> tool_world" where
  "record_read env p w =
     w\<lparr>tw_registry := registry_record p (unwrap_or 0 (mtime_of env w p)) (content_hash env w p) (tw_registry w)\<rparr>"

datatype read_state = Unread | Stale | Current

definition current_read_state :: "tool_env \<Rightarrow> tool_world \<Rightarrow> string \<Rightarrow> read_state" where
  "current_read_state env w p =
     (case registry_lookup p (tw_registry w) of
        None \<Rightarrow> Unread
      | Some (reg_mtime, reg_hash) \<Rightarrow>
          if mtime_of env w p \<noteq> Some reg_mtime \<or> content_hash env w p \<noteq> reg_hash then Stale else Current)"

definition stale_read_error :: "string \<Rightarrow> tool_outcome" where
  "stale_read_error p = OutError (p @ '' changed since the last `Read` '' @ em_dash @ '' re-read it first'') False"

text \<open>\<open>atomic_write\<close>: the temporary file replaces the target, or the target stays as it was.\<close>

definition atomic_write :: "tool_env \<Rightarrow> string \<Rightarrow> string \<Rightarrow> tool_world \<Rightarrow> (io_error + unit) \<times> tool_world" where
  "atomic_write env p content w =
     (case te_write env p of
        Some e \<Rightarrow> (Inl e, w)
      | None \<Rightarrow> (Inr (), w\<lparr>tw_files := (tw_files w)(p \<mapsto> content), tw_mtime := (tw_mtime w)(p := te_now env)\<rparr>))"

definition record_change :: "tool_env \<Rightarrow> string \<Rightarrow> string option \<Rightarrow> tool_world \<Rightarrow> tool_world" where
  "record_change env p prior w =
     w\<lparr>tw_journal := journal_record (te_hash env) (te_json env) (te_blob_io env) (te_log_io env) p prior (tw_journal w)\<rparr>"

section \<open>Read\<close>

record read_input =
  ri_path :: string
  ri_offset :: "u32 option"
  ri_limit :: "u32 option"

definition binary_scan :: nat where
  "binary_scan = 8192"

definition read_call :: "u32 \<Rightarrow> nat \<Rightarrow> tool_env \<Rightarrow> read_input \<Rightarrow> tool_world \<Rightarrow> tool_outcome \<times> tool_world" where
  "read_call default_limit max_line_chars env inp w =
     (case resolve_within_loose (te_canonicalize env) (te_roots env) (te_cwd env) (ri_path inp) of
        Inl e \<Rightarrow> (OutError (path_message e) False, w)
      | Inr canon \<Rightarrow>
          (case read_bytes env w canon of
             Inl e \<Rightarrow>
               if is_not_found e then (OutOk (''<file does not exist: '' @ canon @ ''>'') False [], w)
               else (OutError (canon @ '': '' @ io_message e) True, w)
           | Inr b \<Rightarrow>
               if b = [] then (OutOk ''<file is empty>'' False [], record_read env canon w)
               else if CHR 0x00 \<in> set (take binary_scan b)
               then (OutError (''binary file ('' @ show_nat (length b) @ '' bytes) '' @ em_dash @ '' not displayed'') False, w)
               else (case from_utf8 b of
                       None \<Rightarrow> (OutError (''file is not valid UTF-8 '' @ em_dash @ '' not displayed'') False, w)
                     | Some s \<Rightarrow>
                         (OutOk (render_lines s (ri_offset inp) (ri_limit inp) default_limit max_line_chars) False [],
                          record_read env canon w))))"

section \<open>Edit\<close>

record edit_input =
  ei_path :: string
  ei_old :: string
  ei_new :: string
  ei_all :: bool

text \<open>What is searched for, how often it counts as found, and the note of a near match.\<close>

definition locate :: "tool_env \<Rightarrow> string \<Rightarrow> string \<Rightarrow> string \<times> nat \<times> string option" where
  "locate env content old_string =
     (let hits = length (match_indices old_string content);
          (p, hits) =
            (if hits = 0 \<and> contains_str crlf content
             then let c = length (match_indices (str_replace newline crlf old_string) content)
                  in if 0 < c then (str_replace newline crlf old_string, c) else (old_string, hits)
             else (old_string, hits))
      in if hits = 0
         then case unique_near_line_match (te_ratio env) content old_string of
                Some (candidate, line, r) \<Rightarrow>
                  (candidate, 1, Some (''applied unique near-match at line '' @ show_nat line @ '' ('' @ te_percent env r @ ''% similar)''))
              | None \<Rightarrow> (p, hits, None)
         else (p, hits, None))"

definition edited :: "bool \<Rightarrow> string \<Rightarrow> string \<Rightarrow> string \<Rightarrow> string" where
  "edited replace_all p new_string content =
     preserve_line_endings (Some content) (if replace_all then str_replace p new_string content else replace_first p new_string content)"

definition note_lines :: "string option \<Rightarrow> string \<Rightarrow> string" where
  "note_lines note_opt sep = (case note_opt of Some n \<Rightarrow> sep @ ''('' @ n @ '')'' | None \<Rightarrow> [])"

definition auto_read_note :: "string \<Rightarrow> string" where
  "auto_read_note canon = newline @ newline @ ''(auto-read '' @ canon @ '' '' @ em_dash @ '' read files before editing next time)''"

definition edit_text :: "tool_env \<Rightarrow> edit_input \<Rightarrow> string \<Rightarrow> bool \<Rightarrow> string \<Rightarrow> tool_world \<Rightarrow> tool_outcome \<times> tool_world" where
  "edit_text env inp canon auto_read old_content w =
     (case locate env old_content (ei_old inp) of
        (p, hits, near_note) \<Rightarrow>
          if hits = 0
          then (OutError (''old_string not found in '' @ canon @ ''. ''
                  @ fuzzy_hint (te_ratio env) (te_percent env) (te_debug env) old_content (ei_old inp)) False, w)
          else if 1 < hits \<and> \<not> ei_all inp
          then (OutError (''old_string appears '' @ show_nat hits @ '' times (lines: ''
                  @ join_with '','' (map show_nat (occurrence_lines old_content p)) @ '') '' @ em_dash @ '' make it unique or set replace_all=true'') False, w)
          else let new_content = edited (ei_all inp) p (ei_new inp) old_content
               in if new_content = old_content
                  then (OutOk (''no changes needed: replacement already matches the file'' @ note_lines near_note (newline @ newline)) False [], w)
                  else case atomic_write env canon new_content w of
                         (Inl e, w) \<Rightarrow> (OutError (''write failed: '' @ io_message e) False, w)
                       | (Inr _, w) \<Rightarrow>
                           (OutOk (snippet_around new_content (ei_new inp) 5 @ note_lines near_note newline
                                @ (if auto_read then auto_read_note canon else [])) False
                              [FileChange canon (Some old_content) (Some new_content)],
                            record_change env canon (Some old_content) (record_read env canon w)))"

definition edit_call :: "tool_env \<Rightarrow> edit_input \<Rightarrow> tool_world \<Rightarrow> tool_outcome \<times> tool_world" where
  "edit_call env inp w =
     (if ei_old inp = ei_new inp then (OutOk ''no changes needed: old_string and new_string are identical'' False [], w)
      else case resolve_within (te_canonicalize env) (te_roots env) (te_cwd env) (ei_path inp) of
        Inl e \<Rightarrow> (OutError (path_message e) False, w)
      | Inr canon \<Rightarrow>
          (let state = current_read_state env w canon
           in if state = Stale then (stale_read_error canon, w)
              else let w = (if state = Unread then record_read env canon w else w)
                   in case read_text env w canon of
                        Inl e \<Rightarrow> (OutError (canon @ '': '' @ io_message e) (\<not> is_not_found e), w)
                      | Inr old_content \<Rightarrow> edit_text env inp canon (state = Unread) old_content w))"

section \<open>Write and Append\<close>

record write_input =
  wi_path :: string
  wi_content :: string

record append_input =
  ai_path :: string
  ai_content :: string
  ai_expected :: "u64 option"

text \<open>The check of an existing file: \<open>None\<close> when it is stale, and whether it was read just now.\<close>

definition check_existing :: "tool_env \<Rightarrow> string \<Rightarrow> tool_world \<Rightarrow> (bool \<times> tool_world) option" where
  "check_existing env canon w =
     (if path_exists env w canon
      then case current_read_state env w canon of
             Unread \<Rightarrow> Some (True, record_read env canon w)
           | Stale \<Rightarrow> None
           | Current \<Rightarrow> Some (False, w)
      else Some (False, w))"

text \<open>The creation of a missing parent: an error, or whether it was created.\<close>

definition ensure_parent :: "tool_env \<Rightarrow> string \<Rightarrow> tool_world \<Rightarrow> string + bool" where
  "ensure_parent env canon w =
     (case path_parent canon of
        Some parent \<Rightarrow>
          if path_exists env w parent then Inr False
          else (case te_mkdir env parent of
                  Some e \<Rightarrow> Inl (''could not create parent '' @ parent @ '': '' @ io_message e)
                | None \<Rightarrow> Inr True)
      | None \<Rightarrow> Inr False)"

definition created_note :: "bool \<Rightarrow> string" where
  "created_note created = (if created then newline @ newline @ ''(created missing parent directories)'' else [])"

definition write_text :: "tool_env \<Rightarrow> write_input \<Rightarrow> string \<Rightarrow> bool \<Rightarrow> tool_world \<Rightarrow> tool_outcome \<times> tool_world" where
  "write_text env inp canon auto_read w =
     (case ensure_parent env canon w of
        Inl m \<Rightarrow> (OutError m True, w)
      | Inr created \<Rightarrow>
          (let old = (case read_text env w canon of Inr s \<Rightarrow> Some s | Inl _ \<Rightarrow> None);
               content = preserve_line_endings old (wi_content inp)
           in case atomic_write env canon content w of
                (Inl e, w) \<Rightarrow> (OutError (''write failed: '' @ io_message e) (\<not> is_not_found e), w)
              | (Inr _, w) \<Rightarrow>
                  (OutOk (''wrote '' @ canon @ '' ('' @ show_nat (length content) @ '' bytes)''
                       @ (if auto_read then auto_read_note canon else []) @ created_note created) False
                     [FileChange canon old (Some content)],
                   record_change env canon old (record_read env canon w))))"

definition write_call :: "tool_env \<Rightarrow> write_input \<Rightarrow> tool_world \<Rightarrow> tool_outcome \<times> tool_world" where
  "write_call env inp w =
     (case resolve_within_loose (te_canonicalize env) (te_roots env) (te_cwd env) (wi_path inp) of
        Inl e \<Rightarrow> (OutError (path_message e) False, w)
      | Inr canon \<Rightarrow>
          (case check_existing env canon w of
             None \<Rightarrow> (stale_read_error canon, w)
           | Some (auto_read, w) \<Rightarrow> write_text env inp canon auto_read w))"

definition append_chunk :: "tool_env \<Rightarrow> append_input \<Rightarrow> string \<Rightarrow> bool \<Rightarrow> string option \<Rightarrow> tool_world \<Rightarrow> tool_outcome \<times> tool_world" where
  "append_chunk env inp canon auto_read old w =
     (case ensure_parent env canon w of
        Inl m \<Rightarrow> (OutError m True, w)
      | Inr created \<Rightarrow>
          (let chunk = normalize_chunk old (ai_content inp);
               combined = unwrap_or [] old @ chunk
           in case atomic_write env canon combined w of
                (Inl e, w) \<Rightarrow> (OutError (''append failed: '' @ io_message e) (\<not> is_not_found e), w)
              | (Inr _, w) \<Rightarrow>
                  (OutOk (''appended '' @ show_nat (length chunk) @ '' bytes to '' @ canon @ '' (new_size: ''
                       @ show_nat (length combined) @ '')''
                       @ (if auto_read then newline @ newline @ ''(auto-read existing file before append)'' else [])
                       @ created_note created) False
                     [FileChange canon old (Some combined)],
                   record_change env canon old (record_read env canon w))))"

definition append_text :: "tool_env \<Rightarrow> append_input \<Rightarrow> string \<Rightarrow> bool \<Rightarrow> string option \<Rightarrow> tool_world \<Rightarrow> tool_outcome \<times> tool_world" where
  "append_text env inp canon auto_read old w =
     (let old_size = length (unwrap_or [] old)
      in case ai_expected inp of
           Some expected \<Rightarrow>
             if unat expected \<noteq> old_size
             then (OutError (''append offset mismatch for '' @ canon @ '': expected '' @ show_nat (unat expected)
                     @ '' bytes, current size is '' @ show_nat old_size @ ''; read the file or use the reported new_size'') False, w)
             else append_chunk env inp canon auto_read old w
         | None \<Rightarrow> append_chunk env inp canon auto_read old w)"

text \<open>The sizes are below \<open>2 ^ 64\<close>, so the comparison of \<open>u64\<close> values is one of numbers.\<close>

definition append_call :: "tool_env \<Rightarrow> append_input \<Rightarrow> tool_world \<Rightarrow> tool_outcome \<times> tool_world" where
  "append_call env inp w =
     (case resolve_within_loose (te_canonicalize env) (te_roots env) (te_cwd env) (ai_path inp) of
        Inl e \<Rightarrow> (OutError (path_message e) False, w)
      | Inr canon \<Rightarrow>
          (case check_existing env canon w of
             None \<Rightarrow> (stale_read_error canon, w)
           | Some (auto_read, w) \<Rightarrow>
               (case read_text env w canon of
                  Inl e \<Rightarrow>
                    if is_not_found e then append_text env inp canon auto_read None w
                    else (OutError (''could not read '' @ canon @ '' before append: '' @ io_message e) False, w)
                | Inr s \<Rightarrow> append_text env inp canon auto_read (Some s) w)))"

section \<open>What a call does to the files\<close>

datatype invocation = CallRead u32 nat read_input | CallEdit edit_input | CallWrite write_input | CallAppend append_input

fun invoke :: "tool_env \<Rightarrow> invocation \<Rightarrow> tool_world \<Rightarrow> tool_outcome \<times> tool_world" where
  "invoke env (CallRead d m inp) w = read_call d m env inp w"
| "invoke env (CallEdit inp) w = edit_call env inp w"
| "invoke env (CallWrite inp) w = write_call env inp w"
| "invoke env (CallAppend inp) w = append_call env inp w"

fun artifacts :: "tool_outcome \<Rightarrow> artifact list" where
  "artifacts (OutOk _ _ arts) = arts"
| "artifacts _ = []"

text \<open>Nothing but the registry of reads changed.\<close>

definition untouched :: "tool_world \<Rightarrow> tool_outcome \<times> tool_world \<Rightarrow> bool" where
  "untouched w res \<longleftrightarrow> tw_files (snd res) = tw_files w \<and> tw_journal (snd res) = tw_journal w \<and> artifacts (fst res) = []"

text \<open>The text a tool takes as the contents of a file before it writes.\<close>

definition prior_text :: "tool_env \<Rightarrow> tool_world \<Rightarrow> string \<Rightarrow> string option" where
  "prior_text env w p = (case read_text env w p of Inr s \<Rightarrow> Some s | Inl _ \<Rightarrow> None)"

text \<open>
  One file was replaced: it lies under an allowed root; if it was there, either the agent had not read it in this session or its
  modification time and digest were those of the last read; \<open>prior\<close> went to the journal, and the outcome reports \<open>prior\<close> and the new contents.
\<close>

definition replaced_prior :: "tool_env \<Rightarrow> tool_world \<Rightarrow> string \<Rightarrow> string \<Rightarrow> string option \<Rightarrow> tool_outcome \<times> tool_world \<Rightarrow> bool" where
  "replaced_prior env w p content prior res \<longleftrightarrow>
     tw_files (snd res) = (tw_files w)(p \<mapsto> content) \<and>
     tw_journal (snd res) = journal_record (te_hash env) (te_json env) (te_blob_io env) (te_log_io env) p prior (tw_journal w) \<and>
     artifacts (fst res) = [FileChange p prior (Some content)] \<and>
     under_root (te_canonicalize env) p (te_roots env) \<and>
     (path_exists env w p \<longrightarrow> current_read_state env w p \<noteq> Stale)"

text \<open>
  When a file that is there is journalled as absent: \<open>Write\<close> takes whatever it cannot read as UTF-8 text for a missing file,
  \<open>Append\<close> only a file whose reading reports that it is not found.
\<close>

definition prior_lost :: "tool_env \<Rightarrow> invocation \<Rightarrow> tool_world \<Rightarrow> string \<Rightarrow> bool" where
  "prior_lost env c w p =
     (case c of
        CallWrite _ \<Rightarrow> te_fault env p \<noteq> None \<or> (case tw_files w p of Some b \<Rightarrow> from_utf8 b = None | None \<Rightarrow> False)
      | CallAppend _ \<Rightarrow> (case te_fault env p of Some e \<Rightarrow> is_not_found e | None \<Rightarrow> False)
      | _ \<Rightarrow> False)"

definition replaced :: "tool_env \<Rightarrow> tool_world \<Rightarrow> string \<Rightarrow> string \<Rightarrow> tool_outcome \<times> tool_world \<Rightarrow> bool" where
  "replaced env w p content res \<longleftrightarrow> replaced_prior env w p content (prior_text env w p) res"

lemma record_read_keeps [simp]:
  "tw_files (record_read env p w) = tw_files w" "tw_journal (record_read env p w) = tw_journal w"
  "tw_mtime (record_read env p w) = tw_mtime w"
  by (simp_all add: record_read_def)

lemma record_read_invisible [simp]:
  "read_bytes env (record_read env' p w) q = read_bytes env w q" "read_text env (record_read env' p w) q = read_text env w q"
  "path_exists env (record_read env' p w) q = path_exists env w q"
  unfolding read_bytes_def read_text_def path_exists_def record_read_keeps by (rule refl)+

lemma resolve_under_root:
  "resolve_within canon_fn roots cwd candidate = Inr q \<Longrightarrow> under_root canon_fn q roots"
  "resolve_within_loose canon_fn roots cwd candidate = Inr q \<Longrightarrow> under_root canon_fn q roots"
  by (auto simp: resolve_within_def resolve_within_loose_def scope_check_Inr Let_def split: sum.splits if_splits)

lemma read_call_effect: "untouched w (read_call d m env inp w)"
  by (auto simp: read_call_def untouched_def Let_def split: sum.split option.split)

lemma prior_text_cases:
  "(\<exists>s. read_text env w p = Inr s \<and> tw_files w p = Some s) \<or>
   (\<exists>e. read_text env w p = Inl e \<and>
      (te_fault env p = Some e \<or>
       te_fault env p = None \<and> tw_files w p = None \<and> is_not_found e \<or>
       te_fault env p = None \<and> \<not> is_not_found e \<and> (\<exists>b. tw_files w p = Some b \<and> from_utf8 b = None)))"
  by (auto simp: read_text_def read_bytes_def is_not_found_def dest: from_utf8_id split: option.splits sum.splits)

lemma prior_text_read: "read_text env w p = Inr s \<Longrightarrow> prior_text env w p = tw_files w p"
  using prior_text_cases [of env w p] by (auto simp: prior_text_def)

lemma edit_text_effect:
  assumes "read_text env w canon = Inr old" and "under_root (te_canonicalize env) canon (te_roots env)"
    and "current_read_state env w0 canon \<noteq> Stale" and "w = w0 \<or> w = record_read env canon w0"
  shows "untouched w0 (edit_text env inp canon auto_read old w) \<or>
    (\<exists>content. replaced env w0 canon content (edit_text env inp canon auto_read old w))"
proof -
  have same: "tw_files w = tw_files w0" "tw_journal w = tw_journal w0" "prior_text env w0 canon = Some old"
    using assms(1,4) by (auto simp: prior_text_def)
  obtain p hits nt where l: "locate env old (ei_old inp) = (p, hits, nt)" by (cases "locate env old (ei_old inp)")
  show ?thesis
    using assms(2,3) same
    by (auto simp: edit_text_def l untouched_def replaced_def replaced_prior_def atomic_write_def record_change_def Let_def split: option.split)
qed

lemma edit_call_effect:
  "untouched w (edit_call env inp w) \<or>
   (\<exists>p content. replaced env w p content (edit_call env inp w) \<and> prior_text env w p = tw_files w p)"
proof (cases "resolve_within (te_canonicalize env) (te_roots env) (te_cwd env) (ei_path inp)")
  case (Inl e)
  then show ?thesis by (auto simp: edit_call_def untouched_def)
next
  case (Inr canon)
  note root = resolve_under_root(1) [OF Inr]
  let ?s = "current_read_state env w canon"
  let ?w = "if ?s = Unread then record_read env canon w else w"
  show ?thesis
  proof (cases "ei_old inp = ei_new inp \<or> ?s = Stale \<or> (\<exists>e. read_text env ?w canon = Inl e)")
    case True
    then show ?thesis by (auto simp: edit_call_def Inr untouched_def Let_def stale_read_error_def)
  next
    case False
    then obtain old where old: "read_text env ?w canon = Inr old" by (cases "read_text env ?w canon") auto
    have "edit_call env inp w = edit_text env inp canon (?s = Unread) old ?w" using False old by (simp add: edit_call_def Inr Let_def)
    moreover have "untouched w (edit_text env inp canon (?s = Unread) old ?w) \<or>
        (\<exists>content. replaced env w canon content (edit_text env inp canon (?s = Unread) old ?w))"
      by (rule edit_text_effect [OF old root]) (use False in auto)
    moreover have "read_text env w canon = Inr old" using old by (simp split: if_splits)
    ultimately show ?thesis by (metis prior_text_read)
  qed
qed

lemma check_existing_cases:
  assumes "check_existing env canon w = Some (auto_read, w')"
  shows "(w' = w \<or> w' = record_read env canon w) \<and> (path_exists env w canon \<longrightarrow> current_read_state env w canon \<noteq> Stale)"
  using assms by (auto simp: check_existing_def split: if_splits read_state.splits)

lemma write_text_effect:
  assumes "under_root (te_canonicalize env) canon (te_roots env)"
    and "w = w0 \<or> w = record_read env canon w0" and "path_exists env w0 canon \<longrightarrow> current_read_state env w0 canon \<noteq> Stale"
  shows "untouched w0 (write_text env inp canon auto_read w) \<or>
    replaced env w0 canon (preserve_line_endings (prior_text env w0 canon) (wi_content inp)) (write_text env inp canon auto_read w)"
proof -
  have "prior_text env w canon = prior_text env w0 canon" "tw_files w = tw_files w0" "tw_journal w = tw_journal w0"
    using assms(2) by (auto simp: prior_text_def)
  then show ?thesis
    using assms(1,3)
    by (auto simp: write_text_def untouched_def replaced_def replaced_prior_def atomic_write_def record_change_def Let_def
        prior_text_def [symmetric] split: sum.split option.split)
qed

lemma write_call_effect:
  "untouched w (write_call env inp w) \<or>
   (\<exists>p. replaced env w p (preserve_line_endings (prior_text env w p) (wi_content inp)) (write_call env inp w))"
proof (cases "resolve_within_loose (te_canonicalize env) (te_roots env) (te_cwd env) (wi_path inp)")
  case (Inl e)
  then show ?thesis by (auto simp: write_call_def untouched_def)
next
  case (Inr canon)
  show ?thesis
  proof (cases "check_existing env canon w")
    case None
    then show ?thesis by (auto simp: write_call_def Inr untouched_def stale_read_error_def)
  next
    case (Some res)
    then obtain auto_read w' where c: "check_existing env canon w = Some (auto_read, w')" by (cases res) auto
    have "write_call env inp w = write_text env inp canon auto_read w'" by (simp add: write_call_def Inr c)
    then show ?thesis
      using write_text_effect [OF resolve_under_root(2) [OF Inr], of w' w inp auto_read] check_existing_cases [OF c] by auto
  qed
qed

lemma append_chunk_effect:
  assumes "old = prior_text env w0 canon" and "under_root (te_canonicalize env) canon (te_roots env)"
    and "w = w0 \<or> w = record_read env canon w0" and "path_exists env w0 canon \<longrightarrow> current_read_state env w0 canon \<noteq> Stale"
  shows "untouched w0 (append_chunk env inp canon auto_read old w) \<or>
    replaced env w0 canon (unwrap_or [] old @ normalize_chunk old (ai_content inp)) (append_chunk env inp canon auto_read old w)"
  using assms
  by (auto simp: append_chunk_def untouched_def replaced_def replaced_prior_def atomic_write_def record_change_def Let_def split: sum.split option.split)

lemma append_call_effect:
  "untouched w (append_call env inp w) \<or>
   (\<exists>p. replaced env w p (unwrap_or [] (prior_text env w p) @ normalize_chunk (prior_text env w p) (ai_content inp)) (append_call env inp w) \<and>
        (prior_text env w p = tw_files w p \<or> prior_text env w p = None \<and> prior_lost env (CallAppend inp) w p))"
proof (cases "resolve_within_loose (te_canonicalize env) (te_roots env) (te_cwd env) (ai_path inp)")
  case (Inl e)
  then show ?thesis by (auto simp: append_call_def untouched_def)
next
  case (Inr canon)
  note root = resolve_under_root(2) [OF Inr]
  show ?thesis
  proof (cases "check_existing env canon w")
    case None
    then show ?thesis by (auto simp: append_call_def Inr untouched_def stale_read_error_def)
  next
    case (Some res)
    then obtain auto_read w' where c: "check_existing env canon w = Some (auto_read, w')" by (cases res) auto
    note w' = check_existing_cases [OF c]
    then have same: "tw_files w' = tw_files w" "tw_journal w' = tw_journal w" "read_text env w' canon = read_text env w canon" by auto
    define old where "old = prior_text env w canon"
    have eff: "untouched w (append_chunk env inp canon auto_read old w') \<or>
      replaced env w canon (unwrap_or [] old @ normalize_chunk old (ai_content inp)) (append_chunk env inp canon auto_read old w')"
      by (rule append_chunk_effect [OF old_def root]) (use w' in auto)
    have "append_call env inp w = append_chunk env inp canon auto_read old w' \<and>
        (old = tw_files w canon \<or> old = None \<and> prior_lost env (CallAppend inp) w canon) \<or> untouched w (append_call env inp w)"
      using same prior_text_cases [of env w canon] by (auto simp: append_call_def Inr c append_text_def untouched_def old_def prior_text_def prior_lost_def Let_def
          split: sum.split option.split)
    then show ?thesis using eff unfolding old_def by metis
  qed
qed

lemma invoke_effect:
  "untouched w (invoke env c w) \<or>
   (\<exists>p content. replaced env w p content (invoke env c w) \<and>
      (prior_text env w p = tw_files w p \<or> prior_text env w p = None \<and> prior_lost env c w p))"
proof (cases c)
  case (CallRead d m inp)
  then show ?thesis using read_call_effect [of w d m env inp] by simp
next
  case (CallEdit inp)
  then show ?thesis using edit_call_effect [of w env inp] by auto
next
  case (CallWrite inp)
  have "prior_text env w p = tw_files w p \<or> prior_text env w p = None \<and> prior_lost env c w p" for p
    using prior_text_cases [of env w p] by (auto simp: CallWrite prior_lost_def prior_text_def split: sum.split)
  then show ?thesis using write_call_effect [of w env inp] by (auto simp: CallWrite)
next
  case (CallAppend inp)
  then show ?thesis using append_call_effect [of w env inp] by auto
qed

text \<open>
  C9: a call of a file tool changes at most one file. Either no file and nothing of the rewind journal changes and the
  outcome reports no change, or exactly one file is replaced. That file lies under an allowed root, and if it was there before,
  either the agent had not read it in this session or its modification time and digest were those of the last read. The journal
  and the outcome receive as earlier contents the very bytes the file had, or that there was none, with one exception: a file that is
  there is journalled as absent when \<open>Write\<close> replaces a file that cannot be read or is no UTF-8, or when \<open>Append\<close> was told by
  the operating system that it is not found. \<open>Edit\<close> always journals the bytes.
\<close>

theorem file_tools_change_one_file:
  "untouched w (invoke env c w) \<or>
   (\<exists>p content prior. replaced_prior env w p content prior (invoke env c w) \<and>
      (prior = tw_files w p \<or> prior = None \<and> prior_lost env c w p))"
  using invoke_effect [of w env c] unfolding replaced_def by blast

section \<open>Rewinding the calls of a turn\<close>

datatype action = Advance io | Call tool_env invocation

fun act :: "(durable_entry \<Rightarrow> string) \<Rightarrow> action \<Rightarrow> tool_world \<Rightarrow> tool_world" where
  "act to_json (Advance i) w = w\<lparr>tw_journal := advance_turn to_json i (tw_journal w)\<rparr>"
| "act to_json (Call env c) w = snd (invoke env c w)"

text \<open>
  What rewinding needs of a run: digests and journal lines are made the same way throughout, and when a file is there,
  it can be read and holds UTF-8. \<open>contents_seen\<close> are the contents that the files have before and after the actions.
\<close>

definition readable_files :: "tool_env \<Rightarrow> tool_world \<Rightarrow> bool" where
  "readable_files env w \<longleftrightarrow> (\<forall>p. te_fault env p = None \<and> (\<forall>b. tw_files w p = Some b \<longrightarrow> from_utf8 b = Some b))"

fun run_ok :: "(string \<Rightarrow> string) \<Rightarrow> (durable_entry \<Rightarrow> string) \<Rightarrow> action list \<Rightarrow> tool_world \<Rightarrow> bool" where
  "run_ok hash to_json [] w \<longleftrightarrow> True"
| "run_ok hash to_json (a # as) w \<longleftrightarrow>
     (case a of Advance _ \<Rightarrow> True | Call env _ \<Rightarrow> te_hash env = hash \<and> te_json env = to_json \<and> readable_files env w) \<and>
     run_ok hash to_json as (act to_json a w)"

fun action_turns :: "action list \<Rightarrow> nat" where
  "action_turns [] = 0"
| "action_turns (Advance _ # as) = Suc (action_turns as)"
| "action_turns (Call _ _ # as) = action_turns as"

lemma prior_text_readable: "readable_files env w \<Longrightarrow> prior_text env w p = tw_files w p"
  by (cases "tw_files w p") (auto simp: prior_text_def read_text_def read_bytes_def readable_files_def)

fun contents_seen :: "(durable_entry \<Rightarrow> string) \<Rightarrow> action list \<Rightarrow> tool_world \<Rightarrow> string set" where
  "contents_seen to_json [] w = ran (tw_files w)"
| "contents_seen to_json (a # as) w = ran (tw_files w) \<union> contents_seen to_json as (act to_json a w)"

lemma contents_seen_start: "ran (tw_files w) \<subseteq> contents_seen to_json as w"
  by (cases as) simp_all

lemma call_is_event:
  assumes "te_hash env = hash" and "te_json env = to_json" and "readable_files env w"
  shows "\<exists>es. advances es = 0 \<and> edit_contents es \<subseteq> ran (tw_files (snd (invoke env c w))) \<and>
    fold (run_event hash to_json) es (tw_journal w, tw_files w) = (tw_journal (snd (invoke env c w)), tw_files (snd (invoke env c w)))"
  using invoke_effect [of w env c]
proof
  assume "untouched w (invoke env c w)"
  then show ?thesis by (intro exI [of _ "[]"]) (simp add: untouched_def)
next
  assume "\<exists>p content. replaced env w p content (invoke env c w) \<and>
      (prior_text env w p = tw_files w p \<or> prior_text env w p = None \<and> prior_lost env c w p)"
  then obtain p content where r: "replaced env w p content (invoke env c w)" by blast
  then have "content \<in> ran (tw_files (snd (invoke env c w)))" by (auto simp: replaced_def replaced_prior_def ran_def)
  with r show ?thesis using assms
    by (intro exI [of _ "[EvEdit p content (te_blob_io env) (te_log_io env)]"])
      (simp add: replaced_def replaced_prior_def prior_text_readable)
qed

lemma run_is_events:
  assumes "run_ok hash to_json as w"
  shows "\<exists>es. advances es = action_turns as \<and> edit_contents es \<subseteq> contents_seen to_json as w \<and>
    fold (run_event hash to_json) es (tw_journal w, tw_files w) =
    (tw_journal (fold (act to_json) as w), tw_files (fold (act to_json) as w))"
  using assms
proof (induction as arbitrary: w)
  case Nil
  then show ?case by (intro exI [of _ "[]"]) simp
next
  case (Cons a as)
  obtain es where es: "advances es = action_turns [a]" "edit_contents es \<subseteq> ran (tw_files (act to_json a w))"
    "fold (run_event hash to_json) es (tw_journal w, tw_files w) = (tw_journal (act to_json a w), tw_files (act to_json a w))"
  proof (cases a)
    case (Advance i)
    then show thesis by (intro that [of "[EvAdvance i]"]) simp_all
  next
    case (Call env c)
    then show thesis using call_is_event [of env hash to_json w c] Cons.prems that by auto
  qed
  obtain es' where es': "advances es' = action_turns as" "edit_contents es' \<subseteq> contents_seen to_json as (act to_json a w)"
    "fold (run_event hash to_json) es' (tw_journal (act to_json a w), tw_files (act to_json a w)) =
      (tw_journal (fold (act to_json) as (act to_json a w)), tw_files (fold (act to_json) as (act to_json a w)))"
    using Cons.IH [of "act to_json a w"] Cons.prems by auto
  have seen: "edit_contents (es @ es') \<subseteq> contents_seen to_json (a # as) w"
    using es(2) es'(2) contents_seen_start [of "act to_json a w" to_json as] by (auto simp: edit_contents_append)
  show ?case
    by (intro exI [of _ "es @ es'"] conjI seen) (use es es' in \<open>cases a; simp add: advances_append\<close>)+
qed

text \<open>
  C8: rewinding undoes the file tools: whatever calls of \<open>Read\<close>, \<open>Edit\<close>, \<open>Write\<close> and \<open>Append\<close> the agent makes over some turns,
  failed ones included, rewinding those turns gives every file that the restoration can write or remove the contents it had before the first of them,
  whatever happens to the restoration of other files (a failed write may truncate one), and gives the journal the records
  it had. The hypotheses: whenever a tool is called, the files can be read and hold UTF-8 and the tool uses the session's digest and journal format (\<open>run_ok\<close>); no two
  different contents that the files have during the run have the same digest, and digests are file names (\<open>collision_free\<close> on
  \<open>contents_seen\<close>); a blob that is there under the digest of such a content and with its length is that content
  (\<open>blobs_ok\<close>); the journal's own file is not in the directory of the blobs (\<open>store_apart\<close>); and no record of the journal is
  from a turn after the present one.
\<close>

theorem rewind_undoes_tool_calls:
  assumes "collision_free hash (contents_seen to_json (Advance i # as) w0)"
    and "tw_journal w0 = (j0, fs0)" and "store_apart hash (storage j0)"
    and "blobs_ok hash (contents_seen to_json (Advance i # as) w0) (storage j0) fs0"
    and "\<forall>r \<in> set (records j0). cr_turn r \<le> jturn j0"
    and "run_ok hash to_json (Advance i # as) w0" and "fold (act to_json) (Advance i # as) w0 = w"
    and "rewind_session to_json ok fate (Suc (action_turns as)) (tw_journal w) (tw_files w) = (report, (j', fs'), files')"
  shows "(\<forall>p. (\<forall>n. fate n p = Complete) \<longrightarrow> files' p = tw_files w0 p) \<and> records j' = records j0"
proof -
  let ?w1 = "act to_json (Advance i) w0" and ?S = "contents_seen to_json (Advance i # as) w0"
  obtain es where es: "advances es = action_turns as" "edit_contents es \<subseteq> contents_seen to_json as ?w1"
    "fold (run_event hash to_json) es (tw_journal ?w1, tw_files ?w1) = (tw_journal w, tw_files w)"
    using run_is_events [of hash to_json as ?w1] assms(6,7) by auto
  obtain j fs where jf: "tw_journal w = (j, fs)" by fastforce
  have run: "fold (run_event hash to_json) es (advance_turn to_json i (j0, fs0), tw_files w0) = ((j, fs), tw_files w)"
    using es(3) by (simp add: assms(2) jf)
  have seen: "ran (tw_files w0) \<union> edit_contents es \<subseteq> ?S" using es(2) by auto
  from events_restored [OF assms(1) seen assms(3,4,5) run, of ok fate report j' fs' files'] assms(8) es(1) jf show ?thesis by simp
qed

definition demo_tool_env :: tool_env where
  "demo_tool_env =
     \<lparr>te_canonicalize = Inr, te_roots = [''/r''], te_cwd = ''/r'', te_fault = (\<lambda>_. None), te_dir = (\<lambda>_. True), te_mkdir = (\<lambda>_. None),
      te_write = (\<lambda>_. None), te_now = 7, te_hash = demo_hash, te_json = demo_to_json, te_blob_io = Complete, te_log_io = Complete,
      te_ratio = (\<lambda>a b. if a = b then 1 else 0), te_percent = (\<lambda>_. ''100''), te_debug = (\<lambda>s. s)\<rparr>"

lemma demo_tool_env_simps [simp]:
  "te_canonicalize demo_tool_env = Inr" "te_roots demo_tool_env = [''/r'']" "te_cwd demo_tool_env = ''/r''" "te_fault demo_tool_env p = None"
  "te_dir demo_tool_env p" "te_write demo_tool_env p = None"
  by (simp_all add: demo_tool_env_def)

definition demo_world :: tool_world where
  "demo_world =
     \<lparr>tw_files = [''/r/a'' \<mapsto> ''old''], tw_mtime = (\<lambda>_. 0), tw_registry = read_registry_new, tw_journal = (journal_new None, Map.empty)\<rparr>"

definition demo_digest_env :: tool_env where
  "demo_digest_env = demo_tool_env\<lparr>te_hash := demo_digest\<rparr>"

lemma demo_digest_env_simps [simp]:
  "te_canonicalize demo_digest_env = Inr" "te_roots demo_digest_env = [''/r'']" "te_cwd demo_digest_env = ''/r''"
  "te_fault demo_digest_env p = None" "te_dir demo_digest_env p" "te_write demo_digest_env p = None"
  "te_hash demo_digest_env = demo_digest" "te_json demo_digest_env = demo_to_json"
  by (simp_all add: demo_digest_env_def demo_tool_env_def)

definition demo_actions :: "action list" where
  "demo_actions = [Call demo_digest_env (CallWrite \<lparr>wi_path = ''/r/a'', wi_content = ''new''\<rparr>)]"

lemma demo_actions_run:
  fixes w :: tool_world
  defines "w \<equiv> act demo_to_json (Advance Complete) (demo_world\<lparr>tw_journal := (journal_new (Some ''/tmp''), Map.empty)\<rparr>)"
  shows "tw_files w = [''/r/a'' \<mapsto> ''old'']" and "readable_files demo_digest_env w"
    and "tw_files (fold (act demo_to_json) demo_actions w) = [''/r/a'' \<mapsto> ''new'']"
proof -
  show f: "tw_files w = [''/r/a'' \<mapsto> ''old'']" by (simp add: w_def demo_world_def)
  have u: "from_utf8 ''old'' = Some ''old''" by code_simp
  show "readable_files demo_digest_env w"
    using u by (auto simp: readable_files_def demo_digest_env_def f split: if_splits)
  have r: "resolve_within_loose Inr [''/r''] ''/r'' ''/r/a'' = Inr ''/r/a''" by code_simp
  have pe: "preserve_line_endings (Some ''old'') ''new'' = ''new''" by code_simp
  have pp: "path_parent ''/r/a'' = Some ''/r''" by code_simp
  have reg: "registry_lookup ''/r/a'' (tw_registry w) = None"
    by (simp add: w_def demo_world_def registry_lookup_def read_registry_new_def)
  have ex: "path_exists demo_digest_env w' ''/r''" "path_exists demo_digest_env w ''/r/a''" for w'
    by (simp_all add: path_exists_def f)
  have rt: "read_text demo_digest_env w ''/r/a'' = Inr ''old''" using u by (simp add: read_text_def read_bytes_def f)
  have wt: "tw_files (snd (write_text demo_digest_env \<lparr>wi_path = ''/r/a'', wi_content = ''new''\<rparr> ''/r/a'' True
      (record_read demo_digest_env ''/r/a'' w))) = [''/r/a'' \<mapsto> ''new'']"
    by (simp add: write_text_def ensure_parent_def pp ex rt pe atomic_write_def record_change_def Let_def f)
  show "tw_files (fold (act demo_to_json) demo_actions w) = [''/r/a'' \<mapsto> ''new'']"
    using wt by (simp add: demo_actions_def write_call_def r check_existing_def ex current_read_state_def reg)
qed

theorem rewind_undoes_tool_calls_witness:
  "let w = fold (act demo_to_json) (Advance Complete # demo_actions) (demo_world\<lparr>tw_journal := (journal_new (Some ''/tmp''), Map.empty)\<rparr>);
       (report, jf, files) = rewind_session demo_to_json True (\<lambda>_ _. Complete) 1 (tw_journal w) (tw_files w)
   in tw_files w ''/r/a'' = Some ''new'' \<and> files ''/r/a'' = Some ''old''"
proof -
  let ?w0 = "demo_world\<lparr>tw_journal := (journal_new (Some ''/tmp''), Map.empty)\<rparr>"
  let ?S = "contents_seen demo_to_json (Advance Complete # demo_actions) ?w0"
  define w where "w = fold (act demo_to_json) (Advance Complete # demo_actions) ?w0"
  have turns: "Suc (action_turns demo_actions) = 1" by (simp add: demo_actions_def)
  obtain report j' fs' files' where r:
    "rewind_session demo_to_json True (\<lambda>_ _. Complete) (Suc (action_turns demo_actions)) (tw_journal w) (tw_files w) = (report, (j', fs'), files')"
    by (metis prod.collapse)
  have ok: "run_ok demo_digest demo_to_json (Advance Complete # demo_actions) ?w0"
    using demo_actions_run(2) by (simp add: demo_actions_def)
  have S: "?S = {''old'', ''new''}"
    using demo_actions_run(1,3) by (auto simp: demo_actions_def demo_world_def)
  have free: "collision_free demo_digest ?S"
    using demo_digest_ok unfolding S collision_free_def by (auto intro: inj_on_subset)
  have blobs: "blobs_ok demo_digest ?S (storage (journal_new (Some ''/tmp''))) Map.empty" by (simp add: blobs_ok_def)
  have "(\<forall>p. (\<forall>n :: nat. Complete = Complete) \<longrightarrow> files' p = tw_files ?w0 p) \<and> records j' = records (journal_new (Some ''/tmp''))"
    by (rule rewind_undoes_tool_calls [OF free _ _ blobs _ ok w_def [symmetric] r])
      (simp_all add: store_apart_def journal_new_def)
  then have "files' ''/r/a'' = Some ''old''" by (simp add: demo_world_def)
  moreover have "tw_files w ''/r/a'' = Some ''new''" using demo_actions_run(3) by (simp add: w_def)
  ultimately show ?thesis using r unfolding w_def [symmetric] Let_def turns by (simp only: prod.case)
qed

section \<open>Exact edits\<close>

lemma edit_call_unfold:
  assumes "ei_old inp \<noteq> ei_new inp" and "resolve_within (te_canonicalize env) (te_roots env) (te_cwd env) (ei_path inp) = Inr canon"
    and "current_read_state env w canon \<noteq> Stale" and "te_fault env canon = None"
    and "tw_files w canon = Some content" and "from_utf8 content = Some content"
  obtains w' where "w' = w \<or> w' = record_read env canon w"
    and "edit_call env inp w = edit_text env inp canon (current_read_state env w canon = Unread) content w'"
proof -
  let ?w = "if current_read_state env w canon = Unread then record_read env canon w else w"
  have "read_text env ?w canon = Inr content" using assms(4,5,6) by (simp add: read_text_def read_bytes_def)
  then have "edit_call env inp w = edit_text env inp canon (current_read_state env w canon = Unread) content ?w"
    using assms(1,2,3) by (simp add: edit_call_def Let_def)
  then show thesis by (intro that [of ?w]) auto
qed

text \<open>
  C10: an exact edit replaces exactly what it names: when \<open>old_string\<close> has one occurrence in a file with Unix line endings and the
  result keeps them and the final newline, the file afterwards is the text before the match, \<open>new_string\<close>, and the text
  behind the match.
\<close>

theorem edit_replaces_the_match:
  assumes "ei_old inp \<noteq> ei_new inp" and "resolve_within (te_canonicalize env) (te_roots env) (te_cwd env) (ei_path inp) = Inr canon"
    and "current_read_state env w canon \<noteq> Stale" and "te_fault env canon = None" and "te_write env canon = None"
    and "tw_files w canon = Some content" and "from_utf8 content = Some content"
    and "content = before @ ei_old inp @ behind" and "\<forall>a b. content = a @ ei_old inp @ b \<longrightarrow> a = before"
    and "\<not> contains_str crlf content" and "\<not> contains_str crlf (before @ ei_new inp @ behind)"
    and "suffix newline content \<longleftrightarrow> suffix newline (before @ ei_new inp @ behind)"
  shows "tw_files (snd (edit_call env inp w)) = (tw_files w)(canon \<mapsto> before @ ei_new inp @ behind)"
proof -
  let ?p = "ei_old inp" and ?q = "ei_new inp"
  note unique = unique_occurrence [OF assms(8,9)]
  have "edited (ei_all inp) ?p ?q content = before @ ?q @ behind"
    using preserve_exact [OF assms(10,11,12)] unique by (simp add: edited_def)
  moreover have "locate env content ?p = (?p, 1, None)" using unique(1) by (simp add: locate_def Let_def)
  moreover have "before @ ?q @ behind \<noteq> content" using assms(1,8) by simp
  moreover obtain w' where w': "w' = w \<or> w' = record_read env canon w"
    "edit_call env inp w = edit_text env inp canon (current_read_state env w canon = Unread) content w'"
    by (rule edit_call_unfold [OF assms(1,2,3,4,6,7)])
  ultimately show ?thesis
    using assms(5) by (auto simp: edit_text_def atomic_write_def record_change_def Let_def)
qed

text \<open>
  \<open>Edit\<close> never guesses between several matches: when \<open>old_string\<close> occurs more than once and \<open>replace_all\<close> is not set, the call
  is an error and no file changes.
\<close>

theorem edit_refuses_several_matches:
  assumes "1 < length (match_indices (ei_old inp) content)" and "\<not> ei_all inp" and "tw_files w canon = Some content"
    and "ei_old inp \<noteq> ei_new inp" and "resolve_within (te_canonicalize env) (te_roots env) (te_cwd env) (ei_path inp) = Inr canon"
  shows "(\<exists>m retryable. fst (edit_call env inp w) = OutError m retryable) \<and> tw_files (snd (edit_call env inp w)) = tw_files w"
proof (cases "current_read_state env w canon = Stale")
  case True
  then show ?thesis using assms(4,5) by (auto simp: edit_call_def stale_read_error_def)
next
  case False
  let ?w = "if current_read_state env w canon = Unread then record_read env canon w else w"
  have call: "edit_call env inp w = (case read_text env ?w canon of
      Inl e \<Rightarrow> (OutError (canon @ '': '' @ io_message e) (\<not> is_not_found e), ?w)
    | Inr c \<Rightarrow> edit_text env inp canon (current_read_state env w canon = Unread) c ?w)"
    using False assms(4,5) by (simp add: edit_call_def Let_def)
  show ?thesis
  proof (cases "read_text env ?w canon")
    case (Inl e)
    then show ?thesis by (simp add: call)
  next
    case (Inr c)
    then have "c = content" using assms(3)
      by (auto simp: read_text_def read_bytes_def dest: from_utf8_id split: option.splits if_splits sum.splits)
    moreover have "locate env content (ei_old inp) = (ei_old inp, length (match_indices (ei_old inp) content), None)"
      using assms(1) by (auto simp: locate_def Let_def)
    ultimately show ?thesis using assms(1,2) Inr by (auto simp: call edit_text_def)
  qed
qed

theorem edit_refuses_several_matches_witness:
  "tw_files (snd (edit_call demo_tool_env \<lparr>ei_path = ''/r/a'', ei_old = ''a'', ei_new = ''b'', ei_all = False\<rparr>
      (demo_world\<lparr>tw_files := [''/r/a'' \<mapsto> ''a a'']\<rparr>))) = [''/r/a'' \<mapsto> ''a a'']"
proof -
  have "length (match_indices ''a'' ''a a'') = 2" by code_simp
  moreover have "resolve_within Inr [''/r''] ''/r'' ''/r/a'' = Inr ''/r/a''" by code_simp
  ultimately show ?thesis
    using edit_refuses_several_matches [of "\<lparr>ei_path = ''/r/a'', ei_old = ''a'', ei_new = ''b'', ei_all = False\<rparr>" "''a a''"
        "demo_world\<lparr>tw_files := [''/r/a'' \<mapsto> ''a a'']\<rparr>" "''/r/a''" demo_tool_env]
    by (simp add: demo_tool_env_def)
qed

theorem edit_replaces_the_match_witness:
  "tw_files (snd (edit_call demo_tool_env \<lparr>ei_path = ''/r/a'', ei_old = ''ld'', ei_new = ''dd'', ei_all = False\<rparr> demo_world)) = [''/r/a'' \<mapsto> ''odd'']"
proof -
  have r: "resolve_within Inr [''/r''] ''/r'' ''/r/a'' = Inr ''/r/a''" by code_simp
  have u: "from_utf8 ''old'' = Some ''old''" by code_simp
  have once: "\<forall>a b. ''old'' = a @ ''ld'' @ b \<longrightarrow> a = ''o''" by (auto simp: append_eq_Cons_conv Cons_eq_append_conv)
  have "tw_files (snd (edit_call demo_tool_env \<lparr>ei_path = ''/r/a'', ei_old = ''ld'', ei_new = ''dd'', ei_all = False\<rparr> demo_world)) =
      (tw_files demo_world)(''/r/a'' \<mapsto> ''o'' @ ''dd'' @ [])"
    by (rule edit_replaces_the_match [where content = "''old''" and before = "''o''" and behind = "[]" and
          inp = "\<lparr>ei_path = ''/r/a'', ei_old = ''ld'', ei_new = ''dd'', ei_all = False\<rparr>" and env = demo_tool_env, unfolded edit_input.simps])
      (use r u once in \<open>simp_all add: demo_tool_env_def demo_world_def current_read_state_def registry_lookup_def read_registry_new_def
        newline_eq suffix_def\<close>)
  then show ?thesis by (simp add: demo_world_def)
qed

text \<open>
  Occurrences that overlap are counted once: \<open>Edit\<close> takes the first of them, although it promises to refuse a text that
  does not occur exactly once.
\<close>

theorem edit_accepts_overlapping_matches:
  assumes "p \<noteq> []" and "content = p @ behind" and "content = a # as @ p @ bs" and "length (a # as) < length p" and "\<not> contains_str p (drop (length p) content)"
  shows "locate env content p = (p, 1, None) \<and> replace_first p q content = q @ behind"
proof -
  have pre: "prefix p content" using assms(2) by simp
  obtain c cs where c: "content = c # cs" using assms(3) by blast
  have "match_from p 0 content = 0 # match_from p (length p) (drop (length p - 1) cs)" using pre c by simp
  moreover have "drop (length p - 1) cs = drop (length p) content" using assms(1) c by (cases p) auto
  ultimately have "match_indices p content = [0]" using match_from_Nil_iff [OF assms(1)] assms(1,5) by (simp add: match_indices_def)
  moreover have "find_str p content = Some 0" using pre by (rule find_str_prefix)
  ultimately show ?thesis using assms(2) by (simp add: locate_def replace_first_def)
qed

lemma edit_accepts_overlapping_matches_witness:
  "locate env [CHR ''}'', lf, CHR ''}'', lf, CHR ''}'', lf] [CHR ''}'', lf, CHR ''}'', lf] = ([CHR ''}'', lf, CHR ''}'', lf], 1, None)"
  by (rule conjunct1 [OF edit_accepts_overlapping_matches [where behind = "[CHR ''}'', lf]" and a = "CHR ''}''" and as = "[lf]" and bs = "[]"]])
    simp_all

text \<open>
  A near match names one line and edits another: when the only similar line also occurs at the start of an earlier,
  longer line, the replacement hits the longer line, while the outcome reports the other one.
\<close>

theorem near_match_edits_other_line:
  assumes "lf \<notin> set short" and "lf \<notin> set rest" and "cr \<notin> set short" and "cr \<notin> set rest" and "short \<noteq> []" and "rest \<noteq> []"
    and "content = (short @ rest) @ newline @ short @ newline" and "\<not> contains_str needle content"
    and "cr \<notin> set needle" and "lf \<notin> set needle" and "trim needle \<noteq> []"
    and "near_match_threshold \<le> te_ratio env (normalize_whitespace short) (normalize_whitespace needle)"
    and "te_ratio env (normalize_whitespace (short @ rest)) (normalize_whitespace needle) < near_match_threshold"
  shows "fst (locate env content needle) = short \<and> (\<exists>m. snd (snd (locate env content needle)) = Some (''applied unique near-match at line 2'' @ m))
    \<and> replace_first short q content = (q @ rest) @ newline @ short @ newline"
proof -
  have body: "line_body (l @ newline) = l" if "cr \<notin> set l" for l
    using that by (auto simp: line_body_def strip_suffix_def suffix_def split: if_splits)
  have "split_inclusive content = [(short @ rest) @ newline, short @ newline]"
    unfolding assms(7) append_assoc [symmetric] using assms(1,2) split_inclusive_line [of "short @ rest" "short @ newline"]
      split_inclusive_line [of short "[]"] by (auto simp: newline_eq)
  then have ls: "str_lines content = [short @ rest, short]" using body [of "short @ rest"] body [of short] assms(3,4) by (simp add: str_lines_def)
  have none: "match_indices needle content = []" using assms(8) by (simp add: match_indices_find(1) find_str_None_iff)
  have "\<not> contains_str crlf content"
  proof
    assume "contains_str crlf content"
    then have "cr \<in> set content" by (auto simp: contains_str_iff)
    then show False using assms(3,4,7) by (auto simp: newline_eq)
  qed
  moreover have "unique_near_line_match (te_ratio env) content needle =
      Some (short, 2, te_ratio env (normalize_whitespace short) (normalize_whitespace needle))"
    using assms(9-13) by (simp add: unique_near_line_match_def ls not_le)
  ultimately have "locate env content needle = (short, 1, Some (''applied unique near-match at line '' @ show_nat 2 @ '' (''
      @ te_percent env (te_ratio env (normalize_whitespace short) (normalize_whitespace needle)) @ ''% similar)''))"
    using none by (simp add: locate_def)
  moreover have "show_nat 2 = ''2''" by code_simp
  moreover have "find_str short content = Some 0" by (rule find_str_prefix) (simp add: assms(7))
  ultimately show ?thesis using assms(7) by (auto simp: replace_first_def)
qed

section \<open>Appending once\<close>

lemma normalize_chunk_nonempty: "chunk \<noteq> [] \<Longrightarrow> normalize_chunk old chunk \<noteq> []"
proof -
  assume "chunk \<noteq> []"
  have keep: "str_replace p q s \<noteq> []" if "p \<noteq> []" "q \<noteq> []" "s \<noteq> []" for p q s using that by (cases s) (auto simp: str_replace_def)
  have one: "str_replace crlf newline chunk \<noteq> []" by (rule keep) (use \<open>chunk \<noteq> []\<close> in \<open>simp_all add: newline_eq\<close>)
  moreover have "str_replace newline crlf (str_replace crlf newline chunk) \<noteq> []" by (rule keep) (use one in \<open>simp_all add: newline_eq\<close>)
  ultimately show ?thesis by (auto simp: normalize_chunk_def Let_def split: option.split)
qed

lemma append_call_ok:
  assumes "append_call env inp w = (OutOk m t arts, w1)"
    and "resolve_within_loose (te_canonicalize env) (te_roots env) (te_cwd env) (ai_path inp) = Inr canon"
  defines "old \<equiv> prior_text env w canon"
  shows "tw_files w1 canon = Some (unwrap_or [] old @ normalize_chunk old (ai_content inp)) \<and>
    (\<forall>e. ai_expected inp = Some e \<longrightarrow> unat e = length (unwrap_or [] old))"
proof -
  obtain auto_read w' where c: "check_existing env canon w = Some (auto_read, w')"
    using assms(1,2) by (cases "check_existing env canon w") (auto simp: append_call_def stale_read_error_def)
  have prior: "prior_text env w' canon = old" using check_existing_cases [OF c] by (auto simp: old_def prior_text_def)
  have run: "append_text env inp canon auto_read old w' = (OutOk m t arts, w1)"
    using assms(1) prior by (auto simp: append_call_def assms(2) c prior_text_def split: sum.splits if_splits)
  then have chunk: "append_chunk env inp canon auto_read old w' = (OutOk m t arts, w1)"
    and size: "\<forall>e. ai_expected inp = Some e \<longrightarrow> unat e = length (unwrap_or [] old)"
    by (auto simp: append_text_def Let_def split: option.splits if_splits)
  from chunk have "tw_files w1 canon = Some (unwrap_or [] old @ normalize_chunk old (ai_content inp))"
    by (auto simp: append_chunk_def atomic_write_def record_change_def Let_def split: sum.splits option.splits)
  then show ?thesis using size by blast
qed

text \<open>
  An append that carries the expected size happens at most once: when it succeeded and the file has not changed since,
  repeating the same call is an error and changes no file, whatever else happened in between.
\<close>

theorem append_not_repeated:
  assumes "append_call env inp w = (OutOk m t arts, w1)" and "ai_expected inp = Some expected" and "ai_content inp \<noteq> []"
    and "resolve_within_loose (te_canonicalize env) (te_roots env) (te_cwd env) (ai_path inp) = Inr canon"
    and "resolve_within_loose (te_canonicalize env') (te_roots env') (te_cwd env') (ai_path inp) = Inr canon"
    and "te_fault env' canon = None" and "tw_files w2 canon = tw_files w1 canon"
  shows "(\<exists>m retryable. fst (append_call env' inp w2) = OutError m retryable) \<and> tw_files (snd (append_call env' inp w2)) = tw_files w2"
proof -
  define old where "old = prior_text env w canon"
  define content where "content = unwrap_or [] old @ normalize_chunk old (ai_content inp)"
  have stored: "tw_files w2 canon = Some content" and size: "unat expected = length (unwrap_or [] old)"
    using append_call_ok [OF assms(1,4)] assms(2,7) by (simp_all add: content_def old_def)
  have longer: "unat expected \<noteq> length content" using size normalize_chunk_nonempty [OF assms(3), of old] by (simp add: content_def)
  show ?thesis
  proof (cases "check_existing env' canon w2")
    case None
    then show ?thesis by (auto simp: append_call_def assms(5) stale_read_error_def)
  next
    case (Some res)
    then obtain auto_read w' where c: "check_existing env' canon w2 = Some (auto_read, w')" by (cases res) auto
    have same: "tw_files w' = tw_files w2" using check_existing_cases [OF c] by auto
    show ?thesis
    proof (cases "from_utf8 content")
      case None
      then have "read_text env' w' canon = Inl (OtherIo ''stream did not contain valid UTF-8'')"
        using assms(6) same stored by (simp add: read_text_def read_bytes_def)
      then show ?thesis using same by (auto simp: append_call_def assms(5) c is_not_found_def)
    next
      case (Some u)
      then have "read_text env' w' canon = Inr content"
        using assms(6) same stored from_utf8_id [OF Some] by (simp add: read_text_def read_bytes_def)
      then show ?thesis using same longer assms(2) by (auto simp: append_call_def assms(5) c append_text_def unwrap_or_def)
    qed
  qed
qed

theorem append_not_repeated_witness:
  "let inp = \<lparr>ai_path = ''/r/a'', ai_content = ''x'', ai_expected = Some 3\<rparr>; w1 = snd (append_call demo_tool_env inp demo_world)
   in tw_files (snd (append_call demo_tool_env inp w1)) = tw_files w1"
proof -
  let ?inp = "\<lparr>ai_path = ''/r/a'', ai_content = ''x'', ai_expected = Some 3\<rparr>"
  have r: "resolve_within_loose Inr [''/r''] ''/r'' ''/r/a'' = Inr ''/r/a''" by code_simp
  have u: "from_utf8 ''old'' = Some ''old''" by code_simp
  have unread: "current_read_state demo_tool_env demo_world ''/r/a'' = Unread"
    by (simp add: current_read_state_def registry_lookup_def demo_world_def read_registry_new_def)
  have rd: "read_text demo_tool_env demo_world ''/r/a'' = Inr ''old''"
    unfolding read_text_def read_bytes_def using u by (simp add: demo_world_def del: from_utf8.simps)
  have parent: "ensure_parent demo_tool_env p w = Inr False" for p w by (simp add: ensure_parent_def path_exists_def split: option.split)
  have "\<exists>m t arts. fst (append_call demo_tool_env ?inp demo_world) = OutOk m t arts"
    by (auto simp: append_call_def r check_existing_def path_exists_def unread rd append_text_def append_chunk_def parent
        atomic_write_def unwrap_or_def Let_def)
  then obtain m t arts where run: "append_call demo_tool_env ?inp demo_world = (OutOk m t arts, snd (append_call demo_tool_env ?inp demo_world))"
    by (metis prod.collapse)
  have "tw_files (snd (append_call demo_tool_env ?inp (snd (append_call demo_tool_env ?inp demo_world)))) = tw_files (snd (append_call demo_tool_env ?inp demo_world))"
    by (rule conjunct2 [OF append_not_repeated [OF run]]) (use r in \<open>simp_all add: demo_tool_env_def\<close>)
  then show ?thesis by (simp add: Let_def)
qed

end
