(* ===== verification/DLR_Filter.thy ===== *)
theory DLR_Filter
  imports DLR_Frame
begin

text \<open>
  \<open>integrations/dlr/crates/core/src/filter.rs\<close>: the cuckoo filter in front of the content store. \<open>xxh3\<close> is \<open>xxh3_64\<close>, a
  parameter; \<open>usize\<close> has 64 bits. The operations are those of one thread.
\<close>

section \<open>The filter\<close>

definition golden64 :: u64 where
  "golden64 = 0x9E3779B97F4A7C15"

definition slots :: nat where
  "slots = 4"

definition kicks :: nat where
  "kicks = 500"

record cuckoo =
  cf_buckets :: "u16 list list"
  cf_mask :: u64
  cf_count :: nat
  cf_saturated :: bool

text \<open>\<open>usize::next_power_of_two\<close>.\<close>

function next_pow2 :: "nat \<Rightarrow> nat \<Rightarrow> nat" where
  "next_pow2 n p = (if p < n \<and> 0 < p then next_pow2 n (2 * p) else p)"
  by pat_completeness auto
termination
  by (relation "measure (\<lambda>(n, p). n - p)") auto

declare next_pow2.simps [simp del]

definition bucket_empty :: "u16 list" where
  "bucket_empty = replicate slots 0"

definition with_capacity :: "nat \<Rightarrow> cuckoo" where
  "with_capacity cap =
     (let nbuckets = max (next_pow2 (cap div slots) 1) 4
      in \<lparr>cf_buckets = replicate nbuckets bucket_empty, cf_mask = word_of_nat (nbuckets - 1), cf_count = 0, cf_saturated = False\<rparr>)"

definition key_fp :: "(bytes \<Rightarrow> u64) \<Rightarrow> bytes \<Rightarrow> u16" where
  "key_fp xxh3 key = max (ucast (xxh3 key)) 1"

definition primary :: "(bytes \<Rightarrow> u64) \<Rightarrow> u64 \<Rightarrow> bytes \<Rightarrow> u64" where
  "primary xxh3 msk key = and (xxh3 key) msk"

definition alt_index :: "u64 \<Rightarrow> u64 \<Rightarrow> u16 \<Rightarrow> u64" where
  "alt_index msk i fp = and (xor i (ucast fp * golden64)) msk"

text \<open>The fingerprint in the first empty slot.\<close>

fun place_fp :: "u16 \<Rightarrow> u16 list \<Rightarrow> u16 list option" where
  "place_fp fp [] = None"
| "place_fp fp (x # xs) = (if x = 0 then Some (fp # xs) else map_option ((#) x) (place_fp fp xs))"

definition set_bucket :: "u64 \<Rightarrow> u16 list \<Rightarrow> cuckoo \<Rightarrow> cuckoo" where
  "set_bucket i b f = f\<lparr>cf_buckets := (cf_buckets f)[unat i := b]\<rparr>"

text \<open>The loop of \<open>insert\<close>, with what is left of the \<open>KICKS\<close> attempts; at the end the fingerprint in hand is dropped.\<close>

fun kick :: "nat \<Rightarrow> u64 \<Rightarrow> u16 \<Rightarrow> cuckoo \<Rightarrow> bool \<times> cuckoo" where
  "kick 0 i fp f = (False, f)"
| "kick (Suc n) i fp f =
     (let b = cf_buckets f ! unat i in
      case place_fp fp b of
        Some b' \<Rightarrow> (True, (set_bucket i b' f)\<lparr>cf_count := cf_count f + 1\<rparr>)
      | None \<Rightarrow>
          (let s = unat fp mod slots; victim = b ! s
           in kick n (alt_index (cf_mask f) i victim) victim (set_bucket i (b[s := fp]) f)))"

definition fp_bytes :: "u16 \<Rightarrow> bytes" where
  "fp_bytes fp = le_bytes 2 (uint fp)"

definition regrow_index :: "(bytes \<Rightarrow> u64) \<Rightarrow> u64 \<Rightarrow> u16 \<Rightarrow> u64" where
  "regrow_index xxh3 msk fp = and (xxh3 (fp_bytes fp)) msk"

definition regrow :: "(bytes \<Rightarrow> u64) \<Rightarrow> u64 \<Rightarrow> u16 \<Rightarrow> u16 list list \<Rightarrow> u16 list list" where
  "regrow xxh3 msk fp bs =
     (let i1 = regrow_index xxh3 msk fp;
          b = (case place_fp fp (bs ! unat i1) of Some b \<Rightarrow> b | None \<Rightarrow> bs ! unat i1);
          bs = bs[unat i1 := b]
      in if fp \<in> set b then bs
         else let i2 = alt_index msk i1 fp
              in bs[unat i2 := (case place_fp fp (bs ! unat i2) of Some b \<Rightarrow> b | None \<Rightarrow> bs ! unat i2)])"

definition max_buckets :: nat where
  "max_buckets = 2 ^ 24"

definition grow :: "(bytes \<Rightarrow> u64) \<Rightarrow> cuckoo \<Rightarrow> bool \<times> cuckoo" where
  "grow xxh3 f =
     (let cur = length (cf_buckets f)
      in if cur = 0 \<or> max_buckets \<le> cur then (False, f)
         else let fps = filter (\<lambda>fp. fp \<noteq> 0) (concat (cf_buckets f));
                  n = cur * 2;
                  msk = word_of_nat (n - 1)
              in (True, f\<lparr>cf_buckets := fold (regrow xxh3 msk) fps (replicate n bucket_empty), cf_mask := msk\<rparr>))"

definition filter_insert :: "(bytes \<Rightarrow> u64) \<Rightarrow> bytes \<Rightarrow> cuckoo \<Rightarrow> bool \<times> cuckoo" where
  "filter_insert xxh3 key f =
     (if cf_saturated f then (False, f)
      else case kick kicks (primary xxh3 (cf_mask f) key) (key_fp xxh3 key) f of
        (True, f) \<Rightarrow> (True, f)
      | (False, f) \<Rightarrow>
          (case grow xxh3 f of
             (True, f) \<Rightarrow>
               (let i = primary xxh3 (cf_mask f) key
                in case place_fp (key_fp xxh3 key) (cf_buckets f ! unat i) of
                     Some b \<Rightarrow> (True, (set_bucket i b f)\<lparr>cf_count := cf_count f + 1\<rparr>)
                   | None \<Rightarrow> (False, f\<lparr>cf_saturated := True\<rparr>))
           | (False, f) \<Rightarrow> (False, f\<lparr>cf_saturated := True\<rparr>)))"

text \<open>A fingerprint in one of the two buckets of its first index.\<close>

definition stored :: "u64 \<Rightarrow> u16 \<Rightarrow> cuckoo \<Rightarrow> bool" where
  "stored i fp f \<longleftrightarrow>
     fp \<in> set (cf_buckets f ! unat i) \<or> fp \<in> set (cf_buckets f ! unat (alt_index (cf_mask f) i fp))"

definition filter_contains :: "(bytes \<Rightarrow> u64) \<Rightarrow> bytes \<Rightarrow> cuckoo \<Rightarrow> bool" where
  "filter_contains xxh3 key f \<longleftrightarrow> cf_saturated f \<or> stored (primary xxh3 (cf_mask f) key) (key_fp xxh3 key) f"

definition filter_clear :: "cuckoo \<Rightarrow> cuckoo" where
  "filter_clear f = f\<lparr>cf_buckets := map (\<lambda>_. bucket_empty) (cf_buckets f), cf_count := 0, cf_saturated := False\<rparr>"

definition filter_capacity :: "cuckoo \<Rightarrow> nat" where
  "filter_capacity f = length (cf_buckets f) * slots"

section \<open>Well-formed filters\<close>

definition filter_ok :: "cuckoo \<Rightarrow> bool" where
  "filter_ok f \<longleftrightarrow> length (cf_buckets f) = unat (cf_mask f) + 1 \<and> (\<forall>b \<in> set (cf_buckets f). length b = slots)"

lemma next_pow2_ge: "0 < p \<Longrightarrow> p \<le> next_pow2 n p"
proof (induction n p rule: next_pow2.induct)
  case (1 n p)
  then show ?case by (subst next_pow2.simps) auto
qed

lemma next_pow2_le: "0 < p \<Longrightarrow> next_pow2 n p \<le> max (2 * n) p"
proof (induction n p rule: next_pow2.induct)
  case (1 n p)
  then show ?case by (subst next_pow2.simps) (auto simp: max_def split: if_splits)
qed

lemma with_capacity_ok: "cap < 2 ^ 62 \<Longrightarrow> filter_ok (with_capacity cap)"
proof -
  assume cap: "cap < 2 ^ 62"
  let ?n = "max (next_pow2 (cap div slots) 1) 4"
  have "?n \<le> max (2 * (cap div slots)) 4" using next_pow2_le [of 1 "cap div slots"] by auto
  then have "?n < 2 ^ 64" using cap by (simp add: slots_def)
  then have "unat (word_of_nat (?n - 1) :: u64) = ?n - 1" by (intro unat_u64_of_nat) simp
  then show ?thesis by (simp add: filter_ok_def with_capacity_def Let_def bucket_empty_def)
qed

lemma index_range: "filter_ok f \<Longrightarrow> unat (and h (cf_mask f)) < length (cf_buckets f)"
proof -
  assume "filter_ok f"
  moreover have "and h (cf_mask f) \<le> cf_mask f" by (rule word_and_le1)
  ultimately show ?thesis by (simp add: filter_ok_def word_le_nat_alt less_Suc_eq_le)
qed

text \<open>\<open>alt(alt(i)) == i\<close>.\<close>

lemma alt_index_involutive: "and i msk = i \<Longrightarrow> alt_index msk (alt_index msk i fp) fp = i"
proof -
  assume i: "and i msk = i"
  have "and (xor (and (xor i d) msk) d) msk = and i msk" for d :: u64
    by (rule bit_word_eqI) (auto simp: bit_simps)
  then show ?thesis using i by (simp add: alt_index_def)
qed

lemma masked [simp]: "and (primary xxh3 msk key) msk = primary xxh3 msk key" "and (alt_index msk i fp) msk = alt_index msk i fp"
  "and (regrow_index xxh3 msk fp) msk = regrow_index xxh3 msk fp"
  by (simp_all add: primary_def alt_index_def regrow_index_def and.assoc)

lemma place_fp_Some: "place_fp fp b = Some b' \<Longrightarrow> length b' = length b \<and> (\<forall>x. x \<noteq> 0 \<longrightarrow> (x \<in> set b' \<longleftrightarrow> x = fp \<or> x \<in> set b))"
  by (induction b arbitrary: b') (auto split: if_splits)

lemma place_fp_None: "place_fp fp b = None \<Longrightarrow> 0 \<notin> set b"
  by (induction b) (auto split: if_splits)


lemma bucket_ok: "filter_ok f \<Longrightarrow> length (cf_buckets f ! unat (and h (cf_mask f))) = slots"
  using index_range [of f h] by (simp add: filter_ok_def)

lemma set_bucket_simps [simp]:
  "cf_mask (set_bucket i b f) = cf_mask f" "cf_saturated (set_bucket i b f) = cf_saturated f" "cf_count (set_bucket i b f) = cf_count f"
  "cf_buckets (set_bucket i b f) = (cf_buckets f)[unat i := b]"
  by (simp_all add: set_bucket_def)

lemma filter_ok_set_bucket: "filter_ok f \<Longrightarrow> length b = slots \<Longrightarrow> filter_ok (set_bucket i b f)"
  by (auto simp: filter_ok_def dest: set_update_subset_insert [THEN subsetD])

lemma filter_ok_count [simp]: "filter_ok (f\<lparr>cf_count := n\<rparr>) = filter_ok f" "stored i q (f\<lparr>cf_count := n\<rparr>) = stored i q f"
  by (simp_all add: filter_ok_def stored_def)

section \<open>Evictions lose nothing but the fingerprint in hand\<close>

text \<open>A fingerprint that looks for a place: it is carried to bucket \<open>i\<close>, one of the two of index \<open>j\<close>.\<close>

definition in_hand :: "u64 \<Rightarrow> u64 \<Rightarrow> u16 \<Rightarrow> u64 \<Rightarrow> u16 \<Rightarrow> bool" where
  "in_hand msk i fp j q \<longleftrightarrow> q = fp \<and> (j = i \<or> alt_index msk j q = i)"

lemma stored_place:
  assumes "filter_ok f" "and i (cf_mask f) = i" "place_fp fp (cf_buckets f ! unat i) = Some b" "q \<noteq> 0"
    "stored j q f \<or> in_hand (cf_mask f) i fp j q"
  shows "stored j q (set_bucket i b f)"
proof -
  have "unat i < length (cf_buckets f)" using index_range [OF assms(1), of i] assms(2) by simp
  then show ?thesis using place_fp_Some [OF assms(3)] assms(4,5)
    by (auto simp: stored_def in_hand_def nth_list_update)
qed

lemma stored_evict:
  assumes "filter_ok f" "and i (cf_mask f) = i" "and j (cf_mask f) = j" "s < slots"
    "stored j q f \<or> in_hand (cf_mask f) i fp j q"
  defines "b \<equiv> cf_buckets f ! unat i"
  shows "stored j q (set_bucket i (b[s := fp]) f) \<or> in_hand (cf_mask f) (alt_index (cf_mask f) i (b ! s)) (b ! s) j q"
proof -
  let ?a = "alt_index (cf_mask f)"
  have i: "unat i < length (cf_buckets f)" using index_range [OF assms(1), of i] assms(2) by simp
  have s: "s < length b" using bucket_ok [OF assms(1), of i] assms(2,4) by (simp add: b_def)
  then have fp: "fp \<in> set (b[s := fp])" by (simp add: set_update_memI)
  have keep: "q = b ! s \<or> q \<in> set (b[s := fp])" if "q \<in> set b"
    using that s by (auto simp: in_set_conv_nth nth_list_update)
  have inv: "?a (?a j q) q = j" by (rule alt_index_involutive) (rule assms(3))
  have at: "unat x = unat i \<longleftrightarrow> x = i" for x by (simp add: word_unat_eq_iff)
  have bi: "x = i \<Longrightarrow> cf_buckets f ! unat x = b" for x by (simp add: b_def)
  show ?thesis
  proof (cases "q \<in> set (b[s := fp])")
    case True
    then show ?thesis using assms(5) i by (auto simp: stored_def in_hand_def nth_list_update at bi)
  next
    case False
    then have "q \<noteq> fp" using fp by auto
    then obtain k where k: "k = j \<or> k = ?a j q" "q \<in> set (cf_buckets f ! unat k)" using assms(5) by (auto simp: in_hand_def stored_def)
    show ?thesis
    proof (cases "k = i")
      case True
      then have "q = b ! s" using k(2) keep False by (simp add: b_def)
      then show ?thesis using k(1) True inv by (auto simp: in_hand_def)
    next
      case neq: False
      then have "q \<in> set (cf_buckets (set_bucket i (b[s := fp]) f) ! unat k)" using k(2) by (simp add: nth_list_update word_unat_eq_iff)
      then show ?thesis using k(1) by (auto simp: stored_def)
    qed
  qed
qed

lemma kick_keeps:
  assumes "kick n i fp f = (True, f')" "filter_ok f" "and i (cf_mask f) = i" "fp \<noteq> 0"
  shows "filter_ok f' \<and> cf_mask f' = cf_mask f \<and> cf_saturated f' = cf_saturated f \<and>
    (\<forall>j q. and j (cf_mask f) = j \<and> q \<noteq> 0 \<and> (stored j q f \<or> in_hand (cf_mask f) i fp j q) \<longrightarrow> stored j q f')"
  using assms
proof (induction n arbitrary: i fp f)
  case (Suc n)
  let ?b = "cf_buckets f ! unat i"
  have len: "length ?b = slots" using bucket_ok [OF Suc.prems(2), of i] Suc.prems(3) by simp
  show ?case
  proof (cases "place_fp fp ?b")
    case (Some b)
    then have "length b = slots" using place_fp_Some len by auto
    moreover have "f' = (set_bucket i b f)\<lparr>cf_count := cf_count f + 1\<rparr>" using Suc.prems(1) Some by (simp add: Let_def)
    ultimately show ?thesis
      using filter_ok_set_bucket [OF Suc.prems(2)] stored_place [OF Suc.prems(2,3) Some] by simp
  next
    case None
    let ?s = "unat fp mod slots"
    let ?f = "set_bucket i (?b[?s := fp]) f"
    have s: "?s < slots" by (simp add: slots_def)
    then have "?b ! ?s \<noteq> 0" using place_fp_None [OF None] len by (metis nth_mem)
    moreover have "filter_ok ?f" by (rule filter_ok_set_bucket [OF Suc.prems(2)]) (simp add: len)
    moreover have "kick n (alt_index (cf_mask f) i (?b ! ?s)) (?b ! ?s) ?f = (True, f')"
      using Suc.prems(1) None by (simp add: Let_def)
    ultimately have IH: "filter_ok f' \<and> cf_mask f' = cf_mask f \<and> cf_saturated f' = cf_saturated f \<and>
      (\<forall>j q. and j (cf_mask f) = j \<and> q \<noteq> 0 \<and> (stored j q ?f \<or> in_hand (cf_mask f) (alt_index (cf_mask f) i (?b ! ?s)) (?b ! ?s) j q) \<longrightarrow> stored j q f')"
      using Suc.IH [of "alt_index (cf_mask f) i (?b ! ?s)" "?b ! ?s" ?f] by simp
    then show ?thesis using stored_evict [OF Suc.prems(2,3) _ s] by blast
  qed
qed simp

lemma kick_mask: "cf_mask (snd (kick n i fp f)) = cf_mask f \<and> length (cf_buckets (snd (kick n i fp f))) = length (cf_buckets f)"
  by (induction n i fp f rule: kick.induct) (auto simp: Let_def split: option.splits)

lemma regrow_length: "length (regrow xxh3 msk fp bs) = length bs"
  by (simp add: regrow_def Let_def)

lemma fold_regrow_length: "length (fold (regrow xxh3 msk) fps bs) = length bs"
  by (induction fps arbitrary: bs) (simp_all add: regrow_length)

lemma grow_size: "length (cf_buckets (snd (grow xxh3 f))) = (if fst (grow xxh3 f) then 2 * length (cf_buckets f) else length (cf_buckets f))"
  by (simp add: grow_def Let_def fold_regrow_length)

lemma grow_nonempty: "fst (grow xxh3 f) \<Longrightarrow> 0 < length (cf_buckets f)"
  by (simp add: grow_def Let_def split: if_splits)

text \<open>An insertion that leaves the width of the table alone either saturates the filter or has found a place by evictions.\<close>

lemma insert_same_width:
  assumes "filter_capacity (snd (filter_insert xxh3 key f)) = filter_capacity f"
  shows "cf_saturated (snd (filter_insert xxh3 key f)) \<or>
    kick kicks (primary xxh3 (cf_mask f) key) (key_fp xxh3 key) f = (True, snd (filter_insert xxh3 key f))"
proof -
  obtain ok f1 where k: "kick kicks (primary xxh3 (cf_mask f) key) (key_fp xxh3 key) f = (ok, f1)" by fastforce
  obtain grown f2 where g: "grow xxh3 f1 = (grown, f2)" by fastforce
  have w1: "length (cf_buckets f1) = length (cf_buckets f)" using kick_mask [of kicks _ _ f] k by (metis snd_conv)
  have w2: "length (cf_buckets f2) = (if grown then 2 * length (cf_buckets f) else length (cf_buckets f))" "grown \<Longrightarrow> 0 < length (cf_buckets f)"
    using grow_size [of xxh3 f1] grow_nonempty [of xxh3 f1] g w1 by auto
  show ?thesis using assms k g w2
    by (auto simp: filter_insert_def filter_capacity_def slots_def Let_def split: option.splits bool.splits if_splits)
qed

lemma insert_widens: "filter_capacity f \<le> filter_capacity (snd (filter_insert xxh3 key f))"
proof -
  obtain ok f1 where k: "kick kicks (primary xxh3 (cf_mask f) key) (key_fp xxh3 key) f = (ok, f1)" by fastforce
  obtain grown f2 where g: "grow xxh3 f1 = (grown, f2)" by fastforce
  have w1: "length (cf_buckets f1) = length (cf_buckets f)" using kick_mask [of kicks _ _ f] k by (metis snd_conv)
  then have w2: "length (cf_buckets f) \<le> length (cf_buckets f2)" using grow_size [of xxh3 f1] g by (auto split: if_splits)
  show ?thesis using k g w1 w2
    by (auto simp: filter_insert_def filter_capacity_def slots_def Let_def split: option.splits bool.splits)
qed

lemma key_fp_nonzero: "key_fp xxh3 key \<noteq> 0"
  by (auto simp: key_fp_def max_def)

lemma insert_keeps:
  assumes "filter_ok f" "\<not> cf_saturated (snd (filter_insert xxh3 key f))"
    "filter_capacity (snd (filter_insert xxh3 key f)) = filter_capacity f"
  shows "filter_ok (snd (filter_insert xxh3 key f)) \<and> filter_contains xxh3 key (snd (filter_insert xxh3 key f)) \<and>
    (\<forall>k. filter_contains xxh3 k f \<longrightarrow> filter_contains xxh3 k (snd (filter_insert xxh3 key f)))"
proof -
  let ?i = "primary xxh3 (cf_mask f) key" and ?f = "snd (filter_insert xxh3 key f)"
  have "kick kicks ?i (key_fp xxh3 key) f = (True, ?f)" using insert_same_width [OF assms(3)] assms(2) by simp
  note * = kick_keeps [OF this assms(1) _ key_fp_nonzero, simplified]
  have "in_hand (cf_mask f) ?i (key_fp xxh3 key) ?i (key_fp xxh3 key)" by (simp add: in_hand_def)
  then show ?thesis using * key_fp_nonzero [of xxh3] assms(2) by (auto simp: filter_contains_def)
qed

lemma insert_saturated: "cf_saturated f \<Longrightarrow> filter_insert xxh3 key f = (False, f)"
  by (simp add: filter_insert_def)

definition insert_all :: "(bytes \<Rightarrow> u64) \<Rightarrow> bytes list \<Rightarrow> cuckoo \<Rightarrow> cuckoo" where
  "insert_all xxh3 keys f = fold (\<lambda>key f. snd (filter_insert xxh3 key f)) keys f"

lemma insert_all_simps [simp]: "insert_all xxh3 [] f = f"
  "insert_all xxh3 (k # keys) f = insert_all xxh3 keys (snd (filter_insert xxh3 k f))"
  by (simp_all add: insert_all_def)

lemma insert_all_saturated: "cf_saturated f \<Longrightarrow> insert_all xxh3 keys f = f"
  by (induction keys) (simp_all add: insert_saturated)

lemma insert_all_widens: "filter_capacity f \<le> filter_capacity (insert_all xxh3 keys f)"
  by (induction keys arbitrary: f) (auto intro: order_trans [OF insert_widens])

lemma insert_all_keeps:
  "filter_ok f \<Longrightarrow> filter_capacity (insert_all xxh3 keys f) = filter_capacity f \<Longrightarrow> key \<in> set keys \<or> filter_contains xxh3 key f
   \<Longrightarrow> filter_contains xxh3 key (insert_all xxh3 keys f)"
proof (induction keys arbitrary: f)
  case (Cons k keys)
  let ?f = "snd (filter_insert xxh3 k f)"
  have w: "filter_capacity ?f = filter_capacity f" "filter_capacity (insert_all xxh3 keys ?f) = filter_capacity ?f"
    using insert_widens [of f xxh3 k] insert_all_widens [of ?f xxh3 keys] Cons.prems(2) by simp_all
  show ?case
  proof (cases "cf_saturated ?f")
    case True
    then show ?thesis by (simp add: insert_all_saturated filter_contains_def)
  next
    case False
    then show ?thesis using Cons.IH [of ?f] insert_keeps [OF Cons.prems(1) False w(1)] w(2) Cons.prems(3) by auto
  qed
qed simp

section \<open>Widening\<close>

lemma place_fp_nonmember: "place_fp fp b = Some b' \<Longrightarrow> x \<noteq> fp \<Longrightarrow> x \<in> set b' \<Longrightarrow> x \<in> set b"
  by (induction b arbitrary: b') (auto split: if_splits)

text \<open>After widening, every fingerprint sits in one of the two buckets derived from the fingerprint itself.\<close>

definition by_fingerprint :: "(bytes \<Rightarrow> u64) \<Rightarrow> u64 \<Rightarrow> u16 list list \<Rightarrow> bool" where
  "by_fingerprint xxh3 msk bs \<longleftrightarrow>
     (\<forall>k < length bs. \<forall>fp \<in> set (bs ! k). fp \<noteq> 0 \<longrightarrow>
        k = unat (regrow_index xxh3 msk fp) \<or> k = unat (alt_index msk (regrow_index xxh3 msk fp) fp))"

lemma by_fingerprint_update:
  assumes "by_fingerprint xxh3 msk bs" "i = unat (regrow_index xxh3 msk fp) \<or> i = unat (alt_index msk (regrow_index xxh3 msk fp) fp)"
  shows "by_fingerprint xxh3 msk (bs[i := (case place_fp fp (bs ! i) of Some b \<Rightarrow> b | None \<Rightarrow> bs ! i)])"
proof (cases "i < length bs")
  case True
  then show ?thesis using assms unfolding by_fingerprint_def
    by (auto simp: nth_list_update split: option.splits dest: place_fp_nonmember)
      (metis option.sel option.simps(3) place_fp_nonmember)+
qed (simp add: assms(1) list_update_beyond)

lemma by_fingerprint_regrow: "by_fingerprint xxh3 msk bs \<Longrightarrow> by_fingerprint xxh3 msk (regrow xxh3 msk fp bs)"
  unfolding regrow_def Let_def by (simp add: by_fingerprint_update)

lemma by_fingerprint_fold: "by_fingerprint xxh3 msk bs \<Longrightarrow> by_fingerprint xxh3 msk (fold (regrow xxh3 msk) fps bs)"
  by (induction fps arbitrary: bs) (simp_all add: by_fingerprint_regrow)

lemma grow_by_fingerprint: "grow xxh3 f = (True, f') \<Longrightarrow> by_fingerprint xxh3 (cf_mask f') (cf_buckets f')"
proof -
  assume g: "grow xxh3 f = (True, f')"
  have "by_fingerprint xxh3 m (replicate n bucket_empty)" for m n by (simp add: by_fingerprint_def bucket_empty_def slots_def)
  then show ?thesis using g by (auto simp: grow_def Let_def by_fingerprint_fold split: if_splits)
qed

text \<open>A filter with three keys, two of which have the same first bucket.\<close>

definition demo_xxh3 :: "bytes \<Rightarrow> u64" where
  "demo_xxh3 k = (if k = [1] then 5 else if k = [2] then 9 else if k = [3] then 6 else if k = [5, 0] then 2 else 7)"

text \<open>
  C38: the filter has no false negatives while its table keeps its width: after any sequence of insertions that did not widen the table,
  every inserted key is reported as present, whatever was evicted on the way and even when an insertion failed and saturated the filter.
\<close>

theorem no_false_negatives:
  assumes "cap < 2 ^ 62" "filter_capacity (insert_all xxh3 keys (with_capacity cap)) = filter_capacity (with_capacity cap)" "key \<in> set keys"
  shows "filter_contains xxh3 key (insert_all xxh3 keys (with_capacity cap))"
  using insert_all_keeps [OF with_capacity_ok [OF assms(1)] assms(2)] assms(3) by blast

lemma kick_first: "place_fp fp (cf_buckets f ! unat i) = Some b \<Longrightarrow> kick kicks i fp f = (True, (set_bucket i b f)\<lparr>cf_count := cf_count f + 1\<rparr>)"
  by (simp add: kicks_def numeral_eq_Suc)

theorem no_false_negatives_witness:
  "filter_contains demo_xxh3 [2] (insert_all demo_xxh3 [[1], [2], [3]] (with_capacity 0))"
proof (rule no_false_negatives)
  show "filter_capacity (insert_all demo_xxh3 [[1], [2], [3]] (with_capacity 0)) = filter_capacity (with_capacity 0)" by code_simp
qed simp_all

text \<open>
  The table is widened from the fingerprints alone: each goes to the buckets derived from itself. A key that was present is then reported as
  absent unless its first bucket happens to be one of those two, although the filter is not saturated.
\<close>

theorem growth_forgets:
  assumes "filter_ok f'" "grow xxh3 f = (True, f')" "\<not> cf_saturated f"
    "primary xxh3 (cf_mask f') key \<notin> {regrow_index xxh3 (cf_mask f') (key_fp xxh3 key),
       alt_index (cf_mask f') (regrow_index xxh3 (cf_mask f') (key_fp xxh3 key)) (key_fp xxh3 key)}"
  shows "\<not> filter_contains xxh3 key f'"
proof -
  let ?i = "primary xxh3 (cf_mask f') key" and ?fp = "key_fp xxh3 key"
  let ?r = "regrow_index xxh3 (cf_mask f') ?fp" and ?a = "\<lambda>i. alt_index (cf_mask f') i ?fp"
  have here: "x = ?r \<or> x = ?a ?r" if "?fp \<in> set (cf_buckets f' ! unat x)" "and x (cf_mask f') = x" for x
    using grow_by_fingerprint [OF assms(2)] index_range [OF assms(1), of x] that key_fp_nonzero [of xxh3 key]
    by (auto simp: by_fingerprint_def word_unat_eq_iff)
  have "?fp \<notin> set (cf_buckets f' ! unat ?i)" using here [of ?i] assms(4) by auto
  moreover have "?fp \<notin> set (cf_buckets f' ! unat (?a ?i))"
  proof
    assume "?fp \<in> set (cf_buckets f' ! unat (?a ?i))"
    then have "?a ?i = ?r \<or> ?a ?i = ?a ?r" using here [of "?a ?i"] by simp
    then have "?a (?a ?i) = ?a ?r \<or> ?a (?a ?i) = ?a (?a ?r)" by auto
    then show False using alt_index_involutive [of ?i "cf_mask f'" ?fp] alt_index_involutive [of ?r "cf_mask f'" ?fp] assms(4) by auto
  qed
  moreover have "\<not> cf_saturated f'" using assms(2,3) by (auto simp: grow_def Let_def split: if_splits)
  ultimately show ?thesis by (simp add: filter_contains_def stored_def)
qed

definition demo_filter :: cuckoo where
  "demo_filter = insert_all demo_xxh3 [[1]] (with_capacity 0)"

definition demo_wide :: cuckoo where
  "demo_wide = demo_filter\<lparr>cf_buckets := (replicate 8 bucket_empty)[2 := [5, 0, 0, 0]], cf_mask := 7\<rparr>"

lemma grow_demo: "grow demo_xxh3 demo_filter = (True, demo_wide)"
proof -
  have "length (cf_buckets demo_filter) = 4" by code_simp
  moreover have "fold (regrow demo_xxh3 7) (filter (\<lambda>fp. fp \<noteq> 0) (concat (cf_buckets demo_filter))) (replicate 8 bucket_empty) = cf_buckets demo_wide"
    by code_simp
  ultimately show ?thesis by (simp add: grow_def max_buckets_def demo_wide_def)
qed

theorem growth_forgets_witness: "filter_contains demo_xxh3 [1] demo_filter \<and> \<not> filter_contains demo_xxh3 [1] demo_wide"
proof
  show "filter_contains demo_xxh3 [1] demo_filter" by code_simp
  show "\<not> filter_contains demo_xxh3 [1] demo_wide"
    by (rule growth_forgets [OF _ grow_demo]) code_simp+
qed

text \<open>
  Fingerprint and first bucket come from the same low bits of one hash: in a table of at least \<open>2 ^ 16\<close> buckets (the shim's filter has
  \<open>2 ^ 18\<close>) the bucket determines the fingerprint, and any two keys with the same first bucket are indistinguishable.
\<close>

theorem bucket_determines_fingerprint:
  assumes "and msk 0xFFFF = 0xFFFF" "primary xxh3 msk k = primary xxh3 msk l"
  shows "key_fp xxh3 k = key_fp xxh3 l"
proof -
  have "(ucast h :: u16) = ucast (and h msk)" for h :: u64
  proof (rule bit_word_eqI)
    fix n assume "n < LENGTH(16)"
    moreover have "bit (and msk 0xFFFF) n \<longleftrightarrow> bit (0xFFFF :: u64) n" using assms(1) by simp
    moreover have "bit (0xFFFF :: u64) n" if "n < 16"
    proof -
      have "bit (mask 16 :: u64) n" using that by (simp add: bit_mask_iff)
      then show ?thesis by (simp add: mask_eq_exp_minus_1)
    qed
    ultimately show "bit (ucast h :: u16) n = bit (ucast (and h msk) :: u16) n" by (auto simp: bit_simps)
  qed
  then show ?thesis using assms(2) unfolding key_fp_def primary_def by metis
qed

theorem bucket_determines_fingerprint_witness: "key_fp (\<lambda>k. if k = [1] then 0x5A0007 else 0x10A0007) [1] = key_fp (\<lambda>k. if k = [1] then 0x5A0007 else 0x10A0007) [2]"
  by (rule bucket_determines_fingerprint [where msk = "0xFFFF"]) (simp_all add: primary_def)

end
