(* ===== verification/DLR_Compress.thy ===== *)
theory DLR_Compress
  imports DLR_Frame
begin

text \<open>
  \<open>integrations/dlr/crates/compress\<close>: the block compressor over a dictionary (\<open>lib.rs\<close>) and compression against a reference block
  (\<open>delta.rs\<close>). zstd is a parameter: how a context is made from a level and a dictionary and what it does to bytes. The contexts that a
  thread keeps are explicit state. The hash of a reference (\<open>DefaultHasher\<close>) is a parameter.
\<close>

section \<open>Dictionaries and contexts\<close>

datatype compress_error = Encode string | Decode string | Dict_Id u64 u64

record dict =
  dc_id :: u64
  dc_content :: bytes

definition dict_empty :: dict where
  "dict_empty = \<lparr>dc_id = 0, dc_content = []\<rparr>"

definition dict_from_content :: "u64 \<Rightarrow> bytes \<Rightarrow> dict" where
  "dict_from_content i content = \<lparr>dc_id = i, dc_content = content\<rparr>"

text \<open>
  What the code calls of zstd: making a compression or decompression context (for an empty dictionary without one), the two operations,
  and the size that a frame declares. An error is its message.
\<close>

record ('e, 'd) zstd =
  z_encoder :: "int \<Rightarrow> bytes \<Rightarrow> string + 'e"
  z_compress :: "'e \<Rightarrow> bytes \<Rightarrow> string + bytes"
  z_decoder :: "bytes \<Rightarrow> string + 'd"
  z_decompress :: "'d \<Rightarrow> bytes \<Rightarrow> nat \<Rightarrow> string + bytes"
  z_content_size :: "bytes \<Rightarrow> u64 option"

text \<open>The contexts that a thread keeps, \<open>ENC\<close> and \<open>DEC\<close>.\<close>

record ('e, 'd) contexts =
  cx_enc :: "(int \<times> u64 \<times> 'e) option"
  cx_dec :: "(u64 \<times> 'd) option"

section \<open>The compressor\<close>

record compressor =
  cp_dict :: dict
  cp_level :: int
  cp_min_block :: nat

definition compressor_new :: "dict \<Rightarrow> int \<Rightarrow> compressor" where
  "compressor_new d level = \<lparr>cp_dict = d, cp_level = level, cp_min_block = 32\<rparr>"

definition compressor_default :: compressor where
  "compressor_default = compressor_new dict_empty 19"

definition with_level :: "int \<Rightarrow> compressor \<Rightarrow> compressor" where
  "with_level level c = c\<lparr>cp_level := level\<rparr>"

definition get_encoder :: "('e, 'd) zstd \<Rightarrow> compressor \<Rightarrow> ('e, 'd) contexts \<Rightarrow> compress_error + 'e \<times> ('e, 'd) contexts" where
  "get_encoder z c cx =
     (case cx_enc cx of
        Some (l, d, enc) \<Rightarrow>
          if l = cp_level c \<and> d = dc_id (cp_dict c) then Inr (enc, cx)
          else (case z_encoder z (cp_level c) (dc_content (cp_dict c)) of
                  Inl e \<Rightarrow> Inl (Encode e)
                | Inr enc \<Rightarrow> Inr (enc, cx\<lparr>cx_enc := Some (cp_level c, dc_id (cp_dict c), enc)\<rparr>))
      | None \<Rightarrow>
          (case z_encoder z (cp_level c) (dc_content (cp_dict c)) of
             Inl e \<Rightarrow> Inl (Encode e)
           | Inr enc \<Rightarrow> Inr (enc, cx\<lparr>cx_enc := Some (cp_level c, dc_id (cp_dict c), enc)\<rparr>)))"

definition mark_compressed :: "bytes \<Rightarrow> bytes \<Rightarrow> bytes" where
  "mark_compressed input compressed = (if length compressed + 1 \<ge> length input then 0 # input else 1 # compressed)"

definition compress_with :: "('e, 'd) zstd \<Rightarrow> compressor \<Rightarrow> bytes \<Rightarrow> ('e, 'd) contexts \<Rightarrow> (compress_error + bytes) \<times> ('e, 'd) contexts" where
  "compress_with z c input cx =
     (if length input < cp_min_block c then (Inr (0 # input), cx)
      else case get_encoder z c cx of
        Inl e \<Rightarrow> (Inl e, cx)
      | Inr (enc, cx) \<Rightarrow>
          (case z_compress z enc input of
             Inl e \<Rightarrow> (Inl (Encode e), cx)
           | Inr compressed \<Rightarrow> (Inr (mark_compressed input compressed), cx)))"

definition get_decoder :: "('e, 'd) zstd \<Rightarrow> compressor \<Rightarrow> ('e, 'd) contexts \<Rightarrow> compress_error + 'd \<times> ('e, 'd) contexts" where
  "get_decoder z c cx =
     (case cx_dec cx of
        Some (d, dec) \<Rightarrow>
          if d = dc_id (cp_dict c) then Inr (dec, cx)
          else (case z_decoder z (dc_content (cp_dict c)) of
                  Inl e \<Rightarrow> Inl (Decode e)
                | Inr dec \<Rightarrow> Inr (dec, cx\<lparr>cx_dec := Some (dc_id (cp_dict c), dec)\<rparr>))
      | None \<Rightarrow>
          (case z_decoder z (dc_content (cp_dict c)) of
             Inl e \<Rightarrow> Inl (Decode e)
           | Inr dec \<Rightarrow> Inr (dec, cx\<lparr>cx_dec := Some (dc_id (cp_dict c), dec)\<rparr>)))"

text \<open>The capacity of the output: the size that the frame declares, or \<open>body.len().saturating_mul(64) + (1 << 20)\<close>.\<close>

definition output_cap :: "('e, 'd) zstd \<Rightarrow> bytes \<Rightarrow> nat" where
  "output_cap z body = (case z_content_size z body of Some s \<Rightarrow> unat s | None \<Rightarrow> min (length body * 64) (2 ^ 64 - 1) + 2 ^ 20)"

definition decompress_with :: "('e, 'd) zstd \<Rightarrow> compressor \<Rightarrow> bytes \<Rightarrow> ('e, 'd) contexts \<Rightarrow> (compress_error + bytes) \<times> ('e, 'd) contexts" where
  "decompress_with z c input cx =
     (case input of
        [] \<Rightarrow> (Inl (Decode ''empty input''), cx)
      | marker # body \<Rightarrow>
          if marker = 0 then (Inr body, cx)
          else if marker = 1 then
            (case get_decoder z c cx of
               Inl e \<Rightarrow> (Inl e, cx)
             | Inr (dec, cx) \<Rightarrow>
                 (case z_decompress z dec body (output_cap z body) of
                    Inl e \<Rightarrow> (Inl (Decode e), cx)
                  | Inr out \<Rightarrow> (Inr out, cx)))
          else (Inl (Decode (''unknown marker '' @ show_nat (unat marker))), cx))"

section \<open>Training and references\<close>

text \<open>One pass over the samples; the second component says that the budget is used up.\<close>

fun train_pass :: "nat \<Rightarrow> nat \<Rightarrow> bytes list \<Rightarrow> bytes \<Rightarrow> bytes \<times> bool" where
  "train_pass pass target [] dict = (dict, False)"
| "train_pass pass target (s # samples) dict =
     (if s = [] then train_pass pass target samples dict
      else let n = min (length s) (target - length dict)
           in if n = 0 then (dict, True)
              else let chunk = (if pass mod 2 = 0 then take n s else drop (length s - n) s)
                   in train_pass pass target samples (dict @ chunk))"

fun train_passes :: "nat list \<Rightarrow> nat \<Rightarrow> bytes list \<Rightarrow> bytes \<Rightarrow> bytes" where
  "train_passes [] target samples dict = dict"
| "train_passes (p # ps) target samples dict =
     (case train_pass p target samples dict of (dict, stop) \<Rightarrow> if stop then dict else train_passes ps target samples dict)"

definition train_dictionary :: "bytes list \<Rightarrow> nat \<Rightarrow> bytes" where
  "train_dictionary samples target = train_passes [0, 1, 2] target (sort_key length samples) []"

fun common_prefix_len :: "bytes \<Rightarrow> bytes \<Rightarrow> nat" where
  "common_prefix_len (a # as) (b # bs) = (if a = b then Suc (common_prefix_len as bs) else 0)"
| "common_prefix_len _ _ = 0"

text \<open>\<open>max_by_key\<close> keeps the last of the greatest.\<close>

definition pick_reference :: "bytes \<Rightarrow> bytes list \<Rightarrow> bytes option" where
  "pick_reference input candidates =
     fold (\<lambda>c best. case best of None \<Rightarrow> Some c | Some b \<Rightarrow> if common_prefix_len input b \<le> common_prefix_len input c then Some c else Some b)
       candidates None"

definition reference_dict :: "(bytes \<Rightarrow> u64) \<Rightarrow> bytes \<Rightarrow> dict" where
  "reference_dict ref_dict_id reference = (if reference = [] then dict_empty else dict_from_content (ref_dict_id reference) reference)"

definition delta_compressor :: "(bytes \<Rightarrow> u64) \<Rightarrow> bytes \<Rightarrow> int \<Rightarrow> compressor" where
  "delta_compressor ref_dict_id reference level = compressor_new (reference_dict ref_dict_id reference) level"

definition compress_with_reference ::
    "('e, 'd) zstd \<Rightarrow> (bytes \<Rightarrow> u64) \<Rightarrow> bytes \<Rightarrow> bytes \<Rightarrow> int \<Rightarrow> ('e, 'd) contexts \<Rightarrow> (compress_error + bytes) \<times> ('e, 'd) contexts" where
  "compress_with_reference z ref_dict_id input reference level cx = compress_with z (delta_compressor ref_dict_id reference level) input cx"

definition decompress_with_reference ::
    "('e, 'd) zstd \<Rightarrow> (bytes \<Rightarrow> u64) \<Rightarrow> bytes \<Rightarrow> bytes \<Rightarrow> int \<Rightarrow> ('e, 'd) contexts \<Rightarrow> (compress_error + bytes) \<times> ('e, 'd) contexts" where
  "decompress_with_reference z ref_dict_id blob reference level cx = decompress_with z (delta_compressor ref_dict_id reference level) blob cx"

section \<open>The compressor without its contexts\<close>

definition compress_block :: "('e, 'd) zstd \<Rightarrow> compressor \<Rightarrow> bytes \<Rightarrow> compress_error + bytes" where
  "compress_block z c input = fst (compress_with z c input \<lparr>cx_enc = None, cx_dec = None\<rparr>)"

definition decompress_block :: "('e, 'd) zstd \<Rightarrow> compressor \<Rightarrow> bytes \<Rightarrow> compress_error + bytes" where
  "decompress_block z c input = fst (decompress_with z c input \<lparr>cx_enc = None, cx_dec = None\<rparr>)"

text \<open>
  The ids of the dictionaries in use determine their contents, and the kept contexts were made from the dictionary and the level that they
  are filed under.
\<close>

definition contexts_ok :: "('e, 'd) zstd \<Rightarrow> (u64 \<Rightarrow> bytes) \<Rightarrow> ('e, 'd) contexts \<Rightarrow> bool" where
  "contexts_ok z content cx \<longleftrightarrow>
     (case cx_enc cx of None \<Rightarrow> True | Some (l, d, enc) \<Rightarrow> z_encoder z l (content d) = Inr enc) \<and>
     (case cx_dec cx of None \<Rightarrow> True | Some (d, dec) \<Rightarrow> z_decoder z (content d) = Inr dec)"

definition dict_filed :: "(u64 \<Rightarrow> bytes) \<Rightarrow> compressor \<Rightarrow> bool" where
  "dict_filed content c \<longleftrightarrow> content (dc_id (cp_dict c)) = dc_content (cp_dict c)"

lemma get_encoder_fresh:
  assumes "contexts_ok z content cx" "dict_filed content c"
  shows "case z_encoder z (cp_level c) (dc_content (cp_dict c)) of
      Inl e \<Rightarrow> get_encoder z c cx = Inl (Encode e)
    | Inr enc \<Rightarrow> \<exists>cx'. get_encoder z c cx = Inr (enc, cx') \<and> contexts_ok z content cx'"
  using assms by (auto simp: get_encoder_def contexts_ok_def dict_filed_def split: sum.splits option.splits)

lemma get_decoder_fresh:
  assumes "contexts_ok z content cx" "dict_filed content c"
  shows "case z_decoder z (dc_content (cp_dict c)) of
      Inl e \<Rightarrow> get_decoder z c cx = Inl (Decode e)
    | Inr dec \<Rightarrow> \<exists>cx'. get_decoder z c cx = Inr (dec, cx') \<and> contexts_ok z content cx'"
  using assms by (auto simp: get_decoder_def contexts_ok_def dict_filed_def split: sum.splits option.splits)

lemma fresh_contexts: "contexts_ok z content \<lparr>cx_enc = None, cx_dec = None\<rparr>"
  by (simp add: contexts_ok_def)

text \<open>The kept contexts change nothing but the time.\<close>

lemma compress_with_eq:
  assumes "contexts_ok z content cx" "dict_filed content c"
  shows "fst (compress_with z c input cx) = compress_block z c input \<and> contexts_ok z content (snd (compress_with z c input cx))"
proof (cases "z_encoder z (cp_level c) (dc_content (cp_dict c))")
  case (Inl e)
  then show ?thesis using get_encoder_fresh [OF assms] get_encoder_fresh [OF fresh_contexts assms(2), of z] assms(1)
    by (simp add: compress_with_def compress_block_def)
next
  case (Inr enc)
  then obtain cx1 cx2 where "get_encoder z c cx = Inr (enc, cx1)" "contexts_ok z content cx1"
    "get_encoder z c \<lparr>cx_enc = None, cx_dec = None\<rparr> = Inr (enc, cx2)"
    using get_encoder_fresh [OF assms] get_encoder_fresh [OF fresh_contexts assms(2), of z] by auto
  then show ?thesis using assms(1) by (simp add: compress_with_def compress_block_def split: sum.split)
qed

lemma decompress_with_eq:
  assumes "contexts_ok z content cx" "dict_filed content c"
  shows "fst (decompress_with z c input cx) = decompress_block z c input \<and> contexts_ok z content (snd (decompress_with z c input cx))"
proof (cases "z_decoder z (dc_content (cp_dict c))")
  case (Inl e)
  then show ?thesis using get_decoder_fresh [OF assms] get_decoder_fresh [OF fresh_contexts assms(2), of z] assms(1)
    by (simp add: decompress_with_def decompress_block_def split: list.split)
next
  case (Inr dec)
  then obtain cx1 cx2 where "get_decoder z c cx = Inr (dec, cx1)" "contexts_ok z content cx1"
    "get_decoder z c \<lparr>cx_enc = None, cx_dec = None\<rparr> = Inr (dec, cx2)"
    using get_decoder_fresh [OF assms] get_decoder_fresh [OF fresh_contexts assms(2), of z] by auto
  then show ?thesis using assms(1) by (simp add: decompress_with_def decompress_block_def split: sum.split list.split)
qed

text \<open>
  What zstd promises: contexts for a dictionary can be made, compression succeeds, and decompression with the same dictionary and enough room
  gives the input back.
\<close>

definition zstd_ok :: "('e, 'd) zstd \<Rightarrow> int set \<Rightarrow> bytes \<Rightarrow> bool" where
  "zstd_ok z levels content \<longleftrightarrow>
     (\<exists>dec. z_decoder z content = Inr dec \<and>
       (\<forall>l \<in> levels. \<exists>enc. z_encoder z l content = Inr enc \<and>
         (\<forall>x. \<exists>y. z_compress z enc x = Inr y \<and> z_decompress z dec y (output_cap z y) = Inr x)))"

lemma compress_block_roundtrip:
  assumes "zstd_ok z levels (dc_content (cp_dict c))" "cp_level c \<in> levels" "cp_dict c' = cp_dict c"
  shows "\<exists>y. compress_block z c x = Inr y \<and> decompress_block z c' y = Inr x"
proof (cases "length x < cp_min_block c")
  case True
  then show ?thesis by (simp add: compress_block_def compress_with_def decompress_block_def decompress_with_def)
next
  case False
  obtain dec enc y where z: "z_decoder z (dc_content (cp_dict c)) = Inr dec" "z_encoder z (cp_level c) (dc_content (cp_dict c)) = Inr enc"
    "z_compress z enc x = Inr y" "z_decompress z dec y (output_cap z y) = Inr x"
    using assms(1,2) by (auto simp: zstd_ok_def) metis
  then have "compress_block z c x = Inr (mark_compressed x y)" using False by (simp add: compress_block_def compress_with_def get_encoder_def)
  moreover have "decompress_block z c' (mark_compressed x y) = Inr x"
    using z assms(3) by (simp add: decompress_block_def decompress_with_def get_decoder_def mark_compressed_def)
  ultimately show ?thesis by blast
qed

text \<open>Compression never makes a block longer by more than its marker.\<close>

lemma compress_block_length: "compress_block z c x = Inr y \<Longrightarrow> length y \<le> length x + 1"
  by (auto simp: compress_block_def compress_with_def mark_compressed_def split: if_splits sum.splits prod.splits)

lemma train_pass_length: "length dict \<le> target \<Longrightarrow> train_pass p target samples dict = (dict', stop) \<Longrightarrow> length dict' \<le> target"
  by (induction p target samples dict rule: train_pass.induct) (auto simp: Let_def split: if_splits)

lemma train_passes_length: "length dict \<le> target \<Longrightarrow> length (train_passes ps target samples dict) \<le> target"
  by (induction ps target samples dict rule: train_passes.induct) (auto split: prod.splits dest: train_pass_length)

lemma common_prefix_len_take: "take (common_prefix_len a b) a = take (common_prefix_len a b) b"
  by (induction a b rule: common_prefix_len.induct) auto

lemma pick_reference_snoc:
  "pick_reference input (candidates @ [c]) =
     (case pick_reference input candidates of None \<Rightarrow> Some c | Some b \<Rightarrow> if common_prefix_len input b \<le> common_prefix_len input c then Some c else Some b)"
  by (simp add: pick_reference_def)

lemma pick_reference_best:
  "(pick_reference input candidates = None \<longleftrightarrow> candidates = []) \<and>
   (\<forall>r. pick_reference input candidates = Some r \<longrightarrow>
      r \<in> set candidates \<and> (\<forall>c \<in> set candidates. common_prefix_len input c \<le> common_prefix_len input r))"
proof (induction candidates rule: rev_induct)
  case (snoc c candidates)
  then show ?case by (auto simp: pick_reference_snoc intro: order_trans split: option.splits if_splits)
qed (simp add: pick_reference_def)

text \<open>
  A compressed block decompresses to itself, whatever contexts the two threads have kept and at whatever level it was compressed, as long as
  the ids of the dictionaries in use determine their contents; and it is never longer than the block by more than its marker.
\<close>

theorem compression_roundtrip:
  assumes "contexts_ok z content cx" "contexts_ok z content cx'" "dict_filed content c" "cp_dict c' = cp_dict c"
    "zstd_ok z levels (dc_content (cp_dict c))" "cp_level c \<in> levels"
  shows "\<exists>y. fst (compress_with z c x cx) = Inr y \<and> fst (decompress_with z c' y cx') = Inr x \<and> length y \<le> length x + 1"
proof -
  obtain y where y: "compress_block z c x = Inr y" "decompress_block z c' y = Inr x" using compress_block_roundtrip [OF assms(5,6,4)] by blast
  have "dict_filed content c'" using assms(3,4) by (simp add: dict_filed_def)
  then show ?thesis
    using y compress_with_eq [OF assms(1,3)] decompress_with_eq [OF assms(2)] compress_block_length [OF y(1)] by auto
qed

definition demo_zstd :: "(unit, unit) zstd" where
  "demo_zstd = \<lparr>z_encoder = (\<lambda>_ _. Inr ()),
     z_compress = (\<lambda>_ x. Inr (if x = replicate 40 7 then [9] else 0 # x)),
     z_decoder = (\<lambda>_. Inr ()),
     z_decompress = (\<lambda>_ y cap. Inr (if y = [9] then replicate 40 7 else tl y)),
     z_content_size = (\<lambda>_. None)\<rparr>"

lemma demo_zstd_ok: "zstd_ok demo_zstd levels content"
  by (auto simp: zstd_ok_def demo_zstd_def)

theorem compression_roundtrip_witness:
  "\<exists>y. fst (compress_with demo_zstd compressor_default (replicate 40 7) \<lparr>cx_enc = Some (19, 0, ()), cx_dec = None\<rparr>) = Inr y \<and>
     fst (decompress_with demo_zstd (with_level 3 compressor_default) y \<lparr>cx_enc = None, cx_dec = Some (5, ())\<rparr>) = Inr (replicate 40 7) \<and>
     length y \<le> length (replicate 40 (7 :: u8)) + 1"
  by (rule compression_roundtrip [where content = "\<lambda>_. []" and levels = "{3, 19}"])
    (simp_all add: contexts_ok_def demo_zstd_ok, simp_all add: demo_zstd_def dict_filed_def compressor_default_def compressor_new_def dict_empty_def with_level_def)

end
