(* ===== verification/Fountain.thy ===== *)
theory Fountain
  imports GF_Elimination DLR_Frame
begin

text \<open>
  \<open>integrations/dlr/crates/coding/src/fountain.rs\<close>: the rateless code of the bulk transfer, its generator, encoder and wire format, and the
  decoder by peeling with Gaussian elimination of what peeling leaves over. The degree distribution is computed in floating
  point; the number of its entries below a draw is the parameter \<open>soliton\<close>. A \<open>HashMap\<close> from source indices to coefficients
  is a list of pairs with different indices; no result of the code depends on its order.
\<close>

section \<open>Errors, generator, source symbols\<close>

datatype fountain_error = Fountain_Empty | Underdetermined nat nat | Size_Mismatch nat nat

definition rng_mix :: "u64 \<Rightarrow> u64" where
  "rng_mix z =
     (let z = xor z (drop_bit 30 z) * 0xBF58476D1CE4E5B9;
          z = xor z (drop_bit 27 z) * 0x94D049BB133111EB
      in xor z (drop_bit 31 z))"

definition rng_new :: "u64 \<Rightarrow> u64" where
  "rng_new seed = rng_mix (seed * 0x9E3779B97F4A7C15 + 0xA5A5A5A5)"

definition rng_next :: "u64 \<Rightarrow> u64 \<times> u64" where
  "rng_next state = (let state = state + 0x9E3779B97F4A7C15 in (rng_mix state, state))"

definition next_below :: "nat \<Rightarrow> u64 \<Rightarrow> nat \<times> u64" where
  "next_below n state = (if n = 0 then (0, state) else case rng_next state of (z, state) \<Rightarrow> (unat (drop_bit 40 z) mod n, state))"

datatype fountain_source = Owned "bytes list" | Shared bytes nat nat nat

fun source_k :: "fountain_source \<Rightarrow> nat" where
  "source_k (Owned v) = length v"
| "source_k (Shared buf offset stride k) = k"

fun source_size :: "fountain_source \<Rightarrow> nat" where
  "source_size (Owned v) = length (v ! 0)"
| "source_size (Shared buf offset stride k) = stride"

fun source_src :: "fountain_source \<Rightarrow> nat \<Rightarrow> bytes" where
  "source_src (Owned v) i = v ! i"
| "source_src (Shared buf offset stride k) i = take stride (drop (offset + i * stride) buf)"

section \<open>Encoder\<close>

record fountain_encoder =
  fe_source :: fountain_source
  fe_generation :: u32
  fe_repair_index :: u64

definition encoder_new :: "bytes list \<Rightarrow> u32 \<Rightarrow> fountain_error + fountain_encoder" where
  "encoder_new source generation =
     (case source of
        [] \<Rightarrow> Inl Fountain_Empty
      | s0 # _ \<Rightarrow>
          (case find (\<lambda>s. length s \<noteq> length s0) source of
             Some s \<Rightarrow> Inl (Size_Mismatch (length s0) (length s))
           | None \<Rightarrow> Inr \<lparr>fe_source = Owned source, fe_generation = generation, fe_repair_index = 0\<rparr>))"

definition encoder_new_shared :: "bytes \<Rightarrow> nat \<Rightarrow> nat \<Rightarrow> nat \<Rightarrow> u32 \<Rightarrow> fountain_error + fountain_encoder" where
  "encoder_new_shared buf offset stride k generation =
     (if k = 0 \<or> stride = 0 then Inl Fountain_Empty
      else if 2 ^ 64 \<le> k * stride \<or> 2 ^ 64 \<le> offset + k * stride then Inl (Size_Mismatch offset stride)
      else if length buf < offset + k * stride then Inl (Size_Mismatch (length buf) (offset + k * stride))
      else Inr \<lparr>fe_source = Shared buf offset stride k, fe_generation = generation, fe_repair_index = 0\<rparr>)"

text \<open>The draw is \<open>next_f64\<close>, the top 53 bits of an output.\<close>

definition soliton_degree :: "(nat \<Rightarrow> u64 \<Rightarrow> nat) \<Rightarrow> nat \<Rightarrow> u64 \<Rightarrow> nat \<times> u64" where
  "soliton_degree soliton k state =
     (case rng_next state of (z, state) \<Rightarrow> (min (max (soliton k (drop_bit 11 z) + 1) 1) k, state))"

text \<open>The loop that picks the sources of a repair symbol, with what is left of its \<open>10 * k\<close> rounds.\<close>

fun choose_sources :: "nat \<Rightarrow> nat \<Rightarrow> nat \<Rightarrow> nat list \<Rightarrow> u64 \<Rightarrow> nat list \<times> u64" where
  "choose_sources 0 degree k chosen state = (chosen, state)"
| "choose_sources (Suc rounds) degree k chosen state =
     (if length chosen < degree
      then case next_below k state of
        (idx, state) \<Rightarrow> choose_sources rounds degree k (if idx \<in> set chosen then chosen else chosen @ [idx]) state
      else (chosen, state))"

fun draw_coeffs :: "nat \<Rightarrow> u64 \<Rightarrow> u8 list" where
  "draw_coeffs 0 state = []"
| "draw_coeffs (Suc n) state = (case rng_next state of (z, state) \<Rightarrow> or (ucast z) 1 # draw_coeffs n state)"

definition u16_le_nat :: "nat \<Rightarrow> bytes" where
  "u16_le_nat n = le_bytes 2 (int n)"

definition wire_symbol :: "(nat \<times> u8) list \<Rightarrow> bytes \<Rightarrow> bytes" where
  "wire_symbol pairs payload = u16_le_nat (length pairs) @ concat (map (\<lambda>(i, c). u16_le_nat i @ [c]) pairs) @ payload"

definition mix_sources :: "simd \<Rightarrow> fountain_source \<Rightarrow> (nat \<times> u8) list \<Rightarrow> bytes" where
  "mix_sources simd src pairs = fold (\<lambda>(i, c) payload. gf_axpy_slice simd c (source_src src i) payload) pairs (replicate (source_size src) 0)"

definition repair_pairs :: "(nat \<Rightarrow> u64 \<Rightarrow> nat) \<Rightarrow> nat \<Rightarrow> u32 \<Rightarrow> u64 \<Rightarrow> (nat \<times> u8) list" where
  "repair_pairs soliton k generation index =
     (case soliton_degree soliton k (rng_new (or (push_bit 40 (ucast generation)) index)) of
        (degree, state) \<Rightarrow>
          (case choose_sources (10 * k) degree k [] state of
             (chosen, state) \<Rightarrow> zip chosen (draw_coeffs (length chosen) state)))"

definition repair_symbol :: "simd \<Rightarrow> (nat \<Rightarrow> u64 \<Rightarrow> nat) \<Rightarrow> fountain_encoder \<Rightarrow> bytes \<times> fountain_encoder" where
  "repair_symbol simd soliton e =
     (let index = fe_repair_index e + 1;
          pairs = repair_pairs soliton (source_k (fe_source e)) (fe_generation e) index
      in (wire_symbol pairs (mix_sources simd (fe_source e) pairs), e\<lparr>fe_repair_index := index\<rparr>))"

fun repair_symbols :: "simd \<Rightarrow> (nat \<Rightarrow> u64 \<Rightarrow> nat) \<Rightarrow> nat \<Rightarrow> fountain_encoder \<Rightarrow> bytes list \<times> fountain_encoder" where
  "repair_symbols simd soliton 0 e = ([], e)"
| "repair_symbols simd soliton (Suc n) e =
     (case repair_symbol simd soliton e of
        (w, e) \<Rightarrow> (case repair_symbols simd soliton n e of (ws, e) \<Rightarrow> (w # ws, e)))"

definition systematic_symbol :: "fountain_source \<Rightarrow> nat \<Rightarrow> bytes" where
  "systematic_symbol src i = wire_symbol [(i, 1)] (source_src src i)"

definition fountain_produce :: "simd \<Rightarrow> (nat \<Rightarrow> u64 \<Rightarrow> nat) \<Rightarrow> nat \<Rightarrow> fountain_encoder \<Rightarrow> bytes list \<times> fountain_encoder" where
  "fountain_produce simd soliton n e =
     (let k = source_k (fe_source e)
      in case repair_symbols simd soliton (n - k) e of
           (ws, e') \<Rightarrow> (map (systematic_symbol (fe_source e)) [0..<min n k] @ ws, e'))"

section \<open>Decoder\<close>

record parsed_sym =
  sy_cover :: "(nat \<times> u8) list"
  sy_payload :: bytes

record fountain_decoder =
  fd_k :: nat
  fd_size :: nat
  fd_syms :: "parsed_sym list"

definition decoder_new :: "nat \<Rightarrow> nat \<Rightarrow> fountain_decoder" where
  "decoder_new k symbol_size = \<lparr>fd_k = k, fd_size = symbol_size, fd_syms = []\<rparr>"

definition cover_insert :: "nat \<Rightarrow> u8 \<Rightarrow> (nat \<times> u8) list \<Rightarrow> (nat \<times> u8) list" where
  "cover_insert i c cover = filter (\<lambda>(j, _). j \<noteq> i) cover @ [(i, c)]"

definition u16_of_le :: "bytes \<Rightarrow> nat" where
  "u16_of_le bs = nat (from_le (take 2 bs))"

fun parse_cover :: "nat \<Rightarrow> nat \<Rightarrow> bytes \<Rightarrow> (nat \<times> u8) list \<Rightarrow> (nat \<times> u8) list" where
  "parse_cover 0 k wire cover = cover"
| "parse_cover (Suc n) k wire cover =
     (let idx = u16_of_le wire; c = wire ! 2
      in parse_cover n k (drop 3 wire) (if idx < k \<and> c \<noteq> 0 then cover_insert idx c cover else cover))"

definition fountain_add :: "bytes \<Rightarrow> fountain_decoder \<Rightarrow> fountain_error + bool \<times> fountain_decoder" where
  "fountain_add wire d =
     (if length wire < 2 then Inl (Size_Mismatch (length wire) 2)
      else let ncoeffs = u16_of_le wire;
               header_len = 2 + ncoeffs * 3
           in if length wire < header_len + fd_size d then Inl (Size_Mismatch (length wire) (header_len + fd_size d))
              else let cover = parse_cover ncoeffs (fd_k d) (drop 2 wire) []
                   in if cover = [] then Inr (False, d)
                      else Inr (True, d\<lparr>fd_syms := fd_syms d @
                             [\<lparr>sy_cover = cover, sy_payload = take (fd_size d) (drop header_len wire)\<rparr>]\<rparr>))"

section \<open>Peeling\<close>

record peel_state =
  ps_syms :: "parsed_sym list"
  ps_degree :: "nat list"
  ps_covers :: "nat list list"
  ps_revealed :: "bytes option list"
  ps_queue :: "nat list"

definition peel_start :: "nat \<Rightarrow> parsed_sym list \<Rightarrow> peel_state" where
  "peel_start k syms =
     \<lparr>ps_syms = syms,
      ps_degree = map (length \<circ> sy_cover) syms,
      ps_covers = map (\<lambda>i. filter (\<lambda>si. i \<in> fst ` set (sy_cover (syms ! si))) [0..<length syms]) [0..<k],
      ps_revealed = replicate k None,
      ps_queue = filter (\<lambda>si. length (sy_cover (syms ! si)) = 1) [0..<length syms]\<rparr>"

text \<open>The value \<open>x\<close> of the source \<open>target\<close> is taken out of the symbol \<open>sj\<close>. Every index is in range.\<close>

definition ripple :: "simd \<Rightarrow> nat \<Rightarrow> nat \<Rightarrow> bytes \<Rightarrow> nat \<Rightarrow> peel_state \<Rightarrow> peel_state" where
  "ripple simd si target x sj st =
     (if sj = si \<or> \<not> sj < length (ps_degree st) \<or> ps_degree st ! sj = 0 then st
      else let sy = ps_syms st ! sj; d = ps_degree st ! sj - 1
           in case map_of (sy_cover sy) target of
                None \<Rightarrow> st
              | Some c \<Rightarrow>
                  st\<lparr>ps_syms := (ps_syms st)[sj := \<lparr>sy_cover = filter (\<lambda>(i, _). i \<noteq> target) (sy_cover sy),
                                                    sy_payload = gf_axpy_slice simd c x (sy_payload sy)\<rparr>],
                     ps_degree := (ps_degree st)[sj := d],
                     ps_queue := ps_queue st @ (if d = 1 then [sj] else [])\<rparr>)"

definition peel_step :: "simd \<Rightarrow> nat \<Rightarrow> peel_state \<Rightarrow> peel_state" where
  "peel_step simd si st =
     (if ps_degree st ! si = 0 then st
      else case find (\<lambda>(i, _). ps_revealed st ! i = None) (sy_cover (ps_syms st ! si)) of
        None \<Rightarrow> st\<lparr>ps_degree := (ps_degree st)[si := 0]\<rparr>
      | Some (target, coeff) \<Rightarrow>
          (let x = gf_scal_slice simd (gf_inv coeff) (sy_payload (ps_syms st ! si));
               dependents = ps_covers st ! target;
               st = st\<lparr>ps_syms := (ps_syms st)[si := (ps_syms st ! si)\<lparr>sy_payload := []\<rparr>],
                      ps_degree := (ps_degree st)[si := 0],
                      ps_covers := (ps_covers st)[target := []]\<rparr>;
               st = fold (ripple simd si target x) dependents st
           in st\<lparr>ps_revealed := (ps_revealed st)[target := Some x]\<rparr>))"

definition peel_work :: "peel_state \<Rightarrow> nat" where
  "peel_work st = length (ps_queue st) + sum_list (ps_degree st)"

lemma sum_list_decrease: "i < length xs \<Longrightarrow> y \<le> xs ! i \<Longrightarrow> sum_list (xs[i := y]) + (xs ! i - y) = sum_list (xs :: nat list)"
  by (simp add: sum_list_update) (use elem_le_sum_list [of i xs] in linarith)

lemma sum_list_zero_le: "sum_list ((xs :: nat list)[i := 0]) \<le> sum_list xs"
  by (cases "i < length xs") (use sum_list_decrease [of i xs 0] in \<open>auto simp: list_update_beyond\<close>)

lemma ripple_work: "peel_work (ripple simd si target x sj st) \<le> peel_work st"
proof (cases "sj = si \<or> \<not> sj < length (ps_degree st) \<or> ps_degree st ! sj = 0")
  case False
  then show ?thesis using sum_list_decrease [of sj "ps_degree st" "ps_degree st ! sj - 1"]
    by (auto simp: ripple_def peel_work_def Let_def split: option.splits)
qed (simp add: ripple_def)

lemma fold_ripple_work: "peel_work (fold (ripple simd si target x) sjs st) \<le> peel_work st"
  by (induction sjs arbitrary: st) (auto intro: order_trans [OF _ ripple_work])

lemma peel_step_work: "peel_work (peel_step simd si st) \<le> peel_work st"
proof (cases "find (\<lambda>(i, _). ps_revealed st ! i = None) (sy_cover (ps_syms st ! si))")
  case None
  then show ?thesis using sum_list_zero_le [of "ps_degree st" si] by (simp add: peel_step_def peel_work_def)
next
  case (Some p)
  obtain target coeff where p: "p = (target, coeff)" by fastforce
  let ?x = "gf_scal_slice simd (gf_inv coeff) (sy_payload (ps_syms st ! si))"
  let ?st = "st\<lparr>ps_syms := (ps_syms st)[si := (ps_syms st ! si)\<lparr>sy_payload := []\<rparr>], ps_degree := (ps_degree st)[si := 0],
      ps_covers := (ps_covers st)[target := []]\<rparr>"
  have "peel_work ?st \<le> peel_work st" using sum_list_zero_le [of "ps_degree st" si] by (simp add: peel_work_def)
  moreover have "peel_work (s\<lparr>ps_revealed := r\<rparr>) = peel_work s" for s r by (simp add: peel_work_def)
  ultimately show ?thesis using fold_ripple_work [of simd si target ?x "ps_covers st ! target" ?st] Some p
    by (simp add: peel_step_def Let_def)
qed

text \<open>The loop over the queue ends: a step takes one entry and adds one only where a degree falls.\<close>

function peel :: "simd \<Rightarrow> peel_state \<Rightarrow> peel_state" where
  "peel simd st = (case ps_queue st of [] \<Rightarrow> st | si # q \<Rightarrow> peel simd (peel_step simd si (st\<lparr>ps_queue := q\<rparr>)))"
  by pat_completeness auto
termination
proof (relation "measure (\<lambda>(simd, st). peel_work st)")
  fix simd :: simd and st :: peel_state and si q assume q: "ps_queue st = si # q"
  have "peel_work (peel_step simd si (st\<lparr>ps_queue := q\<rparr>)) \<le> peel_work (st\<lparr>ps_queue := q\<rparr>)" by (rule peel_step_work)
  also have "\<dots> < peel_work st" by (simp add: peel_work_def q)
  finally show "((simd, peel_step simd si (st\<lparr>ps_queue := q\<rparr>)), simd, st) \<in> measure (\<lambda>(simd, st). peel_work st)" by simp
qed simp

declare peel.simps [simp del]

section \<open>The residual system\<close>

definition unknowns :: "bytes option list \<Rightarrow> nat list" where
  "unknowns revealed = filter (\<lambda>i. revealed ! i = None) [0..<length revealed]"

definition col_of :: "nat list \<Rightarrow> nat \<Rightarrow> nat" where
  "col_of us i = length (takeWhile (\<lambda>u. u \<noteq> i) us)"

definition coeff_row :: "nat list \<Rightarrow> (nat \<times> u8) list \<Rightarrow> u8 list" where
  "coeff_row us pairs = fold (\<lambda>(i, c) row. row[col_of us i := xor (row ! col_of us i) c]) pairs (replicate (length us) 0)"

definition residual_row :: "bytes option list \<Rightarrow> parsed_sym \<Rightarrow> u8 list option" where
  "residual_row revealed sy =
     (let pairs = filter (\<lambda>(i, _). revealed ! i = None) (sy_cover sy)
      in if sy_payload sy = [] \<or> pairs = [] then None else Some (coeff_row (unknowns revealed) pairs @ sy_payload sy))"

definition publish_row :: "nat list \<Rightarrow> nat \<Rightarrow> u8 list \<Rightarrow> bytes option list \<Rightarrow> bytes option list" where
  "publish_row us s row revealed =
     (case find (\<lambda>piv. row ! piv \<noteq> 0) [0..<length us] of
        Some piv \<Rightarrow> revealed[us ! piv := Some (take s (drop (length us) row))]
      | None \<Rightarrow> revealed)"

definition peel_symbols :: "simd \<Rightarrow> nat \<Rightarrow> nat \<Rightarrow> parsed_sym list \<Rightarrow> parsed_sym list \<times> (fountain_error + bytes list)" where
  "peel_symbols simd k s syms =
     (let st = peel simd (peel_start k syms);
          us = unknowns (ps_revealed st)
      in (ps_syms st,
          if us = [] then Inr (map (\<lambda>r. case r of Some x \<Rightarrow> x | None \<Rightarrow> []) (ps_revealed st))
          else case gf_gauss_eliminate simd (List.map_filter (residual_row (ps_revealed st)) (ps_syms st)) (length us + s) (length us) of
            (mat, rank) \<Rightarrow>
              if rank < length us then Inl (Underdetermined rank (length us))
              else let revealed = fold (publish_row us s) mat (ps_revealed st)
                   in if None \<in> set revealed then Inl (Underdetermined rank k)
                      else Inr (map (\<lambda>r. case r of Some x \<Rightarrow> x | None \<Rightarrow> []) revealed)))"

definition fountain_decode :: "simd \<Rightarrow> fountain_decoder \<Rightarrow> fountain_decoder \<times> (fountain_error + bytes list)" where
  "fountain_decode simd d =
     (if length (fd_syms d) < fd_k d then (d, Inl (Underdetermined (length (fd_syms d)) (fd_k d)))
      else case peel_symbols simd (fd_k d) (fd_size d) (fd_syms d) of (syms, res) \<Rightarrow> (d\<lparr>fd_syms := syms\<rparr>, res))"

text \<open>\<open>peel_decode\<close>, the entry for dense rows of \<open>k\<close> coefficients and \<open>s\<close> bytes.\<close>

definition dense_cover :: "nat \<Rightarrow> u8 list \<Rightarrow> (nat \<times> u8) list" where
  "dense_cover k row = filter (\<lambda>(i, c). c \<noteq> 0) (map (\<lambda>i. (i, row ! i)) [0..<k])"

definition peel_decode :: "simd \<Rightarrow> nat \<Rightarrow> nat \<Rightarrow> u8 list list \<Rightarrow> fountain_error + bytes list" where
  "peel_decode simd k s rows =
     snd (peel_symbols simd k s
       (map (\<lambda>row. \<lparr>sy_cover = dense_cover k row, sy_payload = take s (drop k row)\<rparr>) (filter (\<lambda>row. dense_cover k row \<noteq> []) rows)))"

section \<open>Linear combinations\<close>

definition coef :: "(nat \<times> u8) list \<Rightarrow> nat \<Rightarrow> u8" where
  "coef cover i = (case map_of cover i of None \<Rightarrow> 0 | Some c \<Rightarrow> c)"

definition cover_dot :: "nat \<Rightarrow> (nat \<times> u8) list \<Rightarrow> (nat \<Rightarrow> u8) \<Rightarrow> u8" where
  "cover_dot k cover v = gf_sum (\<lambda>i. gf_mul (coef cover i) (v i)) k"

definition cover_wf :: "nat \<Rightarrow> (nat \<times> u8) list \<Rightarrow> bool" where
  "cover_wf k cover \<longleftrightarrow> distinct (map fst cover) \<and> (\<forall>(i, c) \<in> set cover. i < k \<and> c \<noteq> 0)"

text \<open>The payload is the combination of the sources \<open>src\<close> that the cover names.\<close>

definition combines :: "nat \<Rightarrow> nat \<Rightarrow> (nat \<Rightarrow> bytes) \<Rightarrow> parsed_sym \<Rightarrow> bool" where
  "combines k s src sy \<longleftrightarrow> length (sy_payload sy) = s \<and>
     (\<forall>t < s. sy_payload sy ! t = cover_dot k (sy_cover sy) (\<lambda>i. src i ! t))"

lemma coef_Nil [simp]: "coef [] i = 0"
  by (simp add: coef_def)

lemma coef_Cons: "coef ((j, c) # cover) i = (if i = j then c else coef cover i)"
  by (simp add: coef_def)

lemma coef_outside: "i \<notin> fst ` set cover \<Longrightarrow> coef cover i = 0"
  by (simp add: coef_def map_of_eq_None_iff [symmetric])

lemma map_of_filter_key: "map_of (filter (\<lambda>(i, _). i \<noteq> target) cover) i = (if i = target then None else map_of cover i)"
  by (induction cover) auto

lemma coef_filter: "coef (filter (\<lambda>(i, _). i \<noteq> target) cover) i = (if i = target then 0 else coef cover i)"
  by (simp add: coef_def map_of_filter_key)

lemma cover_wf_filter: "cover_wf k cover \<Longrightarrow> cover_wf k (filter P cover)"
  by (auto simp: cover_wf_def distinct_map_filter)

lemma cover_key: "cover_wf k cover \<Longrightarrow> i \<in> fst ` set cover \<Longrightarrow> i < k"
  by (auto simp: cover_wf_def)

lemma length_filter_key:
  "distinct (map fst cover) \<Longrightarrow> map_of cover target = Some c \<Longrightarrow> length (filter (\<lambda>(i, _). i \<noteq> target) cover) = length cover - 1"
proof (induction cover)
  case (Cons p cover)
  obtain i d where p: "p = (i, d)" by fastforce
  show ?case
  proof (cases "i = target")
    case True
    then have "filter (\<lambda>(i, _). i \<noteq> target) cover = cover" using Cons.prems(1) p by (force simp: filter_id_conv)
    then show ?thesis using True p by simp
  next
    case False
    then have "map_of cover target = Some c" using Cons.prems(2) p by simp
    then have "cover \<noteq> []" by auto
    then show ?thesis using Cons False p by (cases cover) auto
  qed
qed simp

lemma cover_dot_filter:
  assumes "map_of cover target = Some c" "target < k"
  shows "cover_dot k cover v = xor (cover_dot k (filter (\<lambda>(i, _). i \<noteq> target) cover) v) (gf_mul c (v target))"
proof -
  let ?rest = "filter (\<lambda>(i, _). i \<noteq> target) cover" and ?f = "\<lambda>i. if i = target then gf_mul c (v target) else 0"
  have "gf_mul (coef cover i) (v i) = xor (gf_mul (coef ?rest i) (v i)) (?f i)" for i
    using assms(1) by (simp add: coef_filter) (simp add: coef_def)
  then have "cover_dot k cover v = xor (cover_dot k ?rest v) (gf_sum ?f k)" by (simp add: cover_dot_def gf_sum_xor)
  moreover have "gf_sum ?f k = gf_mul c (v target)" using gf_sum_single [OF assms(2), of ?f] by simp
  ultimately show ?thesis by simp
qed

lemma length_axpy_ref [simp]: "length (axpy_ref a src dst) = length dst"
  by (simp add: axpy_ref_def)

lemma combines_remove:
  assumes "combines k s src sy" "map_of (sy_cover sy) target = Some c" "target < k" "length (src target) = s"
  shows "combines k s src \<lparr>sy_cover = filter (\<lambda>(i, _). i \<noteq> target) (sy_cover sy), sy_payload = gf_axpy_slice simd c (src target) (sy_payload sy)\<rparr>"
proof -
  have "axpy_ref c (src target) (sy_payload sy) ! t = cover_dot k (filter (\<lambda>(i, _). i \<noteq> target) (sy_cover sy)) (\<lambda>i. src i ! t)" if "t < s" for t
    using assms(1,4) that cover_dot_filter [OF assms(2,3), of "\<lambda>i. src i ! t"] by (simp add: combines_def axpy_ref_def ac_simps)
  then show ?thesis using assms(1) by (simp add: combines_def gf_axpy_slice_eq)
qed

lemma combines_reveal:
  assumes "combines k s src sy" "sy_cover sy = [(target, c)]" "c \<noteq> 0" "target < k" "length (src target) = s"
  shows "gf_scal_slice simd (gf_inv c) (sy_payload sy) = src target"
proof (rule nth_equalityI)
  show "length (gf_scal_slice simd (gf_inv c) (sy_payload sy)) = length (src target)"
    using assms(1,5) by (simp add: combines_def gf_scal_slice_eq)
  fix t assume "t < length (gf_scal_slice simd (gf_inv c) (sy_payload sy))"
  then have t: "t < s" using assms(1) by (simp add: combines_def gf_scal_slice_eq)
  have "cover_dot k [(target, c)] (\<lambda>i. src i ! t) = gf_mul c (src target ! t)"
    using gf_sum_single [OF assms(4), of "\<lambda>i. gf_mul (coef [(target, c)] i) (src i ! t)"] by (simp add: cover_dot_def coef_Cons)
  then have "sy_payload sy ! t = gf_mul c (src target ! t)" using assms(1,2) t by (simp add: combines_def)
  moreover have "gf_mul (gf_inv c) (gf_mul c y) = y" for y
    using gf_inv_right [OF assms(3)] by (simp add: gf_mul_assoc [symmetric] gf_mul_commute [of "gf_inv c"])
  ultimately show "gf_scal_slice simd (gf_inv c) (sy_payload sy) ! t = src target ! t"
    using assms(1) t by (simp add: combines_def gf_scal_slice_eq)
qed

section \<open>The invariant of peeling\<close>

text \<open>
  A symbol during peeling, with the predicate \<open>R\<close> of the revealed sources: while its degree is positive it is a true combination of
  sources that are not revealed; at degree zero it covers revealed sources only. On sources outside \<open>R'\<close> its coefficients are those
  it arrived with, \<open>cover0\<close>.
\<close>

definition sym_ok :: "nat \<Rightarrow> nat \<Rightarrow> (nat \<Rightarrow> bytes) \<Rightarrow> (nat \<Rightarrow> bool) \<Rightarrow> (nat \<Rightarrow> bool) \<Rightarrow> (nat \<times> u8) list \<Rightarrow> parsed_sym \<Rightarrow> nat \<Rightarrow> bool" where
  "sym_ok k s src R R' cover0 sy d \<longleftrightarrow>
     cover_wf k (sy_cover sy) \<and>
     (0 < d \<longrightarrow> d = length (sy_cover sy) \<and> combines k s src sy \<and> (\<forall>i \<in> fst ` set (sy_cover sy). \<not> R i)) \<and>
     (d = 0 \<longrightarrow> (sy_payload sy = [] \<or> sy_cover sy = []) \<and> (\<forall>i \<in> fst ` set (sy_cover sy). R' i)) \<and>
     (\<forall>i < k. \<not> R' i \<longrightarrow> coef cover0 i = coef (sy_cover sy) i)"

definition is_revealed :: "peel_state \<Rightarrow> nat \<Rightarrow> bool" where
  "is_revealed st i \<longleftrightarrow> ps_revealed st ! i \<noteq> None"

text \<open>
  What holds between two steps, and inside a step while \<open>target\<close> is taken out of the symbols: the symbol \<open>si\<close> that revealed it is
  left aside. Between two steps no symbol is, and \<open>si\<close> and \<open>target\<close> are out of range.
\<close>

definition peel_inv :: "nat \<Rightarrow> nat \<Rightarrow> (nat \<Rightarrow> bytes) \<Rightarrow> (nat \<times> u8) list list \<Rightarrow> nat \<Rightarrow> nat \<Rightarrow> peel_state \<Rightarrow> bool" where
  "peel_inv k s src covers0 si target st \<longleftrightarrow>
     length (ps_syms st) = length covers0 \<and> length (ps_degree st) = length covers0 \<and> length (ps_covers st) = k \<and> length (ps_revealed st) = k \<and>
     (\<forall>sj < length covers0. sj \<noteq> si \<longrightarrow>
        sym_ok k s src (is_revealed st) (\<lambda>i. is_revealed st i \<or> i = target) (covers0 ! sj) (ps_syms st ! sj) (ps_degree st ! sj) \<and>
        (0 < ps_degree st ! sj \<longrightarrow> (\<forall>i \<in> fst ` set (sy_cover (ps_syms st ! sj)). i \<noteq> target \<longrightarrow> sj \<in> set (ps_covers st ! i)))) \<and>
     (\<forall>i < k. \<forall>x. ps_revealed st ! i = Some x \<longrightarrow> x = src i) \<and>
     (\<forall>sj \<in> set (ps_queue st). sj < length covers0 \<and> ps_degree st ! sj \<le> 1)"

lemma sym_ok_remove:
  assumes "sym_ok k s src R R' cover0 sy d" "0 < d" "map_of (sy_cover sy) target = Some c" "R' target"
    "length (src target) = s" "x = src target"
  shows "sym_ok k s src R R' cover0
    \<lparr>sy_cover = filter (\<lambda>(i, _). i \<noteq> target) (sy_cover sy), sy_payload = gf_axpy_slice simd c x (sy_payload sy)\<rparr> (d - 1)"
proof -
  have wf: "cover_wf k (sy_cover sy)" "d = length (sy_cover sy)" "combines k s src sy" "\<forall>i \<in> fst ` set (sy_cover sy). \<not> R i"
    using assms(1,2) by (simp_all add: sym_ok_def)
  have target: "target < k" using wf(1) map_of_SomeD [OF assms(3)] by (auto simp: cover_wf_def)
  define rest where "rest = filter (\<lambda>(i, _). i \<noteq> target) (sy_cover sy)"
  have len: "length rest = d - 1" using length_filter_key [OF _ assms(3)] wf(1,2) by (simp add: cover_wf_def rest_def)
  have "coef cover0 i = coef rest i" if "i < k" "\<not> R' i" for i
    using assms(1,4) that by (auto simp: sym_ok_def coef_filter rest_def)
  moreover have "combines k s src \<lparr>sy_cover = rest, sy_payload = gf_axpy_slice simd c x (sy_payload sy)\<rparr>"
    using combines_remove [OF wf(3) assms(3) target assms(5), of simd] assms(6) by (simp add: rest_def)
  moreover have "cover_wf k rest" "\<forall>i \<in> fst ` set rest. \<not> R i"
    using cover_wf_filter [OF wf(1)] wf(4) by (auto simp: rest_def)
  moreover have "d - 1 = 0 \<Longrightarrow> rest = []" using len by simp
  ultimately show ?thesis using len unfolding rest_def [symmetric] by (auto simp: sym_ok_def)
qed

lemma sym_ok_mono: "sym_ok k s src R R' cover0 sy d \<Longrightarrow> (\<And>i. i < k \<Longrightarrow> R' i \<Longrightarrow> R'' i) \<Longrightarrow> sym_ok k s src R R'' cover0 sy d"
  unfolding sym_ok_def cover_wf_def by fastforce

lemma sym_ok_next: "sym_ok k s src R R' cover0 sy d \<Longrightarrow> (0 < d \<Longrightarrow> \<forall>i \<in> fst ` set (sy_cover sy). \<not> R' i) \<Longrightarrow> sym_ok k s src R' R' cover0 sy d"
  unfolding sym_ok_def by blast

lemma ripple_simps [simp]:
  "ps_revealed (ripple simd si target x sj st) = ps_revealed st" "ps_covers (ripple simd si target x sj st) = ps_covers st"
  "is_revealed (ripple simd si target x sj st) = is_revealed st"
  by (auto simp: ripple_def Let_def is_revealed_def fun_eq_iff split: option.splits)

lemma fold_ripple_simps [simp]:
  "ps_revealed (fold (ripple simd si target x) sjs st) = ps_revealed st" "ps_covers (fold (ripple simd si target x) sjs st) = ps_covers st"
  "is_revealed (fold (ripple simd si target x) sjs st) = is_revealed st"
  by (induction sjs arbitrary: st) simp_all

lemma ripple_inv:
  assumes inv: "peel_inv k s src covers0 si target st" and x: "x = src target" "length (src target) = s"
  shows "peel_inv k s src covers0 si target (ripple simd si target x sj st)"
proof (cases "sj = si \<or> \<not> sj < length (ps_degree st) \<or> ps_degree st ! sj = 0 \<or> map_of (sy_cover (ps_syms st ! sj)) target = None")
  case True
  then have "ripple simd si target x sj st = st" by (auto simp: ripple_def Let_def)
  then show ?thesis using inv by simp
next
  case False
  then obtain c where c: "map_of (sy_cover (ps_syms st ! sj)) target = Some c" by auto
  let ?sy = "\<lparr>sy_cover = filter (\<lambda>(i, _). i \<noteq> target) (sy_cover (ps_syms st ! sj)),
     sy_payload = gf_axpy_slice simd c x (sy_payload (ps_syms st ! sj))\<rparr>"
  let ?d = "ps_degree st ! sj - 1"
  have eq: "ripple simd si target x sj st = st\<lparr>ps_syms := (ps_syms st)[sj := ?sy], ps_degree := (ps_degree st)[sj := ?d],
     ps_queue := ps_queue st @ (if ?d = 1 then [sj] else [])\<rparr>"
    using False c by (simp add: ripple_def Let_def)
  have sj: "sj < length covers0" "sj \<noteq> si" "0 < ps_degree st ! sj" using False inv by (auto simp: peel_inv_def)
  have ok: "sym_ok k s src (is_revealed st) (\<lambda>i. is_revealed st i \<or> i = target) (covers0 ! sj) ?sy ?d"
    using inv sj by (intro sym_ok_remove [where target = target]) (use c x in \<open>auto simp: peel_inv_def\<close>)
  have R: "is_revealed (st\<lparr>ps_syms := a, ps_degree := b, ps_queue := q\<rparr>) = is_revealed st" for a b q by (simp add: is_revealed_def fun_eq_iff)
  show ?thesis
    unfolding eq peel_inv_def R
    using inv ok sj unfolding peel_inv_def by (auto simp: nth_list_update split: if_splits)
qed

text \<open>A symbol that the value has been taken out of, and stays so.\<close>

definition rid_of :: "nat \<Rightarrow> nat \<Rightarrow> nat \<Rightarrow> peel_state \<Rightarrow> bool" where
  "rid_of si target sj st \<longleftrightarrow> sj = si \<or> \<not> sj < length (ps_degree st) \<or> ps_degree st ! sj = 0 \<or> map_of (sy_cover (ps_syms st ! sj)) target = None"

lemma ripple_rids: "length (ps_syms st) = length (ps_degree st) \<Longrightarrow> rid_of si target sj (ripple simd si target x sj st)"
  by (auto simp: rid_of_def ripple_def Let_def map_of_filter_key split: option.splits)

lemma ripple_keeps_rid: "rid_of si target sj st \<Longrightarrow> length (ps_syms st) = length (ps_degree st) \<Longrightarrow> rid_of si target sj (ripple simd si target x sl st)"
  by (auto simp: rid_of_def ripple_def Let_def map_of_filter_key nth_list_update split: option.splits)

lemma fold_ripple_inv:
  assumes "peel_inv k s src covers0 si target st" "x = src target" "length (src target) = s"
  shows "peel_inv k s src covers0 si target (fold (ripple simd si target x) sjs st) \<and>
    (\<forall>sj. sj \<in> set sjs \<or> rid_of si target sj st \<longrightarrow> rid_of si target sj (fold (ripple simd si target x) sjs st))"
proof (induction sjs rule: rev_induct)
  case (snoc sj sjs)
  then have inv: "peel_inv k s src covers0 si target (fold (ripple simd si target x) sjs st)" by simp
  then have "length (ps_syms (fold (ripple simd si target x) sjs st)) = length (ps_degree (fold (ripple simd si target x) sjs st))"
    by (simp add: peel_inv_def)
  then show ?case using snoc ripple_inv [OF inv assms(2,3)] ripple_rids ripple_keeps_rid by simp
qed (use assms in simp)

lemma ripple_self: "ps_syms (fold (ripple simd si target x) sjs st) ! si = ps_syms st ! si \<and> ps_degree (fold (ripple simd si target x) sjs st) ! si = ps_degree st ! si"
proof (induction sjs arbitrary: st)
  case (Cons sj sjs)
  have "ps_syms (ripple simd si target x sj st) ! si = ps_syms st ! si \<and> ps_degree (ripple simd si target x sj st) ! si = ps_degree st ! si"
    by (auto simp: ripple_def Let_def split: option.splits)
  then show ?case using Cons by simp
qed simp

lemma peel_step_inv:
  assumes inv: "peel_inv k s src covers0 (length covers0) k st" and src: "\<forall>i < k. length (src i) = s"
    and si: "si < length covers0" "ps_degree st ! si \<le> 1"
  shows "peel_inv k s src covers0 (length covers0) k (peel_step simd si st)"
proof (cases "ps_degree st ! si = 0")
  case False
  let ?sy = "ps_syms st ! si"
  have ok: "sym_ok k s src (is_revealed st) (\<lambda>i. is_revealed st i \<or> i = k) (covers0 ! si) ?sy 1"
    and cov: "\<forall>i \<in> fst ` set (sy_cover ?sy). i \<noteq> k \<longrightarrow> si \<in> set (ps_covers st ! i)"
    using inv si False by (auto simp: peel_inv_def le_Suc_eq)
  obtain target c where c: "sy_cover ?sy = [(target, c)]" using ok by (cases "sy_cover ?sy") (auto simp: sym_ok_def)
  have t: "target < k" "c \<noteq> 0" "\<not> is_revealed st target" "combines k s src ?sy" using ok c by (auto simp: sym_ok_def cover_wf_def)
  have x: "gf_scal_slice simd (gf_inv c) (sy_payload ?sy) = src target"
    using combines_reveal [OF t(4) c t(2,1)] src t(1) by simp
  let ?st = "st\<lparr>ps_syms := (ps_syms st)[si := ?sy\<lparr>sy_payload := []\<rparr>], ps_degree := (ps_degree st)[si := 0], ps_covers := (ps_covers st)[target := []]\<rparr>"
  let ?fin = "fold (ripple simd si target (src target)) (ps_covers st ! target) ?st"
  have step: "peel_step simd si st = ?fin\<lparr>ps_revealed := (ps_revealed st)[target := Some (src target)]\<rparr>"
    using False c t(3) x by (simp add: peel_step_def Let_def is_revealed_def)
  have R: "is_revealed ?st = is_revealed st" by (simp add: is_revealed_def fun_eq_iff)
  have dq: "(ps_degree st)[si := 0] ! sj \<le> 1" if "sj \<in> set (ps_queue st)" for sj
    using inv that si by (cases "sj = si") (auto simp: peel_inv_def)
  have mid: "peel_inv k s src covers0 si target ?st"
    unfolding peel_inv_def R
  proof (intro conjI allI impI ballI)
    fix sj assume sj: "sj < length covers0" "sj \<noteq> si"
    then have okj: "sym_ok k s src (is_revealed st) (\<lambda>i. is_revealed st i \<or> i = k) (covers0 ! sj) (ps_syms st ! sj) (ps_degree st ! sj)"
      using inv by (simp add: peel_inv_def)
    from sym_ok_mono [OF this, of "\<lambda>i. is_revealed st i \<or> i = target"]
    show "sym_ok k s src (is_revealed st) (\<lambda>i. is_revealed st i \<or> i = target) (covers0 ! sj) (ps_syms ?st ! sj) (ps_degree ?st ! sj)"
      using sj by auto
    fix i assume "0 < ps_degree ?st ! sj" "i \<in> fst ` set (sy_cover (ps_syms ?st ! sj))" "i \<noteq> target"
    moreover from this have "i < k" using okj sj by (intro cover_key [of k "sy_cover (ps_syms st ! sj)"]) (auto simp: sym_ok_def)
    ultimately show "sj \<in> set (ps_covers ?st ! i)" using inv sj by (fastforce simp: peel_inv_def)
  qed (use inv dq in \<open>auto simp: peel_inv_def\<close>)
  have rid0: "rid_of si target sj ?st" if "sj \<notin> set (ps_covers st ! target)" for sj
    using inv that t(1) by (fastforce simp: peel_inv_def rid_of_def map_of_eq_None_iff nth_list_update)
  have "peel_inv k s src covers0 si target ?fin \<and> (\<forall>sj. sj \<in> set (ps_covers st ! target) \<or> rid_of si target sj ?st \<longrightarrow> rid_of si target sj ?fin)"
    using fold_ripple_inv [OF mid, of "src target" simd "ps_covers st ! target"] src t(1) by simp
  then have last: "peel_inv k s src covers0 si target ?fin" and rid: "rid_of si target sj ?fin" for sj using rid0 by blast+
  have self: "ps_syms ?fin ! si = ?sy\<lparr>sy_payload := []\<rparr>" "ps_degree ?fin ! si = 0"
    using ripple_self [of simd si target "src target" "ps_covers st ! target" ?st] inv si(1) by (simp_all add: peel_inv_def)
  let ?R = "\<lambda>i. is_revealed st i \<or> i = target"
  have R': "is_revealed (peel_step simd si st) i = ?R i" for i
    using inv t(1) by (cases "i = target") (simp_all add: step is_revealed_def peel_inv_def)
  have all: "sym_ok k s src ?R ?R (covers0 ! sj) (ps_syms ?fin ! sj) (ps_degree ?fin ! sj)" if sj: "sj < length covers0" for sj
  proof (cases "sj = si")
    case True
    then show ?thesis using ok c self by (auto simp: sym_ok_def)
  next
    case False
    have "sym_ok k s src (is_revealed st) ?R (covers0 ! sj) (ps_syms ?fin ! sj) (ps_degree ?fin ! sj)"
      using last sj False by (simp add: peel_inv_def R)
    moreover have "0 < ps_degree ?fin ! sj \<Longrightarrow> \<forall>i \<in> fst ` set (sy_cover (ps_syms ?fin ! sj)). \<not> ?R i"
      using rid [of sj] calculation last sj False by (auto simp: rid_of_def peel_inv_def sym_ok_def map_of_eq_None_iff)
    ultimately show ?thesis by (rule sym_ok_next)
  qed
  show ?thesis
    unfolding peel_inv_def
  proof (intro conjI allI impI ballI)
    fix sj assume sj: "sj < length covers0" "sj \<noteq> length covers0"
    have eq: "is_revealed (peel_step simd si st) = ?R" using R' by (simp add: fun_eq_iff)
    show "sym_ok k s src (is_revealed (peel_step simd si st)) (\<lambda>i. is_revealed (peel_step simd si st) i \<or> i = k) (covers0 ! sj)
        (ps_syms (peel_step simd si st) ! sj) (ps_degree (peel_step simd si st) ! sj)"
      unfolding eq using sym_ok_mono [OF all [OF sj(1)], of "\<lambda>i. ?R i \<or> i = k"] by (simp add: step)
    fix i assume i: "0 < ps_degree (peel_step simd si st) ! sj" "i \<in> fst ` set (sy_cover (ps_syms (peel_step simd si st) ! sj))" "i \<noteq> k"
    then have "\<not> ?R i" "sj \<noteq> si" using all [OF sj(1)] self by (auto simp: step sym_ok_def)
    then show "sj \<in> set (ps_covers (peel_step simd si st) ! i)" using last sj i by (auto simp: peel_inv_def step)
  next
    fix i x assume "i < k" "ps_revealed (peel_step simd si st) ! i = Some x"
    then show "x = src i" using inv t(1) by (auto simp: step peel_inv_def nth_list_update split: if_splits)
  qed (use last inv in \<open>auto simp: step peel_inv_def\<close>)
qed (simp add: peel_step_def inv)

lemma peel_inv_end:
  "peel_inv k s src covers0 (length covers0) k st \<Longrightarrow> \<forall>i < k. length (src i) = s \<Longrightarrow> peel_inv k s src covers0 (length covers0) k (peel simd st)"
proof (induction simd st rule: peel.induct)
  case (1 simd st)
  show ?case
  proof (cases "ps_queue st")
    case (Cons si q)
    let ?st = "st\<lparr>ps_queue := q\<rparr>"
    have "is_revealed ?st = is_revealed st" by (simp add: is_revealed_def fun_eq_iff)
    then have "peel_inv k s src covers0 (length covers0) k ?st" "si < length covers0" "ps_degree ?st ! si \<le> 1"
      using "1.prems"(1) Cons by (auto simp: peel_inv_def)
    then have "peel_inv k s src covers0 (length covers0) k (peel_step simd si ?st)" by (intro peel_step_inv "1.prems"(2))
    from "1.IH" [OF Cons this "1.prems"(2)] show ?thesis by (subst peel.simps) (simp add: Cons)
  qed (use 1 in \<open>simp add: peel.simps [of simd st]\<close>)
qed

text \<open>Symbols as \<open>fountain_add\<close> leaves them.\<close>

definition sym_wf :: "nat \<Rightarrow> parsed_sym \<Rightarrow> bool" where
  "sym_wf k sy \<longleftrightarrow> cover_wf k (sy_cover sy) \<and> sy_cover sy \<noteq> []"

lemma peel_start_inv:
  assumes "\<forall>sy \<in> set syms. sym_wf k sy \<and> combines k s src sy"
  shows "peel_inv k s src (map sy_cover syms) (length syms) k (peel_start k syms)"
proof -
  have "\<not> is_revealed (peel_start k syms) i" if "i < k" for i using that by (simp add: is_revealed_def peel_start_def)
  then have "sym_ok k s src (is_revealed (peel_start k syms)) (\<lambda>i. is_revealed (peel_start k syms) i \<or> i = k) (sy_cover sy) sy (length (sy_cover sy))"
    if "sy \<in> set syms" for sy
    using assms that by (fastforce simp: sym_ok_def sym_wf_def cover_wf_def)
  then have ok: "sym_ok k s src (is_revealed (peel_start k syms)) (\<lambda>i. is_revealed (peel_start k syms) i \<or> i = k) (sy_cover (syms ! sj)) (syms ! sj)
      (length (sy_cover (syms ! sj)))" if "sj < length syms" for sj using that by simp
  show ?thesis
    unfolding peel_inv_def
  proof (intro conjI allI impI ballI)
    fix sj assume sj: "sj < length (map sy_cover syms)"
    then show "sym_ok k s src (is_revealed (peel_start k syms)) (\<lambda>i. is_revealed (peel_start k syms) i \<or> i = k) (map sy_cover syms ! sj)
        (ps_syms (peel_start k syms) ! sj) (ps_degree (peel_start k syms) ! sj)"
      using ok [of sj] by (simp add: peel_start_def)
    fix i assume i: "i \<in> fst ` set (sy_cover (ps_syms (peel_start k syms) ! sj))"
    then have "i < k" using sj assms by (intro cover_key [of k "sy_cover (syms ! sj)"]) (auto simp: sym_wf_def peel_start_def)
    then show "sj \<in> set (ps_covers (peel_start k syms) ! i)" using i sj by (simp add: peel_start_def)
  qed (auto simp: peel_start_def)
qed

section \<open>The residual system has the sources as its solution\<close>

lemma gf_sum_reindex:
  "(\<And>i. i < k \<Longrightarrow> \<not> P i \<Longrightarrow> f i = 0) \<Longrightarrow> gf_sum f k = gf_sum (\<lambda>j. f (filter P [0..<k] ! j)) (length (filter P [0..<k]))"
proof (induction k)
  case (Suc k)
  let ?us = "filter P [0..<k]"
  have "gf_sum (\<lambda>j. f ((?us @ [k]) ! j)) (length ?us) = gf_sum (\<lambda>j. f (?us ! j)) (length ?us)"
    by (rule gf_sum_cong) (simp add: nth_append)
  then show ?case using Suc by (cases "P k") simp_all
qed simp

lemma col_of_nth: "distinct us \<Longrightarrow> j < length us \<Longrightarrow> col_of us (us ! j) = j"
proof -
  assume us: "distinct us" "j < length us"
  then have "takeWhile (\<lambda>u. u \<noteq> us ! j) us = take j us"
    by (intro takeWhile_eq_take_P_nth) (auto simp: nth_eq_iff_index_eq)
  then show ?thesis using us by (simp add: col_of_def)
qed

lemma coeff_row_nth:
  assumes "distinct us" "fst ` set pairs \<subseteq> set us" "distinct (map fst pairs)"
  shows "length (coeff_row us pairs) = length us \<and> (\<forall>j < length us. coeff_row us pairs ! j = coef pairs (us ! j))"
proof -
  let ?f = "\<lambda>(i, c) row. row[col_of us i := xor (row ! col_of us i) c]"
  have "length row = length us \<Longrightarrow> length (fold ?f pairs row) = length us \<and> (\<forall>j < length us. fold ?f pairs row ! j = xor (row ! j) (coef pairs (us ! j)))" for row
    using assms(2,3)
  proof (induction pairs arbitrary: row)
    case (Cons p pairs)
    obtain i c where p: "p = (i, c)" by fastforce
    obtain m where m: "m < length us" "us ! m = i" using Cons.prems(2) p by (auto simp: in_set_conv_nth)
    have col: "col_of us i = m" using col_of_nth [OF assms(1) m(1)] m(2) by simp
    let ?row = "row[m := xor (row ! m) c]"
    have IH: "length (fold ?f pairs ?row) = length us \<and> (\<forall>j < length us. fold ?f pairs ?row ! j = xor (?row ! j) (coef pairs (us ! j)))"
      using Cons by simp
    moreover have "coef pairs i = 0" using Cons.prems(3) p by (intro coef_outside) auto
    ultimately show ?case using m Cons.prems(1) assms(1) p
      by (auto simp: col coef_Cons nth_list_update nth_eq_iff_index_eq)
  qed simp
  from this [of "replicate (length us) 0"] show ?thesis by (auto simp: coeff_row_def)
qed

lemma unknowns_facts: "distinct (unknowns revealed)" "i \<in> set (unknowns revealed) \<longleftrightarrow> i < length revealed \<and> revealed ! i = None"
  by (auto simp: unknowns_def)

lemma coef_filter_unrevealed: "revealed ! i = None \<Longrightarrow> coef (filter (\<lambda>(i, _). revealed ! i = None) cover) i = coef cover i"
  by (induction cover) (auto simp: coef_Cons)

lemma residual_row_Some:
  assumes ok: "sym_ok k s src (\<lambda>i. revealed ! i \<noteq> None) (\<lambda>i. revealed ! i \<noteq> None \<or> i = k) cover0 sy d"
    and "length revealed = k" "residual_row revealed sy = Some row"
  defines "us \<equiv> unknowns revealed"
  shows "length row = length us + s \<and> (\<forall>j < length us. row ! j = coef (sy_cover sy) (us ! j)) \<and>
    (\<forall>t < s. row ! (length us + t) = row_dot (length us) row (\<lambda>j. src (us ! j) ! t))"
proof -
  let ?pairs = "filter (\<lambda>(i, _). revealed ! i = None) (sy_cover sy)"
  have p: "sy_payload sy \<noteq> []" "?pairs \<noteq> []" "row = coeff_row us ?pairs @ sy_payload sy"
    using assms(3) by (auto simp: residual_row_def Let_def us_def split: if_splits)
  have wf: "cover_wf k (sy_cover sy)" using ok by (simp add: sym_ok_def)
  have "sy_cover sy \<noteq> []" using p(2) by auto
  then have "0 < d" using ok p(1) by (auto simp: sym_ok_def)
  then have c: "combines k s src sy" "\<forall>i \<in> fst ` set (sy_cover sy). revealed ! i = None" using ok by (auto simp: sym_ok_def)
  have cr: "length (coeff_row us ?pairs) = length us \<and> (\<forall>j < length us. coeff_row us ?pairs ! j = coef ?pairs (us ! j))"
  proof (rule coeff_row_nth)
    show "fst ` set ?pairs \<subseteq> set us" using wf assms(2) by (auto simp: us_def unknowns_facts cover_wf_def)
    show "distinct (map fst ?pairs)" using wf by (simp add: cover_wf_def distinct_map_filter)
  qed (simp add: us_def unknowns_facts)
  have none: "revealed ! (us ! j) = None" if "j < length us" for j using nth_mem [OF that] by (simp add: us_def unknowns_facts)
  then have coefs: "row ! j = coef (sy_cover sy) (us ! j)" if "j < length us" for j
    using that cr p(3) by (simp add: nth_append coef_filter_unrevealed)
  have zero: "coef (sy_cover sy) i = 0" if "revealed ! i \<noteq> None" for i by (rule coef_outside) (use c(2) that in auto)
  have "row ! (length us + t) = row_dot (length us) row (\<lambda>j. src (us ! j) ! t)" if t: "t < s" for t
  proof -
    have "row ! (length us + t) = cover_dot k (sy_cover sy) (\<lambda>i. src i ! t)" using c(1) t p(3) cr by (simp add: combines_def nth_append)
    also have "\<dots> = gf_sum (\<lambda>j. gf_mul (coef (sy_cover sy) (us ! j)) (src (us ! j) ! t)) (length us)"
      unfolding cover_dot_def us_def unknowns_def assms(2)
      by (rule gf_sum_reindex) (simp add: zero)
    also have "\<dots> = row_dot (length us) row (\<lambda>j. src (us ! j) ! t)"
      unfolding row_dot_def by (rule gf_sum_cong) (simp add: coefs)
    finally show ?thesis .
  qed
  then show ?thesis using coefs cr p(3) c(1) by (simp add: combines_def)
qed

lemma residual_row_None:
  assumes ok: "sym_ok k s src (\<lambda>i. revealed ! i \<noteq> None) (\<lambda>i. revealed ! i \<noteq> None \<or> i = k) cover0 sy d"
    and "0 < s" "residual_row revealed sy = None" "i < k" "revealed ! i = None"
  shows "coef (sy_cover sy) i = 0"
proof (rule coef_outside)
  show "i \<notin> fst ` set (sy_cover sy)"
  proof (cases "sy_payload sy = []")
    case True
    then have "\<not> 0 < d" using ok assms(2) by (auto simp: sym_ok_def combines_def)
    then show ?thesis using ok assms(4,5) by (auto simp: sym_ok_def)
  next
    case False
    then have "filter (\<lambda>(i, _). revealed ! i = None) (sy_cover sy) = []" using assms(3) by (auto simp: residual_row_def Let_def split: if_splits)
    then show ?thesis using assms(5) by (auto simp: filter_empty_conv)
  qed
qed

lemma fold_publish:
  assumes "\<forall>q < length rows. \<forall>rv. publish_row us s (rows ! q) rv = (if q < length us then rv[us ! q := Some (f (us ! q))] else rv)"
  shows "length (fold (publish_row us s) rows rv) = length rv \<and>
    (\<forall>i < length rv. fold (publish_row us s) rows rv ! i = (if i \<in> set (take (length rows) us) then Some (f i) else rv ! i))"
  using assms
proof (induction rows rule: rev_induct)
  case (snoc row rows)
  have "\<forall>q < length rows. \<forall>rv. publish_row us s (rows ! q) rv = (if q < length us then rv[us ! q := Some (f (us ! q))] else rv)"
    using snoc.prems by (auto simp: nth_append split: if_splits)
  note IH = snoc.IH [OF this]
  have row: "publish_row us s row v = (if length rows < length us then v[us ! length rows := Some (f (us ! length rows))] else v)" for v
    using snoc.prems [rule_format, of "length rows"] by simp
  show ?case
  proof (cases "length rows < length us")
    case True
    then have "set (take (length (rows @ [row])) us) = insert (us ! length rows) (set (take (length rows) us))"
      by (simp add: take_Suc_conv_app_nth)
    moreover define v where "v = fold (publish_row us s) rows rv"
    moreover have "fold (publish_row us s) (rows @ [row]) rv = v[us ! length rows := Some (f (us ! length rows))]" using row True by (simp add: v_def)
    ultimately have eq: "fold (publish_row us s) (rows @ [row]) rv = v[us ! length rows := Some (f (us ! length rows))]"
      and v: "length v = length rv" "\<And>i. i < length rv \<Longrightarrow> v ! i = (if i \<in> set (take (length rows) us) then Some (f i) else rv ! i)"
      and set: "set (take (length (rows @ [row])) us) = insert (us ! length rows) (set (take (length rows) us))"
      using IH by blast+
    have "v[us ! length rows := Some (f (us ! length rows))] ! i = (if i \<in> set (take (length (rows @ [row])) us) then Some (f i) else rv ! i)"
      if "i < length rv" for i
      unfolding set using v that by (cases "us ! length rows = i") auto
    then show ?thesis unfolding eq using v(1) by simp
  next
    case False
    then show ?thesis using IH row by simp
  qed
qed simp

lemma publish_unit_row:
  assumes "\<forall>j < length us. row ! j = (if q = j then 1 else 0)" "q < length us \<Longrightarrow> take s (drop (length us) row) = f (us ! q)"
  shows "publish_row us s row rv = (if q < length us then rv[us ! q := Some (f (us ! q))] else rv)"
proof (cases "q < length us")
  case True
  then have "find (\<lambda>piv. row ! piv \<noteq> 0) [0..<length us] = Some q"
    unfolding find_Some_iff by (intro exI [of _ q]) (use assms(1) in auto)
  then show ?thesis using True assms(2) by (simp add: publish_row_def)
next
  case False
  then have "find (\<lambda>piv. row ! piv \<noteq> 0) [0..<length us] = None"
    using assms(1) by (auto simp: find_None_iff)
  then show ?thesis using False by (simp add: publish_row_def)
qed

text \<open>The solution that the eliminated matrix is read as.\<close>

lemma publish_solution:
  assumes "length us \<le> length mat" "\<forall>u \<in> set us. u < length rv \<and> length (src u) = s"
    "\<forall>r < length us. \<forall>t < s. mat ! r ! (length us + t) = src (us ! r) ! t"
    "\<forall>r < length mat. length (mat ! r) = length us + s \<and> (\<forall>j < length us. mat ! r ! j = (if r = j then 1 else 0))"
  shows "length (fold (publish_row us s) mat rv) = length rv \<and>
    (\<forall>i < length rv. fold (publish_row us s) mat rv ! i = (if i \<in> set us then Some (src i) else rv ! i))"
proof -
  have tail: "take s (drop (length us) (mat ! q)) = src (us ! q)" if "q < length us" for q
    using that assms by (intro nth_equalityI) auto
  have "publish_row us s (mat ! q) rv = (if q < length us then rv[us ! q := Some (src (us ! q))] else rv)" if "q < length mat" for q rv
    by (rule publish_unit_row) (use assms(4) that tail in blast)+
  then have "\<forall>q < length mat. \<forall>rv. publish_row us s (mat ! q) rv = (if q < length us then rv[us ! q := Some (src (us ! q))] else rv)" by blast
  from fold_publish [OF this, of rv] show ?thesis using assms(1) by simp
qed

text \<open>A nonzero vector that no received symbol sees.\<close>

definition unseen :: "nat \<Rightarrow> parsed_sym list \<Rightarrow> (nat \<Rightarrow> u8) \<Rightarrow> bool" where
  "unseen k syms v \<longleftrightarrow> (\<exists>i < k. v i \<noteq> 0) \<and> (\<forall>sy \<in> set syms. cover_dot k (sy_cover sy) v = 0)"

lemma in_map_filter: "y \<in> set (List.map_filter f xs) \<longleftrightarrow> (\<exists>j < length xs. f (xs ! j) = Some y)"
proof -
  have "y \<in> set (List.map_filter f xs) \<longleftrightarrow> (\<exists>x \<in> set xs. f x = Some y)"
    by (induction xs) (auto simp: List.map_filter_simps split: option.splits)
  then show ?thesis by (metis in_set_conv_nth)
qed

lemma residual_kernel:
  assumes inv: "peel_inv k s src covers0 (length covers0) k st" and "0 < s"
  defines "us \<equiv> unknowns (ps_revealed st)"
  assumes "has_kernel (length us) (List.map_filter (residual_row (ps_revealed st)) (ps_syms st))"
  shows "\<exists>v. (\<exists>i < k. v i \<noteq> 0) \<and> (\<forall>c \<in> set covers0. cover_dot k c v = 0)"
proof -
  let ?rv = "ps_revealed st" and ?mat = "List.map_filter (residual_row (ps_revealed st)) (ps_syms st)"
  obtain w m where w: "m < length us" "w m \<noteq> 0" "\<forall>row \<in> set ?mat. row_dot (length us) row w = 0"
    using assms(4) unfolding has_kernel_def by (metis in_set_conv_nth)
  let ?v = "\<lambda>i. if i \<in> set us then w (col_of us i) else 0"
  have k: "length ?rv = k" using inv by (simp add: peel_inv_def)
  have us: "distinct us" "\<And>i. i \<in> set us \<longleftrightarrow> i < k \<and> ?rv ! i = None" using k by (simp_all add: us_def unknowns_facts)
  have v: "?v (us ! j) = w j" if "j < length us" for j using that us(1) by (simp add: col_of_nth)
  have "cover_dot k (covers0 ! sj) ?v = 0" if sj: "sj < length covers0" for sj
  proof -
    let ?sy = "ps_syms st ! sj"
    have ok: "sym_ok k s src (\<lambda>i. ?rv ! i \<noteq> None) (\<lambda>i. ?rv ! i \<noteq> None \<or> i = k) (covers0 ! sj) ?sy (ps_degree st ! sj)"
      using inv sj by (simp add: peel_inv_def is_revealed_def [abs_def])
    have "cover_dot k (covers0 ! sj) ?v = gf_sum (\<lambda>j. gf_mul (coef (covers0 ! sj) (us ! j)) (?v (us ! j))) (length us)"
      unfolding cover_dot_def us_def unknowns_def k by (rule gf_sum_reindex) (auto simp: us_def unknowns_facts k)
    also have "\<dots> = gf_sum (\<lambda>j. gf_mul (coef (sy_cover ?sy) (us ! j)) (w j)) (length us)"
    proof (rule gf_sum_cong)
      fix j assume j: "j < length us"
      then have "us ! j < k" "?rv ! (us ! j) = None" using us(2) nth_mem [OF j] by auto
      then show "gf_mul (coef (covers0 ! sj) (us ! j)) (?v (us ! j)) = gf_mul (coef (sy_cover ?sy) (us ! j)) (w j)"
        using ok v [OF j] by (simp add: sym_ok_def)
    qed
    also have "\<dots> = 0"
    proof (cases "residual_row ?rv ?sy")
      case None
      have "coef (sy_cover ?sy) (us ! j) = 0" if "j < length us" for j
        using residual_row_None [OF ok assms(2) None] us(2) nth_mem [OF that] by blast
      then show ?thesis by (intro gf_sum_zero) simp
    next
      case (Some row)
      then have "row \<in> set ?mat" using inv sj by (auto simp: in_map_filter peel_inv_def)
      then have "row_dot (length us) row w = 0" using w(3) by blast
      moreover have "row_dot (length us) row w = gf_sum (\<lambda>j. gf_mul (coef (sy_cover ?sy) (us ! j)) (w j)) (length us)"
        unfolding row_dot_def by (rule gf_sum_cong) (use residual_row_Some [OF ok k Some] in \<open>simp add: us_def\<close>)
      ultimately show ?thesis by simp
    qed
    finally show ?thesis .
  qed
  then have "\<forall>c \<in> set covers0. cover_dot k c ?v = 0" by (force simp: in_set_conv_nth [of _ covers0])
  moreover have "us ! m < k" using us(2) nth_mem [OF w(1)] by blast
  moreover have "?v (us ! m) \<noteq> 0" by (simp only: v [OF w(1)] w(2) simp_thms)
  ultimately show ?thesis by (intro exI [of _ ?v] conjI) blast
qed

text \<open>Peeling and elimination return the sources, unless some nonzero vector is unseen.\<close>

lemma peel_symbols_cases:
  assumes "0 < s" and src: "\<forall>i < k. length (src i) = s" and syms: "\<forall>sy \<in> set syms. sym_wf k sy \<and> combines k s src sy"
  shows "snd (peel_symbols simd k s syms) = Inr (map src [0..<k]) \<or>
    (\<exists>have need v. snd (peel_symbols simd k s syms) = Inl (Underdetermined have need) \<and> unseen k syms v)"
proof -
  define st where "st = peel simd (peel_start k syms)"
  let ?rv = "ps_revealed st"
  define us where "us = unknowns ?rv"
  have inv: "peel_inv k s src (map sy_cover syms) (length (map sy_cover syms)) k st"
    using peel_inv_end [of k s src "map sy_cover syms", OF _ src] peel_start_inv [OF syms] by (simp add: st_def)
  have k: "length ?rv = k" using inv by (simp add: peel_inv_def)
  have len: "length (ps_syms st) = length syms" using inv by (simp add: peel_inv_def)
  have known: "?rv ! i = Some (src i)" if "i < k" "i \<notin> set us" for i
    using inv that k by (auto simp: peel_inv_def us_def unknowns_facts)
  show ?thesis
  proof (cases "us = []")
    case True
    then have "map (\<lambda>r. case r of Some x \<Rightarrow> x | None \<Rightarrow> []) ?rv = map src [0..<k]" using known k by (intro nth_equalityI) auto
    then show ?thesis using True by (simp add: peel_symbols_def Let_def st_def [symmetric] us_def [symmetric])
  next
    case False
    let ?mat = "List.map_filter (residual_row ?rv) (ps_syms st)"
    obtain mat rank where run: "gf_gauss_eliminate simd ?mat (length us + s) (length us) = (mat, rank)" by fastforce
    have "length row = length us + s \<and> (\<forall>t < s. row ! (length us + t) = row_dot (length us) row (\<lambda>j. src (us ! j) ! t))" if row: "row \<in> set ?mat" for row
    proof -
      obtain sj where sj: "sj < length syms" "residual_row ?rv (ps_syms st ! sj) = Some row"
        using row len unfolding in_map_filter by auto
      then have ok: "sym_ok k s src (\<lambda>i. ?rv ! i \<noteq> None) (\<lambda>i. ?rv ! i \<noteq> None \<or> i = k) (map sy_cover syms ! sj) (ps_syms st ! sj) (ps_degree st ! sj)"
        using inv by (simp add: peel_inv_def is_revealed_def [abs_def])
      show ?thesis using residual_row_Some [OF ok k sj(2)] by (simp add: us_def)
    qed
    then have rows: "\<forall>r < length ?mat. length (?mat ! r) = length us + s \<and>
      (\<forall>t < s. ?mat ! r ! (length us + t) = row_dot (length us) (?mat ! r) (\<lambda>j. src (us ! j) ! t))" by simp
    have spec: "rank \<le> length us" "rank < length us \<longrightarrow> has_kernel (length us) ?mat"
      using gauss_spec [OF _ _ _ run] rows False by auto
    show ?thesis
    proof (cases "rank < length us")
      case True
      then obtain v where "unseen k syms v"
        using residual_kernel [OF inv assms(1)] spec(2) by (auto simp: us_def unseen_def)
      then show ?thesis using True False run by (auto simp: peel_symbols_def Let_def st_def [symmetric] us_def [symmetric])
    next
      case full: False
      then have rank: "rank = length us" using spec(1) by simp
      have sol: "length mat = length ?mat \<and> length us \<le> length ?mat \<and> (\<forall>r < length us. \<forall>t < s. mat ! r ! (length us + t) = src (us ! r) ! t) \<and>
        (\<forall>r < length ?mat. length (mat ! r) = length us + s \<and> (\<forall>j < length us. mat ! r ! j = (if r = j then 1 else 0)))"
        by (rule gauss_solves [OF rows run [unfolded rank]]) (use False in simp)
      have "length (fold (publish_row us s) mat ?rv) = k \<and> (\<forall>i < k. fold (publish_row us s) mat ?rv ! i = (if i \<in> set us then Some (src i) else ?rv ! i))"
        using publish_solution [of us mat ?rv src s] sol src k by (simp add: us_def unknowns_facts)
      then have "fold (publish_row us s) mat ?rv = map (\<lambda>i. Some (src i)) [0..<k]" using known by (intro nth_equalityI) auto
      then have "None \<notin> set (fold (publish_row us s) mat ?rv)"
        "map (\<lambda>r. case r of Some x \<Rightarrow> x | None \<Rightarrow> []) (fold (publish_row us s) mat ?rv) = map src [0..<k]" by auto
      then show ?thesis using full False run by (simp add: peel_symbols_def Let_def st_def [symmetric] us_def [symmetric])
    qed
  qed
qed

section \<open>Encoder and wire\<close>

text \<open>\<open>d.add(s)?\<close> for every symbol of a frame.\<close>

fun fountain_feed :: "bytes list \<Rightarrow> fountain_decoder \<Rightarrow> fountain_error + fountain_decoder" where
  "fountain_feed [] d = Inr d"
| "fountain_feed (w # ws) d = (case fountain_add w d of Inl e \<Rightarrow> Inl e | Inr (_, d) \<Rightarrow> fountain_feed ws d)"

definition encoder_ok :: "fountain_encoder \<Rightarrow> bool" where
  "encoder_ok e \<longleftrightarrow> 0 < source_k (fe_source e) \<and> 0 < source_size (fe_source e) \<and>
     (\<forall>i < source_k (fe_source e). length (source_src (fe_source e) i) = source_size (fe_source e))"

lemma encoder_new_ok: "encoder_new source generation = Inr e \<Longrightarrow> source ! 0 \<noteq> [] \<Longrightarrow> encoder_ok e"
  by (auto simp: encoder_new_def encoder_ok_def find_None_iff nth_Cons split: list.splits option.splits nat.splits)

lemma encoder_new_shared_ok: "encoder_new_shared buf offset stride k generation = Inr e \<Longrightarrow> encoder_ok e"
proof -
  assume e: "encoder_new_shared buf offset stride k generation = Inr e"
  have "length buf - (offset + i * stride) \<ge> stride" if "i < k" "offset + k * stride \<le> length buf" for i
  proof -
    have "Suc i * stride \<le> k * stride" using that(1) by (intro mult_le_mono1) simp
    then show ?thesis using that(2) by simp
  qed
  then show ?thesis using e by (auto simp: encoder_new_shared_def encoder_ok_def split: if_splits)
qed

lemma u16_read: "n < 65536 \<Longrightarrow> u16_of_le (u16_le_nat n @ rest) = n"
  by (simp add: u16_of_le_def u16_le_nat_def from_le_bytes)

lemma length_u16 [simp]: "length (u16_le_nat n) = 2"
  by (simp add: u16_le_nat_def)

lemma parse_cover_pairs:
  assumes "cover_wf k (cover @ pairs)" "k \<le> 65536"
  shows "parse_cover (length pairs) k (concat (map (\<lambda>(i, c). u16_le_nat i @ [c]) pairs) @ rest) cover = cover @ pairs"
  using assms(1)
proof (induction pairs arbitrary: cover)
  case (Cons p pairs)
  obtain i c where p: "p = (i, c)" by fastforce
  have i: "i < k" "c \<noteq> 0" "i \<notin> fst ` set cover" using Cons.prems p by (auto simp: cover_wf_def)
  have "cover_insert i c cover = cover @ [(i, c)]"
    using i(3) by (force simp: cover_insert_def filter_id_conv)
  moreover have "parse_cover (length pairs) k (concat (map (\<lambda>(i, c). u16_le_nat i @ [c]) pairs) @ rest) (cover @ [(i, c)]) = (cover @ [(i, c)]) @ pairs"
    by (rule Cons.IH) (use Cons.prems p in simp)
  ultimately show ?case using i assms(2) by (simp add: p u16_read Let_def nth_append)
qed simp

lemma add_wire:
  assumes "cover_wf k pairs" "k < 65536" "length pairs < 65536" "length payload = s" "fd_k d = k" "fd_size d = s"
  shows "\<exists>b. fountain_add (wire_symbol pairs payload) d =
    Inr (b, if pairs = [] then d else d\<lparr>fd_syms := fd_syms d @ [\<lparr>sy_cover = pairs, sy_payload = payload\<rparr>]\<rparr>)"
proof -
  let ?body = "concat (map (\<lambda>(i, c). u16_le_nat i @ [c]) pairs)"
  have len: "length ?body = length pairs * 3" by (induction pairs) auto
  have n: "u16_of_le (wire_symbol pairs payload) = length pairs" using u16_read [OF assms(3)] by (simp add: wire_symbol_def)
  have two: "drop 2 (wire_symbol pairs payload) = ?body @ payload" by (simp add: wire_symbol_def)
  have tail: "drop (2 + length pairs * 3) (wire_symbol pairs payload) = payload" by (simp add: wire_symbol_def len)
  have wire: "length (wire_symbol pairs payload) = 2 + length pairs * 3 + s" using assms(4) len by (simp add: wire_symbol_def)
  have "parse_cover (length pairs) k (?body @ payload) [] = pairs"
    using parse_cover_pairs [of k "[]" pairs payload] assms(1,2) by simp
  then show ?thesis unfolding fountain_add_def Let_def n two wire using assms(4,5,6) tail by auto
qed

lemma choose_sources_wf:
  "0 < k \<Longrightarrow> distinct chosen \<Longrightarrow> set chosen \<subseteq> {..<k} \<Longrightarrow> choose_sources rounds degree k chosen state = (chosen', state') \<Longrightarrow>
     distinct chosen' \<and> set chosen' \<subseteq> {..<k}"
proof (induction rounds degree k chosen state rule: choose_sources.induct)
  case (2 rounds degree k chosen state)
  obtain idx st where n: "next_below k state = (idx, st)" by fastforce
  then have "idx < k" using "2.prems"(1) by (auto simp: next_below_def split: prod.splits)
  then show ?case using 2 n by (auto split: if_splits)
qed simp

lemma draw_coeffs_wf: "length (draw_coeffs n state) = n \<and> 0 \<notin> set (draw_coeffs n state)"
proof (induction n arbitrary: state)
  case (Suc n)
  have "or z 1 \<noteq> (0 :: u8)" for z
  proof
    assume "or z 1 = (0 :: u8)"
    then have "bit (or z 1) 0 = bit (0 :: u8) 0" by simp
    then show False by (simp add: bit_or_iff)
  qed
  then show ?case using Suc by (auto split: prod.splits)
qed simp

lemma repair_pairs_wf: "0 < k \<Longrightarrow> cover_wf k (repair_pairs soliton k generation index)"
proof -
  assume k: "0 < k"
  obtain degree state where d: "soliton_degree soliton k (rng_new (or (push_bit 40 (ucast generation)) index)) = (degree, state)" by fastforce
  obtain chosen state' where c: "choose_sources (10 * k) degree k [] state = (chosen, state')" by fastforce
  have wf: "distinct chosen \<and> set chosen \<subseteq> {..<k}" by (rule choose_sources_wf [OF k _ _ c]) simp_all
  have "repair_pairs soliton k generation index = zip chosen (draw_coeffs (length chosen) state')" by (simp add: repair_pairs_def d c)
  moreover have "map fst (zip chosen (draw_coeffs (length chosen) state')) = chosen" using draw_coeffs_wf by simp
  ultimately show ?thesis using wf draw_coeffs_wf [of "length chosen" state'] by (auto simp: cover_wf_def dest: set_zip_leftD set_zip_rightD)
qed

lemma cover_wf_length: "cover_wf k pairs \<Longrightarrow> length pairs \<le> k"
proof -
  assume wf: "cover_wf k pairs"
  then have "length pairs = card (fst ` set pairs)" by (metis cover_wf_def distinct_card length_map set_map)
  also have "\<dots> \<le> card {..<k}" by (rule card_mono) (use wf in \<open>auto simp: cover_wf_def\<close>)
  finally show ?thesis by simp
qed

lemma cover_dot_Cons: "i \<notin> fst ` set pairs \<Longrightarrow> i < k \<Longrightarrow> cover_dot k ((i, c) # pairs) v = xor (cover_dot k pairs v) (gf_mul c (v i))"
proof -
  assume i: "i \<notin> fst ` set pairs" "i < k"
  then have "filter (\<lambda>(j, _). j \<noteq> i) ((i, c) # pairs) = pairs" by (force simp: filter_id_conv)
  then show ?thesis using cover_dot_filter [of "(i, c) # pairs" i c k v] i(2) by simp
qed

lemma mix_sources_combines:
  assumes "cover_wf k pairs" "\<forall>i < k. length (source_src src i) = source_size src"
  shows "combines k (source_size src) (source_src src) \<lparr>sy_cover = pairs, sy_payload = mix_sources simd src pairs\<rparr>"
proof -
  let ?f = "\<lambda>(i, c) payload. gf_axpy_slice simd c (source_src src i) payload" and ?s = "source_size src"
  have "length p = ?s \<Longrightarrow> length (fold ?f pairs p) = ?s \<and> (\<forall>t < ?s. fold ?f pairs p ! t = xor (p ! t) (cover_dot k pairs (\<lambda>i. source_src src i ! t)))" for p
    using assms(1)
  proof (induction pairs arbitrary: p)
    case Nil
    then show ?case by (simp add: cover_dot_def gf_sum_zero)
  next
    case (Cons q pairs)
    obtain i c where q: "q = (i, c)" by fastforce
    have i: "i \<notin> fst ` set pairs" "i < k" "cover_wf k pairs" using Cons.prems(2) q by (auto simp: cover_wf_def)
    have "length (axpy_ref c (source_src src i) p) = ?s" using Cons.prems(1) by simp
    from Cons.IH [OF this i(3)] show ?case
      using Cons.prems(1) assms(2) i by (simp add: q gf_axpy_slice_eq cover_dot_Cons axpy_ref_def ac_simps)
  qed
  from this [of "replicate ?s 0"] show ?thesis by (simp add: combines_def mix_sources_def)
qed

text \<open>A wire symbol that carries a true combination of the sources.\<close>

definition true_wire :: "fountain_source \<Rightarrow> bytes \<Rightarrow> bool" where
  "true_wire src w \<longleftrightarrow> (\<exists>pairs payload. w = wire_symbol pairs payload \<and> cover_wf (source_k src) pairs \<and>
     combines (source_k src) (source_size src) (source_src src) \<lparr>sy_cover = pairs, sy_payload = payload\<rparr>)"

lemma systematic_combines: "i < k \<Longrightarrow> length (src i) = s \<Longrightarrow> combines k s src \<lparr>sy_cover = [(i, 1)], sy_payload = src i\<rparr>"
  using cover_dot_Cons [of i "[]" k 1] by (simp add: combines_def) (simp add: cover_dot_def gf_sum_zero)

lemma systematic_true: "encoder_ok e \<Longrightarrow> i < source_k (fe_source e) \<Longrightarrow> true_wire (fe_source e) (systematic_symbol (fe_source e) i)"
  unfolding true_wire_def systematic_symbol_def
  by (intro exI [of _ "[(i, 1)]"] exI [of _ "source_src (fe_source e) i"])
    (simp add: cover_wf_def systematic_combines encoder_ok_def)

lemma repair_true:
  "encoder_ok e \<Longrightarrow> repair_symbols simd soliton n e = (ws, e') \<Longrightarrow> \<forall>w \<in> set ws. true_wire (fe_source e) w"
proof (induction n arbitrary: e ws e')
  case (Suc n)
  obtain w e1 where w: "repair_symbol simd soliton e = (w, e1)" by fastforce
  obtain ws1 e2 where ws: "repair_symbols simd soliton n e1 = (ws1, e2)" by fastforce
  let ?src = "fe_source e"
  let ?pairs = "repair_pairs soliton (source_k ?src) (fe_generation e) (fe_repair_index e + 1)"
  have e1: "fe_source e1 = ?src" and weq: "w = wire_symbol ?pairs (mix_sources simd ?src ?pairs)" using w by (auto simp: repair_symbol_def Let_def)
  have wf: "cover_wf (source_k ?src) ?pairs" using Suc.prems(1) by (intro repair_pairs_wf) (simp add: encoder_ok_def)
  then have "true_wire ?src w" using mix_sources_combines [OF wf, of ?src simd] Suc.prems(1) unfolding true_wire_def weq encoder_ok_def by blast
  moreover have "\<forall>w \<in> set ws1. true_wire ?src w" using Suc.IH [OF _ ws] Suc.prems(1) e1 by (simp add: encoder_ok_def)
  ultimately show ?case using Suc.prems(2) w ws by auto
qed simp

lemma produce_true:
  "encoder_ok e \<Longrightarrow> fountain_produce simd soliton n e = (ws, e') \<Longrightarrow> \<forall>w \<in> set ws. true_wire (fe_source e) w"
  using repair_true [of e simd soliton "n - source_k (fe_source e)"] systematic_true [of e]
  by (auto simp: fountain_produce_def Let_def split: prod.splits)

text \<open>A decoder whose symbols are true combinations, and what a frame of such symbols adds.\<close>

definition decoder_true :: "fountain_source \<Rightarrow> fountain_decoder \<Rightarrow> bool" where
  "decoder_true src d \<longleftrightarrow> fd_k d = source_k src \<and> fd_size d = source_size src \<and>
     (\<forall>sy \<in> set (fd_syms d). sym_wf (source_k src) sy \<and> combines (source_k src) (source_size src) (source_src src) sy)"

lemma feed_true:
  assumes "decoder_true src d" "\<forall>w \<in> set ws. true_wire src w" "source_k src < 65536" "\<forall>i < source_k src. length (source_src src i) = source_size src"
  shows "\<exists>d'. fountain_feed ws d = Inr d' \<and> decoder_true src d' \<and> set (fd_syms d) \<subseteq> set (fd_syms d') \<and>
    (\<forall>i < source_k src. systematic_symbol src i \<in> set ws \<longrightarrow> \<lparr>sy_cover = [(i, 1)], sy_payload = source_src src i\<rparr> \<in> set (fd_syms d'))"
  using assms(1,2)
proof (induction ws arbitrary: d)
  case (Cons w ws)
  let ?k = "source_k src" and ?s = "source_size src"
  have add: "\<exists>b. fountain_add (wire_symbol pairs payload) d =
      Inr (b, if pairs = [] then d else d\<lparr>fd_syms := fd_syms d @ [\<lparr>sy_cover = pairs, sy_payload = payload\<rparr>]\<rparr>)"
    if "cover_wf ?k pairs" "length payload = ?s" for pairs payload
    using add_wire [OF that(1) assms(3) _ that(2), of d] cover_wf_length [OF that(1)] assms(3) Cons.prems(1) by (simp add: decoder_true_def)
  obtain pairs payload where w: "w = wire_symbol pairs payload" "cover_wf ?k pairs" "combines ?k ?s (source_src src) \<lparr>sy_cover = pairs, sy_payload = payload\<rparr>"
    using Cons.prems(2) by (auto simp: true_wire_def)
  obtain b d1 where d1: "fountain_add w d = Inr (b, d1)"
    "d1 = (if pairs = [] then d else d\<lparr>fd_syms := fd_syms d @ [\<lparr>sy_cover = pairs, sy_payload = payload\<rparr>]\<rparr>)"
    using add [OF w(2), of payload] w(1,3) unfolding combines_def by auto
  have t1: "decoder_true src d1" "set (fd_syms d) \<subseteq> set (fd_syms d1)"
    using Cons.prems(1) w d1(2) by (auto simp: decoder_true_def sym_wf_def)
  have sys: "\<lparr>sy_cover = [(i, 1)], sy_payload = source_src src i\<rparr> \<in> set (fd_syms d1)" if "i < ?k" "systematic_symbol src i = w" for i
    using add [of "[(i, 1)]" "source_src src i"] that assms(4) d1(1) by (auto simp: systematic_symbol_def cover_wf_def)
  obtain d' where d': "fountain_feed ws d1 = Inr d'" "decoder_true src d'" "set (fd_syms d1) \<subseteq> set (fd_syms d')"
    "\<forall>i < ?k. systematic_symbol src i \<in> set ws \<longrightarrow> \<lparr>sy_cover = [(i, 1)], sy_payload = source_src src i\<rparr> \<in> set (fd_syms d')"
    using Cons.IH [OF t1(1)] Cons.prems(2) by auto
  show ?case using d' d1(1) t1(2) sys by (intro exI [of _ d']) auto
qed simp

lemma decode_true:
  assumes "decoder_true src d" "0 < source_size src" "\<forall>i < source_k src. length (source_src src i) = source_size src"
  shows "snd (fountain_decode simd d) = Inr (map (source_src src) [0..<source_k src]) \<or>
    (\<exists>have need. snd (fountain_decode simd d) = Inl (Underdetermined have need) \<and>
      (length (fd_syms d) < source_k src \<or> (\<exists>v. unseen (source_k src) (fd_syms d) v)))"
proof (cases "length (fd_syms d) < source_k src")
  case True
  then show ?thesis using assms(1) by (simp add: fountain_decode_def decoder_true_def)
next
  case False
  have "snd (fountain_decode simd d) = snd (peel_symbols simd (source_k src) (source_size src) (fd_syms d))"
    using False assms(1) by (simp add: fountain_decode_def decoder_true_def split: prod.splits)
  then show ?thesis using peel_symbols_cases [OF assms(2,3), of "fd_syms d" simd] assms(1) by (auto simp: decoder_true_def)
qed

text \<open>All systematic symbols are enough, whatever else arrived.\<close>

lemma systematic_enough:
  assumes "\<forall>i < k. \<lparr>sy_cover = [(i, 1)], sy_payload = src i\<rparr> \<in> set syms"
  shows "k \<le> length syms \<and> \<not> unseen k syms v"
proof
  let ?f = "\<lambda>i. \<lparr>sy_cover = [(i, 1 :: u8)], sy_payload = src i\<rparr>"
  have "k = card (?f ` {..<k})" by (simp add: card_image inj_on_def)
  also have "\<dots> \<le> card (set syms)" by (rule card_mono) (use assms in auto)
  also have "\<dots> \<le> length syms" by (rule card_length)
  finally show "k \<le> length syms" .
  have "cover_dot k [(i, 1)] v = v i" if "i < k" for i
    using cover_dot_Cons [of i "[]" k 1 v] that by simp (simp add: cover_dot_def gf_sum_zero)
  then show "\<not> unseen k syms v" using assms by (auto simp: unseen_def) (metis parsed_sym.select_convs(1))
qed

section \<open>What a failed attempt leaves behind\<close>

text \<open>
  In a run of peeling on true symbols, every symbol of degree one is in the queue, and every revealed source has a symbol that revealed it: it
  covers that source alone, its payload is gone, and its cover stays.
\<close>

definition queued :: "nat \<Rightarrow> peel_state \<Rightarrow> bool" where
  "queued si st \<longleftrightarrow> (\<forall>sj < length (ps_degree st). sj \<noteq> si \<longrightarrow> ps_degree st ! sj = 1 \<longrightarrow> sj \<in> set (ps_queue st))"

definition has_spent :: "nat \<Rightarrow> peel_state \<Rightarrow> bool" where
  "has_spent i st \<longleftrightarrow> (\<exists>sj < length (ps_syms st). ps_degree st ! sj = 0 \<and> (\<exists>c. ps_syms st ! sj = \<lparr>sy_cover = [(i, c)], sy_payload = []\<rparr>))"

lemma ripple_queued: "queued si st \<Longrightarrow> queued si (ripple simd si target x sj st)"
  by (auto simp: queued_def ripple_def Let_def nth_list_update split: option.splits)

lemma fold_ripple_queued: "queued si st \<Longrightarrow> queued si (fold (ripple simd si target x) sjs st)"
  by (induction sjs arbitrary: st) (simp_all add: ripple_queued)

lemma ripple_lengths [simp]:
  "length (ps_syms (fold (ripple simd si target x) sjs st)) = length (ps_syms st)"
  "length (ps_degree (fold (ripple simd si target x) sjs st)) = length (ps_degree st)"
proof -
  have "length (ps_syms (ripple simd si target x sj st)) = length (ps_syms st) \<and> length (ps_degree (ripple simd si target x sj st)) = length (ps_degree st)"
    for sj st by (simp add: ripple_def Let_def split: option.split)
  then show "length (ps_syms (fold (ripple simd si target x) sjs st)) = length (ps_syms st)"
    "length (ps_degree (fold (ripple simd si target x) sjs st)) = length (ps_degree st)"
    by (induction sjs arbitrary: st) simp_all
qed

lemma ripple_spent: "ps_degree st ! sl = 0 \<Longrightarrow>
  ps_degree (fold (ripple simd si target x) sjs st) ! sl = 0 \<and> ps_syms (fold (ripple simd si target x) sjs st) ! sl = ps_syms st ! sl"
proof (induction sjs arbitrary: st)
  case (Cons sj sjs)
  have "ps_degree (ripple simd si target x sj st) ! sl = 0 \<and> ps_syms (ripple simd si target x sj st) ! sl = ps_syms st ! sl"
    using Cons.prems by (cases "sl = sj") (auto simp: ripple_def Let_def split: option.splits)
  then show ?case using Cons.IH [of "ripple simd si target x sj st"] by simp
qed simp

lemma peel_step_queued:
  assumes "queued si st" "si < length (ps_degree st)"
  shows "queued (length (ps_degree st)) (peel_step simd si st)"
proof (cases "ps_degree st ! si = 0 \<or> find (\<lambda>(i, _). ps_revealed st ! i = None) (sy_cover (ps_syms st ! si)) = None")
  case True
  then show ?thesis using assms by (auto simp: peel_step_def queued_def nth_list_update split: option.splits if_splits)
next
  case False
  then obtain target c where f: "find (\<lambda>(i, _). ps_revealed st ! i = None) (sy_cover (ps_syms st ! si)) = Some (target, c)" by auto
  let ?st = "st\<lparr>ps_syms := (ps_syms st)[si := (ps_syms st ! si)\<lparr>sy_payload := []\<rparr>], ps_degree := (ps_degree st)[si := 0],
      ps_covers := (ps_covers st)[target := []]\<rparr>"
  let ?x = "gf_scal_slice simd (gf_inv c) (sy_payload (ps_syms st ! si))"
  let ?fin = "fold (ripple simd si target ?x) (ps_covers st ! target) ?st"
  have "queued si ?st" using assms(1) by (auto simp: queued_def nth_list_update)
  then have "queued si ?fin" by (rule fold_ripple_queued)
  moreover have "ps_degree ?fin ! si = 0" using ripple_self [of simd si target ?x "ps_covers st ! target" ?st] assms(2) by simp
  ultimately have "queued (length (ps_degree st)) ?fin" unfolding queued_def by (metis zero_neq_one)
  then show ?thesis using False f by (simp add: peel_step_def Let_def queued_def)
qed

lemma peel_step_spent:
  assumes inv: "peel_inv k s src covers0 (length covers0) k st" and si: "si < length covers0" "ps_degree st ! si \<le> 1"
    and spent: "\<forall>i < k. is_revealed st i \<longrightarrow> has_spent i st"
  shows "\<forall>i < k. is_revealed (peel_step simd si st) i \<longrightarrow> has_spent i (peel_step simd si st)"
proof (cases "ps_degree st ! si = 0")
  case False
  let ?sy = "ps_syms st ! si"
  have len: "length (ps_syms st) = length covers0" "length (ps_degree st) = length covers0" "length (ps_revealed st) = k" using inv by (simp_all add: peel_inv_def)
  have ok: "sym_ok k s src (is_revealed st) (\<lambda>i. is_revealed st i \<or> i = k) (covers0 ! si) ?sy 1" using inv si False by (auto simp: peel_inv_def le_Suc_eq)
  obtain target c where c: "sy_cover ?sy = [(target, c)]" using ok by (cases "sy_cover ?sy") (auto simp: sym_ok_def)
  have t: "\<not> is_revealed st target" using ok c by (auto simp: sym_ok_def)
  let ?x = "gf_scal_slice simd (gf_inv c) (sy_payload ?sy)"
  let ?st = "st\<lparr>ps_syms := (ps_syms st)[si := ?sy\<lparr>sy_payload := []\<rparr>], ps_degree := (ps_degree st)[si := 0], ps_covers := (ps_covers st)[target := []]\<rparr>"
  let ?fin = "fold (ripple simd si target ?x) (ps_covers st ! target) ?st"
  have step: "peel_step simd si st = ?fin\<lparr>ps_revealed := (ps_revealed st)[target := Some ?x]\<rparr>"
    using False c t by (simp add: peel_step_def Let_def is_revealed_def)
  have keep: "has_spent i ?fin" if h: "has_spent i ?st" for i
  proof -
    obtain sj c' where sj: "sj < length (ps_syms ?st)" "ps_degree ?st ! sj = 0" "ps_syms ?st ! sj = \<lparr>sy_cover = [(i, c')], sy_payload = []\<rparr>"
      using h unfolding has_spent_def by blast
    note r = ripple_spent [OF sj(2), of simd si target ?x "ps_covers st ! target"]
    have "sj < length (ps_syms ?fin)" using sj(1) by simp
    then show ?thesis unfolding has_spent_def using sj(3) r by metis
  qed
  have "has_spent i ?st" if i: "i < k" "is_revealed st i \<or> i = target" for i
  proof (cases "i = target")
    case True
    have "?sy\<lparr>sy_payload := []\<rparr> = \<lparr>sy_cover = [(i, c)], sy_payload = []\<rparr>" using c True by simp
    then show ?thesis unfolding has_spent_def using si(1) len by (intro exI [of _ si]) simp
  next
    case ne: False
    then obtain sj c' where sj: "sj < length (ps_syms st)" "ps_degree st ! sj = 0" "ps_syms st ! sj = \<lparr>sy_cover = [(i, c')], sy_payload = []\<rparr>"
      using spent i unfolding has_spent_def by blast
    then have "sj \<noteq> si" using False by auto
    then show ?thesis unfolding has_spent_def using sj by (intro exI [of _ sj]) auto
  qed
  moreover have "is_revealed (peel_step simd si st) i \<Longrightarrow> i < k \<Longrightarrow> is_revealed st i \<or> i = target" for i
    by (auto simp: step is_revealed_def nth_list_update split: if_splits)
  moreover have "has_spent i ?fin \<Longrightarrow> has_spent i (peel_step simd si st)" for i by (simp add: step has_spent_def)
  ultimately show ?thesis using keep by blast
qed (use spent in \<open>simp add: peel_step_def\<close>)

lemma peel_end:
  assumes "peel_inv k s src covers0 (length covers0) k st" "\<forall>i < k. length (src i) = s" "queued (length covers0) st"
    "\<forall>i < k. is_revealed st i \<longrightarrow> has_spent i st"
  shows "queued (length covers0) (peel simd st) \<and> ps_queue (peel simd st) = [] \<and> (\<forall>i < k. is_revealed (peel simd st) i \<longrightarrow> has_spent i (peel simd st))"
  using assms
proof (induction simd st rule: peel.induct)
  case (1 simd st)
  show ?case
  proof (cases "ps_queue st")
    case (Cons si q)
    let ?st = "st\<lparr>ps_queue := q\<rparr>"
    have R: "is_revealed ?st = is_revealed st" by (simp add: is_revealed_def fun_eq_iff)
    have len: "length (ps_degree st) = length covers0" using "1.prems"(1) by (simp add: peel_inv_def)
    have st: "peel_inv k s src covers0 (length covers0) k ?st" "si < length covers0" "ps_degree ?st ! si \<le> 1"
      using "1.prems"(1) Cons R by (auto simp: peel_inv_def)
    have "queued si ?st" using "1.prems"(3) Cons len by (auto simp: queued_def)
    then have q: "queued (length covers0) (peel_step simd si ?st)" using peel_step_queued [of si ?st simd] st(2) len by simp
    have "\<forall>i < k. is_revealed ?st i \<longrightarrow> has_spent i ?st" using "1.prems"(4) R by (simp add: has_spent_def)
    from "1.IH" [OF Cons peel_step_inv [OF st(1) "1.prems"(2) st(2,3)] "1.prems"(2) q peel_step_spent [OF st this]]
    show ?thesis by (subst (1 2 3 4) peel.simps) (simp add: Cons)
  qed (use 1 in \<open>simp add: peel.simps [of simd st]\<close>)
qed

text \<open>
  So a failed attempt leaves, for a source whose systematic symbol had arrived, a symbol that covers it alone and has no payload; and
  every symbol that covers one source only has no payload.
\<close>

lemma spent_symbols:
  assumes "0 < s" and src: "\<forall>i < k. length (src i) = s" and syms: "\<forall>sy \<in> set syms. sym_wf k sy \<and> combines k s src sy"
    and i: "i < k" "\<lparr>sy_cover = [(i, 1)], sy_payload = src i\<rparr> \<in> set syms"
    and st_def: "st = peel simd (peel_start k syms)"
  shows "length (ps_syms st) = length syms" "\<forall>sy \<in> set (ps_syms st). length (sy_cover sy) = 1 \<longrightarrow> sy_payload sy = []"
    "\<exists>c. \<lparr>sy_cover = [(i, c)], sy_payload = []\<rparr> \<in> set (ps_syms st)"
proof -
  have start: "peel_inv k s src (map sy_cover syms) (length (map sy_cover syms)) k (peel_start k syms)" using peel_start_inv [OF syms] by simp
  have "queued (length (map sy_cover syms)) (peel_start k syms)" by (auto simp: queued_def peel_start_def)
  moreover have "\<forall>i < k. is_revealed (peel_start k syms) i \<longrightarrow> has_spent i (peel_start k syms)" by (simp add: is_revealed_def peel_start_def)
  ultimately have fin: "queued (length (map sy_cover syms)) st" "ps_queue st = []" "\<forall>i < k. is_revealed st i \<longrightarrow> has_spent i st"
    using peel_end [OF start src, of simd] by (auto simp: st_def)
  have inv: "peel_inv k s src (map sy_cover syms) (length (map sy_cover syms)) k st" using peel_inv_end [OF start src, of simd] by (simp add: st_def)
  then have len: "length (ps_syms st) = length syms" "length (ps_degree st) = length syms" by (simp_all add: peel_inv_def)
  have ok: "sym_ok k s src (is_revealed st) (\<lambda>i. is_revealed st i \<or> i = k) (sy_cover (syms ! sj)) (ps_syms st ! sj) (ps_degree st ! sj)"
    if "sj < length syms" for sj using inv that by (simp add: peel_inv_def)
  have single: "ps_degree st ! sj = 0" if "sj < length syms" "length (sy_cover (ps_syms st ! sj)) = 1" for sj
    using ok [OF that(1)] that fin(1,2) len by (auto simp: queued_def sym_ok_def)
  show "length (ps_syms st) = length syms" by (rule len(1))
  have "sy_payload (ps_syms st ! sj) = []" if "sj < length syms" "length (sy_cover (ps_syms st ! sj)) = 1" for sj
    using ok [OF that(1)] single [OF that] that(2) by (auto simp: sym_ok_def)
  then show "\<forall>sy \<in> set (ps_syms st). length (sy_cover sy) = 1 \<longrightarrow> sy_payload sy = []"
    using len(1) by (metis in_set_conv_nth)
  have "is_revealed st i"
  proof (rule ccontr)
    assume un: "\<not> is_revealed st i"
    obtain sj where sj: "sj < length syms" "sy_cover (syms ! sj) = [(i, 1)]" using i(2) by (metis in_set_conv_nth parsed_sym.select_convs(1))
    let ?cover = "sy_cover (ps_syms st ! sj)"
    have wf: "cover_wf k ?cover" using ok [OF sj(1)] by (simp add: sym_ok_def)
    have co: "j < k \<Longrightarrow> \<not> is_revealed st j \<Longrightarrow> coef ?cover j = (if j = i then 1 else 0)" for j
      using ok [OF sj(1)] sj(2) by (auto simp: sym_ok_def coef_Cons)
    have "i \<in> fst ` set ?cover" using co [OF i(1) un] coef_outside [of i ?cover] by auto
    then have pos: "ps_degree st ! sj \<noteq> 0" using ok [OF sj(1)] un i(1) by (auto simp: sym_ok_def)
    have "j = i" if key: "j \<in> fst ` set ?cover" for j
    proof -
      obtain c where c: "(j, c) \<in> set ?cover" using key by auto
      then have "coef ?cover j = c" "c \<noteq> 0" "j < k" using wf by (auto simp: cover_wf_def coef_def)
      moreover have "\<not> is_revealed st j" using ok [OF sj(1)] pos key by (auto simp: sym_ok_def)
      ultimately show ?thesis using co [of j] by (auto split: if_splits)
    qed
    then have "fst ` set ?cover = {i}" using \<open>i \<in> fst ` set ?cover\<close> by (intro equalityI subsetI) blast+
    then have "set (map fst ?cover) = {i}" unfolding set_map .
    moreover have "card (set (map fst ?cover)) = length (map fst ?cover)" by (rule distinct_card) (use wf in \<open>simp add: cover_wf_def\<close>)
    ultimately have "length ?cover = 1" by simp
    then show False using single [OF sj(1)] pos by simp
  qed
  then show "\<exists>c. \<lparr>sy_cover = [(i, c)], sy_payload = []\<rparr> \<in> set (ps_syms st)"
    using fin(3) i(1) unfolding has_spent_def by (metis nth_mem)
qed

text \<open>
  A later attempt starts with symbols that have no payload, \<open>Q\<close> in its queue, one of which covers \<open>i\<close> alone: it reveals \<open>i\<close> as the empty string,
  before any later symbol is looked at.
\<close>

definition spoiled :: "nat \<Rightarrow> nat list \<Rightarrow> peel_state \<Rightarrow> bool" where
  "spoiled i Q st \<longleftrightarrow>
     length (ps_syms st) = length (ps_degree st) \<and> i < length (ps_revealed st) \<and> (\<exists>rest. ps_queue st = Q @ rest) \<and>
     (\<forall>sj \<in> set Q. sj < length (ps_syms st) \<and> sy_payload (ps_syms st ! sj) = []) \<and>
     (ps_revealed st ! i = Some [] \<or>
      ps_revealed st ! i = None \<and> (\<exists>sj \<in> set Q. ps_degree st ! sj \<noteq> 0 \<and> (\<exists>c. sy_cover (ps_syms st ! sj) = [(i, c)])))"

lemma ripple_payload:
  "length (ps_syms st) = length (ps_degree st) \<Longrightarrow> sy_payload (ps_syms st ! sl) = [] \<Longrightarrow>
   sy_payload (ps_syms (fold (ripple simd si target x) sjs st) ! sl) = []"
proof (induction sjs arbitrary: st)
  case (Cons sj sjs)
  let ?r = "ripple simd si target x sj st"
  have len: "length (ps_syms ?r) = length (ps_degree ?r)" using Cons.prems(1) by (simp add: ripple_def Let_def split: option.split)
  have "axpy_ref c x [] = []" for c by (metis length_0_conv length_axpy_ref)
  then have "sy_payload (ps_syms ?r ! sl) = []"
    using Cons.prems by (cases "sl = sj") (auto simp: ripple_def Let_def gf_axpy_slice_eq split: option.splits)
  with Cons.IH [OF len] show ?case by simp
qed simp

lemma ripple_other:
  "sy_cover (ps_syms st ! sl) = [(i, c)] \<Longrightarrow> target \<noteq> i \<Longrightarrow>
   sy_cover (ps_syms (fold (ripple simd si target x) sjs st) ! sl) = [(i, c)] \<and>
   ps_degree (fold (ripple simd si target x) sjs st) ! sl = ps_degree st ! sl"
proof (induction sjs arbitrary: st)
  case (Cons sj sjs)
  let ?r = "ripple simd si target x sj st"
  have "sy_cover (ps_syms ?r ! sl) = [(i, c)]" "ps_degree ?r ! sl = ps_degree st ! sl"
    using Cons.prems by (cases "sl = sj"; auto simp: ripple_def Let_def split: option.splits)+
  with Cons.IH [of ?r] Cons.prems(2) show ?case by simp
qed simp

lemma ripple_queue: "\<exists>ext. ps_queue (fold (ripple simd si target x) sjs st) = ps_queue st @ ext"
proof (induction sjs arbitrary: st)
  case (Cons sj sjs)
  have "\<exists>ext. ps_queue (ripple simd si target x sj st) = ps_queue st @ ext" by (auto simp: ripple_def Let_def split: option.split)
  with Cons.IH [of "ripple simd si target x sj st"] show ?case by auto
qed simp

lemma spoiled_step:
  assumes sp: "spoiled i (si # Q) st" and q: "ps_queue st = si # q"
  shows "spoiled i Q (peel_step simd si (st\<lparr>ps_queue := q\<rparr>))"
proof -
  let ?st = "st\<lparr>ps_queue := q\<rparr>" and ?sy = "ps_syms st ! si"
  obtain rest where rest: "q = Q @ rest" using sp q by (auto simp: spoiled_def)
  have len: "length (ps_syms st) = length (ps_degree st)" "i < length (ps_revealed st)" "si < length (ps_syms st)" "sy_payload ?sy = []"
    and Q: "\<forall>sj \<in> set Q. sj < length (ps_syms st) \<and> sy_payload (ps_syms st ! sj) = []" using sp unfolding spoiled_def by auto
  have alt: "ps_revealed st ! i = Some [] \<or> ps_revealed st ! i = None \<and>
      (\<exists>sj \<in> set (si # Q). ps_degree st ! sj \<noteq> 0 \<and> (\<exists>c. sy_cover (ps_syms st ! sj) = [(i, c)]))" using sp by (simp add: spoiled_def)
  show ?thesis
  proof (cases "ps_degree st ! si = 0")
    case True
    then show ?thesis using len Q alt rest by (auto simp: peel_step_def spoiled_def)
  next
    case False
    show ?thesis
    proof (cases "find (\<lambda>(i, _). ps_revealed st ! i = None) (sy_cover ?sy)")
      case None
      have "\<exists>sj \<in> set Q. sj \<noteq> si \<and> ps_degree st ! sj \<noteq> 0 \<and> (\<exists>c. sy_cover (ps_syms st ! sj) = [(i, c)])" if un: "ps_revealed st ! i = None"
      proof -
        obtain sj c where sj: "sj \<in> set (si # Q)" "ps_degree st ! sj \<noteq> 0" "sy_cover (ps_syms st ! sj) = [(i, c)]" using alt un by fastforce
        moreover have "sj \<noteq> si" using None sj(3) un by auto
        ultimately show ?thesis by (intro bexI [of _ sj]) auto
      qed
      then show ?thesis using None False len Q alt rest by (fastforce simp: peel_step_def spoiled_def nth_list_update)
    next
      case (Some p)
      obtain target c where p: "p = (target, c)" by fastforce
      let ?mid = "?st\<lparr>ps_syms := (ps_syms st)[si := ?sy\<lparr>sy_payload := []\<rparr>], ps_degree := (ps_degree st)[si := 0], ps_covers := (ps_covers st)[target := []]\<rparr>"
      let ?fin = "fold (ripple simd si target []) (ps_covers st ! target) ?mid"
      have step: "peel_step simd si ?st = ?fin\<lparr>ps_revealed := (ps_revealed st)[target := Some []]\<rparr>"
        using False Some p len(4) by (simp add: peel_step_def Let_def gf_scal_slice_eq)
      have pay: "sy_payload (ps_syms ?fin ! sj) = []" if "sj \<in> set Q" for sj
        by (rule ripple_payload) (use len Q that in \<open>auto simp: nth_list_update\<close>)
      obtain ext where ext: "ps_queue ?fin = q @ ext" using ripple_queue [of simd si target "[]" "ps_covers st ! target" ?mid] by auto
      have "(ps_revealed st)[target := Some []] ! i = Some [] \<or> (ps_revealed st)[target := Some []] ! i = None \<and>
          (\<exists>sj \<in> set Q. ps_degree ?fin ! sj \<noteq> 0 \<and> (\<exists>c. sy_cover (ps_syms ?fin ! sj) = [(i, c)]))"
      proof (cases "target = i \<or> ps_revealed st ! i = Some []")
        case True
        then show ?thesis using len(2) by (cases "target = i") simp_all
      next
        case ne: False
        then obtain sj d where sj: "sj \<in> set (si # Q)" "ps_degree st ! sj \<noteq> 0" "sy_cover (ps_syms st ! sj) = [(i, d)]" and un: "ps_revealed st ! i = None"
          using alt by blast
        have "sj \<noteq> si" using Some p sj(3) ne by (auto split: if_splits)
        then have "sy_cover (ps_syms ?mid ! sj) = [(i, d)]" "ps_degree ?mid ! sj \<noteq> 0" using sj by simp_all
        then show ?thesis using ripple_other [of ?mid sj i d target simd si "[]" "ps_covers st ! target"] ne un sj(1) \<open>sj \<noteq> si\<close>
          by (intro disjI2 conjI bexI [of _ sj] exI [of _ d]) auto
      qed
      then show ?thesis unfolding step using len Q pay ext rest by (simp add: spoiled_def)
    qed
  qed
qed

lemma peel_keeps_revealed: "ps_revealed st ! i = Some x \<Longrightarrow> ps_revealed (peel simd st) ! i = Some x"
proof (induction simd st rule: peel.induct)
  case (1 simd st)
  have "ps_revealed (peel_step simd si st') ! i = Some x" if "ps_revealed st' ! i = Some x" for si st'
  proof (cases "find (\<lambda>(i, _). ps_revealed st' ! i = None) (sy_cover (ps_syms st' ! si))")
    case None
    then show ?thesis using that by (simp add: peel_step_def)
  next
    case (Some p)
    then have "ps_revealed st' ! fst p = None" by (auto simp: find_Some_iff)
    then have "fst p \<noteq> i" using that by auto
    then show ?thesis using that Some by (cases p) (simp add: peel_step_def Let_def)
  qed
  then show ?case using 1 by (cases "ps_queue st") (simp_all add: peel.simps [of simd st])
qed

lemma spoiled_peel: "spoiled i Q st \<Longrightarrow> ps_revealed (peel simd st) ! i = Some []"
proof (induction Q arbitrary: st)
  case Nil
  then show ?case by (intro peel_keeps_revealed) (simp add: spoiled_def)
next
  case (Cons si Q)
  then obtain q where q: "ps_queue st = si # q" by (auto simp: spoiled_def)
  from Cons.IH [OF spoiled_step [OF Cons.prems q]] show ?case by (subst peel.simps) (simp add: q)
qed

lemma fold_publish_length: "length (fold (publish_row us s) mat rv) = length rv"
  by (induction mat arbitrary: rv) (simp_all add: publish_row_def split: option.split)

lemma peel_revealed_length: "length (ps_revealed (peel simd st)) = length (ps_revealed st)"
proof (induction simd st rule: peel.induct)
  case (1 simd st)
  have "length (ps_revealed (peel_step simd si st')) = length (ps_revealed st')" for si st'
    by (simp add: peel_step_def Let_def split: option.split prod.split)
  then show ?case using 1 by (cases "ps_queue st") (simp_all add: peel.simps [of simd st])
qed

lemma fold_publish_known: "i \<notin> set us \<Longrightarrow> fold (publish_row us s) mat rv ! i = rv ! i"
proof (induction mat arbitrary: rv)
  case (Cons row mat)
  have "publish_row us s row rv ! i = rv ! i"
    using Cons.prems by (auto simp: publish_row_def find_Some_iff split: option.split) (metis nth_list_update_neq nth_mem)
  then show ?case using Cons by simp
qed simp

lemma spoiled_result:
  assumes "i < k" "\<forall>sy \<in> set syms. length (sy_cover sy) = 1 \<longrightarrow> sy_payload sy = []"
    "\<lparr>sy_cover = [(i, c)], sy_payload = []\<rparr> \<in> set syms" "snd (peel_symbols simd k s (syms @ more_syms)) = Inr sources"
  shows "sources ! i = []"
proof -
  let ?all = "syms @ more_syms"
  define Q where "Q = filter (\<lambda>si. length (sy_cover (syms ! si)) = 1) [0..<length syms]"
  obtain sj where sj: "sj < length syms" "syms ! sj = \<lparr>sy_cover = [(i, c)], sy_payload = []\<rparr>" using assms(3) by (metis in_set_conv_nth)
  have "[0..<length ?all] = [0..<length syms] @ [length syms..<length ?all]"
    using upt_add_eq_append [of 0 "length syms" "length more_syms"] by simp
  moreover have "filter (\<lambda>si. length (sy_cover (?all ! si)) = 1) [0..<length syms] = Q"
    unfolding Q_def by (rule filter_cong) (simp_all add: nth_append)
  ultimately have queue: "\<exists>rest. ps_queue (peel_start k ?all) = Q @ rest" by (simp add: peel_start_def)
  have "spoiled i Q (peel_start k ?all)"
    unfolding spoiled_def
  proof (intro conjI queue)
    show "\<forall>sj \<in> set Q. sj < length (ps_syms (peel_start k ?all)) \<and> sy_payload (ps_syms (peel_start k ?all) ! sj) = []"
      using assms(2) by (auto simp: Q_def peel_start_def nth_append)
    have "sj \<in> set Q" using sj by (simp add: Q_def)
    moreover have "ps_degree (peel_start k ?all) ! sj \<noteq> 0" "sy_cover (ps_syms (peel_start k ?all) ! sj) = [(i, c)]"
      using sj by (simp_all add: peel_start_def nth_append)
    ultimately show "ps_revealed (peel_start k ?all) ! i = Some [] \<or> ps_revealed (peel_start k ?all) ! i = None \<and>
        (\<exists>sj \<in> set Q. ps_degree (peel_start k ?all) ! sj \<noteq> 0 \<and> (\<exists>c. sy_cover (ps_syms (peel_start k ?all) ! sj) = [(i, c)]))"
      using assms(1) by (auto simp: peel_start_def)
  qed (use assms(1) in \<open>simp_all add: peel_start_def\<close>)
  then have known: "ps_revealed (peel simd (peel_start k ?all)) ! i = Some []" by (rule spoiled_peel)
  define rv where "rv = ps_revealed (peel simd (peel_start k ?all))"
  have i: "i \<notin> set (unknowns rv)" "rv ! i = Some []" using known by (simp_all add: rv_def unknowns_facts)
  have "length rv = k" by (simp add: rv_def peel_revealed_length peel_start_def)
  moreover obtain final where "sources = map (\<lambda>r. case r of Some x \<Rightarrow> x | None \<Rightarrow> []) final" "length final = length rv" "final ! i = Some []"
    using assms(4) i fold_publish_known [OF i(1)] fold_publish_length
    by (fastforce simp: peel_symbols_def Let_def rv_def [symmetric] split: prod.splits if_splits)
  ultimately show ?thesis using assms(1) by simp
qed

lemma feed_appends:
  "fountain_feed ws d = Inr d' \<Longrightarrow> \<exists>syms. fd_syms d' = fd_syms d @ syms \<and> fd_k d' = fd_k d \<and> fd_size d' = fd_size d"
proof (induction ws arbitrary: d)
  case (Cons w ws)
  obtain b d1 where d1: "fountain_add w d = Inr (b, d1)" "fountain_feed ws d1 = Inr d'" using Cons.prems by (auto split: sum.splits)
  then have "\<exists>syms. fd_syms d1 = fd_syms d @ syms \<and> fd_k d1 = fd_k d \<and> fd_size d1 = fd_size d"
    by (auto simp: fountain_add_def Let_def split: if_splits)
  with Cons.IH [OF d1(2)] show ?case by auto
qed simp

text \<open>What a fresh decoder makes of true symbols.\<close>

lemma received_decodes:
  assumes "encoder_ok e" "source_k (fe_source e) < 65536" "\<forall>w \<in> set received. true_wire (fe_source e) w"
  shows "\<exists>d. fountain_feed received (decoder_new (source_k (fe_source e)) (source_size (fe_source e))) = Inr d \<and>
    (snd (fountain_decode simd d) = Inr (map (source_src (fe_source e)) [0..<source_k (fe_source e)]) \<or>
     (\<exists>have need. snd (fountain_decode simd d) = Inl (Underdetermined have need) \<and>
       (length (fd_syms d) < source_k (fe_source e) \<or> (\<exists>v. unseen (source_k (fe_source e)) (fd_syms d) v)))) \<and>
    (set (map (systematic_symbol (fe_source e)) [0..<source_k (fe_source e)]) \<subseteq> set received \<longrightarrow>
     snd (fountain_decode simd d) = Inr (map (source_src (fe_source e)) [0..<source_k (fe_source e)]))"
proof -
  let ?src = "fe_source e"
  have ok: "0 < source_size ?src" "\<forall>i < source_k ?src. length (source_src ?src i) = source_size ?src" using assms(1) by (simp_all add: encoder_ok_def)
  have "decoder_true ?src (decoder_new (source_k ?src) (source_size ?src))" by (simp add: decoder_true_def decoder_new_def)
  from feed_true [OF this _ assms(2) ok(2), of received] obtain d where
    d: "fountain_feed received (decoder_new (source_k ?src) (source_size ?src)) = Inr d" "decoder_true ?src d"
      "\<forall>i < source_k ?src. systematic_symbol ?src i \<in> set received \<longrightarrow> \<lparr>sy_cover = [(i, 1)], sy_payload = source_src ?src i\<rparr> \<in> set (fd_syms d)"
    using assms(3) by blast
  note res = decode_true [OF d(2) ok, of simd]
  have "snd (fountain_decode simd d) = Inr (map (source_src ?src) [0..<source_k ?src])"
    if "set (map (systematic_symbol ?src) [0..<source_k ?src]) \<subseteq> set received"
  proof -
    have "systematic_symbol ?src i \<in> set received" if "i < source_k ?src" for i
      using \<open>set (map (systematic_symbol ?src) [0..<source_k ?src]) \<subseteq> set received\<close> that by auto
    then have "\<forall>i < source_k ?src. \<lparr>sy_cover = [(i, 1)], sy_payload = source_src ?src i\<rparr> \<in> set (fd_syms d)" using d(3) by blast
    from systematic_enough [OF this] show ?thesis using res by (auto simp: not_less [symmetric])
  qed
  then show ?thesis using d(1) res by blast
qed

text \<open>
  C36: the rateless code gives the sources back. Take an encoder with at least one source, all of one positive size (\<open>encoder_ok\<close>), and fewer than 65536 of them; from that number on
  the 16-bit indices of the wire format wrap and the statement fails. Whatever of its symbols arrive, lost, reordered and repeated in any way, a fresh decoder
  accepts them, and decoding returns exactly the sources or reports that they are underdetermined; it reports that only when fewer symbols than
  sources arrived or some nonzero vector is seen by none of them, so never when the systematic symbols are among them.
\<close>

theorem fountain_roundtrip:
  assumes "encoder_ok e" "source_k (fe_source e) < 65536" "fountain_produce simd soliton n e = (wires, e')" "set received \<subseteq> set wires"
  shows "\<exists>d. fountain_feed received (decoder_new (source_k (fe_source e)) (source_size (fe_source e))) = Inr d \<and>
    (snd (fountain_decode simd d) = Inr (map (source_src (fe_source e)) [0..<source_k (fe_source e)]) \<or>
     (\<exists>have need. snd (fountain_decode simd d) = Inl (Underdetermined have need) \<and>
       (length (fd_syms d) < source_k (fe_source e) \<or> (\<exists>v. unseen (source_k (fe_source e)) (fd_syms d) v)))) \<and>
    (set (map (systematic_symbol (fe_source e)) [0..<source_k (fe_source e)]) \<subseteq> set received \<longrightarrow>
     snd (fountain_decode simd d) = Inr (map (source_src (fe_source e)) [0..<source_k (fe_source e)]))"
  using produce_true [OF assms(1,3)] assms(4) by (intro received_decodes [OF assms(1,2)]) blast

definition demo_encoder :: fountain_encoder where
  "demo_encoder = \<lparr>fe_source = Owned [[7], [9]], fe_generation = 1, fe_repair_index = 0\<rparr>"

lemma demo_encoder_facts:
  "encoder_new [[7], [9]] 1 = Inr demo_encoder" "encoder_ok demo_encoder" "source_k (fe_source demo_encoder) = 2" "source_size (fe_source demo_encoder) = 1"
  "map (source_src (fe_source demo_encoder)) [0..<2] = [[7], [9]]"
  by (simp_all add: encoder_new_def demo_encoder_def encoder_ok_def upt_rec less_Suc_eq numeral_2_eq_2)

abbreviation demo_wire :: "nat \<Rightarrow> bytes" where
  "demo_wire i \<equiv> systematic_symbol (fe_source demo_encoder) i"

theorem fountain_roundtrip_witness:
  "\<exists>d. fountain_feed [demo_wire 1, demo_wire 0, demo_wire 1] (decoder_new 2 1) = Inr d \<and> snd (fountain_decode AVX2 d) = Inr [[7], [9]]"
proof -
  have "fountain_produce AVX2 soliton 2 demo_encoder = ([demo_wire 0, demo_wire 1], demo_encoder)" for soliton
    by (simp add: fountain_produce_def demo_encoder_facts upt_rec numeral_2_eq_2)
  from fountain_roundtrip [OF demo_encoder_facts(2) _ this, of "[demo_wire 1, demo_wire 0, demo_wire 1]"]
  show ?thesis by (auto simp: demo_encoder_facts upt_rec numeral_2_eq_2) (simp_all add: demo_encoder_def)
qed

text \<open>A symbol that covers one source, and a decoder for two sources of one byte.\<close>

abbreviation demo_sym :: "nat \<Rightarrow> bytes \<Rightarrow> parsed_sym" where
  "demo_sym i x \<equiv> \<lparr>sy_cover = [(i, 1)], sy_payload = x\<rparr>"

abbreviation demo_decoder :: "parsed_sym list \<Rightarrow> fountain_decoder" where
  "demo_decoder syms \<equiv> \<lparr>fd_k = 2, fd_size = 1, fd_syms = syms\<rparr>"

lemma gf_inv_1: "gf_inv 1 = 1"
  using gf_inv_right [of 1] by simp

lemma feed_demo:
  "i < 2 \<Longrightarrow> fountain_feed (demo_wire i # ws) (demo_decoder syms) = fountain_feed ws (demo_decoder (syms @ [demo_sym i (source_src (fe_source demo_encoder) i)]))"
  using add_wire [of 2 "[(i, 1)]" "source_src (fe_source demo_encoder) i" 1 "demo_decoder syms"] demo_encoder_facts
  by (auto simp: systematic_symbol_def cover_wf_def encoder_ok_def)

lemma failed_decode:
  "fountain_decode simd (demo_decoder [demo_sym 0 [7], demo_sym 0 [7]]) =
     (demo_decoder [demo_sym 0 [], \<lparr>sy_cover = [], sy_payload = [0]\<rparr>], Inl (Underdetermined 0 1))"
proof -
  let ?st = "\<lambda>syms deg cov rv q. \<lparr>ps_syms = syms, ps_degree = deg, ps_covers = cov, ps_revealed = rv, ps_queue = q\<rparr>"
  let ?fin = "?st [demo_sym 0 [], \<lparr>sy_cover = [], sy_payload = [0]\<rparr>] [0, 0] [[], []] [Some [7], None]"
  have start: "peel_start 2 [demo_sym 0 [7], demo_sym 0 [7]] = ?st [demo_sym 0 [7], demo_sym 0 [7]] [1, 1] [[0, 1], []] [None, None] [0, 1]"
    by (simp add: peel_start_def upt_rec numeral_2_eq_2)
  have step: "peel_step simd 0 (?st [demo_sym 0 [7], demo_sym 0 [7]] [1, 1] [[0, 1], []] [None, None] [1]) = ?fin [1]"
    by (simp add: peel_step_def ripple_def gf_scal_slice_eq gf_axpy_slice_eq gf_inv_1 axpy_ref_def)
  have step2: "peel_step simd 1 (?fin []) = ?fin []" by (simp add: peel_step_def)
  have stop: "peel simd (?fin []) = ?fin []" by (subst peel.simps) simp
  have "peel simd (?fin [1]) = ?fin []" by (subst peel.simps) (simp add: step2 [unfolded One_nat_def] stop)
  then have peel: "peel simd (peel_start 2 [demo_sym 0 [7], demo_sym 0 [7]]) = ?fin []"
    unfolding start by (subst peel.simps) (simp add: step [unfolded One_nat_def])
  have us: "unknowns [Some [7], None] = [1]" by (simp add: unknowns_def upt_rec)
  have "gf_gauss_eliminate simd [] 2 1 = ([], 0)" by (simp add: gf_gauss_eliminate_def eliminate_column_def find_pivot_def)
  then show ?thesis using us peel
    by (simp add: fountain_decode_def peel_symbols_def residual_row_def List.map_filter_simps numeral_2_eq_2)
qed

lemma repeated_decode:
  "snd (fountain_decode simd (demo_decoder [demo_sym 0 [], \<lparr>sy_cover = [], sy_payload = [0]\<rparr>, demo_sym 1 [9]])) = Inr [[], [9]]"
proof -
  let ?st = "\<lambda>syms deg rv q. \<lparr>ps_syms = syms, ps_degree = deg, ps_covers = [[], []], ps_revealed = rv, ps_queue = q\<rparr>"
  let ?syms = "\<lambda>x. [demo_sym 0 [], \<lparr>sy_cover = [], sy_payload = [0]\<rparr>, demo_sym 1 x]"
  have start: "peel_start 2 (?syms [9]) = (?st (?syms [9]) [1, 0, 1] [None, None] [0, 2])\<lparr>ps_covers := [[0], [2]]\<rparr>"
    by (simp add: peel_start_def upt_rec numeral_2_eq_2)
  have step: "peel_step simd 0 ((?st (?syms [9]) [1, 0, 1] [None, None] [2])\<lparr>ps_covers := [[0], [2]]\<rparr>) =
      (?st (?syms [9]) [0, 0, 1] [Some [], None] [2])\<lparr>ps_covers := [[], [2]]\<rparr>"
    by (simp add: peel_step_def ripple_def gf_scal_slice_eq)
  have step2: "peel_step simd 2 ((?st (?syms [9]) [0, 0, 1] [Some [], None] [])\<lparr>ps_covers := [[], [2]]\<rparr>) =
      ?st (?syms []) [0, 0, 0] [Some [], Some [9]] []"
    by (simp add: peel_step_def ripple_def gf_scal_slice_eq gf_inv_1 numeral_2_eq_2)
  have stop: "peel simd (?st (?syms []) [0, 0, 0] [Some [], Some [9]] []) = ?st (?syms []) [0, 0, 0] [Some [], Some [9]] []"
    by (subst peel.simps) simp
  have "peel simd ((?st (?syms [9]) [0, 0, 1] [Some [], None] [2])\<lparr>ps_covers := [[], [2]]\<rparr>) = ?st (?syms []) [0, 0, 0] [Some [], Some [9]] []"
    using step2 stop by (subst peel.simps) simp
  then have peel: "peel simd (peel_start 2 (?syms [9])) = ?st (?syms []) [0, 0, 0] [Some [], Some [9]] []"
    unfolding start using step by (subst peel.simps) simp
  have us: "unknowns [Some [], Some [9]] = []" by (simp add: unknowns_def upt_rec)
  show ?thesis using us peel by (simp add: fountain_decode_def peel_symbols_def)
qed

text \<open>
  C37: decoding is not repeatable. It takes the payloads out of the symbols that reveal a source but leaves their covers in the decoder. Take symbols of an
  encoder as in \<open>fountain_roundtrip\<close>, the systematic one of source \<open>i\<close> among them, and an attempt that fails although no fewer symbols than sources arrived. Whatever symbols
  are added then, an attempt that succeeds returns the empty string for source \<open>i\<close>, which is not its value: after such a failure the decoder can
  never return the sources.
\<close>

theorem retry_after_failed_decode:
  assumes "encoder_ok e" "source_k (fe_source e) < 65536" "fountain_produce simd soliton n e = (wires, e')" "set received \<subseteq> set wires"
    and "i < source_k (fe_source e)" "systematic_symbol (fe_source e) i \<in> set received"
    and "fountain_feed received (decoder_new (source_k (fe_source e)) (source_size (fe_source e))) = Inr d"
    and "source_k (fe_source e) \<le> length (fd_syms d)" "fountain_decode simd d = (d', Inl err)"
    and "fountain_feed added d' = Inr d''" "snd (fountain_decode simd d'') = Inr sources"
  shows "sources ! i = [] \<and> sources ! i \<noteq> source_src (fe_source e) i"
proof -
  let ?src = "fe_source e" and ?k = "source_k (fe_source e)" and ?s = "source_size (fe_source e)"
  have ok: "0 < ?s" "\<forall>i < ?k. length (source_src ?src i) = ?s" using assms(1) by (simp_all add: encoder_ok_def)
  have "decoder_true ?src (decoder_new ?k ?s)" by (simp add: decoder_true_def decoder_new_def)
  moreover have "\<forall>w \<in> set received. true_wire ?src w" using produce_true [OF assms(1,3)] assms(4) by blast
  ultimately have d: "decoder_true ?src d" "\<lparr>sy_cover = [(i, 1)], sy_payload = source_src ?src i\<rparr> \<in> set (fd_syms d)"
    using feed_true [of ?src "decoder_new ?k ?s" received, OF _ _ assms(2) ok(2)] assms(5,6,7) by auto
  have d': "d' = d\<lparr>fd_syms := ps_syms (peel simd (peel_start ?k (fd_syms d)))\<rparr>"
    using assms(8,9) d(1) by (auto simp: fountain_decode_def peel_symbols_def Let_def decoder_true_def)
  have true: "\<forall>sy \<in> set (fd_syms d). sym_wf ?k sy \<and> combines ?k ?s (source_src ?src) sy" using d(1) by (simp add: decoder_true_def)
  note spent = spent_symbols [OF ok true assms(5) d(2) refl, of simd]
  obtain c where c: "\<lparr>sy_cover = [(i, c)], sy_payload = []\<rparr> \<in> set (fd_syms d')" using spent(3) d' by auto
  obtain syms where syms: "fd_syms d'' = fd_syms d' @ syms" "fd_k d'' = ?k" "fd_size d'' = ?s"
    using feed_appends [OF assms(10)] d' d(1) by (auto simp: decoder_true_def)
  have "snd (peel_symbols simd ?k ?s (fd_syms d' @ syms)) = Inr sources"
    using assms(11) syms by (auto simp: fountain_decode_def split: if_splits prod.splits)
  then have "sources ! i = []" using spoiled_result [OF assms(5) _ c] spent(2) d' by simp
  moreover have "source_src ?src i \<noteq> []" using ok assms(5) by fastforce
  ultimately show ?thesis by auto
qed

text \<open>
  With the sources \<open>[7]\<close> and \<open>[9]\<close>, two copies of the first symbol are not enough; with the second symbol added, decoding succeeds with the empty
  string in the place of the first source.
\<close>

theorem retry_after_failed_decode_witness:
  "\<exists>d d' d'' sources. fountain_feed [demo_wire 0, demo_wire 0] (decoder_new 2 1) = Inr d \<and> fountain_decode AVX2 d = (d', Inl (Underdetermined 0 1)) \<and>
     fountain_feed [demo_wire 1] d' = Inr d'' \<and> snd (fountain_decode AVX2 d'') = Inr sources \<and> sources ! 0 = [] \<and> sources ! 0 \<noteq> [7]"
proof -
  let ?d = "demo_decoder [demo_sym 0 [7], demo_sym 0 [7]]" and ?d' = "demo_decoder [demo_sym 0 [], \<lparr>sy_cover = [], sy_payload = [0]\<rparr>]"
  have one: "fountain_feed [demo_wire 0, demo_wire 0] (decoder_new 2 1) = Inr ?d"
    by (simp add: decoder_new_def feed_demo del: One_nat_def fountain_feed.simps(2)) (simp add: demo_encoder_def)
  have two: "fountain_feed [demo_wire 1] ?d' = Inr (demo_decoder [demo_sym 0 [], \<lparr>sy_cover = [], sy_payload = [0]\<rparr>, demo_sym 1 [9]])"
    by (simp add: feed_demo del: One_nat_def fountain_feed.simps(2)) (simp add: demo_encoder_def)
  have prod: "fountain_produce AVX2 (\<lambda>_ _. 1) 2 demo_encoder = ([demo_wire 0, demo_wire 1], demo_encoder)"
    by (simp add: fountain_produce_def demo_encoder_facts upt_rec numeral_2_eq_2)
  note k = demo_encoder_facts(2-4)
  have "[[], [9 :: u8]] ! 0 = [] \<and> [[], [9]] ! 0 \<noteq> source_src (fe_source demo_encoder) 0"
    by (rule retry_after_failed_decode [OF k(1) _ prod, of "[demo_wire 0, demo_wire 0]" 0 ?d ?d' _ "[demo_wire 1]"])
      (use one two failed_decode [of AVX2] repeated_decode [of AVX2] in \<open>simp_all add: k del: fountain_feed.simps(2) One_nat_def\<close>)
  then show ?thesis using one two failed_decode [of AVX2] repeated_decode [of AVX2]
    by (intro exI conjI) (assumption | simp add: demo_encoder_def)+
qed

end
