(* ===== verification/Bulk.thy ===== *)
theory Bulk
  imports Fountain
begin

text \<open>
  \<open>integrations/dlr/crates/coding/src/bulk.rs\<close>: a payload cut into generations of the rateless code. The number of repair symbols is a
  ceiling of a product of floats, a parameter of the configuration. Generations are coded independently, so the parallel loops are
  maps. The outer \<open>None\<close> of \<open>bulk_encode\<close> is the panic of a division by zero.
\<close>

datatype bulk_error = Bulk_Empty | Generation nat fountain_error | Bulk_Size_Mismatch nat nat

record bulk_config =
  bc_gen_size :: nat
  bc_symbol_size :: nat
  bc_repair :: nat

definition div_ceil :: "nat \<Rightarrow> nat \<Rightarrow> nat" where
  "div_ceil a b = (a + b - 1) div b"

definition full_gen_bytes :: "bulk_config \<Rightarrow> nat" where
  "full_gen_bytes cfg = bc_gen_size cfg * bc_symbol_size cfg"

definition bulk_generations :: "bulk_config \<Rightarrow> nat \<Rightarrow> nat" where
  "bulk_generations cfg len = max (div_ceil (max (div_ceil len (bc_symbol_size cfg)) 1) (bc_gen_size cfg)) 1"

text \<open>\<open>Vec::resize\<close> with zeros to a length that is not smaller.\<close>

definition pad_to :: "nat \<Rightarrow> bytes \<Rightarrow> bytes" where
  "pad_to n xs = xs @ replicate (n - length xs) 0"

definition bulk_buffer :: "bulk_config \<Rightarrow> bytes \<Rightarrow> bytes" where
  "bulk_buffer cfg payload = pad_to (bulk_generations cfg (length payload) * full_gen_bytes cfg) payload"

definition bulk_encoder :: "bulk_config \<Rightarrow> bytes \<Rightarrow> nat \<Rightarrow> fountain_error + fountain_encoder" where
  "bulk_encoder cfg payload gi =
     encoder_new_shared (bulk_buffer cfg payload) (gi * full_gen_bytes cfg) (bc_symbol_size cfg) (bc_gen_size cfg) (word_of_nat gi)"

definition encode_generation ::
    "simd \<Rightarrow> (nat \<Rightarrow> u64 \<Rightarrow> nat) \<Rightarrow> bulk_config \<Rightarrow> bytes \<Rightarrow> nat \<Rightarrow> bulk_error + (u32 \<times> bytes) list" where
  "encode_generation simd soliton cfg payload gi =
     (case bulk_encoder cfg payload gi of
        Inl _ \<Rightarrow> Inl (Bulk_Size_Mismatch 0 0)
      | Inr e \<Rightarrow> Inr (map (Pair (word_of_nat gi)) (fst (fountain_produce simd soliton (bc_gen_size cfg + bc_repair cfg) e))))"

text \<open>\<open>collect::<Result<_, _>>\<close>.\<close>

fun collect_results :: "('e + 'a) list \<Rightarrow> 'e + 'a list" where
  "collect_results [] = Inr []"
| "collect_results (Inl e # rs) = Inl e"
| "collect_results (Inr x # rs) = (case collect_results rs of Inl e \<Rightarrow> Inl e | Inr xs \<Rightarrow> Inr (x # xs))"

definition bulk_encode ::
    "simd \<Rightarrow> (nat \<Rightarrow> u64 \<Rightarrow> nat) \<Rightarrow> bulk_config \<Rightarrow> bytes \<Rightarrow> (bulk_error + (u32 \<times> bytes) list) option" where
  "bulk_encode simd soliton cfg payload =
     (if payload = [] then Some (Inl Bulk_Empty)
      else if bc_symbol_size cfg = 0 \<or> bc_gen_size cfg = 0 then None
      else Some (case collect_results (map (encode_generation simd soliton cfg payload) [0..<bulk_generations cfg (length payload)]) of
                   Inl e \<Rightarrow> Inl e
                 | Inr gens \<Rightarrow> Inr (concat gens)))"

section \<open>Decoding\<close>

definition generation_wires :: "u32 \<Rightarrow> (u32 \<times> bytes) list \<Rightarrow> bytes list" where
  "generation_wires g coded = map snd (filter (\<lambda>(g', _). g' = g) coded)"

definition generation_ids :: "(u32 \<times> bytes) list \<Rightarrow> u32 list" where
  "generation_ids coded = sort (remdups (map fst coded))"

text \<open>\<open>let _ = dec.add(w)\<close>: an error of one symbol is ignored.\<close>

fun feed_lenient :: "bytes list \<Rightarrow> fountain_decoder \<Rightarrow> fountain_decoder" where
  "feed_lenient [] d = d"
| "feed_lenient (w # ws) d = (case fountain_add w d of Inl _ \<Rightarrow> feed_lenient ws d | Inr (_, d) \<Rightarrow> feed_lenient ws d)"

text \<open>The loop that copies symbols into a region of \<open>n\<close> zeros.\<close>

fun fill_region :: "nat \<Rightarrow> bytes list \<Rightarrow> bytes" where
  "fill_region n [] = replicate n 0"
| "fill_region n (s # syms) =
     (let m = min (length s) n in take m s @ (if m = n then [] else fill_region (n - m) syms))"

definition decode_generation :: "simd \<Rightarrow> bulk_config \<Rightarrow> (u32 \<times> bytes) list \<Rightarrow> u32 \<Rightarrow> bulk_error + bytes" where
  "decode_generation simd cfg coded g =
     (case snd (fountain_decode simd (feed_lenient (generation_wires g coded) (decoder_new (bc_gen_size cfg) (bc_symbol_size cfg)))) of
        Inl e \<Rightarrow> Inl (Generation (unat g) e)
      | Inr syms \<Rightarrow> Inr (fill_region (full_gen_bytes cfg) syms))"

definition bulk_decode :: "simd \<Rightarrow> bulk_config \<Rightarrow> (u32 \<times> bytes) list \<Rightarrow> nat \<Rightarrow> bulk_error + bytes" where
  "bulk_decode simd cfg coded original_len =
     (if coded = [] \<or> full_gen_bytes cfg = 0 then Inr []
      else case collect_results (map (decode_generation simd cfg coded) (generation_ids coded)) of
             Inl e \<Rightarrow> Inl e
           | Inr regions \<Rightarrow> Inr (take original_len (concat regions)))"

section \<open>Correctness\<close>

lemma collect_results_Inr: "collect_results rs = Inr xs \<longleftrightarrow> rs = map Inr xs"
proof (induction rs arbitrary: xs rule: collect_results.induct)
  case (3 x rs)
  then show ?case by (cases xs; cases "collect_results rs") auto
qed auto

lemma collect_results_Inl: "collect_results rs = Inl e \<Longrightarrow> Inl e \<in> set rs"
  by (induction rs rule: collect_results.induct) (auto split: sum.splits)

lemma fill_region_concat: "length (concat syms) = n \<Longrightarrow> fill_region n syms = concat syms"
  by (induction n syms rule: fill_region.induct) (auto simp: Let_def)

lemma feed_lenient_feed: "fountain_feed ws d = Inr d' \<Longrightarrow> feed_lenient ws d = d'"
  by (induction ws d rule: feed_lenient.induct) (auto split: sum.splits)

lemma div_ceil_mult: "0 < b \<Longrightarrow> a \<le> div_ceil a b * b"
proof -
  assume b: "0 < b"
  have "a + b - 1 = (a + b - 1) div b * b + (a + b - 1) mod b" by simp
  moreover have "(a + b - 1) mod b < b" using b by simp
  ultimately show ?thesis using b unfolding div_ceil_def by linarith
qed

lemma bulk_buffer_length:
  assumes "0 < bc_symbol_size cfg" "0 < bc_gen_size cfg"
  shows "length (bulk_buffer cfg payload) = bulk_generations cfg (length payload) * full_gen_bytes cfg"
    and "take (length payload) (bulk_buffer cfg payload) = payload"
proof -
  let ?s = "bc_symbol_size cfg" and ?k = "bc_gen_size cfg" and ?n = "length payload"
  have "?n \<le> div_ceil ?n ?s * ?s" by (rule div_ceil_mult [OF assms(1)])
  also have "div_ceil ?n ?s \<le> div_ceil (max (div_ceil ?n ?s) 1) ?k * ?k" using div_ceil_mult [OF assms(2), of "max (div_ceil ?n ?s) 1"] by simp
  also have "\<dots> \<le> bulk_generations cfg ?n * ?k" by (simp add: bulk_generations_def)
  finally have "?n \<le> bulk_generations cfg ?n * full_gen_bytes cfg" by (simp add: full_gen_bytes_def mult.assoc)
  then show "length (bulk_buffer cfg payload) = bulk_generations cfg (length payload) * full_gen_bytes cfg" by (simp add: bulk_buffer_def pad_to_def)
  show "take ?n (bulk_buffer cfg payload) = payload" by (simp add: bulk_buffer_def pad_to_def)
qed

lemma concat_slices: "length xs = n * s \<Longrightarrow> concat (map (\<lambda>i. take s (drop (i * s) xs)) [0..<n]) = xs"
proof (induction n arbitrary: xs)
  case (Suc n)
  have "concat (map (\<lambda>i. take s (drop (i * s) xs)) [0..<n]) = concat (map (\<lambda>i. take s (drop (i * s) (take (n * s) xs))) [0..<n])"
  proof (intro arg_cong [of _ _ concat] map_cong refl)
    fix i assume "i \<in> set [0..<n]"
    then have "Suc i * s \<le> n * s" by (intro mult_le_mono1) simp
    then show "take s (drop (i * s) xs) = take s (drop (i * s) (take (n * s) xs))" by (simp add: take_drop min_def)
  qed
  also have "\<dots> = take (n * s) xs" using Suc.prems by (intro Suc.IH) simp
  finally have "concat (map (\<lambda>i. take s (drop (i * s) xs)) [0..<n]) = take (n * s) xs" .
  moreover have "take s (drop (n * s) xs) = drop (n * s) xs" using Suc.prems by simp
  ultimately show ?case by simp
qed simp

text \<open>
  One generation: the symbols that arrived of it give its slice of the buffer, or too few of them did; never when all systematic symbols arrived.
\<close>

lemma decode_generation_cases:
  assumes "0 < bc_symbol_size cfg" "0 < bc_gen_size cfg" "bc_gen_size cfg < 65536" "bulk_encoder cfg payload gi = Inr e"
    "set (generation_wires (word_of_nat gi) received) \<subseteq> set (fst (fountain_produce simd soliton n e))"
  shows "decode_generation simd cfg received (word_of_nat gi) = Inr (take (full_gen_bytes cfg) (drop (gi * full_gen_bytes cfg) (bulk_buffer cfg payload))) \<or>
    (\<exists>have need. decode_generation simd cfg received (word_of_nat gi) = Inl (Generation (unat (word_of_nat gi :: u32)) (Underdetermined have need))) \<and>
    \<not> set (map (systematic_symbol (fe_source e)) [0..<bc_gen_size cfg]) \<subseteq> set (generation_wires (word_of_nat gi) received)"
proof -
  let ?k = "bc_gen_size cfg" and ?s = "bc_symbol_size cfg" and ?src = "fe_source e" and ?buf = "bulk_buffer cfg payload" and ?off = "gi * full_gen_bytes cfg"
  let ?slice = "take (full_gen_bytes cfg) (drop ?off ?buf)"
  have ok: "encoder_ok e" using assms(4) encoder_new_shared_ok by (auto simp: bulk_encoder_def)
  have src: "?src = Shared ?buf ?off ?s ?k" and fits: "?off + full_gen_bytes cfg \<le> length ?buf"
    using assms(4) by (auto simp: bulk_encoder_def encoder_new_shared_def full_gen_bytes_def split: if_splits)
  have "\<forall>w \<in> set (generation_wires (word_of_nat gi) received). true_wire ?src w"
    using produce_true [OF ok surjective_pairing, of simd soliton n] assms(5) by blast
  from received_decodes [OF ok _ this, of simd] assms(3) src obtain d where d: "fountain_feed (generation_wires (word_of_nat gi) received) (decoder_new ?k ?s) = Inr d"
    "snd (fountain_decode simd d) = Inr (map (source_src ?src) [0..<?k]) \<or>
     (\<exists>have need. snd (fountain_decode simd d) = Inl (Underdetermined have need)) \<and>
     \<not> set (map (systematic_symbol ?src) [0..<?k]) \<subseteq> set (generation_wires (word_of_nat gi) received)" by auto
  have eq: "map (source_src ?src) [0..<?k] = map (\<lambda>i. take ?s (drop (i * ?s) ?slice)) [0..<?k]"
  proof (intro map_cong refl)
    fix i assume "i \<in> set [0..<?k]"
    then have "Suc i * ?s \<le> ?k * ?s" by (intro mult_le_mono1) simp
    then show "source_src ?src i = take ?s (drop (i * ?s) ?slice)" by (simp add: src full_gen_bytes_def take_drop min_def ac_simps)
  qed
  have cat: "concat (map (source_src ?src) [0..<?k]) = ?slice"
    unfolding eq by (rule concat_slices) (use fits in \<open>simp add: full_gen_bytes_def\<close>)
  have "decode_generation simd cfg received (word_of_nat gi) =
      (case snd (fountain_decode simd d) of Inl e \<Rightarrow> Inl (Generation (unat (word_of_nat gi :: u32)) e) | Inr syms \<Rightarrow> Inr (fill_region (full_gen_bytes cfg) syms))"
    by (simp add: decode_generation_def feed_lenient_feed [OF d(1)])
  moreover have "fill_region (full_gen_bytes cfg) (map (source_src ?src) [0..<?k]) = ?slice"
    using fits by (subst fill_region_concat) (simp_all add: cat)
  ultimately show ?thesis using d(2) by auto
qed

lemma generation_of_coded:
  assumes "bulk_encode simd soliton cfg payload = Some (Inr coded)"
  shows "\<forall>gi < bulk_generations cfg (length payload). \<exists>e. bulk_encoder cfg payload gi = Inr e"
    and "(g, w) \<in> set coded \<Longrightarrow> \<exists>gi e. gi < bulk_generations cfg (length payload) \<and> g = word_of_nat gi \<and> bulk_encoder cfg payload gi = Inr e \<and>
      w \<in> set (fst (fountain_produce simd soliton (bc_gen_size cfg + bc_repair cfg) e))"
proof -
  let ?G = "bulk_generations cfg (length payload)"
  obtain gens where gens: "map (encode_generation simd soliton cfg payload) [0..<?G] = map Inr gens" "coded = concat gens"
    using assms by (auto simp: bulk_encode_def collect_results_Inr split: if_splits sum.splits)
  have one: "gi < ?G \<Longrightarrow> encode_generation simd soliton cfg payload gi = Inr (gens ! gi)" for gi
    using arg_cong [OF gens(1), of "\<lambda>xs. xs ! gi"] arg_cong [OF gens(1), of length] by simp
  then show "\<forall>gi < ?G. \<exists>e. bulk_encoder cfg payload gi = Inr e" by (fastforce simp: encode_generation_def split: sum.splits)
  assume "(g, w) \<in> set coded"
  then obtain gi where gi: "gi < length gens" "(g, w) \<in> set (gens ! gi)" using gens(2) by (auto simp: in_set_conv_nth [of _ gens])
  then have "gi < ?G" using arg_cong [OF gens(1), of length] by simp
  then show "\<exists>gi e. gi < ?G \<and> g = word_of_nat gi \<and> bulk_encoder cfg payload gi = Inr e \<and>
      w \<in> set (fst (fountain_produce simd soliton (bc_gen_size cfg + bc_repair cfg) e))"
    using one [of gi] gi(2) by (intro exI [of _ gi]) (auto simp: encode_generation_def eq_commute [of _ "gens ! gi"] split: sum.splits)
qed

lemma generation_ids_all:
  assumes "n \<le> 2 ^ 32" "fst ` set coded = word_of_nat ` {0..<n}"
  shows "generation_ids coded = map word_of_nat [0..<n]"
proof (rule sorted_distinct_set_unique)
  have small: "unat (word_of_nat i :: u32) = i" if "i < n" for i using that assms(1) by (simp add: unat_of_nat)
  show "sorted (map (word_of_nat :: nat \<Rightarrow> u32) [0..<n])"
    by (auto simp: sorted_iff_nth_mono word_le_nat_alt small)
  show "distinct (map (word_of_nat :: nat \<Rightarrow> u32) [0..<n])" using small by (auto simp: distinct_map intro: inj_on_inverseI [of _ unat])
qed (use assms(2) in \<open>auto simp: generation_ids_def\<close>)

text \<open>
  A bulk transfer gives the payload back. Whatever coded symbols arrive, lost, reordered and repeated in any way, as long as some symbol of
  every generation does, decoding returns exactly the payload or names a generation of which too few arrived.
\<close>

theorem bulk_roundtrip:
  assumes "bulk_encode simd soliton cfg payload = Some (Inr coded)" "bc_gen_size cfg < 65536" "bulk_generations cfg (length payload) \<le> 2 ^ 32"
    "set received \<subseteq> set coded" "fst ` set received = word_of_nat ` {0..<bulk_generations cfg (length payload)}"
  shows "bulk_decode simd cfg received (length payload) = Inr payload \<or>
    (\<exists>gen have need. bulk_decode simd cfg received (length payload) = Inl (Generation gen (Underdetermined have need)))"
proof -
  let ?G = "bulk_generations cfg (length payload)" and ?f = "full_gen_bytes cfg" and ?buf = "bulk_buffer cfg payload"
  have pos: "0 < bc_symbol_size cfg" "0 < bc_gen_size cfg" using assms(1) by (auto simp: bulk_encode_def split: if_splits)
  have ne: "received \<noteq> []" "?f \<noteq> 0" using assms(5) pos by (auto simp: bulk_generations_def full_gen_bytes_def)
  have each: "decode_generation simd cfg received (word_of_nat gi) = Inr (take ?f (drop (gi * ?f) ?buf)) \<or>
      (\<exists>gen have need. decode_generation simd cfg received (word_of_nat gi) = Inl (Generation gen (Underdetermined have need)))" if gi: "gi < ?G" for gi
  proof -
    obtain e where e: "bulk_encoder cfg payload gi = Inr e" using generation_of_coded(1) [OF assms(1)] gi by blast
    have "w \<in> set (fst (fountain_produce simd soliton (bc_gen_size cfg + bc_repair cfg) e))" if w: "w \<in> set (generation_wires (word_of_nat gi) received)" for w
    proof -
      have "(word_of_nat gi, w) \<in> set coded" using w assms(4) by (auto simp: generation_wires_def)
      then obtain gj e' where gj: "gj < ?G" "(word_of_nat gi :: u32) = word_of_nat gj" "bulk_encoder cfg payload gj = Inr e'"
        "w \<in> set (fst (fountain_produce simd soliton (bc_gen_size cfg + bc_repair cfg) e'))"
        using generation_of_coded(2) [OF assms(1)] by blast
      have "gi = gj" using arg_cong [OF gj(2), of unat] gi gj(1) assms(3) by (simp add: unat_of_nat)
      then show ?thesis using gj e by simp
    qed
    then show ?thesis using decode_generation_cases [OF pos assms(2) e, of received simd soliton "bc_gen_size cfg + bc_repair cfg"] by blast
  qed
  have ids: "generation_ids received = map word_of_nat [0..<?G]" by (rule generation_ids_all [OF assms(3,5)])
  show ?thesis
  proof (cases "collect_results (map (decode_generation simd cfg received) (generation_ids received))")
    case (Inl e)
    then obtain gi where "gi < ?G" "decode_generation simd cfg received (word_of_nat gi) = Inl e"
      using collect_results_Inl [OF Inl] by (auto simp: ids)
    then show ?thesis using each [of gi] Inl ne by (auto simp: bulk_decode_def)
  next
    case (Inr regions)
    then have map: "map (\<lambda>gi. decode_generation simd cfg received (word_of_nat gi)) [0..<?G] = map Inr regions"
      by (simp add: collect_results_Inr ids comp_def)
    have len: "length regions = ?G" using arg_cong [OF map, of length] by simp
    have "regions ! gi = take ?f (drop (gi * ?f) ?buf)" if "gi < ?G" for gi
      using each [OF that] arg_cong [OF map, of "\<lambda>xs. xs ! gi"] that len by auto
    then have "regions = map (\<lambda>gi. take ?f (drop (gi * ?f) ?buf)) [0..<?G]" using len by (intro nth_equalityI) auto
    then have "concat regions = ?buf" using bulk_buffer_length(1) [OF pos] by (simp add: concat_slices)
    then show ?thesis using Inr ne bulk_buffer_length(2) [OF pos] by (simp add: bulk_decode_def)
  qed
qed

definition demo_config :: bulk_config where
  "demo_config = \<lparr>bc_gen_size = 2, bc_symbol_size = 1, bc_repair = 0\<rparr>"

definition demo_coded :: "(u32 \<times> bytes) list" where
  "demo_coded = map (\<lambda>(g, i, x). (g, wire_symbol [(i, 1)] [x])) [(0, 0, 7), (0, 1, 9), (1, 0, 5), (1, 1, 0)]"

lemma demo_bulk:
  "bulk_generations demo_config 3 = 2" "bulk_generations demo_config (Suc (Suc (Suc 0))) = 2" "bulk_buffer demo_config [7, 9, 5] = [7, 9, 5, 0]"
  by (simp_all add: bulk_generations_def div_ceil_def demo_config_def bulk_buffer_def pad_to_def full_gen_bytes_def)

lemma demo_encode: "bulk_encode simd soliton demo_config [7, 9, 5] = Some (Inr demo_coded)"
proof -
  have enc: "bulk_encoder demo_config [7, 9, 5] gi = Inr \<lparr>fe_source = Shared [7, 9, 5, 0] (gi * 2) 1 2, fe_generation = word_of_nat gi, fe_repair_index = 0\<rparr>"
    if "gi < 2" for gi
    using that by (simp add: bulk_encoder_def demo_bulk encoder_new_shared_def) (simp add: demo_config_def full_gen_bytes_def)
  have two: "[0..<2] = [0, 1 :: nat]" by (simp add: upt_rec)
  have prod: "fst (fountain_produce simd soliton 2 \<lparr>fe_source = Shared [7, 9, 5, 0] (gi * 2) 1 2, fe_generation = g, fe_repair_index = 0\<rparr>) =
      [wire_symbol [(0, 1)] (take 1 (drop (gi * 2) [7, 9, 5, 0])), wire_symbol [(1, 1)] (take 1 (drop (gi * 2 + 1) [7, 9, 5, 0]))]" for gi g
    by (simp add: fountain_produce_def systematic_symbol_def two)
  have "encode_generation simd soliton demo_config [7, 9, 5] gi = Inr (map (Pair (word_of_nat gi))
      [wire_symbol [(0, 1)] (take 1 (drop (gi * 2) [7, 9, 5, 0])), wire_symbol [(1, 1)] (take 1 (drop (gi * 2 + 1) [7, 9, 5, 0]))])" if "gi < 2" for gi
    using enc [OF that] prod [of gi "word_of_nat gi"] by (simp add: encode_generation_def) (simp add: demo_config_def)
  from this [of 0] this [of 1] show ?thesis
    by (simp add: bulk_encode_def demo_bulk two) (simp add: demo_coded_def demo_config_def)
qed

theorem bulk_roundtrip_witness:
  "bulk_decode SSSE3 demo_config (rev demo_coded) 3 = Inr [7, 9, 5] \<or>
    (\<exists>gen have need. bulk_decode SSSE3 demo_config (rev demo_coded) 3 = Inl (Generation gen (Underdetermined have need)))"
proof -
  have "{0..<2} = {0, 1 :: nat}" by auto
  then have "fst ` set (rev demo_coded) = word_of_nat ` {0..<2}" by (auto simp: demo_coded_def)
  then show ?thesis using bulk_roundtrip [OF demo_encode, of "rev demo_coded" SSSE3] by (simp add: demo_bulk) (simp add: demo_config_def numeral_3_eq_3)
qed

text \<open>
  The regions are placed by their position among the generations that arrived, and nothing tells the decoder how many there were: when every symbol
  of a generation is lost, decoding succeeds with the bytes of the others.
\<close>

lemma lost_generation_unnoticed: "bulk_decode simd demo_config (filter (\<lambda>(g, _). g = 1) demo_coded) 3 = Inr [5, 0]"
proof -
  let ?rec = "filter (\<lambda>(g, _). g = 1) demo_coded"
  have "\<forall>gi < 2. \<exists>e. bulk_encoder demo_config [7, 9, 5] gi = Inr e" using generation_of_coded(1) [OF demo_encode] by (simp add: demo_bulk)
  then obtain e where e: "bulk_encoder demo_config [7, 9, 5] 1 = Inr e" by (metis one_less_numeral_iff semiring_norm(76))
  have src: "fe_source e = Shared [7, 9, 5, 0] 2 1 2"
    using e by (auto simp: bulk_encoder_def demo_bulk encoder_new_shared_def split: if_splits) (simp_all add: demo_config_def full_gen_bytes_def)
  have wires: "generation_wires 1 ?rec = map (systematic_symbol (fe_source e)) [0..<2]"
    by (simp add: generation_wires_def demo_coded_def systematic_symbol_def src upt_rec numeral_2_eq_2)
  moreover have "set (map (systematic_symbol (fe_source e)) [0..<2]) \<subseteq> set (fst (fountain_produce simd (\<lambda>_ _. 0) 2 e))"
    by (auto simp: fountain_produce_def src)
  ultimately have "decode_generation simd demo_config ?rec 1 = Inr [5, 0]"
    using decode_generation_cases [OF _ _ _ e, of ?rec simd "\<lambda>_ _. 0" 2] by (simp add: demo_bulk) (simp add: demo_config_def full_gen_bytes_def)
  moreover have "generation_ids ?rec = [1]" by (simp add: generation_ids_def demo_coded_def)
  ultimately show ?thesis by (simp add: bulk_decode_def) (simp add: demo_coded_def demo_config_def full_gen_bytes_def)
qed

end
