(* ===== verification/DLR_Protocol.thy ===== *)
theory DLR_Protocol
  imports DLR_Store DLR_Filter DLR_Compress Bulk
begin

text \<open>
  The two ends of the log-replication protocol: the session of the local shim (\<open>integrations/dlr/crates/shim/src/lib.rs\<close>) and the receiver
  (\<open>integrations/dlr/crates/receiver/src/lib.rs\<close>), over the store, the filter, the compressor and the bulk code of the other theories. The store
  and the filter of a shim are shared by its sessions, so they are passed beside the session. The receiver serializes the mutations
  of a session by a lock; an operation is the whole body under that lock. \<open>outs\<close> says how the writes to the log of a store end, in
  order. BLAKE3, xxh3, zstd and the float arithmetic of the code are parameters, bundled in \<open>dlr_env\<close>.
\<close>

record ('e, 'd) dlr_env =
  en_blake3 :: "bytes \<Rightarrow> bytes"
  en_xxh3 :: "bytes \<Rightarrow> u64"
  en_zstd :: "('e, 'd) zstd"
  en_simd :: simd
  en_soliton :: "nat \<Rightarrow> u64 \<Rightarrow> nat"
  en_repair :: "nat \<Rightarrow> u32 \<Rightarrow> nat"

section \<open>The shim\<close>

datatype shim_error = Shim_Coding bulk_error | Shim_Compress compress_error | Cold_Start_Required u128

record shim_host =
  ho_store :: content_store
  ho_filter :: cuckoo

record session_shim =
  sh_session_id :: u128
  sh_ids :: "bytes list"
  sh_root :: bytes
  sh_base_root :: bytes
  sh_base_len :: nat
  sh_compressor :: compressor
  sh_append_compressor :: compressor
  sh_fountain_k :: nat
  sh_symbol_size :: nat

definition append_level :: int where
  "append_level = 3"

definition shim_new :: "u128 \<Rightarrow> compressor \<Rightarrow> session_shim" where
  "shim_new sid c =
     \<lparr>sh_session_id = sid, sh_ids = [], sh_root = root_zero, sh_base_root = root_zero, sh_base_len = 0, sh_compressor = c,
      sh_append_compressor = with_level append_level c, sh_fountain_k = 64, sh_symbol_size = 1024\<rparr>"

definition host_new :: "content_store \<Rightarrow> shim_host" where
  "host_new store = \<lparr>ho_store = store, ho_filter = with_capacity (2 ^ 20)\<rparr>"

text \<open>One block of a turn: the frame block it becomes, the session and the shared state.\<close>

definition ingest_block ::
    "('e, 'd) dlr_env \<Rightarrow> write_outcome \<Rightarrow> dlr_block \<Rightarrow> session_shim \<times> shim_host \<Rightarrow> frame_block \<times> session_shim \<times> shim_host" where
  "ingest_block env out b st =
     (case st of (sh, ho) \<Rightarrow>
        (case canonical_bytes_and_id (en_blake3 env) b of (c, i) \<Rightarrow>
           (let sh = sh\<lparr>sh_ids := sh_ids sh @ [i], sh_root := append_root (en_blake3 env) (sh_root sh) i\<rparr>;
                known = filter_contains (en_xxh3 env) i (ho_filter ho) \<and> cs_blocks (ho_store ho) i \<noteq> None
            in if known
               then (Ref i, sh, ho\<lparr>ho_store := snd (store_reference (en_blake3 env) out (sh_session_id sh) i (ho_store ho))\<rparr>)
               else let z = (case compress_block (en_zstd env) (sh_append_compressor sh) c of Inr z \<Rightarrow> z | Inl _ \<Rightarrow> c)
                    in (Inline (b\<lparr>bk_payload := z\<rparr>), sh,
                        \<lparr>ho_store = snd (insert_with_canonical (en_blake3 env) out (sh_session_id sh) b i (Some c) (ho_store ho)),
                         ho_filter = snd (filter_insert (en_xxh3 env) i (ho_filter ho))\<rparr>))))"

fun ingest_blocks ::
    "('e, 'd) dlr_env \<Rightarrow> write_outcome list \<Rightarrow> dlr_block list \<Rightarrow> session_shim \<times> shim_host \<Rightarrow> frame_block list \<times> session_shim \<times> shim_host" where
  "ingest_blocks env outs [] st = ([], st)"
| "ingest_blocks env outs (b # bs) st =
     (case ingest_block env (case outs of [] \<Rightarrow> None | out # _ \<Rightarrow> out) b st of
        (fb, st) \<Rightarrow> (case ingest_blocks env (drop 1 outs) bs st of (fbs, st) \<Rightarrow> (fb # fbs, st)))"

definition ingest_turn ::
    "('e, 'd) dlr_env \<Rightarrow> write_outcome list \<Rightarrow> dlr_block list \<Rightarrow> session_shim \<times> shim_host \<Rightarrow> append_frame \<times> session_shim \<times> shim_host" where
  "ingest_turn env outs bs st =
     (case ingest_blocks env outs bs st of
        (fbs, sh, ho) \<Rightarrow> (\<lparr>ap_session_id = sh_session_id sh, ap_base_root = sh_base_root sh, ap_blocks = fbs\<rparr>, sh, ho))"

definition ingest_coalesced ::
    "('e, 'd) dlr_env \<Rightarrow> write_outcome list \<Rightarrow> dlr_block list list \<Rightarrow> session_shim \<times> shim_host \<Rightarrow> append_frame \<times> session_shim \<times> shim_host" where
  "ingest_coalesced env outs turns st = ingest_turn env outs (concat turns) st"

text \<open>The scan for a prefix with the acknowledged root, from the root \<open>r\<close> of \<open>n\<close> ids.\<close>

fun find_prefix :: "(bytes \<Rightarrow> bytes) \<Rightarrow> bytes \<Rightarrow> bytes \<Rightarrow> nat \<Rightarrow> bytes list \<Rightarrow> nat option" where
  "find_prefix blake3 acked r n [] = None"
| "find_prefix blake3 acked r n (i # ids) =
     (let r = append_root blake3 r i in if r = acked then Some (n + 1) else find_prefix blake3 acked r (n + 1) ids)"

definition apply_ack :: "(bytes \<Rightarrow> bytes) \<Rightarrow> bytes \<Rightarrow> session_shim \<Rightarrow> bool \<times> session_shim" where
  "apply_ack blake3 acked sh =
     (if acked = sh_root sh then (True, sh\<lparr>sh_base_root := acked, sh_base_len := length (sh_ids sh)\<rparr>)
      else if acked = sh_base_root sh then (True, sh)
      else case find_prefix blake3 acked root_zero 0 (sh_ids sh) of
        Some n \<Rightarrow> (True, sh\<lparr>sh_base_root := acked, sh_base_len := n\<rparr>)
      | None \<Rightarrow> (False, sh))"

definition shim_resync_frame :: "session_shim \<Rightarrow> resync_frame" where
  "shim_resync_frame sh = \<lparr>rs_session_id = sh_session_id sh, rs_client_root = sh_root sh, rs_manifest = sh_ids sh\<rparr>"

subsection \<open>Bulk frames\<close>

definition bulk_record :: "bytes \<Rightarrow> bytes" where
  "bulk_record z = u32_le (word_of_nat (length z)) @ z"

text \<open>The records of the missing blocks; an id that the store does not know is passed over.\<close>

fun bulk_records :: "('e, 'd) dlr_env \<Rightarrow> session_shim \<Rightarrow> content_store \<Rightarrow> bytes list \<Rightarrow> compress_error + bytes list" where
  "bulk_records env sh store [] = Inr []"
| "bulk_records env sh store (i # missing) =
     (case cs_blocks store i of
        None \<Rightarrow> bulk_records env sh store missing
      | Some b \<Rightarrow>
          (case compress_block (en_zstd env) (sh_compressor sh) (canonical_bytes b) of
             Inl e \<Rightarrow> Inl e
           | Inr z \<Rightarrow> (case bulk_records env sh store missing of Inl e \<Rightarrow> Inl e | Inr recs \<Rightarrow> Inr (bulk_record z # recs))))"

fun shard_records :: "nat \<Rightarrow> bytes \<Rightarrow> bytes list \<Rightarrow> bytes list" where
  "shard_records limit cur [] = (if cur = [] then [] else [cur])"
| "shard_records limit cur (rec # recs) =
     (if cur \<noteq> [] \<and> limit < length cur + length rec then cur # shard_records limit rec recs
      else shard_records limit (cur @ rec) recs)"

definition chunk_frame :: "('e, 'd) dlr_env \<Rightarrow> session_shim \<Rightarrow> u32 \<Rightarrow> nat \<Rightarrow> bytes \<Rightarrow> (shim_error + bulk_frame) option" where
  "chunk_frame env sh pct gen chunk =
     (let sz = sh_symbol_size sh;
          gen_size = max (div_ceil (length chunk) sz) 1;
          cfg = \<lparr>bc_gen_size = gen_size, bc_symbol_size = sz, bc_repair = en_repair env gen_size pct\<rparr>
      in map_option (\<lambda>r. case r of
             Inl e \<Rightarrow> Inl (Shim_Coding e)
           | Inr coded \<Rightarrow> Inr \<lparr>bu_session_id = sh_session_id sh, bu_generation = word_of_nat gen, bu_k = word_of_nat gen_size,
                              bu_symbol_size = word_of_nat sz, bu_symbols = map snd coded\<rparr>)
           (bulk_encode (en_simd env) (en_soliton env) cfg chunk))"

text \<open>\<open>None\<close> is a panic of the encoder.\<close>

definition collect_frames :: "(shim_error + bulk_frame) option list \<Rightarrow> (shim_error + bulk_frame list) option" where
  "collect_frames rs = (if None \<in> set rs then None else Some (collect_results (map the rs)))"

definition bulk_frames_for ::
    "('e, 'd) dlr_env \<Rightarrow> session_shim \<Rightarrow> content_store \<Rightarrow> bytes list \<Rightarrow> u32 \<Rightarrow> (shim_error + bulk_frame list) option" where
  "bulk_frames_for env sh store missing pct =
     (if missing = [] then Some (Inr [])
      else case bulk_records env sh store missing of
        Inl e \<Rightarrow> Some (Inl (Shim_Compress e))
      | Inr recs \<Rightarrow>
          (let chunks = shard_records (sh_fountain_k sh * sh_symbol_size sh) [] recs
           in collect_frames (map (\<lambda>(gen, chunk). chunk_frame env sh pct gen chunk) (enumerate 0 chunks))))"

definition bulk_frames :: "('e, 'd) dlr_env \<Rightarrow> session_shim \<Rightarrow> content_store \<Rightarrow> u32 \<Rightarrow> (shim_error + bulk_frame list) option" where
  "bulk_frames env sh store pct = bulk_frames_for env sh store (drop (sh_base_len sh) (sh_ids sh)) pct"

subsection \<open>The coordinator of the sessions of a host\<close>

record shim =
  sm_host :: shim_host
  sm_compressor :: compressor
  sm_sessions :: "u128 \<rightharpoonup> session_shim"

definition coordinator_new :: "content_store \<Rightarrow> compressor \<Rightarrow> shim" where
  "coordinator_new store c = \<lparr>sm_host = host_new store, sm_compressor = c, sm_sessions = Map.empty\<rparr>"

definition shim_entry :: "u128 \<Rightarrow> shim \<Rightarrow> session_shim" where
  "shim_entry sid m = (case sm_sessions m sid of Some sh \<Rightarrow> sh | None \<Rightarrow> shim_new sid (sm_compressor m))"

definition coordinator_session :: "u128 \<Rightarrow> shim \<Rightarrow> session_shim \<times> shim" where
  "coordinator_session sid m = (let sh = shim_entry sid m in (sh, m\<lparr>sm_sessions := (sm_sessions m)(sid \<mapsto> sh)\<rparr>))"

definition coordinator_ingest :: "('e, 'd) dlr_env \<Rightarrow> write_outcome list \<Rightarrow> u128 \<Rightarrow> dlr_block list \<Rightarrow> shim \<Rightarrow> append_frame \<times> shim" where
  "coordinator_ingest env outs sid bs m =
     (case ingest_turn env outs bs (shim_entry sid m, sm_host m) of
        (f, sh, ho) \<Rightarrow> (f, m\<lparr>sm_host := ho, sm_sessions := (sm_sessions m)(sid \<mapsto> sh)\<rparr>))"

definition coordinator_ingest_batch :: "('e, 'd) dlr_env \<Rightarrow> write_outcome list \<Rightarrow> u128 \<Rightarrow> dlr_block list list \<Rightarrow> shim \<Rightarrow> append_frame \<times> shim" where
  "coordinator_ingest_batch env outs sid turns m =
     (case ingest_coalesced env outs turns (shim_entry sid m, sm_host m) of
        (f, sh, ho) \<Rightarrow> (f, m\<lparr>sm_host := ho, sm_sessions := (sm_sessions m)(sid \<mapsto> sh)\<rparr>))"

definition coordinator_apply_ack :: "(bytes \<Rightarrow> bytes) \<Rightarrow> u128 \<Rightarrow> bytes \<Rightarrow> shim \<Rightarrow> bool \<times> shim" where
  "coordinator_apply_ack blake3 sid root m =
     (case sm_sessions m sid of
        None \<Rightarrow> (False, m)
      | Some sh \<Rightarrow> (case apply_ack blake3 root sh of (ok, sh) \<Rightarrow> (ok, m\<lparr>sm_sessions := (sm_sessions m)(sid \<mapsto> sh)\<rparr>)))"

section \<open>The receiver\<close>

datatype receiver_error =
    Rv_Fountain fountain_error
  | Rv_Compress compress_error
  | Rv_Frame string
  | Rv_Missing_Ref
  | Rv_No_Session u128
  | Cold_Start_In_Progress u128
  | Base_Root_Mismatch u128 bytes bytes

record session_state =
  st_pending :: "bytes set"
  st_acked :: bool
  st_decoders :: "u32 \<rightharpoonup> fountain_decoder"

record receiver =
  rv_store :: content_store
  rv_compressor :: compressor
  rv_sessions :: "u128 \<rightharpoonup> session_state"

record log_pointer =
  lp_session_id :: u128
  lp_root :: bytes
  lp_len :: nat

definition state_new :: session_state where
  "state_new = \<lparr>st_pending = {}, st_acked = False, st_decoders = Map.empty\<rparr>"

definition missing_ids :: "content_store \<Rightarrow> bytes list \<Rightarrow> bytes list" where
  "missing_ids store ids = filter (\<lambda>i. cs_blocks store i = None) ids"

definition receiver_new :: "content_store \<Rightarrow> compressor \<Rightarrow> receiver" where
  "receiver_new store c =
     \<lparr>rv_store = store, rv_compressor = c,
      rv_sessions = (\<lambda>sid. map_option (\<lambda>l. let pending = set (missing_ids store (sl_ids l))
         in \<lparr>st_pending = pending, st_acked = (pending = {}), st_decoders = Map.empty\<rparr>) (cs_sessions store sid))\<rparr>"

datatype resolved = RInline bytes dlr_block | RRef bytes

fun resolved_id :: "resolved \<Rightarrow> bytes" where
  "resolved_id (RInline i b) = i"
| "resolved_id (RRef i) = i"

definition resolve_block :: "('e, 'd) dlr_env \<Rightarrow> receiver \<Rightarrow> frame_block \<Rightarrow> receiver_error + resolved" where
  "resolve_block env rv fb =
     (case fb of
        Ref i \<Rightarrow> Inr (RRef i)
      | Inline w \<Rightarrow>
          (case decompress_block (en_zstd env) (rv_compressor rv) (bk_payload w) of
             Inl e \<Rightarrow> Inl (Rv_Compress e)
           | Inr canon \<Rightarrow>
               (case from_canonical_owned (en_blake3 env) canon of
                  Inl e \<Rightarrow> Inl (Rv_Frame e)
                | Inr (b, i) \<Rightarrow> Inr (RInline i b))))"

text \<open>The check of the references: in the store, or inline earlier in the frame.\<close>

fun refs_available :: "content_store \<Rightarrow> bytes set \<Rightarrow> resolved list \<Rightarrow> bool" where
  "refs_available store inl [] = True"
| "refs_available store inl (RInline i b # rs) = refs_available store (insert i inl) rs"
| "refs_available store inl (RRef i # rs) = ((cs_blocks store i \<noteq> None \<or> i \<in> inl) \<and> refs_available store inl rs)"

fun apply_resolved ::
    "(bytes \<Rightarrow> bytes) \<Rightarrow> write_outcome list \<Rightarrow> u128 \<Rightarrow> resolved list \<Rightarrow> content_store \<Rightarrow> bool \<times> content_store" where
  "apply_resolved blake3 outs sid [] store = (True, store)"
| "apply_resolved blake3 outs sid (RInline i b # rs) store =
     apply_resolved blake3 (drop 1 outs) sid rs (snd (insert_with_id blake3 (case outs of [] \<Rightarrow> None | out # _ \<Rightarrow> out) sid b i store))"
| "apply_resolved blake3 outs sid (RRef i # rs) store =
     (case store_reference blake3 (case outs of [] \<Rightarrow> None | out # _ \<Rightarrow> out) sid i store of
        (Inl _, store) \<Rightarrow> (False, store)
      | (Inr _, store) \<Rightarrow> apply_resolved blake3 (drop 1 outs) sid rs store)"

text \<open>
  \<open>entry(sid).or_insert_with(SessionState::new)\<close>: the state of a session, a fresh one when it is unknown; \<open>put_session\<close> then registers it, before
  \<open>handle_append\<close> looks at the root of the frame.
\<close>

definition session_entry :: "u128 \<Rightarrow> receiver \<Rightarrow> session_state" where
  "session_entry sid rv = (case rv_sessions rv sid of Some st \<Rightarrow> st | None \<Rightarrow> state_new)"

definition put_session :: "u128 \<Rightarrow> session_state \<Rightarrow> receiver \<Rightarrow> receiver" where
  "put_session sid st rv = rv\<lparr>rv_sessions := (rv_sessions rv)(sid \<mapsto> st)\<rparr>"

definition handle_append ::
    "('e, 'd) dlr_env \<Rightarrow> write_outcome list \<Rightarrow> append_frame \<Rightarrow> receiver \<Rightarrow> (receiver_error + ack_frame) \<times> receiver" where
  "handle_append env outs f rv =
     (case collect_results (map (resolve_block env rv) (ap_blocks f)) of
        Inl e \<Rightarrow> (Inl e, rv)
      | Inr rs \<Rightarrow>
          if \<not> refs_available (rv_store rv) {} rs then (Inl Rv_Missing_Ref, rv)
          else let sid = ap_session_id f; st = session_entry sid rv; rv = put_session sid st rv
               in if st_pending st \<noteq> {} then (Inl (Cold_Start_In_Progress sid), rv)
                  else let cur = session_root sid (rv_store rv);
                           target = foldl (\<lambda>root r. append_root (en_blake3 env) root (resolved_id r)) (ap_base_root f) rs
                       in if ap_base_root f \<noteq> cur
                          then (if target = cur then Inr \<lparr>ak_session_id = sid, ak_root = cur\<rparr>
                                else Inl (Base_Root_Mismatch sid (ap_base_root f) cur), rv)
                          else case apply_resolved (en_blake3 env) outs sid rs (rv_store rv) of
                                 (False, store) \<Rightarrow> (Inl Rv_Missing_Ref, rv\<lparr>rv_store := store\<rparr>)
                               | (True, store) \<Rightarrow> (Inr \<lparr>ak_session_id = sid, ak_root = session_root sid store\<rparr>, rv\<lparr>rv_store := store\<rparr>))"

definition handle_resync :: "write_outcome \<Rightarrow> resync_frame \<Rightarrow> receiver \<Rightarrow> bytes list \<times> receiver" where
  "handle_resync out f rv =
     (let sid = rs_session_id f;
          missing = missing_ids (rv_store rv) (rs_manifest f);
          rv = rv\<lparr>rv_store := seed_session out sid (rs_manifest f) (rs_client_root f) (rv_store rv)\<rparr>;
          st = (session_entry sid rv)\<lparr>st_pending := set missing, st_acked := (missing = [])\<rparr>
      in (missing, put_session sid st rv))"

text \<open>\<open>d.add(s)?\<close> for the symbols of a frame: an error ends the loop and leaves what was added before.\<close>

fun feed_frame :: "bytes list \<Rightarrow> fountain_decoder \<Rightarrow> fountain_error option \<times> fountain_decoder" where
  "feed_frame [] d = (None, d)"
| "feed_frame (w # ws) d = (case fountain_add w d of Inl e \<Rightarrow> (Some e, d) | Inr (_, d) \<Rightarrow> feed_frame ws d)"

text \<open>The records of a decoded stream, up to the zero padding or a cut record.\<close>

function parse_records :: "bytes \<Rightarrow> bytes list" where
  "parse_records flat =
     (if length flat < 4 then []
      else let blen = unat (u32_of_le (take 4 flat)); rest = drop 4 flat
           in if blen = 0 \<or> length rest < blen then [] else take blen rest # parse_records (drop blen rest))"
  by pat_completeness auto
termination
  by (relation "measure length") auto

declare parse_records.simps [simp del]

definition recover_block :: "('e, 'd) dlr_env \<Rightarrow> receiver \<Rightarrow> bytes \<Rightarrow> receiver_error + dlr_block \<times> bytes" where
  "recover_block env rv packed =
     (case decompress_block (en_zstd env) (rv_compressor rv) packed of
        Inl e \<Rightarrow> Inl (Rv_Compress e)
      | Inr canon \<Rightarrow> (case from_canonical_owned (en_blake3 env) canon of Inl e \<Rightarrow> Inl (Rv_Frame e) | Inr p \<Rightarrow> Inr p))"

fun store_recovered :: "write_outcome list \<Rightarrow> u128 \<Rightarrow> (dlr_block \<times> bytes) list \<Rightarrow> content_store \<Rightarrow> content_store" where
  "store_recovered outs sid [] store = store"
| "store_recovered outs sid ((b, i) # rs) store =
     store_recovered (drop 1 outs) sid rs (snd (store_content_with_id (case outs of [] \<Rightarrow> None | out # _ \<Rightarrow> out) sid b i store))"

definition handle_bulk ::
    "('e, 'd) dlr_env \<Rightarrow> write_outcome list \<Rightarrow> bulk_frame \<Rightarrow> receiver \<Rightarrow> (receiver_error + bytes option) \<times> receiver" where
  "handle_bulk env outs f rv =
     (let sid = bu_session_id f;
          st = session_entry sid rv;
          d = (case st_decoders st (bu_generation f) of Some d \<Rightarrow> d | None \<Rightarrow> decoder_new (unat (bu_k f)) (unat (bu_symbol_size f)));
          put = (\<lambda>d. put_session sid (st\<lparr>st_decoders := (st_decoders st)(bu_generation f \<mapsto> d)\<rparr>) rv)
      in case feed_frame (bu_symbols f) d of
           (Some e, d) \<Rightarrow> (Inl (Rv_Fountain e), put d)
         | (None, d) \<Rightarrow>
             (case fountain_decode (en_simd env) d of
                (d, Inl (Underdetermined _ _)) \<Rightarrow> (Inr None, put d)
              | (d, Inl e) \<Rightarrow> (Inl (Rv_Fountain e), put d)
              | (d, Inr symbols) \<Rightarrow>
                  (case collect_results (map (recover_block env rv) (parse_records (concat symbols))) of
                     Inl e \<Rightarrow> (Inl e, put d)
                   | Inr recovered \<Rightarrow>
                       (let store = store_recovered outs sid recovered (rv_store rv);
                            pending = st_pending st - snd ` set recovered;
                            completed = (pending = {} \<and> \<not> st_acked st);
                            st = st\<lparr>st_pending := pending, st_acked := st_acked st \<or> completed,
                                   st_decoders := (st_decoders st)(bu_generation f := None)\<rparr>
                        in (Inr (if completed then Some (session_root sid store) else None), put_session sid st (rv\<lparr>rv_store := store\<rparr>))))))"

definition handle_frame :: "('e, 'd) dlr_env \<Rightarrow> write_outcome list \<Rightarrow> frame \<Rightarrow> receiver \<Rightarrow> (receiver_error + frame option) \<times> receiver" where
  "handle_frame env outs f rv =
     (case f of
        Append a \<Rightarrow>
          (case handle_append env outs a rv of
             (Inl e, rv) \<Rightarrow> (Inl e, rv)
           | (Inr ack, rv) \<Rightarrow> (Inr (Some (Ack ack)), rv))
      | Resync r \<Rightarrow>
          (case handle_resync (case outs of [] \<Rightarrow> None | out # _ \<Rightarrow> out) r rv of
             (missing, rv) \<Rightarrow>
               (Inr (Some (if missing = [] then Ack \<lparr>ak_session_id = rs_session_id r, ak_root = session_root (rs_session_id r) (rv_store rv)\<rparr>
                           else Missing \<lparr>ms_session_id = rs_session_id r, ms_missing = missing\<rparr>)), rv))
      | Bulk b \<Rightarrow>
          (case handle_bulk env outs b rv of
             (Inl e, rv) \<Rightarrow> (Inl e, rv)
           | (Inr None, rv) \<Rightarrow> (Inr None, rv)
           | (Inr (Some root), rv) \<Rightarrow> (Inr (Some (Ack \<lparr>ak_session_id = bu_session_id b, ak_root = root\<rparr>)), rv))
      | Ack _ \<Rightarrow> (Inr None, rv)
      | Missing _ \<Rightarrow> (Inr None, rv))"

definition receiver_pointer :: "u128 \<Rightarrow> receiver \<Rightarrow> log_pointer option" where
  "receiver_pointer sid rv =
     (if rv_sessions rv sid = None then None
      else Some \<lparr>lp_session_id = sid, lp_root = session_root sid (rv_store rv), lp_len = session_len sid (rv_store rv)\<rparr>)"

definition receiver_session_root :: "u128 \<Rightarrow> receiver \<Rightarrow> bytes option" where
  "receiver_session_root sid rv = (if rv_sessions rv sid = None then None else Some (session_root sid (rv_store rv)))"

definition receiver_reconstruct :: "u128 \<Rightarrow> receiver \<Rightarrow> dlr_block list" where
  "receiver_reconstruct sid rv = (if rv_sessions rv sid = None then [] else reconstruct sid (rv_store rv))"

definition receiver_reconstruct_range :: "u128 \<Rightarrow> nat \<Rightarrow> nat \<Rightarrow> receiver \<Rightarrow> dlr_block list option" where
  "receiver_reconstruct_range sid from to rv = (if rv_sessions rv sid = None then Some [] else reconstruct_range sid from to (rv_store rv))"

section \<open>Blocks on the wire\<close>

abbreviation bid :: "('e, 'd, 'x) dlr_env_scheme \<Rightarrow> dlr_block \<Rightarrow> bytes" where
  "bid env b \<equiv> block_block_id (en_blake3 env) b"

lemma owned_canonical: "payload_ok b \<Longrightarrow> from_canonical_owned blake3 (canonical_bytes b) = Inr (b, block_block_id blake3 b)"
  using owned_id [OF from_canonical_bytes [of b "[]", simplified], of blake3]
  by (simp add: block_block_id_def canonical_into_def canonical_header_def canonical_bytes_def)

lemma canonical_and_id: "canonical_bytes_and_id blake3 b = (canonical_bytes b, block_block_id blake3 b)"
  using ids_agree [of blake3 b] by (metis prod.collapse)

text \<open>Sender and receiver share a dictionary, and zstd keeps its promise at the levels in use.\<close>

definition same_codec :: "('e, 'd) dlr_env \<Rightarrow> session_shim \<Rightarrow> receiver \<Rightarrow> bool" where
  "same_codec env sh rv \<longleftrightarrow>
     cp_dict (sh_append_compressor sh) = cp_dict (rv_compressor rv) \<and> cp_dict (sh_compressor sh) = cp_dict (rv_compressor rv) \<and>
     zstd_ok (en_zstd env) {cp_level (sh_append_compressor sh), cp_level (sh_compressor sh)} (dc_content (cp_dict (rv_compressor rv)))"

lemma inline_resolves:
  assumes "same_codec env sh rv" "payload_ok b"
  shows "\<exists>z. compress_block (en_zstd env) (sh_append_compressor sh) (canonical_bytes b) = Inr z \<and>
    resolve_block env rv (Inline (b\<lparr>bk_payload := z\<rparr>)) = Inr (RInline (bid env b) b)"
proof -
  obtain z where "compress_block (en_zstd env) (sh_append_compressor sh) (canonical_bytes b) = Inr z"
    "decompress_block (en_zstd env) (rv_compressor rv) z = Inr (canonical_bytes b)"
    using compress_block_roundtrip [of "en_zstd env" _ "sh_append_compressor sh" "rv_compressor rv" "canonical_bytes b"] assms(1)
    unfolding same_codec_def by (metis insertI1)
  then show ?thesis using owned_canonical [OF assms(2), of "en_blake3 env"] by (simp add: resolve_block_def)
qed

section \<open>What a frame does to the blocks of a receiver\<close>

fun after :: "(bytes \<rightharpoonup> dlr_block) \<Rightarrow> resolved list \<Rightarrow> (bytes \<rightharpoonup> dlr_block)" where
  "after m [] = m"
| "after m (RInline i b # rs) = after (spec_add i b m) rs"
| "after m (RRef i # rs) = after m rs"

fun refs_ok :: "bytes set \<Rightarrow> resolved list \<Rightarrow> bool" where
  "refs_ok A [] = True"
| "refs_ok A (RInline i b # rs) = refs_ok (insert i A) rs"
| "refs_ok A (RRef i # rs) = (i \<in> A \<and> refs_ok A rs)"

lemma refs_available_ok: "refs_available store inl rs \<longleftrightarrow> refs_ok (dom (cs_blocks store) \<union> inl) rs"
  by (induction store inl rs rule: refs_available.induct) (auto simp: domIff)

lemma refs_ok_mono: "refs_ok A rs \<Longrightarrow> A \<subseteq> B \<Longrightarrow> refs_ok B rs"
proof (induction A rs arbitrary: B rule: refs_ok.induct)
  case (2 A i b rs)
  then show ?case by (auto intro: "2.IH" [of "insert i B"])
qed auto

lemma dom_spec_add: "dom (spec_add i b m) = insert i (dom m)"
  by (auto simp: spec_add_def)

lemma dom_after: "dom m \<subseteq> dom (after m rs)"
  by (induction m rs rule: after.induct) (auto simp: dom_spec_add)

lemma after_keeps: "m i = Some b \<Longrightarrow> after m rs i = Some b"
proof (induction m rs rule: after.induct)
  case (2 m j c rs)
  then show ?case by (cases "i = j") (simp_all add: spec_add_def)
qed simp_all

lemma dom_after_refs: "refs_ok (dom m) rs \<Longrightarrow> resolved_id ` set rs \<subseteq> dom (after m rs)"
proof (induction m rs rule: after.induct)
  case (2 m i b rs)
  then show ?case using dom_after [of "spec_add i b m" rs] by (auto simp: dom_spec_add)
next
  case (3 m i rs)
  then show ?case using dom_after [of m rs] by auto
qed simp

text \<open>The session log of a store.\<close>

lemma session_after_append:
  "session_ids sid' (session_append blake3 sid i s) = (if sid' = sid then session_ids sid s @ [i] else session_ids sid' s)"
  "session_root sid' (session_append blake3 sid i s) = (if sid' = sid then append_root blake3 (session_root sid s) i else session_root sid' s)"
  by (auto simp: session_ids_def session_root_def session_append_def log_entry_def split: option.splits)

lemma session_of_view: "cs_sessions s = cs_sessions s' \<Longrightarrow> session_ids sid s = session_ids sid s' \<and> session_root sid s = session_root sid s'"
  by (simp add: session_ids_def session_root_def)

lemma inserted_view:
  "cs_blocks (snd (insert_with_canonical blake3 out sid b i c s)) = spec_add i b (cs_blocks s)"
  "session_ids sid' (snd (insert_with_canonical blake3 out sid b i c s)) = (if sid' = sid then session_ids sid s @ [i] else session_ids sid' s)"
  "session_root sid' (snd (insert_with_canonical blake3 out sid b i c s)) = (if sid' = sid then append_root blake3 (session_root sid s) i else session_root sid' s)"
proof -
  let ?s = "snd (store_block i b s)"
  have view: "cs_sessions (snd (insert_with_canonical blake3 out sid b i c s)) = cs_sessions (session_append blake3 sid i ?s)"
    by (simp add: insert_with_canonical_def insert_shadow_def insert_session_def count_session_def case_prod_beta)
  have "cs_sessions ?s = cs_sessions s" by (rule store_block_maps)
  from session_of_view [OF view] session_of_view [OF this]
  show "session_ids sid' (snd (insert_with_canonical blake3 out sid b i c s)) = (if sid' = sid then session_ids sid s @ [i] else session_ids sid' s)"
    "session_root sid' (snd (insert_with_canonical blake3 out sid b i c s)) = (if sid' = sid then append_root blake3 (session_root sid s) i else session_root sid' s)"
    by (simp_all add: session_after_append)
  show "cs_blocks (snd (insert_with_canonical blake3 out sid b i c s)) = spec_add i b (cs_blocks s)"
    by (simp add: insert_with_canonical_def insert_shadow_def insert_session_def count_session_def session_append_def case_prod_beta store_block_maps)
qed

lemma referenced_view:
  assumes "cs_blocks s i \<noteq> None"
  obtains s' where "store_reference blake3 out sid i s = (Inr (), s')" "cs_blocks s' = cs_blocks s"
    "\<And>sid'. session_ids sid' s' = (if sid' = sid then session_ids sid s @ [i] else session_ids sid' s)"
    "\<And>sid'. session_root sid' s' = (if sid' = sid then append_root blake3 (session_root sid s) i else session_root sid' s)"
proof -
  let ?s = "snd (store_reference blake3 out sid i s)"
  have view: "cs_sessions ?s = cs_sessions (session_append blake3 sid i s)" "cs_blocks ?s = cs_blocks s" "store_reference blake3 out sid i s = (Inr (), ?s)"
    using assms by (auto simp: store_reference_def Let_def session_append_def)
  show thesis using that [OF view(3,2)] session_of_view [OF view(1)] by (simp add: session_after_append)
qed

lemma apply_resolved_ok:
  assumes "refs_ok (dom (cs_blocks s)) rs"
  shows "\<exists>s'. apply_resolved blake3 outs sid rs s = (True, s') \<and> cs_blocks s' = after (cs_blocks s) rs \<and>
    (\<forall>sid'. session_ids sid' s' = (if sid' = sid then session_ids sid s @ map resolved_id rs else session_ids sid' s)) \<and>
    (\<forall>sid'. session_root sid' s' = (if sid' = sid then root_over blake3 (session_root sid s) (map resolved_id rs) else session_root sid' s))"
  using assms
proof (induction blake3 outs sid rs s rule: apply_resolved.induct)
  case (2 blake3 outs sid i b rs s)
  let ?out = "case outs of [] \<Rightarrow> None | out # _ \<Rightarrow> out"
  let ?s = "snd (insert_with_id blake3 ?out sid b i s)"
  have s: "cs_blocks ?s = spec_add i b (cs_blocks s)" by (simp add: insert_with_id_def inserted_view)
  from "2.IH" "2.prems" show ?case
    by (auto simp: s dom_spec_add root_over_def) (simp_all add: insert_with_id_def inserted_view)
next
  case (3 blake3 outs sid i rs s)
  let ?out = "case outs of [] \<Rightarrow> None | out # _ \<Rightarrow> out"
  have "cs_blocks s i \<noteq> None" using "3.prems" by (auto simp: domIff)
  then obtain s' where s': "store_reference blake3 ?out sid i s = (Inr (), s')" "cs_blocks s' = cs_blocks s"
    "\<And>sid'. session_ids sid' s' = (if sid' = sid then session_ids sid s @ [i] else session_ids sid' s)"
    "\<And>sid'. session_root sid' s' = (if sid' = sid then append_root blake3 (session_root sid s) i else session_root sid' s)"
    by (rule referenced_view) blast
  from "3.IH" [OF s'(1) [symmetric]] "3.prems" show ?case by (auto simp: s' root_over_def)
qed (simp add: root_over_def)

section \<open>Both ends in step\<close>

text \<open>The blocks of a map are filed under their ids.\<close>

definition named :: "(bytes \<Rightarrow> bytes) \<Rightarrow> (bytes \<rightharpoonup> dlr_block) \<Rightarrow> bool" where
  "named blake3 m \<longleftrightarrow> (\<forall>i b. m i = Some b \<longrightarrow> block_block_id blake3 b = i)"

lemma named_spec_add: "named blake3 m \<Longrightarrow> named blake3 (spec_add (block_block_id blake3 b) b m)"
  by (auto simp: named_def spec_add_def)

text \<open>A resolved item is the block, inline or by reference.\<close>

definition stands_for :: "('e, 'd) dlr_env \<Rightarrow> dlr_block \<Rightarrow> resolved \<Rightarrow> bool" where
  "stands_for env b r \<longleftrightarrow> r = RInline (bid env b) b \<or> r = RRef (bid env b)"

lemma stands_for_ids: "list_all2 (stands_for env) bs rs \<Longrightarrow> map resolved_id rs = map (bid env) bs"
  by (induction bs rs rule: list_all2_induct) (auto simp: stands_for_def)

lemma after_named: "list_all2 (stands_for env) bs rs \<Longrightarrow> named (en_blake3 env) m \<Longrightarrow> named (en_blake3 env) (after m rs)"
  by (induction bs rs arbitrary: m rule: list_all2_induct) (auto simp: stands_for_def named_spec_add)

lemma ran_spec_add: "ran (spec_add i b m) \<subseteq> insert b (ran m)"
  by (auto simp: spec_add_def ran_def split: if_splits)

lemma after_ran: "list_all2 (stands_for env) bs rs \<Longrightarrow> ran (after m rs) \<subseteq> ran m \<union> set bs"
proof (induction bs rs arbitrary: m rule: list_all2_induct)
  case (Cons b bs r rs)
  then show ?case using ran_spec_add [of "bid env b" b m] by (auto simp: stands_for_def) blast+
qed simp

lemma spec_add_le:
  assumes "map_le (f |` A) m" "\<And>c. m i = Some c \<Longrightarrow> c = b" "i \<in> A"
  shows "map_le (spec_add i b f |` A) (spec_add i b m)"
  unfolding map_le_def
proof
  fix j assume j: "j \<in> dom (spec_add i b f |` A)"
  then have "j \<in> A" by (auto split: if_splits)
  have at: "f k = Some c \<Longrightarrow> k \<in> A \<Longrightarrow> m k = Some c" for k c using assms(1) by (force simp: map_le_def)
  show "(spec_add i b f |` A) j = spec_add i b m j"
  proof (cases "j = i")
    case True
    then show ?thesis using at [of i] assms(2,3) by (cases "f i"; cases "m i") (auto simp: spec_add_def)
  next
    case False
    then have "f j \<noteq> None" "spec_add i b f j = f j" "spec_add i b m j = m j" using j \<open>j \<in> A\<close> by (auto simp: spec_add_def split: if_splits)
    then show ?thesis using at [of j] \<open>j \<in> A\<close> by auto
  qed
qed

text \<open>
  Ingesting a turn on one side is simulated by the frame on the other: with a receiver whose blocks \<open>m\<close> include those of the shim, every
  block resolves, every reference is available, and the inclusion holds again behind the frame. The set \<open>L\<close> is left out of the inclusion: ids that the
  receiver may lack, as long as no block of the turn has one of them.
\<close>

lemma ingest_simulated_but:
  assumes "same_codec env sh rv" "\<forall>b \<in> set bs. payload_ok b" "inj_on (bid env) S" "set bs \<subseteq> S" "ran m \<subseteq> S" "named (en_blake3 env) m"
    "map_le (cs_blocks (ho_store ho) |` (- L)) m" "bid env ` set bs \<inter> L = {}" "ingest_blocks env outs bs (sh, ho) = (fbs, sh', ho')"
  shows "\<exists>rs. map (resolve_block env rv) fbs = map Inr rs \<and> list_all2 (stands_for env) bs rs \<and> refs_ok (dom m) rs \<and>
    map_le (cs_blocks (ho_store ho') |` (- L)) (after m rs) \<and>
    sh' = sh\<lparr>sh_ids := sh_ids sh @ map (bid env) bs, sh_root := root_over (en_blake3 env) (sh_root sh) (map (bid env) bs)\<rparr>"
  using assms
proof (induction env outs bs "(sh, ho)" arbitrary: sh ho m fbs rule: ingest_blocks.induct)
  case (1 env outs)
  then show ?case by (simp add: root_over_def)
next
  case (2 env outs b bs)
  let ?i = "bid env b" and ?out = "case outs of [] \<Rightarrow> None | out # _ \<Rightarrow> out" and ?bl = "cs_blocks (ho_store ho)"
  let ?sh = "sh\<lparr>sh_ids := sh_ids sh @ [?i], sh_root := append_root (en_blake3 env) (sh_root sh) ?i\<rparr>"
  obtain fb sh1 ho1 where one: "ingest_block env ?out b (sh, ho) = (fb, sh1, ho1)" using prod_cases3 by blast
  obtain fbs1 where rest: "ingest_blocks env (drop 1 outs) bs (sh1, ho1) = (fbs1, sh', ho')" "fbs = fb # fbs1"
    using "2.prems"(9) one by (auto split: prod.splits)
  have sh1: "sh1 = ?sh" using one by (auto simp: ingest_block_def canonical_and_id Let_def split: if_splits)
  have codec: "same_codec env sh1 rv" using "2.prems"(1) by (simp add: sh1 same_codec_def)
  have kept: "?i \<notin> L" using "2.prems"(8) by auto
  have step: "\<exists>r m'. resolve_block env rv fb = Inr r \<and> stands_for env b r \<and> after m [r] = m' \<and> refs_ok (dom m) [r] \<and>
      map_le (cs_blocks (ho_store ho1) |` (- L)) m' \<and> dom m \<union> {?i} = dom m'"
  proof (cases "filter_contains (en_xxh3 env) ?i (ho_filter ho) \<and> ?bl ?i \<noteq> None")
    case True
    then have fb: "fb = Ref ?i" "cs_blocks (ho_store ho1) = ?bl"
      using one by (auto simp: ingest_block_def canonical_and_id Let_def store_reference_def session_append_def)
    have "?i \<in> dom m" using True kept map_le_implies_dom_le [OF "2.prems"(7)] by (auto simp: domIff)
    then show ?thesis using fb "2.prems"(7) by (auto simp: resolve_block_def stands_for_def)
  next
    case False
    obtain z where z: "compress_block (en_zstd env) (sh_append_compressor sh) (canonical_bytes b) = Inr z"
      "resolve_block env rv (Inline (b\<lparr>bk_payload := z\<rparr>)) = Inr (RInline ?i b)"
      using inline_resolves [OF "2.prems"(1), of b] "2.prems"(2) by auto
    have fb: "fb = Inline (b\<lparr>bk_payload := z\<rparr>)" "cs_blocks (ho_store ho1) = spec_add ?i b ?bl"
      using one False z(1) by (auto simp: ingest_block_def canonical_and_id Let_def inserted_view)
    have "c = b" if "m ?i = Some c" for c
      using that "2.prems"(3,4,5,6) by (intro inj_onD [of "bid env" S]) (auto simp: named_def ran_def)
    then have "map_le (spec_add ?i b ?bl |` (- L)) (spec_add ?i b m)"
      by (intro spec_add_le "2.prems"(7)) (use kept in simp_all)
    then show ?thesis using fb z(2) by (auto simp: stands_for_def dom_spec_add)
  qed
  then obtain r m' where r: "resolve_block env rv fb = Inr r" "stands_for env b r" "after m [r] = m'" "refs_ok (dom m) [r]"
    "map_le (cs_blocks (ho_store ho1) |` (- L)) m'" "dom m \<union> {?i} = dom m'" by blast
  have all2: "list_all2 (stands_for env) [b] [r]" using r(2) by simp
  have m': "named (en_blake3 env) m'" "ran m' \<subseteq> S"
    using after_named [OF all2 "2.prems"(6)] after_ran [OF all2, of m] "2.prems"(4,5) r(3) by auto
  obtain rs where rs: "map (resolve_block env rv) fbs1 = map Inr rs" "list_all2 (stands_for env) bs rs" "refs_ok (dom m') rs"
    "map_le (cs_blocks (ho_store ho') |` (- L)) (after m' rs)"
    "sh' = sh1\<lparr>sh_ids := sh_ids sh1 @ map (bid env) bs, sh_root := root_over (en_blake3 env) (sh_root sh1) (map (bid env) bs)\<rparr>"
    using "2.hyps" [OF one [symmetric] codec _ "2.prems"(3) _ m'(2,1) r(5) _ rest(1)] "2.prems"(2,4,8) by auto
  have "after m (r # rs) = after m' rs" "refs_ok (dom m) (r # rs)"
    using r(3,4,6) rs(3) r(2) by (cases r; auto simp: stands_for_def)+
  then show ?case using r rs by (intro exI [of _ "r # rs"]) (auto simp: rest(2) sh1 root_over_def)
qed

lemma ingest_simulated:
  assumes "same_codec env sh rv" "\<forall>b \<in> set bs. payload_ok b" "inj_on (bid env) S" "set bs \<subseteq> S" "ran m \<subseteq> S" "named (en_blake3 env) m"
    "map_le (cs_blocks (ho_store ho)) m" "ingest_blocks env outs bs (sh, ho) = (fbs, sh', ho')"
  shows "\<exists>rs. map (resolve_block env rv) fbs = map Inr rs \<and> list_all2 (stands_for env) bs rs \<and> refs_ok (dom m) rs \<and>
    map_le (cs_blocks (ho_store ho')) (after m rs) \<and>
    sh' = sh\<lparr>sh_ids := sh_ids sh @ map (bid env) bs, sh_root := root_over (en_blake3 env) (sh_root sh) (map (bid env) bs)\<rparr>"
proof -
  have all: "f |` (- {}) = f" for f :: "bytes \<rightharpoonup> dlr_block" by (simp add: restrict_map_def)
  have le: "map_le (cs_blocks (ho_store ho) |` (- {})) m" unfolding all by (rule assms(7))
  show ?thesis using ingest_simulated_but [OF assms(1-6) le Int_empty_right assms(8)] unfolding all .
qed

text \<open>A shim and a receiver that agree: nothing is outstanding, and the receiver has what the shim has.\<close>

definition in_sync :: "('e, 'd) dlr_env \<Rightarrow> session_shim \<Rightarrow> shim_host \<Rightarrow> receiver \<Rightarrow> bool" where
  "in_sync env sh ho rv \<longleftrightarrow>
     (let sid = sh_session_id sh; store = rv_store rv
      in same_codec env sh rv \<and> st_pending (session_entry sid rv) = {} \<and> sh_base_root sh = sh_root sh \<and>
         session_ids sid store = sh_ids sh \<and> session_root sid store = sh_root sh \<and> set (sh_ids sh) \<subseteq> dom (cs_blocks store) \<and>
         named (en_blake3 env) (cs_blocks store) \<and> map_le (cs_blocks (ho_store ho)) (cs_blocks store) \<and>
         (rv_sessions rv sid = None \<longrightarrow> sh_ids sh = []))"

lemma reconstruct_ids: "reconstruct sid s = List.map_filter (cs_blocks s) (session_ids sid s)"
  by (simp add: reconstruct_def session_ids_def blocks_of_def List.map_filter_simps split: option.split)

lemma map_filter_append: "List.map_filter f (xs @ ys) = List.map_filter f xs @ List.map_filter f ys"
  by (simp add: List.map_filter_def)

lemma map_filter_all: "\<forall>x \<in> set xs. f x = Some (g x) \<Longrightarrow> List.map_filter f xs = map g xs"
  by (induction xs) (simp_all add: List.map_filter_simps)

lemma map_filter_cong: "\<forall>x \<in> set xs. f x = g x \<Longrightarrow> List.map_filter f xs = List.map_filter g xs"
  by (induction xs) (simp_all add: List.map_filter_simps split: option.split)

lemma target_root: "foldl (\<lambda>root r. append_root blake3 root (resolved_id r)) base rs = root_over blake3 base (map resolved_id rs)"
  by (induction rs arbitrary: base) (simp_all add: root_over_def)

lemma entry_put [simp]: "session_entry sid' (put_session sid st rv) = (if sid' = sid then st else session_entry sid' rv)"
  "rv_store (put_session sid st rv) = rv_store rv" "rv_compressor (put_session sid st rv) = rv_compressor rv"
  "session_entry sid (rv\<lparr>rv_store := store\<rparr>) = session_entry sid rv"
  by (auto simp: session_entry_def put_session_def)

text \<open>A frame whose references are available, on the root that the receiver has, is applied.\<close>

lemma append_applied:
  assumes "map (resolve_block env rv) (ap_blocks f) = map Inr rs" "refs_ok (dom (cs_blocks (rv_store rv))) rs"
    "st_pending (session_entry (ap_session_id f) rv) = {}" "ap_base_root f = session_root (ap_session_id f) (rv_store rv)"
  defines "sid \<equiv> ap_session_id f"
  shows "\<exists>store'. handle_append env outs f rv =
      (Inr \<lparr>ak_session_id = sid, ak_root = session_root sid store'\<rparr>, (put_session sid (session_entry sid rv) rv)\<lparr>rv_store := store'\<rparr>) \<and>
    cs_blocks store' = after (cs_blocks (rv_store rv)) rs \<and>
    (\<forall>sid'. session_ids sid' store' = (if sid' = sid then session_ids sid (rv_store rv) @ map resolved_id rs else session_ids sid' (rv_store rv))) \<and>
    (\<forall>sid'. session_root sid' store' = (if sid' = sid then root_over (en_blake3 env) (session_root sid (rv_store rv)) (map resolved_id rs) else session_root sid' (rv_store rv)))"
proof -
  have "collect_results (map (resolve_block env rv) (ap_blocks f)) = Inr rs" using assms(1) by (simp add: collect_results_Inr)
  moreover have "refs_available (rv_store rv) {} rs" using assms(2) by (simp add: refs_available_ok)
  moreover obtain s' where s': "apply_resolved (en_blake3 env) outs sid rs (rv_store rv) = (True, s')" "cs_blocks s' = after (cs_blocks (rv_store rv)) rs"
    "\<forall>sid'. session_ids sid' s' = (if sid' = sid then session_ids sid (rv_store rv) @ map resolved_id rs else session_ids sid' (rv_store rv))"
    "\<forall>sid'. session_root sid' s' = (if sid' = sid then root_over (en_blake3 env) (session_root sid (rv_store rv)) (map resolved_id rs) else session_root sid' (rv_store rv))"
    using apply_resolved_ok [OF assms(2), of "en_blake3 env" outs sid] by blast
  ultimately have "handle_append env outs f rv =
      (Inr \<lparr>ak_session_id = sid, ak_root = session_root sid s'\<rparr>, (put_session sid (session_entry sid rv) rv)\<lparr>rv_store := s'\<rparr>)"
    using assms(3,4) by (simp add: handle_append_def Let_def sid_def)
  then show ?thesis using s' by (intro exI [of _ s']) blast
qed

text \<open>The same for a frame that stands for the blocks \<open>bs\<close>: the log of its session goes on with them.\<close>

lemma frame_applied:
  assumes rs: "map (resolve_block env rv) (ap_blocks f) = map Inr rs" "list_all2 (stands_for env) bs rs" "refs_ok (dom (cs_blocks (rv_store rv))) rs"
    and inj: "inj_on (bid env) (set bs \<union> ran (cs_blocks (rv_store rv)))" and named: "named (en_blake3 env) (cs_blocks (rv_store rv))"
    and sid: "ap_session_id f = sid" and idle: "st_pending (session_entry sid rv) = {}" and base: "ap_base_root f = session_root sid (rv_store rv)"
    and log: "set (session_ids sid (rv_store rv)) \<subseteq> dom (cs_blocks (rv_store rv))" "rv_sessions rv sid = None \<Longrightarrow> session_ids sid (rv_store rv) = []"
  defines "m \<equiv> cs_blocks (rv_store rv)"
  shows "\<exists>store' rv'. handle_append env outs f rv = (Inr \<lparr>ak_session_id = sid, ak_root = session_root sid store'\<rparr>, rv') \<and>
    rv' = (put_session sid (session_entry sid rv) rv)\<lparr>rv_store := store'\<rparr> \<and> cs_blocks store' = after m rs \<and> bid env ` set bs \<subseteq> dom (after m rs) \<and>
    session_ids sid store' = session_ids sid (rv_store rv) @ map (bid env) bs \<and>
    session_root sid store' = root_over (en_blake3 env) (session_root sid (rv_store rv)) (map (bid env) bs) \<and>
    receiver_reconstruct sid rv' = receiver_reconstruct sid rv @ bs"
proof -
  have ids: "map resolved_id rs = map (bid env) bs" by (rule stands_for_ids [OF rs(2)])
  obtain store' where st: "handle_append env outs f rv = (Inr \<lparr>ak_session_id = sid, ak_root = session_root sid store'\<rparr>, (put_session sid (session_entry sid rv) rv)\<lparr>rv_store := store'\<rparr>)"
    "cs_blocks store' = after m rs" "session_ids sid store' = session_ids sid (rv_store rv) @ map (bid env) bs"
    "session_root sid store' = root_over (en_blake3 env) (session_root sid (rv_store rv)) (map (bid env) bs)"
    using append_applied [of env rv f rs outs] rs(1,3) idle base ids by (auto simp: sid m_def)
  let ?rv = "(put_session sid (session_entry sid rv) rv)\<lparr>rv_store := store'\<rparr>"
  have dom: "bid env ` set bs \<subseteq> dom (after m rs)"
  proof -
    have "resolved_id ` set rs = bid env ` set bs" using ids by (metis set_map)
    then show ?thesis using dom_after_refs [OF rs(3)] by (simp add: m_def)
  qed
  have blocks: "after m rs (bid env b) = Some b" if b: "b \<in> set bs" for b
  proof -
    obtain c where c: "after m rs (bid env b) = Some c" using dom b by blast
    then have "c \<in> set bs \<union> ran m" "bid env c = bid env b"
      using after_ran [OF rs(2), of m] after_named [OF rs(2) named] by (auto simp: ran_def named_def m_def)
    then show ?thesis using inj_onD [OF inj] b c by (auto simp: m_def)
  qed
  have "List.map_filter (after m rs) (session_ids sid (rv_store rv)) = List.map_filter m (session_ids sid (rv_store rv))"
  proof (rule map_filter_cong, rule ballI)
    fix i assume "i \<in> set (session_ids sid (rv_store rv))"
    then obtain b where "m i = Some b" using log(1) by (auto simp: m_def)
    then show "after m rs i = m i" by (simp add: after_keeps)
  qed
  moreover have "List.map_filter (after m rs) (map (bid env) bs) = bs"
    using map_filter_all [of bs "\<lambda>b. after m rs (bid env b)" id] blocks by (simp add: List.map_filter_def comp_def filter_map)
  ultimately have "reconstruct sid store' = reconstruct sid (rv_store rv) @ bs" using st(2,3) by (simp add: reconstruct_ids map_filter_append m_def)
  then have "receiver_reconstruct sid ?rv = receiver_reconstruct sid rv @ bs"
    using log(2) by (auto simp: receiver_reconstruct_def put_session_def reconstruct_ids List.map_filter_simps)
  then show ?thesis using st dom by (intro exI [of _ store'] exI [of _ ?rv]) simp
qed

lemma turn_applied:
  assumes sync: "in_sync env sh ho rv" and ok: "\<forall>b \<in> set bs. payload_ok b" and inj: "inj_on (bid env) (set bs \<union> ran (cs_blocks (rv_store rv)))"
    and turn: "ingest_turn env outs bs (sh, ho) = (f, sh', ho')"
  shows "\<exists>ack rv' sh''. handle_append env outs' f rv = (Inr ack, rv') \<and> apply_ack (en_blake3 env) (ak_root ack) sh' = (True, sh'') \<and>
    in_sync env sh'' ho' rv' \<and> sh_session_id sh'' = sh_session_id sh \<and> ran (cs_blocks (rv_store rv')) \<subseteq> set bs \<union> ran (cs_blocks (rv_store rv)) \<and>
    sh_ids sh'' = sh_ids sh @ map (bid env) bs \<and>
    receiver_reconstruct (sh_session_id sh) rv' = receiver_reconstruct (sh_session_id sh) rv @ bs"
proof -
  let ?sid = "sh_session_id sh" and ?m = "cs_blocks (rv_store rv)" and ?h = "en_blake3 env"
  have s: "same_codec env sh rv" "st_pending (session_entry ?sid rv) = {}" "sh_base_root sh = sh_root sh" "session_ids ?sid (rv_store rv) = sh_ids sh"
    "session_root ?sid (rv_store rv) = sh_root sh" "set (sh_ids sh) \<subseteq> dom ?m" "named ?h ?m" "map_le (cs_blocks (ho_store ho)) ?m"
    "rv_sessions rv ?sid = None \<Longrightarrow> sh_ids sh = []"
    using sync by (simp_all add: in_sync_def Let_def)
  obtain fbs where ing: "ingest_blocks env outs bs (sh, ho) = (fbs, sh', ho')" and f: "f = \<lparr>ap_session_id = sh_session_id sh', ap_base_root = sh_base_root sh', ap_blocks = fbs\<rparr>"
    using turn by (auto simp: ingest_turn_def split: prod.splits)
  obtain rs where rs: "map (resolve_block env rv) fbs = map Inr rs" "list_all2 (stands_for env) bs rs" "refs_ok (dom ?m) rs" "map_le (cs_blocks (ho_store ho')) (after ?m rs)"
    "sh' = sh\<lparr>sh_ids := sh_ids sh @ map (bid env) bs, sh_root := root_over ?h (sh_root sh) (map (bid env) bs)\<rparr>"
    using ingest_simulated [OF s(1) ok inj _ _ s(7,8) ing] by auto
  have frame: "map (resolve_block env rv) (ap_blocks f) = map Inr rs" "ap_session_id f = ?sid" "ap_base_root f = session_root ?sid (rv_store rv)"
    "set (session_ids ?sid (rv_store rv)) \<subseteq> dom ?m" "rv_sessions rv ?sid = None \<Longrightarrow> session_ids ?sid (rv_store rv) = []"
    using s(3-6,9) rs(1) by (simp_all add: f rs(5))
  obtain store' rv' where st: "handle_append env outs' f rv = (Inr \<lparr>ak_session_id = ?sid, ak_root = session_root ?sid store'\<rparr>, rv')"
    "rv' = (put_session ?sid (session_entry ?sid rv) rv)\<lparr>rv_store := store'\<rparr>"
    "cs_blocks store' = after ?m rs" "bid env ` set bs \<subseteq> dom (after ?m rs)" "session_ids ?sid store' = sh_ids sh @ map (bid env) bs"
    "session_root ?sid store' = root_over ?h (sh_root sh) (map (bid env) bs)" "receiver_reconstruct ?sid rv' = receiver_reconstruct ?sid rv @ bs"
    using frame_applied [OF frame(1) rs(2,3) inj s(7) frame(2) s(2) frame(3-5), of outs'] s(4,5) by auto
  let ?sh = "sh'\<lparr>sh_base_root := sh_root sh', sh_base_len := length (sh_ids sh')\<rparr>"
  have ack: "apply_ack ?h (session_root ?sid store') sh' = (True, ?sh)" by (simp add: apply_ack_def st(6) rs(5))
  have "set (sh_ids sh) \<subseteq> dom (after ?m rs)" using s(6) dom_after [of ?m rs] by blast
  moreover have "rv_sessions rv' ?sid = Some (session_entry ?sid rv)" by (simp add: st(2) put_session_def)
  ultimately have sync': "in_sync env ?sh ho' rv'"
    using s rs(4) st after_named [OF rs(2) s(7)] unfolding in_sync_def Let_def same_codec_def by (simp add: rs(5))
  show ?thesis using st ack sync' after_ran [OF rs(2), of ?m] by (auto simp: rs(5))
qed

lemma resolve_block_cong: "rv_compressor rv' = rv_compressor rv \<Longrightarrow> resolve_block env rv' = resolve_block env rv"
  by (simp add: resolve_block_def fun_eq_iff split: frame_block.split)

lemma put_entry: "rv_sessions rv sid = Some st \<Longrightarrow> put_session sid (session_entry sid rv) rv = rv"
  by (simp add: put_session_def session_entry_def fun_upd_idem)

text \<open>What an accepted frame went through.\<close>

lemma append_accepted:
  assumes "handle_append env outs f rv = (Inr ack, rv')"
  obtains rs where "map (resolve_block env rv) (ap_blocks f) = map Inr rs" "refs_ok (dom (cs_blocks (rv_store rv))) rs"
    "st_pending (session_entry (ap_session_id f) rv) = {}"
    "ap_base_root f \<noteq> session_root (ap_session_id f) (rv_store rv) \<Longrightarrow>
       root_over (en_blake3 env) (ap_base_root f) (map resolved_id rs) = session_root (ap_session_id f) (rv_store rv) \<and>
       ack = \<lparr>ak_session_id = ap_session_id f, ak_root = session_root (ap_session_id f) (rv_store rv)\<rparr> \<and>
       rv' = put_session (ap_session_id f) (session_entry (ap_session_id f) rv) rv"
proof (cases "collect_results (map (resolve_block env rv) (ap_blocks f))")
  case (Inl e)
  then show thesis using assms by (simp add: handle_append_def)
next
  case (Inr rs)
  then have rs: "map (resolve_block env rv) (ap_blocks f) = map Inr rs" by (simp add: collect_results_Inr)
  have "refs_available (rv_store rv) {} rs" "st_pending (session_entry (ap_session_id f) rv) = {}"
    using assms Inr by (auto simp: handle_append_def Let_def split: if_splits)
  then show thesis using that [OF rs] assms Inr by (auto simp: handle_append_def Let_def refs_available_ok target_root split: if_splits)
qed

lemma replay_matches:
  assumes "map (resolve_block env rv) (ap_blocks f) = map Inr rs" "refs_ok (dom (cs_blocks (rv_store rv))) rs" "rv_sessions rv (ap_session_id f) = Some st"
    "st_pending st = {}" "ap_base_root f \<noteq> session_root (ap_session_id f) (rv_store rv)"
    "root_over (en_blake3 env) (ap_base_root f) (map resolved_id rs) = session_root (ap_session_id f) (rv_store rv)"
  shows "handle_append env outs f rv = (Inr \<lparr>ak_session_id = ap_session_id f, ak_root = session_root (ap_session_id f) (rv_store rv)\<rparr>, rv)"
proof -
  have "collect_results (map (resolve_block env rv) (ap_blocks f)) = Inr rs" using assms(1) by (simp add: collect_results_Inr)
  moreover have "refs_available (rv_store rv) {} rs" using assms(2) by (simp add: refs_available_ok)
  moreover have "session_entry (ap_session_id f) rv = st" using assms(3) by (simp add: session_entry_def)
  moreover have "put_session (ap_session_id f) st rv = rv" using put_entry [OF assms(3)] calculation(3) by simp
  ultimately show ?thesis using assms(4,5,6) by (simp add: handle_append_def Let_def target_root)
qed

lemma append_replayed:
  assumes first: "handle_append env outs f rv = (Inr ack, rv')" and moves: "ap_blocks f \<noteq> [] \<Longrightarrow> ak_root ack \<noteq> ap_base_root f"
  shows "handle_append env outs' f rv' = (Inr ack, rv')"
proof -
  let ?sid = "ap_session_id f" and ?st = "session_entry (ap_session_id f) rv"
  from append_accepted [OF first] obtain rs where rs: "map (resolve_block env rv) (ap_blocks f) = map Inr rs" "refs_ok (dom (cs_blocks (rv_store rv))) rs"
    "st_pending ?st = {}" and behind: "ap_base_root f \<noteq> session_root ?sid (rv_store rv) \<Longrightarrow>
       root_over (en_blake3 env) (ap_base_root f) (map resolved_id rs) = session_root ?sid (rv_store rv) \<and>
       ack = \<lparr>ak_session_id = ?sid, ak_root = session_root ?sid (rv_store rv)\<rparr> \<and> rv' = put_session ?sid ?st rv" by blast
  have put: "rv_sessions (put_session ?sid ?st r) ?sid = Some ?st" for r by (simp add: put_session_def)
  show ?thesis
  proof (cases "ap_base_root f = session_root ?sid (rv_store rv)")
    case False
    then show ?thesis using behind [OF False] rs put replay_matches [of env rv' f rs ?st outs'] resolve_block_cong [of rv' rv env] by auto
  next
    case True
    obtain store' where st: "ack = \<lparr>ak_session_id = ?sid, ak_root = session_root ?sid store'\<rparr>" "rv' = (put_session ?sid ?st rv)\<lparr>rv_store := store'\<rparr>"
      "cs_blocks store' = after (cs_blocks (rv_store rv)) rs" "session_root ?sid store' = root_over (en_blake3 env) (ap_base_root f) (map resolved_id rs)"
      using append_applied [OF rs True, of outs] first True by auto
    have again: "map (resolve_block env rv') (ap_blocks f) = map Inr rs" "refs_ok (dom (cs_blocks (rv_store rv'))) rs" "rv_sessions rv' ?sid = Some ?st"
      using rs resolve_block_cong [of rv' rv env] refs_ok_mono [OF rs(2) dom_after] put [of rv] by (simp_all add: st(2,3))
    show ?thesis
    proof (cases "ap_blocks f = []")
      case True
      then have "rs = []" using rs(1) by simp
      then show ?thesis using True \<open>ap_base_root f = _\<close> again rs(3) put_entry [OF again(3)] st(1,2,4)
        by (simp add: handle_append_def Let_def session_entry_def root_over_def)
    next
      case False
      then have "ap_base_root f \<noteq> session_root ?sid (rv_store rv')" using moves st(1,2) by auto
      from replay_matches [OF again rs(3) this, of outs'] show ?thesis using st by simp
    qed
  qed
qed

text \<open>A refused frame; it may have registered its session, with nothing in it.\<close>

lemma append_rejected:
  assumes "handle_append env outs f rv = (Inl e, rv')"
  defines "sid \<equiv> ap_session_id f"
  shows "rv' = rv \<or> rv_sessions rv sid = None \<and> (\<exists>base cur. e = Base_Root_Mismatch sid base cur) \<and>
    rv' = rv\<lparr>rv_sessions := (rv_sessions rv)(sid \<mapsto> state_new)\<rparr>"
proof (cases "collect_results (map (resolve_block env rv) (ap_blocks f))")
  case (Inl e)
  then show ?thesis using assms by (simp add: handle_append_def)
next
  case (Inr rs)
  show ?thesis
  proof (cases "refs_available (rv_store rv) {} rs")
    case True
    then have "\<exists>s'. apply_resolved (en_blake3 env) outs sid rs (rv_store rv) = (True, s')"
      using apply_resolved_ok [of "rv_store rv" rs "en_blake3 env" outs sid] by (auto simp: refs_available_ok)
    then have put: "rv' = put_session sid (session_entry sid rv) rv"
      "st_pending (session_entry sid rv) = {} \<Longrightarrow> \<exists>base cur. e = Base_Root_Mismatch sid base cur"
      using assms(1) Inr True by (auto simp: handle_append_def Let_def sid_def split: if_splits)
    show ?thesis
    proof (cases "rv_sessions rv sid")
      case None
      then have "session_entry sid rv = state_new" by (simp add: session_entry_def)
      then show ?thesis using None put by (simp add: put_session_def state_new_def)
    qed (use put(1) put_entry in blast)
  next
    case False
    then show ?thesis using assms Inr by (simp add: handle_append_def)
  qed
qed

section \<open>Sessions\<close>

text \<open>One turn, end to end: the frame goes out, its acknowledgement comes back. \<open>None\<close> is a frame or an acknowledgement that was refused.\<close>

definition exchange ::
    "('e, 'd) dlr_env \<Rightarrow> write_outcome list \<Rightarrow> dlr_block list \<Rightarrow> session_shim \<times> shim_host \<times> receiver \<Rightarrow> (session_shim \<times> shim_host \<times> receiver) option" where
  "exchange env outs bs st =
     (case st of (sh, ho, rv) \<Rightarrow>
        (case ingest_turn env outs bs (sh, ho) of (f, sh, ho) \<Rightarrow>
           (case handle_append env outs f rv of
              (Inl _, _) \<Rightarrow> None
            | (Inr ack, rv) \<Rightarrow> (case apply_ack (en_blake3 env) (ak_root ack) sh of (ok, sh) \<Rightarrow> if ok then Some (sh, ho, rv) else None))))"

fun exchange_all ::
    "('e, 'd) dlr_env \<Rightarrow> (write_outcome list \<times> dlr_block list) list \<Rightarrow> session_shim \<times> shim_host \<times> receiver \<Rightarrow> (session_shim \<times> shim_host \<times> receiver) option" where
  "exchange_all env [] st = Some st"
| "exchange_all env ((outs, bs) # turns) st = (case exchange env outs bs st of None \<Rightarrow> None | Some st \<Rightarrow> exchange_all env turns st)"

lemma in_sync_new:
  assumes "zstd_ok (en_zstd env) {append_level, cp_level c} (dc_content (cp_dict c))"
  shows "in_sync env (shim_new sid c) (host_new store_new) (receiver_new store_new c)"
  using assms
  by (simp add: in_sync_def same_codec_def shim_new_def host_new_def receiver_new_def store_new_def session_entry_def state_new_def
      session_ids_def session_root_def named_def with_level_def Let_def)

lemma exchange_turn:
  assumes "in_sync env sh ho rv" "\<forall>b \<in> set bs. payload_ok b" "inj_on (bid env) (set bs \<union> ran (cs_blocks (rv_store rv)))"
  shows "\<exists>sh' ho' rv'. exchange env outs bs (sh, ho, rv) = Some (sh', ho', rv') \<and> in_sync env sh' ho' rv' \<and> sh_session_id sh' = sh_session_id sh \<and>
    ran (cs_blocks (rv_store rv')) \<subseteq> set bs \<union> ran (cs_blocks (rv_store rv)) \<and> sh_ids sh' = sh_ids sh @ map (bid env) bs \<and>
    receiver_reconstruct (sh_session_id sh) rv' = receiver_reconstruct (sh_session_id sh) rv @ bs"
proof -
  obtain f sh1 ho1 where "ingest_turn env outs bs (sh, ho) = (f, sh1, ho1)" using prod_cases3 by blast
  with turn_applied [OF assms this, of outs] show ?thesis by (fastforce simp: exchange_def)
qed

lemma exchange_turns:
  assumes "in_sync env sh ho rv" "\<forall>b \<in> \<Union> (set ` snd ` set turns). payload_ok b"
    "inj_on (bid env) (\<Union> (set ` snd ` set turns) \<union> ran (cs_blocks (rv_store rv)))"
  shows "\<exists>sh' ho' rv'. exchange_all env turns (sh, ho, rv) = Some (sh', ho', rv') \<and> in_sync env sh' ho' rv' \<and>
    sh_session_id sh' = sh_session_id sh \<and> sh_ids sh' = sh_ids sh @ map (bid env) (concat (map snd turns)) \<and>
    receiver_reconstruct (sh_session_id sh) rv' = receiver_reconstruct (sh_session_id sh) rv @ concat (map snd turns)"
  using assms
proof (induction turns arbitrary: sh ho rv)
  case (Cons t turns)
  obtain outs bs where t: "t = (outs, bs)" by fastforce
  have "inj_on (bid env) (set bs \<union> ran (cs_blocks (rv_store rv)))" by (rule inj_on_subset [OF Cons.prems(3)]) (auto simp: t)
  then obtain sh1 ho1 rv1 where one: "exchange env outs bs (sh, ho, rv) = Some (sh1, ho1, rv1)" "in_sync env sh1 ho1 rv1"
    "sh_session_id sh1 = sh_session_id sh" "ran (cs_blocks (rv_store rv1)) \<subseteq> set bs \<union> ran (cs_blocks (rv_store rv))"
    "sh_ids sh1 = sh_ids sh @ map (bid env) bs" "receiver_reconstruct (sh_session_id sh) rv1 = receiver_reconstruct (sh_session_id sh) rv @ bs"
    using exchange_turn [OF Cons.prems(1), of bs outs] Cons.prems(2) t by auto
  have "inj_on (bid env) (\<Union> (set ` snd ` set turns) \<union> ran (cs_blocks (rv_store rv1)))"
    by (rule inj_on_subset [OF Cons.prems(3)]) (use one(4) in \<open>auto simp: t\<close>)
  from Cons.IH [OF one(2) _ this] Cons.prems(2) show ?case using one by (auto simp: t)
qed simp

text \<open>
  C28: a session on a connection that loses nothing is replicated. From a shim and a receiver in step (a fresh pair is, lemma
  \<open>in_sync_new\<close>), every turn of any sequence is accepted and acknowledged, the two ends are in step again, with the same root, and the
  receiver reconstructs the blocks it had followed by the blocks of the turns, in order and with their payloads; the blocks travel
  compressed or as references, as the filter and the store of the shim decide. zstd is assumed to decompress what it compressed, payloads to be at most 1 GiB, and
  the blocks involved not to collide under BLAKE3.
\<close>

theorem session_replicated:
  assumes "in_sync env sh ho rv" "\<forall>b \<in> \<Union> (set ` snd ` set turns). payload_ok b"
    "inj_on (block_block_id (en_blake3 env)) (\<Union> (set ` snd ` set turns) \<union> ran (cs_blocks (rv_store rv)))"
  shows "\<exists>sh' ho' rv'. exchange_all env turns (sh, ho, rv) = Some (sh', ho', rv') \<and> in_sync env sh' ho' rv' \<and>
    receiver_reconstruct (sh_session_id sh) rv' = receiver_reconstruct (sh_session_id sh) rv @ concat (map snd turns) \<and>
    session_root (sh_session_id sh) (rv_store rv') = sh_root sh' \<and>
    sh_ids sh' = sh_ids sh @ map (block_block_id (en_blake3 env)) (concat (map snd turns))"
proof -
  from exchange_turns [OF assms] obtain sh' ho' rv' where r: "exchange_all env turns (sh, ho, rv) = Some (sh', ho', rv')" "in_sync env sh' ho' rv'"
    "sh_session_id sh' = sh_session_id sh" "sh_ids sh' = sh_ids sh @ map (bid env) (concat (map snd turns))"
    "receiver_reconstruct (sh_session_id sh) rv' = receiver_reconstruct (sh_session_id sh) rv @ concat (map snd turns)" by blast
  have "session_root (sh_session_id sh) (rv_store rv') = sh_root sh'" using r(2,3) by (simp add: in_sync_def Let_def)
  with r show ?thesis by blast
qed

definition dlr_demo :: "(unit, unit) dlr_env" where
  "dlr_demo = \<lparr>en_blake3 = (\<lambda>x. x), en_xxh3 = (\<lambda>_. 7), en_zstd = demo_zstd, en_simd = NoSimd,
     en_soliton = (\<lambda>_ _. 1), en_repair = (\<lambda>_ _. 0)\<rparr>"

abbreviation "demo_shim \<equiv> shim_new 1 compressor_default"
abbreviation "demo_host \<equiv> host_new store_new"
abbreviation "demo_receiver \<equiv> receiver_new store_new compressor_default"

lemma demo_in_sync: "in_sync dlr_demo demo_shim demo_host demo_receiver"
  by (rule in_sync_new) (simp add: dlr_demo_def demo_zstd_ok)

lemma demo_id: "block_block_id (en_blake3 dlr_demo) b = canonical_bytes b"
  by (simp add: dlr_demo_def block_block_id_def canonical_into_def canonical_header_def canonical_bytes_def hasher_finalize_def)

lemma demo_inj: "inj_on (block_block_id (en_blake3 dlr_demo)) (Collect payload_ok)"
proof (rule inj_onI)
  fix b c assume "b \<in> Collect payload_ok" "c \<in> Collect payload_ok" "block_block_id (en_blake3 dlr_demo) b = block_block_id (en_blake3 dlr_demo) c"
  then show "b = c" using from_canonical_bytes [of b "[]"] from_canonical_bytes [of c "[]"] by (simp add: demo_id)
qed

lemma demo_payloads: "payload_ok demo_block" "payload_ok (block_new Message 1 [])" "payload_ok (block_new Message 2 [])"
  by (simp_all add: payload_ok_def demo_block_def block_new_def)

lemma demo_start: "cs_blocks (rv_store demo_receiver) = Map.empty" "sh_session_id demo_shim = 1" "receiver_reconstruct sid demo_receiver = []" "sh_ids demo_shim = []"
  "session_root sid (rv_store demo_receiver) = root_zero" "st_pending (session_entry sid demo_receiver) = {}"
  by (simp_all add: receiver_new_def store_new_def shim_new_def receiver_reconstruct_def session_root_def session_entry_def state_new_def)

theorem session_replicated_witness:
  "\<exists>sh' ho' rv'. exchange_all dlr_demo [([], [demo_block, demo_block]), ([], [block_new Message 1 [], demo_block])] (demo_shim, demo_host, demo_receiver)
       = Some (sh', ho', rv') \<and> receiver_reconstruct 1 rv' = [demo_block, demo_block, block_new Message 1 [], demo_block]"
  using session_replicated [OF demo_in_sync, of "[([], [demo_block, demo_block]), ([], [block_new Message 1 [], demo_block])]"]
    inj_on_subset [OF demo_inj, of "{demo_block, block_new Message 1 []}"] demo_payloads
  by (auto simp: demo_start insert_commute)

text \<open>
  C29: an append frame can be sent again. When a frame was accepted and its acknowledgement was lost, sending it again is answered with the
  same acknowledgement and changes nothing at the receiver: no block is appended twice, whatever happened to the writes of its log.
  Where the frame has blocks it must have moved the root, which a hash without a cycle does.
\<close>

theorem replayed_append_acknowledged:
  assumes "handle_append env outs f rv = (Inr ack, rv')" "ap_blocks f \<noteq> [] \<Longrightarrow> ak_root ack \<noteq> ap_base_root f"
  shows "handle_append env outs' f rv' = (Inr ack, rv')"
  by (rule append_replayed [OF assms])

definition demo_first :: append_frame where
  "demo_first = \<lparr>ap_session_id = 1, ap_base_root = root_zero, ap_blocks = [Inline (demo_block\<lparr>bk_payload := 0 # canonical_bytes demo_block\<rparr>)]\<rparr>"

lemma demo_resolves: "map (resolve_block dlr_demo demo_receiver) (ap_blocks demo_first) = map Inr [RInline (canonical_bytes demo_block) demo_block]"
  using owned_canonical [OF demo_payloads(1), of "en_blake3 dlr_demo"]
  by (simp add: demo_first_def resolve_block_def decompress_block_def decompress_with_def demo_id)

lemma demo_accepted:
  "\<exists>ack rv'. handle_append dlr_demo [] demo_first demo_receiver = (Inr ack, rv') \<and> ak_root ack = root_zero @ canonical_bytes demo_block"
  using append_applied [OF demo_resolves, of "[]"]
  by (auto simp: demo_first_def demo_start root_over_def append_root_def) (auto simp: dlr_demo_def)

theorem replayed_append_acknowledged_witness:
  "\<exists>ack rv'. handle_append dlr_demo [] demo_first demo_receiver = (Inr ack, rv') \<and> handle_append dlr_demo [] demo_first rv' = (Inr ack, rv')"
proof -
  obtain ack rv' where a: "handle_append dlr_demo [] demo_first demo_receiver = (Inr ack, rv')" "ak_root ack = root_zero @ canonical_bytes demo_block"
    using demo_accepted by blast
  have "ak_root ack \<noteq> ap_base_root demo_first" by (simp add: a(2) demo_first_def canonical_bytes_def)
  from replayed_append_acknowledged [OF a(1) this, of "[]"] a(1) show ?thesis by blast
qed

text \<open>
  C30: a frame that is refused, for whatever reason and at whatever block, stores nothing and appends nothing: the receiver is as it was, with one exception. A frame for
  a session that the receiver does not know and that is refused for its base root leaves that session registered, with no blocks outstanding and no
  decoders, so that the receiver answers for it from then on instead of not knowing it. Sessions that it knows are untouched.
\<close>

theorem refused_append_keeps_store:
  assumes "handle_append env outs f rv = (Inl e, rv')"
  shows "rv' = rv \<or>
    rv_sessions rv (ap_session_id f) = None \<and> (\<exists>base cur. e = Base_Root_Mismatch (ap_session_id f) base cur) \<and>
    rv' = rv\<lparr>rv_sessions := (rv_sessions rv)(ap_session_id f \<mapsto> state_new)\<rparr>"
  by (rule append_rejected [OF assms])

text \<open>A reference to an unknown block behind a good one changes nothing; a foreign base root registers the session.\<close>

theorem refused_append_keeps_store_witness:
  "handle_append dlr_demo [] \<lparr>ap_session_id = 1, ap_base_root = root_zero, ap_blocks = ap_blocks demo_first @ [Ref []]\<rparr> demo_receiver
       = (Inl Rv_Missing_Ref, demo_receiver)
   \<and> (\<exists>rv'. handle_append dlr_demo [] \<lparr>ap_session_id = 1, ap_base_root = [1], ap_blocks = []\<rparr> demo_receiver
         = (Inl (Base_Root_Mismatch 1 [1] root_zero), rv') \<and>
       receiver_pointer 1 demo_receiver = None \<and> receiver_pointer 1 rv' \<noteq> None \<and> rv_store rv' = store_new)"
proof -
  let ?f = "\<lparr>ap_session_id = 1, ap_base_root = root_zero, ap_blocks = ap_blocks demo_first @ [Ref []]\<rparr>"
  let ?g = "\<lparr>ap_session_id = 1, ap_base_root = [1], ap_blocks = []\<rparr>"
  have "collect_results (map (resolve_block dlr_demo demo_receiver) (ap_blocks ?f)) = Inr [RInline (canonical_bytes demo_block) demo_block, RRef []]"
    using demo_resolves by (simp add: collect_results_Inr resolve_block_def [of _ _ "Ref _"])
  then have f: "handle_append dlr_demo [] ?f demo_receiver = (Inl Rv_Missing_Ref, demo_receiver)"
    by (simp add: handle_append_def demo_start canonical_bytes_def)
  have none: "rv_sessions demo_receiver 1 = None" by (simp add: receiver_new_def store_new_def)
  define rv' where "rv' = put_session 1 (session_entry 1 demo_receiver) demo_receiver"
  have "[1] \<noteq> root_zero" by (auto simp: root_zero_def dest: arg_cong [of _ _ length])
  moreover have "collect_results [] = Inr []" using collect_results_Inr [of "[]" "[]"] by simp
  ultimately have g: "handle_append dlr_demo [] ?g demo_receiver = (Inl (Base_Root_Mismatch 1 [1] root_zero), rv')"
    by (simp add: handle_append_def demo_start rv'_def Let_def)
  have "rv_sessions rv' 1 \<noteq> None" by (simp add: rv'_def put_session_def)
  then have "rv' \<noteq> demo_receiver" using none by auto
  with refused_append_keeps_store [OF g] have "rv' = demo_receiver\<lparr>rv_sessions := (rv_sessions demo_receiver)(1 \<mapsto> state_new)\<rparr>" by simp
  then show ?thesis using f g none by (auto simp: receiver_pointer_def receiver_new_def)
qed

section \<open>A turn that is lost\<close>

lemma dom_after_bound: "dom (after m rs) \<subseteq> dom m \<union> resolved_id ` set rs"
proof (induction m rs rule: after.induct)
  case (2 m i b rs)
  then show ?case by (auto simp: dom_spec_add) 
qed auto

lemma find_prefix_root: "find_prefix blake3 acked r n ids = Some k \<Longrightarrow> \<exists>pre. prefix pre ids \<and> acked = root_over blake3 r pre"
proof (induction blake3 acked r n ids rule: find_prefix.induct)
  case (2 blake3 acked r n i ids)
  show ?case
  proof (cases "append_root blake3 r i = acked")
    case True
    then show ?thesis by (intro exI [of _ "[i]"]) (simp add: root_over_def)
  next
    case False
    with 2 obtain pre where "prefix pre ids" "acked = root_over blake3 (append_root blake3 r i) pre" by (auto simp: Let_def)
    then show ?thesis by (intro exI [of _ "i # pre"]) (simp add: root_over_def)
  qed
qed simp

text \<open>The roots that a shim takes for its own: the present one, the acknowledged one and those of the prefixes of its log.\<close>

definition own_roots :: "(bytes \<Rightarrow> bytes) \<Rightarrow> session_shim \<Rightarrow> bytes set" where
  "own_roots blake3 sh = {sh_root sh, sh_base_root sh} \<union> root_over blake3 root_zero ` {pre. prefix pre (sh_ids sh)}"

lemma apply_ack_own: "acked \<notin> own_roots blake3 sh \<Longrightarrow> apply_ack blake3 acked sh = (False, sh)"
  using find_prefix_root [of blake3 acked root_zero 0 "sh_ids sh"]
  by (cases "find_prefix blake3 acked root_zero 0 (sh_ids sh)") (auto simp: own_roots_def apply_ack_def)

text \<open>Behind a lost turn the shim has blocks that the receiver lacks; those of the turn are all that it lacks.\<close>

lemma lost_turn_frame:
  assumes sync: "in_sync env sh ho rv" and ok: "\<forall>b \<in> set bs \<union> set bs'. payload_ok b"
    and inj: "inj_on (bid env) (set bs \<union> set bs' \<union> ran (cs_blocks (rv_store rv)))"
    and known: "set bs \<inter> set bs' \<subseteq> {b. cs_blocks (rv_store rv) (bid env b) \<noteq> None}"
    and one: "ingest_turn env outs bs (sh, ho) = (f1, sh1, ho1)" and two: "ingest_turn env outs' bs' (sh1, ho1) = (f2, sh2, ho2)"
  obtains rs where "map (resolve_block env rv) (ap_blocks f2) = map Inr rs" "list_all2 (stands_for env) bs' rs" "refs_ok (dom (cs_blocks (rv_store rv))) rs"
    "ap_session_id f2 = sh_session_id sh" "ap_base_root f2 = sh_root sh" "sh_ids sh2 = sh_ids sh @ map (bid env) (bs @ bs')"
proof -
  let ?m = "cs_blocks (rv_store rv)"
  define L where "L = bid env ` set bs - dom ?m"
  have s: "same_codec env sh rv" "sh_base_root sh = sh_root sh" "named (en_blake3 env) ?m" "map_le (cs_blocks (ho_store ho)) ?m"
    using sync by (simp_all add: in_sync_def Let_def)
  obtain fbs where ing1: "ingest_blocks env outs bs (sh, ho) = (fbs, sh1, ho1)" using one by (auto simp: ingest_turn_def split: prod.splits)
  obtain fbs2 where ing2: "ingest_blocks env outs' bs' (sh1, ho1) = (fbs2, sh2, ho2)"
    and f2: "f2 = \<lparr>ap_session_id = sh_session_id sh2, ap_base_root = sh_base_root sh2, ap_blocks = fbs2\<rparr>"
    using two by (auto simp: ingest_turn_def split: prod.splits)
  obtain rs1 where rs1: "list_all2 (stands_for env) bs rs1" "map_le (cs_blocks (ho_store ho1)) (after ?m rs1)"
    "sh1 = sh\<lparr>sh_ids := sh_ids sh @ map (bid env) bs, sh_root := root_over (en_blake3 env) (sh_root sh) (map (bid env) bs)\<rparr>"
    using ingest_simulated [OF s(1) _ inj _ _ s(3,4) ing1] ok by auto
  have "resolved_id ` set rs1 = bid env ` set bs" using stands_for_ids [OF rs1(1)] by (metis set_map)
  then have dom: "dom (after ?m rs1) \<subseteq> dom ?m \<union> L" using dom_after_bound [of ?m rs1] by (auto simp: L_def)
  have le: "map_le (cs_blocks (ho_store ho1) |` (- L)) ?m"
    unfolding map_le_def
  proof
    fix i assume i: "i \<in> dom (cs_blocks (ho_store ho1) |` (- L))"
    then have "cs_blocks (ho_store ho1) i = after ?m rs1 i" "i \<notin> L"
      using rs1(2) by (auto simp: map_le_def)
    moreover have "i \<in> dom (cs_blocks (ho_store ho1))" using i by simp
    then have "i \<in> dom ?m" using dom map_le_implies_dom_le [OF rs1(2)] \<open>i \<notin> L\<close> by blast
    then obtain b where "?m i = Some b" by blast
    ultimately show "(cs_blocks (ho_store ho1) |` (- L)) i = ?m i" using after_keeps [of ?m i b rs1] by simp
  qed
  have apart: "bid env ` set bs' \<inter> L = {}"
  proof -
    have False if "b' \<in> set bs'" "b \<in> set bs" "bid env b' = bid env b" "?m (bid env b) = None" for b b'
      using inj_onD [OF inj that(3)] that known by auto
    then show ?thesis by (force simp: L_def)
  qed
  have codec: "same_codec env sh1 rv" using s(1) by (simp add: rs1(3) same_codec_def)
  obtain rs where rs: "map (resolve_block env rv) fbs2 = map Inr rs" "list_all2 (stands_for env) bs' rs" "refs_ok (dom ?m) rs"
    "sh2 = sh1\<lparr>sh_ids := sh_ids sh1 @ map (bid env) bs', sh_root := root_over (en_blake3 env) (sh_root sh1) (map (bid env) bs')\<rparr>"
    using ingest_simulated_but [OF codec _ inj _ _ s(3) le apart ing2] ok by auto
  show thesis by (rule that [OF _ rs(2,3)]) (use rs(1,4) s(2) in \<open>simp_all add: f2 rs1(3)\<close>)
qed

text \<open>
  C31: a frame carries the blocks of its turn only, though its base root is the last acknowledged one and the documentation calls it the delta
  since that root. Start with a shim and a receiver that agree (\<open>in_sync\<close>), let the frame of one turn be lost and ingest another turn before that is noticed. When the receiver
  has every block that occurs in both turns, block ids do not collide and payloads are within the limit, the second frame is accepted: the log of the
  receiver goes on with the second turn and without the first, and reconstructs to that, while the shim believes in both. (If the second turn
  refers to a block that only the lost frame carried, the frame is refused instead.) The shim refuses the acknowledgement of that frame, unless the root in it is one of the shim's own: its present root, its acknowledged one, or that of a prefix of its log.
\<close>

theorem lost_turn_is_skipped:
  assumes "in_sync env sh ho rv" and "\<forall>b \<in> set bs \<union> set bs'. payload_ok b"
    and "inj_on (block_block_id (en_blake3 env)) (set bs \<union> set bs' \<union> ran (cs_blocks (rv_store rv)))"
    and "set bs \<inter> set bs' \<subseteq> {b. cs_blocks (rv_store rv) (block_block_id (en_blake3 env) b) \<noteq> None}"
    and "ingest_turn env outs bs (sh, ho) = (f1, sh1, ho1)" and "ingest_turn env outs' bs' (sh1, ho1) = (f2, sh2, ho2)"
  shows "\<exists>ack rv'. handle_append env outs'' f2 rv = (Inr ack, rv') \<and>
    session_ids (sh_session_id sh) (rv_store rv') = sh_ids sh @ map (block_block_id (en_blake3 env)) bs' \<and>
    receiver_reconstruct (sh_session_id sh) rv' = receiver_reconstruct (sh_session_id sh) rv @ bs' \<and>
    sh_ids sh2 = sh_ids sh @ map (block_block_id (en_blake3 env)) (bs @ bs') \<and>
    (apply_ack (en_blake3 env) (ak_root ack) sh2 = (False, sh2) \<or> ak_root ack \<in> own_roots (en_blake3 env) sh2)"
proof -
  let ?sid = "sh_session_id sh" and ?m = "cs_blocks (rv_store rv)"
  obtain rs where rs: "map (resolve_block env rv) (ap_blocks f2) = map Inr rs" "list_all2 (stands_for env) bs' rs" "refs_ok (dom ?m) rs"
    and f2: "ap_session_id f2 = ?sid" "ap_base_root f2 = sh_root sh" "sh_ids sh2 = sh_ids sh @ map (bid env) (bs @ bs')"
    by (rule lost_turn_frame [OF assms])
  have s: "st_pending (session_entry ?sid rv) = {}" "session_ids ?sid (rv_store rv) = sh_ids sh" "named (en_blake3 env) ?m"
    "session_root ?sid (rv_store rv) = sh_root sh" "set (sh_ids sh) \<subseteq> dom ?m" "rv_sessions rv ?sid = None \<Longrightarrow> sh_ids sh = []"
    using assms(1) by (simp_all add: in_sync_def Let_def)
  have inj: "inj_on (bid env) (set bs' \<union> ran ?m)" by (rule inj_on_subset [OF assms(3)]) auto
  have frame: "ap_base_root f2 = session_root ?sid (rv_store rv)" "set (session_ids ?sid (rv_store rv)) \<subseteq> dom ?m"
    "rv_sessions rv ?sid = None \<Longrightarrow> session_ids ?sid (rv_store rv) = []" using s f2(2) by simp_all
  obtain store' rv' where st: "handle_append env outs'' f2 rv = (Inr \<lparr>ak_session_id = ?sid, ak_root = session_root ?sid store'\<rparr>, rv')"
    "rv' = (put_session ?sid (session_entry ?sid rv) rv)\<lparr>rv_store := store'\<rparr>"
    "session_ids ?sid store' = session_ids ?sid (rv_store rv) @ map (bid env) bs'"
    "receiver_reconstruct ?sid rv' = receiver_reconstruct ?sid rv @ bs'"
    using frame_applied [OF rs inj s(3) f2(1) s(1) frame, of outs''] by blast
  have "rv_store rv' = store'" by (simp add: st(2))
  then show ?thesis using st(1,3,4) s(2) f2(3) apply_ack_own by (intro exI conjI) (assumption | simp | blast)+
qed

theorem lost_turn_is_skipped_witness:
  "\<exists>f1 sh1 ho1 f2 sh2 ho2 ack rv'. ingest_turn dlr_demo [] [demo_block] (demo_shim, demo_host) = (f1, sh1, ho1) \<and>
     ingest_turn dlr_demo [] [block_new Message 1 [], block_new Message 2 [], block_new Message 1 []] (sh1, ho1) = (f2, sh2, ho2) \<and>
     handle_append dlr_demo [] f2 demo_receiver = (Inr ack, rv') \<and>
     receiver_reconstruct 1 rv' = [block_new Message 1 [], block_new Message 2 [], block_new Message 1 []] \<and>
     sh_ids sh2 = map canonical_bytes [demo_block, block_new Message 1 [], block_new Message 2 [], block_new Message 1 []]"
proof -
  let ?b = "block_new Message 1 []" and ?c = "block_new Message 2 []"
  obtain f1 sh1 ho1 where one: "ingest_turn dlr_demo [] [demo_block] (demo_shim, demo_host) = (f1, sh1, ho1)" using prod_cases3 by blast
  obtain f2 sh2 ho2 where two: "ingest_turn dlr_demo [] [?b, ?c, ?b] (sh1, ho1) = (f2, sh2, ho2)" using prod_cases3 by blast
  have ok: "\<forall>b \<in> set [demo_block] \<union> set [?b, ?c, ?b]. payload_ok b" using demo_payloads by simp
  have inj: "inj_on (bid dlr_demo) (set [demo_block] \<union> set [?b, ?c, ?b] \<union> ran (cs_blocks (rv_store demo_receiver)))"
    by (rule inj_on_subset [OF demo_inj]) (use demo_payloads in \<open>simp add: demo_start\<close>)
  have apart: "set [demo_block] \<inter> set [?b, ?c, ?b] \<subseteq> {b. cs_blocks (rv_store demo_receiver) (bid dlr_demo b) \<noteq> None}"
    by (simp add: demo_block_def block_new_def)
  from lost_turn_is_skipped [OF demo_in_sync ok inj apart one two, of "[]"] show ?thesis
    using one two by (auto simp: demo_start demo_id)
qed

end
