(* ===== verification/Spec2Isabelle.thy ===== *)
theory Spec2Isabelle
  imports Multiset_Hash Seq_Hash Canonical_Order Prefix_CRDT Rewriting Accounting Turns Projection
    Permission Change_Journal Batch Request_Trace Streaming Model_Stream Agent_Loop
    Civil_Time Context_Assembly Client Session_Store DLR_Store DLR_MMR Reed_Solomon File_Tools DLR_Protocol
begin

text \<open>
  Verification of the coding agent \<open>marathon\<close>.

  \<^bold>\<open>The program.\<close> An agent loop (\<open>crates/rc-core/src/agent.rs\<close>) sends the turn log of a session to a
  chat-completions model, runs the tool calls the model answers with, appends their results to the
  log, and repeats. Around it stand the assembly of the request prefix (\<open>rc-ctx\<close>, \<open>project.rs\<close>,
  \<open>registry.rs\<close>), the HTTP client and the decoder of its event stream (\<open>rc-proto\<close>), the model adapter
  (\<open>model.rs\<close>), the permission layer (\<open>rc-perm\<close>), the state of a session with its rewind journal
  (\<open>state.rs\<close>, \<open>rc-session\<close>), the algebra with which prompt prefixes are fingerprinted and gossiped
  (\<open>rc-algebra\<close>), and the optional block transport \<open>integrations/dlr\<close>.

  \<^bold>\<open>Conventions.\<close> A \<open>str\<close> or a byte slice is a \<^typ>\<open>string\<close> of bytes (\<open>u8 list\<close> where the bytes are
  computed with), a struct is a \<open>record\<close>, an enum a \<open>datatype\<close>, a \<open>Result\<close> a sum with the error on the
  left, a panic the value \<open>None\<close>. An integer is a word wherever the code can reach its bounds, and an \<open>int\<close> or
  \<open>nat\<close> where it cannot; saturating operations are written out. A method on \<open>&mut self\<close> returns the new
  state. The laws that one component promises another are locales; each is interpreted on the
  definitions of the model in the theory that provides them.

  \<^bold>\<open>Theories, in the order of the imports.\<close>
  \<^item> \<open>Rust_Prelude\<close>: words and saturating arithmetic, UTF-8, the string functions of the standard
    library, JSON values, and the lemmas on lists and options that the components share.
  \<^item> \<open>Algebra_Traits\<close>: the traits of \<open>rc-algebra/src/traits.rs\<close> as locales (monoid, commutative group,
    semilattice), with sharded and reordered reduction, eviction and gossip proved from the laws.
  \<^item> \<open>Multiset_Hash\<close> (\<open>multiset.rs\<close>): \<open>LtHash\<close>, its scalar, AVX2 and NEON kernels and \<open>ContextSet\<close>. The
    kernels agree, the hash depends on the multiset of blocks only, and the accumulator of a context set is
    at every step the hash of its live blocks.
  \<^item> \<open>Seq_Hash\<close> (\<open>seqhash.rs\<close>): the Mersenne arithmetic is exact, and the incremental fingerprint equals the
    polynomial of the sequence.
  \<^item> \<open>Canonical_Order\<close> (\<open>orbit.rs\<close>, \<open>canonical.rs\<close>, \<open>registry.rs\<close>): the canonical representative is
    independent of the order of registration.
  \<^item> \<open>Prefix_CRDT\<close> (\<open>crdt.rs\<close>): what \<open>join\<close> guarantees, and where its laws fail.
  \<^item> \<open>Rewriting\<close> (\<open>rewriting.rs\<close>): bounded normalization, critical pairs, the shipped rules.
  \<^item> \<open>Accounting\<close> (\<open>cost.rs\<close>, \<open>Usage\<close>), \<open>Turns\<close> (\<open>turn.rs\<close>, \<open>tool.rs\<close>, \<open>wire.rs\<close>): costs, and the turn log.
  \<^item> \<open>Projection\<close> (\<open>project.rs\<close>): the messages sent for a log keep every tool call answered exactly once,
    bodies stay below the bound of the provider, chunking loses nothing.
  \<^item> \<open>Bash_Commands\<close>, \<open>Paths\<close>, \<open>Permission\<close> (\<open>rc-perm\<close>): command splitting, containment of paths, rules and the
    three checkers. Deny rules win, a mode never allows what it forbids, containment is decided on
    physical paths.
  \<^item> \<open>Change_Journal\<close> (\<open>state.rs\<close>, \<open>rewind.rs\<close>): the read registry, the background log, the journal with
    partial writes, and the rewind that restores the files.
  \<^item> \<open>Batch\<close> (\<open>execute_batch\<close>): parallel phases of reads between barriers, the checkpoint that survives a
    dropped future, results in the order of the calls.
  \<^item> \<open>Request_Trace\<close>, \<open>Streaming\<close>, \<open>Model_Stream\<close>: the trace sink, the decoder of server-sent events with
    the accumulator of fragmented calls, and \<open>ChatModel\<close> with its replays.
  \<^item> \<open>Agent_Loop\<close>: \<open>AgentLoop::run\<close> with its limits, as a loop over explicit environment calls.
  \<^item> \<open>Civil_Time\<close> (\<open>rc-tokenize/src/time.rs\<close>): the civil date is the Gregorian calendar.
  \<^item> \<open>Context_Assembly\<close> (\<open>rc-ctx\<close>, \<open>context.rs\<close>): the system prompt, file mentions and result caps.
  \<^item> \<open>Client\<close> (\<open>client.rs\<close>): spooled request bodies, retries, the gzip fallback, the event stream.
  \<^item> \<open>Session_Store\<close> (\<open>rc-session/src/lib.rs\<close>): the transcript, its replay after a crash, resuming.
  \<^item> \<open>DLR_Frame\<close> (\<open>integrations/dlr/crates/core\<close>: \<open>block.rs\<close>, \<open>canonical.rs\<close>, \<open>merkle.rs\<close>, \<open>frame.rs\<close>, \<open>session.rs\<close>):
    blocks and frames on the wire. Both codecs are inverted by their parsers, a parsed frame is within the
    limits of the format, the chained root commits to the log, and the one input shape on which the decoder
    panics.
  \<^item> \<open>DLR_Store\<close> (\<open>store.rs\<close>, \<open>wal.rs\<close>): the content-addressed store over two maps, each operation the composition
    of its atomic steps, and its write-ahead log. The store refines the operations on the two maps; a crash that
    cuts the log anywhere behind the last flush is recovered to a prefix of the operations; write errors are
    reported by every later flush; and an interleaving of two threads whose log loses a session.
  \<^item> \<open>DLR_MMR\<close> (\<open>mmr.rs\<close>): the forest of perfect trees in the arena. Every appended block verifies with a proof of
    logarithmic length, nothing else does unless the hash collides, and the forest has the shape of the binary
    numeral of its size.
  \<^item> \<open>GF256\<close>, \<open>GF_Elimination\<close> and \<open>Reed_Solomon\<close> (\<open>integrations/dlr/crates/coding\<close>: \<open>gf256.rs\<close>, \<open>rs.rs\<close>): the byte field.
    The tables compute the product of polynomials, the vector loops of every instruction set agree with the scalar
    one, elimination decides a linear system (a locale for the row properties it keeps, interpreted for solutions,
    kernel vectors and the inverse), and any \<open>k\<close> symbols of a codeword of at most 256 give the data back; past 256
    they need not.
  \<^item> \<open>File_Text\<close> and \<open>File_Tools\<close> (\<open>crates/rc-tools/src\<close>: \<open>util.rs\<close>, \<open>read.rs\<close>, \<open>edit.rs\<close>, \<open>write.rs\<close>, \<open>append.rs\<close>): searching, replacing,
    line endings and listings on strings, and the four tools over the files, the read registry and the journal of
    \<open>Change_Journal\<close>. A call changes at most one file, and one that was there only if it is as the agent last read it; rewinding
    undoes any run of calls on readable text files, for every file that can be restored; an exact edit touches only the match; an append happens once. Two lemmas show where an
    edit hits text it should not.
  \<^item> \<open>DLR_Filter\<close> (\<open>filter.rs\<close>): the cuckoo filter. No key inserted is reported absent while the table keeps its width;
    two lemmas show that widening forgets keys and that in a wide table the bucket determines the fingerprint.
  \<^item> \<open>Fountain\<close> (\<open>integrations/dlr/crates/coding/src/fountain.rs\<close>): the rateless code. Peeling ends, keeps every symbol a true
    combination of the sources, and with elimination of the rest gives the sources back unless some vector is unseen;
    a failed attempt spoils the decoder for the next one. \<open>Bulk\<close> (\<open>bulk.rs\<close>): a payload in generations comes back whole, or the
    generation that lacks symbols is named, when some symbol of each arrived.
  \<^item> \<open>DLR_Compress\<close> (\<open>integrations/dlr/crates/compress\<close>): the block compressor with the contexts that a thread keeps. They do not change
    any result while dictionary ids determine contents, blocks come back and never grow by more than the marker, a
    dictionary stays within its budget and the reference that is picked is a best one.
  \<^item> \<open>DLR_Protocol\<close> (\<open>integrations/dlr/crates/shim\<close>, \<open>integrations/dlr/crates/receiver\<close>): the two ends of log replication over the theories
    above. Ingesting a turn is simulated by its frame, so a session on a connection that loses nothing is replicated block for
    block; a frame can be repeated, a refused one stores and
    appends nothing, though it can register its session, and a lost turn is skipped unnoticed by the receiver.

  \<^bold>\<open>Loops, fuel and bounds.\<close> \<open>AgentLoop::run\<close> is a \<open>while_option\<close>: \<open>None\<close> means that it never returns, and it is
  proved to return whenever the iteration limit is below \<open>u32::MAX\<close>. The loops over retries, stream items
  and decoder input carry measures and are total functions. String rewriting has the step bound of the
  code. The number of awaits that a batch completes before it is dropped is an arbitrary part of its
  state, so a theorem on it holds for every point of interruption. Token counts and costs are words and
  wrap or saturate as in the release build.

  \<^bold>\<open>Parameters.\<close> Code outside the repository is an argument: \<open>serde_json\<close>, \<open>shlex\<close>, \<open>globset\<close>, BLAKE3 and
  SHA-256, \<open>fs::canonicalize\<close>, the HTTP library, the compressor, the disk (with failures and partial
  writes), the model, the user who answers a question, the clocks. A theorem that needs one of their
  laws (a printer that its parser inverts, a line that contains no newline) names it as a hypothesis, and
  its witness instantiates the parameter.

  \<^bold>\<open>Not modelled.\<close> The terminal interface (\<open>rc-tui\<close>) and the command line (\<open>rc-cli\<close>) draw and parse
  through \<open>ratatui\<close>, \<open>crossterm\<close> and \<open>clap\<close>. The shell, search and web tools hand their work to processes, the
  \<open>grep\<close> and \<open>ignore\<close> crates and HTTP. The sandbox, hooks, skills and the MCP client start and supervise
  processes; the DLR sidecar and its transports move frames between sockets.
  The runtime (\<open>rc-rt\<close>) is tasks and channels around the agent loop, and the configuration (\<open>rc-config\<close>) is files that
  \<open>toml\<close> and \<open>serde\<close> read, with a merge of optional fields.
\<close>

end
